(* ===== verification/Prelude.thy ===== *)
theory Prelude
  imports Main "HOL-Library.Word" "HOL-Library.Multiset" "HOL-Library.Monad_Syntax"
begin

text \<open>
  Shared vocabulary of the development: the machine types of the C sources, the failure monad in
  which code that touches memory is written, and the total-correctness calculus used for it.

  A C function that reads or writes memory is a HOL function from the state to
  \<open>('result \<times> 'state) option\<close>; the value \<open>None\<close> stands for undefined behaviour (a read of freed
  memory, a free of a dead block, an out-of-range conversion), so a theorem that the outcome is
  \<open>Some\<close> is a memory-safety theorem. Errors the C code reports are ordinary results.
\<close>

section \<open>Machine types\<close>

type_synonym u8 = "8 word"
type_synonym u16 = "16 word"
type_synonym u32 = "32 word"
type_synonym u64 = "64 word"
type_synonym u128 = "128 word"
type_synonym addr = "64 word"
type_synonym f64 = "64 word"

text \<open>Pointers are 64-bit words and \<open>NULL\<close> is zero; a \<open>double\<close> is its 64-bit pattern.\<close>

abbreviation NULL :: addr where
  "NULL \<equiv> 0"

section \<open>Total correctness in the failure monad\<close>

named_theorems ok_intro \<open>introduction rules for total correctness\<close>
named_theorems ok_simp \<open>unfolding of total correctness along the program text\<close>

definition ok :: "('a \<times> 's) option \<Rightarrow> ('a \<Rightarrow> 's \<Rightarrow> bool) \<Rightarrow> bool" where
  "ok m Q \<longleftrightarrow> (\<exists>x s. m = Some (x, s) \<and> Q x s)"

lemma ok_Some [ok_simp, simp]: "ok (Some (x, s)) Q \<longleftrightarrow> Q x s"
  by (simp add: ok_def)

lemma ok_None [ok_simp, simp]: "\<not> ok None Q"
  by (simp add: ok_def)

lemma ok_bind [ok_simp]: "ok (Option.bind m f) Q \<longleftrightarrow> ok m (\<lambda>x s. ok (f (x, s)) Q)"
  by (auto simp: ok_def Option.bind_eq_Some_conv)

lemma ok_if [ok_simp]:
  "ok (if b then m else n) Q \<longleftrightarrow> (b \<longrightarrow> ok m Q) \<and> (\<not> b \<longrightarrow> ok n Q)"
  by simp

lemma ok_option [ok_simp]:
  "ok (case x of None \<Rightarrow> m | Some y \<Rightarrow> f y) Q \<longleftrightarrow>
     (x = None \<longrightarrow> ok m Q) \<and> (\<forall>y. x = Some y \<longrightarrow> ok (f y) Q)"
  by (cases x) auto

lemma ok_mono: "ok m P \<Longrightarrow> (\<And>x s. P x s \<Longrightarrow> Q x s) \<Longrightarrow> ok m Q"
  by (auto simp: ok_def)

lemma ok_conj: "ok m P \<Longrightarrow> ok m Q \<Longrightarrow> ok m (\<lambda>x s. P x s \<and> Q x s)"
  by (auto simp: ok_def)

lemma ok_SomeE: "ok m Q \<Longrightarrow> (\<And>x s. m = Some (x, s) \<Longrightarrow> Q x s \<Longrightarrow> R) \<Longrightarrow> R"
  by (auto simp: ok_def)

lemma ok_not_None: "ok m Q \<Longrightarrow> m \<noteq> None"
  by (auto simp: ok_def)

section \<open>Components as machines\<close>

text \<open>
  A component offers calls; a client makes a sequence of them. \<open>trace\<close> runs the sequence and \<open>legal\<close>
  says that each call is allowed in the state it is made in.
\<close>

fun trace :: "('c \<Rightarrow> 's \<Rightarrow> ('r \<times> 's) option) \<Rightarrow> 'c list \<Rightarrow> 's \<Rightarrow> ('r list \<times> 's) option" where
  "trace step [] s = Some ([], s)"
| "trace step (c # cs) s =
     do { (r, s) \<leftarrow> step c s; (rs, s) \<leftarrow> trace step cs s; Some (r # rs, s) }"

fun legal :: "('s \<Rightarrow> 'c \<Rightarrow> bool) \<Rightarrow> ('c \<Rightarrow> 's \<Rightarrow> ('r \<times> 's) option) \<Rightarrow> 'c list \<Rightarrow> 's \<Rightarrow> bool" where
  "legal allowed step [] s \<longleftrightarrow> True"
| "legal allowed step (c # cs) s \<longleftrightarrow>
     allowed s c \<and> (case step c s of None \<Rightarrow> True | Some (r, s') \<Rightarrow> legal allowed step cs s')"

text \<open>A machine is safe when an invariant makes every allowed call return and is kept by it.\<close>

locale safe_machine =
  fixes step :: "'c \<Rightarrow> 's \<Rightarrow> ('r \<times> 's) option"
    and allowed :: "'s \<Rightarrow> 'c \<Rightarrow> bool"
    and inv :: "'s \<Rightarrow> bool"
  assumes step_ok: "inv s \<Longrightarrow> allowed s c \<Longrightarrow> ok (step c s) (\<lambda>_. inv)"
begin

lemma trace_ok:
  assumes "inv s" and "legal allowed step cs s"
  shows "ok (trace step cs s) (\<lambda>_. inv)"
  using assms
proof (induction cs arbitrary: s)
  case (Cons c cs)
  obtain r s' where s': "step c s = Some (r, s')" "inv s'"
    using step_ok [of s c] Cons.prems by (auto simp: ok_def)
  then have "ok (trace step cs s') (\<lambda>_. inv)"
    using Cons by simp
  then show ?case
    using s' by (auto simp: ok_def)
qed simp

end

text \<open>
  A machine refines an abstract operation per call when, as long as no failure is recorded, every call
  acts on the abstraction of the state as the abstract operation does.
\<close>

locale refining_machine = safe_machine step allowed inv
  for step :: "'c \<Rightarrow> 's \<Rightarrow> ('r \<times> 's) option" and allowed and inv +
  fixes failed :: "'s \<Rightarrow> bool" and abs :: "'s \<Rightarrow> 'a" and spec :: "'c \<Rightarrow> 'a \<Rightarrow> 'a"
  assumes step_refines: "inv s \<Longrightarrow> allowed s c \<Longrightarrow> step c s = Some (r, s') \<Longrightarrow>
    (failed s \<longrightarrow> failed s') \<and> (\<not> failed s' \<longrightarrow> abs s' = spec c (abs s))"
begin

lemma trace_refines:
  assumes "inv s" and "legal allowed step cs s"
  shows "ok (trace step cs s) (\<lambda>_ s'. inv s' \<and> (failed s \<longrightarrow> failed s') \<and>
    (\<not> failed s' \<longrightarrow> abs s' = fold spec cs (abs s)))"
  using assms
proof (induction cs arbitrary: s)
  case (Cons c cs)
  obtain r s' where s': "step c s = Some (r, s')" "inv s'"
    using step_ok [of s c] Cons.prems by (auto simp: ok_def)
  moreover have "ok (trace step cs s') (\<lambda>_ s''. inv s'' \<and> (failed s' \<longrightarrow> failed s'') \<and>
    (\<not> failed s'' \<longrightarrow> abs s'' = fold spec cs (abs s')))"
    using Cons s' by simp
  moreover have "(failed s \<longrightarrow> failed s') \<and> (\<not> failed s' \<longrightarrow> abs s' = spec c (abs s))"
    using step_refines [OF Cons.prems(1) _ s'(1)] Cons.prems(2) by simp
  ultimately show ?case
    by (auto simp: ok_def)
qed simp

end

text \<open>
  What a client should hold follows from its calls and their results alone. A machine accounts for it when a view of the
  state changes with every call as the client's ledger does.
\<close>

fun account :: "('c \<Rightarrow> 'r \<Rightarrow> 'v \<Rightarrow> 'v) \<Rightarrow> 'c list \<Rightarrow> 'r list \<Rightarrow> 'v \<Rightarrow> 'v" where
  "account ledger (c # cs) (r # rs) v = account ledger cs rs (ledger c r v)"
| "account ledger _ _ v = v"

locale accounting_machine = safe_machine step allowed inv
  for step :: "'c \<Rightarrow> 's \<Rightarrow> ('r \<times> 's) option" and allowed and inv +
  fixes view :: "'s \<Rightarrow> 'v" and ledger :: "'c \<Rightarrow> 'r \<Rightarrow> 'v \<Rightarrow> 'v"
  assumes step_view: "inv s \<Longrightarrow> allowed s c \<Longrightarrow> step c s = Some (r, s') \<Longrightarrow> view s' = ledger c r (view s)"
begin

lemma trace_view:
  assumes "inv s" and "legal allowed step cs s" and "trace step cs s = Some (rs, s')"
  shows "inv s' \<and> view s' = account ledger cs rs (view s)"
  using assms
proof (induction cs arbitrary: s rs)
  case (Cons c cs)
  obtain r s1 where s1: "step c s = Some (r, s1)" "inv s1"
    using step_ok [of s c] Cons.prems by (auto simp: ok_def)
  then obtain rs' where rs: "rs = r # rs'" "trace step cs s1 = Some (rs', s')"
    using Cons.prems(3) by (auto simp: Option.bind_eq_Some_conv)
  then show ?case
    using Cons.IH [OF s1(2) _ rs(2)] Cons.prems(1,2) s1 step_view [of s c r s1] by simp
qed simp

end

end
