(* ===== verification/F64.thy ===== *)
theory F64
  imports Prelude
begin

text \<open>
  IEEE 754 binary64 values as their 64-bit patterns, the view the C sources take through
  \<open>float64_as_uint64\<close> and through unions of \<open>double\<close> and \<open>uint64_t\<close>. Every finite double is an
  integer multiple of \<open>2 ^ -1074\<close>; \<open>f64_units\<close> is that multiple, so comparisons with integers and
  conversions to integers are exact integer arithmetic.
\<close>

unbundle bit_operations_syntax

section \<open>Fields of a double\<close>

definition f64_sign :: "f64 \<Rightarrow> bool" where
  "f64_sign d \<longleftrightarrow> bit d 63"

definition f64_exp :: "f64 \<Rightarrow> nat" where
  "f64_exp d = unat (drop_bit 52 d AND 0x7FF)"

definition f64_mant :: "f64 \<Rightarrow> nat" where
  "f64_mant d = unat (d AND 0xFFFFFFFFFFFFF)"

definition f64_is_nan :: "f64 \<Rightarrow> bool" where
  "f64_is_nan d \<longleftrightarrow> f64_exp d = 2047 \<and> f64_mant d \<noteq> 0"

definition f64_is_inf :: "f64 \<Rightarrow> bool" where
  "f64_is_inf d \<longleftrightarrow> f64_exp d = 2047 \<and> f64_mant d = 0"

definition f64_finite :: "f64 \<Rightarrow> bool" where
  "f64_finite d \<longleftrightarrow> f64_exp d \<noteq> 2047"

text \<open>The magnitude and the signed value of a finite double, in units of \<open>2 ^ -1074\<close>.\<close>

definition f64_mag :: "f64 \<Rightarrow> nat" where
  "f64_mag d =
     (if f64_exp d = 0 then f64_mant d
      else (2 ^ 52 + f64_mant d) * 2 ^ (f64_exp d - 1))"

definition f64_units :: "f64 \<Rightarrow> int" where
  "f64_units d = (if f64_sign d then - int (f64_mag d) else int (f64_mag d))"

section \<open>Comparison with and conversion to and from integers\<close>

text \<open>\<open>d >= n\<close> and \<open>d <= n\<close> for an integer \<open>n\<close>; both are false for a NaN.\<close>

definition f64_ge_int :: "f64 \<Rightarrow> int \<Rightarrow> bool" where
  "f64_ge_int d n \<longleftrightarrow>
     \<not> f64_is_nan d \<and>
     (if f64_is_inf d then \<not> f64_sign d else n * 2 ^ 1074 \<le> f64_units d)"

definition f64_le_int :: "f64 \<Rightarrow> int \<Rightarrow> bool" where
  "f64_le_int d n \<longleftrightarrow>
     \<not> f64_is_nan d \<and>
     (if f64_is_inf d then f64_sign d else f64_units d \<le> n * 2 ^ 1074)"

text \<open>The C conversion of a finite double to an integer type truncates towards zero.\<close>

definition f64_trunc :: "f64 \<Rightarrow> int" where
  "f64_trunc d =
     (if f64_sign d then - int (f64_mag d div 2 ^ 1074) else int (f64_mag d div 2 ^ 1074))"

text \<open>
  The conversion to \<open>int64_t\<close> is defined in C only when the truncated value is representable;
  \<open>None\<close> is the undefined case.
\<close>

definition f64_to_int64 :: "f64 \<Rightarrow> u64 option" where
  "f64_to_int64 d =
     (if f64_finite d \<and> - (2 ^ 63) \<le> f64_trunc d \<and> f64_trunc d < 2 ^ 63
      then Some (word_of_int (f64_trunc d)) else None)"

text \<open>Position of the highest set bit of a positive number.\<close>

fun floor_log2 :: "nat \<Rightarrow> nat" where
  "floor_log2 n = (if n < 2 then 0 else Suc (floor_log2 (n div 2)))"

declare floor_log2.simps [simp del]

text \<open>The exact double of an integer of magnitude below \<open>2 ^ 53\<close>.\<close>

definition f64_of_nat :: "nat \<Rightarrow> f64" where
  "f64_of_nat n =
     (if n = 0 then 0
      else let e = floor_log2 n in
        of_nat ((e + 1023) * 2 ^ 52 + (n - 2 ^ e) * 2 ^ (52 - e)))"

definition f64_of_int :: "int \<Rightarrow> f64" where
  "f64_of_int n =
     (if n < 0 then f64_of_nat (nat (- n)) + 2 ^ 63 else f64_of_nat (nat n))"

section \<open>Facts\<close>

lemma floor_log2_bounds:
  assumes "0 < n"
  shows "2 ^ floor_log2 n \<le> n" and "n < 2 ^ Suc (floor_log2 n)"
proof -
  have "2 ^ floor_log2 n \<le> n \<and> n < 2 ^ Suc (floor_log2 n)"
    using assms
  proof (induction n rule: floor_log2.induct)
    case (1 n)
    show ?case
    proof (cases "n < 2")
      case True
      with "1.prems" show ?thesis by (simp add: floor_log2.simps [of n])
    next
      case False
      then have "2 ^ floor_log2 (n div 2) \<le> n div 2 \<and> n div 2 < 2 ^ Suc (floor_log2 (n div 2))"
        by (intro "1.IH") auto
      then have "2 * 2 ^ floor_log2 (n div 2) \<le> n" and "n < 2 * 2 ^ Suc (floor_log2 (n div 2))"
        by linarith+
      with False show ?thesis by (simp add: floor_log2.simps [of n])
    qed
  qed
  then show "2 ^ floor_log2 n \<le> n" and "n < 2 ^ Suc (floor_log2 n)" by auto
qed

lemma floor_log2_less:
  assumes "0 < n" and "n < 2 ^ k"
  shows "floor_log2 n < k"
proof -
  have "(2 :: nat) ^ floor_log2 n < 2 ^ k"
    using floor_log2_bounds(1) [OF assms(1)] assms(2) by linarith
  then show ?thesis by simp
qed

lemma f64_exp_less: "f64_exp d < 2048"
proof -
  have "unat (drop_bit 52 d AND (0x7FF :: 64 word)) \<le> unat (0x7FF :: 64 word)"
    by (rule word_and_le1 [THEN word_le_nat_alt [THEN iffD1]])
  then show ?thesis by (simp add: f64_exp_def)
qed

lemma f64_mant_less: "f64_mant d < 2 ^ 52"
proof -
  have "unat (d AND (0xFFFFFFFFFFFFF :: 64 word)) \<le> unat (0xFFFFFFFFFFFFF :: 64 word)"
    by (rule word_and_le1 [THEN word_le_nat_alt [THEN iffD1]])
  then show ?thesis by (simp add: f64_mant_def)
qed

lemma f64_mant_mod: "f64_mant d = unat d mod 2 ^ 52"
proof -
  have "(0xFFFFFFFFFFFFF :: 64 word) = mask 52"
    by (simp add: mask_eq_exp_minus_1)
  then have "d AND 0xFFFFFFFFFFFFF = take_bit 52 d"
    by (simp only: take_bit_eq_mask)
  then have "f64_mant d = take_bit 52 (unat d)"
    by (simp only: f64_mant_def unsigned_take_bit_eq)
  then show ?thesis
    by (simp only: take_bit_eq_mod)
qed

end
