(* ===== verification/JSValue.thy ===== *)
theory JSValue
  imports F64
begin

text \<open>
  The value representation of \<open>quickjs.h\<close> on 64-bit hosts (\<open>JS_PTR64\<close>, no NaN boxing): a struct of
  a 64-bit union and a tag. The tags with a reference count are the negative ones; the inline
  predicates and constructors of the header are translated one by one.
\<close>

unbundle bit_operations_syntax

section \<open>Tags\<close>

abbreviation (input) JS_TAG_FIRST :: u32 where "JS_TAG_FIRST \<equiv> - 9"
abbreviation (input) JS_TAG_BIG_INT :: u32 where "JS_TAG_BIG_INT \<equiv> - 9"
abbreviation (input) JS_TAG_SYMBOL :: u32 where "JS_TAG_SYMBOL \<equiv> - 8"
abbreviation (input) JS_TAG_STRING :: u32 where "JS_TAG_STRING \<equiv> - 7"
abbreviation (input) JS_TAG_STRING_ROPE :: u32 where "JS_TAG_STRING_ROPE \<equiv> - 6"
abbreviation (input) JS_TAG_MODULE :: u32 where "JS_TAG_MODULE \<equiv> - 3"
abbreviation (input) JS_TAG_FUNCTION_BYTECODE :: u32 where "JS_TAG_FUNCTION_BYTECODE \<equiv> - 2"
abbreviation (input) JS_TAG_OBJECT :: u32 where "JS_TAG_OBJECT \<equiv> - 1"
abbreviation (input) JS_TAG_INT :: u32 where "JS_TAG_INT \<equiv> 0"
abbreviation (input) JS_TAG_BOOL :: u32 where "JS_TAG_BOOL \<equiv> 1"
abbreviation (input) JS_TAG_NULL :: u32 where "JS_TAG_NULL \<equiv> 2"
abbreviation (input) JS_TAG_UNDEFINED :: u32 where "JS_TAG_UNDEFINED \<equiv> 3"
abbreviation (input) JS_TAG_UNINITIALIZED :: u32 where "JS_TAG_UNINITIALIZED \<equiv> 4"
abbreviation (input) JS_TAG_EXCEPTION :: u32 where "JS_TAG_EXCEPTION \<equiv> 6"
abbreviation (input) JS_TAG_SHORT_BIG_INT :: u32 where "JS_TAG_SHORT_BIG_INT \<equiv> 7"
abbreviation (input) JS_TAG_FLOAT64 :: u32 where "JS_TAG_FLOAT64 \<equiv> 8"

section \<open>Values\<close>

record JSValue =
  jsv_u :: u64
  jsv_tag :: u32

definition JS_MKVAL :: "u32 \<Rightarrow> u32 \<Rightarrow> JSValue" where
  "JS_MKVAL tag val = \<lparr>jsv_u = ucast val, jsv_tag = tag\<rparr>"

definition JS_MKPTR :: "u32 \<Rightarrow> u64 \<Rightarrow> JSValue" where
  "JS_MKPTR tag p = \<lparr>jsv_u = p, jsv_tag = tag\<rparr>"

definition JS_VALUE_HAS_REF_COUNT :: "JSValue \<Rightarrow> bool" where
  "JS_VALUE_HAS_REF_COUNT v \<longleftrightarrow> JS_TAG_FIRST \<le> jsv_tag v"

definition JS_TAG_IS_FLOAT64 :: "u32 \<Rightarrow> bool" where
  "JS_TAG_IS_FLOAT64 tag \<longleftrightarrow> tag = JS_TAG_FLOAT64"

definition JS_NULL :: JSValue where "JS_NULL = JS_MKVAL JS_TAG_NULL 0"
definition JS_UNDEFINED :: JSValue where "JS_UNDEFINED = JS_MKVAL JS_TAG_UNDEFINED 0"
definition JS_EXCEPTION :: JSValue where "JS_EXCEPTION = JS_MKVAL JS_TAG_EXCEPTION 0"

definition JS_NewBool :: "bool \<Rightarrow> JSValue" where
  "JS_NewBool val = JS_MKVAL JS_TAG_BOOL (if val then 1 else 0)"

definition JS_NewInt32 :: "u32 \<Rightarrow> JSValue" where
  "JS_NewInt32 val = JS_MKVAL JS_TAG_INT val"

definition mk_JS_NewFloat64 :: "f64 \<Rightarrow> JSValue" where
  "mk_JS_NewFloat64 d = \<lparr>jsv_u = d, jsv_tag = JS_TAG_FLOAT64\<rparr>"

text \<open>
  \<open>JS_NewFloat64\<close>: a double that is exactly an \<open>int32_t\<close> (and not the negative zero, since the bit
  patterns are compared) is stored as an integer value.
\<close>

definition JS_NewFloat64 :: "f64 \<Rightarrow> JSValue" where
  "JS_NewFloat64 d =
     (if f64_ge_int d (- (2 ^ 31)) \<and> f64_le_int d (2 ^ 31 - 1) \<and> d = f64_of_int (f64_trunc d)
      then JS_MKVAL JS_TAG_INT (word_of_int (f64_trunc d))
      else mk_JS_NewFloat64 d)"

definition JS_IsNumber :: "JSValue \<Rightarrow> bool" where
  "JS_IsNumber v \<longleftrightarrow> jsv_tag v = JS_TAG_INT \<or> JS_TAG_IS_FLOAT64 (jsv_tag v)"

definition JS_IsBigInt :: "JSValue \<Rightarrow> bool" where
  "JS_IsBigInt v \<longleftrightarrow> jsv_tag v = JS_TAG_BIG_INT \<or> jsv_tag v = JS_TAG_SHORT_BIG_INT"

definition JS_IsBool :: "JSValue \<Rightarrow> bool" where
  "JS_IsBool v \<longleftrightarrow> jsv_tag v = JS_TAG_BOOL"

definition JS_IsNull :: "JSValue \<Rightarrow> bool" where
  "JS_IsNull v \<longleftrightarrow> jsv_tag v = JS_TAG_NULL"

definition JS_IsUndefined :: "JSValue \<Rightarrow> bool" where
  "JS_IsUndefined v \<longleftrightarrow> jsv_tag v = JS_TAG_UNDEFINED"

definition JS_IsException :: "JSValue \<Rightarrow> bool" where
  "JS_IsException v \<longleftrightarrow> jsv_tag v = JS_TAG_EXCEPTION"

definition JS_IsString :: "JSValue \<Rightarrow> bool" where
  "JS_IsString v \<longleftrightarrow> jsv_tag v = JS_TAG_STRING \<or> jsv_tag v = JS_TAG_STRING_ROPE"

definition JS_IsObject :: "JSValue \<Rightarrow> bool" where
  "JS_IsObject v \<longleftrightarrow> jsv_tag v = JS_TAG_OBJECT"

lemmas jsvalue_defs =
  JS_MKVAL_def JS_MKPTR_def JS_VALUE_HAS_REF_COUNT_def JS_TAG_IS_FLOAT64_def
  JS_NULL_def JS_UNDEFINED_def JS_EXCEPTION_def JS_NewBool_def JS_NewInt32_def mk_JS_NewFloat64_def
  JS_IsNumber_def JS_IsBigInt_def JS_IsBool_def JS_IsNull_def JS_IsUndefined_def
  JS_IsException_def JS_IsString_def JS_IsObject_def

section \<open>Reference counts and tags\<close>

lemma ref_count_tags [simp]:
  "\<not> JS_VALUE_HAS_REF_COUNT JS_UNDEFINED"
  "\<not> JS_VALUE_HAS_REF_COUNT JS_EXCEPTION"
  "\<not> JS_VALUE_HAS_REF_COUNT JS_NULL"
  "\<not> JS_VALUE_HAS_REF_COUNT (JS_NewBool b)"
  "\<not> JS_VALUE_HAS_REF_COUNT (JS_NewFloat64 d)"
  by (simp_all add: jsvalue_defs JS_NewFloat64_def word_le_def)

lemma exception_no_ref_count [simp]: "JS_IsException v \<Longrightarrow> \<not> JS_VALUE_HAS_REF_COUNT v"
  by (simp add: jsvalue_defs)

lemma JS_IsException_EXCEPTION [simp]: "JS_IsException JS_EXCEPTION"
  by (simp add: jsvalue_defs)

end
