(* ===== verification/Bridge_Mem.thy ===== *)
theory Bridge_Mem
  imports JSValue
begin

text \<open>
  The state the bridge \<open>native/bridge/quickjs_bridge.c\<close> works on: the C heap with the two handle
  structs and the malloc'ed strings, and the QuickJS engine behind each runtime.

  The engine is a parameter: the record \<open>js_engine\<close> has one field per QuickJS function the bridge
  calls, over an arbitrary engine state \<open>'e\<close>, with no assumption on what the functions compute.
  What the model fixes is the ownership convention of \<open>quickjs.h\<close>: a returned \<open>JSValue\<close> is a
  reference owned by the caller, a \<open>JSValue\<close> argument is consumed, a \<open>JSValueConst\<close> argument is
  borrowed. The convention is enforced by a ledger (\<open>refs\<close>, the references the bridge owns;
  \<open>cstrings\<close> and \<open>penums\<close>, the C strings and property tables it has to give back): releasing or
  borrowing a reference that is not owned is undefined behaviour, the value \<open>None\<close>.
\<close>

section \<open>The engine interface\<close>

record 'e js_engine =
  JS_NewRuntime :: "nat \<Rightarrow> 'e option"
  JS_NewContext :: "'e \<Rightarrow> bool \<times> 'e"
  JS_GetException :: "'e \<Rightarrow> JSValue \<times> 'e"
  JS_ToCString :: "JSValue \<Rightarrow> 'e \<Rightarrow> string option \<times> 'e"
  JS_FreeCString :: "string \<Rightarrow> 'e \<Rightarrow> 'e"
  JS_FreeValue :: "JSValue \<Rightarrow> 'e \<Rightarrow> 'e"
  JS_DupValue :: "JSValue \<Rightarrow> 'e \<Rightarrow> 'e"
  JS_Eval :: "string \<Rightarrow> string \<Rightarrow> nat \<Rightarrow> 'e \<Rightarrow> JSValue \<times> 'e"
  JS_GetGlobalObject :: "'e \<Rightarrow> JSValue \<times> 'e"
  JS_GetPropertyStr :: "JSValue \<Rightarrow> string \<Rightarrow> 'e \<Rightarrow> JSValue \<times> 'e"
  JS_GetProperty :: "JSValue \<Rightarrow> u32 \<Rightarrow> 'e \<Rightarrow> JSValue \<times> 'e"
  JS_GetPropertyUint32 :: "JSValue \<Rightarrow> u32 \<Rightarrow> 'e \<Rightarrow> JSValue \<times> 'e"
  JS_SetPropertyStr :: "JSValue \<Rightarrow> string \<Rightarrow> JSValue \<Rightarrow> 'e \<Rightarrow> int \<times> 'e"
  JS_SetPropertyUint32 :: "JSValue \<Rightarrow> u32 \<Rightarrow> JSValue \<Rightarrow> 'e \<Rightarrow> int \<times> 'e"
  JS_NewObject :: "'e \<Rightarrow> JSValue \<times> 'e"
  JS_GetOwnPropertyNames :: "JSValue \<Rightarrow> nat \<Rightarrow> 'e \<Rightarrow> u32 list option \<times> 'e"
  JS_FreePropertyEnum :: "u32 list \<Rightarrow> 'e \<Rightarrow> 'e"
  JS_DefinePropertyValue :: "JSValue \<Rightarrow> u32 \<Rightarrow> JSValue \<Rightarrow> nat \<Rightarrow> 'e \<Rightarrow> int \<times> 'e"
  JS_NewString :: "string \<Rightarrow> 'e \<Rightarrow> JSValue \<times> 'e"
  JS_Call :: "JSValue \<Rightarrow> JSValue \<Rightarrow> JSValue list \<Rightarrow> 'e \<Rightarrow> JSValue \<times> 'e"
  JS_CallConstructor :: "JSValue \<Rightarrow> JSValue list \<Rightarrow> 'e \<Rightarrow> JSValue \<times> 'e"
  JS_ResolveModule :: "JSValue \<Rightarrow> 'e \<Rightarrow> int \<times> 'e"
  JS_EvalFunction :: "JSValue \<Rightarrow> 'e \<Rightarrow> JSValue \<times> 'e"
  JS_GetModuleNamespace :: "u64 \<Rightarrow> 'e \<Rightarrow> JSValue \<times> 'e"
  JS_IsFunction :: "JSValue \<Rightarrow> 'e \<Rightarrow> bool"
  JS_IsArray :: "JSValue \<Rightarrow> 'e \<Rightarrow> int \<times> 'e"
  JS_ToBool :: "JSValue \<Rightarrow> 'e \<Rightarrow> int \<times> 'e"
  JS_ToFloat64 :: "JSValue \<Rightarrow> 'e \<Rightarrow> (int \<times> f64) \<times> 'e"
  JS_SetModuleLoaderFunc2 :: "'e \<Rightarrow> 'e"
  js_init_module_std :: "string \<Rightarrow> 'e \<Rightarrow> bool \<times> 'e"

text \<open>A live engine runtime: its state and the ledger of what the bridge owns in it.\<close>

record 'e engine_inst =
  estate :: 'e
  refs :: "JSValue multiset"
  cstrings :: nat
  penums :: nat

type_synonym ('e, 'a) eop = "'e engine_inst \<Rightarrow> ('a \<times> 'e engine_inst) option"

definition own :: "JSValue \<Rightarrow> 'e engine_inst \<Rightarrow> 'e engine_inst" where
  "own v g = (if JS_VALUE_HAS_REF_COUNT v then g\<lparr>refs := add_mset v (refs g)\<rparr> else g)"

definition owned :: "JSValue \<Rightarrow> 'e engine_inst \<Rightarrow> bool" where
  "owned v g \<longleftrightarrow> (JS_VALUE_HAS_REF_COUNT v \<longrightarrow> v \<in># refs g)"

definition disown :: "JSValue \<Rightarrow> ('e, unit) eop" where
  "disown v g =
     (if owned v g
      then Some ((), if JS_VALUE_HAS_REF_COUNT v then g\<lparr>refs := refs g - {#v#}\<rparr> else g)
      else None)"

text \<open>Calls that return a fresh reference, with the values they borrow, and calls that return a status.\<close>

definition call_value :: "JSValue list \<Rightarrow> ('e \<Rightarrow> JSValue \<times> 'e) \<Rightarrow> ('e, JSValue) eop" where
  "call_value borrowed f g =
     (if list_all (\<lambda>v. owned v g) borrowed
      then (case f (estate g) of (v, e) \<Rightarrow> Some (v, own v (g\<lparr>estate := e\<rparr>)))
      else None)"

definition call_status :: "JSValue list \<Rightarrow> ('e \<Rightarrow> 'a \<times> 'e) \<Rightarrow> ('e, 'a) eop" where
  "call_status borrowed f g =
     (if list_all (\<lambda>v. owned v g) borrowed
      then (case f (estate g) of (r, e) \<Rightarrow> Some (r, g\<lparr>estate := e\<rparr>))
      else None)"

definition call_FreeValue :: "'e js_engine \<Rightarrow> JSValue \<Rightarrow> ('e, unit) eop" where
  "call_FreeValue E v g =
     do { (_, g) \<leftarrow> disown v g;
          Some ((), g\<lparr>estate := JS_FreeValue E v (estate g)\<rparr>) }"

definition call_DupValue :: "'e js_engine \<Rightarrow> JSValue \<Rightarrow> ('e, JSValue) eop" where
  "call_DupValue E v g =
     (if owned v g then Some (v, own v (g\<lparr>estate := JS_DupValue E v (estate g)\<rparr>)) else None)"

definition call_ToCString :: "'e js_engine \<Rightarrow> JSValue \<Rightarrow> ('e, string option) eop" where
  "call_ToCString E v g =
     (if owned v g
      then (case JS_ToCString E v (estate g) of
              (None, e) \<Rightarrow> Some (None, g\<lparr>estate := e\<rparr>)
            | (Some t, e) \<Rightarrow> Some (Some t, g\<lparr>estate := e, cstrings := Suc (cstrings g)\<rparr>))
      else None)"

text \<open>\<open>JS_FreeCString\<close> returns at once on a null pointer.\<close>

definition call_FreeCString :: "'e js_engine \<Rightarrow> string option \<Rightarrow> ('e, unit) eop" where
  "call_FreeCString E t g =
     (case t of
        None \<Rightarrow> Some ((), g)
      | Some t \<Rightarrow>
          if cstrings g = 0 then None
          else Some ((), g\<lparr>estate := JS_FreeCString E t (estate g), cstrings := cstrings g - 1\<rparr>))"

definition call_GetOwnPropertyNames :: "'e js_engine \<Rightarrow> JSValue \<Rightarrow> nat \<Rightarrow> ('e, u32 list option) eop" where
  "call_GetOwnPropertyNames E v flags g =
     (if owned v g
      then (case JS_GetOwnPropertyNames E v flags (estate g) of
              (None, e) \<Rightarrow> Some (None, g\<lparr>estate := e\<rparr>)
            | (Some t, e) \<Rightarrow> Some (Some t, g\<lparr>estate := e, penums := Suc (penums g)\<rparr>))
      else None)"

definition call_FreePropertyEnum :: "'e js_engine \<Rightarrow> u32 list \<Rightarrow> ('e, unit) eop" where
  "call_FreePropertyEnum E t g =
     (if penums g = 0 then None
      else Some ((), g\<lparr>estate := JS_FreePropertyEnum E t (estate g), penums := penums g - 1\<rparr>))"

text \<open>
  A call that consumes the reference \<open>v\<close>: \<open>JS_SetPropertyStr\<close>, \<open>JS_SetPropertyUint32\<close>,
  \<open>JS_DefinePropertyValue\<close> release it on every path, the failing ones included.
\<close>

definition call_consume :: "JSValue list \<Rightarrow> JSValue \<Rightarrow> ('e \<Rightarrow> 'a \<times> 'e) \<Rightarrow> ('e, 'a) eop" where
  "call_consume borrowed v f g =
     do { (r, g) \<leftarrow> call_status borrowed f g;
          (_, g) \<leftarrow> disown v g;
          Some (r, g) }"

definition call_EvalFunction :: "'e js_engine \<Rightarrow> JSValue \<Rightarrow> ('e, JSValue) eop" where
  "call_EvalFunction E fn g =
     do { (_, g) \<leftarrow> disown fn g;
          call_value [] (JS_EvalFunction E fn) g }"

text \<open>
  \<open>JS_Eval\<close> requires \<open>input[input_len]\<close> to be the terminating zero byte, as its comment says; the
  buffer passed is the whole block, terminator included.
\<close>

definition call_Eval :: "'e js_engine \<Rightarrow> string \<Rightarrow> nat \<Rightarrow> string \<Rightarrow> nat \<Rightarrow> ('e, JSValue) eop" where
  "call_Eval E buf len filename flags g =
     (if len < length buf \<and> buf ! len = CHR 0x00
      then call_value [] (JS_Eval E (take len buf) filename flags) g
      else None)"

section \<open>Handles and the C heap\<close>

record 'e js_runtime_handle =
  runtime :: "'e engine_inst option"
  jscontext :: bool
  last_error :: addr
  value_count :: u64
  destroying :: bool
  std_module_enabled :: bool

record js_value_handle =
  vh_runtime :: addr
  vh_value :: JSValue

datatype 'e cell =
    RuntimeCell "'e js_runtime_handle"
  | ValueCell js_value_handle
  | BytesCell string

text \<open>
  What the C file functions answer for a path: whether the seeks succeed, the position \<open>ftell\<close>
  reports and the bytes \<open>fread\<close> can deliver.
\<close>

record cfile =
  seek_end_ok :: bool
  tell_result :: int
  seek_set_ok :: bool
  file_bytes :: string

text \<open>
  \<open>script\<close> holds the answers of the allocator to the coming requests: the next address, or \<open>NULL\<close>
  when it fails. An address in use is never handed out, so any behaviour of \<open>malloc\<close> is some script.
  \<open>nrt\<close> counts the calls of \<open>JS_NewRuntime\<close>, so that they may answer differently. \<open>engines\<close> and \<open>contexts\<close> are the numbers of
  engine runtimes and contexts that have been created and not been freed.
\<close>

record 'e st =
  heap :: "addr \<Rightarrow> 'e cell option"
  script :: "addr list"
  nrt :: nat
  engines :: int
  contexts :: int
  files :: "string \<Rightarrow> cfile option"

type_synonym ('e, 'a) cop = "'e st \<Rightarrow> ('a \<times> 'e st) option"

definition c_alloc :: "'e cell \<Rightarrow> ('e, addr) cop" where
  "c_alloc c s =
     (case script s of
        [] \<Rightarrow> Some (NULL, s)
      | a # rest \<Rightarrow>
          if a = NULL \<or> heap s a \<noteq> None then Some (NULL, s\<lparr>script := rest\<rparr>)
          else Some (a, s\<lparr>script := rest, heap := (heap s)(a \<mapsto> c)\<rparr>))"

definition c_free :: "addr \<Rightarrow> ('e, unit) cop" where
  "c_free a s =
     (if a = NULL then Some ((), s)
      else if heap s a = None then None
      else Some ((), s\<lparr>heap := (heap s)(a := None)\<rparr>))"

definition load_rt :: "addr \<Rightarrow> ('e, 'e js_runtime_handle) cop" where
  "load_rt a s = (case heap s a of Some (RuntimeCell r) \<Rightarrow> Some (r, s) | _ \<Rightarrow> None)"

definition store_rt :: "addr \<Rightarrow> 'e js_runtime_handle \<Rightarrow> ('e, unit) cop" where
  "store_rt a r s =
     (case heap s a of
        Some (RuntimeCell _) \<Rightarrow> Some ((), s\<lparr>heap := (heap s)(a \<mapsto> RuntimeCell r)\<rparr>)
      | _ \<Rightarrow> None)"

definition load_val :: "addr \<Rightarrow> ('e, js_value_handle) cop" where
  "load_val a s = (case heap s a of Some (ValueCell v) \<Rightarrow> Some (v, s) | _ \<Rightarrow> None)"

definition load_bytes :: "addr \<Rightarrow> ('e, string) cop" where
  "load_bytes a s = (case heap s a of Some (BytesCell b) \<Rightarrow> Some (b, s) | _ \<Rightarrow> None)"

text \<open>
  \<open>JS_NewRuntime\<close> and \<open>JS_NewContext\<close>, which may fail, and the release of what they made. \<open>JS_FreeRuntime\<close> asserts that no
  object is left alive, so a reference or C string the bridge still owns aborts the process.
\<close>

definition call_NewRuntime :: "'e js_engine \<Rightarrow> ('e, 'e engine_inst option) cop" where
  "call_NewRuntime E s =
     (case JS_NewRuntime E (nrt s) of
        None \<Rightarrow> Some (None, s\<lparr>nrt := Suc (nrt s)\<rparr>)
      | Some e \<Rightarrow> Some (Some \<lparr>estate = e, refs = {#}, cstrings = 0, penums = 0\<rparr>,
                        s\<lparr>nrt := Suc (nrt s), engines := engines s + 1\<rparr>))"

definition call_NewContext :: "'e js_engine \<Rightarrow> 'e engine_inst \<Rightarrow> ('e, bool \<times> 'e engine_inst) cop" where
  "call_NewContext E g s =
     (case JS_NewContext E (estate g) of
        (False, e) \<Rightarrow> Some ((False, g\<lparr>estate := e\<rparr>), s)
      | (True, e) \<Rightarrow> Some ((True, g\<lparr>estate := e\<rparr>), s\<lparr>contexts := contexts s + 1\<rparr>))"

definition call_FreeContext :: "('e, unit) cop" where
  "call_FreeContext s = Some ((), s\<lparr>contexts := contexts s - 1\<rparr>)"

definition call_FreeRuntime :: "'e engine_inst \<Rightarrow> ('e, unit) cop" where
  "call_FreeRuntime g s =
     (if refs g = {#} \<and> cstrings g = 0 \<and> penums g = 0 then Some ((), s\<lparr>engines := engines s - 1\<rparr>) else None)"

text \<open>Run an engine operation on the runtime and context of a handle.\<close>

definition on_engine :: "addr \<Rightarrow> ('e, 'a) eop \<Rightarrow> ('e, 'a) cop" where
  "on_engine h f s =
     do { (r, s) \<leftarrow> load_rt h s;
          case runtime r of
            None \<Rightarrow> None
          | Some g \<Rightarrow>
              if \<not> jscontext r then None
              else do { (x, g) \<leftarrow> f g;
                        (_, s) \<leftarrow> store_rt h (r\<lparr>runtime := Some g\<rparr>) s;
                        Some (x, s) } }"

end
