(* ===== verification/Bridge.thy ===== *)
theory Bridge
  imports Bridge_Mem
begin

text \<open>
  The operations of \<open>native/bridge/quickjs_bridge.c\<close>, one definition per function, in the order of
  the source. A \<open>const char *\<close> argument is \<open>None\<close> for a null pointer and otherwise the bytes at the
  pointer; the string it denotes ends at the first zero byte (\<open>c_str\<close>). \<open>E\<close> is the engine.
\<close>

abbreviation NUL :: char where
  "NUL \<equiv> CHR 0x00"

definition c_str :: "string \<Rightarrow> string" where
  "c_str t = takeWhile (\<lambda>c. c \<noteq> NUL) t"

definition c_strlen :: "string \<Rightarrow> nat" where
  "c_strlen t = length (c_str t)"

datatype quickjs_value_kind =
    QUICKJS_VALUE_UNDEFINED
  | QUICKJS_VALUE_NULL
  | QUICKJS_VALUE_BOOL
  | QUICKJS_VALUE_NUMBER
  | QUICKJS_VALUE_STRING
  | QUICKJS_VALUE_BIGINT
  | QUICKJS_VALUE_OBJECT
  | QUICKJS_VALUE_FUNCTION

text \<open>A \<open>const char *\<close> result: a string literal of the program or a heap block.\<close>

datatype c_string = Literal string | Block addr

section \<open>Errors\<close>

definition copy_string :: "string option \<Rightarrow> ('e, addr) cop" where
  "copy_string value s =
     (let t = (case value of None \<Rightarrow> ''unknown QuickJS error'' | Some t \<Rightarrow> t)
      in c_alloc (BytesCell (c_str t @ [NUL])) s)"

definition set_error :: "addr \<Rightarrow> string option \<Rightarrow> ('e, unit) cop" where
  "set_error h message s =
     (if h = NULL then Some ((), s)
      else do { (r, s) \<leftarrow> load_rt h s;
                (_, s) \<leftarrow> c_free (last_error r) s;
                (p, s) \<leftarrow> copy_string message s;
                store_rt h (r\<lparr>last_error := p\<rparr>) s })"

definition clear_error :: "addr \<Rightarrow> ('e, unit) cop" where
  "clear_error h s =
     (if h = NULL then Some ((), s)
      else do { (r, s) \<leftarrow> load_rt h s;
                (_, s) \<leftarrow> c_free (last_error r) s;
                store_rt h (r\<lparr>last_error := NULL\<rparr>) s })"

definition capture_exception :: "'e js_engine \<Rightarrow> addr \<Rightarrow> ('e, unit) cop" where
  "capture_exception E h s =
     (if h = NULL then Some ((), s)
      else do { (r, s) \<leftarrow> load_rt h s;
                if \<not> jscontext r then Some ((), s)
                else do { (exc, s) \<leftarrow> on_engine h (call_value [] (JS_GetException E)) s;
                          (message, s) \<leftarrow> on_engine h (call_ToCString E exc) s;
                          (_, s) \<leftarrow> set_error h message s;
                          (_, s) \<leftarrow> on_engine h (call_FreeCString E message) s;
                          on_engine h (call_FreeValue E exc) s } })"

definition valid_runtime :: "addr \<Rightarrow> ('e, bool) cop" where
  "valid_runtime h s =
     (if h = NULL then Some (False, s)
      else do { (r, s) \<leftarrow> load_rt h s;
                Some (runtime r \<noteq> None \<and> jscontext r, s) })"

definition valid_value :: "addr \<Rightarrow> ('e, bool) cop" where
  "valid_value v s =
     (if v = NULL then Some (False, s)
      else do { (vh, s) \<leftarrow> load_val v s;
                valid_runtime (vh_runtime vh) s })"

section \<open>Lifecycle of handles\<close>

text \<open>The engine part of \<open>free_runtime\<close>: the context, which needs its runtime, and then the runtime.\<close>

definition free_engine :: "'e js_runtime_handle \<Rightarrow> ('e, unit) cop" where
  "free_engine r s =
     do { (_, s) \<leftarrow> (if jscontext r then (if runtime r = None then None else call_FreeContext s) else Some ((), s));
          case runtime r of None \<Rightarrow> Some ((), s) | Some g \<Rightarrow> call_FreeRuntime g s }"

definition free_runtime :: "addr \<Rightarrow> ('e, unit) cop" where
  "free_runtime h s =
     (if h = NULL then Some ((), s)
      else do { (r, s) \<leftarrow> load_rt h s;
                (_, s) \<leftarrow> free_engine r s;
                (_, s) \<leftarrow> c_free (last_error r) s;
                c_free h s })"

definition free_runtime_if_ready :: "addr \<Rightarrow> ('e, unit) cop" where
  "free_runtime_if_ready h s =
     (if h = NULL then Some ((), s)
      else do { (r, s) \<leftarrow> load_rt h s;
                if destroying r \<and> value_count r = 0 then free_runtime h s
                else Some ((), s) })"

definition new_value_handle :: "'e js_engine \<Rightarrow> addr \<Rightarrow> JSValue \<Rightarrow> ('e, addr) cop" where
  "new_value_handle E h value s =
     do { (valid, s) \<leftarrow> valid_runtime h s;
          if \<not> valid then Some (NULL, s)
          else do { (a, s) \<leftarrow> c_alloc (ValueCell \<lparr>vh_runtime = h, vh_value = value\<rparr>) s;
                    if a = NULL
                    then do { (_, s) \<leftarrow> on_engine h (call_FreeValue E value) s;
                              (_, s) \<leftarrow> set_error h (Some ''failed to allocate JavaScript value handle'') s;
                              Some (NULL, s) }
                    else do { (r, s) \<leftarrow> load_rt h s;
                              (_, s) \<leftarrow> store_rt h (r\<lparr>value_count := value_count r + 1\<rparr>) s;
                              Some (a, s) } } }"

abbreviation (input) JS_PROP_C_W_E :: nat where "JS_PROP_C_W_E \<equiv> 7"
abbreviation (input) JS_GPN_STRING_ENUM :: nat where "JS_GPN_STRING_ENUM \<equiv> 17"
abbreviation (input) JS_EVAL_TYPE_GLOBAL :: nat where "JS_EVAL_TYPE_GLOBAL \<equiv> 0"
abbreviation (input) JS_EVAL_MODULE_COMPILE_ONLY :: nat where "JS_EVAL_MODULE_COMPILE_ONLY \<equiv> 33"

text \<open>The loop of \<open>new_mutable_namespace_object\<close>; \<open>all\<close> is the property table to give back on failure.\<close>

fun copy_namespace_properties ::
  "'e js_engine \<Rightarrow> addr \<Rightarrow> JSValue \<Rightarrow> JSValue \<Rightarrow> u32 list \<Rightarrow> u32 list \<Rightarrow> ('e, bool) cop" where
  "copy_namespace_properties E h ns object all [] s = Some (True, s)"
| "copy_namespace_properties E h ns object all (atom # atoms) s =
     do { (value, s) \<leftarrow> on_engine h (call_value [ns] (JS_GetProperty E ns atom)) s;
          if JS_IsException value
          then do { (_, s) \<leftarrow> on_engine h (call_FreePropertyEnum E all) s;
                    (_, s) \<leftarrow> on_engine h (call_FreeValue E object) s;
                    Some (False, s) }
          else do { (status, s) \<leftarrow> on_engine h
                      (call_consume [object] value (JS_DefinePropertyValue E object atom value JS_PROP_C_W_E)) s;
                    if status < 0
                    then do { (_, s) \<leftarrow> on_engine h (call_FreePropertyEnum E all) s;
                              (_, s) \<leftarrow> on_engine h (call_FreeValue E object) s;
                              Some (False, s) }
                    else copy_namespace_properties E h ns object all atoms s } }"

definition new_mutable_namespace_object ::
  "'e js_engine \<Rightarrow> addr \<Rightarrow> JSValue \<Rightarrow> ('e, JSValue) cop" where
  "new_mutable_namespace_object E h ns s =
     do { (object, s) \<leftarrow> on_engine h (call_value [] (JS_NewObject E)) s;
          if JS_IsException object then Some (JS_EXCEPTION, s)
          else do { (props, s) \<leftarrow> on_engine h (call_GetOwnPropertyNames E ns JS_GPN_STRING_ENUM) s;
                    case props of
                      None \<Rightarrow> do { (_, s) \<leftarrow> on_engine h (call_FreeValue E object) s;
                                   Some (JS_EXCEPTION, s) }
                    | Some atoms \<Rightarrow>
                        do { (done, s) \<leftarrow> copy_namespace_properties E h ns object atoms atoms s;
                             if \<not> done then Some (JS_EXCEPTION, s)
                             else do { (_, s) \<leftarrow> on_engine h (call_FreePropertyEnum E atoms) s;
                                       Some (object, s) } } } }"

text \<open>\<open>read_file\<close> returns the buffer and the length it stores through the pointer argument.\<close>

definition read_file :: "string \<Rightarrow> ('e, addr \<times> nat) cop" where
  "read_file path s =
     (case files s path of
        None \<Rightarrow> Some ((NULL, 0), s)
      | Some f \<Rightarrow>
          if \<not> seek_end_ok f then Some ((NULL, 0), s)
          else if tell_result f < 0 \<or> \<not> seek_set_ok f then Some ((NULL, 0), s)
          else let size = nat (tell_result f); bytes = take size (file_bytes f) in
               do { (buffer, s) \<leftarrow> c_alloc (BytesCell (bytes @ [NUL])) s;
                    if buffer = NULL then Some ((NULL, 0), s)
                    else if length bytes \<noteq> size
                    then do { (_, s) \<leftarrow> c_free buffer s; Some ((NULL, 0), s) }
                    else Some ((buffer, size), s) })"

section \<open>Runtime operations\<close>

definition zero_runtime_handle :: "'e js_runtime_handle" where
  "zero_runtime_handle =
     \<lparr>runtime = None, jscontext = False, last_error = NULL, value_count = 0,
      destroying = False, std_module_enabled = False\<rparr>"

definition js_runtime_create :: "'e js_engine \<Rightarrow> ('e, addr) cop" where
  "js_runtime_create E s =
     do { (h, s) \<leftarrow> c_alloc (RuntimeCell zero_runtime_handle) s;
          if h = NULL then Some (NULL, s)
          else do {
            (rt, s) \<leftarrow> call_NewRuntime E s;
            case rt of
              None \<Rightarrow> do { (_, s) \<leftarrow> c_free h s; Some (NULL, s) }
            | Some g \<Rightarrow> do {
                ((made, g), s) \<leftarrow> call_NewContext E g s;
                if \<not> made
                then do { (_, s) \<leftarrow> call_FreeRuntime g s; (_, s) \<leftarrow> c_free h s; Some (NULL, s) }
                else do { (_, s) \<leftarrow> store_rt h (zero_runtime_handle\<lparr>runtime := Some g, jscontext := True\<rparr>) s;
                          Some (h, s) } } } }"

definition js_runtime_destroy :: "addr \<Rightarrow> ('e, unit) cop" where
  "js_runtime_destroy h s =
     (if h = NULL then Some ((), s)
      else do { (r, s) \<leftarrow> load_rt h s;
                (_, s) \<leftarrow> store_rt h (r\<lparr>destroying := True\<rparr>) s;
                free_runtime_if_ready h s })"

definition js_runtime_last_error :: "addr \<Rightarrow> ('e, c_string) cop" where
  "js_runtime_last_error h s =
     (if h = NULL then Some (Literal '''', s)
      else do { (r, s) \<leftarrow> load_rt h s;
                Some (if last_error r = NULL then Literal '''' else Block (last_error r), s) })"

definition js_runtime_enable_std_module :: "'e js_engine \<Rightarrow> addr \<Rightarrow> ('e, int) cop" where
  "js_runtime_enable_std_module E h s =
     do { (valid, s) \<leftarrow> valid_runtime h s;
          if \<not> valid then Some (1, s)
          else do { (r, s) \<leftarrow> load_rt h s;
                    if std_module_enabled r then Some (0, s)
                    else do { (_, s) \<leftarrow> clear_error h s;
                              (_, s) \<leftarrow> on_engine h (call_status [] (\<lambda>e. ((), JS_SetModuleLoaderFunc2 E e))) s;
                              (m, s) \<leftarrow> on_engine h (call_status [] (js_init_module_std E ''std'')) s;
                              if \<not> m then do { (_, s) \<leftarrow> capture_exception E h s; Some (1, s) }
                              else do { (r, s) \<leftarrow> load_rt h s;
                                        (_, s) \<leftarrow> store_rt h (r\<lparr>std_module_enabled := True\<rparr>) s;
                                        Some (0, s) } } } }"

definition js_runtime_eval_value :: "'e js_engine \<Rightarrow> addr \<Rightarrow> string option \<Rightarrow> ('e, addr) cop" where
  "js_runtime_eval_value E h source s =
     do { (valid, s) \<leftarrow> valid_runtime h s;
          if \<not> valid then Some (NULL, s)
          else case source of
            None \<Rightarrow> do { (_, s) \<leftarrow> set_error h (Some ''source must not be null'') s; Some (NULL, s) }
          | Some t \<Rightarrow>
              do { (_, s) \<leftarrow> clear_error h s;
                   (value, s) \<leftarrow> on_engine h (call_Eval E (t @ [NUL]) (c_strlen t) ''<eval>'' JS_EVAL_TYPE_GLOBAL) s;
                   if JS_IsException value
                   then do { (_, s) \<leftarrow> capture_exception E h s; Some (NULL, s) }
                   else new_value_handle E h value s } }"

definition js_runtime_get_global_property ::
  "'e js_engine \<Rightarrow> addr \<Rightarrow> string option \<Rightarrow> ('e, addr) cop" where
  "js_runtime_get_global_property E h name s =
     do { (valid, s) \<leftarrow> valid_runtime h s;
          if \<not> valid then Some (NULL, s)
          else case name of
            None \<Rightarrow> do { (_, s) \<leftarrow> set_error h (Some ''global property name must not be null'') s;
                         Some (NULL, s) }
          | Some t \<Rightarrow>
              do { (_, s) \<leftarrow> clear_error h s;
                   (global, s) \<leftarrow> on_engine h (call_value [] (JS_GetGlobalObject E)) s;
                   (value, s) \<leftarrow> on_engine h (call_value [global] (JS_GetPropertyStr E global (c_str t))) s;
                   (_, s) \<leftarrow> on_engine h (call_FreeValue E global) s;
                   if JS_IsException value
                   then do { (_, s) \<leftarrow> capture_exception E h s; Some (NULL, s) }
                   else new_value_handle E h value s } }"

definition js_runtime_new_bool :: "'e js_engine \<Rightarrow> addr \<Rightarrow> u64 \<Rightarrow> ('e, addr) cop" where
  "js_runtime_new_bool E h value s =
     do { (valid, s) \<leftarrow> valid_runtime h s;
          if \<not> valid then Some (NULL, s)
          else do { (_, s) \<leftarrow> clear_error h s;
                    new_value_handle E h (JS_NewBool (value \<noteq> 0)) s } }"

definition js_runtime_new_number :: "'e js_engine \<Rightarrow> addr \<Rightarrow> f64 \<Rightarrow> ('e, addr) cop" where
  "js_runtime_new_number E h value s =
     do { (valid, s) \<leftarrow> valid_runtime h s;
          if \<not> valid then Some (NULL, s)
          else do { (_, s) \<leftarrow> clear_error h s;
                    new_value_handle E h (JS_NewFloat64 value) s } }"

definition js_runtime_new_string :: "'e js_engine \<Rightarrow> addr \<Rightarrow> string option \<Rightarrow> ('e, addr) cop" where
  "js_runtime_new_string E h value s =
     do { (valid, s) \<leftarrow> valid_runtime h s;
          if \<not> valid then Some (NULL, s)
          else case value of
            None \<Rightarrow> do { (_, s) \<leftarrow> set_error h (Some ''string value must not be null'') s; Some (NULL, s) }
          | Some t \<Rightarrow>
              do { (_, s) \<leftarrow> clear_error h s;
                   (js_value, s) \<leftarrow> on_engine h (call_value [] (JS_NewString E (c_str t))) s;
                   if JS_IsException js_value
                   then do { (_, s) \<leftarrow> capture_exception E h s; Some (NULL, s) }
                   else new_value_handle E h js_value s } }"

definition js_runtime_new_bigint :: "'e js_engine \<Rightarrow> addr \<Rightarrow> string option \<Rightarrow> ('e, addr) cop" where
  "js_runtime_new_bigint E h value s =
     do { (valid, s) \<leftarrow> valid_runtime h s;
          if \<not> valid then Some (NULL, s)
          else case value of
            None \<Rightarrow> do { (_, s) \<leftarrow> set_error h (Some ''BigInt value must not be null'') s; Some (NULL, s) }
          | Some t \<Rightarrow>
              do { (_, s) \<leftarrow> clear_error h s;
                   (global, s) \<leftarrow> on_engine h (call_value [] (JS_GetGlobalObject E)) s;
                   (constructor, s) \<leftarrow> on_engine h (call_value [global] (JS_GetPropertyStr E global ''BigInt'')) s;
                   (_, s) \<leftarrow> on_engine h (call_FreeValue E global) s;
                   (arg, s) \<leftarrow> on_engine h (call_value [] (JS_NewString E (c_str t))) s;
                   if JS_IsException arg
                   then do { (_, s) \<leftarrow> on_engine h (call_FreeValue E constructor) s;
                             (_, s) \<leftarrow> capture_exception E h s;
                             Some (NULL, s) }
                   else do { (js_value, s) \<leftarrow> on_engine h
                               (call_value [constructor, arg] (JS_Call E constructor JS_UNDEFINED [arg])) s;
                             (_, s) \<leftarrow> on_engine h (call_FreeValue E arg) s;
                             (_, s) \<leftarrow> on_engine h (call_FreeValue E constructor) s;
                             if JS_IsException js_value
                             then do { (_, s) \<leftarrow> capture_exception E h s; Some (NULL, s) }
                             else new_value_handle E h js_value s } } }"

definition js_runtime_import_module :: "'e js_engine \<Rightarrow> addr \<Rightarrow> string option \<Rightarrow> ('e, addr) cop" where
  "js_runtime_import_module E h path s =
     do { (valid, s) \<leftarrow> valid_runtime h s;
          if \<not> valid then Some (NULL, s)
          else case path of
            None \<Rightarrow> do { (_, s) \<leftarrow> set_error h (Some ''module path must not be null'') s; Some (NULL, s) }
          | Some p \<Rightarrow>
              do { (_, s) \<leftarrow> clear_error h s;
                   ((source, source_length), s) \<leftarrow> read_file (c_str p) s;
                   if source = NULL
                   then do { (_, s) \<leftarrow> set_error h (Some ''failed to read JavaScript module file'') s;
                             Some (NULL, s) }
                   else do {
                     (bytes, s) \<leftarrow> load_bytes source s;
                     (compiled, s) \<leftarrow> on_engine h
                       (call_Eval E bytes source_length (c_str p) JS_EVAL_MODULE_COMPILE_ONLY) s;
                     (_, s) \<leftarrow> c_free source s;
                     if JS_IsException compiled
                     then do { (_, s) \<leftarrow> capture_exception E h s; Some (NULL, s) }
                     else do {
                       (status, s) \<leftarrow> on_engine h (call_status [compiled] (JS_ResolveModule E compiled)) s;
                       if status < 0
                       then do { (_, s) \<leftarrow> on_engine h (call_FreeValue E compiled) s;
                                 (_, s) \<leftarrow> capture_exception E h s;
                                 Some (NULL, s) }
                       else do {
                         (eval_result, s) \<leftarrow> on_engine h (call_EvalFunction E compiled) s;
                         if JS_IsException eval_result
                         then do { (_, s) \<leftarrow> capture_exception E h s; Some (NULL, s) }
                         else do {
                           (_, s) \<leftarrow> on_engine h (call_FreeValue E eval_result) s;
                           (ns, s) \<leftarrow> on_engine h (call_value [] (JS_GetModuleNamespace E (jsv_u compiled))) s;
                           if JS_IsException ns
                           then do { (_, s) \<leftarrow> capture_exception E h s; Some (NULL, s) }
                           else do {
                             (mutable, s) \<leftarrow> new_mutable_namespace_object E h ns s;
                             (_, s) \<leftarrow> on_engine h (call_FreeValue E ns) s;
                             if JS_IsException mutable
                             then do { (_, s) \<leftarrow> capture_exception E h s; Some (NULL, s) }
                             else new_value_handle E h mutable s } } } } } } }"

end
