(* ===== verification/Bridge_Value.thy ===== *)
theory Bridge_Value
  imports Bridge
begin

text \<open>
  The \<open>js_value_\<close> operations of \<open>native/bridge/quickjs_bridge.c\<close>: destroying a handle, inspecting
  and converting its value, property and index access, calls and construction.
\<close>

section \<open>Destruction, inspection and conversion\<close>

definition js_value_destroy :: "'e js_engine \<Rightarrow> addr \<Rightarrow> ('e, unit) cop" where
  "js_value_destroy E v s =
     (if v = NULL then Some ((), s)
      else do { (vh, s) \<leftarrow> load_val v s;
                let h = vh_runtime vh;
                (valid, s) \<leftarrow> valid_runtime h s;
                (_, s) \<leftarrow> (if valid then on_engine h (call_FreeValue E (vh_value vh)) s else Some ((), s));
                (_, s) \<leftarrow> c_free v s;
                if h = NULL then Some ((), s)
                else do { (r, s) \<leftarrow> load_rt h s;
                          if 0 < value_count r
                          then do { (_, s) \<leftarrow> store_rt h (r\<lparr>value_count := value_count r - 1\<rparr>) s;
                                    free_runtime_if_ready h s }
                          else Some ((), s) } })"

definition js_value_kind :: "'e js_engine \<Rightarrow> addr \<Rightarrow> ('e, quickjs_value_kind) cop" where
  "js_value_kind E v s =
     do { (valid, s) \<leftarrow> valid_value v s;
          if \<not> valid then Some (QUICKJS_VALUE_UNDEFINED, s)
          else do { (vh, s) \<leftarrow> load_val v s;
                    let value = vh_value vh;
                    if JS_IsUndefined value then Some (QUICKJS_VALUE_UNDEFINED, s)
                    else if JS_IsNull value then Some (QUICKJS_VALUE_NULL, s)
                    else if JS_IsBool value then Some (QUICKJS_VALUE_BOOL, s)
                    else if JS_IsNumber value then Some (QUICKJS_VALUE_NUMBER, s)
                    else if JS_IsString value then Some (QUICKJS_VALUE_STRING, s)
                    else if JS_IsBigInt value then Some (QUICKJS_VALUE_BIGINT, s)
                    else do { (is_function, s) \<leftarrow> on_engine (vh_runtime vh)
                                (call_status [value] (\<lambda>e. (JS_IsFunction E value e, e))) s;
                              if is_function then Some (QUICKJS_VALUE_FUNCTION, s)
                              else if JS_IsObject value then Some (QUICKJS_VALUE_OBJECT, s)
                              else Some (QUICKJS_VALUE_UNDEFINED, s) } } }"

definition js_value_to_bool :: "'e js_engine \<Rightarrow> addr \<Rightarrow> ('e, int) cop" where
  "js_value_to_bool E v s =
     do { (valid, s) \<leftarrow> valid_value v s;
          if \<not> valid then Some (0, s)
          else do { (vh, s) \<leftarrow> load_val v s;
                    (value, s) \<leftarrow> on_engine (vh_runtime vh)
                      (call_status [vh_value vh] (JS_ToBool E (vh_value vh))) s;
                    if value < 0
                    then do { (_, s) \<leftarrow> set_error (vh_runtime vh)
                                (Some ''failed to convert JavaScript value to boolean'') s;
                              Some (0, s) }
                    else Some (if value \<noteq> 0 then 1 else 0, s) } }"

definition js_value_to_number :: "'e js_engine \<Rightarrow> addr \<Rightarrow> ('e, f64) cop" where
  "js_value_to_number E v s =
     do { (valid, s) \<leftarrow> valid_value v s;
          if \<not> valid then Some (0, s)
          else do { (vh, s) \<leftarrow> load_val v s;
                    ((status, value), s) \<leftarrow> on_engine (vh_runtime vh)
                      (call_status [vh_value vh] (JS_ToFloat64 E (vh_value vh))) s;
                    if status \<noteq> 0
                    then do { (_, s) \<leftarrow> set_error (vh_runtime vh)
                                (Some ''failed to convert JavaScript value to number'') s;
                              Some (0, s) }
                    else Some (value, s) } }"

definition js_value_to_string :: "'e js_engine \<Rightarrow> addr \<Rightarrow> ('e, addr) cop" where
  "js_value_to_string E v s =
     do { (valid, s) \<leftarrow> valid_value v s;
          if \<not> valid then Some (NULL, s)
          else do { (vh, s) \<leftarrow> load_val v s;
                    (value, s) \<leftarrow> on_engine (vh_runtime vh) (call_ToCString E (vh_value vh)) s;
                    if value = None
                    then do { (_, s) \<leftarrow> set_error (vh_runtime vh)
                                (Some ''failed to convert JavaScript value to string'') s;
                              Some (NULL, s) }
                    else do { (copy, s) \<leftarrow> copy_string value s;
                              (_, s) \<leftarrow> on_engine (vh_runtime vh) (call_FreeCString E value) s;
                              if copy = NULL
                              then do { (_, s) \<leftarrow> set_error (vh_runtime vh)
                                          (Some ''failed to allocate JavaScript string result'') s;
                                        Some (copy, s) }
                              else Some (copy, s) } } }"

definition js_bridge_free_string :: "addr \<Rightarrow> ('e, unit) cop" where
  "js_bridge_free_string p s = c_free p s"

definition js_value_is_array :: "'e js_engine \<Rightarrow> addr \<Rightarrow> ('e, int) cop" where
  "js_value_is_array E v s =
     do { (valid, s) \<leftarrow> valid_value v s;
          if \<not> valid then Some (0, s)
          else do { (vh, s) \<leftarrow> load_val v s;
                    (r, s) \<leftarrow> on_engine (vh_runtime vh)
                      (call_status [vh_value vh] (JS_IsArray E (vh_value vh))) s;
                    Some (if r \<noteq> 0 then 1 else 0, s) } }"

text \<open>The cast \<open>(int64_t)number\<close> is undefined when the number does not fit; it is then \<open>None\<close>.\<close>

definition js_value_array_length :: "'e js_engine \<Rightarrow> addr \<Rightarrow> ('e, u64) cop" where
  "js_value_array_length E v s =
     do { (valid, s) \<leftarrow> valid_value v s;
          if \<not> valid then Some (- 1, s)
          else do { (vh, s) \<leftarrow> load_val v s;
                    let h = vh_runtime vh;
                    (len, s) \<leftarrow> on_engine h
                      (call_value [vh_value vh] (JS_GetPropertyStr E (vh_value vh) ''length'')) s;
                    if JS_IsException len
                    then do { (_, s) \<leftarrow> capture_exception E h s; Some (- 1, s) }
                    else do { ((status, number), s) \<leftarrow> on_engine h (call_status [len] (JS_ToFloat64 E len)) s;
                              (_, s) \<leftarrow> on_engine h (call_FreeValue E len) s;
                              if status \<noteq> 0
                              then do { (_, s) \<leftarrow> set_error h
                                          (Some ''failed to convert JavaScript array length'') s;
                                        Some (- 1, s) }
                              else (case f64_to_int64 number of
                                      None \<Rightarrow> None
                                    | Some n \<Rightarrow> Some (n, s)) } } }"

section \<open>Properties and indices\<close>

definition js_value_get_property :: "'e js_engine \<Rightarrow> addr \<Rightarrow> string option \<Rightarrow> ('e, addr) cop" where
  "js_value_get_property E v name s =
     do { (valid, s) \<leftarrow> valid_value v s;
          if \<not> valid then Some (NULL, s)
          else do { (vh, s) \<leftarrow> load_val v s;
                    let h = vh_runtime vh;
                    case name of
                      None \<Rightarrow> do { (_, s) \<leftarrow> set_error h (Some ''property name must not be null'') s;
                                   Some (NULL, s) }
                    | Some t \<Rightarrow>
                        do { (_, s) \<leftarrow> clear_error h s;
                             (value, s) \<leftarrow> on_engine h
                               (call_value [vh_value vh] (JS_GetPropertyStr E (vh_value vh) (c_str t))) s;
                             if JS_IsException value
                             then do { (_, s) \<leftarrow> capture_exception E h s; Some (NULL, s) }
                             else new_value_handle E h value s } } }"

text \<open>\<open>value == NULL || value->runtime != handle->runtime\<close>\<close>

definition foreign_value :: "addr \<Rightarrow> addr \<Rightarrow> ('e, bool) cop" where
  "foreign_value h value s =
     (if value = NULL then Some (True, s)
      else do { (w, s) \<leftarrow> load_val value s;
                Some (vh_runtime w \<noteq> h, s) })"

definition js_value_set_property ::
  "'e js_engine \<Rightarrow> addr \<Rightarrow> string option \<Rightarrow> addr \<Rightarrow> ('e, int) cop" where
  "js_value_set_property E v name value s =
     do { (valid, s) \<leftarrow> valid_value v s;
          if \<not> valid then Some (1, s)
          else do { (vh, s) \<leftarrow> load_val v s;
                    let h = vh_runtime vh;
                    case name of
                      None \<Rightarrow> do { (_, s) \<leftarrow> set_error h (Some ''property name must not be null'') s;
                                   Some (1, s) }
                    | Some t \<Rightarrow>
                        do { (alien, s) \<leftarrow> foreign_value h value s;
                             if alien
                             then do { (_, s) \<leftarrow> set_error h
                                         (Some ''property value does not belong to this runtime'') s;
                                       Some (1, s) }
                             else do { (w, s) \<leftarrow> load_val value s;
                                       (_, s) \<leftarrow> clear_error h s;
                                       (d, s) \<leftarrow> on_engine h (call_DupValue E (vh_value w)) s;
                                       (status, s) \<leftarrow> on_engine h
                                         (call_consume [vh_value vh] d
                                            (JS_SetPropertyStr E (vh_value vh) (c_str t) d)) s;
                                       if status < 0
                                       then do { (_, s) \<leftarrow> capture_exception E h s; Some (1, s) }
                                       else Some (0, s) } } } }"

text \<open>\<open>index\<close> is the \<open>int64_t\<close> argument; the engine receives \<open>(uint32_t)index\<close>.\<close>

definition js_value_get_index :: "'e js_engine \<Rightarrow> addr \<Rightarrow> u64 \<Rightarrow> ('e, addr) cop" where
  "js_value_get_index E v index s =
     do { (valid, s) \<leftarrow> valid_value v s;
          if \<not> valid then Some (NULL, s)
          else do { (vh, s) \<leftarrow> load_val v s;
                    let h = vh_runtime vh;
                    if sint index < 0
                    then do { (_, s) \<leftarrow> set_error h (Some ''array index must not be negative'') s;
                              Some (NULL, s) }
                    else do { (_, s) \<leftarrow> clear_error h s;
                              (value, s) \<leftarrow> on_engine h
                                (call_value [vh_value vh]
                                   (JS_GetPropertyUint32 E (vh_value vh) (ucast index))) s;
                              if JS_IsException value
                              then do { (_, s) \<leftarrow> capture_exception E h s; Some (NULL, s) }
                              else new_value_handle E h value s } } }"

definition js_value_set_index :: "'e js_engine \<Rightarrow> addr \<Rightarrow> u64 \<Rightarrow> addr \<Rightarrow> ('e, int) cop" where
  "js_value_set_index E v index value s =
     do { (valid, s) \<leftarrow> valid_value v s;
          if \<not> valid then Some (1, s)
          else do { (vh, s) \<leftarrow> load_val v s;
                    let h = vh_runtime vh;
                    if sint index < 0
                    then do { (_, s) \<leftarrow> set_error h (Some ''array index must not be negative'') s;
                              Some (1, s) }
                    else do { (alien, s) \<leftarrow> foreign_value h value s;
                              if alien
                              then do { (_, s) \<leftarrow> set_error h
                                          (Some ''array value does not belong to this runtime'') s;
                                        Some (1, s) }
                              else do { (w, s) \<leftarrow> load_val value s;
                                        (_, s) \<leftarrow> clear_error h s;
                                        (d, s) \<leftarrow> on_engine h (call_DupValue E (vh_value w)) s;
                                        (status, s) \<leftarrow> on_engine h
                                          (call_consume [vh_value vh] d
                                             (JS_SetPropertyUint32 E (vh_value vh) (ucast index) d)) s;
                                        if status < 0
                                        then do { (_, s) \<leftarrow> capture_exception E h s; Some (1, s) }
                                        else Some (0, s) } } } }"

section \<open>Calls\<close>

text \<open>
  The loop of \<open>fill_argv\<close> over the argument array; the array has to hold at least the given number
  of pointers. The result is \<open>None\<close> when an argument is refused.
\<close>

fun fill_argv_loop :: "addr \<Rightarrow> addr list \<Rightarrow> nat \<Rightarrow> ('e, JSValue list option) cop" where
  "fill_argv_loop h args 0 s = Some (Some [], s)"
| "fill_argv_loop h [] (Suc n) s = None"
| "fill_argv_loop h (a # args) (Suc n) s =
     do { (alien, s) \<leftarrow> foreign_value h a s;
          if alien
          then do { (_, s) \<leftarrow> set_error h (Some ''argument does not belong to this runtime'') s;
                    Some (None, s) }
          else do { (vh, s) \<leftarrow> load_val a s;
                    (rest, s) \<leftarrow> fill_argv_loop h args n s;
                    Some (map_option ((#) (vh_value vh)) rest, s) } }"

definition fill_argv :: "addr \<Rightarrow> addr list option \<Rightarrow> int \<Rightarrow> ('e, JSValue list option) cop" where
  "fill_argv owner args num_args s =
     do { (valid, s) \<leftarrow> valid_value owner s;
          if \<not> valid then Some (None, s)
          else do { (vh, s) \<leftarrow> load_val owner s;
                    if num_args < 0
                    then do { (_, s) \<leftarrow> set_error (vh_runtime vh)
                                (Some ''argument count must not be negative'') s;
                              Some (None, s) }
                    else if 0 < num_args \<and> args = None
                    then do { (_, s) \<leftarrow> set_error (vh_runtime vh)
                                (Some ''argument array must not be null'') s;
                              Some (None, s) }
                    else fill_argv_loop (vh_runtime vh) (case args of None \<Rightarrow> [] | Some as \<Rightarrow> as)
                           (nat num_args) s } }"

definition js_value_call ::
  "'e js_engine \<Rightarrow> addr \<Rightarrow> addr \<Rightarrow> addr list option \<Rightarrow> int \<Rightarrow> ('e, addr) cop" where
  "js_value_call E func this_value args num_args s =
     do { (valid, s) \<leftarrow> valid_value func s;
          if \<not> valid then Some (NULL, s)
          else do { (vh, s) \<leftarrow> load_val func s;
                    let h = vh_runtime vh;
                    (alien, s) \<leftarrow> (if this_value = NULL then Some (False, s)
                                    else foreign_value h this_value s);
                    if alien
                    then do { (_, s) \<leftarrow> set_error h (Some ''this value does not belong to this runtime'') s;
                              Some (NULL, s) }
                    else if num_args < 0
                    then do { (_, s) \<leftarrow> set_error h (Some ''argument count must not be negative'') s;
                              Some (NULL, s) }
                    else do { (argv, s) \<leftarrow> fill_argv func args num_args s;
                              case argv of
                                None \<Rightarrow> Some (NULL, s)
                              | Some vs \<Rightarrow>
                                  do { (_, s) \<leftarrow> clear_error h s;
                                       (this, s) \<leftarrow>
                                         (if this_value = NULL then Some (JS_UNDEFINED, s)
                                          else do { (t, s) \<leftarrow> load_val this_value s; Some (vh_value t, s) });
                                       (result, s) \<leftarrow> on_engine h
                                         (call_value (vh_value vh # this # vs)
                                            (JS_Call E (vh_value vh) this vs)) s;
                                       if JS_IsException result
                                       then do { (_, s) \<leftarrow> capture_exception E h s; Some (NULL, s) }
                                       else new_value_handle E h result s } } } }"

definition js_value_construct ::
  "'e js_engine \<Rightarrow> addr \<Rightarrow> addr list option \<Rightarrow> int \<Rightarrow> ('e, addr) cop" where
  "js_value_construct E ctor args num_args s =
     do { (valid, s) \<leftarrow> valid_value ctor s;
          if \<not> valid then Some (NULL, s)
          else do { (vh, s) \<leftarrow> load_val ctor s;
                    let h = vh_runtime vh;
                    if num_args < 0
                    then do { (_, s) \<leftarrow> set_error h (Some ''argument count must not be negative'') s;
                              Some (NULL, s) }
                    else do { (argv, s) \<leftarrow> fill_argv ctor args num_args s;
                              case argv of
                                None \<Rightarrow> Some (NULL, s)
                              | Some vs \<Rightarrow>
                                  do { (_, s) \<leftarrow> clear_error h s;
                                       (result, s) \<leftarrow> on_engine h
                                         (call_value (vh_value vh # vs)
                                            (JS_CallConstructor E (vh_value vh) vs)) s;
                                       if JS_IsException result
                                       then do { (_, s) \<leftarrow> capture_exception E h s; Some (NULL, s) }
                                       else new_value_handle E h result s } } } }"

end
