(* ===== verification/Bridge_Inv.thy ===== *)
theory Bridge_Inv
  imports Bridge_Value
begin

text \<open>
  The invariant of the bridge and the rules for the internal steps of its functions.

  Three views of the heap separate the kinds of block: \<open>rts\<close>, \<open>vals\<close> and \<open>strs\<close>. The invariant
  \<open>good s k X c p\<close> says that every runtime handle is complete, that its counter is the number of
  live value handles that point to it, that its error string is a live string no other runtime
  shares, and that the references the bridge owns in the engine are exactly those held by the value
  handles; for the runtime \<open>k\<close> on which an operation is running there may be the references \<open>X\<close>,
  \<open>c\<close> C strings and \<open>p\<close> property tables in addition.
\<close>

section \<open>Views and invariant\<close>

definition rts :: "'e st \<Rightarrow> addr \<Rightarrow> 'e js_runtime_handle option" where
  "rts s h = (case heap s h of Some (RuntimeCell r) \<Rightarrow> Some r | _ \<Rightarrow> None)"

definition vals :: "'e st \<Rightarrow> addr \<Rightarrow> js_value_handle option" where
  "vals s v = (case heap s v of Some (ValueCell vh) \<Rightarrow> Some vh | _ \<Rightarrow> None)"

definition strs :: "'e st \<Rightarrow> addr \<Rightarrow> string option" where
  "strs s p = (case heap s p of Some (BytesCell b) \<Rightarrow> Some b | _ \<Rightarrow> None)"

definition handles_of :: "'e st \<Rightarrow> addr \<Rightarrow> addr set" where
  "handles_of s h = {v. \<exists>vh. vals s v = Some vh \<and> vh_runtime vh = h}"

definition rc :: "JSValue \<Rightarrow> JSValue multiset" where
  "rc v = (if JS_VALUE_HAS_REF_COUNT v then {#v#} else {#})"

definition handle_refs :: "'e st \<Rightarrow> addr \<Rightarrow> JSValue multiset" where
  "handle_refs s h = (\<Sum>v\<in>handles_of s h. rc (vh_value (the (vals s v))))"

definition error_ok :: "'e st \<Rightarrow> addr \<Rightarrow> bool" where
  "error_ok s p \<longleftrightarrow> (p = NULL \<or> (\<exists>t. NUL \<notin> set t \<and> strs s p = Some (t @ [NUL])))"

definition rt_ok ::
  "'e st \<Rightarrow> addr \<Rightarrow> 'e js_runtime_handle \<Rightarrow> JSValue multiset \<Rightarrow> nat \<Rightarrow> nat \<Rightarrow> bool" where
  "rt_ok s h r X c p \<longleftrightarrow>
     jscontext r \<and>
     (\<exists>g. runtime r = Some g \<and> refs g = handle_refs s h + X \<and> cstrings g = c \<and> penums g = p) \<and>
     error_ok s (last_error r) \<and>
     unat (value_count r) = card (handles_of s h)"

definition errors_distinct :: "'e st \<Rightarrow> bool" where
  "errors_distinct s \<longleftrightarrow>
     (\<forall>h h' r r'. rts s h = Some r \<longrightarrow> rts s h' = Some r' \<longrightarrow>
        last_error r = last_error r' \<longrightarrow> last_error r \<noteq> NULL \<longrightarrow> h = h')"

definition good :: "'e st \<Rightarrow> addr \<Rightarrow> JSValue multiset \<Rightarrow> nat \<Rightarrow> nat \<Rightarrow> bool" where
  "good s k X c p \<longleftrightarrow>
     heap s NULL = None \<and>
     (\<forall>v vh. vals s v = Some vh \<longrightarrow> rts s (vh_runtime vh) \<noteq> None) \<and>
     (\<forall>h r. rts s h = Some r \<longrightarrow>
        rt_ok s h r (if h = k then X else {#}) (if h = k then c else 0) (if h = k then p else 0)) \<and>
     errors_distinct s"

text \<open>A runtime handle whose last value handle is gone has been freed if it was being destroyed.\<close>

definition none_overdue :: "'e st \<Rightarrow> bool" where
  "none_overdue s \<longleftrightarrow> (\<forall>h r. rts s h = Some r \<longrightarrow> destroying r \<longrightarrow> value_count r \<noteq> 0)"

definition bridge_inv :: "'e st \<Rightarrow> bool" where
  "bridge_inv s \<longleftrightarrow> good s NULL {#} 0 0 \<and> none_overdue s"

text \<open>
  The string blocks that are no runtime's error string. The accounting in \<open>Bridge_Safety\<close> shows that between calls they are
  exactly the strings handed out to the client and not yet freed.
\<close>

definition client_strs :: "'e st \<Rightarrow> addr \<Rightarrow> string option" where
  "client_strs s p =
     (if \<exists>h r. rts s h = Some r \<and> last_error r = p then None else strs s p)"

text \<open>
  What an operation on the runtime \<open>k\<close> leaves alone: the files, the number of engines, the other runtimes, the client's strings apart
  from the temporary strings \<open>T\<close>, and of the runtime itself the flag that it is being destroyed.
\<close>

definition outside :: "'e st \<Rightarrow> (string \<Rightarrow> cfile option) \<times> int \<times> int" where
  [simp]: "outside s = (files s, engines s, contexts s)"

definition frame :: "addr \<Rightarrow> (addr \<Rightarrow> string option) \<Rightarrow> 'e st \<Rightarrow> 'e st \<Rightarrow> bool" where
  "frame k T s s' \<longleftrightarrow>
     (\<forall>h. h \<noteq> k \<longrightarrow> rts s' h = rts s h) \<and>
     (\<exists>r r'. rts s k = Some r \<and> rts s' k = Some r' \<and> destroying r' = destroying r) \<and>
     client_strs s' = client_strs s ++ T \<and>
     outside s' = outside s"

definition run ::
  "addr \<Rightarrow> 'e st \<Rightarrow> (addr \<Rightarrow> string option) \<Rightarrow> JSValue multiset \<Rightarrow> nat \<Rightarrow> nat \<Rightarrow> 'e st \<Rightarrow> bool" where
  "run k s0 T X c p s \<longleftrightarrow> good s k X c p \<and> frame k T s0 s \<and> vals s = vals s0"

section \<open>Views under heap updates\<close>

lemma rts_heap: "heap s h = Some (RuntimeCell r) \<longleftrightarrow> rts s h = Some r"
  by (auto simp: rts_def split: option.splits cell.splits)

lemma vals_heap: "heap s h = Some (ValueCell r) \<longleftrightarrow> vals s h = Some r"
  by (auto simp: vals_def split: option.splits cell.splits)

lemma strs_heap: "heap s h = Some (BytesCell r) \<longleftrightarrow> strs s h = Some r"
  by (auto simp: strs_def split: option.splits cell.splits)

lemma views_None:
  assumes "heap s a = None"
  shows "rts s a = None" "vals s a = None" "strs s a = None"
  using assms by (simp_all add: rts_def vals_def strs_def)

lemma views_disjoint:
  "rts s a = Some r \<Longrightarrow> vals s a = None" "rts s a = Some r \<Longrightarrow> strs s a = None"
  "vals s a = Some w \<Longrightarrow> rts s a = None" "vals s a = Some w \<Longrightarrow> strs s a = None"
  "strs s a = Some t \<Longrightarrow> rts s a = None" "strs s a = Some t \<Longrightarrow> vals s a = None"
  by (auto simp: rts_def vals_def strs_def split: option.splits cell.splits)

lemma views_upd:
  "rts (s\<lparr>heap := (heap s)(a := c)\<rparr>) =
     (rts s)(a := case c of Some (RuntimeCell r) \<Rightarrow> Some r | _ \<Rightarrow> None)"
  "vals (s\<lparr>heap := (heap s)(a := c)\<rparr>) =
     (vals s)(a := case c of Some (ValueCell r) \<Rightarrow> Some r | _ \<Rightarrow> None)"
  "strs (s\<lparr>heap := (heap s)(a := c)\<rparr>) =
     (strs s)(a := case c of Some (BytesCell r) \<Rightarrow> Some r | _ \<Rightarrow> None)"
  by (auto simp: rts_def vals_def strs_def fun_eq_iff)

lemma views_script [simp]:
  "rts (s\<lparr>script := x\<rparr>) = rts s" "vals (s\<lparr>script := x\<rparr>) = vals s" "strs (s\<lparr>script := x\<rparr>) = strs s"
  "rts (s\<lparr>nrt := n\<rparr>) = rts s" "vals (s\<lparr>nrt := n\<rparr>) = vals s" "strs (s\<lparr>nrt := n\<rparr>) = strs s"
  "rts (s\<lparr>engines := i\<rparr>) = rts s" "vals (s\<lparr>engines := i\<rparr>) = vals s" "strs (s\<lparr>engines := i\<rparr>) = strs s"
  "rts (s\<lparr>contexts := i\<rparr>) = rts s" "vals (s\<lparr>contexts := i\<rparr>) = vals s" "strs (s\<lparr>contexts := i\<rparr>) = strs s"
  by (auto simp: rts_def vals_def strs_def fun_eq_iff)

lemma handles_of_cong: "vals s = vals s' \<Longrightarrow> handles_of s = handles_of s'"
  by (simp add: handles_of_def fun_eq_iff)

lemma handle_refs_cong: "vals s = vals s' \<Longrightarrow> handle_refs s = handle_refs s'"
  by (simp add: handle_refs_def handles_of_def fun_eq_iff)

lemma rc_simps [simp]:
  "rc JS_UNDEFINED = {#}" "rc JS_EXCEPTION = {#}" "rc (JS_NewBool b) = {#}"
  "rc (JS_NewFloat64 d) = {#}"
  by (simp_all add: rc_def)

lemma rc_exception [simp]: "JS_IsException v \<Longrightarrow> rc v = {#}"
  by (simp add: rc_def)

lemma rc_handle:
  assumes "vals s v = Some vh"
  shows "rc (vh_value vh) \<subseteq># handle_refs s (vh_runtime vh)"
proof -
  have "v \<in> handles_of s (vh_runtime vh)"
    using assms by (simp add: handles_of_def)
  then have "handle_refs s (vh_runtime vh) =
      rc (vh_value (the (vals s v))) + (\<Sum>w\<in>handles_of s (vh_runtime vh) - {v}. rc (vh_value (the (vals s w))))"
    by (simp add: handle_refs_def sum.remove)
  with assms show ?thesis by simp
qed

lemma client_strs_error: "rts s h = Some r \<Longrightarrow> client_strs s (last_error r) = None"
  by (auto simp: client_strs_def)

lemma client_strs_None: "strs s a = None \<Longrightarrow> client_strs s a = None"
  by (simp add: client_strs_def)

lemma error_ok_views:
  assumes "error_ok s p" and "p \<noteq> NULL"
  shows "rts s p = None" "vals s p = None" "heap s p \<noteq> None"
  using assms by (auto simp: error_ok_def rts_def vals_def strs_def split: option.splits cell.splits)

section \<open>Runs\<close>

lemma goodI:
  assumes "heap s NULL = None"
    and "\<And>v vh. vals s v = Some vh \<Longrightarrow> rts s (vh_runtime vh) \<noteq> None"
    and "\<And>r. rts s k = Some r \<Longrightarrow> rt_ok s k r X c p"
    and "\<And>h r. h \<noteq> k \<Longrightarrow> rts s h = Some r \<Longrightarrow> rt_ok s h r {#} 0 0"
    and "errors_distinct s"
  shows "good s k X c p"
  using assms by (simp add: good_def)

lemma goodD:
  assumes "good s k X c p"
  shows "heap s NULL = None"
    and "\<And>v vh. vals s v = Some vh \<Longrightarrow> rts s (vh_runtime vh) \<noteq> None"
    and "\<And>r. rts s k = Some r \<Longrightarrow> rt_ok s k r X c p"
    and "\<And>h r. h \<noteq> k \<Longrightarrow> rts s h = Some r \<Longrightarrow> rt_ok s h r {#} 0 0"
    and "errors_distinct s"
proof -
  have *: "rt_ok s h r (if h = k then X else {#}) (if h = k then c else 0) (if h = k then p else 0)"
    if "rts s h = Some r" for h r
    using assms that by (simp add: good_def)
  show "\<And>r. rts s k = Some r \<Longrightarrow> rt_ok s k r X c p"
    using * [of k] by simp
  show "\<And>h r. h \<noteq> k \<Longrightarrow> rts s h = Some r \<Longrightarrow> rt_ok s h r {#} 0 0"
    using * by presburger
qed (use assms in \<open>simp_all add: good_def\<close>)

lemma good_error_ok: "good s k X c p \<Longrightarrow> rts s h = Some r \<Longrightarrow> error_ok s (last_error r)"
  using goodD(3,4) by (metis rt_ok_def)

lemma errors_distinctD:
  "errors_distinct s \<Longrightarrow> rts s h = Some r \<Longrightarrow> rts s h' = Some r' \<Longrightarrow>
   last_error r = last_error r' \<Longrightarrow> last_error r \<noteq> NULL \<Longrightarrow> h = h'"
  by (simp add: errors_distinct_def)

text \<open>\<open>rt_ok\<close> looks at the value handles, the error string and the handle itself only.\<close>

lemma rt_ok_cong:
  assumes "rt_ok s h r X c p" and "vals s' = vals s" and "error_ok s' (last_error r')"
    and "jscontext r' = jscontext r" and "value_count r' = value_count r"
    and "\<exists>g. runtime r' = Some g \<and> refs g = handle_refs s h + Y \<and> cstrings g = c' \<and> penums g = p'"
  shows "rt_ok s' h r' Y c' p'"
  using assms handles_of_cong [of s' s] handle_refs_cong [of s' s] by (simp add: rt_ok_def)

lemma rt_ok_same:
  assumes "rt_ok s h r X c p" and "vals s' = vals s" and "error_ok s' (last_error r')"
    and "jscontext r' = jscontext r" and "value_count r' = value_count r" and "runtime r' = runtime r"
  shows "rt_ok s' h r' X c p"
  using assms by (intro rt_ok_cong [OF assms(1)]) (simp_all add: rt_ok_def)

lemma good_change_focus: "good s k {#} 0 0 \<longleftrightarrow> good s k' {#} 0 0"
  by (simp add: good_def)

lemma frame_refl: "rts s k = Some r \<Longrightarrow> frame k Map.empty s s"
  by (simp add: frame_def)

lemma run_start: "good s k {#} 0 0 \<Longrightarrow> rts s k = Some r \<Longrightarrow> run k s Map.empty {#} 0 0 s"
  by (simp add: run_def frame_refl)

lemma run_rts:
  assumes "run k s0 T X c p s"
  obtains r g where "rts s k = Some r" "jscontext r" "runtime r = Some g"
    "refs g = handle_refs s0 k + X" "cstrings g = c" "penums g = p"
proof -
  from assms obtain r where r: "rts s k = Some r"
    by (auto simp: run_def frame_def)
  with assms have "rt_ok s k r X c p"
    by (force simp: run_def good_def)
  moreover from assms have "handle_refs s = handle_refs s0"
    by (auto simp: run_def intro: handle_refs_cong)
  ultimately show ?thesis
    using r that by (auto simp: rt_ok_def)
qed

lemma run_vals: "run k s0 T X c p s \<Longrightarrow> vals s = vals s0"
  by (simp add: run_def)

lemma run_files: "run k s0 T X c p s \<Longrightarrow> outside s = outside s0"
  by (simp add: run_def frame_def)

text \<open>Only the heap and what is outside of it matter; the allocator's script and the counter do not.\<close>

lemma views_cong:
  assumes "heap s' = heap s"
  shows "rts s' = rts s" "vals s' = vals s" "strs s' = strs s" "client_strs s' = client_strs s"
proof -
  show v: "rts s' = rts s" "vals s' = vals s" "strs s' = strs s"
    using assms by (simp_all add: rts_def vals_def strs_def fun_eq_iff)
  show "client_strs s' = client_strs s"
    by (auto simp: client_strs_def v fun_eq_iff)
qed

lemma good_cong:
  assumes "heap s' = heap s"
  shows "good s' = good s"
  using assms views_cong [OF assms]
  by (simp add: good_def rt_ok_def error_ok_def errors_distinct_def handles_of_def handle_refs_def fun_eq_iff)

lemma run_cong:
  assumes "heap s' = heap s" and "outside s' = outside s"
  shows "run k s0 T X c p s' = run k s0 T X c p s"
  using assms views_cong [OF assms(1)] good_cong [OF assms(1)] by (simp add: run_def frame_def)

end
