(* ===== verification/Bridge_Steps.thy ===== *)
theory Bridge_Steps
  imports Bridge_Inv
begin

text \<open>
  Rules for the internal steps of the bridge's functions, in continuation style: a rule
  \<open>run k s0 T X c p s \<Longrightarrow> (\<And>x s'. run k s0 T X' c' p' s' \<Longrightarrow> Q x s') \<Longrightarrow> ok (step s) Q\<close> consumes one line
  of the C function and changes the ledger by what that line acquires or releases. The collection
  \<open>bridge_rules\<close> lets a proof follow the program text.
\<close>

named_theorems bridge_rules \<open>one rule per statement of the bridge\<close>

lemma ok_bindI [bridge_rules]: "ok m (\<lambda>x s. ok (f (x, s)) Q) \<Longrightarrow> ok (Option.bind m f) Q"
  by (simp add: ok_bind)

lemma ok_ifI [bridge_rules]:
  "(b \<Longrightarrow> ok m Q) \<Longrightarrow> (\<not> b \<Longrightarrow> ok n Q) \<Longrightarrow> ok (if b then m else n) Q"
  by simp

lemma ok_optionI [bridge_rules]:
  "(x = None \<Longrightarrow> ok m Q) \<Longrightarrow> (\<And>y. x = Some y \<Longrightarrow> ok (f y) Q) \<Longrightarrow>
   ok (case x of None \<Rightarrow> m | Some y \<Rightarrow> f y) Q"
  by (cases x) auto

lemma ok_SomeI [bridge_rules]: "Q x s \<Longrightarrow> ok (Some (x, s)) Q"
  by simp

lemma ok_prodI [bridge_rules]: "ok (f x s) Q \<Longrightarrow> ok (case (x, s) of (a, b) \<Rightarrow> f a b) Q"
  by simp

lemma ok_prod_funI [bridge_rules]:
  "ok (f a b s) Q \<Longrightarrow> ok ((case (a, b) of (x, y) \<Rightarrow> f x y) s) Q"
  by simp

lemma ok_prod_fun_splitI [bridge_rules]:
  "(\<And>a b. x = (a, b) \<Longrightarrow> ok (f a b s) Q) \<Longrightarrow> ok ((case x of (a, b) \<Rightarrow> f a b) s) Q"
  by (cases x) simp

section \<open>Engine steps\<close>

lemma run_store_engine:
  assumes run: "run k s0 T X c p s" and r: "rts s k = Some r"
    and g: "refs g = handle_refs s0 k + Y" "cstrings g = c'" "penums g = p'"
  shows "run k s0 T Y c' p' (s\<lparr>heap := (heap s)(k \<mapsto> RuntimeCell (r\<lparr>runtime := Some g\<rparr>))\<rparr>)"
    (is "run k s0 T Y c' p' ?s")
proof -
  from r have k: "vals s k = None" "strs s k = None"
    by (rule views_disjoint)+
  from r run have knz: "k \<noteq> NULL"
    by (auto simp: run_def good_def rts_def)
  have v: "vals ?s = vals s" "strs ?s = strs s"
    using k by (auto simp: views_upd fun_eq_iff)
  have rt: "rts ?s = (rts s)(k \<mapsto> r\<lparr>runtime := Some g\<rparr>)"
    by (simp add: views_upd)
  have same: "handles_of ?s = handles_of s" "handle_refs ?s = handle_refs s" "handle_refs s = handle_refs s0"
    using v run by (auto intro: handles_of_cong handle_refs_cong simp: run_def)
  have cs: "client_strs ?s = client_strs s"
    using r by (auto simp: client_strs_def rt v fun_eq_iff)
  from run have good: "good s k X c p" by (simp add: run_def)
  have err: "error_ok ?s = error_ok s"
    by (simp add: error_ok_def v fun_eq_iff)
  have "good ?s k Y c' p'"
  proof (rule goodI)
    show "rt_ok ?s k r' Y c' p'" if "rts ?s k = Some r'" for r'
      by (rule rt_ok_cong [OF goodD(3) [OF good r]])
        (use that g good_error_ok [OF good r] in \<open>auto simp: rt v err same\<close>)
    show "rt_ok ?s h r' {#} 0 0" if "h \<noteq> k" "rts ?s h = Some r'" for h r'
    proof -
      from that have h: "rts s h = Some r'" by (simp add: rt)
      show ?thesis
        by (rule rt_ok_same [OF goodD(4) [OF good that(1) h]])
          (simp_all add: v err good_error_ok [OF good h])
    qed
    show "errors_distinct ?s"
      using goodD(5) [OF good] r by (auto simp: errors_distinct_def rt split: if_splits)
  qed (use good r knz in \<open>auto simp: rt v dest: goodD\<close>)
  moreover have "frame k T s0 ?s"
    using run r by (auto simp: run_def frame_def rt cs)
  ultimately show ?thesis
    using run v by (simp add: run_def)
qed

text \<open>The engine state behind a runtime handle.\<close>

definition est :: "'e st \<Rightarrow> addr \<Rightarrow> 'e" where
  "est s k = estate (the (runtime (the (rts s k))))"

lemma ok_on_engine:
  assumes run: "run k s0 T X c p s"
    and f: "\<And>g. refs g = handle_refs s0 k + X \<Longrightarrow> cstrings g = c \<Longrightarrow> penums g = p \<Longrightarrow>
       estate g = est s k \<Longrightarrow>
       ok (f g) (\<lambda>x g'. \<exists>Y. refs g' = handle_refs s0 k + Y \<and>
         (\<forall>s'. est s' k = estate g' \<longrightarrow> run k s0 T Y (cstrings g') (penums g') s' \<longrightarrow> Q x s'))"
  shows "ok (on_engine k f s) Q"
proof -
  obtain r g where r: "rts s k = Some r" "jscontext r" "runtime r = Some g"
    "refs g = handle_refs s0 k + X" "cstrings g = c" "penums g = p"
    using run by (rule run_rts)
  obtain x g' Y where f': "f g = Some (x, g')" and g': "refs g' = handle_refs s0 k + Y"
    and Q: "\<And>s'. est s' k = estate g' \<Longrightarrow> run k s0 T Y (cstrings g') (penums g') s' \<Longrightarrow> Q x s'"
    using f [OF r(4-6)] r(1,3) by (auto simp: est_def elim!: ok_SomeE)
  have "heap s k = Some (RuntimeCell r)"
    using r(1) by (simp add: rts_heap)
  then have "on_engine k f s = Some (x, s\<lparr>heap := (heap s)(k \<mapsto> RuntimeCell (r\<lparr>runtime := Some g'\<rparr>))\<rparr>)"
    using r f' by (simp add: on_engine_def load_rt_def store_rt_def)
  moreover have "run k s0 T Y (cstrings g') (penums g')
      (s\<lparr>heap := (heap s)(k \<mapsto> RuntimeCell (r\<lparr>runtime := Some g'\<rparr>))\<rparr>)"
    using run r(1) g' by (rule run_store_engine) simp_all
  ultimately show ?thesis
    using Q by (simp add: est_def views_upd)
qed

text \<open>A borrowed value is one a handle of the runtime holds or one the running operation owns.\<close>

definition lives :: "addr \<Rightarrow> 'e st \<Rightarrow> JSValue multiset \<Rightarrow> JSValue \<Rightarrow> bool" where
  "lives k s0 X v \<longleftrightarrow> rc v \<subseteq># handle_refs s0 k + X"

lemma lives_owned: "refs g = handle_refs s0 k + X \<Longrightarrow> lives k s0 X v \<longleftrightarrow> owned v g"
  by (auto simp: lives_def rc_def owned_def)

lemma lives_loose [intro]: "rc v \<subseteq># X \<Longrightarrow> lives k s0 X v"
  by (simp add: lives_def subset_mset.add_increasing)

lemma lives_handle [intro]: "vals s0 a = Some vh \<Longrightarrow> vh_runtime vh = k \<Longrightarrow> lives k s0 X (vh_value vh)"
  using rc_handle [of s0 a vh] by (auto simp: lives_def intro: subset_mset.add_increasing2)

lemma lives_undefined [simp]: "lives k s0 X JS_UNDEFINED"
  by (simp add: lives_def)

lemma refs_own [simp]:
  "refs (own v g) = refs g + rc v" "cstrings (own v g) = cstrings g" "penums (own v g) = penums g"
  "estate (own v g) = estate g"
  by (auto simp: own_def rc_def)

lemma ok_call_value [bridge_rules]:
  assumes run: "run k s0 T X c p s" and b: "list_all (lives k s0 X) borrowed"
    and Q: "\<And>v s'. f (est s k) = (v, est s' k) \<Longrightarrow> run k s0 T (X + rc v) c p s' \<Longrightarrow> Q v s'"
  shows "ok (on_engine k (call_value borrowed f) s) Q"
  using run
proof (rule ok_on_engine)
  fix g :: "'a engine_inst"
  assume g: "refs g = handle_refs s0 k + X" "cstrings g = c" "penums g = p" "estate g = est s k"
  show "ok (call_value borrowed f g) (\<lambda>x g'. \<exists>Y. refs g' = handle_refs s0 k + Y \<and>
      (\<forall>s'. est s' k = estate g' \<longrightarrow> run k s0 T Y (cstrings g') (penums g') s' \<longrightarrow> Q x s'))"
    using b g Q by (cases "f (estate g)") (auto simp: call_value_def lives_owned list_all_iff ac_simps)
qed

lemma ok_call_status [bridge_rules]:
  assumes run: "run k s0 T X c p s" and b: "list_all (lives k s0 X) borrowed"
    and Q: "\<And>r s'. f (est s k) = (r, est s' k) \<Longrightarrow> run k s0 T X c p s' \<Longrightarrow> Q r s'"
  shows "ok (on_engine k (call_status borrowed f) s) Q"
  using run
proof (rule ok_on_engine)
  fix g :: "'a engine_inst"
  assume g: "refs g = handle_refs s0 k + X" "cstrings g = c" "penums g = p" "estate g = est s k"
  show "ok (call_status borrowed f g) (\<lambda>x g'. \<exists>Y. refs g' = handle_refs s0 k + Y \<and>
      (\<forall>s'. est s' k = estate g' \<longrightarrow> run k s0 T Y (cstrings g') (penums g') s' \<longrightarrow> Q x s'))"
    using b g Q by (cases "f (estate g)") (auto simp: call_status_def lives_owned list_all_iff)
qed

lemma ok_disown:
  assumes "refs g = R + X" and "rc v \<subseteq># X"
  shows "ok (disown v g) (\<lambda>_ g'. refs g' = R + (X - rc v) \<and> cstrings g' = cstrings g \<and>
           penums g' = penums g \<and> estate g' = estate g)"
  using assms by (auto simp: disown_def owned_def rc_def single_subset_iff)

lemma ok_call_FreeValue [bridge_rules]:
  assumes run: "run k s0 T X c p s" and v: "rc v \<subseteq># X"
    and Q: "\<And>s'. run k s0 T (X - rc v) c p s' \<Longrightarrow> Q () s'"
  shows "ok (on_engine k (call_FreeValue E v) s) Q"
  using run
proof (rule ok_on_engine)
  fix g :: "'a engine_inst"
  assume g: "refs g = handle_refs s0 k + X" "cstrings g = c" "penums g = p" "estate g = est s k"
  show "ok (call_FreeValue E v g) (\<lambda>x g'. \<exists>Y. refs g' = handle_refs s0 k + Y \<and>
      (\<forall>s'. est s' k = estate g' \<longrightarrow> run k s0 T Y (cstrings g') (penums g') s' \<longrightarrow> Q x s'))"
    unfolding call_FreeValue_def ok_bind
    by (rule ok_mono [OF ok_disown [OF g(1) v]]) (use g Q in auto)
qed

lemma ok_call_DupValue [bridge_rules]:
  assumes run: "run k s0 T X c p s" and v: "lives k s0 X v"
    and Q: "\<And>s'. run k s0 T (X + rc v) c p s' \<Longrightarrow> Q v s'"
  shows "ok (on_engine k (call_DupValue E v) s) Q"
  using run
proof (rule ok_on_engine)
  fix g :: "'a engine_inst"
  assume g: "refs g = handle_refs s0 k + X" "cstrings g = c" "penums g = p" "estate g = est s k"
  show "ok (call_DupValue E v g) (\<lambda>x g'. \<exists>Y. refs g' = handle_refs s0 k + Y \<and>
      (\<forall>s'. est s' k = estate g' \<longrightarrow> run k s0 T Y (cstrings g') (penums g') s' \<longrightarrow> Q x s'))"
    using v g Q by (auto simp: call_DupValue_def lives_owned ac_simps)
qed

lemma ok_call_ToCString [bridge_rules]:
  assumes run: "run k s0 T X c p s" and v: "lives k s0 X v"
    and Q: "\<And>s'. run k s0 T X c p s' \<Longrightarrow> Q None s'"
      "\<And>t s'. run k s0 T X (Suc c) p s' \<Longrightarrow> Q (Some t) s'"
  shows "ok (on_engine k (call_ToCString E v) s) Q"
  using run
proof (rule ok_on_engine)
  fix g :: "'a engine_inst"
  assume g: "refs g = handle_refs s0 k + X" "cstrings g = c" "penums g = p" "estate g = est s k"
  show "ok (call_ToCString E v g) (\<lambda>x g'. \<exists>Y. refs g' = handle_refs s0 k + Y \<and>
      (\<forall>s'. est s' k = estate g' \<longrightarrow> run k s0 T Y (cstrings g') (penums g') s' \<longrightarrow> Q x s'))"
    using v g Q by (auto simp: call_ToCString_def lives_owned split: option.splits prod.splits)
qed

lemma ok_call_FreeCString_None [bridge_rules]:
  assumes run: "run k s0 T X c p s" and Q: "\<And>s'. run k s0 T X c p s' \<Longrightarrow> Q () s'"
  shows "ok (on_engine k (call_FreeCString E None) s) Q"
  using run by (rule ok_on_engine) (use Q in \<open>auto simp: call_FreeCString_def\<close>)

lemma ok_call_FreeCString_Some [bridge_rules]:
  assumes run: "run k s0 T X (Suc c) p s" and Q: "\<And>s'. run k s0 T X c p s' \<Longrightarrow> Q () s'"
  shows "ok (on_engine k (call_FreeCString E (Some t)) s) Q"
  using run by (rule ok_on_engine) (use Q in \<open>auto simp: call_FreeCString_def\<close>)

lemma ok_call_GetOwnPropertyNames [bridge_rules]:
  assumes run: "run k s0 T X c p s" and v: "lives k s0 X v"
    and Q: "\<And>s'. run k s0 T X c p s' \<Longrightarrow> Q None s'"
      "\<And>t s'. run k s0 T X c (Suc p) s' \<Longrightarrow> Q (Some t) s'"
  shows "ok (on_engine k (call_GetOwnPropertyNames E v flags) s) Q"
  using run
proof (rule ok_on_engine)
  fix g :: "'a engine_inst"
  assume g: "refs g = handle_refs s0 k + X" "cstrings g = c" "penums g = p" "estate g = est s k"
  show "ok (call_GetOwnPropertyNames E v flags g) (\<lambda>x g'. \<exists>Y. refs g' = handle_refs s0 k + Y \<and>
      (\<forall>s'. est s' k = estate g' \<longrightarrow> run k s0 T Y (cstrings g') (penums g') s' \<longrightarrow> Q x s'))"
    using v g Q by (auto simp: call_GetOwnPropertyNames_def lives_owned split: option.splits prod.splits)
qed

lemma ok_call_FreePropertyEnum [bridge_rules]:
  assumes run: "run k s0 T X c (Suc p) s" and Q: "\<And>s'. run k s0 T X c p s' \<Longrightarrow> Q () s'"
  shows "ok (on_engine k (call_FreePropertyEnum E t) s) Q"
  using run by (rule ok_on_engine) (use Q in \<open>auto simp: call_FreePropertyEnum_def\<close>)

lemma ok_call_consume [bridge_rules]:
  assumes run: "run k s0 T X c p s" and b: "list_all (lives k s0 X) borrowed" and v: "rc v \<subseteq># X"
    and Q: "\<And>r s'. run k s0 T (X - rc v) c p s' \<Longrightarrow> Q r s'"
  shows "ok (on_engine k (call_consume borrowed v f) s) Q"
  using run
proof (rule ok_on_engine)
  fix g :: "'a engine_inst"
  assume g: "refs g = handle_refs s0 k + X" "cstrings g = c" "penums g = p" "estate g = est s k"
  obtain r e where f: "f (estate g) = (r, e)" by force
  have "call_status borrowed f g = Some (r, g\<lparr>estate := e\<rparr>)"
    using b g f by (auto simp: call_status_def lives_owned list_all_iff)
  moreover have "refs (g\<lparr>estate := e\<rparr>) = handle_refs s0 k + X"
    using g by simp
  then have "ok (disown v (g\<lparr>estate := e\<rparr>)) (\<lambda>_ g'. \<exists>Y. refs g' = handle_refs s0 k + Y \<and>
      (\<forall>s'. est s' k = estate g' \<longrightarrow> run k s0 T Y (cstrings g') (penums g') s' \<longrightarrow> Q r s'))"
    by (rule ok_mono [OF ok_disown [OF _ v]]) (use g Q in auto)
  ultimately show "ok (call_consume borrowed v f g) (\<lambda>x g'. \<exists>Y. refs g' = handle_refs s0 k + Y \<and>
      (\<forall>s'. est s' k = estate g' \<longrightarrow> run k s0 T Y (cstrings g') (penums g') s' \<longrightarrow> Q x s'))"
    by (simp add: call_consume_def ok_bind)
qed

lemma ok_call_EvalFunction [bridge_rules]:
  assumes run: "run k s0 T X c p s" and v: "rc fn \<subseteq># X"
    and Q: "\<And>v s'. run k s0 T (X - rc fn + rc v) c p s' \<Longrightarrow> Q v s'"
  shows "ok (on_engine k (call_EvalFunction E fn) s) Q"
  using run
proof (rule ok_on_engine)
  fix g :: "'a engine_inst"
  assume g: "refs g = handle_refs s0 k + X" "cstrings g = c" "penums g = p" "estate g = est s k"
  show "ok (call_EvalFunction E fn g) (\<lambda>x g'. \<exists>Y. refs g' = handle_refs s0 k + Y \<and>
      (\<forall>s'. est s' k = estate g' \<longrightarrow> run k s0 T Y (cstrings g') (penums g') s' \<longrightarrow> Q x s'))"
    unfolding call_EvalFunction_def ok_bind
    by (rule ok_mono [OF ok_disown [OF g(1) v]])
      (use g Q in \<open>auto simp: call_value_def ac_simps split: prod.splits\<close>)
qed

lemma ok_call_Eval [bridge_rules]:
  assumes run: "run k s0 T X c p s" and nul: "len < length buf" "buf ! len = NUL"
    and Q: "\<And>v s'. run k s0 T (X + rc v) c p s' \<Longrightarrow> Q v s'"
  shows "ok (on_engine k (call_Eval E buf len name flags) s) Q"
proof -
  have "call_Eval E buf len name flags = call_value [] (JS_Eval E (take len buf) name flags)"
    using nul by (auto simp: call_Eval_def)
  then show ?thesis
    using run Q by (auto intro: ok_call_value)
qed

end
