(* ===== verification/Bridge_Errors.thy ===== *)
theory Bridge_Errors
  imports Bridge_Steps
begin

text \<open>
  Rules for the parts of the bridge that touch the C heap during an operation: the error string,
  temporary strings, the file buffer, and the creation of a value handle.
\<close>

section \<open>Validity checks and loads\<close>

lemma ok_load_rt [bridge_rules]:
  assumes "run k s0 T X c p s"
    and "\<And>r g. rts s k = Some r \<Longrightarrow> jscontext r \<Longrightarrow> runtime r = Some g \<Longrightarrow> Q r s"
  shows "ok (load_rt k s) Q"
proof -
  obtain r g where "rts s k = Some r" "jscontext r" "runtime r = Some g"
    using assms(1) by (rule run_rts)
  with assms(2) show ?thesis
    by (simp add: load_rt_def flip: rts_heap)
qed

lemma ok_load_val [bridge_rules]:
  assumes "run k s0 T X c p s" and "vals s0 v = Some vh" and "Q vh s"
  shows "ok (load_val v s) Q"
proof -
  have "vals s v = Some vh"
    using assms(2) run_vals [OF assms(1)] by simp
  then have "heap s v = Some (ValueCell vh)"
    by (simp add: vals_heap)
  with assms(3) show ?thesis
    by (simp add: load_val_def)
qed

lemma run_not_NULL: "run k s0 T X c p s \<Longrightarrow> k \<noteq> NULL"
  by (auto simp: run_def good_def frame_def rts_def)

lemma ok_valid_runtime [bridge_rules]:
  assumes "run k s0 T X c p s" and "Q True s"
  shows "ok (valid_runtime k s) Q"
proof -
  obtain r g where "rts s k = Some r" "jscontext r" "runtime r = Some g"
    using assms(1) by (rule run_rts)
  with assms(2) run_not_NULL [OF assms(1)] show ?thesis
    by (simp add: valid_runtime_def ok_bind load_rt_def flip: rts_heap)
qed

lemma good_val_not_NULL: "good s k X c p \<Longrightarrow> vals s v = Some vh \<Longrightarrow> v \<noteq> NULL"
  by (auto simp: good_def vals_def)

lemma ok_valid_value [bridge_rules]:
  assumes run: "run (vh_runtime vh) s0 T X c p s" and v: "vals s0 v = Some vh" and Q: "Q True s"
  shows "ok (valid_value v s) Q"
proof -
  have "v \<noteq> NULL"
    using run v good_val_not_NULL [of s "vh_runtime vh" X c p v vh] by (simp add: run_def)
  then show ?thesis
    unfolding valid_value_def
    by (simp add: ok_bind) (rule ok_load_val [OF run v] ok_valid_runtime [OF run] Q)+
qed

section \<open>The error string\<close>

lemma c_str_no_NUL [simp]: "NUL \<notin> set (c_str t)"
  unfolding c_str_def using set_takeWhileD by fastforce

text \<open>
  Replacing the error string \<open>last_error r\<close> of the runtime \<open>k\<close> by \<open>q\<close>, which is \<open>NULL\<close> or a block
  that was not in use, keeps the invariant and the frame.
\<close>

lemma run_last_error:
  assumes run: "run k s0 T X c p s" and r: "rts s k = Some r"
    and rt: "rts s' = (rts s)(k \<mapsto> r\<lparr>last_error := q\<rparr>)"
    and vs: "vals s' = vals s" and files: "outside s' = outside s"
    and NULL: "heap s' NULL = None"
    and ss: "\<And>a. strs s' a = (if a = q \<and> q \<noteq> NULL then Some (t @ [NUL])
                 else if a = last_error r \<and> a \<noteq> NULL then None else strs s a)"
    and t: "NUL \<notin> set t"
    and q: "q \<noteq> NULL \<Longrightarrow> q = last_error r \<or> heap s q = None"
  shows "run k s0 T X c p s'"
proof -
  have good: "good s k X c p" using run by (simp add: run_def)
  have err: "\<And>h r'. rts s h = Some r' \<Longrightarrow> error_ok s (last_error r')"
    using good by (rule good_error_ok)
  have dist: "h = k" if "rts s h = Some r'" "last_error r' = last_error r" "last_error r \<noteq> NULL" for h r'
    using errors_distinctD [OF goodD(5) [OF good] that(1) r that(2)] that by simp
  have other: "last_error r' \<noteq> q" if "rts s h = Some r'" "h \<noteq> k" "q \<noteq> NULL" for h r'
    using err [OF that(1)] dist [OF that(1)] that q by (auto simp: error_ok_def strs_def)
  have keep: "error_ok s' (last_error r')" if "rts s h = Some r'" "h \<noteq> k" for h r'
    using err [OF that(1)] dist [OF that(1)] other [OF that] that by (auto simp: error_ok_def ss)
  have new: "error_ok s' q"
    using t by (auto simp: error_ok_def ss)
  have "good s' k X c p"
  proof (rule goodI)
    show "rt_ok s' k r' X c p" if "rts s' k = Some r'" for r'
      by (rule rt_ok_same [OF goodD(3) [OF good r]]) (use that new in \<open>auto simp: rt vs\<close>)
    show "rt_ok s' h r' {#} 0 0" if "h \<noteq> k" "rts s' h = Some r'" for h r'
    proof -
      from that have h: "rts s h = Some r'" by (simp add: rt)
      show ?thesis
        by (rule rt_ok_same [OF goodD(4) [OF good that(1) h]]) (simp_all add: vs keep [OF h that(1)])
    qed
    have "\<forall>h r'. rts s h = Some r' \<longrightarrow> h \<noteq> k \<longrightarrow> last_error r' = q \<longrightarrow> q = NULL"
      using other by blast
    with goodD(5) [OF good] show "errors_distinct s'"
      unfolding errors_distinct_def by (auto simp: rt split: if_splits)
  qed (use good NULL r in \<open>auto simp: rt vs dest: goodD(2)\<close>)
  moreover have "client_strs s' a = client_strs s a" for a
  proof -
    have k': "rts s' k = Some (r\<lparr>last_error := q\<rparr>)" by (simp add: rt)
    consider "a = NULL" | "a \<noteq> NULL" "a = q" | "a \<noteq> NULL" "a \<noteq> q" "a = last_error r"
      | "a \<noteq> NULL" "a \<noteq> q" "a \<noteq> last_error r" by blast
    then show ?thesis
    proof cases
      case 1
      then show ?thesis
        using NULL goodD(1) [OF good] by (simp add: client_strs_None views_None)
    next
      case 2
      then have "client_strs s a = None"
        using q client_strs_error [OF r] by (auto intro: client_strs_None dest: views_None)
      with 2 show ?thesis
        using client_strs_error [OF k'] by simp
    next
      case 3
      then show ?thesis
        using client_strs_error [OF r] by (simp add: client_strs_None ss)
    next
      case 4
      then have "(\<exists>h r'. rts s' h = Some r' \<and> last_error r' = a) \<longleftrightarrow>
          (\<exists>h r'. rts s h = Some r' \<and> last_error r' = a)"
        using r by (auto simp: rt split: if_splits) (metis option.inject)
      with 4 show ?thesis
        by (auto simp: client_strs_def ss)
    qed
  qed
  ultimately show ?thesis
    using run r files unfolding run_def frame_def by (auto simp: rt vs)
qed

lemma ok_clear_error [bridge_rules]:
  assumes run: "run k s0 T X c p s" and Q: "\<And>s'. run k s0 T X c p s' \<Longrightarrow> Q () s'"
  shows "ok (clear_error k s) Q"
proof -
  obtain r where r: "rts s k = Some r"
    using run by (rule run_rts)
  have knz: "k \<noteq> NULL" and k: "heap s k = Some (RuntimeCell r)"
    using run_not_NULL [OF run] r by (simp_all add: rts_heap)
  have err: "error_ok s (last_error r)"
    using run r by (auto simp: run_def good_def rt_ok_def)
  then have live: "last_error r = NULL \<or> heap s (last_error r) \<noteq> None"
    and neq: "last_error r \<noteq> k"
    using knz k by (auto simp: error_ok_def strs_def split: option.splits)
  let ?s1 = "if last_error r = NULL then s else s\<lparr>heap := (heap s)(last_error r := None)\<rparr>"
  let ?s2 = "?s1\<lparr>heap := (heap ?s1)(k \<mapsto> RuntimeCell (r\<lparr>last_error := NULL\<rparr>))\<rparr>"
  have "clear_error k s = Some ((), ?s2)"
    using knz k live neq by (auto simp: clear_error_def load_rt_def c_free_def store_rt_def)
  moreover have "run k s0 T X c p ?s2"
  proof (rule run_last_error [OF run r, where q = NULL and t = "''''"])
    show "rts ?s2 = (rts s)(k \<mapsto> r\<lparr>last_error := NULL\<rparr>)"
      using error_ok_views [OF err] by (auto simp: views_upd fun_eq_iff)
    show "vals ?s2 = vals s"
      using error_ok_views [OF err] views_disjoint(1) [OF r] by (auto simp: views_upd fun_eq_iff)
    show "heap ?s2 NULL = None"
      using run knz by (simp add: run_def good_def)
  qed (use views_disjoint(2) [OF r] in \<open>auto simp: views_upd\<close>)
  ultimately show ?thesis
    using Q by simp
qed

lemma c_alloc_cases:
  obtains a s' where "c_alloc cell s = Some (a, s')"
    and "a \<noteq> NULL \<Longrightarrow> heap s a = None"
    and "heap s' = (if a = NULL then heap s else (heap s)(a \<mapsto> cell))"
    and "outside s' = outside s" and "nrt s' = nrt s"
proof (cases "script s")
  case Nil
  then show ?thesis
    using that [of NULL s] by (simp add: c_alloc_def)
next
  case (Cons a rest)
  show ?thesis
  proof (cases "a = NULL \<or> heap s a \<noteq> None")
    case True
    with Cons show ?thesis
      using that [of NULL "s\<lparr>script := rest\<rparr>"] by (simp add: c_alloc_def)
  next
    case False
    with Cons show ?thesis
      using that [of a "s\<lparr>script := rest, heap := (heap s)(a \<mapsto> cell)\<rparr>"] by (simp add: c_alloc_def)
  qed
qed

lemma ok_set_error [bridge_rules]:
  assumes run: "run k s0 T X c p s" and Q: "\<And>s'. run k s0 T X c p s' \<Longrightarrow> Q () s'"
  shows "ok (set_error k message s) Q"
proof -
  obtain r where r: "rts s k = Some r"
    using run by (rule run_rts)
  have good: "good s k X c p" and knz: "k \<noteq> NULL" and k: "heap s k = Some (RuntimeCell r)"
    using run run_not_NULL [OF run] r by (simp_all add: run_def rts_heap)
  have err: "error_ok s (last_error r)"
    using good r by (rule good_error_ok)
  then have live: "last_error r = NULL \<or> heap s (last_error r) \<noteq> None" and neq: "last_error r \<noteq> k"
    using knz error_ok_views(3) [OF err] error_ok_views(1) [OF err] r by auto
  let ?t = "c_str (case message of None \<Rightarrow> ''unknown QuickJS error'' | Some t \<Rightarrow> t)"
  define s1 where "s1 = (if last_error r = NULL then s else s\<lparr>heap := (heap s)(last_error r := None)\<rparr>)"
  have heap1: "heap s1 a = (if a = last_error r then None else heap s a)" and files1: "outside s1 = outside s" for a
    using goodD(1) [OF good] by (simp_all add: s1_def)
  obtain q s2 where s2: "c_alloc (BytesCell (?t @ [NUL])) s1 = Some (q, s2)"
    and q: "q \<noteq> NULL \<Longrightarrow> heap s1 q = None"
    and heap2: "heap s2 = (if q = NULL then heap s1 else (heap s1)(q \<mapsto> BytesCell (?t @ [NUL])))"
    and files2: "outside s2 = outside s1"
    by (rule c_alloc_cases [of "BytesCell (?t @ [NUL])" s1]) (use that in blast)
  define s3 where "s3 = s2\<lparr>heap := (heap s2)(k \<mapsto> RuntimeCell (r\<lparr>last_error := q\<rparr>))\<rparr>"
  have qk: "q \<noteq> k"
    using q k knz neq by (auto simp: heap1)
  have heap3: "heap s3 a = (if a = k then Some (RuntimeCell (r\<lparr>last_error := q\<rparr>))
      else if a = q \<and> q \<noteq> NULL then Some (BytesCell (?t @ [NUL]))
      else if a = last_error r then None else heap s a)" for a
    by (simp add: s3_def heap2 heap1)
  have "c_free (last_error r) s = Some ((), s1)"
    using live by (auto simp: c_free_def s1_def)
  moreover have "heap s2 k = Some (RuntimeCell r)"
    using qk neq k by (simp add: heap2 heap1)
  ultimately have "set_error k message s = Some ((), s3)"
    using knz k s2 by (simp add: set_error_def load_rt_def store_rt_def copy_string_def s3_def)
  moreover have "run k s0 T X c p s3"
  proof (rule run_last_error [OF run r, where q = q and t = ?t])
    have N: "rts s NULL = None" "vals s NULL = None" "strs s NULL = None"
      using goodD(1) [OF good] by (simp_all add: views_None)
    have E: "rts s (last_error r) = None" "vals s (last_error r) = None"
      using error_ok_views [OF err] N by (cases "last_error r = NULL"; simp)+
    have q': "rts s q = None" "vals s q = None"
      using q N E by (cases "q = NULL \<or> q = last_error r"; force simp: heap1 dest: views_None)+
    show "rts s3 = (rts s)(k \<mapsto> r\<lparr>last_error := q\<rparr>)"
      using E(1) N q' by (auto simp: fun_eq_iff heap3 rts_def)
    show "vals s3 = vals s"
      using E(2) N q' views_disjoint(1) [OF r] by (auto simp: fun_eq_iff heap3 vals_def)
    show "strs s3 a = (if a = q \<and> q \<noteq> NULL then Some (?t @ [NUL])
        else if a = last_error r \<and> a \<noteq> NULL then None else strs s a)" for a
      using views_disjoint(2) [OF r] qk N by (auto simp: heap3 strs_def)
    show "heap s3 NULL = None"
      using goodD(1) [OF good] knz by (auto simp: heap3)
    show "q = last_error r \<or> heap s q = None" if "q \<noteq> NULL"
      using q [OF that] by (auto simp: heap1 split: if_splits)
  qed (use files1 files2 in \<open>simp_all add: s3_def\<close>)
  ultimately show ?thesis
    using Q by simp
qed

lemma ok_capture_exception [bridge_rules]:
  assumes run: "run k s0 T X 0 p s" and Q: "\<And>s'. run k s0 T X 0 p s' \<Longrightarrow> Q () s'"
  shows "ok (capture_exception E k s) Q"
  unfolding capture_exception_def if_not_P [OF run_not_NULL [OF run]]
  by (rule bridge_rules run | assumption | (simp add: lives_loose Q; fail))+

end
