(* ===== verification/Bridge_Handles.thy ===== *)
theory Bridge_Handles
  imports Bridge_Errors
begin

text \<open>
  Rules for the remaining internal functions of the bridge: temporary strings, creation of a value
  handle, the file buffer of a module and the copy of a module namespace.
\<close>

section \<open>Temporary strings\<close>

lemma run_strs_upd:
  assumes run: "run k s0 T X c p s"
    and rt: "rts s' = rts s" and vs: "vals s' = vals s" and files: "outside s' = outside s"
    and NULL: "heap s' NULL = None"
    and ss: "strs s' = (strs s)(a := y)"
    and a: "\<And>h r. rts s h = Some r \<Longrightarrow> last_error r \<noteq> a"
    and T': "client_strs s0 ++ T' = (client_strs s0 ++ T)(a := y)"
  shows "run k s0 T' X c p s'"
proof -
  have good: "good s k X c p" using run by (simp add: run_def)
  have err: "error_ok s' (last_error r)" if "rts s h = Some r" for h r
    using good_error_ok [OF good that] a [OF that] by (auto simp: error_ok_def ss)
  have "good s' k X c p"
  proof (rule goodI)
    show "rt_ok s' k r X c p" if "rts s' k = Some r" for r
      using that by (intro rt_ok_same [OF goodD(3) [OF good]]) (auto simp: rt vs err)
    show "rt_ok s' h r {#} 0 0" if "h \<noteq> k" "rts s' h = Some r" for h r
      using that by (intro rt_ok_same [OF goodD(4) [OF good]]) (auto simp: rt vs err)
    show "errors_distinct s'"
      using goodD(5) [OF good] by (simp add: errors_distinct_def rt)
  qed (use good NULL in \<open>auto simp: rt vs dest: goodD(2)\<close>)
  moreover have "client_strs s' = (client_strs s)(a := y)"
    using a by (auto simp: client_strs_def ss rt fun_eq_iff)
  ultimately show ?thesis
    using run files T' by (auto simp: run_def frame_def rt vs)
qed

lemma fresh_no_error:
  "good s k X c p \<Longrightarrow> heap s a = None \<Longrightarrow> a \<noteq> NULL \<Longrightarrow> rts s h = Some r \<Longrightarrow> last_error r \<noteq> a"
  using good_error_ok [of s k X c p h r] error_ok_views(3) [of s "last_error r"] by auto

lemma ok_alloc_bytes [bridge_rules]:
  assumes run: "run k s0 Map.empty X c p s"
    and Q: "\<And>s'. run k s0 Map.empty X c p s' \<Longrightarrow> Q NULL s'"
      "\<And>a s'. a \<noteq> NULL \<Longrightarrow> client_strs s0 a = None \<Longrightarrow> strs s' a = Some b \<Longrightarrow>
         run k s0 [a \<mapsto> b] X c p s' \<Longrightarrow> Q a s'"
  shows "ok (c_alloc (BytesCell b) s) Q"
proof -
  obtain a s' where s': "c_alloc (BytesCell b) s = Some (a, s')"
    and fresh: "a \<noteq> NULL \<Longrightarrow> heap s a = None"
    and heap': "heap s' = (if a = NULL then heap s else (heap s)(a \<mapsto> BytesCell b))"
    and files': "outside s' = outside s"
    by (rule c_alloc_cases [of "BytesCell b" s]) (use that in blast)
  have good: "good s k X c p" using run by (simp add: run_def)
  have "Q a s'"
  proof (cases "a = NULL")
    case True
    then have "run k s0 Map.empty X c p s'"
      using run files' heap' by (simp add: run_cong [of s' s])
    then show ?thesis
      using True Q(1) by simp
  next
    case False
    from fresh [OF False] have n: "rts s a = None" "vals s a = None" "strs s a = None"
      by (rule views_None)+
    then have v: "rts s' = rts s" "vals s' = vals s" "strs s' = (strs s)(a \<mapsto> b)"
      using False heap' by (auto simp: rts_def vals_def strs_def fun_eq_iff)
    have "client_strs s0 a = None"
      using client_strs_None [OF n(3)] run by (simp add: run_def frame_def)
    moreover have "run k s0 [a \<mapsto> b] X c p s'"
      by (rule run_strs_upd [OF run v(1,2) files' _ v(3)])
        (use False heap' goodD(1) [OF good] fresh_no_error [OF good fresh [OF False] False] in auto)
    ultimately show ?thesis
      using False Q(2) [OF False] v by simp
  qed
  then show ?thesis
    using s' by simp
qed

lemma ok_free_bytes [bridge_rules]:
  assumes run: "run k s0 [a \<mapsto> b] X c p s" and a: "a \<noteq> NULL" "client_strs s0 a = None"
    and Q: "\<And>s'. run k s0 Map.empty X c p s' \<Longrightarrow> Q () s'"
  shows "ok (c_free a s) Q"
proof -
  have good: "good s k X c p" using run by (simp add: run_def)
  have cl: "client_strs s a = Some b"
    using run by (simp add: run_def frame_def)
  then have st: "strs s a = Some b" and no: "\<And>h r. rts s h = Some r \<Longrightarrow> last_error r \<noteq> a"
    by (auto simp: client_strs_def split: if_splits)
  let ?s = "s\<lparr>heap := (heap s)(a := None)\<rparr>"
  have "run k s0 Map.empty X c p ?s"
  proof (rule run_strs_upd [OF run _ _ _ _ _ no])
    show "rts ?s = rts s" "vals ?s = vals s" "strs ?s = (strs s)(a := None)"
      using views_disjoint(5,6) [OF st] by (auto simp: views_upd fun_eq_iff)
  qed (use a goodD(1) [OF good] in auto)
  moreover from st have "heap s a = Some (BytesCell b)"
    by (simp add: strs_heap)
  then have "c_free a s = Some ((), ?s)"
    using a by (simp add: c_free_def)
  ultimately show ?thesis
    using Q by simp
qed

lemma ok_load_bytes [bridge_rules]:
  assumes "strs s a = Some b" and "Q b s"
  shows "ok (load_bytes a s) Q"
  using assms by (simp add: load_bytes_def flip: strs_heap)


section \<open>Creating a value handle\<close>

text \<open>The state after a new handle \<open>a\<close> for the value \<open>v\<close> of the runtime \<open>k\<close> has been created.\<close>

definition created :: "addr \<Rightarrow> 'e st \<Rightarrow> addr \<Rightarrow> JSValue \<Rightarrow> 'e st \<Rightarrow> bool" where
  "created k s0 a v s \<longleftrightarrow>
     a \<noteq> NULL \<and> vals s0 a = None \<and>
     vals s = (vals s0)(a \<mapsto> \<lparr>vh_runtime = k, vh_value = v\<rparr>) \<and>
     good s k {#} 0 0 \<and> frame k Map.empty s0 s"

lemma card_handles_less: "heap s NULL = None \<Longrightarrow> card (handles_of s h) < 2 ^ 64 - 1 \<or> handles_of s h = UNIV - {NULL}"
proof -
  assume "heap s NULL = None"
  then have sub: "handles_of s h \<subseteq> UNIV - {NULL}"
    by (auto simp: handles_of_def vals_def)
  have "card (UNIV - {NULL} :: addr set) = 2 ^ 64 - 1"
    by (simp add: card_Diff_singleton card_word)
  with sub show ?thesis
    using psubset_card_mono [of "UNIV - {NULL}" "handles_of s h"] by (metis finite psubsetI)
qed

lemma handles_of_insert:
  assumes "vals s' = (vals s)(a \<mapsto> vh)" and "vals s a = None"
  shows "handles_of s' h = (if vh_runtime vh = h then insert a (handles_of s h) else handles_of s h)"
    and "handle_refs s' h = (if vh_runtime vh = h then handle_refs s h + rc (vh_value vh) else handle_refs s h)"
proof -
  show H: "handles_of s' h = (if vh_runtime vh = h then insert a (handles_of s h) else handles_of s h)"
    using assms by (auto simp: handles_of_def)
  have a: "a \<notin> handles_of s h"
    using assms by (simp add: handles_of_def)
  then have "(\<Sum>v\<in>handles_of s h. rc (vh_value (the (vals s' v)))) = handle_refs s h"
    unfolding handle_refs_def by (intro sum.cong) (auto simp: assms)
  with a show "handle_refs s' h = (if vh_runtime vh = h then handle_refs s h + rc (vh_value vh) else handle_refs s h)"
    unfolding handle_refs_def H by (simp add: assms ac_simps)
qed

lemma created_intro:
  assumes run: "run k s0 Map.empty (rc v) 0 0 s" and a: "a \<noteq> NULL" "heap s a = None"
    and r: "rts s k = Some r"
    and heap': "heap s' = (heap s)(a \<mapsto> ValueCell \<lparr>vh_runtime = k, vh_value = v\<rparr>,
                  k \<mapsto> RuntimeCell (r\<lparr>value_count := value_count r + 1\<rparr>))"
    and files': "outside s' = outside s"
  shows "created k s0 a v s'"
proof -
  have good: "good s k (rc v) 0 0" and vs0: "vals s = vals s0" using run by (simp_all add: run_def)
  note n = views_None [OF a(2)]
  have ak: "a \<noteq> k" and knz: "k \<noteq> NULL"
    using n(1) r goodD(1) [OF good] by (auto simp: views_None)
  have rt: "rts s' = (rts s)(k \<mapsto> r\<lparr>value_count := value_count r + 1\<rparr>)"
    and vs: "vals s' = (vals s)(a \<mapsto> \<lparr>vh_runtime = k, vh_value = v\<rparr>)"
    and ss: "strs s' = strs s"
    using n ak views_disjoint(1,2) [OF r] by (auto simp: fun_eq_iff heap' rts_def vals_def strs_def)
  have H: "handles_of s' h = (if k = h then insert a (handles_of s h) else handles_of s h)"
    "handle_refs s' h = (if k = h then handle_refs s h + rc v else handle_refs s h)" for h
    using handles_of_insert [OF vs n(2), of h] by simp_all
  have err: "error_ok s' = error_ok s"
    by (simp add: error_ok_def ss fun_eq_iff)
  have an: "a \<notin> handles_of s k" using n by (simp add: handles_of_def)
  have "a \<in> UNIV - {NULL}" using a by simp
  then have less: "card (handles_of s k) < 2 ^ 64 - 1"
    using card_handles_less [OF goodD(1) [OF good], of k] an by auto
  have ok: "rt_ok s k r (rc v) 0 0" using good r by (rule goodD(3))
  then have cnt: "unat (value_count r) = card (handles_of s k)" by (simp add: rt_ok_def)
  have "unat (value_count r + 1) = card (handles_of s k) + 1"
    using less cnt by (simp add: unat_word_ariths)
  then have okk: "rt_ok s' k (r\<lparr>value_count := value_count r + 1\<rparr>) {#} 0 0"
    using ok an by (auto simp: rt_ok_def H err)
  have "good s' k {#} 0 0"
  proof (rule goodI)
    show "rt_ok s' k r' {#} 0 0" if "rts s' k = Some r'" for r'
      using that okk by (simp add: rt)
    show "rt_ok s' h r' {#} 0 0" if "h \<noteq> k" "rts s' h = Some r'" for h r'
      using that goodD(4) [OF good, of h r'] by (auto simp: rt rt_ok_def H err)
    show "errors_distinct s'"
      using goodD(5) [OF good] r by (auto simp: errors_distinct_def rt split: if_splits)
  qed (use goodD(1,2) [OF good] a knz r in \<open>auto simp: heap' rt vs split: if_splits\<close>)
  moreover have "client_strs s' = client_strs s"
    using r by (auto simp: client_strs_def rt ss fun_eq_iff)
  then have "frame k Map.empty s0 s'"
    using run r files' by (auto simp: run_def frame_def rt)
  ultimately show ?thesis
    using a vs vs0 n by (simp add: created_def)
qed

lemma ok_new_value_handle [bridge_rules]:
  assumes run: "run k s0 Map.empty X 0 0 s" and X: "X = rc v"
    and Q: "\<And>s'. run k s0 Map.empty {#} 0 0 s' \<Longrightarrow> Q NULL s'"
      "\<And>a s'. created k s0 a v s' \<Longrightarrow> Q a s'"
  shows "ok (new_value_handle E k v s) Q"
proof -
  note run = run [unfolded X]
  obtain r where r: "rts s k = Some r"
    using run by (rule run_rts)
  obtain a s1 where s1: "c_alloc (ValueCell \<lparr>vh_runtime = k, vh_value = v\<rparr>) s = Some (a, s1)"
    and fresh: "a \<noteq> NULL \<Longrightarrow> heap s a = None"
    and heap1: "heap s1 = (if a = NULL then heap s else (heap s)(a \<mapsto> ValueCell \<lparr>vh_runtime = k, vh_value = v\<rparr>))"
    and files1: "outside s1 = outside s"
    by (rule c_alloc_cases [of "ValueCell \<lparr>vh_runtime = k, vh_value = v\<rparr>" s]) (use that in blast)
  have "ok (c_alloc (ValueCell \<lparr>vh_runtime = k, vh_value = v\<rparr>) s) (\<lambda>a s.
      ok (if a = NULL
          then do { (_, s) \<leftarrow> on_engine k (call_FreeValue E v) s;
                    (_, s) \<leftarrow> set_error k (Some ''failed to allocate JavaScript value handle'') s;
                    Some (NULL, s) }
          else do { (r, s) \<leftarrow> load_rt k s;
                    (_, s) \<leftarrow> store_rt k (r\<lparr>value_count := value_count r + 1\<rparr>) s;
                    Some (a, s) }) Q)"
  proof (cases "a = NULL")
    case True
    then have run1: "run k s0 Map.empty (rc v) 0 0 s1"
      using run heap1 files1 by (simp add: run_cong [of s1 s])
    show ?thesis
      unfolding s1 ok_Some if_P [OF True]
      by (rule bridge_rules run1 Q | assumption | (simp; fail))+
  next
    case False
    have k: "a \<noteq> k" "heap s k = Some (RuntimeCell r)"
      using fresh [OF False] r by (auto simp: rts_heap dest: views_None)
    have "created k s0 a v
       (s1\<lparr>heap := (heap s1)(k \<mapsto> RuntimeCell (r\<lparr>value_count := value_count r + 1\<rparr>))\<rparr>)"
      using run False fresh [OF False] r by (rule created_intro) (use files1 False in \<open>simp_all add: heap1\<close>)
    with False k Q(2) show ?thesis
      unfolding s1 ok_Some by (simp add: load_rt_def store_rt_def heap1)
  qed
  then show ?thesis
    unfolding new_value_handle_def
    by (intro ok_bindI ok_valid_runtime [OF run]) (simp add: ok_bind)
qed

section \<open>Module files and namespaces\<close>

lemma ok_read_file [bridge_rules]:
  assumes run: "run k s0 Map.empty X c p s"
    and Q: "\<And>s'. run k s0 Map.empty X c p s' \<Longrightarrow> Q (NULL, 0) s'"
      "\<And>a b n s'. a \<noteq> NULL \<Longrightarrow> client_strs s0 a = None \<Longrightarrow> strs s' a = Some b \<Longrightarrow>
         n < length b \<Longrightarrow> b ! n = NUL \<Longrightarrow> run k s0 [a \<mapsto> b] X c p s' \<Longrightarrow> Q (a, n) s'"
  shows "ok (read_file path s) Q"
  unfolding read_file_def Let_def
  by (rule ok_optionI ok_ifI ok_bindI ok_SomeI ok_prodI ok_alloc_bytes [OF run] ok_free_bytes Q run
      | assumption | (simp add: nth_append; fail))+

lemma ok_copy_namespace_properties:
  assumes run: "run k s0 Map.empty X 0 (Suc p) s" and ns: "rc ns \<subseteq># X - rc object" and ob: "rc object \<subseteq># X"
    and Q: "\<And>s'. run k s0 Map.empty X 0 (Suc p) s' \<Longrightarrow> Q True s'"
      "\<And>s'. run k s0 Map.empty (X - rc object) 0 p s' \<Longrightarrow> Q False s'"
  shows "ok (copy_namespace_properties E k ns object all atoms s) Q"
  using run
proof (induction atoms arbitrary: s)
  case Nil
  then show ?case by (simp add: Q)
next
  case (Cons atom atoms)
  have ns': "rc ns \<subseteq># X"
    using ns by (meson diff_subset_eq_self subset_mset.order_trans)
  show ?case
    unfolding copy_namespace_properties.simps
    by (rule ok_bindI ok_ifI ok_SomeI ok_prodI ok_call_value ok_call_FreePropertyEnum ok_call_FreeValue
        ok_call_consume Cons.prems Cons.IH Q
        | assumption
        | (simp add: ns' ob lives_loose subset_mset.add_increasing2; fail))+
qed

lemma ok_new_mutable_namespace_object [bridge_rules]:
  assumes run: "run k s0 Map.empty X 0 0 s" and ns: "rc ns \<subseteq># X"
    and Q: "\<And>v s'. run k s0 Map.empty (X + rc v) 0 0 s' \<Longrightarrow> Q v s'"
  shows "ok (new_mutable_namespace_object E k ns s) Q"
proof -
  have Qx: "Q JS_EXCEPTION s'" if "run k s0 Map.empty X 0 0 s'" for s'
    using Q [of JS_EXCEPTION s'] that by simp
  have Qe: "Q JS_EXCEPTION s'" if "run k s0 Map.empty (X + rc v - rc v) 0 0 s'" for v s'
    using Qx that by simp
  have Qn: "Q JS_EXCEPTION s'" if "run k s0 Map.empty (X + rc v) 0 0 s'" "JS_IsException v" for v s'
    using Qx that by simp
  show ?thesis
    unfolding new_mutable_namespace_object_def
    by (rule ok_bindI ok_ifI ok_SomeI ok_prodI ok_call_value ok_optionI ok_call_GetOwnPropertyNames
        ok_call_FreeValue ok_copy_namespace_properties ok_call_FreePropertyEnum run Q Qe Qn
        | assumption
        | (simp add: ns lives_loose subset_mset.add_increasing2; fail))+
qed

end
