(* ===== verification/Bridge_Ops.thy ===== *)
theory Bridge_Ops
  imports Bridge_Handles
begin

text \<open>
  Total correctness of every exported function of the bridge that runs on a live handle: it returns
  (no undefined behaviour), keeps the invariant \<open>good\<close>, touches no other runtime and no string of
  the client, and gives back everything it acquired in the engine. Functions that return a handle
  either fail with \<open>NULL\<close> or create exactly one handle.
\<close>

definition handle_post :: "addr \<Rightarrow> 'e st \<Rightarrow> addr \<Rightarrow> 'e st \<Rightarrow> bool" where
  "handle_post k s x s' \<longleftrightarrow>
     (x = NULL \<and> run k s Map.empty {#} 0 0 s') \<or> (\<exists>v. created k s x v s')"

lemma handle_postI [bridge_rules]:
  "run k s Map.empty X 0 0 s' \<Longrightarrow> X = {#} \<Longrightarrow> handle_post k s NULL s'"
  "created k s x v s' \<Longrightarrow> handle_post k s x s'"
  by (auto simp: handle_post_def)

definition keeps :: "addr \<Rightarrow> 'e st \<Rightarrow> 'a \<Rightarrow> 'e st \<Rightarrow> bool" where
  "keeps k s x s' \<longleftrightarrow> run k s Map.empty {#} 0 0 s'"

lemma keepsI [bridge_rules]: "run k s Map.empty X 0 0 s' \<Longrightarrow> X = {#} \<Longrightarrow> keeps k s x s'"
  by (simp add: keeps_def)

lemma c_strlen_NUL [bridge_rules]: "c_strlen t < length (t @ [NUL])" "(t @ [NUL]) ! c_strlen t = NUL"
proof -
  show 1: "c_strlen t < length (t @ [NUL])"
    using length_takeWhile_le [of "\<lambda>c. c \<noteq> NUL" t] by (simp add: c_strlen_def c_str_def)
  show "(t @ [NUL]) ! c_strlen t = NUL"
  proof (cases "c_strlen t < length t")
    case True
    then show ?thesis
      using nth_length_takeWhile [of "\<lambda>c. c \<noteq> NUL" t] by (simp add: c_strlen_def c_str_def nth_append)
  next
    case False
    with 1 have "c_strlen t = length t" by simp
    then show ?thesis by simp
  qed
qed

section \<open>Runtime operations\<close>

lemma eval_value_ok:
  assumes run: "run k s Map.empty {#} 0 0 s"
  shows "ok (js_runtime_eval_value E k source s) (handle_post k s)"
  unfolding js_runtime_eval_value_def
  by (rule bridge_rules run | assumption | (simp; fail))+

lemma get_global_property_ok:
  assumes run: "run k s Map.empty {#} 0 0 s"
  shows "ok (js_runtime_get_global_property E k name s) (handle_post k s)"
  unfolding js_runtime_get_global_property_def
  by (rule bridge_rules run | assumption | (simp add: lives_loose; fail))+

lemma new_bool_ok:
  assumes run: "run k s Map.empty {#} 0 0 s"
  shows "ok (js_runtime_new_bool E k b s) (handle_post k s)"
  unfolding js_runtime_new_bool_def
  by (rule bridge_rules run | assumption | (simp; fail))+

lemma new_number_ok:
  assumes run: "run k s Map.empty {#} 0 0 s"
  shows "ok (js_runtime_new_number E k d s) (handle_post k s)"
  unfolding js_runtime_new_number_def
  by (rule bridge_rules run | assumption | (simp; fail))+

lemma new_string_ok:
  assumes run: "run k s Map.empty {#} 0 0 s"
  shows "ok (js_runtime_new_string E k t s) (handle_post k s)"
  unfolding js_runtime_new_string_def
  by (rule bridge_rules run | assumption | (simp; fail))+

lemma new_bigint_ok:
  assumes run: "run k s Map.empty {#} 0 0 s"
  shows "ok (js_runtime_new_bigint E k t s) (handle_post k s)"
  unfolding js_runtime_new_bigint_def
  by (rule bridge_rules run | assumption | (simp add: lives_loose; fail))+

lemma import_module_ok:
  assumes run: "run k s Map.empty {#} 0 0 s"
  shows "ok (js_runtime_import_module E k path s) (handle_post k s)"
  unfolding js_runtime_import_module_def
  by (rule bridge_rules run | assumption | (simp add: lives_loose; fail))+

lemma ok_store_flag [bridge_rules]:
  assumes run: "run k s0 T X c p s" and r: "rts s k = Some r"
    and Q: "\<And>s'. run k s0 T X c p s' \<Longrightarrow> Q () s'"
  shows "ok (store_rt k (r\<lparr>std_module_enabled := b\<rparr>) s) Q"
proof -
  let ?r = "r\<lparr>std_module_enabled := b\<rparr>"
  let ?s = "s\<lparr>heap := (heap s)(k \<mapsto> RuntimeCell ?r)\<rparr>"
  have good: "good s k X c p" using run by (simp add: run_def)
  have k: "heap s k = Some (RuntimeCell r)" using r by (simp add: rts_heap)
  have rt: "rts ?s = (rts s)(k \<mapsto> ?r)" and vs: "vals ?s = vals s" and ss: "strs ?s = strs s"
    using views_disjoint(1,2) [OF r] by (auto simp: views_upd fun_eq_iff)
  have err: "error_ok ?s = error_ok s"
    by (simp add: error_ok_def ss fun_eq_iff)
  have "good ?s k X c p"
  proof (rule goodI)
    show "rt_ok ?s k r' X c p" if "rts ?s k = Some r'" for r'
      by (rule rt_ok_same [OF goodD(3) [OF good r]])
        (use that good_error_ok [OF good r] in \<open>auto simp: rt vs err\<close>)
    show "rt_ok ?s h r' {#} 0 0" if "h \<noteq> k" "rts ?s h = Some r'" for h r'
    proof -
      from that have h: "rts s h = Some r'" by (simp add: rt)
      show ?thesis
        by (rule rt_ok_same [OF goodD(4) [OF good that(1) h]])
          (simp_all add: vs err good_error_ok [OF good h])
    qed
    show "errors_distinct ?s"
      using goodD(5) [OF good] r by (auto simp: errors_distinct_def rt split: if_splits)
  qed (use goodD(1,2) [OF good] run_not_NULL [OF run] in \<open>auto simp: rt vs\<close>)
  moreover have "client_strs ?s = client_strs s"
    using r by (auto simp: client_strs_def rt ss fun_eq_iff)
  ultimately have "run k s0 T X c p ?s"
    using run r by (auto simp: run_def frame_def rt vs)
  then show ?thesis
    using Q k by (simp add: store_rt_def)
qed

lemma enable_std_module_ok:
  assumes run: "run k s Map.empty {#} 0 0 s"
  shows "ok (js_runtime_enable_std_module E k s) (keeps k s)"
  unfolding js_runtime_enable_std_module_def
  by (rule bridge_rules run | assumption | (simp; fail))+

section \<open>Value operations\<close>

definition usable_val :: "'e st \<Rightarrow> addr \<Rightarrow> bool" where
  "usable_val s v \<longleftrightarrow> v = NULL \<or> vals s v \<noteq> None"

lemma list_all_lives [bridge_rules]:
  "list_all P []" "P x \<Longrightarrow> list_all P xs \<Longrightarrow> list_all P (x # xs)"
  by simp_all

lemma value_kind_ok:
  assumes run: "run (vh_runtime vh) s Map.empty {#} 0 0 s" and v: "vals s v = Some vh"
  shows "ok (js_value_kind E v s) (keeps (vh_runtime vh) s)"
  unfolding js_value_kind_def Let_def
  by (rule bridge_rules run v lives_handle | assumption | (simp; fail))+

lemma value_to_bool_ok:
  assumes run: "run (vh_runtime vh) s Map.empty {#} 0 0 s" and v: "vals s v = Some vh"
  shows "ok (js_value_to_bool E v s) (keeps (vh_runtime vh) s)"
  unfolding js_value_to_bool_def
  by (rule bridge_rules run v lives_handle | assumption | (simp; fail))+

lemma value_to_number_ok:
  assumes run: "run (vh_runtime vh) s Map.empty {#} 0 0 s" and v: "vals s v = Some vh"
  shows "ok (js_value_to_number E v s) (keeps (vh_runtime vh) s)"
  unfolding js_value_to_number_def
  by (rule bridge_rules run v lives_handle | assumption | (simp; fail))+

lemma value_is_array_ok:
  assumes run: "run (vh_runtime vh) s Map.empty {#} 0 0 s" and v: "vals s v = Some vh"
  shows "ok (js_value_is_array E v s) (keeps (vh_runtime vh) s)"
  unfolding js_value_is_array_def
  by (rule bridge_rules run v lives_handle | assumption | (simp; fail))+

lemma value_get_property_ok:
  assumes run: "run (vh_runtime vh) s Map.empty {#} 0 0 s" and v: "vals s v = Some vh"
  shows "ok (js_value_get_property E v name s) (handle_post (vh_runtime vh) s)"
  unfolding js_value_get_property_def Let_def
  by (rule bridge_rules run v lives_handle | assumption | (simp; fail))+

lemma value_get_index_ok:
  assumes run: "run (vh_runtime vh) s Map.empty {#} 0 0 s" and v: "vals s v = Some vh"
  shows "ok (js_value_get_index E v index s) (handle_post (vh_runtime vh) s)"
  unfolding js_value_get_index_def Let_def
  by (rule bridge_rules run v lives_handle | assumption | (simp; fail))+

lemma ok_foreign_value [bridge_rules]:
  assumes run: "run k s0 T X c p s" and w: "usable_val s0 w"
    and Q: "Q True s" "\<And>wh. vals s0 w = Some wh \<Longrightarrow> vh_runtime wh = k \<Longrightarrow> Q False s"
  shows "ok (foreign_value k w s) Q"
proof (cases "w = NULL")
  case True
  then show ?thesis by (simp add: foreign_value_def Q)
next
  case False
  with w obtain wh where wh: "vals s0 w = Some wh" by (auto simp: usable_val_def)
  then have "heap s w = Some (ValueCell wh)"
    using run_vals [OF run] by (simp add: vals_heap)
  with False Q wh show ?thesis
    by (cases "vh_runtime wh = k") (simp_all add: foreign_value_def load_val_def)
qed

lemma value_set_property_ok:
  assumes run: "run (vh_runtime vh) s Map.empty {#} 0 0 s" and v: "vals s v = Some vh"
    and w: "usable_val s w"
  shows "ok (js_value_set_property E v name w s) (keeps (vh_runtime vh) s)"
  unfolding js_value_set_property_def Let_def
  by (rule bridge_rules run v w lives_handle | assumption | (simp; fail))+

lemma value_set_index_ok:
  assumes run: "run (vh_runtime vh) s Map.empty {#} 0 0 s" and v: "vals s v = Some vh"
    and w: "usable_val s w"
  shows "ok (js_value_set_index E v index w s) (keeps (vh_runtime vh) s)"
  unfolding js_value_set_index_def Let_def
  by (rule bridge_rules run v w lives_handle | assumption | (simp; fail))+

text \<open>\<open>js_value_to_string\<close> hands a new string to the client, or fails with \<open>NULL\<close>.\<close>

definition string_post :: "addr \<Rightarrow> 'e st \<Rightarrow> addr \<Rightarrow> 'e st \<Rightarrow> bool" where
  "string_post k s x s' \<longleftrightarrow>
     (x = NULL \<and> run k s Map.empty {#} 0 0 s') \<or>
     (\<exists>t. x \<noteq> NULL \<and> NUL \<notin> set t \<and> client_strs s x = None \<and> run k s [x \<mapsto> t @ [NUL]] {#} 0 0 s')"

lemma string_postI [bridge_rules]:
  "run k s Map.empty X 0 0 s' \<Longrightarrow> X = {#} \<Longrightarrow> x = NULL \<Longrightarrow> string_post k s x s'"
  "run k s [x \<mapsto> c_str t @ [NUL]] {#} 0 0 s' \<Longrightarrow> x \<noteq> NULL \<Longrightarrow> client_strs s x = None \<Longrightarrow> string_post k s x s'"
  unfolding string_post_def using c_str_no_NUL by blast+

lemma value_to_string_ok:
  assumes run: "run (vh_runtime vh) s Map.empty {#} 0 0 s" and v: "vals s v = Some vh"
  shows "ok (js_value_to_string E v s) (string_post (vh_runtime vh) s)"
  unfolding js_value_to_string_def copy_string_def Let_def
  by (rule bridge_rules run v lives_handle | assumption | (simp; fail))+

text \<open>
  The number \<open>js_value_array_length\<close> converts: what the engine answers for \<open>length\<close>. The conversion is
  defined when the number lies in the range of \<open>int64_t\<close>.
\<close>

definition length_fits :: "'e js_engine \<Rightarrow> js_value_handle \<Rightarrow> 'e \<Rightarrow> bool" where
  "length_fits E vh e \<longleftrightarrow>
     (case JS_GetPropertyStr E (vh_value vh) ''length'' e of
        (len, e) \<Rightarrow>
          JS_IsException len \<or>
          (case JS_ToFloat64 E len e of
             ((status, number), _) \<Rightarrow> status \<noteq> 0 \<or> f64_to_int64 number \<noteq> None))"

lemma value_array_length_ok:
  assumes run: "run (vh_runtime vh) s Map.empty {#} 0 0 s" and v: "vals s v = Some vh"
    and fits: "length_fits E vh (est s (vh_runtime vh))"
  shows "ok (js_value_array_length E v s) (keeps (vh_runtime vh) s)"
  unfolding js_value_array_length_def Let_def
  using fits unfolding length_fits_def
  by - (rule bridge_rules run v lives_handle | assumption | (simp add: lives_loose; fail))+

section \<open>Calls\<close>

lemma ok_fill_argv_loop:
  assumes run: "run k s0 Map.empty {#} 0 0 s"
    and n: "n \<le> length args" and args: "list_all (usable_val s0) args"
    and Q: "\<And>s'. run k s0 Map.empty {#} 0 0 s' \<Longrightarrow> Q None s'"
      "\<And>vs s'. list_all (lives k s0 {#}) vs \<Longrightarrow> run k s0 Map.empty {#} 0 0 s' \<Longrightarrow> Q (Some vs) s'"
  shows "ok (fill_argv_loop k args n s) Q"
  using run n args Q
proof (induction args arbitrary: n s Q)
  case Nil
  then show ?case by simp
next
  case (Cons a args)
  note prems = Cons.prems
  show ?case
  proof (cases n)
    case (Suc m)
    then have m: "m \<le> length args" "list_all (usable_val s0) args" "usable_val s0 a"
      using prems(2,3) by simp_all
    show ?thesis
      unfolding Suc fill_argv_loop.simps
      by (rule bridge_rules prems(1) m Cons.IH | assumption
          | (simp add: prems(4,5) lives_handle; fail))+
  qed (simp add: prems(1,5))
qed

definition args_ok :: "'e st \<Rightarrow> addr list option \<Rightarrow> int \<Rightarrow> bool" where
  "args_ok s args n \<longleftrightarrow> (case args of None \<Rightarrow> True | Some as \<Rightarrow> nat n \<le> length as \<and> list_all (usable_val s) as)"

lemma ok_fill_argv [bridge_rules]:
  assumes run: "run (vh_runtime vh) s0 Map.empty {#} 0 0 s" and v: "vals s0 v = Some vh"
    and args: "args_ok s0 args n"
    and Q: "\<And>s'. run (vh_runtime vh) s0 Map.empty {#} 0 0 s' \<Longrightarrow> Q None s'"
      "\<And>vs s'. list_all (lives (vh_runtime vh) s0 {#}) vs \<Longrightarrow>
         run (vh_runtime vh) s0 Map.empty {#} 0 0 s' \<Longrightarrow> Q (Some vs) s'"
  shows "ok (fill_argv v args n s) Q"
  unfolding fill_argv_def using args unfolding args_ok_def
  by - (rule bridge_rules run v ok_fill_argv_loop Q | assumption | (simp split: option.splits; fail))+

lemma value_construct_ok:
  assumes run: "run (vh_runtime vh) s Map.empty {#} 0 0 s" and v: "vals s v = Some vh"
    and args: "args_ok s args n"
  shows "ok (js_value_construct E v args n s) (handle_post (vh_runtime vh) s)"
  unfolding js_value_construct_def Let_def
  by (rule bridge_rules run v args lives_handle | assumption | (simp; fail))+

lemma value_call_ok:
  assumes run: "run (vh_runtime vh) s Map.empty {#} 0 0 s" and v: "vals s v = Some vh"
    and args: "args_ok s args n" and t: "usable_val s this"
  shows "ok (js_value_call E v this args n s) (handle_post (vh_runtime vh) s)"
  unfolding js_value_call_def Let_def
  by (rule bridge_rules run v args t lives_handle | assumption | (simp; fail))+

end
