(* ===== verification/Bridge_Lifecycle.thy ===== *)
theory Bridge_Lifecycle
  imports Bridge_Ops
begin

text \<open>
  Creation and destruction of runtimes and value handles. A runtime that is destroyed while value
  handles of it exist stays until the last of them is destroyed, and is then freed together with its
  engine and its error string.
\<close>

section \<open>Freeing a runtime\<close>

lemma value_count_0: "rt_ok s h r X c p \<Longrightarrow> value_count r = 0 \<longleftrightarrow> handles_of s h = {}"
  by (auto simp: rt_ok_def unat_eq_zero)

text \<open>The engine runtime and its context are freed together.\<close>

definition loses_engines :: "int \<Rightarrow> 'e st \<Rightarrow> 'e st \<Rightarrow> bool" where
  "loses_engines n s s' \<longleftrightarrow> files s' = files s \<and> engines s' = engines s - n \<and> contexts s' = contexts s - n"

lemma loses_no_engines: "loses_engines 0 s s' \<longleftrightarrow> outside s' = outside s"
  by (auto simp: loses_engines_def)

text \<open>The runtime \<open>k\<close> is freed when it is being destroyed and has no value handle left.\<close>

definition settled :: "addr \<Rightarrow> 'e st \<Rightarrow> 'e st \<Rightarrow> bool" where
  "settled k s s' \<longleftrightarrow>
     good s' k {#} 0 0 \<and> vals s' = vals s \<and> client_strs s' = client_strs s \<and>
     (if \<exists>r. rts s k = Some r \<and> destroying r \<and> handles_of s k = {}
      then rts s' = (rts s)(k := None) \<and> loses_engines 1 s s'
      else rts s' = rts s \<and> loses_engines 0 s s')"

lemma good_without_runtime:
  assumes good: "good s k {#} 0 0" and r: "rts s k = Some r" and none: "handles_of s k = {}"
    and rt: "rts s' = (rts s)(k := None)" and vs: "vals s' = vals s"
    and ss: "\<And>a. strs s' a = (if a = last_error r then None else strs s a)"
    and NULL: "heap s' NULL = None"
  shows "good s' k {#} 0 0" "client_strs s' = client_strs s"
proof -
  have other: "last_error r' \<noteq> last_error r \<or> last_error r = NULL" if "h \<noteq> k" "rts s h = Some r'" for h r'
    using errors_distinctD [OF goodD(5) [OF good] that(2) r] that(1) by auto
  have err: "error_ok s' (last_error r')" if "h \<noteq> k" "rts s h = Some r'" for h r'
    using other [OF that] good_error_ok [OF good that(2)] by (auto simp: error_ok_def ss)
  show "good s' k {#} 0 0"
  proof (rule goodI)
    show "rts s' (vh_runtime vh) \<noteq> None" if "vals s' v = Some vh" for v vh
      using that none goodD(2) [OF good, of v vh] by (auto simp: rt vs handles_of_def)
    show "rt_ok s' h r' {#} 0 0" if "h \<noteq> k" "rts s' h = Some r'" for h r'
    proof -
      from that have h: "rts s h = Some r'" by (simp add: rt)
      show ?thesis
        by (rule rt_ok_same [OF goodD(4) [OF good that(1) h]]) (simp_all add: vs err [OF that(1) h])
    qed
    show "errors_distinct s'"
      using goodD(5) [OF good] by (simp add: errors_distinct_def rt)
  qed (simp_all add: rt NULL)
  have N: "strs s NULL = None"
    using goodD(1) [OF good] by (rule views_None)
  show "client_strs s' = client_strs s"
  proof
    fix a
    show "client_strs s' a = client_strs s a"
    proof (cases "a = last_error r")
      case True
      then show ?thesis
        using client_strs_error [OF r] by (simp add: client_strs_None ss)
    next
      case False
      then have "(\<exists>h r'. rts s' h = Some r' \<and> last_error r' = a) \<longleftrightarrow>
          (\<exists>h r'. rts s h = Some r' \<and> last_error r' = a)"
        using r by (auto simp: rt) (metis option.inject)
      with False show ?thesis
        by (auto simp: client_strs_def ss)
    qed
  qed
qed

lemma ok_free_runtime:
  assumes good: "good s k {#} 0 0" and r: "rts s k = Some r" and none: "handles_of s k = {}"
    and d: "destroying r"
  shows "ok (free_runtime k s) (\<lambda>_. settled k s)"
proof -
  have k: "heap s k = Some (RuntimeCell r)" and knz: "k \<noteq> NULL"
    using r goodD(1) [OF good] by (auto simp: rts_heap rts_def)
  have err: "error_ok s (last_error r)"
    using good r by (rule good_error_ok)
  obtain g where g: "runtime r = Some g" "refs g = {#}" "cstrings g = 0" "penums g = 0" and jc: "jscontext r"
    using goodD(3) [OF good r] none by (auto simp: rt_ok_def handle_refs_def)
  have live: "last_error r = NULL \<or> heap s (last_error r) \<noteq> None" and neq: "last_error r \<noteq> k"
    using knz error_ok_views(3) [OF err] error_ok_views(1) [OF err] r by auto
  let ?s0 = "s\<lparr>engines := engines s - 1, contexts := contexts s - 1\<rparr>"
  let ?s1 = "if last_error r = NULL then ?s0 else ?s0\<lparr>heap := (heap s)(last_error r := None)\<rparr>"
  let ?s2 = "?s1\<lparr>heap := (heap ?s1)(k := None)\<rparr>"
  have eq: "free_runtime k s = Some ((), ?s2)"
    using knz k g live neq jc
    by (auto simp: free_runtime_def load_rt_def free_engine_def call_FreeContext_def call_FreeRuntime_def c_free_def)
  have heap2: "heap ?s2 = (heap s)(last_error r := None, k := None)"
    using goodD(1) [OF good] by (auto simp: fun_eq_iff)
  have rt: "rts ?s2 = (rts s)(k := None)"
    using error_ok_views(1) [OF err] goodD(1) [OF good] by (cases "last_error r = NULL") (auto simp: rts_def heap2 fun_eq_iff)
  have vs: "vals ?s2 = vals s"
    using error_ok_views(2) [OF err] views_disjoint(1) [OF r] goodD(1) [OF good]
    by (cases "last_error r = NULL") (auto simp: vals_def heap2 fun_eq_iff)
  have ss: "strs ?s2 a = (if a = last_error r then None else strs s a)" for a
    using views_disjoint(2) [OF r] by (auto simp: strs_def heap2)
  have N: "heap ?s2 NULL = None"
    using goodD(1) [OF good] by simp
  note * = good_without_runtime [OF good r none rt vs ss N]
  show ?thesis
    unfolding eq ok_Some settled_def loses_engines_def using * rt vs r none d by auto
qed

lemma ok_free_runtime_if_ready:
  assumes good: "good s k {#} 0 0" and r: "rts s k = Some r"
  shows "ok (free_runtime_if_ready k s) (\<lambda>_. settled k s)"
proof -
  have k: "heap s k = Some (RuntimeCell r)" and knz: "k \<noteq> NULL"
    using r goodD(1) [OF good] by (auto simp: rts_heap rts_def)
  have cnt: "value_count r = 0 \<longleftrightarrow> handles_of s k = {}"
    using value_count_0 [OF goodD(3) [OF good r]] .
  show ?thesis
  proof (cases "destroying r \<and> value_count r = 0")
    case True
    then show ?thesis
      using ok_free_runtime [OF good r] cnt knz k
      by (simp add: free_runtime_if_ready_def load_rt_def)
  next
    case False
    then have "settled k s s"
      using good r cnt by (auto simp: settled_def loses_no_engines)
    with False show ?thesis
      using knz k by (auto simp: free_runtime_if_ready_def load_rt_def)
  qed
qed

section \<open>Destroying a runtime\<close>

text \<open>The state after \<open>js_runtime_destroy\<close>.\<close>

definition runtime_destroyed :: "addr \<Rightarrow> 'e st \<Rightarrow> 'e st \<Rightarrow> bool" where
  "runtime_destroyed k s s' \<longleftrightarrow>
     good s' k {#} 0 0 \<and> vals s' = vals s \<and> client_strs s' = client_strs s \<and>
     loses_engines (of_bool (handles_of s k = {})) s s' \<and>
     (\<exists>r. rts s k = Some r \<and>
        rts s' = (rts s)(k := if handles_of s k = {} then None else Some (r\<lparr>destroying := True\<rparr>)))"

lemma good_set_destroying:
  assumes good: "good s k {#} 0 0" and r: "rts s k = Some r"
    and s': "s' = s\<lparr>heap := (heap s)(k \<mapsto> RuntimeCell (r\<lparr>destroying := True\<rparr>))\<rparr>"
  shows "good s' k {#} 0 0" "rts s' = (rts s)(k \<mapsto> r\<lparr>destroying := True\<rparr>)" "vals s' = vals s"
    "client_strs s' = client_strs s" "outside s' = outside s"
proof -
  show rt: "rts s' = (rts s)(k \<mapsto> r\<lparr>destroying := True\<rparr>)" and vs: "vals s' = vals s"
    using views_disjoint(1) [OF r] by (auto simp: s' views_upd fun_eq_iff)
  have ss: "strs s' = strs s"
    using views_disjoint(2) [OF r] by (auto simp: s' views_upd fun_eq_iff)
  have err: "error_ok s' = error_ok s"
    by (simp add: error_ok_def ss fun_eq_iff)
  show "good s' k {#} 0 0"
  proof (rule goodI)
    show "rt_ok s' k r' {#} 0 0" if "rts s' k = Some r'" for r'
      by (rule rt_ok_same [OF goodD(3) [OF good r]])
        (use that good_error_ok [OF good r] in \<open>auto simp: rt vs err\<close>)
    show "rt_ok s' h r' {#} 0 0" if "h \<noteq> k" "rts s' h = Some r'" for h r'
    proof -
      from that have h: "rts s h = Some r'" by (simp add: rt)
      show ?thesis
        by (rule rt_ok_same [OF goodD(4) [OF good that(1) h]])
          (simp_all add: vs err good_error_ok [OF good h])
    qed
    show "errors_distinct s'"
      using goodD(5) [OF good] r by (auto simp: errors_distinct_def rt split: if_splits)
    show "heap s' NULL = None"
      using goodD(1) [OF good] r by (auto simp: s' rts_def)
  qed (use goodD(2) [OF good] in \<open>auto simp: rt vs\<close>)
  show "client_strs s' = client_strs s"
    using r by (auto simp: client_strs_def rt ss fun_eq_iff)
qed (simp add: s')

lemma runtime_destroy_ok:
  assumes good: "good s k {#} 0 0" and r: "rts s k = Some r"
  shows "ok (js_runtime_destroy k s) (\<lambda>_. runtime_destroyed k s)"
proof -
  have k: "heap s k = Some (RuntimeCell r)" and knz: "k \<noteq> NULL"
    using r goodD(1) [OF good] by (auto simp: rts_heap rts_def)
  let ?s = "s\<lparr>heap := (heap s)(k \<mapsto> RuntimeCell (r\<lparr>destroying := True\<rparr>))\<rparr>"
  note s = good_set_destroying [OF good r refl]
  have "ok (free_runtime_if_ready k ?s) (\<lambda>_. settled k ?s)"
    by (rule ok_free_runtime_if_ready [OF s(1)]) (simp add: s(2))
  then have "ok (free_runtime_if_ready k ?s) (\<lambda>_. runtime_destroyed k s)"
    by (rule ok_mono)
      (use r handles_of_cong [OF s(3)] s(5) in
        \<open>auto simp: settled_def runtime_destroyed_def loses_engines_def s(2-4) split: if_splits\<close>)
  then show ?thesis
    using k knz by (simp add: js_runtime_destroy_def load_rt_def store_rt_def)
qed

section \<open>Destroying a value handle\<close>

lemma handle_remove:
  assumes v: "vals s v = Some vh" and vs: "vals s' = (vals s)(v := None)"
  shows "handles_of s' h = handles_of s h - {v}"
    and "handle_refs s (vh_runtime vh) = handle_refs s' (vh_runtime vh) + rc (vh_value vh)"
    and "h \<noteq> vh_runtime vh \<Longrightarrow> handles_of s' h = handles_of s h"
    and "h \<noteq> vh_runtime vh \<Longrightarrow> handle_refs s' h = handle_refs s h"
proof -
  show eq: "handles_of s' h = handles_of s h - {v}" for h
    by (auto simp: handles_of_def vs)
  have ref: "rc (vh_value (the (vals s' w))) = rc (vh_value (the (vals s w)))" if "w \<noteq> v" for w
    using that by (simp add: vs)
  have "v \<in> handles_of s (vh_runtime vh)"
    using v by (simp add: handles_of_def)
  then show "handle_refs s (vh_runtime vh) = handle_refs s' (vh_runtime vh) + rc (vh_value vh)"
    using v by (simp add: handle_refs_def eq ref sum.remove)
  show same: "handles_of s' h = handles_of s h" if "h \<noteq> vh_runtime vh" for h
    using that v by (auto simp: vs handles_of_def)
  show "handle_refs s' h = handle_refs s h" if "h \<noteq> vh_runtime vh"
    unfolding handle_refs_def same [OF that]
    by (rule sum.cong [OF refl]) (use that v in \<open>auto simp: handles_of_def vs\<close>)
qed

lemma good_remove_handle:
  assumes good: "good s k {#} 0 0" and v: "vals s v = Some vh" and k: "vh_runtime vh = k"
    and r: "rts s k = Some r" and g: "runtime r = Some g"
    and g': "refs g' = refs g - rc (vh_value vh)" "cstrings g' = cstrings g" "penums g' = penums g"
    and r': "r' = r\<lparr>runtime := Some g', value_count := value_count r - 1\<rparr>"
    and heap': "heap s' = (heap s)(v := None, k \<mapsto> RuntimeCell r')"
  shows "good s' k {#} 0 0" "rts s' = (rts s)(k \<mapsto> r')" "vals s' = (vals s)(v := None)"
    "client_strs s' = client_strs s"
proof -
  note V = views_disjoint(3,4) [OF v]
  show rt: "rts s' = (rts s)(k \<mapsto> r')" and vs: "vals s' = (vals s)(v := None)"
    using V views_disjoint(1) [OF r] by (auto simp: heap' rts_def vals_def fun_eq_iff)
  have ss: "strs s' = strs s"
    using V views_disjoint(2) [OF r] by (auto simp: heap' strs_def fun_eq_iff)
  have err: "error_ok s' = error_ok s"
    by (simp add: error_ok_def ss fun_eq_iff)
  have okr: "rt_ok s k r {#} 0 0"
    using good r by (rule goodD(3))
  have "v \<in> handles_of s k"
    using v k by (simp add: handles_of_def)
  then have card: "card (handles_of s' k) = card (handles_of s k) - 1" "card (handles_of s k) \<noteq> 0"
    by (auto simp: handle_remove(1) [OF v vs])
  with okr have "value_count r \<noteq> 0"
    by (auto simp: rt_ok_def)
  then have "unat (value_count r - 1) = unat (value_count r) - 1"
    by (simp add: unat_minus_one)
  then have new: "rt_ok s' k r' {#} 0 0"
    using okr g g' handle_remove(2) [OF v vs] k by (auto simp: rt_ok_def err r' card)
  show "good s' k {#} 0 0"
  proof (rule goodI)
    show "rt_ok s' k x {#} 0 0" if "rts s' k = Some x" for x
      using new that by (simp add: rt)
    show "rt_ok s' h x {#} 0 0" if "h \<noteq> k" "rts s' h = Some x" for h x
      using goodD(4) [OF good that(1), of x] that handle_remove(3,4) [OF v vs] k
      by (simp add: rt rt_ok_def err)
    show "errors_distinct s'"
      using goodD(5) [OF good] r by (auto simp: errors_distinct_def rt r' split: if_splits)
    show "heap s' NULL = None"
      using goodD(1) [OF good] r by (auto simp: heap' rts_def)
  qed (use goodD(2) [OF good] in \<open>auto simp: rt vs split: if_splits\<close>)
  show "client_strs s' = client_strs s"
    using r by (auto simp: client_strs_def rt ss r' fun_eq_iff)
qed

text \<open>The state after \<open>js_value_destroy\<close>: the handle is gone, and with it the runtime it kept alive.\<close>

definition value_destroyed :: "addr \<Rightarrow> js_value_handle \<Rightarrow> 'e st \<Rightarrow> 'e st \<Rightarrow> bool" where
  "value_destroyed v vh s s' \<longleftrightarrow>
     good s' (vh_runtime vh) {#} 0 0 \<and> vals s' = (vals s)(v := None) \<and>
     client_strs s' = client_strs s \<and>
     (\<forall>h. h \<noteq> vh_runtime vh \<longrightarrow> rts s' h = rts s h) \<and>
     (\<exists>r. rts s (vh_runtime vh) = Some r \<and>
        (if destroying r \<and> handles_of s (vh_runtime vh) = {v}
         then rts s' (vh_runtime vh) = None \<and> loses_engines 1 s s'
         else (\<exists>r'. rts s' (vh_runtime vh) = Some r' \<and> destroying r' = destroying r) \<and> loses_engines 0 s s'))"

lemma value_destroy_ok:
  assumes good: "good s (vh_runtime vh) {#} 0 0" and v: "vals s v = Some vh"
  shows "ok (js_value_destroy E v s) (\<lambda>_. value_destroyed v vh s)"
proof -
  let ?k = "vh_runtime vh"
  have hv: "heap s v = Some (ValueCell vh)" and vnz: "v \<noteq> NULL"
    using v goodD(1) [OF good] by (auto simp: vals_heap vals_def)
  obtain r where r: "rts s ?k = Some r"
    using goodD(2) [OF good v] by auto
  then have k: "heap s ?k = Some (RuntimeCell r)" and knz: "?k \<noteq> NULL" and vk: "v \<noteq> ?k"
    using goodD(1) [OF good] hv by (auto simp: rts_heap rts_def)
  have okr: "rt_ok s ?k r {#} 0 0"
    using good r by (rule goodD(3))
  then obtain g where g: "jscontext r" "runtime r = Some g" "refs g = handle_refs s ?k"
    by (auto simp: rt_ok_def)
  define g' where "g' = g\<lparr>refs := refs g - rc (vh_value vh), estate := JS_FreeValue E (vh_value vh) (estate g)\<rparr>"
  have "rc (vh_value vh) \<subseteq># refs g"
    using rc_handle [OF v] g by simp
  then have free: "call_FreeValue E (vh_value vh) g = Some ((), g')"
    by (auto simp: call_FreeValue_def disown_def owned_def rc_def g'_def)
  let ?r = "r\<lparr>runtime := Some g', value_count := value_count r - 1\<rparr>"
  define s1 where "s1 = s\<lparr>heap := (heap s)(v := None, ?k \<mapsto> RuntimeCell ?r)\<rparr>"
  have "value_count r \<noteq> 0"
    using value_count_0 [OF okr] v by (auto simp: handles_of_def)
  then have eq: "js_value_destroy E v s = free_runtime_if_ready ?k s1"
    using k hv vk vnz knz g free
    by (simp add: js_value_destroy_def load_val_def valid_runtime_def load_rt_def on_engine_def
        store_rt_def c_free_def word_gt_0 s1_def fun_upd_twist Let_def)
  note S = good_remove_handle [OF good v refl r g(2) _ _ _ refl, of g' s1]
  have S: "good s1 ?k {#} 0 0" "rts s1 = (rts s)(?k \<mapsto> ?r)" "vals s1 = (vals s)(v := None)"
    "client_strs s1 = client_strs s" "outside s1 = outside s"
    using S by (simp_all add: s1_def g'_def)
  have "ok (free_runtime_if_ready ?k s1) (\<lambda>_. settled ?k s1)"
    by (rule ok_free_runtime_if_ready [OF S(1)]) (simp add: S(2))
  moreover have "handles_of s1 ?k = {} \<longleftrightarrow> handles_of s ?k = {v}"
    using v unfolding handle_remove(1) [OF v S(3)] by (auto simp: handles_of_def)
  then have "(\<exists>x. rts s1 ?k = Some x \<and> destroying x \<and> handles_of s1 ?k = {}) \<longleftrightarrow> destroying r \<and> handles_of s ?k = {v}"
    by (simp add: S(2))
  then have "value_destroyed v vh s s'" if "settled ?k s1 s'" for s'
    using that r S(5) unfolding settled_def value_destroyed_def loses_engines_def S(2-4)
    by (cases "destroying r \<and> handles_of s ?k = {v}") simp_all
  ultimately show ?thesis
    unfolding eq by (elim ok_mono)
qed

section \<open>Creating a runtime\<close>

definition runtime_created :: "'e st \<Rightarrow> addr \<Rightarrow> 'e st \<Rightarrow> bool" where
  "runtime_created s h s' \<longleftrightarrow>
     good s' h {#} 0 0 \<and> vals s' = vals s \<and> client_strs s' = client_strs s \<and>
     (if h = NULL then rts s' = rts s \<and> loses_engines 0 s s'
      else rts s h = None \<and> loses_engines (- 1) s s' \<and> (\<exists>r. rts s' = (rts s)(h \<mapsto> r) \<and> \<not> destroying r \<and> last_error r = NULL))"

lemma runtime_created_fail:
  assumes "good s k {#} 0 0" and "heap s' = heap s" and "outside s' = outside s"
  shows "runtime_created s NULL s'"
  using assms good_cong [OF assms(2)] views_cong [OF assms(2)] good_change_focus [of s k NULL]
  by (simp add: runtime_created_def loses_no_engines)

lemma runtime_created_new:
  assumes good: "good s k {#} 0 0" and h: "h \<noteq> NULL" "heap s h = None"
    and heap': "heap s' = (heap s)(h \<mapsto> RuntimeCell r)" and files: "loses_engines (- 1) s s'"
    and r: "jscontext r" "last_error r = NULL" "value_count r = 0" "\<not> destroying r"
      "runtime r = Some g" "refs g = {#}" "cstrings g = 0" "penums g = 0"
  shows "runtime_created s h s'"
proof -
  note n = views_None [OF h(2)]
  have rt: "rts s' = (rts s)(h \<mapsto> r)" and vs: "vals s' = vals s" and ss: "strs s' = strs s"
    using n by (auto simp: heap' rts_def vals_def strs_def fun_eq_iff)
  have err: "error_ok s' = error_ok s"
    by (simp add: error_ok_def ss fun_eq_iff)
  have none: "handles_of s h = {}"
    using goodD(2) [OF good] n by (fastforce simp: handles_of_def)
  have good': "rt_ok s x r' {#} 0 0" if "rts s x = Some r'" for x r'
    using goodD(3,4) [OF good] that by (cases "x = k") auto
  have "good s' h {#} 0 0"
  proof (rule goodI)
    show "rt_ok s' h r' {#} 0 0" if "rts s' h = Some r'" for r'
      using that r none handles_of_cong [OF vs] by (auto simp: rt rt_ok_def error_ok_def handle_refs_def)
    show "rt_ok s' x r' {#} 0 0" if "x \<noteq> h" "rts s' x = Some r'" for x r'
    proof -
      from that have x: "rts s x = Some r'" by (simp add: rt)
      show ?thesis
        by (rule rt_ok_same [OF good' [OF x]]) (simp_all add: vs err good_error_ok [OF good x])
    qed
    show "errors_distinct s'"
      using goodD(5) [OF good] r by (auto simp: errors_distinct_def rt split: if_splits)
  qed (use goodD(1,2) [OF good] h in \<open>auto simp: heap' rt vs\<close>)
  moreover have "client_strs s' a = client_strs s a" for a
  proof (cases "a = NULL")
    case True
    then show ?thesis
      using goodD(1) [OF good] h by (simp add: client_strs_None ss strs_def)
  next
    case False
    then have "(\<exists>x r'. rts s' x = Some r' \<and> last_error r' = a) \<longleftrightarrow>
        (\<exists>x r'. rts s x = Some r' \<and> last_error r' = a)"
      using r n by (auto simp: rt) (metis option.distinct(1))
    then show ?thesis
      by (auto simp: client_strs_def ss)
  qed
  ultimately show ?thesis
    using h n files r by (auto simp: runtime_created_def rt vs)
qed

lemma runtime_create_ok:
  assumes good: "good s k {#} 0 0"
  shows "ok (js_runtime_create E s) (runtime_created s)"
proof -
  obtain h s1 where s1: "c_alloc (RuntimeCell zero_runtime_handle) s = Some (h, s1)"
    and fresh: "h \<noteq> NULL \<Longrightarrow> heap s h = None"
    and heap1: "heap s1 = (if h = NULL then heap s else (heap s)(h \<mapsto> RuntimeCell zero_runtime_handle))"
    and files1: "outside s1 = outside s"
    by (rule c_alloc_cases [of "RuntimeCell zero_runtime_handle" s]) (use that in blast)
  show ?thesis
  proof (cases "h = NULL")
    case True
    then show ?thesis
      using s1 runtime_created_fail [OF good, of s1] files1 by (simp add: js_runtime_create_def heap1)
  next
    case False
    have undo: "ok (do { (_, s) \<leftarrow> c_free h s2; Some (NULL, s) }) (runtime_created s)"
      if "heap s2 = heap s1" "outside s2 = outside s1" for s2
      using False fresh [OF False] files1 that
      by (auto simp: c_free_def heap1 intro!: runtime_created_fail [OF good])
    have made: "ok (do { (_, s) \<leftarrow> store_rt h (zero_runtime_handle\<lparr>runtime := Some g, jscontext := True\<rparr>) s2; Some (h, s) })
        (runtime_created s)"
      if "heap s2 = heap s1" "loses_engines (- 1) s1 s2" "refs g = {#}" "cstrings g = 0" "penums g = 0" for s2 g
      using False fresh [OF False] files1 that
      by (auto simp: store_rt_def heap1 zero_runtime_handle_def loses_engines_def intro!: runtime_created_new [OF good])
    show ?thesis
      using s1 False
      by (auto simp: js_runtime_create_def call_NewRuntime_def call_NewContext_def call_FreeRuntime_def loses_engines_def
          split: option.split prod.split bool.split intro!: undo made)
  qed
qed

section \<open>Strings of the client\<close>

lemma free_string_ok:
  assumes good: "good s k {#} 0 0" and p: "p = NULL \<or> client_strs s p \<noteq> None"
  shows "ok (js_bridge_free_string p s)
    (\<lambda>_ s'. good s' k {#} 0 0 \<and> vals s' = vals s \<and> rts s' = rts s \<and> outside s' = outside s \<and>
            client_strs s' = (client_strs s)(p := None))"
proof (cases "p = NULL")
  case True
  then have "client_strs s p = None"
    using goodD(1) [OF good] by (simp add: client_strs_None views_None)
  then show ?thesis
    using good True by (auto simp: js_bridge_free_string_def c_free_def fun_eq_iff)
next
  case False
  with p obtain b where b: "client_strs s p = Some b" by auto
  then have st: "strs s p = Some b" and no: "\<And>h r. rts s h = Some r \<Longrightarrow> last_error r \<noteq> p"
    by (auto simp: client_strs_def split: if_splits)
  let ?s = "s\<lparr>heap := (heap s)(p := None)\<rparr>"
  have rt: "rts ?s = rts s" and vs: "vals ?s = vals s" and ss: "strs ?s = (strs s)(p := None)"
    using views_disjoint(5,6) [OF st] by (auto simp: views_upd fun_eq_iff)
  have err: "error_ok ?s (last_error r)" if "rts s h = Some r" for h r
    using good_error_ok [OF good that] no [OF that] by (auto simp: error_ok_def ss)
  have "good ?s k {#} 0 0"
  proof (rule goodI)
    show "rt_ok ?s k r {#} 0 0" if "rts ?s k = Some r" for r
      using that by (intro rt_ok_same [OF goodD(3) [OF good]]) (auto simp: rt vs err)
    show "rt_ok ?s h r {#} 0 0" if "h \<noteq> k" "rts ?s h = Some r" for h r
      using that by (intro rt_ok_same [OF goodD(4) [OF good]]) (auto simp: rt vs err)
    show "errors_distinct ?s"
      using goodD(5) [OF good] by (simp add: errors_distinct_def rt)
  qed (use good in \<open>auto simp: rt vs dest: goodD(1,2)\<close>)
  moreover have "client_strs ?s = (client_strs s)(p := None)"
    using no by (auto simp: client_strs_def ss rt fun_eq_iff)
  moreover have "js_bridge_free_string p s = Some ((), ?s)"
    using False st by (simp add: js_bridge_free_string_def c_free_def flip: strs_heap)
  ultimately show ?thesis
    by (simp add: rt vs)
qed

lemma last_error_ok:
  assumes "rts s h = Some r" and "good s k X c p"
  shows "js_runtime_last_error h s =
    Some (if last_error r = NULL then Literal '''' else Block (last_error r), s)"
proof -
  have "heap s h = Some (RuntimeCell r)" "h \<noteq> NULL"
    using assms by (auto simp: rts_heap rts_def good_def)
  then show ?thesis
    by (simp add: js_runtime_last_error_def load_rt_def)
qed

end
