(* ===== verification/Bridge_Safety.thy ===== *)
theory Bridge_Safety
  imports Bridge_Lifecycle
begin

text \<open>
  Clients of the bridge: sequences of calls of its exported functions. A call is \<open>allowed\<close> when its
  handle arguments are \<open>NULL\<close> or live, its argument array is as long as announced, a string it frees
  was handed out and not yet freed, and the length it asks for is a number \<open>int64_t\<close> can hold.
  \<open>reachable\<close> are the states of such a client, from the empty heap, under any behaviour of the engine
  and of the allocator.
\<close>

section \<open>Calls\<close>

datatype api_call =
    RuntimeCreate
  | RuntimeDestroy addr
  | RuntimeLastError addr
  | RuntimeEnableStd addr
  | RuntimeEval addr "string option"
  | RuntimeGetGlobal addr "string option"
  | RuntimeNewBool addr u64
  | RuntimeNewNumber addr f64
  | RuntimeNewString addr "string option"
  | RuntimeNewBigint addr "string option"
  | RuntimeImport addr "string option"
  | ValueDestroy addr
  | ValueKind addr
  | ValueToBool addr
  | ValueToNumber addr
  | ValueToString addr
  | FreeString addr
  | ValueIsArray addr
  | ValueArrayLength addr
  | ValueGetProperty addr "string option"
  | ValueSetProperty addr "string option" addr
  | ValueGetIndex addr u64
  | ValueSetIndex addr u64 addr
  | ValueCall addr addr "addr list option" int
  | ValueConstruct addr "addr list option" int

datatype api_result =
    RVoid | RHandle addr | RInt int | RInt64 u64 | RDouble f64 | RKind quickjs_value_kind | RString c_string

definition returning :: "('a \<Rightarrow> api_result) \<Rightarrow> ('a \<times> 'e st) option \<Rightarrow> (api_result \<times> 'e st) option" where
  "returning f m = map_option (map_prod f id) m"

fun api :: "'e js_engine \<Rightarrow> api_call \<Rightarrow> ('e, api_result) cop" where
  "api E RuntimeCreate s = returning RHandle (js_runtime_create E s)"
| "api E (RuntimeDestroy h) s = returning (\<lambda>_. RVoid) (js_runtime_destroy h s)"
| "api E (RuntimeLastError h) s = returning RString (js_runtime_last_error h s)"
| "api E (RuntimeEnableStd h) s = returning RInt (js_runtime_enable_std_module E h s)"
| "api E (RuntimeEval h src) s = returning RHandle (js_runtime_eval_value E h src s)"
| "api E (RuntimeGetGlobal h name) s = returning RHandle (js_runtime_get_global_property E h name s)"
| "api E (RuntimeNewBool h b) s = returning RHandle (js_runtime_new_bool E h b s)"
| "api E (RuntimeNewNumber h d) s = returning RHandle (js_runtime_new_number E h d s)"
| "api E (RuntimeNewString h t) s = returning RHandle (js_runtime_new_string E h t s)"
| "api E (RuntimeNewBigint h t) s = returning RHandle (js_runtime_new_bigint E h t s)"
| "api E (RuntimeImport h path) s = returning RHandle (js_runtime_import_module E h path s)"
| "api E (ValueDestroy v) s = returning (\<lambda>_. RVoid) (js_value_destroy E v s)"
| "api E (ValueKind v) s = returning RKind (js_value_kind E v s)"
| "api E (ValueToBool v) s = returning RInt (js_value_to_bool E v s)"
| "api E (ValueToNumber v) s = returning RDouble (js_value_to_number E v s)"
| "api E (ValueToString v) s = returning RHandle (js_value_to_string E v s)"
| "api E (FreeString p) s = returning (\<lambda>_. RVoid) (js_bridge_free_string p s)"
| "api E (ValueIsArray v) s = returning RInt (js_value_is_array E v s)"
| "api E (ValueArrayLength v) s = returning RInt64 (js_value_array_length E v s)"
| "api E (ValueGetProperty v name) s = returning RHandle (js_value_get_property E v name s)"
| "api E (ValueSetProperty v name w) s = returning RInt (js_value_set_property E v name w s)"
| "api E (ValueGetIndex v i) s = returning RHandle (js_value_get_index E v i s)"
| "api E (ValueSetIndex v i w) s = returning RInt (js_value_set_index E v i w s)"
| "api E (ValueCall f this as n) s = returning RHandle (js_value_call E f this as n s)"
| "api E (ValueConstruct f as n) s = returning RHandle (js_value_construct E f as n s)"

definition usable_rt :: "'e st \<Rightarrow> addr \<Rightarrow> bool" where
  "usable_rt s h \<longleftrightarrow> h = NULL \<or> rts s h \<noteq> None"

fun allowed :: "'e js_engine \<Rightarrow> 'e st \<Rightarrow> api_call \<Rightarrow> bool" where
  "allowed E s RuntimeCreate \<longleftrightarrow> True"
| "allowed E s (RuntimeDestroy h) \<longleftrightarrow> usable_rt s h"
| "allowed E s (RuntimeLastError h) \<longleftrightarrow> usable_rt s h"
| "allowed E s (RuntimeEnableStd h) \<longleftrightarrow> usable_rt s h"
| "allowed E s (RuntimeEval h src) \<longleftrightarrow> usable_rt s h"
| "allowed E s (RuntimeGetGlobal h name) \<longleftrightarrow> usable_rt s h"
| "allowed E s (RuntimeNewBool h b) \<longleftrightarrow> usable_rt s h"
| "allowed E s (RuntimeNewNumber h d) \<longleftrightarrow> usable_rt s h"
| "allowed E s (RuntimeNewString h t) \<longleftrightarrow> usable_rt s h"
| "allowed E s (RuntimeNewBigint h t) \<longleftrightarrow> usable_rt s h"
| "allowed E s (RuntimeImport h path) \<longleftrightarrow> usable_rt s h"
| "allowed E s (ValueDestroy v) \<longleftrightarrow> usable_val s v"
| "allowed E s (ValueKind v) \<longleftrightarrow> usable_val s v"
| "allowed E s (ValueToBool v) \<longleftrightarrow> usable_val s v"
| "allowed E s (ValueToNumber v) \<longleftrightarrow> usable_val s v"
| "allowed E s (ValueToString v) \<longleftrightarrow> usable_val s v"
| "allowed E s (FreeString p) \<longleftrightarrow> p = NULL \<or> client_strs s p \<noteq> None"
| "allowed E s (ValueIsArray v) \<longleftrightarrow> usable_val s v"
| "allowed E s (ValueArrayLength v) \<longleftrightarrow> usable_val s v \<and>
     (\<forall>vh. vals s v = Some vh \<longrightarrow> length_fits E vh (est s (vh_runtime vh)))"
| "allowed E s (ValueGetProperty v name) \<longleftrightarrow> usable_val s v"
| "allowed E s (ValueSetProperty v name w) \<longleftrightarrow> usable_val s v \<and> usable_val s w"
| "allowed E s (ValueGetIndex v i) \<longleftrightarrow> usable_val s v"
| "allowed E s (ValueSetIndex v i w) \<longleftrightarrow> usable_val s v \<and> usable_val s w"
| "allowed E s (ValueCall f this as n) \<longleftrightarrow> usable_val s f \<and> usable_val s this \<and> args_ok s as n"
| "allowed E s (ValueConstruct f as n) \<longleftrightarrow> usable_val s f \<and> args_ok s as n"

inductive reachable :: "'e js_engine \<Rightarrow> 'e st \<Rightarrow> bool" for E where
  start: "heap s = Map.empty \<Longrightarrow> reachable E s"
| call: "reachable E s \<Longrightarrow> allowed E s c \<Longrightarrow> api E c s = Some (x, s') \<Longrightarrow> reachable E s'"

section \<open>Every allowed call keeps the invariant\<close>

lemma ok_returning [simp]: "ok (returning f m) Q \<longleftrightarrow> ok m (\<lambda>x. Q (f x))"
  by (cases m) (auto simp: returning_def ok_def)

lemma overdue_run:
  assumes inv: "bridge_inv s" and good: "good s' k {#} 0 0" and fr: "frame k T s s'"
    and more: "handles_of s k \<subseteq> handles_of s' k"
  shows "bridge_inv s'"
proof -
  from fr obtain r r' where r: "rts s k = Some r" "rts s' k = Some r'" "destroying r' = destroying r"
    by (auto simp: frame_def)
  have "none_overdue s'"
    unfolding none_overdue_def
  proof (intro allI impI)
    fix h x assume x: "rts s' h = Some x" "destroying x"
    show "value_count x \<noteq> 0"
    proof (cases "h = k")
      case True
      have "good s k {#} 0 0"
        using inv good_change_focus [of s NULL k] by (simp add: bridge_inv_def)
      then have ne: "handles_of s k \<noteq> {}"
        using value_count_0 [OF goodD(3) [OF _ r(1)]] inv r x True
        by (force simp: bridge_inv_def none_overdue_def)
      show ?thesis
        using value_count_0 [OF goodD(3) [OF good r(2)]] r x True more ne by auto
    next
      case False
      then show ?thesis
        using fr x inv by (auto simp: frame_def bridge_inv_def none_overdue_def)
    qed
  qed
  with good show ?thesis
    using good_change_focus [of s' k NULL] by (simp add: bridge_inv_def)
qed

lemma inv_run:
  assumes "bridge_inv s" and "run k s T {#} 0 0 s'"
  shows "bridge_inv s'"
  using assms handles_of_cong [OF run_vals [OF assms(2)]]
  by (intro overdue_run [of s s' k T]) (auto simp: run_def)

lemma inv_created:
  assumes "bridge_inv s" and "created k s a v s'"
  shows "bridge_inv s'"
  using assms by (intro overdue_run [of s s' k Map.empty]) (auto simp: created_def handles_of_def)

lemma inv_keeps: "bridge_inv s \<Longrightarrow> keeps k s x s' \<Longrightarrow> bridge_inv s'"
  by (simp add: keeps_def inv_run)

lemma inv_handle_post: "bridge_inv s \<Longrightarrow> handle_post k s x s' \<Longrightarrow> bridge_inv s'"
  by (auto simp: handle_post_def intro: inv_run inv_created)

lemma inv_string_post: "bridge_inv s \<Longrightarrow> string_post k s x s' \<Longrightarrow> bridge_inv s'"
  by (auto simp: string_post_def intro: inv_run)

lemma inv_runtime_destroyed:
  assumes "bridge_inv s" and "runtime_destroyed k s s'"
  shows "bridge_inv s'"
proof -
  from assms(2) obtain r where g: "good s' k {#} 0 0" and vs: "vals s' = vals s" and r: "rts s k = Some r"
    and rt: "rts s' = (rts s)(k := if handles_of s k = {} then None else Some (r\<lparr>destroying := True\<rparr>))"
    by (auto simp: runtime_destroyed_def)
  have "good s k {#} 0 0"
    using assms(1) good_change_focus [of s NULL k] by (simp add: bridge_inv_def)
  then have "value_count r = 0 \<longleftrightarrow> handles_of s k = {}"
    by (intro value_count_0 [OF goodD(3) [OF _ r]])
  then have "none_overdue s'"
    using assms(1) by (auto simp: none_overdue_def rt bridge_inv_def split: if_splits)
  with g show ?thesis
    using good_change_focus [of s' k NULL] by (simp add: bridge_inv_def)
qed

lemma inv_value_destroyed:
  assumes "bridge_inv s" and "value_destroyed v vh s s'" and "vals s v = Some vh"
  shows "bridge_inv s'"
proof -
  let ?k = "vh_runtime vh"
  from assms(2) obtain r where g: "good s' ?k {#} 0 0" and vs: "vals s' = (vals s)(v := None)"
    and r: "rts s ?k = Some r" and other: "\<And>h. h \<noteq> ?k \<Longrightarrow> rts s' h = rts s h"
    and k: "if destroying r \<and> handles_of s ?k = {v} then rts s' ?k = None
            else \<exists>r'. rts s' ?k = Some r' \<and> destroying r' = destroying r"
    by (auto simp: value_destroyed_def)
  have "value_count x \<noteq> 0" if x: "rts s' h = Some x" "destroying x" for h x
  proof (cases "h = ?k")
    case True
    then have "handles_of s ?k \<noteq> {v}"
      using k x by (auto split: if_splits)
    moreover have "v \<in> handles_of s ?k"
      using assms(3) by (simp add: handles_of_def)
    ultimately have "handles_of s' ?k \<noteq> {}"
      using handle_remove(1) [OF assms(3) vs] by blast
    then show ?thesis
      using value_count_0 [OF goodD(3) [OF g]] x True by blast
  next
    case False
    then show ?thesis
      using other x assms(1) by (auto simp: bridge_inv_def none_overdue_def)
  qed
  then show ?thesis
    using g good_change_focus [of s' ?k NULL] by (simp add: bridge_inv_def none_overdue_def)
qed

lemma inv_runtime_created:
  assumes "bridge_inv s" and "runtime_created s h s'"
  shows "bridge_inv s'"
  using assms good_change_focus [of s' h NULL]
  by (auto simp: bridge_inv_def none_overdue_def runtime_created_def split: if_splits)

section \<open>The effect of a call\<close>

text \<open>The runtime a call works on.\<close>

definition runtime_of :: "'e st \<Rightarrow> addr \<Rightarrow> addr" where
  "runtime_of s v = (case vals s v of None \<Rightarrow> NULL | Some vh \<Rightarrow> vh_runtime vh)"

fun target :: "'e st \<Rightarrow> api_call \<Rightarrow> addr" where
  "target s RuntimeCreate = NULL"
| "target s (RuntimeDestroy h) = h"
| "target s (RuntimeLastError h) = h"
| "target s (RuntimeEnableStd h) = h"
| "target s (RuntimeEval h src) = h"
| "target s (RuntimeGetGlobal h name) = h"
| "target s (RuntimeNewBool h b) = h"
| "target s (RuntimeNewNumber h d) = h"
| "target s (RuntimeNewString h t) = h"
| "target s (RuntimeNewBigint h t) = h"
| "target s (RuntimeImport h path) = h"
| "target s (ValueDestroy v) = runtime_of s v"
| "target s (ValueKind v) = runtime_of s v"
| "target s (ValueToBool v) = runtime_of s v"
| "target s (ValueToNumber v) = runtime_of s v"
| "target s (ValueToString v) = runtime_of s v"
| "target s (FreeString p) = NULL"
| "target s (ValueIsArray v) = runtime_of s v"
| "target s (ValueArrayLength v) = runtime_of s v"
| "target s (ValueGetProperty v name) = runtime_of s v"
| "target s (ValueSetProperty v name w) = runtime_of s v"
| "target s (ValueGetIndex v i) = runtime_of s v"
| "target s (ValueSetIndex v i w) = runtime_of s v"
| "target s (ValueCall f this as n) = runtime_of s f"
| "target s (ValueConstruct f as n) = runtime_of s f"

text \<open>The calls that return a value handle.\<close>

definition returns_handle :: "api_call \<Rightarrow> bool" where
  "returns_handle c \<longleftrightarrow>
     (case c of RuntimeEval h src \<Rightarrow> True | RuntimeGetGlobal h name \<Rightarrow> True | RuntimeNewBool h b \<Rightarrow> True
      | RuntimeNewNumber h d \<Rightarrow> True | RuntimeNewString h t \<Rightarrow> True | RuntimeNewBigint h t \<Rightarrow> True
      | RuntimeImport h path \<Rightarrow> True | ValueGetProperty v name \<Rightarrow> True | ValueGetIndex v i \<Rightarrow> True
      | ValueCall f this as n \<Rightarrow> True | ValueConstruct f as n \<Rightarrow> True | _ \<Rightarrow> False)"

text \<open>
  What a client holds, computed from its calls and their results alone: a handle or a string belongs to it from the call
  that returned it until the call that gives it back. A null result adds nothing.
\<close>

record client =
  held_runtimes :: "addr set"
  held_values :: "addr set"
  held_strings :: "addr set"

definition nothing :: client where
  "nothing = \<lparr>held_runtimes = {}, held_values = {}, held_strings = {}\<rparr>"

definition taken :: "api_result \<Rightarrow> addr set" where
  "taken x = (case x of RHandle a \<Rightarrow> {a} - {NULL} | _ \<Rightarrow> {})"

definition ledger :: "api_call \<Rightarrow> api_result \<Rightarrow> client \<Rightarrow> client" where
  "ledger c x L =
     (case c of
        RuntimeCreate \<Rightarrow> L\<lparr>held_runtimes := held_runtimes L \<union> taken x\<rparr>
      | RuntimeDestroy h \<Rightarrow> L\<lparr>held_runtimes := held_runtimes L - {h}\<rparr>
      | ValueDestroy v \<Rightarrow> L\<lparr>held_values := held_values L - {v}\<rparr>
      | ValueToString v \<Rightarrow> L\<lparr>held_strings := held_strings L \<union> taken x\<rparr>
      | FreeString p \<Rightarrow> L\<lparr>held_strings := held_strings L - {p}\<rparr>
      | _ \<Rightarrow> if returns_handle c then L\<lparr>held_values := held_values L \<union> taken x\<rparr> else L)"

text \<open>
  What the state says about it: the runtimes that are not being destroyed, the value handles, and the string blocks
  that are not error strings. \<open>balance\<close> are the engine runtimes and contexts beyond those of the runtime handles.
\<close>

definition in_state :: "'e st \<Rightarrow> client" where
  "in_state s = \<lparr>held_runtimes = {h. \<exists>r. rts s h = Some r \<and> \<not> destroying r}, held_values = dom (vals s),
     held_strings = dom (client_strs s)\<rparr>"

definition balance :: "'e st \<Rightarrow> int \<times> int" where
  "balance s = (engines s - int (card (dom (rts s))), contexts s - int (card (dom (rts s))))"

text \<open>
  The invariant is kept; other runtimes are untouched; the only value handle a call ends is the one
  it is asked to destroy; only \<open>js_value_to_string\<close> and \<open>js_bridge_free_string\<close> change the strings of the client; the state
  changes as the ledger of the client does, and no engine is left over.
\<close>

definition changes_strings :: "api_call \<Rightarrow> bool" where
  "changes_strings c \<longleftrightarrow> (case c of ValueToString v \<Rightarrow> True | FreeString p \<Rightarrow> True | _ \<Rightarrow> False)"

definition api_post :: "api_call \<Rightarrow> 'e st \<Rightarrow> api_result \<Rightarrow> 'e st \<Rightarrow> bool" where
  "api_post c s x s' \<longleftrightarrow>
     bridge_inv s' \<and>
     (\<forall>h r. rts s h = Some r \<longrightarrow> h \<noteq> target s c \<longrightarrow> rts s' h = Some r) \<and>
     (\<forall>v vh. vals s v = Some vh \<longrightarrow> c \<noteq> ValueDestroy v \<longrightarrow> vals s' v = Some vh) \<and>
     (\<not> changes_strings c \<longrightarrow> client_strs s' = client_strs s) \<and>
     in_state s' = ledger c x (in_state s) \<and> balance s' = balance s"

definition silent :: "api_call \<Rightarrow> api_result \<Rightarrow> 'e st \<Rightarrow> bool" where
  "silent c x s \<longleftrightarrow> ledger c x (in_state s) = in_state s"

lemma taken_simps [simp]: "taken (RHandle a) = {a} - {NULL}" "taken RVoid = {}" "taken (RInt i) = {}"
  by (simp_all add: taken_def)

lemma in_state_NULL:
  assumes "bridge_inv s"
  shows "held_runtimes (in_state s) - {NULL} = held_runtimes (in_state s)" "held_values (in_state s) - {NULL} = held_values (in_state s)"
  using assms by (auto simp: in_state_def bridge_inv_def good_def rts_def vals_def)

lemmas silent_simps = silent_def ledger_def returns_handle_def

lemma frame_in_state:
  assumes "frame k T s s'"
  shows "held_runtimes (in_state s') = held_runtimes (in_state s)" "balance s' = balance s" "client_strs s' = client_strs s ++ T"
proof -
  obtain r r' where r: "rts s k = Some r" "rts s' k = Some r'" "destroying r' = destroying r"
    and other: "\<And>h. h \<noteq> k \<Longrightarrow> rts s' h = rts s h" and out: "outside s' = outside s"
    using assms by (auto simp: frame_def)
  have "rts s' h = None \<longleftrightarrow> rts s h = None" for h
    using r other [of h] by (cases "h = k") auto
  then have "dom (rts s') = dom (rts s)"
    by (auto simp: dom_def)
  then show "balance s' = balance s"
    using out by (simp add: balance_def)
  have "(\<exists>x. rts s' h = Some x \<and> \<not> destroying x) \<longleftrightarrow> (\<exists>x. rts s h = Some x \<and> \<not> destroying x)" for h
    using r other [of h] by (cases "h = k") auto
  then show "held_runtimes (in_state s') = held_runtimes (in_state s)"
    by (simp add: in_state_def)
  show "client_strs s' = client_strs s ++ T"
    using assms by (simp add: frame_def)
qed

lemma run_in_state: "run k s Map.empty X c p s' \<Longrightarrow> in_state s' = in_state s \<and> balance s' = balance s"
  using frame_in_state [of k Map.empty s s'] by (auto simp: run_def in_state_def)

lemma created_in_state:
  "created k s a v s' \<Longrightarrow>
   in_state s' = (in_state s)\<lparr>held_values := held_values (in_state s) \<union> {a}\<rparr> \<and> balance s' = balance s \<and> a \<noteq> NULL"
  using frame_in_state [of k Map.empty s s'] by (auto simp: created_def in_state_def)

lemma post_same: "bridge_inv s \<Longrightarrow> silent c x s \<Longrightarrow> api_post c s x s"
  by (simp add: api_post_def silent_def)

lemma post_keeps: "bridge_inv s \<Longrightarrow> target s c = k \<Longrightarrow> keeps k s x s' \<Longrightarrow> silent c y s \<Longrightarrow> api_post c s y s'"
  using inv_keeps [of s k x s'] run_in_state [of k s "{#}" 0 0 s']
  by (auto simp: api_post_def keeps_def run_def frame_def silent_def)

lemma post_handle:
  assumes "bridge_inv s" and "target s c = k" and "handle_post k s x s'" and "returns_handle c"
  shows "api_post c s (RHandle x) s'"
proof -
  have "in_state s' = (in_state s)\<lparr>held_values := held_values (in_state s) \<union> taken (RHandle x)\<rparr> \<and> balance s' = balance s"
    using assms(3) run_in_state [of k s "{#}" 0 0 s'] created_in_state [of k s x _ s'] by (auto simp: handle_post_def)
  moreover have "ledger c (RHandle x) L = L\<lparr>held_values := held_values L \<union> taken (RHandle x)\<rparr>" for L
    using assms(4) by (cases c) (simp_all add: ledger_def returns_handle_def)
  ultimately show ?thesis
    using inv_handle_post [OF assms(1,3)] assms(2,3)
    by (auto simp: api_post_def handle_post_def created_def run_def frame_def)
qed

lemma inv_run_start:
  assumes "bridge_inv s"
  shows "rts s h = Some r \<Longrightarrow> run h s Map.empty {#} 0 0 s"
    and "vals s v = Some vh \<Longrightarrow> run (vh_runtime vh) s Map.empty {#} 0 0 s"
proof -
  have good: "good s k {#} 0 0" for k
    using assms good_change_focus [of s NULL k] by (simp add: bridge_inv_def)
  show *: "run h s Map.empty {#} 0 0 s" if "rts s h = Some r" for h r
    using good that by (rule run_start)
  show "run (vh_runtime vh) s Map.empty {#} 0 0 s" if "vals s v = Some vh"
    using goodD(2) [OF good that] * by blast
qed

text \<open>A call on a null handle reports failure and changes nothing.\<close>

lemma null_runtime [simp]: "valid_runtime NULL s = Some (False, s)"
  by (simp add: valid_runtime_def)

lemma null_value [simp]: "valid_value NULL s = Some (False, s)"
  by (simp add: valid_value_def)

lemmas runtime_op_defs =
  js_runtime_enable_std_module_def js_runtime_eval_value_def js_runtime_get_global_property_def
  js_runtime_new_bool_def js_runtime_new_number_def js_runtime_new_string_def
  js_runtime_new_bigint_def js_runtime_import_module_def js_runtime_destroy_def js_runtime_last_error_def

lemmas value_op_defs =
  js_value_destroy_def js_value_kind_def js_value_to_bool_def js_value_to_number_def js_value_to_string_def
  js_value_is_array_def js_value_array_length_def js_value_get_property_def js_value_set_property_def
  js_value_get_index_def js_value_set_index_def js_value_call_def js_value_construct_def

lemma runtime_case:
  assumes "bridge_inv s" and "usable_rt s h" and "h = NULL \<Longrightarrow> ok m (\<lambda>x s'. s' = s \<and> silent c x s)"
    and "\<And>r. rts s h = Some r \<Longrightarrow> run h s Map.empty {#} 0 0 s \<Longrightarrow> ok m (api_post c s)"
  shows "ok m (api_post c s)"
proof (cases "h = NULL")
  case True
  show ?thesis
    using assms(3) [OF True] by (rule ok_mono) (simp add: post_same assms(1))
next
  case False
  then obtain r where "rts s h = Some r"
    using assms(2) by (auto simp: usable_rt_def)
  then show ?thesis
    using assms(4) inv_run_start(1) [OF assms(1)] by blast
qed

lemma value_case:
  assumes "bridge_inv s" and "usable_val s v" and "v = NULL \<Longrightarrow> ok m (\<lambda>x s'. s' = s \<and> silent c x s)"
    and "\<And>vh. vals s v = Some vh \<Longrightarrow> runtime_of s v = vh_runtime vh \<Longrightarrow>
           run (vh_runtime vh) s Map.empty {#} 0 0 s \<Longrightarrow> ok m (api_post c s)"
  shows "ok m (api_post c s)"
proof (cases "v = NULL")
  case True
  show ?thesis
    using assms(3) [OF True] by (rule ok_mono) (simp add: post_same assms(1))
next
  case False
  then obtain vh where "vals s v = Some vh"
    using assms(2) by (auto simp: usable_val_def)
  then show ?thesis
    using assms(4) [of vh] inv_run_start(2) [OF assms(1)] by (simp add: runtime_of_def)
qed

lemma ok_keeps_post:
  "ok m (keeps k s) \<Longrightarrow> bridge_inv s \<Longrightarrow> target s c = k \<Longrightarrow> (\<And>x. silent c (f x) s) \<Longrightarrow> ok m (\<lambda>x. api_post c s (f x))"
  by (erule ok_mono) (simp add: post_keeps)

lemma ok_handle_post:
  "ok m (handle_post k s) \<Longrightarrow> bridge_inv s \<Longrightarrow> target s c = k \<Longrightarrow> returns_handle c \<Longrightarrow> ok m (\<lambda>x. api_post c s (RHandle x))"
  by (erule ok_mono) (simp add: post_handle)

lemma api_ok_runtime:
  assumes inv: "bridge_inv s"
  shows "usable_rt s h \<Longrightarrow> ok (api E (RuntimeEnableStd h) s) (api_post (RuntimeEnableStd h) s)"
    and "usable_rt s h \<Longrightarrow> ok (api E (RuntimeEval h src) s) (api_post (RuntimeEval h src) s)"
    and "usable_rt s h \<Longrightarrow> ok (api E (RuntimeGetGlobal h src) s) (api_post (RuntimeGetGlobal h src) s)"
    and "usable_rt s h \<Longrightarrow> ok (api E (RuntimeNewBool h b) s) (api_post (RuntimeNewBool h b) s)"
    and "usable_rt s h \<Longrightarrow> ok (api E (RuntimeNewNumber h d) s) (api_post (RuntimeNewNumber h d) s)"
    and "usable_rt s h \<Longrightarrow> ok (api E (RuntimeNewString h src) s) (api_post (RuntimeNewString h src) s)"
    and "usable_rt s h \<Longrightarrow> ok (api E (RuntimeNewBigint h src) s) (api_post (RuntimeNewBigint h src) s)"
    and "usable_rt s h \<Longrightarrow> ok (api E (RuntimeImport h src) s) (api_post (RuntimeImport h src) s)"
  by (rule runtime_case [OF inv], assumption, (simp add: runtime_op_defs silent_simps; fail), simp,
      (rule ok_keeps_post [OF enable_std_module_ok] ok_handle_post [OF eval_value_ok]
        ok_handle_post [OF get_global_property_ok] ok_handle_post [OF new_bool_ok]
        ok_handle_post [OF new_number_ok] ok_handle_post [OF new_string_ok]
        ok_handle_post [OF new_bigint_ok] ok_handle_post [OF import_module_ok]);
      (assumption | rule inv | (simp add: silent_simps; fail)))+

lemma api_ok_value:
  assumes inv: "bridge_inv s"
  shows "usable_val s v \<Longrightarrow> ok (api E (ValueKind v) s) (api_post (ValueKind v) s)"
    and "usable_val s v \<Longrightarrow> ok (api E (ValueToBool v) s) (api_post (ValueToBool v) s)"
    and "usable_val s v \<Longrightarrow> ok (api E (ValueToNumber v) s) (api_post (ValueToNumber v) s)"
    and "usable_val s v \<Longrightarrow> ok (api E (ValueIsArray v) s) (api_post (ValueIsArray v) s)"
    and "usable_val s v \<Longrightarrow> ok (api E (ValueGetProperty v name) s) (api_post (ValueGetProperty v name) s)"
    and "usable_val s v \<Longrightarrow> ok (api E (ValueGetIndex v i) s) (api_post (ValueGetIndex v i) s)"
  by (rule value_case [OF inv], assumption, (simp add: value_op_defs silent_simps; fail), simp,
      (rule ok_keeps_post [OF value_kind_ok] ok_keeps_post [OF value_to_bool_ok]
        ok_keeps_post [OF value_to_number_ok] ok_keeps_post [OF value_is_array_ok]
        ok_handle_post [OF value_get_property_ok] ok_handle_post [OF value_get_index_ok]);
      (assumption | rule inv | (simp add: silent_simps; fail)))+

lemma api_ok_value2:
  assumes inv: "bridge_inv s"
  shows "usable_val s v \<Longrightarrow> usable_val s w \<Longrightarrow>
      ok (api E (ValueSetProperty v name w) s) (api_post (ValueSetProperty v name w) s)"
    and "usable_val s v \<Longrightarrow> usable_val s w \<Longrightarrow>
      ok (api E (ValueSetIndex v i w) s) (api_post (ValueSetIndex v i w) s)"
    and "usable_val s v \<Longrightarrow> usable_val s this \<Longrightarrow> args_ok s as n \<Longrightarrow>
      ok (api E (ValueCall v this as n) s) (api_post (ValueCall v this as n) s)"
    and "usable_val s v \<Longrightarrow> args_ok s as n \<Longrightarrow>
      ok (api E (ValueConstruct v as n) s) (api_post (ValueConstruct v as n) s)"
  by (rule value_case [OF inv], assumption, (simp add: value_op_defs silent_simps; fail), simp,
      (rule ok_keeps_post [OF value_set_property_ok] ok_keeps_post [OF value_set_index_ok]
        ok_handle_post [OF value_call_ok] ok_handle_post [OF value_construct_ok]);
      (assumption | rule inv | (simp add: silent_simps; fail)))+

lemma api_ok_array_length:
  assumes inv: "bridge_inv s" and v: "usable_val s v"
    and fits: "\<And>vh. vals s v = Some vh \<Longrightarrow> length_fits E vh (est s (vh_runtime vh))"
  shows "ok (api E (ValueArrayLength v) s) (api_post (ValueArrayLength v) s)"
  by (rule value_case [OF inv v], (simp add: value_op_defs silent_simps; fail), simp)
    (rule ok_keeps_post [OF value_array_length_ok], assumption+, rule fits, auto simp: inv silent_simps)

lemma string_in_state:
  assumes "string_post k s x s'"
  shows "in_state s' = (in_state s)\<lparr>held_strings := held_strings (in_state s) \<union> taken (RHandle x)\<rparr> \<and> balance s' = balance s"
proof -
  obtain T where T: "run k s T {#} 0 0 s'" "dom T = taken (RHandle x)"
    using assms by (auto simp: string_post_def)
  then show ?thesis
    using frame_in_state [of k T s s'] by (auto simp: run_def in_state_def)
qed

lemma api_ok_to_string:
  assumes inv: "bridge_inv s" and v: "usable_val s v"
  shows "ok (api E (ValueToString v) s) (api_post (ValueToString v) s)"
proof (rule value_case [OF inv v])
  fix vh assume vh: "vals s v = Some vh" "runtime_of s v = vh_runtime vh"
    and run: "run (vh_runtime vh) s Map.empty {#} 0 0 s"
  have "api_post (ValueToString v) s (RHandle x) s'" if "string_post (vh_runtime vh) s x s'" for x s'
    using that vh inv_string_post [OF inv that] string_in_state [OF that]
    by (auto simp: api_post_def string_post_def run_def frame_def changes_strings_def ledger_def)
  then show "ok (api E (ValueToString v) s) (api_post (ValueToString v) s)"
    unfolding api.simps ok_returning by (rule ok_mono [OF value_to_string_ok [OF run vh(1)]])
qed (simp add: value_op_defs silent_simps)

lemma card_dom_upd:
  fixes m :: "addr \<rightharpoonup> 'a"
  assumes "m a = Some x"
  shows "int (card (dom (m(a := None)))) = int (card (dom m)) - 1"
proof -
  have "card (dom m) = Suc (card (dom m - {a}))"
    using assms by (intro card.remove) auto
  then show ?thesis
    by simp
qed

lemma value_destroyed_in_state:
  assumes "value_destroyed v vh s s'"
  shows "in_state s' = (in_state s)\<lparr>held_values := held_values (in_state s) - {v}\<rparr>" and "balance s' = balance s"
proof -
  let ?k = "vh_runtime vh"
  obtain r where r: "rts s ?k = Some r" and other: "\<And>h. h \<noteq> ?k \<Longrightarrow> rts s' h = rts s h"
    and vs: "vals s' = (vals s)(v := None)" "client_strs s' = client_strs s"
    and k: "if destroying r \<and> handles_of s ?k = {v} then rts s' ?k = None \<and> loses_engines 1 s s'
      else (\<exists>r'. rts s' ?k = Some r' \<and> destroying r' = destroying r) \<and> loses_engines 0 s s'"
    using assms by (auto simp: value_destroyed_def)
  have "(\<exists>x. rts s' h = Some x \<and> \<not> destroying x) \<longleftrightarrow> (\<exists>x. rts s h = Some x \<and> \<not> destroying x)" for h
    using r other [of h] k by (cases "h = ?k") (auto split: if_splits)
  then show "in_state s' = (in_state s)\<lparr>held_values := held_values (in_state s) - {v}\<rparr>"
    by (auto simp: in_state_def vs)
  show "balance s' = balance s"
  proof (cases "rts s' ?k")
    case None
    then have "rts s' = (rts s)(?k := None)"
      using other by (auto simp: fun_eq_iff)
    then show ?thesis
      using k None card_dom_upd [of "rts s", OF r] by (auto simp: balance_def loses_engines_def split: if_splits)
  next
    case (Some r')
    then have "rts s' h = None \<longleftrightarrow> rts s h = None" for h
      using r other [of h] by (cases "h = ?k") auto
    then have "dom (rts s') = dom (rts s)"
      by (auto simp: dom_def)
    then show ?thesis
      using k Some by (auto simp: balance_def loses_engines_def split: if_splits)
  qed
qed

lemma api_ok_value_destroy:
  assumes inv: "bridge_inv s" and v: "usable_val s v"
  shows "ok (api E (ValueDestroy v) s) (api_post (ValueDestroy v) s)"
proof (rule value_case [OF inv v])
  fix vh assume vh: "vals s v = Some vh" "runtime_of s v = vh_runtime vh"
    and run: "run (vh_runtime vh) s Map.empty {#} 0 0 s"
  have "api_post (ValueDestroy v) s y s'" if "value_destroyed v vh s s'" for y s'
    using that vh inv_value_destroyed [OF inv that vh(1)] value_destroyed_in_state [OF that]
    by (auto simp: api_post_def value_destroyed_def changes_strings_def ledger_def)
  moreover have "good s (vh_runtime vh) {#} 0 0"
    using run by (simp add: run_def)
  ultimately show "ok (api E (ValueDestroy v) s) (api_post (ValueDestroy v) s)"
    unfolding api.simps ok_returning by (intro ok_mono [OF value_destroy_ok [OF _ vh(1)]])
qed (simp add: value_op_defs silent_simps in_state_NULL [OF inv])

lemma runtime_destroyed_in_state:
  assumes "runtime_destroyed k s s'"
  shows "in_state s' = (in_state s)\<lparr>held_runtimes := held_runtimes (in_state s) - {k}\<rparr>" and "balance s' = balance s"
proof -
  obtain r where r: "rts s k = Some r" and vs: "vals s' = vals s" "client_strs s' = client_strs s"
    and rt: "rts s' = (rts s)(k := if handles_of s k = {} then None else Some (r\<lparr>destroying := True\<rparr>))"
    and e: "loses_engines (of_bool (handles_of s k = {})) s s'"
    using assms by (auto simp: runtime_destroyed_def)
  show "in_state s' = (in_state s)\<lparr>held_runtimes := held_runtimes (in_state s) - {k}\<rparr>"
    by (auto simp: in_state_def vs rt split: if_splits)
  show "balance s' = balance s"
  proof (cases "handles_of s k = {}")
    case True
    then show ?thesis
      using e card_dom_upd [of "rts s", OF r] by (simp add: balance_def loses_engines_def rt)
  next
    case False
    then have "dom (rts s') = dom (rts s)"
      using r by (auto simp: rt)
    then show ?thesis
      using e False by (simp add: balance_def loses_engines_def)
  qed
qed

lemma api_ok_runtime_destroy:
  assumes inv: "bridge_inv s" and h: "usable_rt s h"
  shows "ok (api E (RuntimeDestroy h) s) (api_post (RuntimeDestroy h) s)"
proof (rule runtime_case [OF inv h])
  fix r assume r: "rts s h = Some r" and run: "run h s Map.empty {#} 0 0 s"
  have "api_post (RuntimeDestroy h) s y s'" if "runtime_destroyed h s s'" for y s'
    using that r inv_runtime_destroyed [OF inv that] runtime_destroyed_in_state [OF that]
    by (auto simp: api_post_def runtime_destroyed_def changes_strings_def ledger_def)
  moreover have "good s h {#} 0 0"
    using run by (simp add: run_def)
  ultimately show "ok (api E (RuntimeDestroy h) s) (api_post (RuntimeDestroy h) s)"
    unfolding api.simps ok_returning by (intro ok_mono [OF runtime_destroy_ok [OF _ r]])
qed (simp add: runtime_op_defs silent_simps in_state_NULL [OF inv])

lemma api_ok_last_error:
  assumes inv: "bridge_inv s" and h: "usable_rt s h"
  shows "ok (api E (RuntimeLastError h) s) (api_post (RuntimeLastError h) s)"
proof (rule runtime_case [OF inv h])
  fix r assume r: "rts s h = Some r" and run: "run h s Map.empty {#} 0 0 s"
  then have "good s h {#} 0 0"
    by (simp add: run_def)
  from last_error_ok [OF r this] show "ok (api E (RuntimeLastError h) s) (api_post (RuntimeLastError h) s)"
    by (simp add: post_same inv silent_simps)
qed (simp add: runtime_op_defs silent_simps)

lemma runtime_created_in_state:
  assumes "runtime_created s h s'"
  shows "in_state s' = (in_state s)\<lparr>held_runtimes := held_runtimes (in_state s) \<union> taken (RHandle h)\<rparr>" and "balance s' = balance s"
  using assms by (auto simp: runtime_created_def in_state_def balance_def loses_engines_def card_insert_if split: if_splits)

lemma api_ok_create:
  assumes inv: "bridge_inv s"
  shows "ok (api E RuntimeCreate s) (api_post RuntimeCreate s)"
proof -
  have good: "good s NULL {#} 0 0"
    using inv by (simp add: bridge_inv_def)
  have "api_post RuntimeCreate s (RHandle h) s'" if "runtime_created s h s'" for h s'
    using that inv_runtime_created [OF inv that] runtime_created_in_state [OF that]
    by (auto simp: api_post_def runtime_created_def changes_strings_def ledger_def split: if_splits)
  then show ?thesis
    unfolding api.simps ok_returning by (rule ok_mono [OF runtime_create_ok [OF good]])
qed

lemma api_ok_free_string:
  assumes inv: "bridge_inv s" and p: "p = NULL \<or> client_strs s p \<noteq> None"
  shows "ok (api E (FreeString p) s) (api_post (FreeString p) s)"
proof -
  have good: "good s NULL {#} 0 0"
    using inv by (simp add: bridge_inv_def)
  show ?thesis
    using free_string_ok [OF good p] inv
    by (auto elim!: ok_mono simp: api_post_def bridge_inv_def none_overdue_def changes_strings_def ledger_def in_state_def balance_def)
qed

lemma api_ok:
  assumes "bridge_inv s" and "allowed E s c"
  shows "ok (api E c s) (api_post c s)"
  using assms(2)
  by (cases c; hypsubst; elim allowed.simps [THEN iffD1, elim_format] conjE)
    (rule api_ok_runtime api_ok_value api_ok_value2 api_ok_array_length api_ok_to_string
      api_ok_value_destroy api_ok_runtime_destroy api_ok_last_error api_ok_create api_ok_free_string;
      (assumption | rule assms(1) | (simp; fail)))+

interpretation bridge: safe_machine "api E" "allowed E" bridge_inv for E
  by unfold_locales (auto elim!: ok_mono [OF api_ok] simp: api_post_def)

interpretation bridge_account: accounting_machine "api E" "allowed E" bridge_inv "\<lambda>s. (in_state s, balance s)"
    "\<lambda>c x (L, b). (ledger c x L, b)" for E
  using api_ok by unfold_locales (fastforce simp: api_post_def)

lemma empty_inv: "heap s = Map.empty \<Longrightarrow> bridge_inv s"
  by (auto simp: bridge_inv_def good_def none_overdue_def rts_def vals_def errors_distinct_def)

lemma reachable_inv: "reachable E s \<Longrightarrow> bridge_inv s"
proof (induction rule: reachable.induct)
  case (start s)
  then show ?case
    by (rule empty_inv)
next
  case (call s c x s')
  from api_ok [OF call.IH call.hyps(2)] show ?case
    using call.hyps(3) by (simp add: api_post_def)
qed


end
