(* ===== verification/Bridge_Report.thy ===== *)
theory Bridge_Report
  imports Bridge_Safety
begin

text \<open>
  Error reporting. An operation that returns a handle first clears the error string; when it fails it
  sets it. When the allocator grants the few blocks the operation needs, the caller can therefore tell
  success from failure by the error string alone. The rules are for partial correctness (\<open>wlp\<close>): that
  the operations return is the subject of \<open>Bridge_Safety\<close>.
\<close>

definition wlp :: "('a \<times> 's) option \<Rightarrow> ('a \<Rightarrow> 's \<Rightarrow> bool) \<Rightarrow> bool" where
  "wlp m Q \<longleftrightarrow> (\<forall>x s. m = Some (x, s) \<longrightarrow> Q x s)"

named_theorems report_rules \<open>rules for the error string along the program text\<close>

lemma wlp_Some [report_rules]: "Q x s \<Longrightarrow> wlp (Some (x, s)) Q"
  by (simp add: wlp_def)

lemma wlp_bind [report_rules]: "wlp m (\<lambda>x s. wlp (f (x, s)) Q) \<Longrightarrow> wlp (Option.bind m f) Q"
  by (auto simp: wlp_def Option.bind_eq_Some_conv)

lemma wlp_if [report_rules]: "(b \<Longrightarrow> wlp m Q) \<Longrightarrow> (\<not> b \<Longrightarrow> wlp n Q) \<Longrightarrow> wlp (if b then m else n) Q"
  by simp

lemma wlp_option [report_rules]:
  "(x = None \<Longrightarrow> wlp m Q) \<Longrightarrow> (\<And>y. x = Some y \<Longrightarrow> wlp (f y) Q) \<Longrightarrow>
   wlp (case x of None \<Rightarrow> m | Some y \<Rightarrow> f y) Q"
  by (cases x) auto

lemma wlp_prod [report_rules]: "wlp (f x s) Q \<Longrightarrow> wlp (case (x, s) of (a, b) \<Rightarrow> f a b) Q"
  by simp

lemma wlp_prod_fun [report_rules]:
  "(\<And>a b. x = (a, b) \<Longrightarrow> wlp (f a b s) Q) \<Longrightarrow> wlp ((case x of (a, b) \<Rightarrow> f a b) s) Q"
  by (cases x) simp

lemma wlp_mono: "wlp m P \<Longrightarrow> (\<And>x s. P x s \<Longrightarrow> Q x s) \<Longrightarrow> wlp m Q"
  by (auto simp: wlp_def)

section \<open>The state of the error string\<close>

text \<open>The allocator grants the next \<open>n\<close> requests.\<close>

definition grants :: "nat \<Rightarrow> 'e st \<Rightarrow> bool" where
  "grants n s \<longleftrightarrow>
     n \<le> length (script s) \<and> distinct (take n (script s)) \<and>
     (\<forall>a\<in>set (take n (script s)). a \<noteq> NULL \<and> heap s a = None)"

text \<open>\<open>errs k n e b s\<close>: the runtime \<open>k\<close> reports an error iff \<open>e\<close>, \<open>n\<close> requests will be granted, and the
  block \<open>b\<close>, if any, is a string.\<close>

definition errs :: "addr \<Rightarrow> nat \<Rightarrow> bool \<Rightarrow> addr \<Rightarrow> 'e st \<Rightarrow> bool" where
  "errs k n e b s \<longleftrightarrow>
     k \<noteq> NULL \<and> grants n s \<and> (b \<noteq> NULL \<longrightarrow> strs s b \<noteq> None) \<and>
     (\<exists>r. rts s k = Some r \<and> jscontext r \<and> runtime r \<noteq> None \<and> (last_error r \<noteq> NULL \<longleftrightarrow> e))"

lemma grants_less: "grants n s \<Longrightarrow> m \<le> n \<Longrightarrow> grants m s"
proof -
  assume g: "grants n s" "m \<le> n"
  then have "take m (script s) = take m (take n (script s))"
    by simp
  then show ?thesis
    using g unfolding grants_def by (metis (no_types) distinct_take in_set_takeD le_trans)
qed

lemma grants_heap: "grants n s \<Longrightarrow> script s' = script s \<Longrightarrow> dom (heap s') \<subseteq> dom (heap s) \<Longrightarrow> grants n s'"
  by (auto simp: grants_def domIff subset_iff)

lemma errs_load_rt [report_rules]:
  "errs k n e b s \<Longrightarrow> (\<And>r. rts s k = Some r \<Longrightarrow> jscontext r \<Longrightarrow> runtime r \<noteq> None \<Longrightarrow> (last_error r \<noteq> NULL \<longleftrightarrow> e) \<Longrightarrow> Q r s) \<Longrightarrow> wlp (load_rt k s) Q"
  by (auto simp: wlp_def load_rt_def errs_def rts_def split: option.splits cell.splits)

lemma errs_load_val [report_rules]: "(\<And>vh. vals s v = Some vh \<Longrightarrow> Q vh s) \<Longrightarrow> wlp (load_val v s) Q"
  by (auto simp: wlp_def load_val_def vals_def split: option.splits cell.splits)

lemma errs_load_bytes [report_rules]: "(\<And>t. Q t s) \<Longrightarrow> wlp (load_bytes a s) Q"
  by (auto simp: wlp_def load_bytes_def split: option.splits cell.splits)

lemma wlp_any: "(\<And>x s. Q x s) \<Longrightarrow> wlp m Q"
  by (simp add: wlp_def)

lemma wlp_None: "wlp None Q"
  by (simp add: wlp_def)

lemma errs_store:
  assumes "errs k n e b s" and "heap s k = Some (RuntimeCell r')" and "last_error r \<noteq> NULL \<longleftrightarrow> e'"
    and "jscontext r \<and> runtime r \<noteq> None"
  shows "errs k n e' b (s\<lparr>heap := (heap s)(k \<mapsto> RuntimeCell r)\<rparr>)"
proof -
  have "grants n (s\<lparr>heap := (heap s)(k \<mapsto> RuntimeCell r)\<rparr>)"
    by (rule grants_heap [of n s]) (use assms(1,2) in \<open>auto simp: errs_def\<close>)
  moreover have "strs s k = None"
    using assms(2) by (simp add: strs_def)
  ultimately show ?thesis
    using assms(1,3,4) by (auto simp: errs_def views_upd)
qed

lemma errs_on_engine [report_rules]:
  assumes "errs k n e b s" and "\<And>x s'. errs k n e b s' \<Longrightarrow> Q x s'"
  shows "wlp (on_engine k f s) Q"
proof -
  have "errs k n e b s'" if "on_engine k f s = Some (x, s')" for x s'
  proof -
    obtain r where r: "heap s k = Some (RuntimeCell r)"
      using assms(1) by (auto simp: errs_def simp flip: rts_heap)
    with that obtain g where s': "s' = s\<lparr>heap := (heap s)(k \<mapsto> RuntimeCell (r\<lparr>runtime := Some g\<rparr>))\<rparr>"
      by (auto simp: on_engine_def load_rt_def store_rt_def Option.bind_eq_Some_conv
          split: option.split_asm if_split_asm)
    show ?thesis
      unfolding s' by (rule errs_store [OF assms(1) r]) (use assms(1) r in \<open>auto simp: errs_def rts_def\<close>)
  qed
  with assms(2) show ?thesis
    by (simp add: wlp_def)
qed

lemma errs_free [report_rules]:
  assumes "errs k n e b s" and "b \<noteq> NULL" and "\<And>s'. errs k n e NULL s' \<Longrightarrow> Q () s'"
  shows "wlp (c_free b s) Q"
proof -
  have "grants n (s\<lparr>heap := (heap s)(b := None)\<rparr>)"
    by (rule grants_heap [of n s]) (use assms(1) in \<open>auto simp: errs_def\<close>)
  moreover obtain t where "strs s b = Some t"
    using assms(1,2) by (auto simp: errs_def)
  then have "rts s b = None"
    by (rule views_disjoint)
  ultimately have "errs k n e NULL (s\<lparr>heap := (heap s)(b := None)\<rparr>)"
    using assms(1) by (auto simp: errs_def views_upd)
  with assms show ?thesis
    by (simp add: wlp_def c_free_def)
qed

text \<open>
  Inside \<open>set_error\<close> and \<open>clear_error\<close> the old string has been freed and the handle is about to be
  stored.
\<close>

lemma wlp_c_free_grants:
  assumes "grants n s" and "\<And>s'. grants n s' \<Longrightarrow> Q () s'"
  shows "wlp (c_free a s) Q"
proof -
  have "grants n (s\<lparr>heap := (heap s)(a := None)\<rparr>)"
    by (rule grants_heap [OF assms(1)]) auto
  with assms show ?thesis
    by (simp add: wlp_def c_free_def)
qed

lemma wlp_store_grants:
  assumes "grants n s" and "k \<noteq> NULL" and "jscontext r \<and> runtime r \<noteq> None"
    and "\<And>s'. errs k n (last_error r \<noteq> NULL) NULL s' \<Longrightarrow> Q () s'"
  shows "wlp (store_rt k r s) Q"
proof -
  have "errs k n (last_error r \<noteq> NULL) NULL (s\<lparr>heap := (heap s)(k \<mapsto> RuntimeCell r)\<rparr>)"
    if k: "heap s k = Some (RuntimeCell r')" for r'
    using assms(2,3) grants_heap [OF assms(1), of "s\<lparr>heap := (heap s)(k \<mapsto> RuntimeCell r)\<rparr>"] k
    by (auto simp: errs_def views_upd)
  then show ?thesis
    using assms(4) by (auto simp: wlp_def store_rt_def split: option.splits cell.splits)
qed

lemma grants_alloc:
  assumes "grants (Suc n) s"
  obtains a s' where "c_alloc c s = Some (a, s')" "a \<noteq> NULL" "heap s a = None" "grants n s'"
    "heap s' = (heap s)(a \<mapsto> c)"
proof -
  from assms obtain a rest where a: "script s = a # rest" "a \<noteq> NULL" "heap s a = None"
    "n \<le> length rest" "distinct (take n rest)" "a \<notin> set (take n rest)"
    "\<forall>x\<in>set (take n rest). x \<noteq> NULL \<and> heap s x = None"
    by (cases "script s") (auto simp: grants_def)
  then show ?thesis
    by (intro that [of a "s\<lparr>script := rest, heap := (heap s)(a \<mapsto> c)\<rparr>"])
      (auto simp: c_alloc_def grants_def)
qed

lemma wlp_alloc_grants:
  assumes "grants (Suc n) s" and "\<And>a s'. a \<noteq> NULL \<Longrightarrow> grants n s' \<Longrightarrow> Q a s'"
  shows "wlp (c_alloc c s) Q"
  by (rule grants_alloc [OF assms(1), of c]) (simp add: wlp_def assms(2))

lemma errs_clear_error [report_rules]:
  assumes "errs k n e NULL s" and "\<And>s'. errs k n False NULL s' \<Longrightarrow> Q () s'"
  shows "wlp (clear_error k s) Q"
proof -
  have k: "k \<noteq> NULL" and g: "grants n s"
    using assms(1) by (simp_all add: errs_def)
  show ?thesis
    unfolding clear_error_def if_not_P [OF k]
    by (rule wlp_bind wlp_prod errs_load_rt [OF assms(1)] wlp_c_free_grants [OF g] wlp_store_grants
        assms(2) k | assumption | (simp; fail))+
qed

lemma errs_set_error [report_rules]:
  assumes "errs k (Suc n) e NULL s" and "\<And>s'. errs k n True NULL s' \<Longrightarrow> Q () s'"
  shows "wlp (set_error k m s) Q"
proof -
  have k: "k \<noteq> NULL" and g: "grants (Suc n) s"
    using assms(1) by (simp_all add: errs_def)
  show ?thesis
    unfolding set_error_def if_not_P [OF k] copy_string_def Let_def
    by (rule wlp_bind wlp_prod errs_load_rt [OF assms(1)] wlp_c_free_grants [OF g] wlp_alloc_grants
        wlp_store_grants assms(2) k | assumption | (simp; fail))+
qed

lemma errs_capture_exception [report_rules]:
  assumes "errs k (Suc n) e NULL s"
    and "\<And>x s'. errs k n True NULL s' \<Longrightarrow> Q x s'"
  shows "wlp (capture_exception E k s) Q"
proof -
  have k: "k \<noteq> NULL"
    using assms(1) by (simp add: errs_def)
  show ?thesis
    unfolding capture_exception_def if_not_P [OF k]
    by (rule report_rules assms | assumption | (simp; fail))+
qed

section \<open>Operations that return a handle\<close>

lemma errs_alloc [report_rules]:
  assumes "errs k (Suc n) e NULL s" and "\<And>a s'. a \<noteq> NULL \<Longrightarrow> errs k n e a s' \<Longrightarrow> Q a s'"
  shows "wlp (c_alloc (BytesCell t) s) Q"
proof -
  have "grants (Suc n) s"
    using assms(1) by (simp add: errs_def)
  then obtain a s' where a: "c_alloc (BytesCell t) s = Some (a, s')" "a \<noteq> NULL" "heap s a = None" "grants n s'"
    "heap s' = (heap s)(a \<mapsto> BytesCell t)"
    by (rule grants_alloc)
  moreover from a(3) have "rts s a = None"
    by (rule views_None)
  ultimately have "errs k n e a s'"
    using assms(1) by (auto simp: errs_def rts_def strs_def)
  with a assms(2) show ?thesis
    by (simp add: wlp_def)
qed

lemma errs_alloc_value:
  assumes "errs k (Suc n) e NULL s" and "\<And>a s'. a \<noteq> NULL \<Longrightarrow> errs k n e NULL s' \<Longrightarrow> Q a s'"
  shows "wlp (c_alloc (ValueCell v) s) Q"
proof -
  have "grants (Suc n) s"
    using assms(1) by (simp add: errs_def)
  then obtain a s' where a: "c_alloc (ValueCell v) s = Some (a, s')" "a \<noteq> NULL" "heap s a = None" "grants n s'"
    "heap s' = (heap s)(a \<mapsto> ValueCell v)"
    by (rule grants_alloc)
  moreover from a(3) have "rts s a = None"
    by (rule views_None)
  ultimately have "errs k n e NULL s'"
    using assms(1) by (auto simp: errs_def rts_def)
  with a assms(2) show ?thesis
    by (simp add: wlp_def)
qed

lemma errs_store_rt:
  assumes "errs k n e NULL s" and "last_error r \<noteq> NULL \<longleftrightarrow> e" and "jscontext r \<and> runtime r \<noteq> None"
    and "\<And>s'. errs k n e NULL s' \<Longrightarrow> Q () s'"
  shows "wlp (store_rt k r s) Q"
  by (rule wlp_store_grants [of n]) (use assms in \<open>auto simp: errs_def\<close>)

text \<open>A handle is returned iff no error is reported.\<close>

definition reports :: "addr \<Rightarrow> addr \<Rightarrow> 'e st \<Rightarrow> bool" where
  "reports k x s \<longleftrightarrow> (\<exists>r. rts s k = Some r \<and> (last_error r \<noteq> NULL \<longleftrightarrow> x = NULL))"

lemma reportsI [report_rules]: "errs k n e b s \<Longrightarrow> e \<longleftrightarrow> x = NULL \<Longrightarrow> reports k x s"
  by (auto simp: reports_def errs_def)

lemma errs_new_value_handle [report_rules]:
  assumes "errs k (Suc n) False NULL s"
  shows "wlp (new_value_handle E k v s) (reports k)"
proof -
  have "valid_runtime k s = Some (True, s)"
    using assms by (auto simp: valid_runtime_def load_rt_def errs_def rts_def split: option.splits cell.splits)
  then show ?thesis
    unfolding new_value_handle_def
    by simp (rule report_rules errs_alloc_value errs_store_rt assms | assumption | (simp; fail))+
qed

lemma errs_read_file [report_rules]:
  assumes "errs k (Suc n) e NULL s"
    and "\<And>s'. errs k (Suc n) e NULL s' \<Longrightarrow> Q (NULL, 0) s'"
    and "\<And>s'. errs k n e NULL s' \<Longrightarrow> Q (NULL, 0) s'"
    and "\<And>a l s'. a \<noteq> NULL \<Longrightarrow> errs k n e a s' \<Longrightarrow> Q (a, l) s'"
  shows "wlp (read_file path s) Q"
  unfolding read_file_def Let_def
  by (rule wlp_option wlp_if wlp_bind wlp_Some wlp_prod errs_alloc errs_free assms | assumption | (simp; fail))+

lemma errs_copy_namespace_properties [report_rules]:
  assumes "errs k n e NULL s" and "\<And>x s'. errs k n e NULL s' \<Longrightarrow> Q x s'"
  shows "wlp (copy_namespace_properties E k ns object all atoms s) Q"
  using assms(1)
proof (induction atoms arbitrary: s)
  case Nil
  then show ?case by (simp add: wlp_def assms(2))
next
  case (Cons atom atoms)
  show ?case
    unfolding copy_namespace_properties.simps
    by (rule wlp_bind wlp_if wlp_Some wlp_prod errs_on_engine Cons assms(2) | assumption)+
qed

lemma errs_new_mutable_namespace_object [report_rules]:
  assumes "errs k n e NULL s" and "\<And>x s'. errs k n e NULL s' \<Longrightarrow> Q x s'"
  shows "wlp (new_mutable_namespace_object E k ns s) Q"
  unfolding new_mutable_namespace_object_def
  by (rule wlp_bind wlp_if wlp_Some wlp_prod wlp_option errs_on_engine errs_copy_namespace_properties assms
      | assumption)+

lemma errs_valid [report_rules]:
  assumes "errs k n e b s" and "Q True s"
  shows "wlp (valid_runtime k s) Q"
  using assms by (auto simp: wlp_def valid_runtime_def load_rt_def errs_def rts_def split: option.splits cell.splits)

lemma import_module_reports:
  assumes "errs k 2 e NULL s"
  shows "wlp (js_runtime_import_module E k path s) (reports k)"
proof -
  have *: "errs k (Suc (Suc 0)) e NULL s"
    using assms by (simp add: numeral_2_eq_2)
  show ?thesis
    unfolding js_runtime_import_module_def
    by (rule errs_valid * report_rules | assumption | (simp; fail))+
qed

lemma runtime_op_reports:
  assumes "errs k (Suc 0) e NULL s"
  shows "wlp (js_runtime_eval_value E k source s) (reports k)"
    and "wlp (js_runtime_get_global_property E k name s) (reports k)"
    and "wlp (js_runtime_new_bool E k b s) (reports k)"
    and "wlp (js_runtime_new_number E k d s) (reports k)"
    and "wlp (js_runtime_new_string E k t s) (reports k)"
    and "wlp (js_runtime_new_bigint E k t s) (reports k)"
  unfolding runtime_op_defs
  by (rule errs_valid assms report_rules | assumption | (simp; fail))+

lemma errs_valid_value [report_rules]:
  assumes "errs (vh_runtime vh) n e b s" and "vals s v = Some vh" and "v \<noteq> NULL" and "Q True s"
  shows "wlp (valid_value v s) Q"
proof -
  have "valid_value v s = valid_runtime (vh_runtime vh) s"
    using assms(2,3) by (simp add: valid_value_def load_val_def flip: vals_heap)
  then show ?thesis
    using errs_valid [of "vh_runtime vh" n e b s Q] assms by simp
qed

lemma wlp_load_val [report_rules]: "vals s v = Some vh \<Longrightarrow> Q vh s \<Longrightarrow> wlp (load_val v s) Q"
  by (simp add: wlp_def load_val_def flip: vals_heap)

lemma wlp_foreign_value [report_rules]: "Q True s \<Longrightarrow> Q False s \<Longrightarrow> wlp (foreign_value k v s) Q"
  unfolding foreign_value_def
  by (rule report_rules | assumption | (metis (full_types)))+

lemma errs_fill_argv_loop:
  assumes "errs k (Suc n) e NULL s"
    and "\<And>s'. errs k n True NULL s' \<Longrightarrow> Q None s'" and "\<And>vs. Q (Some vs) s"
  shows "wlp (fill_argv_loop k args m s) Q"
  using assms(2,3)
proof (induction args arbitrary: m Q)
  case Nil
  then show ?case by (cases m) (simp_all add: wlp_def)
next
  case (Cons a args)
  show ?case
  proof (cases m)
    case (Suc m')
    show ?thesis
      unfolding Suc fill_argv_loop.simps
      by (rule wlp_bind wlp_if wlp_Some wlp_prod wlp_foreign_value errs_set_error [OF assms(1)]
          errs_load_val Cons.IH | assumption | (simp add: Cons.prems; fail))+
  qed (simp add: wlp_def Cons.prems)
qed

lemma errs_fill_argv:
  assumes "errs (vh_runtime vh) (Suc n) e NULL s" and "vals s v = Some vh" and "v \<noteq> NULL"
    and "\<And>s'. errs (vh_runtime vh) n True NULL s' \<Longrightarrow> Q None s'" and "\<And>vs. Q (Some vs) s"
  shows "wlp (fill_argv v args m s) Q"
  unfolding fill_argv_def
  by (rule wlp_bind wlp_if wlp_Some wlp_prod errs_valid_value wlp_load_val errs_set_error
      errs_fill_argv_loop assms | assumption | (simp; fail))+

lemma value_op_reports:
  assumes "errs (vh_runtime vh) (Suc 0) e NULL s" and "vals s v = Some vh" and "v \<noteq> NULL"
  shows "wlp (js_value_get_property E v name s) (reports (vh_runtime vh))"
    and "wlp (js_value_get_index E v i s) (reports (vh_runtime vh))"
    and "wlp (js_value_construct E v args n s) (reports (vh_runtime vh))"
    and "wlp (js_value_call E v this args n s) (reports (vh_runtime vh))"
  unfolding value_op_defs Let_def
  by (rule wlp_bind wlp_if wlp_Some wlp_prod errs_valid_value wlp_load_val assms errs_fill_argv report_rules
      | assumption | (simp; fail))+


end
