(* ===== verification/Bridge_Claims.thy ===== *)
theory Bridge_Claims
  imports Bridge_Report
begin

text \<open>
  The guarantees of the bridge to its clients, over the states a client can reach, and a concrete
  engine and client run that show their hypotheses can hold.
\<close>

section \<open>A concrete engine and run\<close>

text \<open>An engine whose evaluations return fresh objects, except that the source \<open>throw\<close> throws.\<close>

definition demo_object :: "nat \<Rightarrow> JSValue" where
  "demo_object n = JS_MKPTR JS_TAG_OBJECT (of_nat n)"

definition demo_new :: "nat \<Rightarrow> JSValue \<times> nat" where
  "demo_new e = (demo_object e, Suc e)"

definition demo_engine :: "nat js_engine" where
  "demo_engine =
     \<lparr>JS_NewRuntime = \<lambda>_. Some 1, JS_NewContext = \<lambda>e. (True, e), JS_GetException = demo_new,
      JS_ToCString = \<lambda>_ e. (Some ''error'', e), JS_FreeCString = \<lambda>_ e. e, JS_FreeValue = \<lambda>_ e. e,
      JS_DupValue = \<lambda>_ e. e,
      JS_Eval = \<lambda>src _ _ e. (if src = ''throw'' then JS_EXCEPTION else demo_object e, Suc e),
      JS_GetGlobalObject = demo_new, JS_GetPropertyStr = \<lambda>_ _. demo_new, JS_GetProperty = \<lambda>_ _. demo_new,
      JS_GetPropertyUint32 = \<lambda>_ _. demo_new, JS_SetPropertyStr = \<lambda>_ _ _ e. (1, e),
      JS_SetPropertyUint32 = \<lambda>_ _ _ e. (1, e), JS_NewObject = demo_new,
      JS_GetOwnPropertyNames = \<lambda>_ _ e. (Some [], e), JS_FreePropertyEnum = \<lambda>_ e. e,
      JS_DefinePropertyValue = \<lambda>_ _ _ _ e. (1, e), JS_NewString = \<lambda>_. demo_new,
      JS_Call = \<lambda>_ _ _. demo_new, JS_CallConstructor = \<lambda>_ _. demo_new, JS_ResolveModule = \<lambda>_ e. (0, e),
      JS_EvalFunction = \<lambda>_. demo_new, JS_GetModuleNamespace = \<lambda>_. demo_new, JS_IsFunction = \<lambda>_ _. False,
      JS_IsArray = \<lambda>_ e. (0, e), JS_ToBool = \<lambda>_ e. (1, e),
      JS_ToFloat64 = \<lambda>_ e. ((0, 0), e), JS_SetModuleLoaderFunc2 = \<lambda>e. e,
      js_init_module_std = \<lambda>_ e. (True, e)\<rparr>"

definition demo_start :: "nat st" where
  "demo_start = \<lparr>heap = Map.empty, script = [16, 32, 48, 64, 80], nrt = 0, engines = 0, contexts = 0, files = Map.empty\<rparr>"

text \<open>After \<open>js_runtime_create\<close>, and after an evaluation that follows it.\<close>

definition demo_inst :: "nat \<Rightarrow> JSValue multiset \<Rightarrow> nat engine_inst" where
  "demo_inst e R = \<lparr>estate = e, refs = R, cstrings = 0, penums = 0\<rparr>"

definition demo_rt :: "nat \<Rightarrow> JSValue multiset \<Rightarrow> u64 \<Rightarrow> bool \<Rightarrow> nat js_runtime_handle" where
  "demo_rt e R n d = \<lparr>runtime = Some (demo_inst e R), jscontext = True, last_error = NULL,
     value_count = n, destroying = d, std_module_enabled = False\<rparr>"

definition demo_created :: "nat st" where
  "demo_created = \<lparr>heap = [16 \<mapsto> RuntimeCell (demo_rt 1 {#} 0 False)], script = [32, 48, 64, 80],
     nrt = 1, engines = 1, contexts = 1, files = Map.empty\<rparr>"

definition demo_evaluated :: "nat st" where
  "demo_evaluated =
     \<lparr>heap = [32 \<mapsto> ValueCell \<lparr>vh_runtime = 16, vh_value = demo_object 1\<rparr>,
              16 \<mapsto> RuntimeCell (demo_rt (Suc 1) {#demo_object 1#} 1 False)],
      script = [48, 64, 80], nrt = 1, engines = 1, contexts = 1, files = Map.empty\<rparr>"

text \<open>A second runtime with a value of its own.\<close>

definition demo_second :: "nat st" where
  "demo_second =
     \<lparr>heap = (heap demo_evaluated)(48 \<mapsto> RuntimeCell (demo_rt 1 {#} 0 False)),
      script = [64, 80], nrt = Suc 1, engines = 2, contexts = 2, files = Map.empty\<rparr>"

definition demo_two :: "nat st" where
  "demo_two =
     \<lparr>heap = (heap demo_evaluated)(
        64 \<mapsto> ValueCell \<lparr>vh_runtime = 48, vh_value = demo_object 1\<rparr>,
        48 \<mapsto> RuntimeCell (demo_rt (Suc 1) {#demo_object 1#} 1 False)),
      script = [80], nrt = Suc 1, engines = 2, contexts = 2, files = Map.empty\<rparr>"

lemmas demo_state_defs =
  demo_start_def demo_created_def demo_evaluated_def demo_rt_def demo_inst_def demo_second_def demo_two_def

lemmas demo_exec =
  js_runtime_create_def js_runtime_eval_value_def valid_runtime_def load_rt_def store_rt_def clear_error_def
  c_free_def on_engine_def call_Eval_def call_value_def own_def new_value_handle_def c_alloc_def returning_def
  c_str_def c_strlen_def zero_runtime_handle_def call_NewRuntime_def call_NewContext_def

lemma demo_object_refcount [simp]: "JS_VALUE_HAS_REF_COUNT (demo_object n)" "\<not> JS_IsException (demo_object n)"
  by (simp_all add: demo_object_def jsvalue_defs)

lemma demo_create: "api demo_engine RuntimeCreate demo_start = Some (RHandle 16, demo_created)"
  by (simp add: demo_exec demo_state_defs demo_engine_def)

lemma demo_eval: "api demo_engine (RuntimeEval 16 (Some ''1'')) demo_created = Some (RHandle 32, demo_evaluated)"
  by (simp add: demo_exec demo_state_defs demo_engine_def fun_upd_twist)

lemma demo_views:
  "vals demo_evaluated 32 = Some \<lparr>vh_runtime = 16, vh_value = demo_object 1\<rparr>"
  "rts demo_evaluated 16 = Some (demo_rt (Suc 1) {#demo_object 1#} 1 False)"
  "rts demo_created 16 = Some (demo_rt 1 {#} 0 False)"
  by (simp_all add: vals_def rts_def demo_evaluated_def demo_created_def)

lemma demo_grants: "grants 2 demo_created" "grants (Suc 0) demo_created"
  by (simp_all add: grants_def demo_created_def)

lemma demo_create_second: "api demo_engine RuntimeCreate demo_evaluated = Some (RHandle 48, demo_second)"
  by (simp add: demo_exec demo_state_defs demo_engine_def)

lemma demo_eval_second: "api demo_engine (RuntimeEval 48 (Some ''1'')) demo_second = Some (RHandle 64, demo_two)"
  by (simp add: demo_exec demo_state_defs demo_engine_def fun_upd_twist)

lemma demo_reachable:
  "reachable demo_engine demo_start" "reachable demo_engine demo_created" "reachable demo_engine demo_evaluated"
  "reachable demo_engine demo_two"
proof -
  show "reachable demo_engine demo_start"
    by (rule reachable.start) (simp add: demo_start_def)
  then show 1: "reachable demo_engine demo_created"
    by (rule reachable.call [OF _ _ demo_create]) simp
  show 2: "reachable demo_engine demo_evaluated"
    by (rule reachable.call [OF 1 _ demo_eval])
      (simp add: usable_rt_def rts_def demo_created_def)
  have "reachable demo_engine demo_second"
    by (rule reachable.call [OF 2 _ demo_create_second]) simp
  then show "reachable demo_engine demo_two"
    by (rule reachable.call [OF _ _ demo_eval_second])
      (simp add: usable_rt_def rts_def demo_second_def)
qed

text \<open>The same engine, in which \<open>JS_IsArray\<close> throws.\<close>

definition demo_throwing :: "nat js_engine" where
  "demo_throwing = demo_engine\<lparr>JS_IsArray := \<lambda>v e. (- 1, e)\<rparr>"

lemma demo_throwing_reachable: "reachable demo_throwing demo_evaluated"
proof -
  have "api demo_throwing RuntimeCreate demo_start = Some (RHandle 16, demo_created)"
    by (simp add: demo_exec demo_state_defs demo_engine_def demo_throwing_def)
  moreover have "api demo_throwing (RuntimeEval 16 (Some ''1'')) demo_created = Some (RHandle 32, demo_evaluated)"
    by (simp add: demo_exec demo_state_defs demo_engine_def demo_throwing_def fun_upd_twist)
  ultimately show ?thesis
    by (elim reachable.call [rotated 2])
      (simp_all add: usable_rt_def rts_def demo_created_def demo_start_def reachable.start)
qed

section \<open>Memory safety and ownership\<close>

text \<open>A heap in which the client holds nothing and every runtime is being destroyed is empty.\<close>

lemma empty_heap:
  assumes inv: "bridge_inv s" and "\<And>h r. rts s h = Some r \<Longrightarrow> destroying r"
    and "\<And>v. vals s v = None" and "\<And>p. client_strs s p = None"
  shows "heap s = Map.empty"
proof -
  have rt: "rts s h = None" for h
  proof (rule ccontr)
    assume "rts s h \<noteq> None"
    then obtain r where r: "rts s h = Some r" by blast
    have "good s h {#} 0 0"
      using inv good_change_focus [of s NULL h] by (simp add: bridge_inv_def)
    then have "value_count r = 0"
      using value_count_0 [OF goodD(3) [OF _ r]] assms(3) by (auto simp: handles_of_def)
    with assms(2) [OF r] r inv show False
      by (auto simp: bridge_inv_def none_overdue_def)
  qed
  have "strs s a = None" for a
    using assms(4) [of a] rt by (simp add: client_strs_def)
  then have "heap s a = None" for a
    using rt [of a] assms(3) [of a] rts_heap [of s a] vals_heap [of s a] strs_heap [of s a]
    by (metis cell.exhaust not_Some_eq)
  then show ?thesis by blast
qed


text \<open>
  C1. Memory safety: every sequence of allowed calls from the empty heap runs to its end; no call reads or
  frees a dead block, releases a reference it does not own or leaves a conversion undefined, whatever the
  engine and the allocator answer; and the invariant of the bridge holds at the end.
\<close>

theorem bridge_memory_safe:
  assumes "heap s = Map.empty" and "legal (allowed E) (api E) cs s"
  shows "\<exists>rs s'. trace (api E) cs s = Some (rs, s') \<and> bridge_inv s'"
  using bridge.trace_ok [OF empty_inv [OF assms(1)] assms(2)] by (auto simp: ok_def)

theorem bridge_memory_safe_witness:
  "\<exists>rs s'. trace (api demo_engine) [RuntimeCreate, RuntimeEval 16 (Some ''1''), ValueGetIndex 32 7] demo_start =
    Some (rs, s') \<and> bridge_inv s'"
proof -
  have "legal (allowed demo_engine) (api demo_engine)
      [RuntimeCreate, RuntimeEval 16 (Some ''1''), ValueGetIndex 32 7] demo_start"
    unfolding legal.simps demo_create demo_eval option.case prod.case
    by (auto simp: usable_rt_def usable_val_def demo_views split: option.split)
  then show ?thesis
    by (intro bridge_memory_safe) (simp_all only: demo_start_def st.simps)
qed

text \<open>
  C2. Exact ownership: between calls the references the bridge owns in the engine of a runtime are
  exactly those held by the live value handles of that runtime, no C string or property table is
  outstanding, and \<open>value_count\<close> is the number of these handles.
\<close>

theorem bridge_owns_exactly_handles:
  assumes "reachable E s" and "rts s h = Some r"
  shows "jscontext r \<and> unat (value_count r) = card (handles_of s h) \<and>
    (\<exists>g. runtime r = Some g \<and> refs g = handle_refs s h \<and> cstrings g = 0 \<and> penums g = 0)"
proof -
  have "good s h {#} 0 0"
    using reachable_inv [OF assms(1)] good_change_focus [of s NULL h] by (simp add: bridge_inv_def)
  from goodD(3) [OF this assms(2)] show ?thesis
    by (auto simp: rt_ok_def)
qed

theorem bridge_owns_exactly_handles_witness:
  "unat (1 :: u64) = card (handles_of demo_evaluated 16) \<and>
   handle_refs demo_evaluated 16 = {#demo_object 1#}"
  using bridge_owns_exactly_handles [OF demo_reachable(3), of 16]
  by (simp add: rts_def demo_evaluated_def demo_rt_def demo_inst_def)

text \<open>
  C7. Isolation: a call changes no runtime but the one it works on, and ends no value handle but the
  one it is asked to destroy; only \<open>js_value_to_string\<close> and \<open>js_bridge_free_string\<close> change the set of
  strings the client holds.
\<close>

theorem bridge_isolation:
  assumes "reachable E s" and "allowed E s c" and "api E c s = Some (x, s')"
  shows "(\<forall>h r. rts s h = Some r \<longrightarrow> h \<noteq> target s c \<longrightarrow> rts s' h = Some r) \<and>
    (\<forall>v vh. vals s v = Some vh \<longrightarrow> c \<noteq> ValueDestroy v \<longrightarrow> vals s' v = Some vh) \<and>
    (\<not> changes_strings c \<longrightarrow> client_strs s' = client_strs s)"
  using api_ok [OF reachable_inv [OF assms(1)] assms(2)] assms(3) by (simp add: api_post_def)

theorem bridge_isolation_witness:
  "\<exists>s'. api demo_engine (ValueGetIndex 32 7) demo_evaluated = Some (RHandle 48, s') \<and>
     vals s' 32 = Some \<lparr>vh_runtime = 16, vh_value = demo_object 1\<rparr>"
proof -
  have a: "allowed demo_engine demo_evaluated (ValueGetIndex 32 7)"
    by (simp add: usable_val_def vals_def demo_evaluated_def)
  obtain s' where s': "api demo_engine (ValueGetIndex 32 7) demo_evaluated = Some (RHandle 48, s')"
    by (simp add: js_value_get_index_def valid_value_def load_val_def valid_runtime_def load_rt_def
        store_rt_def clear_error_def c_free_def on_engine_def call_value_def owned_def own_def
        new_value_handle_def c_alloc_def returning_def demo_state_defs demo_engine_def demo_new_def
        sint_uint Let_def)
  then show ?thesis
    using bridge_isolation [OF demo_reachable(3) a s'] demo_views(1) by blast
qed

text \<open>
  C3. Deferred destruction, value side: destroying a value handle always succeeds, ends that handle, and
  frees the runtime exactly when it was being destroyed and this was its last handle.
\<close>

theorem value_destroy_frees_last:
  assumes "reachable E s" and "vals s v = Some vh" and "rts s (vh_runtime vh) = Some r"
  shows "\<exists>s'. js_value_destroy E v s = Some ((), s') \<and> vals s' = (vals s)(v := None) \<and>
    (rts s' (vh_runtime vh) = None \<longleftrightarrow> destroying r \<and> handles_of s (vh_runtime vh) = {v})"
proof -
  have "good s (vh_runtime vh) {#} 0 0"
    using reachable_inv [OF assms(1)] good_change_focus [of s NULL "vh_runtime vh"] by (simp add: bridge_inv_def)
  from value_destroy_ok [OF this assms(2), of E] show ?thesis
    using assms(3) by (auto simp: ok_def value_destroyed_def split: if_splits)
qed

theorem value_destroy_frees_last_witness:
  "\<exists>s'. js_value_destroy demo_engine 32 demo_evaluated = Some ((), s') \<and> rts s' 16 \<noteq> None"
  using value_destroy_frees_last [OF demo_reachable(3), of 32 "\<lparr>vh_runtime = 16, vh_value = demo_object 1\<rparr>"]
  by (auto simp: vals_def rts_def demo_evaluated_def demo_rt_def)

text \<open>
  C6. Deferred destruction, runtime side: \<open>js_runtime_destroy\<close> frees the runtime at once when it has no
  value handle; otherwise the runtime and all its handles stay, marked as being destroyed.
\<close>

theorem runtime_destroy_deferred:
  assumes "reachable E s" and "rts s h = Some r"
  shows "\<exists>s'. js_runtime_destroy h s = Some ((), s') \<and> vals s' = vals s \<and>
    rts s' = (rts s)(h := if handles_of s h = {} then None else Some (r\<lparr>destroying := True\<rparr>))"
proof -
  have "good s h {#} 0 0"
    using reachable_inv [OF assms(1)] good_change_focus [of s NULL h] by (simp add: bridge_inv_def)
  from runtime_destroy_ok [OF this assms(2)]
  obtain s' where "js_runtime_destroy h s = Some ((), s')" "runtime_destroyed h s s'"
    by (auto simp: ok_def)
  with assms(2) show ?thesis
    unfolding runtime_destroyed_def by (metis option.inject)
qed

theorem runtime_destroy_deferred_witness:
  "\<exists>s'. js_runtime_destroy 16 demo_evaluated = Some ((), s') \<and>
     rts s' 16 = Some (demo_rt (Suc 1) {#demo_object 1#} 1 True)"
proof -
  have "32 \<in> handles_of demo_evaluated 16"
    by (simp add: handles_of_def vals_def demo_evaluated_def)
  then have "handles_of demo_evaluated 16 \<noteq> {}"
    by blast
  then show ?thesis
    using runtime_destroy_deferred [OF demo_reachable(3) demo_views(2)] by (auto simp: demo_rt_def)
qed

text \<open>
  C4. No leaks. The ledger of a client says what it holds, from its calls and their results alone: \<open>account\<close> adds every handle and
  string a call returned and removes those given back. After every sequence of allowed calls from the empty heap the runtimes
  not being destroyed, the value handles and the strings in memory are exactly those the client holds: nothing it
  holds is gone and nothing else is left. Once it holds nothing the heap is empty, error strings and temporary
  copies included, and as many engine runtimes and contexts have been freed as were created.
\<close>

theorem bridge_no_leaks:
  assumes "heap s = Map.empty" and "legal (allowed E) (api E) cs s" and "trace (api E) cs s = Some (rs, s')"
  shows "in_state s' = account ledger cs rs nothing \<and>
    (account ledger cs rs nothing = nothing \<longrightarrow>
      heap s' = Map.empty \<and> engines s' = engines s \<and> contexts s' = contexts s)"
proof -
  have pair: "account (\<lambda>c x (L, b). (ledger c x L, b)) cs rs (L, b) = (account ledger cs rs L, b)" for L b
    by (induction ledger cs rs L rule: account.induct) simp_all
  have start: "in_state s = nothing" "balance s = (engines s, contexts s)"
    using assms(1) by (auto simp: in_state_def nothing_def balance_def rts_def vals_def client_strs_def strs_def dom_def)
  from bridge_account.trace_view [OF empty_inv [OF assms(1)] assms(2,3)]
  have inv: "bridge_inv s'" and view: "in_state s' = account ledger cs rs nothing" "balance s' = (engines s, contexts s)"
    by (simp_all add: pair start)
  have "heap s' = Map.empty \<and> engines s' = engines s \<and> contexts s' = contexts s" if none: "in_state s' = nothing"
  proof -
    have "{h. \<exists>r. rts s' h = Some r \<and> \<not> destroying r} = {}" "dom (vals s') = {}" "dom (client_strs s') = {}"
      using none by (simp_all add: in_state_def nothing_def)
    then have heap: "heap s' = Map.empty"
      by (intro empty_heap [OF inv]) auto
    then show ?thesis
      using view(2) by (simp add: balance_def rts_def dom_def)
  qed
  with view show ?thesis
    by auto
qed

text \<open>
  A client that takes a runtime, a value and a string, runs into an error, and gives everything back, the runtime before its
  value.
\<close>

definition demo_calls :: "api_call list" where
  "demo_calls = [RuntimeCreate, RuntimeEval 16 (Some ''1''), RuntimeEval 16 (Some ''throw''), ValueToString 32, FreeString 64,
     RuntimeDestroy 16, ValueDestroy 32]"

text \<open>The states of this run after the error, after the string was made and freed, and after the runtime was given back.\<close>

definition demo_failed :: "addr list \<Rightarrow> bool \<Rightarrow> nat st" where
  "demo_failed sc d =
     \<lparr>heap = [48 \<mapsto> BytesCell (''error'' @ [NUL]), 32 \<mapsto> ValueCell \<lparr>vh_runtime = 16, vh_value = demo_object 1\<rparr>,
              16 \<mapsto> RuntimeCell ((demo_rt 4 {#demo_object 1#} 1 d)\<lparr>last_error := 48\<rparr>)],
      script = sc, nrt = 1, engines = 1, contexts = 1, files = Map.empty\<rparr>"

definition demo_named :: "nat st" where
  "demo_named = (demo_failed [80] False)\<lparr>heap := (heap (demo_failed [80] False))(64 \<mapsto> BytesCell (''error'' @ [NUL]))\<rparr>"

lemmas demo_exec2 = demo_exec capture_exception_def call_ToCString_def call_FreeCString_def call_FreeValue_def disown_def owned_def
  set_error_def copy_string_def js_value_to_string_def valid_value_def load_val_def js_bridge_free_string_def js_runtime_destroy_def
  free_runtime_if_ready_def free_runtime_def free_engine_def call_FreeContext_def call_FreeRuntime_def js_value_destroy_def

lemma demo_throw: "api demo_engine (RuntimeEval 16 (Some ''throw'')) demo_evaluated = Some (RHandle NULL, demo_failed [64, 80] False)"
  by (simp add: demo_exec2 demo_state_defs demo_engine_def demo_new_def demo_failed_def fun_eq_iff)

lemma demo_to_string: "api demo_engine (ValueToString 32) (demo_failed [64, 80] False) = Some (RHandle 64, demo_named)"
  by (simp add: demo_exec2 demo_state_defs demo_engine_def demo_named_def demo_failed_def fun_eq_iff)

lemma demo_free_string: "api demo_engine (FreeString 64) demo_named = Some (RVoid, demo_failed [80] False)"
  by (simp add: demo_exec2 demo_state_defs demo_named_def demo_failed_def fun_eq_iff)

lemma demo_destroy: "api demo_engine (RuntimeDestroy 16) (demo_failed [80] False) = Some (RVoid, demo_failed [80] True)"
  by (simp add: demo_exec2 demo_state_defs demo_failed_def fun_eq_iff)

lemma demo_destroy_value: "\<exists>s'. api demo_engine (ValueDestroy 32) (demo_failed [80] True) = Some (RVoid, s')"
  by (simp add: demo_exec2 demo_state_defs demo_failed_def demo_engine_def)

lemma demo_string_held: "client_strs demo_named 64 \<noteq> None"
  by (auto simp: client_strs_def strs_def rts_def demo_named_def demo_failed_def demo_rt_def split: if_splits)

lemma demo_run:
  "\<exists>s'. trace (api demo_engine) demo_calls demo_start = Some ([RHandle 16, RHandle 32, RHandle NULL, RHandle 64, RVoid, RVoid, RVoid], s') \<and>
    legal (allowed demo_engine) (api demo_engine) demo_calls demo_start"
proof -
  have a: "usable_rt demo_created 16" "usable_rt demo_evaluated 16" "usable_val (demo_failed sc d) 32" "usable_rt (demo_failed sc d) 16" for sc d
    by (simp_all add: usable_rt_def usable_val_def rts_def vals_def demo_created_def demo_evaluated_def demo_failed_def)
  obtain s' where s': "api demo_engine (ValueDestroy 32) (demo_failed [80] True) = Some (RVoid, s')"
    using demo_destroy_value by blast
  show ?thesis
    unfolding demo_calls_def trace.simps legal.simps demo_create demo_eval demo_throw demo_to_string demo_free_string demo_destroy s'
      option.case prod.case Option.bind.simps
    by (simp add: a demo_string_held)
qed

theorem bridge_no_leaks_witness:
  "\<exists>rs s'. trace (api demo_engine) demo_calls demo_start = Some (rs, s') \<and> length rs = 7 \<and>
    heap s' = Map.empty \<and> engines s' = 0 \<and> contexts s' = 0"
proof -
  obtain s' where s': "trace (api demo_engine) demo_calls demo_start =
      Some ([RHandle 16, RHandle 32, RHandle NULL, RHandle 64, RVoid, RVoid, RVoid], s')"
    "legal (allowed demo_engine) (api demo_engine) demo_calls demo_start"
    using demo_run by blast
  have "account ledger demo_calls [RHandle 16, RHandle 32, RHandle NULL, RHandle 64, RVoid, RVoid, RVoid] nothing = nothing"
    by (simp add: demo_calls_def ledger_def returns_handle_def nothing_def)
  then show ?thesis
    using bridge_no_leaks [OF _ s'(2,1)] s'(1) by (simp add: demo_start_def)
qed

section \<open>Strings and error reports\<close>

lemma errs_start:
  assumes "bridge_inv s" and "rts s h = Some r" and "grants n s"
  shows "errs h n (last_error r \<noteq> NULL) NULL s"
proof -
  have good: "good s h {#} 0 0"
    using assms(1) good_change_focus [of s NULL h] by (simp add: bridge_inv_def)
  show ?thesis
    using goodD(3) [OF good assms(2)] goodD(1) [OF good] assms(2,3)
    by (auto simp: errs_def rt_ok_def rts_def)
qed

text \<open>
  C5. Error reports: when the allocator grants the two blocks a call may need, a call that should return
  a handle returns \<open>NULL\<close> if and only if it leaves an error message in the runtime it works on.
\<close>

theorem failure_iff_error_message:
  assumes "reachable E s" and "returns_handle c" and "rts s (target s c) = Some r" and "grants 2 s"
    and "api E c s = Some (RHandle x, s')"
  shows "\<exists>r'. rts s' (target s c) = Some r' \<and> (x = NULL \<longleftrightarrow> last_error r' \<noteq> NULL)"
proof -
  let ?h = "target s c"
  note inv = reachable_inv [OF assms(1)]
  have e2: "errs ?h 2 (last_error r \<noteq> NULL) NULL s"
    using inv assms(3,4) by (rule errs_start)
  have e1: "errs ?h (Suc 0) (last_error r \<noteq> NULL) NULL s"
    by (rule errs_start [OF inv assms(3) grants_less [OF assms(4)]]) simp
  have hz: "?h \<noteq> NULL"
    using e1 by (simp add: errs_def)
  have vh: "\<exists>vh. vals s v = Some vh \<and> ?h = vh_runtime vh \<and> v \<noteq> NULL" if "?h = runtime_of s v" for v
    using that hz inv by (auto simp: runtime_of_def bridge_inv_def good_def vals_def split: option.splits)
  have "wlp (api E c s) (\<lambda>y s'. \<forall>x. y = RHandle x \<longrightarrow> reports ?h x s')"
  proof (cases c)
    case (RuntimeImport h path)
    with import_module_reports [of h _ s E path] e2 show ?thesis
      by (auto simp: returning_def wlp_def)
  next
    case (ValueGetProperty v name)
    with vh [of v] e1 show ?thesis
      using value_op_reports(1) [of _ _ s v E name] by (fastforce simp: returning_def wlp_def)
  next
    case (ValueGetIndex v i)
    with vh [of v] e1 show ?thesis
      using value_op_reports(2) [of _ _ s v E i] by (fastforce simp: returning_def wlp_def)
  next
    case (ValueCall v this as n)
    with vh [of v] e1 show ?thesis
      using value_op_reports(4) [of _ _ s v E this as n] by (fastforce simp: returning_def wlp_def)
  next
    case (ValueConstruct v as n)
    with vh [of v] e1 show ?thesis
      using value_op_reports(3) [of _ _ s v E as n] by (fastforce simp: returning_def wlp_def)
  qed (use assms(2) e1 runtime_op_reports in \<open>fastforce simp: returning_def wlp_def returns_handle_def\<close>)+
  with assms(5) show ?thesis
    by (auto simp: wlp_def reports_def)
qed

theorem failure_iff_error_message_witness:
  "\<exists>r'. rts demo_evaluated 16 = Some r' \<and> ((32 :: addr) = NULL \<longleftrightarrow> last_error r' \<noteq> NULL)"
  using failure_iff_error_message [OF demo_reachable(2) _ _ demo_grants(1) demo_eval]
  by (simp add: returns_handle_def demo_views(3))

lemma on_engine_Some:
  assumes "on_engine k f s = Some (x, s')"
  obtains r g g' where "rts s k = Some r" "runtime r = Some g" "f g = Some (x, g')"
    "rts s' = (rts s)(k \<mapsto> r\<lparr>runtime := Some g'\<rparr>)" "vals s' = vals s" "strs s' = strs s"
    "script s' = script s"
proof -
  from assms obtain r where r: "heap s k = Some (RuntimeCell r)"
    by (auto simp: on_engine_def load_rt_def Option.bind_eq_Some_conv split: option.split_asm cell.split_asm)
  with assms obtain g g' where *: "runtime r = Some g" "f g = Some (x, g')"
    "s' = s\<lparr>heap := (heap s)(k \<mapsto> RuntimeCell (r\<lparr>runtime := Some g'\<rparr>))\<rparr>"
    by (auto simp: on_engine_def load_rt_def store_rt_def Option.bind_eq_Some_conv
        split: option.split_asm if_split_asm)
  from r have rt: "rts s k = Some r"
    by (simp add: rts_heap)
  show ?thesis
    by (rule that [OF rt *(1,2)]) (use views_disjoint(1,2) [OF rt] in \<open>auto simp: * views_upd fun_eq_iff\<close>)
qed

text \<open>The message in the error string of a runtime, if there is one.\<close>

definition message :: "'e st \<Rightarrow> addr \<Rightarrow> string option" where
  "message s h = (case rts s h of None \<Rightarrow> None | Some r \<Rightarrow> if last_error r = NULL then None else strs s (last_error r))"

lemma message_on_engine: "on_engine k f s = Some (x, s') \<Longrightarrow> message s' h = message s h"
  by (erule on_engine_Some) (auto simp: message_def split: option.split)

lemma set_error_Some:
  assumes "set_error k m s = Some (x, s')" and "k \<noteq> NULL"
  shows "message s' k = None \<or>
      message s' k = Some (c_str (case m of None \<Rightarrow> ''unknown QuickJS error'' | Some t \<Rightarrow> t) @ [NUL])"
    and "\<exists>r p. rts s k = Some r \<and> rts s' k = Some (r\<lparr>last_error := p\<rparr>)"
proof -
  let ?c = "BytesCell (c_str (case m of None \<Rightarrow> ''unknown QuickJS error'' | Some t \<Rightarrow> t) @ [NUL])"
  from assms(1,2) obtain r s1 p s2 where *: "load_rt k s = Some (r, s)" "c_free (last_error r) s = Some ((), s1)"
      "c_alloc ?c s1 = Some (p, s2)" "store_rt k (r\<lparr>last_error := p\<rparr>) s2 = Some ((), s')"
    by (auto simp: set_error_def copy_string_def Let_def load_rt_def Option.bind_eq_Some_conv
        split: option.split_asm cell.split_asm)
  have r: "rts s k = Some r"
    using *(1) by (auto simp: load_rt_def rts_def split: option.split_asm cell.split_asm)
  have r': "rts s' k = Some (r\<lparr>last_error := p\<rparr>)" and k: "\<exists>r0. heap s2 k = Some (RuntimeCell r0)"
    and h: "heap s' = (heap s2)(k \<mapsto> RuntimeCell (r\<lparr>last_error := p\<rparr>))"
    using *(4) by (auto simp: store_rt_def rts_def split: option.split_asm cell.split_asm)
  show "\<exists>r p. rts s k = Some r \<and> rts s' k = Some (r\<lparr>last_error := p\<rparr>)"
    using r r' by blast
  have "p = NULL \<or> heap s2 p = Some ?c"
    by (rule c_alloc_cases [of ?c s1]) (use *(3) in auto)
  then show "message s' k = None \<or>
      message s' k = Some (c_str (case m of None \<Rightarrow> ''unknown QuickJS error'' | Some t \<Rightarrow> t) @ [NUL])"
    using k h by (auto simp: message_def r' strs_def)
qed

lemma on_engine_value_Some:
  "on_engine k (call_value b f) s = Some (x, s') \<Longrightarrow> f (est s k) = (x, est s' k)"
  by (erule on_engine_Some)
    (auto simp: call_value_def est_def split: if_split_asm prod.split_asm)

lemma on_engine_ToCString_Some:
  "on_engine k (call_ToCString E v) s = Some (x, s') \<Longrightarrow> JS_ToCString E v (est s k) = (x, est s' k)"
  by (erule on_engine_Some)
    (auto simp: call_ToCString_def est_def split: if_split_asm prod.split_asm option.split_asm)

lemma on_engine_Eval_Some:
  "on_engine k (call_Eval E buf len name flags) s = Some (x, s') \<Longrightarrow>
   JS_Eval E (take len buf) name flags (est s k) = (x, est s' k)"
  by (erule on_engine_Some)
    (auto simp: call_Eval_def call_value_def est_def split: if_split_asm prod.split_asm)

lemma capture_exception_message:
  assumes "capture_exception E k s = Some (u, s')" and "k \<noteq> NULL" and "rts s k = Some r" and "jscontext r"
    and "JS_GetException E (est s k) = (exc, e2)" and "JS_ToCString E exc e2 = (Some m, e3)"
  shows "message s' k = None \<or> message s' k = Some (c_str m @ [NUL])"
proof -
  have "load_rt k s = Some (r, s)"
    using assms(3) by (simp add: load_rt_def flip: rts_heap)
  with assms(1,2,4) obtain exc' s1 t s2 s3 s4 where
    *: "on_engine k (call_value [] (JS_GetException E)) s = Some (exc', s1)"
      "on_engine k (call_ToCString E exc') s1 = Some (t, s2)" "set_error k t s2 = Some ((), s3)"
      "on_engine k (call_FreeCString E t) s3 = Some ((), s4)"
      "on_engine k (call_FreeValue E exc') s4 = Some (u, s')"
    by (auto simp: capture_exception_def Option.bind_eq_Some_conv)
  have "t = Some m"
    using on_engine_value_Some [OF *(1)] on_engine_ToCString_Some [OF *(2)] assms(5,6) by simp
  then show ?thesis
    using set_error_Some(1) [OF *(3) assms(2)] message_on_engine [OF *(4)] message_on_engine [OF *(5)] by simp
qed

lemma clear_error_Some:
  assumes "clear_error k s = Some (x, s')" and "k \<noteq> NULL"
  shows "\<exists>r. rts s k = Some r \<and> rts s' k = Some (r\<lparr>last_error := NULL\<rparr>)"
  using assms
  by (auto simp: clear_error_def load_rt_def store_rt_def rts_def Option.bind_eq_Some_conv
      split: option.split_asm cell.split_asm)

text \<open>
  C8. Exceptions reach the caller: when evaluation throws, \<open>js_runtime_eval_value\<close> returns \<open>NULL\<close> and the
  message of the runtime is the string conversion of the pending exception, up to its first zero byte;
  the message is there whenever the allocator grants a block for it.
\<close>

theorem eval_exception_message:
  assumes "reachable E s" and "rts s h = Some r"
    and "JS_Eval E (c_str t) ''<eval>'' 0 (est s h) = (v, e1)" and "JS_IsException v"
    and "JS_GetException E e1 = (exc, e2)" and "JS_ToCString E exc e2 = (Some m, e3)"
  shows "\<exists>s'. js_runtime_eval_value E h (Some t) s = Some (NULL, s') \<and>
    (message s' h = None \<or> message s' h = Some (c_str m @ [NUL])) \<and>
    (grants (Suc 0) s \<longrightarrow> message s' h \<noteq> None)"
proof -
  have run: "run h s Map.empty {#} 0 0 s"
    using inv_run_start(1) [OF reachable_inv [OF assms(1)] assms(2)] .
  obtain g where h: "h \<noteq> NULL" "jscontext r" "runtime r = Some g"
    using run_not_NULL [OF run] run_rts [OF run] assms(2) by (metis option.inject)
  have "valid_runtime h s = Some (True, s)"
    using h assms(2) by (simp add: valid_runtime_def load_rt_def flip: rts_heap)
  moreover obtain x s' where x: "js_runtime_eval_value E h (Some t) s = Some (x, s')"
    using eval_value_ok [OF run, of E "Some t"] by (auto simp: ok_def)
  ultimately obtain s1 v' s2 where
    *: "clear_error h s = Some ((), s1)"
      "on_engine h (call_Eval E (t @ [NUL]) (c_strlen t) ''<eval>'' 0) s1 = Some (v', s2)"
      "(if JS_IsException v' then do { (_, s) \<leftarrow> capture_exception E h s2; Some (NULL, s) }
        else new_value_handle E h v' s2) = Some (x, s')"
    by (auto simp: js_runtime_eval_value_def Option.bind_eq_Some_conv split: if_split_asm)
  have s1: "rts s1 h = Some (r\<lparr>last_error := NULL\<rparr>)"
    using clear_error_Some [OF *(1) h(1)] assms(2) by simp
  have take: "take (c_strlen t) (t @ [NUL]) = c_str t"
    using takeWhile_eq_take [of "\<lambda>c. c \<noteq> NUL" t] length_takeWhile_le [of "\<lambda>c. c \<noteq> NUL" t]
    by (simp add: c_strlen_def c_str_def)
  have "est s1 h = est s h"
    using s1 assms(2) by (simp add: est_def)
  then have v: "v' = v" "est s2 h = e1"
    using on_engine_Eval_Some [OF *(2)] assms(3) take by simp_all
  obtain r2 where r2: "rts s2 h = Some r2" "jscontext r2"
    using *(2) s1 h by (elim on_engine_Some) simp
  from *(3) v assms(4) obtain u where "capture_exception E h s2 = Some (u, s')" "x = NULL"
    by (auto simp: Option.bind_eq_Some_conv)
  then have "message s' h = None \<or> message s' h = Some (c_str m @ [NUL])" and x0: "x = NULL"
    using capture_exception_message [OF _ h(1) r2] v assms(5,6) by blast+
  moreover have "message s' h \<noteq> None" if "grants (Suc 0) s"
  proof -
    have "reports h x s'"
      using runtime_op_reports(1) [OF errs_start [OF reachable_inv [OF assms(1)] assms(2) that], of E "Some t"] x
      by (simp add: wlp_def)
    moreover have "handle_post h s x s'"
      using eval_value_ok [OF run, of E "Some t"] x by simp
    then have "good s' h {#} 0 0"
      by (auto simp: handle_post_def run_def created_def)
    ultimately show ?thesis
      using good_error_ok x0 by (fastforce simp: reports_def message_def error_ok_def)
  qed
  ultimately show ?thesis
    using x by blast
qed

theorem eval_exception_message_witness:
  "\<exists>s'. js_runtime_eval_value demo_engine 16 (Some ''throw'') demo_created = Some (NULL, s') \<and>
    message s' 16 = Some (''error'' @ [NUL])"
proof -
  have c: "c_str ''throw'' = ''throw''" "c_str ''error'' = ''error''"
    by (simp_all add: c_str_def)
  have "JS_Eval demo_engine (c_str ''throw'') ''<eval>'' 0 (est demo_created 16) = (JS_EXCEPTION, 2)"
    unfolding c by (simp add: demo_engine_def est_def demo_views(3) demo_rt_def demo_inst_def)
  moreover have "JS_GetException demo_engine 2 = (demo_object 2, 3)"
    "JS_ToCString demo_engine (demo_object 2) 3 = (Some ''error'', 3)"
    by (simp_all add: demo_engine_def demo_new_def)
  ultimately show ?thesis
    using eval_exception_message [OF demo_reachable(2) demo_views(3), of "''throw''" JS_EXCEPTION 2
        "demo_object 2" 3 "''error''" 3] demo_grants
    unfolding c by fastforce
qed

section \<open>Values of other runtimes\<close>

lemma set_error_runtimes:
  assumes "run k s Map.empty {#} 0 0 s"
  shows "\<exists>s'. set_error k m s = Some ((), s') \<and>
    (\<forall>h. map_option runtime (rts s' h) = map_option runtime (rts s h)) \<and> vals s' = vals s"
proof -
  have "ok (set_error k m s) (\<lambda>_. run k s Map.empty {#} 0 0)"
    by (rule ok_set_error [OF assms])
  then obtain s' where s': "set_error k m s = Some ((), s')" and run: "run k s Map.empty {#} 0 0 s'"
    by (auto simp: ok_def)
  have "map_option runtime (rts s' h) = map_option runtime (rts s h)" for h
    using set_error_Some(2) [OF s' run_not_NULL [OF assms]] run
    by (cases "h = k") (auto simp: run_def frame_def)
  with s' run show ?thesis
    by (auto simp: run_def)
qed

lemma foreign_value_True:
  "vals s w = Some wh \<Longrightarrow> vh_runtime wh \<noteq> k \<Longrightarrow> foreign_value k w s = Some (True, s)"
  by (simp add: foreign_value_def load_val_def flip: vals_heap)

lemma valid_value_True:
  assumes "bridge_inv s" and "vals s v = Some vh"
  shows "valid_value v s = Some (True, s)" "load_val v s = Some (vh, s)"
proof -
  have run: "run (vh_runtime vh) s Map.empty {#} 0 0 s"
    by (rule inv_run_start(2) [OF assms])
  show l: "load_val v s = Some (vh, s)"
    using assms(2) by (simp add: load_val_def flip: vals_heap)
  have "ok (valid_value v s) (\<lambda>b s'. b \<and> s' = s)"
    using run assms(2) by (rule ok_valid_value) simp
  then show "valid_value v s = Some (True, s)"
    by (auto simp: ok_def)
qed

text \<open>The steps of \<open>js_value_to_string\<close> after the conversion by the engine.\<close>

lemma to_string_steps:
  assumes "valid_value v s = Some (True, s)" and "load_val v s = Some (vh, s)"
    and "JS_ToCString E (vh_value vh) (est s (vh_runtime vh)) = (t, e)" and "js_value_to_string E v s = Some (x, s')"
  obtains s1 where "on_engine (vh_runtime vh) (call_ToCString E (vh_value vh)) s = Some (t, s1)"
    and "(if t = None
       then do { (_, s) \<leftarrow> set_error (vh_runtime vh) (Some ''failed to convert JavaScript value to string'') s1; Some (NULL, s) }
       else do { (copy, s) \<leftarrow> copy_string t s1;
                 (_, s) \<leftarrow> on_engine (vh_runtime vh) (call_FreeCString E t) s;
                 if copy = NULL
                 then do { (_, s) \<leftarrow> set_error (vh_runtime vh) (Some ''failed to allocate JavaScript string result'') s; Some (copy, s) }
                 else Some (copy, s) }) = Some (x, s')"
proof (cases "on_engine (vh_runtime vh) (call_ToCString E (vh_value vh)) s")
  case None
  then show ?thesis
    using assms by (simp add: js_value_to_string_def)
next
  case (Some y)
  then obtain s1 where s1: "y = (t, s1)"
    using on_engine_ToCString_Some [of "vh_runtime vh" E "vh_value vh" s "fst y" "snd y"] assms(3) by (cases y) simp
  show ?thesis
    by (rule that [of s1]) (use assms(1,2,4) Some s1 in \<open>simp_all add: js_value_to_string_def\<close>)
qed

text \<open>
  C9. Strings: \<open>js_value_to_string\<close> on a live handle always returns. If the engine cannot convert the value, the result is \<open>NULL\<close>,
  no string is handed out, and the error message says so whenever a block for it is granted. If the engine converts it to
  \<open>m\<close>, the client is handed a new zero-terminated copy of \<open>m\<close>, up to its first zero byte, at an address that held none of its
  strings; the result is \<open>NULL\<close>, with nothing handed out, only if the allocator refuses the block.
\<close>

theorem to_string_hands_out_fresh_string:
  assumes "reachable E s" and "vals s v = Some vh"
    and "JS_ToCString E (vh_value vh) (est s (vh_runtime vh)) = (t, e)"
  shows "\<exists>x s'. js_value_to_string E v s = Some (x, s') \<and>
    (case t of
       None \<Rightarrow> x = NULL \<and> client_strs s' = client_strs s \<and>
         (grants (Suc 0) s \<longrightarrow> message s' (vh_runtime vh) = Some (''failed to convert JavaScript value to string'' @ [NUL]))
     | Some m \<Rightarrow>
         x = NULL \<and> \<not> grants (Suc 0) s \<and> client_strs s' = client_strs s \<or>
         x \<noteq> NULL \<and> client_strs s x = None \<and> client_strs s' = (client_strs s)(x \<mapsto> c_str m @ [NUL]))"
proof -
  let ?k = "vh_runtime vh"
  note inv = reachable_inv [OF assms(1)]
  note start = inv_run_start(2) [OF inv assms(2)]
  obtain x s' where x: "js_value_to_string E v s = Some (x, s')" and post: "string_post ?k s x s'"
    using value_to_string_ok [OF start assms(2), of E] by (auto simp: ok_def)
  obtain s1 where s1: "on_engine ?k (call_ToCString E (vh_value vh)) s = Some (t, s1)"
    and rest: "(if t = None
       then do { (_, s) \<leftarrow> set_error ?k (Some ''failed to convert JavaScript value to string'') s1; Some (NULL, s) }
       else do { (copy, s) \<leftarrow> copy_string t s1;
                 (_, s) \<leftarrow> on_engine ?k (call_FreeCString E t) s;
                 if copy = NULL
                 then do { (_, s) \<leftarrow> set_error ?k (Some ''failed to allocate JavaScript string result'') s; Some (copy, s) }
                 else Some (copy, s) }) = Some (x, s')"
    by (rule to_string_steps [OF valid_value_True [OF inv assms(2)] assms(3) x])
  obtain r where r: "rts s ?k = Some r"
    using run_rts [OF start] by blast
  have errs: "errs ?k (Suc 0) (last_error r \<noteq> NULL) NULL s1" if "grants (Suc 0) s"
    using errs_on_engine [OF errs_start [OF inv r that], of "\<lambda>x s'. errs ?k (Suc 0) (last_error r \<noteq> NULL) NULL s'"
        "call_ToCString E (vh_value vh)"] s1
    by (auto simp: wlp_def)
  have null: "client_strs s' = client_strs s" "good s' ?k {#} 0 0" if "x = NULL"
    using post that by (auto simp: string_post_def run_def frame_def)
  show ?thesis
  proof (cases t)
    case None
    let ?m = "''failed to convert JavaScript value to string''"
    obtain u where u: "set_error ?k (Some ?m) s1 = Some (u, s')" "x = NULL"
      using rest None by (auto simp: Option.bind_eq_Some_conv)
    have "c_str ?m = ?m"
      by (simp add: c_str_def)
    then have "message s' ?k = None \<or> message s' ?k = Some (?m @ [NUL])"
      using set_error_Some(1) [OF u(1) run_not_NULL [OF start]] by simp
    moreover have "message s' ?k \<noteq> None" if "grants (Suc 0) s"
      using errs_set_error [OF errs [OF that], of "\<lambda>_. errs ?k 0 True NULL" "Some ?m"] u(1) good_error_ok [OF null(2) [OF u(2)]]
      by (fastforce simp: wlp_def errs_def message_def error_ok_def)
    ultimately show ?thesis
      using x u(2) null None by auto
  next
    case (Some m)
    let ?c = "BytesCell (c_str m @ [NUL])"
    obtain s2 s3 where s2: "c_alloc ?c s1 = Some (x, s2)" "on_engine ?k (call_FreeCString E t) s2 = Some ((), s3)"
      and s3: "x \<noteq> NULL \<Longrightarrow> s' = s3"
      using rest Some by (auto simp: copy_string_def Option.bind_eq_Some_conv split: if_split_asm)
    show ?thesis
    proof (cases "x = NULL")
      case True
      have "\<not> grants (Suc 0) s"
      proof
        assume "grants (Suc 0) s"
        then have "grants (Suc 0) s1"
          using errs by (simp add: errs_def)
        then show False
          using s2(1) True by (rule_tac grants_alloc [of 0 s1 ?c]) auto
      qed
      then show ?thesis
        using x True null Some by auto
    next
      case False
      have "heap s2 x = Some ?c"
        by (rule c_alloc_cases [of ?c s1]) (use s2(1) False in auto)
      then have "strs s' x = Some (c_str m @ [NUL])"
        using s2(2) s3 [OF False] by (elim on_engine_Some) (simp add: strs_heap)
      moreover obtain t' where t': "client_strs s x = None" "client_strs s' = (client_strs s)(x \<mapsto> t')"
        using post False by (auto simp: string_post_def run_def frame_def)
      then have "client_strs s' x = Some t'"
        by simp
      then have "strs s' x = Some t'"
        by (simp add: client_strs_def split: if_split_asm)
      ultimately show ?thesis
        using x False Some t' by auto
    qed
  qed
qed

theorem to_string_hands_out_fresh_string_witness:
  "\<exists>x s'. js_value_to_string demo_engine 32 demo_evaluated = Some (x, s') \<and> x \<noteq> NULL \<and> client_strs s' x = Some (''error'' @ [NUL])"
proof -
  have "grants (Suc 0) demo_evaluated"
    by (simp add: grants_def demo_evaluated_def)
  moreover have "c_str ''error'' = ''error''"
    by (simp add: c_str_def)
  moreover have "JS_ToCString demo_engine (demo_object 1) e = (Some ''error'', e)" for e
    by (simp add: demo_engine_def)
  ultimately show ?thesis
    using to_string_hands_out_fresh_string [OF demo_reachable(3) demo_views(1)] by fastforce
qed

text \<open>
  A value of one runtime is never stored into an object of another: \<open>js_value_set_property\<close> refuses
  it, reports an error and leaves the engine of every runtime untouched.
\<close>

theorem set_property_refuses_foreign:
  assumes "reachable E s" and "vals s v = Some vh" and "vals s w = Some wh"
    and "vh_runtime wh \<noteq> vh_runtime vh"
  shows "\<exists>s'. js_value_set_property E v (Some name) w s = Some (1, s') \<and> vals s' = vals s \<and>
    (\<forall>h. map_option runtime (rts s' h) = map_option runtime (rts s h))"
proof -
  note inv = reachable_inv [OF assms(1)]
  obtain s' where "set_error (vh_runtime vh) (Some ''property value does not belong to this runtime'') s = Some ((), s')"
    and "\<forall>h. map_option runtime (rts s' h) = map_option runtime (rts s h)" "vals s' = vals s"
    using set_error_runtimes [OF inv_run_start(2) [OF inv assms(2)]] by blast
  then show ?thesis
    using valid_value_True [OF inv assms(2)] foreign_value_True [OF assms(3,4)]
    by (simp add: js_value_set_property_def Let_def)
qed

theorem set_property_refuses_foreign_witness:
  "\<exists>s'. js_value_set_property demo_engine 32 (Some ''x'') 64 demo_two = Some (1, s')"
  using set_property_refuses_foreign [OF demo_reachable(4), of 32 "\<lparr>vh_runtime = 16, vh_value = demo_object 1\<rparr>"
      64 "\<lparr>vh_runtime = 48, vh_value = demo_object 1\<rparr>" "''x''"]
  by (auto simp: vals_def demo_two_def demo_evaluated_def)

text \<open>Arguments that are null or of another runtime.\<close>

definition refused :: "'e st \<Rightarrow> addr \<Rightarrow> addr \<Rightarrow> bool" where
  "refused s k a \<longleftrightarrow> a = NULL \<or> (\<exists>wh. vals s a = Some wh \<and> vh_runtime wh \<noteq> k)"

lemma fill_argv_loop_refuses:
  assumes run: "run k s Map.empty {#} 0 0 s" and u: "list_all (usable_val s) args"
    and n: "n \<le> length args" and a: "a \<in> set (take n args)" "refused s k a"
  shows "\<exists>s'. fill_argv_loop k args n s = Some (None, s') \<and> vals s' = vals s \<and>
    (\<forall>h. map_option runtime (rts s' h) = map_option runtime (rts s h))"
  using u n a(1)
proof (induction args arbitrary: n)
  case (Cons b args)
  then obtain m where n: "n = Suc m"
    by (cases n) auto
  show ?case
  proof (cases "refused s k b")
    case True
    then have "foreign_value k b s = Some (True, s)"
      by (auto simp: refused_def foreign_value_def load_val_def simp flip: vals_heap)
    then show ?thesis
      using set_error_runtimes [OF run, of "Some ''argument does not belong to this runtime''"] n by auto
  next
    case False
    then obtain wh where wh: "vals s b = Some wh" "vh_runtime wh = k" "b \<noteq> NULL"
      using Cons.prems(1) by (auto simp: refused_def usable_val_def)
    then have "foreign_value k b s = Some (False, s)" "load_val b s = Some (wh, s)"
      by (simp_all add: foreign_value_def load_val_def flip: vals_heap)
    moreover have "a \<in> set (take m args)"
      using Cons.prems(3) a(2) False n by auto
    then obtain s' where "fill_argv_loop k args m s = Some (None, s')" "vals s' = vals s"
      "\<forall>h. map_option runtime (rts s' h) = map_option runtime (rts s h)"
      using Cons.IH [of m] Cons.prems n by auto
    ultimately show ?thesis
      using n by simp
  qed
qed simp

text \<open>
  An argument that is null or of another runtime makes \<open>js_value_call\<close> fail before the engine is
  entered: the result is \<open>NULL\<close> and the engine of every runtime is untouched.
\<close>

theorem call_refuses_foreign_argument:
  assumes "reachable E s" and "vals s f = Some vh" and "list_all (usable_val s) args"
    and "int (length args) = n" and "a \<in> set args" and "refused s (vh_runtime vh) a"
  shows "\<exists>s'. js_value_call E f NULL (Some args) n s = Some (NULL, s') \<and> vals s' = vals s \<and>
    (\<forall>h. map_option runtime (rts s' h) = map_option runtime (rts s h))"
proof -
  note inv = reachable_inv [OF assms(1)]
  note v = valid_value_True [OF inv assms(2)]
  have "a \<in> set (take (length args) args)"
    using assms(5) by simp
  then obtain s' where s': "fill_argv_loop (vh_runtime vh) args (length args) s = Some (None, s')" "vals s' = vals s"
    "\<forall>h. map_option runtime (rts s' h) = map_option runtime (rts s h)"
    using fill_argv_loop_refuses [OF inv_run_start(2) [OF inv assms(2)] assms(3) order.refl _ assms(6)] by blast
  moreover have "fill_argv f (Some args) n s = Some (None, s')"
    using s' v assms(4) by (simp add: fill_argv_def flip: assms(4))
  ultimately show ?thesis
    using v assms(4) by (auto simp: js_value_call_def Let_def)
qed

theorem call_refuses_foreign_argument_witness:
  "\<exists>s'. js_value_call demo_engine 32 NULL (Some [NULL]) 1 demo_evaluated = Some (NULL, s')"
  using call_refuses_foreign_argument [OF demo_reachable(3) demo_views(1), of "[NULL]" 1 NULL]
  by (auto simp: refused_def usable_val_def)

section \<open>Indices, arrays and kinds\<close>

text \<open>
  C10. Indices from \<open>2 ^ 32\<close> on are not distinguished from small ones: \<open>js_value_get_index\<close> with index
  \<open>i + 2 ^ 32\<close> does exactly what it does with index \<open>i\<close>, because the index is cut to 32 bits.
\<close>

theorem get_index_wraps:
  assumes "0 \<le> sint i" and "sint i < 2 ^ 63 - 2 ^ 32"
  shows "js_value_get_index E v (i + 2 ^ 32) s = js_value_get_index E v i s"
proof -
  have "sint (i + 2 ^ 32) = signed_take_bit 63 (sint i + 2 ^ 32)"
    by (simp add: sint_word_ariths)
  also have "\<dots> = sint i + 2 ^ 32"
    using assms by (intro signed_take_bit_int_eq_self) auto
  finally have "\<not> sint (i + 2 ^ 32) < 0"
    using assms by simp
  moreover have "(ucast (i + 2 ^ 32) :: u32) = ucast i"
    by transfer (simp add: take_bit_eq_mod mod_mod_cancel)
  moreover have "\<not> sint i < 0"
    using assms by simp
  ultimately show ?thesis
    unfolding js_value_get_index_def by (simp only: if_False)
qed

theorem get_index_wraps_witness:
  "js_value_get_index demo_engine 32 (0 + 2 ^ 32) demo_evaluated = js_value_get_index demo_engine 32 0 demo_evaluated"
  by (rule get_index_wraps) simp_all

text \<open>
  \<open>js_value_is_array\<close> answers 1 for every non-zero answer of the engine, hence also for the answer
  -1 by which \<open>JS_IsArray\<close> reports an exception.
\<close>

theorem is_array_counts_exceptions:
  assumes "reachable E s" and "vals s v = Some vh"
    and "JS_IsArray E (vh_value vh) (est s (vh_runtime vh)) = (a, e)"
  shows "\<exists>s'. js_value_is_array E v s = Some (if a = 0 then 0 else 1, s')"
proof -
  note inv = reachable_inv [OF assms(1)]
  have run: "run (vh_runtime vh) s Map.empty {#} 0 0 s"
    by (rule inv_run_start(2) [OF inv assms(2)])
  have "ok (js_value_is_array E v s) (\<lambda>x s'. x = (if a = 0 then 0 else 1))"
    unfolding js_value_is_array_def
    by (rule bridge_rules run assms(2) lives_handle | assumption | (simp add: assms(3); fail))+
  then show ?thesis
    by (auto simp: ok_def)
qed

theorem is_array_counts_exceptions_witness:
  "\<exists>s'. js_value_is_array demo_throwing 32 demo_evaluated = Some (1, s')"
  using is_array_counts_exceptions [OF demo_throwing_reachable demo_views(1), of "- 1"]
  by (simp add: demo_throwing_def)

text \<open>The kind of a value, by its tag.\<close>

definition kind_of_tag :: "u32 \<Rightarrow> bool \<Rightarrow> quickjs_value_kind" where
  "kind_of_tag tag callable =
     (if tag = JS_TAG_NULL then QUICKJS_VALUE_NULL
      else if tag = JS_TAG_BOOL then QUICKJS_VALUE_BOOL
      else if tag \<in> {JS_TAG_INT, JS_TAG_FLOAT64} then QUICKJS_VALUE_NUMBER
      else if tag \<in> {JS_TAG_STRING, JS_TAG_STRING_ROPE} then QUICKJS_VALUE_STRING
      else if tag \<in> {JS_TAG_BIG_INT, JS_TAG_SHORT_BIG_INT} then QUICKJS_VALUE_BIGINT
      else if tag = JS_TAG_OBJECT
      then (if callable then QUICKJS_VALUE_FUNCTION else QUICKJS_VALUE_OBJECT)
      else QUICKJS_VALUE_UNDEFINED)"

text \<open>
  \<open>js_value_kind\<close> classifies every live handle by the tag of its value; only objects are functions,
  provided \<open>JS_IsFunction\<close> is false for non-objects, as it is documented to be.
\<close>

theorem kind_by_tag:
  assumes "reachable E s" and "vals s v = Some vh"
    and "\<And>w e. JS_IsFunction E w e \<Longrightarrow> JS_IsObject w"
  shows "\<exists>s'. js_value_kind E v s =
    Some (kind_of_tag (jsv_tag (vh_value vh)) (JS_IsFunction E (vh_value vh) (est s (vh_runtime vh))), s')"
proof -
  note inv = reachable_inv [OF assms(1)]
  have run: "run (vh_runtime vh) s Map.empty {#} 0 0 s"
    by (rule inv_run_start(2) [OF inv assms(2)])
  have "ok (js_value_kind E v s) (\<lambda>x s'. x =
      kind_of_tag (jsv_tag (vh_value vh)) (JS_IsFunction E (vh_value vh) (est s (vh_runtime vh))))"
    unfolding js_value_kind_def Let_def
    by (rule bridge_rules run assms(2) lives_handle | assumption
        | (simp add: kind_of_tag_def jsvalue_defs; fail)
        | (use assms(3) in \<open>force simp: kind_of_tag_def jsvalue_defs\<close>))+
  then show ?thesis
    by (auto simp: ok_def)
qed

theorem kind_by_tag_witness:
  "\<exists>s'. js_value_kind demo_engine 32 demo_evaluated = Some (QUICKJS_VALUE_OBJECT, s')"
  using kind_by_tag [OF demo_reachable(3) demo_views(1)]
  by (simp add: demo_engine_def kind_of_tag_def demo_object_def JS_MKPTR_def)


end
