(* ===== verification/CStrings.thy ===== *)
theory CStrings
  imports Prelude
begin

text \<open>
  The string functions of \<open>native/quickjs/cutils.c\<close>: bounded copy and concatenation, prefix and suffix
  tests. A \<open>char *\<close> is the list of the bytes from the pointer to the end of its block; reading or
  writing past that end is the value \<open>None\<close>. The string a pointer denotes ends at the first zero byte.
\<close>

section \<open>Zero-terminated strings\<close>

abbreviation nul :: u8 where
  "nul \<equiv> 0"

fun strlen :: "u8 list \<Rightarrow> nat option" where
  "strlen [] = None"
| "strlen (c # cs) = (if c = nul then Some 0 else map_option Suc (strlen cs))"

definition cstr :: "u8 list \<Rightarrow> u8 list" where
  "cstr p = takeWhile (\<lambda>c. c \<noteq> nul) p"

definition terminated :: "u8 list \<Rightarrow> bool" where
  "terminated p \<longleftrightarrow> nul \<in> set p"

definition poke :: "u8 list \<Rightarrow> nat \<Rightarrow> u8 \<Rightarrow> u8 list option" where
  "poke buf i c = (if i < length buf then Some (buf[i := c]) else None)"

section \<open>Operations\<close>

text \<open>The loop of \<open>pstrcpy\<close>; \<open>q\<close> is the write position.\<close>

fun pstrcpy_loop :: "u8 list \<Rightarrow> nat \<Rightarrow> int \<Rightarrow> u8 list \<Rightarrow> u8 list option" where
  "pstrcpy_loop buf q buf_size [] = None"
| "pstrcpy_loop buf q buf_size (c # str) =
     (if c = 0 \<or> int q \<ge> buf_size - 1 then poke buf q nul
      else do { buf \<leftarrow> poke buf q c; pstrcpy_loop buf (Suc q) buf_size str })"

definition pstrcpy :: "u8 list \<Rightarrow> int \<Rightarrow> u8 list \<Rightarrow> u8 list option" where
  "pstrcpy buf buf_size str = (if buf_size \<le> 0 then Some buf else pstrcpy_loop buf 0 buf_size str)"

definition pstrcat :: "u8 list \<Rightarrow> int \<Rightarrow> u8 list \<Rightarrow> u8 list option" where
  "pstrcat buf buf_size s =
     do { len \<leftarrow> strlen buf;
          if int len < buf_size
          then map_option (\<lambda>b. take len buf @ b) (pstrcpy (drop len buf) (buf_size - int len) s)
          else Some buf }"

text \<open>\<open>strstart\<close> returns the rest of \<open>str\<close> behind the prefix, the pointer it stores.\<close>

fun strstart :: "u8 list \<Rightarrow> u8 list \<Rightarrow> u8 list option option" where
  "strstart p [] = None"
| "strstart p (q # qs) =
     (if q = nul then Some (Some p)
      else case p of [] \<Rightarrow> None | c # cs \<Rightarrow> if c \<noteq> q then Some None else strstart cs qs)"

definition has_suffix :: "u8 list \<Rightarrow> u8 list \<Rightarrow> bool option" where
  "has_suffix str suffix =
     do { len \<leftarrow> strlen str;
          slen \<leftarrow> strlen suffix;
          Some (slen \<le> len \<and> take slen (drop (len - slen) str) = take slen suffix) }"

section \<open>Properties\<close>

lemma terminated_Cons [simp]: "terminated (c # cs) \<longleftrightarrow> c = nul \<or> terminated cs" "\<not> terminated []"
  by (auto simp: terminated_def)

lemma cstr_simps [simp]: "cstr [] = []" "cstr (c # cs) = (if c = nul then [] else c # cstr cs)"
  by (simp_all add: cstr_def)

lemma strlen_cstr: "terminated p \<Longrightarrow> strlen p = Some (length (cstr p))"
  by (induction p) auto

lemma terminated_split: "terminated p \<Longrightarrow> p = cstr p @ nul # drop (Suc (length (cstr p))) p"
  by (induction p) auto

lemma cstr_no_nul [simp]: "nul \<notin> set (cstr p)"
  by (induction p) auto

lemma cstr_append [simp]: "nul \<notin> set xs \<Longrightarrow> cstr (xs @ nul # ys) = xs"
  by (induction xs) auto

lemma length_cstr_less: "terminated p \<Longrightarrow> length (cstr p) < length p"
  by (induction p) auto

lemma pstrcpy_loop_eq:
  assumes "terminated str" and "int q < n" and "n \<le> int (length buf)"
  shows "pstrcpy_loop buf q n str =
    Some (take q buf @ take (nat n - 1 - q) (cstr str) @ nul # drop (Suc (q + min (nat n - 1 - q) (length (cstr str)))) buf)"
  using assms
proof (induction str arbitrary: buf q)
  case (Cons c str)
  have q: "q < length buf" using Cons.prems by linarith
  show ?case
  proof (cases "c = 0 \<or> int q \<ge> n - 1")
    case True
    then have "take (nat n - 1 - q) (cstr (c # str)) = []" "min (nat n - 1 - q) (length (cstr (c # str))) = 0"
      by auto
    with True q show ?thesis
      by (simp add: poke_def upd_conv_take_nth_drop)
  next
    case False
    then have "pstrcpy_loop (buf[q := c]) (Suc q) n str = Some (take (Suc q) (buf[q := c]) @
        take (nat n - 1 - Suc q) (cstr str) @
        nul # drop (Suc (Suc q + min (nat n - 1 - Suc q) (length (cstr str)))) (buf[q := c]))"
      using Cons.prems by (intro Cons.IH) auto
    moreover from False have "nat n - 1 - q = Suc (nat n - 1 - Suc q)"
      using Cons.prems by linarith
    ultimately show ?thesis
      using False q by (simp add: poke_def take_Suc_conv_app_nth)
  qed
qed simp

lemma pstrcpy_eq:
  assumes "terminated str" and "0 < n" and "n \<le> int (length buf)"
  shows "pstrcpy buf n str =
    Some (take (nat n - 1) (cstr str) @ nul # drop (Suc (min (nat n - 1) (length (cstr str)))) buf)"
  using pstrcpy_loop_eq [of str 0 n buf] assms by (simp add: pstrcpy_def)

lemma strstart_eq:
  assumes "terminated str" and "terminated val"
  shows "strstart str val =
    Some (if take (length (cstr val)) (cstr str) = cstr val then Some (drop (length (cstr val)) str) else None)"
  using assms
proof (induction str val rule: strstart.induct)
  case (2 p q qs)
  then show ?case
    by (cases p) (auto simp: cstr_def)
qed simp

text \<open>
  \<open>pstrcpy\<close> into a buffer of \<open>buf_size\<close> bytes never writes outside it and leaves the longest prefix of
  the source that fits, always terminated; the bytes behind the terminator are untouched.
\<close>

theorem pstrcpy_truncates:
  assumes "terminated str" and "0 < n" and "n \<le> int (length buf)"
  shows "\<exists>buf'. pstrcpy buf n str = Some buf' \<and> length buf' = length buf \<and>
    cstr buf' = take (nat n - 1) (cstr str) \<and> terminated buf' \<and>
    drop (nat n) buf' = drop (nat n) buf"
proof -
  define t k where "t = take (nat n - 1) (cstr str)" and "k = length t"
  have nul: "nul \<notin> set t"
    unfolding t_def using cstr_no_nul in_set_takeD by metis
  have k: "min (nat n - 1) (length (cstr str)) = k" "k < nat n" "k < length buf"
    using assms(2,3) by (auto simp: k_def t_def)
  have eq: "pstrcpy buf n str = Some (t @ nul # drop (Suc k) buf)"
    using pstrcpy_eq [OF assms] unfolding k(1) t_def .
  have "drop (nat n) (t @ nul # drop (Suc k) buf) = drop (nat n) buf"
    using k by (simp add: drop_Cons' flip: k_def)
  moreover have "length (t @ nul # drop (Suc k) buf) = length buf"
    using k(3) by (simp flip: k_def)
  moreover have "cstr (t @ nul # drop (Suc k) buf) = take (nat n - 1) (cstr str)"
    using cstr_append [OF nul] by (simp add: t_def)
  moreover have "terminated (t @ nul # drop (Suc k) buf)"
    by (simp add: terminated_def)
  ultimately show ?thesis
    using eq by blast
qed

theorem pstrcpy_truncates_witness:
  "\<exists>buf'. pstrcpy [7, 7, 7, 7] 3 [65, 66, 67, 0] = Some buf' \<and> cstr buf' = [65, 66]"
  using pstrcpy_truncates [of "[65, 66, 67, 0]" 3 "[7, 7, 7, 7]"] by auto

text \<open>
  \<open>pstrcat\<close> appends to the string in the buffer the longest prefix of its argument that fits, and leaves
  the buffer alone when it is already full.
\<close>

theorem pstrcat_appends:
  assumes "terminated buf" and "terminated str" and "n \<le> int (length buf)"
  shows "\<exists>buf'. pstrcat buf n str = Some buf' \<and> length buf' = length buf \<and>
    cstr buf' = cstr buf @ take (nat n - 1 - length (cstr buf)) (cstr str)"
proof (cases "int (length (cstr buf)) < n")
  case True
  let ?l = "length (cstr buf)"
  have len: "take ?l buf = cstr buf"
    using terminated_split [OF assms(1)] by (metis append_eq_conv_conj)
  have fits: "n - int ?l \<le> int (length (drop ?l buf))" "0 < n - int ?l"
    using assms(3) True by auto
  have sz: "nat (n - int ?l) - 1 = nat n - 1 - ?l"
    using True by linarith
  define b where "b = take (nat n - 1 - ?l) (cstr str) @
      nul # drop (Suc (min (nat n - 1 - ?l) (length (cstr str)))) (drop ?l buf)"
  have "pstrcpy (drop ?l buf) (n - int ?l) str = Some b"
    using pstrcpy_eq [OF assms(2) fits(2) fits(1)] unfolding sz b_def by simp
  moreover have "nul \<notin> set (cstr buf @ take (nat n - 1 - ?l) (cstr str))"
    using cstr_no_nul in_set_takeD by (metis Un_iff set_append)
  then have "cstr (cstr buf @ b) = cstr buf @ take (nat n - 1 - ?l) (cstr str)"
    unfolding b_def append_assoc [symmetric] by (rule cstr_append)
  moreover have "length b = length buf - ?l"
    using fits assms(3) True by (auto simp: b_def)
  ultimately show ?thesis
    using True len strlen_cstr [OF assms(1)] length_cstr_less [OF assms(1)] by (auto simp: pstrcat_def)
next
  case False
  then have "nat n - 1 - length (cstr buf) = 0"
    by linarith
  with False show ?thesis
    using strlen_cstr [OF assms(1)] by (simp add: pstrcat_def)
qed

theorem pstrcat_appends_witness:
  "\<exists>buf'. pstrcat [65, 0, 7, 7] 3 [66, 67, 0] = Some buf' \<and> cstr buf' = [65, 66]"
  using pstrcat_appends [of "[65, 0, 7, 7]" "[66, 67, 0]" 3] by auto

text \<open>
  \<open>strstart\<close> and \<open>has_suffix\<close> decide the prefix and suffix relations on zero-terminated strings without
  reading past a terminator, and \<open>strstart\<close> returns the rest of the string.
\<close>

theorem prefix_suffix_decided:
  assumes "terminated str" and "terminated val"
  shows "strstart str val =
      Some (if \<exists>r. cstr str = cstr val @ r then Some (drop (length (cstr val)) str) else None) \<and>
    has_suffix str val = Some (\<exists>r. cstr str = r @ cstr val)"
proof
  have "take (length (cstr val)) (cstr str) = cstr val \<longleftrightarrow> (\<exists>r. cstr str = cstr val @ r)"
    by (metis append_eq_conv_conj append_take_drop_id)
  then show "strstart str val =
      Some (if \<exists>r. cstr str = cstr val @ r then Some (drop (length (cstr val)) str) else None)"
    by (simp add: strstart_eq [OF assms])
  let ?l = "length (cstr str)" and ?s = "length (cstr val)"
  have v: "take ?s val = cstr val" and s: "str = cstr str @ nul # drop (Suc ?l) str"
    using terminated_split [OF assms(2)] terminated_split [OF assms(1)]
    by (metis append_eq_conv_conj, blast)
  have d: "take ?s (drop (?l - ?s) str) = drop (?l - ?s) (cstr str)" if "?s \<le> ?l"
    using that by (subst s) simp
  have "(?s \<le> ?l \<and> take ?s (drop (?l - ?s) str) = take ?s val) \<longleftrightarrow> (\<exists>r. cstr str = r @ cstr val)"
  proof
    assume *: "?s \<le> ?l \<and> take ?s (drop (?l - ?s) str) = take ?s val"
    then have "cstr str = take (?l - ?s) (cstr str) @ cstr val"
      using d v by (metis append_take_drop_id)
    then show "\<exists>r. cstr str = r @ cstr val"
      by blast
  next
    assume "\<exists>r. cstr str = r @ cstr val"
    then obtain r where "cstr str = r @ cstr val"
      by blast
    then have "?s \<le> ?l" "drop (?l - ?s) (cstr str) = cstr val"
      by simp_all
    then show "?s \<le> ?l \<and> take ?s (drop (?l - ?s) str) = take ?s val"
      using d v by simp
  qed
  then show "has_suffix str val = Some (\<exists>r. cstr str = r @ cstr val)"
    by (simp add: has_suffix_def strlen_cstr assms)
qed

theorem prefix_suffix_decided_witness:
  "strstart [65, 66, 0] [65, 0] = Some (Some [66, 0]) \<and> has_suffix [65, 66, 0] [66, 0] = Some True"
  using prefix_suffix_decided [of "[65, 66, 0]" "[65, 0]"] prefix_suffix_decided [of "[65, 66, 0]" "[66, 0]"]
  by auto

end
