(* ===== verification/Words.thy ===== *)
theory Words
  imports Prelude
begin

text \<open>
  Machine words as natural numbers: how the operations of C on unsigned integers read through \<open>unat\<close>.
  The collection \<open>unat_simps\<close> turns a word expression into arithmetic with explicit wrap-around.
\<close>

unbundle bit_operations_syntax

named_theorems unat_simps \<open>unsigned values of word operations\<close>

lemma unat_drop_bit [unat_simps]: "unat (drop_bit n (w :: 'a::len word)) = unat w div 2 ^ n"
  by (subst unat_drop_bit_eq) (rule drop_bit_eq_div)

lemma unat_take_bit [unat_simps]: "unat (take_bit n (w :: 'a::len word)) = unat w mod 2 ^ n"
proof -
  have "unat (take_bit n w) = take_bit n (unat w)"
    by (rule unsigned_take_bit_eq)
  then show ?thesis
    by (simp only: take_bit_eq_mod)
qed

lemma unat_ucast [unat_simps]: "unat (ucast (w :: 'a::len word) :: 'b::len word) = unat w mod 2 ^ LENGTH('b)"
  by (subst unsigned_ucast_eq) (rule take_bit_eq_mod)

lemma unat_add [unat_simps]: "unat (a + b :: 'a::len word) = (unat a + unat b) mod 2 ^ LENGTH('a)"
  by (rule unat_word_ariths)

lemma unat_mult [unat_simps]: "unat (a * b :: 'a::len word) = (unat a * unat b) mod 2 ^ LENGTH('a)"
  by (rule unat_word_ariths)

lemma unat_push_bit [unat_simps]: "unat (push_bit n (w :: 'a::len word)) = (unat w * 2 ^ n) mod 2 ^ LENGTH('a)"
proof -
  have "unat (push_bit n w) = take_bit LENGTH('a) (push_bit n (unat w))"
    by (rule unsigned_push_bit_eq)
  then show ?thesis
    by (simp only: take_bit_eq_mod push_bit_eq_mult)
qed

lemma unat_less [simp]: "unat (w :: 'a::len word) < 2 ^ LENGTH('a)"
  by (rule unsigned_less)

lemma unat_ucast_up:
  assumes "LENGTH('a) \<le> LENGTH('b)"
  shows "unat (ucast (w :: 'a::len word) :: 'b::len word) = unat w"
proof -
  have "unat w < 2 ^ LENGTH('a)"
    by simp
  also have "(2 :: nat) ^ LENGTH('a) \<le> 2 ^ LENGTH('b)"
    using assms by (rule power_increasing) simp
  finally show ?thesis
    by (simp add: unat_ucast)
qed

lemma unat_minus:
  "unat (a - b :: 'a::len word) = (if b \<le> a then unat a - unat b else 2 ^ LENGTH('a) + unat a - unat b)"
proof (cases "b \<le> a")
  case True
  then show ?thesis by (simp add: unat_sub)
next
  case False
  then have "unat a < unat b"
    by (simp add: word_le_nat_alt)
  moreover have "unat b < 2 ^ LENGTH('a)"
    by simp
  ultimately have "unat a + (2 ^ LENGTH('a) - unat b) < 2 ^ LENGTH('a)"
    by linarith
  moreover have "(of_nat (2 ^ LENGTH('a) - unat b) :: 'a word) = of_nat (2 ^ LENGTH('a)) - of_nat (unat b)"
    by (rule of_nat_diff) (simp add: less_imp_le)
  then have "a - b = of_nat (unat a) + of_nat (2 ^ LENGTH('a) - unat b)"
    by simp
  then have "a - b = of_nat (unat a + (2 ^ LENGTH('a) - unat b))"
    by (simp only: of_nat_add)
  ultimately have "unat (a - b) = unat a + (2 ^ LENGTH('a) - unat b)"
    by (simp only: unat_of_nat mod_less)
  moreover have "unat a + (2 ^ LENGTH('a) - unat b) = 2 ^ LENGTH('a) + unat a - unat b"
    using \<open>unat b < 2 ^ LENGTH('a)\<close> by linarith
  ultimately show ?thesis
    using False by simp
qed

lemma take_bit_self: "unat w < 2 ^ k \<Longrightarrow> take_bit k w = (w :: 'a::len word)"
  by (rule word_unat_eq_iff [THEN iffD2]) (simp add: unat_take_bit)

text \<open>A disjunction of values that occupy disjoint bits is their sum.\<close>

lemma or_disjoint:
  assumes "unat (x :: 'a::len word) < 2 ^ k"
  shows "x OR push_bit k q = x + push_bit k q"
proof -
  have "take_bit k x AND push_bit k q = 0"
    by (rule bit_word_eqI) (simp add: bit_simps)
  then show ?thesis
    by (simp add: disjunctive_add_eq_or take_bit_self assms)
qed

lemma unat_or_disjoint:
  assumes "unat (x :: 'a::len word) < 2 ^ k" and "unat q * 2 ^ k + unat x < 2 ^ LENGTH('a)"
  shows "unat (x OR push_bit k q) = unat q * 2 ^ k + unat x"
  using assms by (simp add: or_disjoint unat_add unat_push_bit)

lemma unat_or_disjoint':
  assumes "unat (x :: 'a::len word) < 2 ^ k" and "unat q * 2 ^ k + unat x < 2 ^ LENGTH('a)"
  shows "unat (push_bit k q OR x) = unat q * 2 ^ k + unat x"
  using unat_or_disjoint [OF assms] by (simp add: ac_simps)

end
