(* ===== verification/Bytes.thy ===== *)
theory Bytes
  imports Words
begin

text \<open>
  Unaligned little-endian access, byte swapping, surrogate pairs, hexadecimal digits and half-precision
  conversion: the inline functions of \<open>native/quickjs/cutils.h\<close>. The packed structs of the header are read
  and written on a little-endian host, so the byte at the lowest address is the least significant.
\<close>

unbundle bit_operations_syntax

section \<open>Minima and maxima\<close>

definition max_int :: "u32 \<Rightarrow> u32 \<Rightarrow> u32" where
  "max_int a b = (if sint a > sint b then a else b)"

definition min_int :: "u32 \<Rightarrow> u32 \<Rightarrow> u32" where
  "min_int a b = (if sint a < sint b then a else b)"

definition max_uint32 :: "u32 \<Rightarrow> u32 \<Rightarrow> u32" where
  "max_uint32 a b = (if a > b then a else b)"

definition min_uint32 :: "u32 \<Rightarrow> u32 \<Rightarrow> u32" where
  "min_uint32 a b = (if a < b then a else b)"

definition max_int64 :: "u64 \<Rightarrow> u64 \<Rightarrow> u64" where
  "max_int64 a b = (if sint a > sint b then a else b)"

definition min_int64 :: "u64 \<Rightarrow> u64 \<Rightarrow> u64" where
  "min_int64 a b = (if sint a < sint b then a else b)"

section \<open>Unaligned access\<close>

text \<open>The bytes of a value, lowest address first, and the value of such bytes.\<close>

fun le_bytes :: "nat \<Rightarrow> 'a::len word \<Rightarrow> u8 list" where
  "le_bytes 0 v = []"
| "le_bytes (Suc n) v = ucast v # le_bytes n (drop_bit 8 v)"

fun le_word :: "u8 list \<Rightarrow> 'a::len word" where
  "le_word [] = 0"
| "le_word (b # bs) = ucast b OR push_bit 8 (le_word bs)"

text \<open>Reading or writing past the end of the block is the value \<open>None\<close>.\<close>

definition get_le :: "nat \<Rightarrow> u8 list \<Rightarrow> 'a::len word option" where
  "get_le n tab = (if n \<le> length tab then Some (le_word (take n tab)) else None)"

definition put_le :: "nat \<Rightarrow> u8 list \<Rightarrow> 'a::len word \<Rightarrow> u8 list option" where
  "put_le n tab val = (if n \<le> length tab then Some (le_bytes n val @ drop n tab) else None)"

definition get_u8 :: "u8 list \<Rightarrow> u32 option" where
  "get_u8 tab = map_option (\<lambda>v :: u8. ucast v) (get_le 1 tab)"

definition get_i8 :: "u8 list \<Rightarrow> u32 option" where
  "get_i8 tab = map_option (\<lambda>v :: u8. scast v) (get_le 1 tab)"

definition get_u16 :: "u8 list \<Rightarrow> u32 option" where
  "get_u16 tab = map_option (\<lambda>v :: u16. ucast v) (get_le 2 tab)"

definition get_i16 :: "u8 list \<Rightarrow> u32 option" where
  "get_i16 tab = map_option (\<lambda>v :: u16. scast v) (get_le 2 tab)"

definition get_u32 :: "u8 list \<Rightarrow> u32 option" where
  "get_u32 tab = get_le 4 tab"

definition get_i32 :: "u8 list \<Rightarrow> u32 option" where
  "get_i32 tab = get_le 4 tab"

definition get_u64 :: "u8 list \<Rightarrow> u64 option" where
  "get_u64 tab = get_le 8 tab"

definition get_i64 :: "u8 list \<Rightarrow> u64 option" where
  "get_i64 tab = get_le 8 tab"

definition put_u8 :: "u8 list \<Rightarrow> u8 \<Rightarrow> u8 list option" where
  "put_u8 tab val = put_le 1 tab val"

definition put_u16 :: "u8 list \<Rightarrow> u16 \<Rightarrow> u8 list option" where
  "put_u16 tab val = put_le 2 tab val"

definition put_u32 :: "u8 list \<Rightarrow> u32 \<Rightarrow> u8 list option" where
  "put_u32 tab val = put_le 4 tab val"

definition put_u64 :: "u8 list \<Rightarrow> u64 \<Rightarrow> u8 list option" where
  "put_u64 tab val = put_le 8 tab val"

section \<open>Byte order\<close>

definition bswap16 :: "u16 \<Rightarrow> u16" where
  "bswap16 x = drop_bit 8 x OR push_bit 8 x"

definition bswap32 :: "u32 \<Rightarrow> u32" where
  "bswap32 v = drop_bit 24 (v AND 0xff000000) OR drop_bit 8 (v AND 0x00ff0000) OR
     push_bit 8 (v AND 0x0000ff00) OR push_bit 24 (v AND 0x000000ff)"

definition bswap64 :: "u64 \<Rightarrow> u64" where
  "bswap64 v =
     drop_bit (7 * 8) (v AND push_bit (7 * 8) 0xff) OR
     drop_bit (5 * 8) (v AND push_bit (6 * 8) 0xff) OR
     drop_bit (3 * 8) (v AND push_bit (5 * 8) 0xff) OR
     drop_bit (1 * 8) (v AND push_bit (4 * 8) 0xff) OR
     push_bit (1 * 8) (v AND push_bit (3 * 8) 0xff) OR
     push_bit (3 * 8) (v AND push_bit (2 * 8) 0xff) OR
     push_bit (5 * 8) (v AND push_bit (1 * 8) 0xff) OR
     push_bit (7 * 8) (v AND push_bit (0 * 8) 0xff)"

section \<open>Surrogates and hexadecimal digits\<close>

definition is_surrogate :: "u32 \<Rightarrow> bool" where
  "is_surrogate c \<longleftrightarrow> drop_bit 11 c = drop_bit 11 0xD800"

definition is_hi_surrogate :: "u32 \<Rightarrow> bool" where
  "is_hi_surrogate c \<longleftrightarrow> drop_bit 10 c = drop_bit 10 0xD800"

definition is_lo_surrogate :: "u32 \<Rightarrow> bool" where
  "is_lo_surrogate c \<longleftrightarrow> drop_bit 10 c = drop_bit 10 0xDC00"

definition get_hi_surrogate :: "u32 \<Rightarrow> u32" where
  "get_hi_surrogate c = drop_bit 10 c - drop_bit 10 0x10000 + 0xD800"

definition get_lo_surrogate :: "u32 \<Rightarrow> u32" where
  "get_lo_surrogate c = (c AND 0x3FF) OR 0xDC00"

definition from_surrogate :: "u32 \<Rightarrow> u32 \<Rightarrow> u32" where
  "from_surrogate hi lo = 0x10000 + 0x400 * (hi - 0xD800) + (lo - 0xDC00)"

definition from_hex :: "int \<Rightarrow> int" where
  "from_hex c =
     (if c \<ge> 48 \<and> c \<le> 57 then c - 48
      else if c \<ge> 65 \<and> c \<le> 70 then c - 65 + 10
      else if c \<ge> 97 \<and> c \<le> 102 then c - 97 + 10
      else - 1)"

section \<open>Half precision\<close>

definition tofp16 :: "f64 \<Rightarrow> u16" where
  "tofp16 d =
     (let a = d;
          sgn = (ucast (drop_bit 63 a) :: u32);
          a = a AND 0x7fffffffffffffff;
          v = (if a > 0x7ff0000000000000 then (0x7c01 :: u32)
               else if a < 0x3f10000000000000
               then if a \<le> 0x3e60000000000000 then 0
                 else let shift = 1051 - unat (drop_bit 52 a);
                          a = push_bit 52 1 OR (a AND (push_bit 52 1 - 1));
                          addend = (drop_bit shift a AND 1) + (push_bit (shift - 1) 1 - 1)
                      in ucast (drop_bit shift (a + addend))
               else let a = a - 0x3f00000000000000;
                        addend = (drop_bit (52 - 10) a AND 1) + (push_bit (52 - 11) 1 - 1);
                        v = (ucast (drop_bit (52 - 10) (a + addend)) :: u32)
                    in if v > 0x7c00 then 0x7c00 else v)
      in ucast (v OR push_bit 15 sgn))"

definition isfp16nan :: "u16 \<Rightarrow> bool" where
  "isfp16nan v \<longleftrightarrow> v AND 0x7FFF > 0x7C00"

definition isfp16zero :: "u16 \<Rightarrow> bool" where
  "isfp16zero v \<longleftrightarrow> v AND 0x7FFF = 0"

section \<open>Properties\<close>

lemma length_le_bytes [simp]: "length (le_bytes n v) = n"
  by (induction n arbitrary: v) auto

lemma le_word_bytes: "le_word (le_bytes n v) = take_bit (8 * n) (v :: 'a::len word)"
proof (induction n arbitrary: v)
  case (Suc n)
  have "bit (ucast (ucast v :: u8) OR push_bit 8 (take_bit (8 * n) (drop_bit 8 v))) m =
      bit (take_bit (8 + 8 * n) v) m" if "m < LENGTH('a)" for m
  proof (cases "m < 8")
    case False
    then have "8 + (m - 8) = m" "m - 8 < 8 * n \<longleftrightarrow> m < 8 + 8 * n"
      by auto
    with False that show ?thesis
      by (auto simp: bit_simps)
  qed (use that in \<open>auto simp: bit_simps\<close>)
  then show ?case
    by (simp add: Suc bit_eq_iff impossible_bit)
qed simp

lemma nth_le_bytes: "i < n \<Longrightarrow> le_bytes n v ! i = ucast (drop_bit (8 * i) v)"
proof (induction n arbitrary: i v)
  case (Suc n)
  then show ?case
    by (cases i) (simp_all add: drop_bit_drop_bit add.commute)
qed simp

lemma get_put_le:
  assumes "n \<le> length tab" and "LENGTH('a) \<le> 8 * n"
  shows "\<exists>t. put_le n tab (v :: 'a::len word) = Some t \<and> get_le n t = Some v \<and> drop n t = drop n tab"
  using assms by (auto simp: put_le_def get_le_def le_word_bytes take_bit_word_eq_self)

text \<open>
  Unaligned access round trip: what \<open>put_u16\<close>, \<open>put_u32\<close> and \<open>put_u64\<close> store in a block that is long
  enough, the corresponding get function reads back; the bytes behind it are untouched.
\<close>

theorem put_get_roundtrip:
  assumes "8 \<le> length tab"
  shows "(\<exists>t. put_u16 tab x = Some t \<and> get_u16 t = Some (ucast x) \<and> drop 2 t = drop 2 tab) \<and>
    (\<exists>t. put_u32 tab y = Some t \<and> get_u32 t = Some y \<and> drop 4 t = drop 4 tab) \<and>
    (\<exists>t. put_u64 tab z = Some t \<and> get_u64 t = Some z \<and> drop 8 t = drop 8 tab)"
  using get_put_le [of 2 tab x] get_put_le [of 4 tab y] get_put_le [of 8 tab z] assms
  by (auto simp: put_u16_def put_u32_def put_u64_def get_u16_def get_u32_def get_u64_def)

theorem put_get_roundtrip_witness:
  "\<exists>t. put_u32 (replicate 8 0) 0xDEADBEEF = Some t \<and> get_u32 t = Some 0xDEADBEEF"
  using put_get_roundtrip [of "replicate 8 0" 0 "0xDEADBEEF"] by auto

text \<open>The byte masks of the swapping functions as shifted masks.\<close>

lemma byte_masks:
  "(0xff :: 'a::len word) = mask 8" "(0xff000000 :: u32) = push_bit 24 (mask 8)"
  "(0x00ff0000 :: u32) = push_bit 16 (mask 8)" "(0x0000ff00 :: u32) = push_bit 8 (mask 8)"
  by (simp_all add: mask_eq_exp_minus_1 push_bit_eq_mult)

lemma bswap64_byte:
  assumes "i < 8"
  shows "ucast (drop_bit (8 * i) (bswap64 z)) = (ucast (drop_bit (8 * (7 - i)) z) :: u8)"
proof -
  consider "i = 0" | "i = 1" | "i = 2" | "i = 3" | "i = 4" | "i = 5" | "i = 6" | "i = 7"
    using assms by linarith
  then show ?thesis
    unfolding bswap64_def byte_masks(1)
    by cases (simp_all, (rule bit_word_eqI, auto simp: bit_simps)+)
qed

lemma bswap32_byte:
  assumes "i < 4"
  shows "ucast (drop_bit (8 * i) (bswap32 y)) = (ucast (drop_bit (8 * (3 - i)) y) :: u8)"
proof -
  consider "i = 0" | "i = 1" | "i = 2" | "i = 3"
    using assms by linarith
  then show ?thesis
    unfolding bswap32_def byte_masks
    by cases (simp_all, (rule bit_word_eqI, auto simp: bit_simps)+)
qed

lemma bswap16_byte:
  assumes "i < 2"
  shows "ucast (drop_bit (8 * i) (bswap16 x)) = (ucast (drop_bit (8 * (1 - i)) x) :: u8)"
proof -
  consider "i = 0" | "i = 1"
    using assms by linarith
  then show ?thesis
    unfolding bswap16_def by cases (simp_all, (rule bit_word_eqI, auto simp: bit_simps)+)
qed

text \<open>
  The byte-swapping functions reverse the order of the bytes in memory, at every width.
\<close>

theorem bswap_reverses_bytes:
  "le_bytes 2 (bswap16 x) = rev (le_bytes 2 x) \<and> le_bytes 4 (bswap32 y) = rev (le_bytes 4 y) \<and>
   le_bytes 8 (bswap64 z) = rev (le_bytes 8 z)"
  by (intro conjI nth_equalityI)
    (simp_all add: nth_le_bytes rev_nth bswap16_byte bswap32_byte bswap64_byte)

lemma drop_bit_eq_iff: "drop_bit n (c :: 'a::len word) = d \<longleftrightarrow> unat c div 2 ^ n = unat d"
  by (simp flip: unat_drop_bit add: word_unat_eq_iff)

lemma surrogate_ranges:
  "is_surrogate c \<longleftrightarrow> 0xD800 \<le> unat c \<and> unat c \<le> 0xDFFF"
  "is_hi_surrogate c \<longleftrightarrow> 0xD800 \<le> unat c \<and> unat c \<le> 0xDBFF"
  "is_lo_surrogate c \<longleftrightarrow> 0xDC00 \<le> unat c \<and> unat c \<le> 0xDFFF"
  by (auto simp: is_surrogate_def is_hi_surrogate_def is_lo_surrogate_def drop_bit_eq_iff unat_drop_bit)

lemma get_lo_surrogate_add: "get_lo_surrogate c = take_bit 10 c + 0xDC00"
proof -
  have "(0x3FF :: u32) = mask 10"
    by (simp add: mask_eq_exp_minus_1)
  then have "get_lo_surrogate c = take_bit 10 c OR 0xDC00"
    by (simp only: get_lo_surrogate_def take_bit_eq_mask)
  also have "take_bit 10 c AND 0xDC00 = 0"
  proof (rule bit_word_eqI)
    fix n
    have "(0xDC00 :: u32) = push_bit 10 0x37"
      by (simp add: push_bit_eq_mult)
    then show "bit (take_bit 10 c AND 0xDC00) n = bit (0 :: u32) n"
      by (simp only: bit_simps) auto
  qed
  then have "take_bit 10 c OR 0xDC00 = take_bit 10 c + 0xDC00"
    by (simp add: disjunctive_add_eq_or)
  finally show ?thesis .
qed

text \<open>
  Surrogate pairs: a supplementary code point splits into a high and a low surrogate from which
  \<open>from_surrogate\<close> recovers it.
\<close>

theorem surrogate_pair_roundtrip:
  assumes "0x10000 \<le> c" and "c \<le> 0x10FFFF"
  shows "is_hi_surrogate (get_hi_surrogate c) \<and> is_lo_surrogate (get_lo_surrogate c) \<and>
    from_surrogate (get_hi_surrogate c) (get_lo_surrogate c) = c"
proof (intro conjI)
  have c: "0x10000 \<le> unat c" "unat c \<le> 0x10FFFF"
    using assms by (simp_all add: word_le_nat_alt)
  have q: "64 \<le> unat c div 1024" "unat c div 1024 < 1088"
    using c by auto
  have hi: "get_hi_surrogate c = of_nat (unat c div 1024 - 64 + 0xD800)"
  proof -
    have "drop_bit 10 c = of_nat (unat c div 1024)"
      unfolding word_unat_eq_iff unat_drop_bit using c by (simp add: unat_of_nat)
    then show ?thesis
      using q by (simp add: get_hi_surrogate_def of_nat_diff drop_bit_eq_div)
  qed
  then have "unat (get_hi_surrogate c) = unat c div 1024 - 64 + 0xD800"
    using q by (simp add: unat_word_ariths unat_of_nat)
  then show "is_hi_surrogate (get_hi_surrogate c)"
    using q by (auto simp: surrogate_ranges)
  have t: "unat (take_bit 10 c) < 1024"
    using take_bit_nat_less_exp [of 10 "unat c"] by (simp add: unsigned_take_bit_eq)
  then have "unat (get_lo_surrogate c) = unat (take_bit 10 c) + 0xDC00"
    by (simp add: get_lo_surrogate_add unat_word_ariths)
  then show "is_lo_surrogate (get_lo_surrogate c)"
    using t by (auto simp: surrogate_ranges)
  have k: "drop_bit 10 (0x10000 :: u32) = 64"
    by (simp add: drop_bit_eq_iff)
  have "from_surrogate (get_hi_surrogate c) (get_lo_surrogate c) = push_bit 10 (drop_bit 10 c) + take_bit 10 c"
    unfolding from_surrogate_def get_hi_surrogate_def get_lo_surrogate_add k
    by (simp add: push_bit_eq_mult algebra_simps)
  then show "from_surrogate (get_hi_surrogate c) (get_lo_surrogate c) = c"
    by (simp only: bits_ident)
qed

theorem surrogate_pair_roundtrip_witness:
  "from_surrogate (get_hi_surrogate 0x1F600) (get_lo_surrogate 0x1F600) = 0x1F600"
  using surrogate_pair_roundtrip [of "0x1F600"] by simp


end
