(* ===== verification/DynBuf.thy ===== *)
theory DynBuf
  imports CStrings Bytes
begin

text \<open>
  The dynamic buffer package of \<open>native/quickjs/cutils.c\<close> and \<open>cutils.h\<close>. The buffer is the list of
  the \<open>allocated_size\<close> bytes of its block, \<open>None\<close> for the null pointer; sizes are 64-bit words that
  wrap. The \<open>realloc_func\<close> and its opaque argument are parameters: \<open>'o\<close> is the state behind the opaque
  pointer. A \<open>memcpy\<close> outside the block, between overlapping ranges or through a null pointer is
  undefined, the value \<open>None\<close>.
\<close>

section \<open>State\<close>

record 'o DynBuf =
  db_buf :: "u8 list option"
  db_size :: u64
  db_allocated_size :: u64
  db_error :: bool
  db_opaque :: 'o

type_synonym 'o DynBufReallocFunc = "'o \<Rightarrow> u8 list option \<Rightarrow> u64 \<Rightarrow> u8 list option \<times> 'o"
type_synonym ('o, 'a) dop = "'o DynBuf \<Rightarrow> ('a \<times> 'o DynBuf) option"

text \<open>
  \<open>realloc\<close> of the C library: \<open>heap_grants\<close> says which of the coming requests succeed and
  \<open>heap_fill\<close> what the fresh bytes hold.
\<close>

record c_heap =
  heap_grants :: "bool list"
  heap_fill :: "nat \<Rightarrow> u8"

definition c_realloc :: "c_heap \<Rightarrow> u8 list option \<Rightarrow> u64 \<Rightarrow> u8 list option \<times> c_heap" where
  "c_realloc h p n =
     (if n = 0 then (None, h)
      else case heap_grants h of
        True # rest \<Rightarrow>
          (let old = (case p of None \<Rightarrow> [] | Some b \<Rightarrow> b)
           in (Some (take (unat n) old @ map (heap_fill h) [length old ..< unat n]), h\<lparr>heap_grants := rest\<rparr>))
      | _ \<Rightarrow> (None, h\<lparr>heap_grants := tl (heap_grants h)\<rparr>))"

definition dbuf_default_realloc :: "c_heap DynBufReallocFunc" where
  "dbuf_default_realloc opaque ptr n = c_realloc opaque ptr n"

section \<open>Operations\<close>

definition dbuf_init2 :: "'o \<Rightarrow> 'o DynBuf" where
  "dbuf_init2 opaque =
     \<lparr>db_buf = None, db_size = 0, db_allocated_size = 0, db_error = False, db_opaque = opaque\<rparr>"

definition dbuf_init :: "c_heap \<Rightarrow> c_heap DynBuf" where
  "dbuf_init h = dbuf_init2 h"

definition dbuf_realloc :: "'o DynBufReallocFunc \<Rightarrow> u64 \<Rightarrow> ('o, int) dop" where
  "dbuf_realloc R new_size s =
     (if new_size > db_allocated_size s
      then if db_error s then Some (- 1, s)
        else
          let sz = db_allocated_size s * 3 div 2;
              new_size = (if sz > new_size then sz else new_size)
          in case R (db_opaque s) (db_buf s) new_size of
               (None, q) \<Rightarrow> Some (- 1, s\<lparr>db_error := True, db_opaque := q\<rparr>)
             | (Some new_buf, q) \<Rightarrow>
                 Some (0, s\<lparr>db_buf := Some new_buf, db_allocated_size := new_size, db_opaque := q\<rparr>)
      else Some (0, s))"

text \<open>\<open>memcpy (s->buf + offset, data, len)\<close>\<close>

definition copy_in :: "nat \<Rightarrow> u8 list \<Rightarrow> ('o, unit) dop" where
  "copy_in offset data s =
     (case db_buf s of
        None \<Rightarrow> None
      | Some b \<Rightarrow>
          if offset + length data \<le> length b
          then Some ((), s\<lparr>db_buf := Some (take offset b @ data @ drop (offset + length data) b)\<rparr>)
          else None)"

definition memcpy_no_ub :: "nat \<Rightarrow> u8 list \<Rightarrow> ('o, unit) dop" where
  "memcpy_no_ub offset data s = (if data \<noteq> [] then copy_in offset data s else Some ((), s))"

definition dbuf_write :: "'o DynBufReallocFunc \<Rightarrow> u64 \<Rightarrow> u8 list \<Rightarrow> ('o, int) dop" where
  "dbuf_write R offset data s =
     do { let end = offset + of_nat (length data);
          (r, s) \<leftarrow> dbuf_realloc R end s;
          if r \<noteq> 0 then Some (- 1, s)
          else do { (_, s) \<leftarrow> copy_in (unat offset) data s;
                    Some (0, if end > db_size s then s\<lparr>db_size := end\<rparr> else s) } }"

definition dbuf_put :: "'o DynBufReallocFunc \<Rightarrow> u8 list \<Rightarrow> ('o, int) dop" where
  "dbuf_put R data s =
     do { let len = of_nat (length data);
          (r, s) \<leftarrow> (if db_size s + len > db_allocated_size s then dbuf_realloc R (db_size s + len) s
                     else Some (0, s));
          if r \<noteq> 0 then Some (- 1, s)
          else do { (_, s) \<leftarrow> memcpy_no_ub (unat (db_size s)) data s;
                    Some (0, s\<lparr>db_size := db_size s + len\<rparr>) } }"

text \<open>\<open>dbuf_put_self\<close> copies within the buffer with \<open>memcpy\<close>: the ranges must not overlap.\<close>

definition dbuf_put_self :: "'o DynBufReallocFunc \<Rightarrow> u64 \<Rightarrow> u64 \<Rightarrow> ('o, int) dop" where
  "dbuf_put_self R offset len s =
     do { (r, s) \<leftarrow> (if db_size s + len > db_allocated_size s then dbuf_realloc R (db_size s + len) s
                     else Some (0, s));
          if r \<noteq> 0 then Some (- 1, s)
          else (case db_buf s of
                  None \<Rightarrow> None
                | Some b \<Rightarrow>
                    if unat offset + unat len \<le> unat (db_size s) \<or> unat (db_size s) + unat len \<le> unat offset
                    then if unat offset + unat len \<le> length b
                      then do { (_, s) \<leftarrow> copy_in (unat (db_size s)) (take (unat len) (drop (unat offset) b)) s;
                                Some (0, s\<lparr>db_size := db_size s + len\<rparr>) }
                      else None
                    else None) }"

definition dbuf_putc :: "'o DynBufReallocFunc \<Rightarrow> u8 \<Rightarrow> ('o, int) dop" where
  "dbuf_putc R c s = dbuf_put R [c] s"

definition dbuf_putstr :: "'o DynBufReallocFunc \<Rightarrow> u8 list \<Rightarrow> ('o, int) dop" where
  "dbuf_putstr R str s = do { len \<leftarrow> strlen str; dbuf_put R (take len str) s }"

text \<open>
  \<open>dbuf_printf\<close>: \<open>vsnprintf\<close> formats to the text \<open>t\<close>, or fails (\<open>None\<close>); it also fails when the length is no \<open>int\<close>. A text that does not fit
  into the 128 bytes of the local array is formatted a second time, into the buffer itself, with its
  terminating zero.
\<close>

definition dbuf_printf :: "'o DynBufReallocFunc \<Rightarrow> u8 list option \<Rightarrow> ('o, int) dop" where
  "dbuf_printf R formatted s =
     (case formatted of
        None \<Rightarrow> Some (- 1, s)
      | Some t \<Rightarrow>
          if length t \<ge> 2 ^ 31 then Some (- 1, s)
          else if length t < 128 then dbuf_put R t s
          else do { let len = of_nat (length t);
                    (r, s) \<leftarrow> dbuf_realloc R (db_size s + len + 1) s;
                    if r \<noteq> 0 then Some (- 1, s)
                    else do { let room = unat (db_allocated_size s - db_size s);
                              (_, s) \<leftarrow> (if room = 0 then Some ((), s)
                                          else copy_in (unat (db_size s)) (take (room - 1) t @ [nul]) s);
                              Some (0, s\<lparr>db_size := db_size s + len\<rparr>) } })"

definition dbuf_put_u16 :: "'o DynBufReallocFunc \<Rightarrow> u16 \<Rightarrow> ('o, int) dop" where
  "dbuf_put_u16 R val s = dbuf_put R (le_bytes 2 val) s"

definition dbuf_put_u32 :: "'o DynBufReallocFunc \<Rightarrow> u32 \<Rightarrow> ('o, int) dop" where
  "dbuf_put_u32 R val s = dbuf_put R (le_bytes 4 val) s"

definition dbuf_put_u64 :: "'o DynBufReallocFunc \<Rightarrow> u64 \<Rightarrow> ('o, int) dop" where
  "dbuf_put_u64 R val s = dbuf_put R (le_bytes 8 val) s"

definition dbuf_free :: "'o DynBufReallocFunc \<Rightarrow> 'o DynBuf \<Rightarrow> 'o DynBuf" where
  "dbuf_free R s =
     (let q = (case db_buf s of None \<Rightarrow> db_opaque s | Some b \<Rightarrow> snd (R (db_opaque s) (Some b) 0))
      in \<lparr>db_buf = None, db_size = 0, db_allocated_size = 0, db_error = False, db_opaque = q\<rparr>)"

definition dbuf_error :: "'o DynBuf \<Rightarrow> bool" where
  "dbuf_error s = db_error s"

definition dbuf_set_error :: "'o DynBuf \<Rightarrow> 'o DynBuf" where
  "dbuf_set_error s = s\<lparr>db_error := True\<rparr>"

section \<open>Invariant and contents\<close>

definition dbuf_ok :: "'o DynBuf \<Rightarrow> bool" where
  "dbuf_ok s \<longleftrightarrow>
     db_size s \<le> db_allocated_size s \<and>
     (case db_buf s of None \<Rightarrow> db_allocated_size s = 0 | Some b \<Rightarrow> length b = unat (db_allocated_size s))"

definition contents :: "'o DynBuf \<Rightarrow> u8 list" where
  "contents s = (case db_buf s of None \<Rightarrow> [] | Some b \<Rightarrow> take (unat (db_size s)) b)"

lemma dbuf_ok_upd [simp]:
  "dbuf_ok (s\<lparr>db_error := e\<rparr>) = dbuf_ok s" "dbuf_ok (s\<lparr>db_opaque := q\<rparr>) = dbuf_ok s"
  "contents (s\<lparr>db_error := e\<rparr>) = contents s" "contents (s\<lparr>db_opaque := q\<rparr>) = contents s"
  by (auto simp: dbuf_ok_def contents_def split: option.split)

lemma contents_written [simp]:
  "contents (s\<lparr>db_buf := Some b, db_size := n\<rparr>) = take (unat n) b"
  by (simp add: contents_def)

lemma dbuf_ok_written:
  "length b = unat (db_allocated_size s) \<Longrightarrow> unat n \<le> length b \<Longrightarrow> dbuf_ok (s\<lparr>db_buf := Some b, db_size := n\<rparr>)"
  by (simp add: dbuf_ok_def word_le_nat_alt)

text \<open>Appending, the common part of \<open>dbuf_put\<close> and its relatives.\<close>

definition appended :: "u8 list \<Rightarrow> 'o DynBuf \<Rightarrow> int \<Rightarrow> 'o DynBuf \<Rightarrow> bool" where
  "appended data s r s' \<longleftrightarrow> dbuf_ok s' \<and> (db_error s \<longrightarrow> db_error s') \<and>
     (r = 0 \<and> contents s' = contents s @ data \<or> r = - 1 \<and> db_error s' \<and> contents s' = contents s)"

text \<open>What the buffer relies on: a successful \<open>realloc\<close> returns a block of the size asked for that
  begins with the bytes of the old one.\<close>

locale realloc_contract =
  fixes R :: "'o DynBufReallocFunc"
  assumes length_realloc: "n \<noteq> 0 \<Longrightarrow> R q p n = (Some b, q') \<Longrightarrow> length b = unat n"
    and keep_realloc: "n \<noteq> 0 \<Longrightarrow> R q (Some old) n = (Some b, q') \<Longrightarrow> length old \<le> unat n \<Longrightarrow>
      take (length old) b = old"
begin

lemma realloc_ok:
  assumes "dbuf_ok s"
  shows "ok (dbuf_realloc R n s) (\<lambda>r s'. dbuf_ok s' \<and> db_size s' = db_size s \<and> contents s' = contents s \<and>
    (db_error s \<longrightarrow> db_error s') \<and>
    (r = 0 \<and> n \<le> db_allocated_size s' \<or> r = - 1 \<and> db_error s' \<and> db_buf s' = db_buf s))"
proof (cases "db_allocated_size s < n \<and> \<not> db_error s")
  case False
  then show ?thesis
    using assms by (auto simp: dbuf_realloc_def not_less)
next
  case True
  define sz where "sz = (if db_allocated_size s * 3 div 2 > n then db_allocated_size s * 3 div 2 else n)"
  have "n \<le> sz"
    by (auto simp: sz_def)
  moreover from this True have "db_allocated_size s < sz"
    by (meson less_le_trans)
  ultimately have sz: "n \<le> sz" "db_allocated_size s < sz" "sz \<noteq> 0"
    by auto
  show ?thesis
  proof (cases "R (db_opaque s) (db_buf s) sz")
    case (Pair p q)
    show ?thesis
    proof (cases p)
      case None
      with Pair True assms show ?thesis
        by (auto simp: dbuf_realloc_def Let_def simp flip: sz_def)
    next
      case (Some b)
      have len: "length b = unat sz"
        using length_realloc [OF sz(3)] Pair Some by simp
      have le: "unat (db_allocated_size s) \<le> unat sz" "unat (db_size s) \<le> unat (db_allocated_size s)"
        using sz(2) assms by (auto simp: dbuf_ok_def word_le_nat_alt word_less_nat_alt)
      have "take (unat (db_size s)) b = contents s"
      proof (cases "db_buf s")
        case None
        then have "db_size s = 0"
          using assms by (auto simp: dbuf_ok_def)
        with None show ?thesis
          by (simp add: contents_def)
      next
        case (Some old)
        then have "length old = unat (db_allocated_size s)"
          using assms by (simp add: dbuf_ok_def)
        moreover from this have "take (length old) b = old"
          using keep_realloc [OF sz(3), of "db_opaque s" old b q] Pair Some \<open>p = Some b\<close> le by simp
        ultimately have "take (unat (db_size s)) b = take (unat (db_size s)) old"
          using le by (metis min.absorb1 take_take)
        with Some show ?thesis
          by (simp add: contents_def)
      qed
      with True Pair Some len sz le show ?thesis
        by (auto simp: dbuf_realloc_def Let_def dbuf_ok_def contents_def word_le_nat_alt simp flip: sz_def)
    qed
  qed
qed

lemma copy_in_ok:
  assumes "dbuf_ok s" and "db_buf s \<noteq> None" and "offset + length data \<le> unat (db_allocated_size s)"
  shows "ok (copy_in offset data s) (\<lambda>_ s'. \<exists>b. db_buf s = Some b \<and>
    s' = s\<lparr>db_buf := Some (take offset b @ data @ drop (offset + length data) b)\<rparr> \<and> dbuf_ok s')"
  using assms by (auto simp: copy_in_def dbuf_ok_def)

lemma reserve_ok:
  assumes "dbuf_ok s"
  shows "ok (if db_size s + n > db_allocated_size s then dbuf_realloc R (db_size s + n) s else Some (0, s))
    (\<lambda>r s'. dbuf_ok s' \<and> db_size s' = db_size s \<and> contents s' = contents s \<and>
    (db_error s \<longrightarrow> db_error s') \<and>
    (r = 0 \<and> db_size s + n \<le> db_allocated_size s' \<or> r = - 1 \<and> db_error s'))"
proof (cases "db_size s + n > db_allocated_size s")
  case True
  show ?thesis
    unfolding if_P [OF True] by (rule ok_mono [OF realloc_ok [OF assms]]) auto
next
  case False
  then show ?thesis
    unfolding if_not_P [OF False] using assms by (simp add: not_less)
qed

lemma append_step:
  assumes ok: "dbuf_ok s" and fit: "unat (db_size s) + length data < 2 ^ 64"
    and room: "db_size s + of_nat (length data) \<le> db_allocated_size s"
  shows "ok (do { (_, s) \<leftarrow> memcpy_no_ub (unat (db_size s)) data s;
                  Some (0, s\<lparr>db_size := db_size s + of_nat (length data)\<rparr>) })
    (\<lambda>r s'. r = 0 \<and> dbuf_ok s' \<and> contents s' = contents s @ data \<and> db_error s' = db_error s)"
proof (cases "data = []")
  case True
  then show ?thesis
    using ok by (simp add: memcpy_no_ub_def)
next
  case False
  have len: "unat (db_size s + of_nat (length data)) = unat (db_size s) + length data"
    using fit by (simp add: unat_word_ariths unat_of_nat mod_add_right_eq)
  have room': "unat (db_size s) + length data \<le> unat (db_allocated_size s)"
    using room unfolding word_le_nat_alt len .
  then obtain b where b: "db_buf s = Some b" "length b = unat (db_allocated_size s)"
    using ok False by (cases "db_buf s") (auto simp: dbuf_ok_def)
  show ?thesis
    using False b room' room
    by (simp add: memcpy_no_ub_def copy_in_def contents_def dbuf_ok_def len)
qed

lemma put_ok:
  assumes ok: "dbuf_ok s" and fit: "unat (db_size s) + length data < 2 ^ 64"
  shows "ok (dbuf_put R data s) (appended data s)"
  unfolding dbuf_put_def Let_def ok_bind
proof (rule ok_mono [OF reserve_ok [OF ok, of "of_nat (length data)"]], clarify)
  fix r :: int and s' :: "'o DynBuf"
  assume s': "dbuf_ok s'" "db_size s' = db_size s" "contents s' = contents s" "db_error s \<longrightarrow> db_error s'"
    "r = 0 \<and> db_size s + of_nat (length data) \<le> db_allocated_size s' \<or> r = - 1 \<and> db_error s'"
  show "ok (if r \<noteq> 0 then Some (- 1, s')
        else do { (_, s) \<leftarrow> memcpy_no_ub (unat (db_size s')) data s';
                  Some (0, s\<lparr>db_size := db_size s + of_nat (length data)\<rparr>) }) (appended data s)"
  proof (cases "r = 0")
    case True
    show ?thesis
      unfolding True simp_thms if_False
      by (rule ok_mono [OF append_step [OF s'(1)]]) (use s' fit True in \<open>auto simp: appended_def\<close>)
  qed (use s' in \<open>auto simp: appended_def\<close>)
qed

lemma putstr_ok:
  assumes "dbuf_ok s" and "terminated str" and "unat (db_size s) + length (cstr str) < 2 ^ 64"
  shows "ok (dbuf_putstr R str s) (appended (cstr str) s)"
proof -
  have "take (length (cstr str)) str = cstr str"
    using terminated_split [OF assms(2)] by (metis append_eq_conv_conj)
  then show ?thesis
    using put_ok [OF assms(1,3)] by (simp add: dbuf_putstr_def strlen_cstr [OF assms(2)])
qed

lemma unat_plus [simp]:
  "unat (x :: u64) + n < 2 ^ 64 \<Longrightarrow> unat (x + of_nat n) = unat x + n"
  by (simp add: unat_word_ariths unat_of_nat mod_add_right_eq)

lemma write_ok:
  assumes ok: "dbuf_ok s" and fit: "unat offset + length data < 2 ^ 64"
    and inside: "offset \<le> db_size s" and data: "data \<noteq> []"
  shows "ok (dbuf_write R offset data s) (\<lambda>r s'. dbuf_ok s' \<and> (db_error s \<longrightarrow> db_error s') \<and>
    (r = 0 \<and> contents s' = take (unat offset) (contents s) @ data @
                 drop (unat offset + length data) (contents s) \<or>
     r = - 1 \<and> db_error s' \<and> contents s' = contents s))"
  unfolding dbuf_write_def Let_def ok_bind
proof (rule ok_mono [OF realloc_ok [OF ok, of "offset + of_nat (length data)"]], clarify)
  fix r :: int and s' :: "'o DynBuf"
  assume s': "dbuf_ok s'" "db_size s' = db_size s" "contents s' = contents s" "db_error s \<longrightarrow> db_error s'"
    "r = 0 \<and> offset + of_nat (length data) \<le> db_allocated_size s' \<or> r = - 1 \<and> db_error s' \<and> db_buf s' = db_buf s"
  let ?e = "unat offset + length data"
  show "ok (if r \<noteq> 0 then Some (- 1, s')
        else do { (_, s) \<leftarrow> copy_in (unat offset) data s';
                  Some (0, if offset + of_nat (length data) > db_size s
                           then s\<lparr>db_size := offset + of_nat (length data)\<rparr> else s) })
    (\<lambda>r s'. dbuf_ok s' \<and> (db_error s \<longrightarrow> db_error s') \<and>
    (r = 0 \<and> contents s' = take (unat offset) (contents s) @ data @ drop ?e (contents s) \<or>
     r = - 1 \<and> db_error s' \<and> contents s' = contents s))"
  proof (cases "r = 0")
    case True
    have room: "?e \<le> unat (db_allocated_size s')"
      using s'(5) True fit by (auto simp: word_le_nat_alt)
    then obtain b where b: "db_buf s' = Some b" "length b = unat (db_allocated_size s')"
      using s'(1) data by (cases "db_buf s'") (auto simp: dbuf_ok_def)
    have sz: "unat (db_size s) \<le> length b" "unat offset \<le> unat (db_size s)"
      using s'(1,2) b inside by (auto simp: dbuf_ok_def word_le_nat_alt)
    have c: "contents s = take (unat (db_size s)) b"
      using s'(2,3) b by (simp add: contents_def)
    have "take (unat (db_size s)) (take (unat offset) b @ data @ drop ?e b) =
        take (unat offset) (contents s) @ data @ drop ?e (contents s)" if "?e \<le> unat (db_size s)"
    proof -
      have "0 < length data"
        using data by simp
      with that have "\<not> unat (db_size s) \<le> unat offset" "length data \<le> unat (db_size s) - unat offset"
        by linarith+
      with that sz show ?thesis
        by (simp add: c take_drop min_def)
    qed
    moreover have "take ?e (take (unat offset) b @ data @ drop ?e b) =
        take (unat offset) (contents s) @ data @ drop ?e (contents s)" if "\<not> ?e \<le> unat (db_size s)"
      using that sz b room by (simp add: c min_def)
    ultimately show ?thesis
      using True b room sz fit s'
      by (auto simp: copy_in_def contents_def dbuf_ok_def word_le_nat_alt word_less_nat_alt)
  qed (use s' in \<open>auto simp: appended_def\<close>)
qed

lemma put_self_ok:
  assumes ok: "dbuf_ok s" and fit: "unat (db_size s) + unat len < 2 ^ 64"
    and inside: "unat offset + unat len \<le> unat (db_size s)" and len: "len \<noteq> 0"
  shows "ok (dbuf_put_self R offset len s) (appended (take (unat len) (drop (unat offset) (contents s))) s)"
  unfolding dbuf_put_self_def ok_bind
proof (rule ok_mono [OF reserve_ok [OF ok]], clarify)
  fix r :: int and s' :: "'o DynBuf"
  assume s': "dbuf_ok s'" "db_size s' = db_size s" "contents s' = contents s" "db_error s \<longrightarrow> db_error s'"
    "r = 0 \<and> db_size s + len \<le> db_allocated_size s' \<or> r = - 1 \<and> db_error s'"
  let ?n = "unat (db_size s)" and ?d = "take (unat len) (drop (unat offset) (contents s))"
  show "ok (if r \<noteq> 0 then Some (- 1, s')
        else case db_buf s' of None \<Rightarrow> None
             | Some b \<Rightarrow>
                 if unat offset + unat len \<le> unat (db_size s') \<or> unat (db_size s') + unat len \<le> unat offset
                 then if unat offset + unat len \<le> length b
                   then do { (_, s) \<leftarrow> copy_in (unat (db_size s')) (take (unat len) (drop (unat offset) b)) s';
                             Some (0, s\<lparr>db_size := db_size s + len\<rparr>) }
                   else None
                 else None) (appended ?d s)"
  proof (cases "r = 0")
    case True
    have sum: "unat (db_size s + len) = ?n + unat len"
      using fit by (simp add: unat_word_ariths)
    have room: "?n + unat len \<le> unat (db_allocated_size s')"
      using s'(5) True unfolding word_le_nat_alt sum by simp
    moreover have "0 < unat len"
      using len by (simp add: unat_gt_0)
    ultimately obtain b where b: "db_buf s' = Some b" "length b = unat (db_allocated_size s')"
      using s'(1) by (cases "db_buf s'") (auto simp: dbuf_ok_def)
    have c: "contents s = take ?n b"
      using s'(2,3) b by (simp add: contents_def)
    have d: "take (unat len) (drop (unat offset) b) = ?d" "length ?d = unat len"
      using inside room b by (simp_all add: c take_drop min_def)
    have "copy_in ?n ?d s' = Some ((), s'\<lparr>db_buf := Some (take ?n b @ ?d @ drop (?n + unat len) b)\<rparr>)"
      using room b d(2) by (simp add: copy_in_def)
    moreover define s2 where "s2 = s'\<lparr>db_buf := Some (take ?n b @ ?d @ drop (?n + unat len) b),
        db_size := db_size s + len\<rparr>"
    moreover have "dbuf_ok s2"
      unfolding s2_def using room b d(2) by (intro dbuf_ok_written) (auto simp: sum)
    moreover have "contents s2 = contents s @ ?d"
      using room b d(2) by (simp add: s2_def sum c)
    ultimately show ?thesis
      using True b d s'(2,4) room inside by (auto simp: appended_def)
  qed (use s' in \<open>auto simp: appended_def\<close>)
qed

lemma printf_ok:
  assumes ok: "dbuf_ok s" and fit: "unat (db_size s) + length t + 1 < 2 ^ 64" and int: "length t < 2 ^ 31"
  shows "ok (dbuf_printf R (Some t) s) (appended t s)"
proof (cases "length t < 128")
  case True
  then show ?thesis
    using put_ok [OF ok, of t] fit by (simp add: dbuf_printf_def)
next
  case False
  let ?n = "unat (db_size s)"
  have sum: "unat (db_size s + of_nat (length t) + 1) = ?n + length t + 1"
    "unat (db_size s + of_nat (length t)) = ?n + length t"
    using fit by (simp_all add: unat_word_ariths unat_of_nat mod_add_left_eq mod_add_right_eq mod_Suc_eq)
  have small: "\<not> 2 ^ 31 \<le> length t"
    using int by simp
  show ?thesis
    unfolding dbuf_printf_def option.case if_not_P [OF small] if_not_P [OF False] Let_def ok_bind
  proof (rule ok_mono [OF realloc_ok [OF ok]], clarify)
    fix r :: int and s' :: "'o DynBuf"
    assume s': "dbuf_ok s'" "db_size s' = db_size s" "contents s' = contents s" "db_error s \<longrightarrow> db_error s'"
      "r = 0 \<and> db_size s + of_nat (length t) + 1 \<le> db_allocated_size s' \<or>
       r = - 1 \<and> db_error s' \<and> db_buf s' = db_buf s"
    show "ok (if r \<noteq> 0 then Some (- 1, s')
          else do { (_, s) \<leftarrow> (if unat (db_allocated_size s' - db_size s') = 0 then Some ((), s')
                               else copy_in (unat (db_size s'))
                                      (take (unat (db_allocated_size s' - db_size s') - 1) t @ [nul]) s');
                    Some (0, s\<lparr>db_size := db_size s + of_nat (length t)\<rparr>) }) (appended t s)"
    proof (cases "r = 0")
      case True
      have room: "?n + length t + 1 \<le> unat (db_allocated_size s')"
        using s'(5) True unfolding word_le_nat_alt sum by simp
      then obtain b where b: "db_buf s' = Some b" "length b = unat (db_allocated_size s')"
        using s'(1) by (cases "db_buf s'") (auto simp: dbuf_ok_def)
      have c: "contents s = take ?n b"
        using s'(2,3) b by (simp add: contents_def)
      have "unat (db_allocated_size s' - db_size s') = unat (db_allocated_size s') - ?n"
        using s'(1,2) by (simp add: dbuf_ok_def unat_sub)
      moreover from room have "take (unat (db_allocated_size s') - ?n - 1) t = t"
        by simp
      moreover have "copy_in ?n (t @ [nul]) s' =
          Some ((), s'\<lparr>db_buf := Some (take ?n b @ (t @ [nul]) @ drop (?n + length t + 1) b)\<rparr>)"
        using room b by (simp add: copy_in_def)
      moreover define s2 where "s2 = s'\<lparr>db_buf := Some (take ?n b @ (t @ [nul]) @ drop (?n + length t + 1) b),
          db_size := db_size s + of_nat (length t)\<rparr>"
      moreover have "dbuf_ok s2"
        unfolding s2_def using room b by (intro dbuf_ok_written) (auto simp: sum)
      moreover have "contents s2 = contents s @ t"
        using room b by (simp add: s2_def sum c)
      ultimately show ?thesis
        using True s'(2,4) room by (auto simp: appended_def)
    qed (use s' in \<open>auto simp: appended_def\<close>)
  qed
qed

end

section \<open>A buffer as a machine\<close>

datatype dbuf_call =
    Put "u8 list"
  | PutC u8
  | PutStr "u8 list"
  | PutU16 u16
  | PutU32 u32
  | PutU64 u64
  | PutSelf u64 u64
  | Write u64 "u8 list"
  | Printf "u8 list"

fun dbuf_step :: "'o DynBufReallocFunc \<Rightarrow> dbuf_call \<Rightarrow> ('o, int) dop" where
  "dbuf_step R (Put data) s = dbuf_put R data s"
| "dbuf_step R (PutC c) s = dbuf_putc R c s"
| "dbuf_step R (PutStr str) s = dbuf_putstr R str s"
| "dbuf_step R (PutU16 v) s = dbuf_put_u16 R v s"
| "dbuf_step R (PutU32 v) s = dbuf_put_u32 R v s"
| "dbuf_step R (PutU64 v) s = dbuf_put_u64 R v s"
| "dbuf_step R (PutSelf offset len) s = dbuf_put_self R offset len s"
| "dbuf_step R (Write offset data) s = dbuf_write R offset data s"
| "dbuf_step R (Printf t) s = dbuf_printf R (Some t) s"

text \<open>
  The calls for which the C code is defined: sizes do not wrap, a self copy and an overwrite start
  inside the contents and are not empty, strings are terminated, the length of a formatted text is an \<open>int\<close>.
\<close>

fun dbuf_allowed :: "'o DynBuf \<Rightarrow> dbuf_call \<Rightarrow> bool" where
  "dbuf_allowed s (Put data) \<longleftrightarrow> length (contents s) + length data < 2 ^ 64"
| "dbuf_allowed s (PutC c) \<longleftrightarrow> length (contents s) + 1 < 2 ^ 64"
| "dbuf_allowed s (PutStr str) \<longleftrightarrow> terminated str \<and> length (contents s) + length (cstr str) < 2 ^ 64"
| "dbuf_allowed s (PutU16 v) \<longleftrightarrow> length (contents s) + 2 < 2 ^ 64"
| "dbuf_allowed s (PutU32 v) \<longleftrightarrow> length (contents s) + 4 < 2 ^ 64"
| "dbuf_allowed s (PutU64 v) \<longleftrightarrow> length (contents s) + 8 < 2 ^ 64"
| "dbuf_allowed s (PutSelf offset len) \<longleftrightarrow>
     len \<noteq> 0 \<and> unat offset + unat len \<le> length (contents s) \<and> length (contents s) + unat len < 2 ^ 64"
| "dbuf_allowed s (Write offset data) \<longleftrightarrow>
     data \<noteq> [] \<and> unat offset \<le> length (contents s) \<and> unat offset + length data < 2 ^ 64"
| "dbuf_allowed s (Printf t) \<longleftrightarrow> length (contents s) + length t + 1 < 2 ^ 64 \<and> length t < 2 ^ 31"

text \<open>What each call does to the contents.\<close>

fun dbuf_spec :: "dbuf_call \<Rightarrow> u8 list \<Rightarrow> u8 list" where
  "dbuf_spec (Put data) c = c @ data"
| "dbuf_spec (PutC b) c = c @ [b]"
| "dbuf_spec (PutStr str) c = c @ cstr str"
| "dbuf_spec (PutU16 v) c = c @ le_bytes 2 v"
| "dbuf_spec (PutU32 v) c = c @ le_bytes 4 v"
| "dbuf_spec (PutU64 v) c = c @ le_bytes 8 v"
| "dbuf_spec (PutSelf offset len) c = c @ take (unat len) (drop (unat offset) c)"
| "dbuf_spec (Write offset data) c = take (unat offset) c @ data @ drop (unat offset + length data) c"
| "dbuf_spec (Printf t) c = c @ t"

lemma length_contents: "dbuf_ok s \<Longrightarrow> length (contents s) = unat (db_size s)"
  by (auto simp: dbuf_ok_def contents_def word_le_nat_alt split: option.splits)

text \<open>The outcome of a call: the invariant holds; either it succeeded and the contents changed as
  specified, or it failed, the failure is recorded and the contents are unchanged.\<close>

definition dbuf_post :: "dbuf_call \<Rightarrow> 'o DynBuf \<Rightarrow> int \<Rightarrow> 'o DynBuf \<Rightarrow> bool" where
  "dbuf_post c s r s' \<longleftrightarrow> dbuf_ok s' \<and> (db_error s \<longrightarrow> db_error s') \<and>
     (r = 0 \<and> contents s' = dbuf_spec c (contents s) \<or> r = - 1 \<and> db_error s' \<and> contents s' = contents s)"

lemma appended_post:
  "ok m (appended d s) \<Longrightarrow> dbuf_spec c (contents s) = contents s @ d \<Longrightarrow> ok m (dbuf_post c s)"
  by (erule ok_mono) (auto simp: appended_def dbuf_post_def)

context realloc_contract
begin

lemma dbuf_step_ok:
  assumes "dbuf_ok s" and "dbuf_allowed s c"
  shows "ok (dbuf_step R c s) (dbuf_post c s)"
proof -
  note len = length_contents [OF assms(1)]
  show ?thesis
  proof (cases c)
    case (PutSelf offset l)
    with assms len show ?thesis
      by (simp add: appended_post [OF put_self_ok])
  next
    case (Write offset data)
    have "ok (dbuf_write R offset data s) (\<lambda>r s'. dbuf_ok s' \<and> (db_error s \<longrightarrow> db_error s') \<and>
      (r = 0 \<and> contents s' = take (unat offset) (contents s) @ data @
                 drop (unat offset + length data) (contents s) \<or>
       r = - 1 \<and> db_error s' \<and> contents s' = contents s))"
      using assms Write len by (intro write_ok) (auto simp: word_le_nat_alt)
    then show ?thesis
      unfolding Write dbuf_step.simps by (rule ok_mono) (auto simp: dbuf_post_def)
  qed (use assms len in \<open>auto intro!: appended_post [OF put_ok] appended_post [OF putstr_ok]
         appended_post [OF printf_ok] simp: dbuf_putc_def dbuf_put_u16_def dbuf_put_u32_def dbuf_put_u64_def\<close>)
qed

end

sublocale realloc_contract \<subseteq> dbuf: refining_machine "dbuf_step R" dbuf_allowed dbuf_ok db_error contents dbuf_spec
proof
  show "ok (dbuf_step R c s) (\<lambda>_. dbuf_ok)" if "dbuf_ok s" "dbuf_allowed s c" for s c
    by (rule ok_mono [OF dbuf_step_ok [OF that]]) (simp add: dbuf_post_def)
  show "(db_error s \<longrightarrow> db_error s') \<and> (\<not> db_error s' \<longrightarrow> contents s' = dbuf_spec c (contents s))"
    if "dbuf_ok s" "dbuf_allowed s c" "dbuf_step R c s = Some (r, s')" for s c r s'
    using dbuf_step_ok [OF that(1,2)] that(3) by (auto simp: dbuf_post_def)
qed

interpretation libc: realloc_contract dbuf_default_realloc
  by unfold_locales (auto simp: dbuf_default_realloc_def c_realloc_def Let_def split: if_splits list.splits bool.splits option.splits)

section \<open>Guarantees\<close>

lemma dbuf_ok_init: "dbuf_ok (dbuf_init h)" "contents (dbuf_init h) = []" "\<not> db_error (dbuf_init h)"
  by (simp_all add: dbuf_init_def dbuf_init2_def dbuf_ok_def contents_def)

text \<open>
  C11. A dynamic buffer refines a byte list: every sequence of defined calls on a fresh buffer returns without
  leaving the allocated block, and if no allocation failed the contents are the result of the corresponding
  list operations.
\<close>

theorem dbuf_sequence_refines:
  assumes "legal dbuf_allowed (dbuf_step dbuf_default_realloc) cs (dbuf_init h)"
  shows "\<exists>rs s'. trace (dbuf_step dbuf_default_realloc) cs (dbuf_init h) = Some (rs, s') \<and> dbuf_ok s' \<and>
    (\<not> db_error s' \<longrightarrow> contents s' = fold dbuf_spec cs [])"
  using libc.dbuf.trace_refines [OF dbuf_ok_init(1) assms] by (auto simp: ok_def dbuf_ok_init)

theorem dbuf_sequence_refines_witness:
  "\<exists>rs s'. trace (dbuf_step dbuf_default_realloc) [PutC 65, PutSelf 0 1]
     (dbuf_init \<lparr>heap_grants = [True, True], heap_fill = \<lambda>_. 0\<rparr>) = Some (rs, s') \<and> dbuf_ok s' \<and>
    (\<not> db_error s' \<longrightarrow> contents s' = [65, 65])"
proof -
  have "legal dbuf_allowed (dbuf_step dbuf_default_realloc) [PutC 65, PutSelf 0 1]
     (dbuf_init \<lparr>heap_grants = [True, True], heap_fill = \<lambda>_. 0\<rparr>)"
    by (simp add: dbuf_init_def dbuf_init2_def contents_def dbuf_putc_def dbuf_put_def dbuf_realloc_def
      dbuf_default_realloc_def c_realloc_def memcpy_no_ub_def copy_in_def split: option.split)
  from dbuf_sequence_refines [OF this] show ?thesis
    by simp
qed

text \<open>
  Outcome of one call, under any reallocation function that keeps the bytes of the old block: a defined
  call returns 0 and changes the contents as specified, or returns -1, records the error and leaves the
  contents as they were; an error once recorded stays.
\<close>

theorem dbuf_call_outcome:
  assumes "realloc_contract R" and "dbuf_ok s" and "dbuf_allowed s c"
  shows "\<exists>r s'. dbuf_step R c s = Some (r, s') \<and> dbuf_ok s' \<and> (db_error s \<longrightarrow> db_error s') \<and>
    (r = 0 \<and> contents s' = dbuf_spec c (contents s) \<or> r = - 1 \<and> db_error s' \<and> contents s' = contents s)"
  using realloc_contract.dbuf_step_ok [OF assms] by (auto simp: ok_def dbuf_post_def)

theorem dbuf_call_outcome_witness:
  "\<exists>r s'. dbuf_step dbuf_default_realloc (PutU16 0x1234) (dbuf_init \<lparr>heap_grants = [], heap_fill = \<lambda>_. 0\<rparr>) =
    Some (r, s') \<and> dbuf_ok s'"
  using dbuf_call_outcome [OF libc.realloc_contract_axioms dbuf_ok_init(1)
      [of "\<lparr>heap_grants = [], heap_fill = \<lambda>_. 0\<rparr>"], of "PutU16 0x1234"]
  by (auto simp: dbuf_ok_init)

text \<open>
  \<open>dbuf_free\<close> leaves a fresh, valid, empty buffer, and calling it a second time changes nothing.
\<close>

theorem dbuf_free_twice:
  "dbuf_ok (dbuf_free R s) \<and> contents (dbuf_free R s) = [] \<and> dbuf_free R (dbuf_free R s) = dbuf_free R s"
  by (simp add: dbuf_free_def Let_def dbuf_ok_def contents_def)


end
