(* ===== verification/Exchange.thy ===== *)
theory Exchange
  imports Prelude
begin

text \<open>
  The exchange functions of the sorting routine (cutils.c, \<open>exchange_bytes\<close> to \<open>exchange_func\<close>). Memory is
  the list of its bytes and an address is an index of the list. Each function moves units of a fixed width;
  an access that is not aligned or not inside the memory is \<open>None\<close>.
\<close>

unbundle bit_operations_syntax

section \<open>Blocks of bytes\<close>

type_synonym mem = "u8 list"

definition bytes_at :: "nat \<Rightarrow> nat \<Rightarrow> mem \<Rightarrow> u8 list" where
  "bytes_at a n mem = take n (drop a mem)"

definition put_at :: "nat \<Rightarrow> u8 list \<Rightarrow> mem \<Rightarrow> mem" where
  "put_at a bs mem = take a mem @ bs @ drop (a + length bs) mem"

definition load_unit :: "nat \<Rightarrow> nat \<Rightarrow> mem \<Rightarrow> u8 list option" where
  "load_unit w a mem = (if a mod w = 0 \<and> a + w \<le> length mem then Some (bytes_at a w mem) else None)"

definition store_unit :: "nat \<Rightarrow> nat \<Rightarrow> u8 list \<Rightarrow> mem \<Rightarrow> mem option" where
  "store_unit w a v mem = (if a mod w = 0 \<and> a + w \<le> length mem then Some (put_at a v mem) else None)"

section \<open>The exchange functions\<close>

text \<open>\<open>t = *ap; *ap = *bp; *bp = t\<close>, for a type of \<open>w\<close> bytes.\<close>

definition exchange_one :: "nat \<Rightarrow> mem \<Rightarrow> nat \<Rightarrow> nat \<Rightarrow> mem option" where
  "exchange_one w mem ap bp =
     do { t \<leftarrow> load_unit w ap mem;
          v \<leftarrow> load_unit w bp mem;
          mem \<leftarrow> store_unit w ap v mem;
          store_unit w bp t mem }"

fun exchange_loop :: "nat \<Rightarrow> nat \<Rightarrow> mem \<Rightarrow> nat \<Rightarrow> nat \<Rightarrow> mem option" where
  "exchange_loop w 0 mem ap bp = Some mem"
| "exchange_loop w (Suc n) mem ap bp =
     do { mem \<leftarrow> exchange_one w mem ap bp; exchange_loop w n mem (ap + w) (bp + w) }"

type_synonym exchange_f = "mem \<Rightarrow> nat \<Rightarrow> nat \<Rightarrow> nat \<Rightarrow> mem option"

definition exchange_bytes :: exchange_f where
  "exchange_bytes mem a b sz = exchange_loop 1 sz mem a b"

definition exchange_one_byte :: exchange_f where
  "exchange_one_byte mem a b sz = exchange_one 1 mem a b"

definition exchange_int16s :: exchange_f where
  "exchange_int16s mem a b sz = exchange_loop 2 (sz div 2) mem a b"

definition exchange_one_int16 :: exchange_f where
  "exchange_one_int16 mem a b sz = exchange_one 2 mem a b"

definition exchange_int32s :: exchange_f where
  "exchange_int32s mem a b sz = exchange_loop 4 (sz div 4) mem a b"

definition exchange_one_int32 :: exchange_f where
  "exchange_one_int32 mem a b sz = exchange_one 4 mem a b"

definition exchange_int64s :: exchange_f where
  "exchange_int64s mem a b sz = exchange_loop 8 (sz div 8) mem a b"

definition exchange_one_int64 :: exchange_f where
  "exchange_one_int64 mem a b sz = exchange_one 8 mem a b"

text \<open>Two 64-bit words at once: both words of \<open>a\<close> are saved before any is overwritten.\<close>

definition exchange_one_int128 :: exchange_f where
  "exchange_one_int128 mem ap bp sz =
     do { t \<leftarrow> load_unit 8 ap mem;
          u \<leftarrow> load_unit 8 (ap + 8) mem;
          v \<leftarrow> load_unit 8 bp mem;
          mem \<leftarrow> store_unit 8 ap v mem;
          v \<leftarrow> load_unit 8 (bp + 8) mem;
          mem \<leftarrow> store_unit 8 (ap + 8) v mem;
          mem \<leftarrow> store_unit 8 bp t mem;
          store_unit 8 (bp + 8) u mem }"

fun exchange_int128s_loop :: "nat \<Rightarrow> mem \<Rightarrow> nat \<Rightarrow> nat \<Rightarrow> mem option" where
  "exchange_int128s_loop 0 mem ap bp = Some mem"
| "exchange_int128s_loop (Suc n) mem ap bp =
     do { mem \<leftarrow> exchange_one_int128 mem ap bp 16; exchange_int128s_loop n mem (ap + 16) (bp + 16) }"

definition exchange_int128s :: exchange_f where
  "exchange_int128s mem a b sz = exchange_int128s_loop (sz div 16) mem a b"

definition exchange_func :: "nat \<Rightarrow> nat \<Rightarrow> exchange_f" where
  "exchange_func base sz =
     (let k = (base OR sz) AND 15
      in if k = 0 then (if sz = 16 then exchange_one_int128 else exchange_int128s)
         else if k = 8 then (if sz = 8 then exchange_one_int64 else exchange_int64s)
         else if k = 4 \<or> k = 12 then (if sz = 4 then exchange_one_int32 else exchange_int32s)
         else if k = 2 \<or> k = 6 \<or> k = 10 \<or> k = 14 then (if sz = 2 then exchange_one_int16 else exchange_int16s)
         else (if sz = 1 then exchange_one_byte else exchange_bytes))"

section \<open>What they do\<close>

text \<open>The memory with two blocks of \<open>n\<close> bytes exchanged.\<close>

definition exchanged :: "nat \<Rightarrow> nat \<Rightarrow> nat \<Rightarrow> mem \<Rightarrow> mem" where
  "exchanged a b n mem = put_at b (bytes_at a n mem) (put_at a (bytes_at b n mem) mem)"

text \<open>Two blocks that are the same or do not overlap, inside the memory.\<close>

definition apart :: "nat \<Rightarrow> nat \<Rightarrow> nat \<Rightarrow> mem \<Rightarrow> bool" where
  "apart a b n mem \<longleftrightarrow> (a = b \<or> a + n \<le> b \<or> b + n \<le> a) \<and> a + n \<le> length mem \<and> b + n \<le> length mem"

named_theorems block_simps \<open>lengths and elements of memories after a block is written\<close>

lemma length_bytes_at [block_simps]: "a + n \<le> length mem \<Longrightarrow> length (bytes_at a n mem) = n"
  by (simp add: bytes_at_def)

lemma length_put_at [block_simps]: "a + length bs \<le> length mem \<Longrightarrow> length (put_at a bs mem) = length mem"
  by (simp add: put_at_def)

lemma bytes_at_nth [block_simps]: "a + n \<le> length mem \<Longrightarrow> k < n \<Longrightarrow> bytes_at a n mem ! k = mem ! (a + k)"
  by (simp add: bytes_at_def)

lemma put_at_nth [block_simps]:
  assumes "a + length bs \<le> length mem"
  shows "put_at a bs mem ! k = (if a \<le> k \<and> k < a + length bs then bs ! (k - a) else mem ! k)"
  using assms by (auto simp: put_at_def nth_append)

lemma length_exchanged [block_simps]: "apart a b n mem \<Longrightarrow> length (exchanged a b n mem) = length mem"
  by (auto simp: exchanged_def apart_def block_simps)

lemma exchanged_nth [block_simps]:
  assumes "apart a b n mem"
  shows "exchanged a b n mem ! k =
    (if a \<le> k \<and> k < a + n then mem ! (b + (k - a))
     else if b \<le> k \<and> k < b + n then mem ! (a + (k - b)) else mem ! k)"
  using assms by (auto simp: exchanged_def apart_def block_simps)

lemma exchange_one_ok:
  assumes "apart a b w mem" and "w dvd a" and "w dvd b"
  shows "exchange_one w mem a b = Some (exchanged a b w mem)"
  using assms by (auto simp: exchange_one_def load_unit_def store_unit_def apart_def exchanged_def block_simps)

text \<open>Where the byte at \<open>k\<close> comes from.\<close>

definition origin :: "nat \<Rightarrow> nat \<Rightarrow> nat \<Rightarrow> nat \<Rightarrow> nat" where
  "origin a b n k = (if a \<le> k \<and> k < a + n then b + (k - a) else if b \<le> k \<and> k < b + n then a + (k - b) else k)"

lemma exchanged_origin: "apart a b n mem \<Longrightarrow> exchanged a b n mem ! k = mem ! origin a b n k"
  by (simp add: exchanged_nth origin_def)

lemma origin_same [simp]: "origin a a n k = k"
  by (simp add: origin_def)

lemma origin_sym: "a + n \<le> b \<Longrightarrow> origin b a n k = origin a b n k"
  by (simp add: origin_def)

lemma origin_append_below:
  assumes "a + (m + n) \<le> b"
  shows "origin a b m (origin (a + m) (b + m) n k) = origin a b (m + n) k"
proof -
  consider "k < a" | "a \<le> k" "k < a + m" | "a + m \<le> k" "k < a + m + n" | "a + m + n \<le> k" "k < b"
    | "b \<le> k" "k < b + m" | "b + m \<le> k" "k < b + m + n" | "b + m + n \<le> k"
    by linarith
  then show ?thesis
    using assms by cases (simp_all add: origin_def, arith+)
qed

lemma origin_append:
  assumes "a = b \<or> a + (m + n) \<le> b \<or> b + (m + n) \<le> a"
  shows "origin a b m (origin (a + m) (b + m) n k) = origin a b (m + n) k"
  using assms origin_append_below [of a m n b k] origin_append_below [of b m n a k]
  by (auto simp: origin_sym [of b _ a] origin_sym [of "b + m" _ "a + m"])

lemma exchanged_append:
  assumes "apart a b (m + n) mem"
  shows "exchanged (a + m) (b + m) n (exchanged a b m mem) = exchanged a b (m + n) mem"
proof -
  have m: "apart a b m mem"
    using assms by (auto simp: apart_def)
  then have n: "apart (a + m) (b + m) n (exchanged a b m mem)"
    using assms by (auto simp: apart_def block_simps)
  show ?thesis
    using assms m n origin_append [of a b m n]
    by (intro nth_equalityI) (simp_all add: length_exchanged exchanged_origin apart_def)
qed

lemma exchanged_0 [simp]: "apart a b 0 mem \<Longrightarrow> exchanged a b 0 mem = mem"
  by (intro nth_equalityI) (auto simp: block_simps)

lemma exchange_loop_ok:
  assumes "apart a b (n * w) mem" and "w dvd a" and "w dvd b"
  shows "exchange_loop w n mem a b = Some (exchanged a b (n * w) mem)"
  using assms
proof (induction n arbitrary: mem a b)
  case (Suc n)
  have one: "apart a b w mem"
    using Suc.prems(1) by (auto simp: apart_def)
  have "apart (a + w) (b + w) (n * w) (exchanged a b w mem)"
    using Suc.prems(1) one by (auto simp: apart_def block_simps)
  then have "exchange_loop w n (exchanged a b w mem) (a + w) (b + w)
    = Some (exchanged (a + w) (b + w) (n * w) (exchanged a b w mem))"
    using Suc by simp
  then show ?case
    using exchange_one_ok [OF one Suc.prems(2,3)] exchanged_append [of a b w "n * w" mem] Suc.prems(1) by simp
qed simp

lemma exchange_one_int128_ok:
  assumes "apart a b 16 mem" and "16 dvd a" and "16 dvd b"
  shows "exchange_one_int128 mem a b sz = Some (exchanged a b 16 mem)"
proof -
  have "8 dvd a" and "8 dvd b"
    using assms(2,3) by (auto intro: dvd_trans [of 8 16])
  then have "\<exists>m. exchange_one_int128 mem a b sz = Some m \<and> length m = length mem
    \<and> (\<forall>k. m ! k = exchanged a b 16 mem ! k)"
    using assms(1) by (auto simp: exchange_one_int128_def load_unit_def store_unit_def apart_def block_simps
        dvd_imp_mod_0 mod_add_left_eq [symmetric] mod_eq_0_iff_dvd)
  then show ?thesis
    using assms(1) by (auto intro!: nth_equalityI simp: block_simps)
qed

lemma exchange_int128s_loop_ok:
  assumes "apart a b (n * 16) mem" and "16 dvd a" and "16 dvd b"
  shows "exchange_int128s_loop n mem a b = Some (exchanged a b (n * 16) mem)"
  using assms
proof (induction n arbitrary: mem a b)
  case (Suc n)
  have one: "apart a b 16 mem"
    using Suc.prems(1) by (auto simp: apart_def)
  have "apart (a + 16) (b + 16) (n * 16) (exchanged a b 16 mem)"
    using Suc.prems(1) one by (auto simp: apart_def block_simps)
  then have "exchange_int128s_loop n (exchanged a b 16 mem) (a + 16) (b + 16)
    = Some (exchanged (a + 16) (b + 16) (n * 16) (exchanged a b 16 mem))"
    using Suc by simp
  then show ?case
    using exchange_one_int128_ok [OF one Suc.prems(2,3)] exchanged_append [of a b 16 "n * 16" mem] Suc.prems(1)
    by (simp del: exchange_int128s_loop.simps add: exchange_int128s_loop.simps(2))
qed simp

section \<open>The choice of the unit\<close>

lemma low_bits: "(x :: nat) AND 15 = x mod 16"
  using take_bit_eq_mask [of 4 x] by (simp add: take_bit_eq_mod mask_eq_exp_minus_1)

lemma dvd_or_iff: "2 ^ j dvd ((x :: nat) OR y) \<longleftrightarrow> 2 ^ j dvd x \<and> 2 ^ j dvd y"
proof -
  have "2 ^ j dvd z \<longleftrightarrow> take_bit j z = 0" for z :: nat
    by (simp add: take_bit_eq_mod dvd_eq_mod_eq_0)
  then show ?thesis
    by (simp add: or_eq_0_iff)
qed

text \<open>
  The function that \<open>exchange_func\<close> chooses for \<open>base\<close> and \<open>z\<close> exchanges \<open>n\<close> bytes, when addresses and
  \<open>n\<close> are multiples of every unit width that divides \<open>base\<close> and \<open>z\<close>.
\<close>

lemma exchange_func_ok:
  assumes "apart a b n mem" and "n = z \<or> 16 < z"
    and unit: "\<And>j. j \<le> 4 \<Longrightarrow> 2 ^ j dvd base \<Longrightarrow> 2 ^ j dvd z \<Longrightarrow> 2 ^ j dvd a \<and> 2 ^ j dvd b \<and> 2 ^ j dvd n"
  shows "exchange_func base z mem a b n = Some (exchanged a b n mem)"
proof -
  let ?x = "base OR z"
  have w: "2 ^ j dvd ?x \<Longrightarrow> j \<le> 4 \<Longrightarrow> 2 ^ j dvd a \<and> 2 ^ j dvd b \<and> 2 ^ j dvd n" for j
    using unit [of j] by (simp add: dvd_or_iff)
  have "16 dvd ?x \<or> ?x mod 16 = 8 \<and> 8 dvd ?x \<or> (?x mod 16 = 4 \<or> ?x mod 16 = 12) \<and> 4 dvd ?x
    \<or> (?x mod 16 = 2 \<or> ?x mod 16 = 6 \<or> ?x mod 16 = 10 \<or> ?x mod 16 = 14) \<and> 2 dvd ?x
    \<or> ?x mod 16 \<notin> {0, 2, 4, 6, 8, 10, 12, 14}"
    by simp presburger
  then show ?thesis
  proof (elim disjE conjE)
    assume "16 dvd ?x"
    then show ?thesis
      using w [of 4] assms(1,2)
      by (auto simp: exchange_func_def low_bits exchange_int128s_def exchange_one_int128_ok exchange_int128s_loop_ok)
  qed (use w [of 3] w [of 2] w [of 1] assms(1,2) in \<open>auto simp: exchange_func_def low_bits exchange_int64s_def
      exchange_one_int64_def exchange_int32s_def exchange_one_int32_def exchange_int16s_def exchange_one_int16_def
      exchange_bytes_def exchange_one_byte_def exchange_one_ok exchange_loop_ok\<close>)
qed

end
