(* ===== verification/Sort_Array.thy ===== *)
theory Sort_Array
  imports Exchange
begin

text \<open>
  The interface between the sorting algorithms of cutils.c and the memory they sort: elements are compared
  and exchanged by their index. The comparison function is the caller's and may keep a state. A relation \<open>le\<close>
  collects what its answers say: a preorder that agrees with a comparison function whose answers are
  consistent, the universal relation for one of which nothing is known. So the lemmas of the locale hold for
  every comparison function, and say that the result is sorted when that is meaningful.
\<close>

section \<open>Rearrangements of a part of an array\<close>

definition swapped :: "nat \<Rightarrow> nat \<Rightarrow> 'a list \<Rightarrow> 'a list" where
  "swapped i j xs = xs[i := xs ! j, j := xs ! i]"

definition rearranged :: "nat \<Rightarrow> nat \<Rightarrow> 'a list \<Rightarrow> 'a list \<Rightarrow> bool" where
  "rearranged lo hi xs ys \<longleftrightarrow>
     length ys = length xs \<and> mset ys = mset xs \<and> (\<forall>k < length xs. k < lo \<or> hi \<le> k \<longrightarrow> ys ! k = xs ! k)"

lemma length_swapped [simp]: "length (swapped i j xs) = length xs"
  by (simp add: swapped_def)

lemma swapped_nth:
  "i < length xs \<Longrightarrow> j < length xs \<Longrightarrow>
    swapped i j xs ! k = (if k = j then xs ! i else if k = i then xs ! j else xs ! k)"
  by (auto simp: swapped_def nth_list_update)

lemma rearranged_refl [simp, intro!]: "rearranged lo hi xs xs"
  by (simp add: rearranged_def)

lemma rearranged_trans: "rearranged lo hi xs ys \<Longrightarrow> rearranged lo hi ys zs \<Longrightarrow> rearranged lo hi xs zs"
  by (simp add: rearranged_def)

lemma rearranged_mono: "rearranged lo hi xs ys \<Longrightarrow> lo' \<le> lo \<Longrightarrow> hi \<le> hi' \<Longrightarrow> rearranged lo' hi' xs ys"
  by (auto simp: rearranged_def)

lemma rearranged_length: "rearranged lo hi xs ys \<Longrightarrow> length ys = length xs"
  by (simp add: rearranged_def)

lemma rearranged_swapped:
  assumes "lo \<le> i" and "i < hi" and "lo \<le> j" and "j < hi" and "hi \<le> length xs"
  shows "rearranged lo hi xs (swapped i j xs)"
  using assms by (auto simp: rearranged_def swapped_nth) (simp add: swapped_def mset_swap)

text \<open>An element of the part comes from the part.\<close>

lemma rearranged_from:
  assumes "rearranged lo hi xs ys" and "lo \<le> k" and "k < hi" and "hi \<le> length xs"
  shows "\<exists>l. lo \<le> l \<and> l < hi \<and> ys ! k = xs ! l"
proof -
  have parts: "zs = take lo zs @ take (hi - lo) (drop lo zs) @ drop hi zs" for zs :: "'a list"
    using assms(2,3) by (metis append_assoc append_take_drop_id le_add_diff_inverse2 less_imp_le order_trans take_add add.commute)
  have "take lo ys = take lo xs" and "drop hi ys = drop hi xs"
    using assms by (auto simp: rearranged_def intro!: nth_equalityI)
  then have "mset (take (hi - lo) (drop lo ys)) = mset (take (hi - lo) (drop lo xs))"
    using assms(1) parts [of xs] parts [of ys] by (metis (no_types) add_left_cancel add_right_cancel mset_append rearranged_def)
  moreover have "ys ! k \<in> set (take (hi - lo) (drop lo ys))"
    using assms rearranged_length [OF assms(1)] by (auto simp: in_set_conv_nth intro!: exI [of _ "k - lo"])
  ultimately have "ys ! k \<in> set (take (hi - lo) (drop lo xs))"
    by (metis set_mset_mset)
  then show ?thesis
    using assms(4) by (auto simp: in_set_conv_nth) (metis add.commute le_add1 less_diff_conv)
qed

section \<open>The operations on elements\<close>

record 'm sort_ops =
  cmp_elt :: "nat \<Rightarrow> nat \<Rightarrow> 'm \<Rightarrow> (int \<times> 'm) option"
  swap_elt :: "nat \<Rightarrow> nat \<Rightarrow> 'm \<Rightarrow> (unit \<times> 'm) option"

locale sort_memory =
  fixes ops :: "('m, 'z) sort_ops_scheme"
    and view :: "'m \<Rightarrow> 'a list"
    and inv :: "'m \<Rightarrow> bool"
    and le :: "'a \<Rightarrow> 'a \<Rightarrow> bool"
  assumes cmp_ok: "inv m \<Longrightarrow> i < length (view m) \<Longrightarrow> j < length (view m) \<Longrightarrow>
      ok (cmp_elt ops i j m) (\<lambda>c m'. inv m' \<and> view m' = view m \<and>
        (c \<le> 0 \<longrightarrow> le (view m ! i) (view m ! j)) \<and> (0 \<le> c \<longrightarrow> le (view m ! j) (view m ! i)))"
    and swap_ok: "inv m \<Longrightarrow> i < length (view m) \<Longrightarrow> j < length (view m) \<Longrightarrow>
      ok (swap_elt ops i j m) (\<lambda>_ m'. inv m' \<and> view m' = swapped i j (view m))"
    and le_refl [simp]: "le x x"
    and le_trans: "le x y \<Longrightarrow> le y z \<Longrightarrow> le x z"
begin

lemma swap_rearranges:
  assumes "inv m" and "lo \<le> i" and "i < hi" and "lo \<le> j" and "j < hi" and "hi \<le> length (view m)"
  shows "ok (swap_elt ops i j m)
    (\<lambda>_ m'. inv m' \<and> view m' = swapped i j (view m) \<and> rearranged lo hi (view m) (view m'))"
  using swap_ok [of m i j] rearranged_swapped [of lo i hi j "view m"] assms by (auto elim!: ok_mono)

end

end
