(* ===== verification/HeapSort.thy ===== *)
theory HeapSort
  imports Sort_Array
begin

text \<open>
  The heap sort of cutils.c (\<open>heapsortx\<close>), by indices of elements: offsets in bytes are multiples of the
  size of an element. It always returns a rearrangement; when the comparisons are consistent the result is
  sorted.
\<close>

section \<open>The algorithm\<close>

text \<open>
  The inner loop: the element at \<open>r\<close> sinks below its larger children, within the first \<open>n\<close> elements.
\<close>

definition larger_child :: "('m, 'z) sort_ops_scheme \<Rightarrow> nat \<Rightarrow> nat \<Rightarrow> 'm \<Rightarrow> (nat \<times> 'm) option" where
  "larger_child ops n c m =
     (if c < n - 1
      then do { (v, m) \<leftarrow> cmp_elt ops c (c + 1) m; Some (if v \<le> 0 then c + 1 else c, m) }
      else Some (c, m))"

partial_function (option) sift_down ::
  "('m, 'z) sort_ops_scheme \<Rightarrow> nat \<Rightarrow> nat \<Rightarrow> 'm \<Rightarrow> (unit \<times> 'm) option" where
  "sift_down ops n r m =
     (let c = r * 2 + 1
      in if c < n
         then do {
           (c, m) \<leftarrow> larger_child ops n c m;
           (v, m) \<leftarrow> cmp_elt ops r c m;
           if v > 0 then Some ((), m)
           else do { (_, m) \<leftarrow> swap_elt ops r c m; sift_down ops n c m } }
         else Some ((), m))"

declare sift_down.simps [code]

fun build_heap :: "('m, 'z) sort_ops_scheme \<Rightarrow> nat \<Rightarrow> nat \<Rightarrow> 'm \<Rightarrow> (unit \<times> 'm) option" where
  "build_heap ops n 0 m = Some ((), m)"
| "build_heap ops n (Suc i) m = do { (_, m) \<leftarrow> sift_down ops n i m; build_heap ops n i m }"

fun empty_heap :: "('m, 'z) sort_ops_scheme \<Rightarrow> nat \<Rightarrow> 'm \<Rightarrow> (unit \<times> 'm) option" where
  "empty_heap ops 0 m = Some ((), m)"
| "empty_heap ops (Suc i) m =
     do { (_, m) \<leftarrow> swap_elt ops 0 (Suc i) m;
          (_, m) \<leftarrow> sift_down ops (Suc i) 0 m;
          empty_heap ops i m }"

definition heap_sort :: "('m, 'z) sort_ops_scheme \<Rightarrow> nat \<Rightarrow> 'm \<Rightarrow> (unit \<times> 'm) option" where
  "heap_sort ops nmemb m =
     (if nmemb > 1
      then do { (_, m) \<leftarrow> build_heap ops nmemb (nmemb div 2) m; empty_heap ops (nmemb - 1) m }
      else Some ((), m))"

section \<open>It returns a sorted rearrangement\<close>

context sort_memory
begin

text \<open>
  Every element from the children of \<open>lo\<close> on is at most its parent; and the same with the exception of the
  children of \<open>r\<close>, which are at most the parent of \<open>r\<close>.
\<close>

definition heap :: "'a list \<Rightarrow> nat \<Rightarrow> nat \<Rightarrow> bool" where
  "heap xs lo n \<longleftrightarrow> (\<forall>c. 2 * lo < c \<and> c < n \<longrightarrow> le (xs ! c) (xs ! ((c - 1) div 2)))"

definition heap_but :: "nat \<Rightarrow> 'a list \<Rightarrow> nat \<Rightarrow> nat \<Rightarrow> bool" where
  "heap_but r xs lo n \<longleftrightarrow>
     (\<forall>c. 2 * lo < c \<and> c < n \<and> (c - 1) div 2 \<noteq> r \<longrightarrow> le (xs ! c) (xs ! ((c - 1) div 2))) \<and>
     (2 * lo < r \<longrightarrow> (\<forall>c. c < n \<and> (c = 2 * r + 1 \<or> c = 2 * r + 2) \<longrightarrow> le (xs ! c) (xs ! ((r - 1) div 2))))"

lemma child_iff: "(c - 1) div 2 = r \<and> 0 < c \<longleftrightarrow> c = 2 * r + 1 \<or> c = 2 * r + (2 :: nat)"
  by presburger

lemma heap_but_done:
  assumes "heap_but r xs lo n" and "\<And>c. c < n \<Longrightarrow> c = 2 * r + 1 \<or> c = 2 * r + 2 \<Longrightarrow> le (xs ! c) (xs ! r)"
  shows "heap xs lo n"
proof -
  have "le (xs ! c) (xs ! ((c - 1) div 2))" if "2 * lo < c" "c < n" for c
    using assms that child_iff [of c r] by (cases "(c - 1) div 2 = r") (auto simp: heap_but_def)
  then show ?thesis
    by (simp add: heap_def)
qed

lemma heap_but_step:
  assumes h: "heap_but r xs lo n" and "lo \<le> r" and "n \<le> length xs" and "d < n"
    and d: "d = 2 * r + 1 \<or> d = 2 * r + 2"
    and larger: "\<And>c. c < n \<Longrightarrow> c = 2 * r + 1 \<or> c = 2 * r + 2 \<Longrightarrow> le (xs ! c) (xs ! d)"
    and below: "le (xs ! r) (xs ! d)"
  shows "heap_but d (swapped r d xs) lo n"
proof -
  have nth: "swapped r d xs ! k = (if k = d then xs ! r else if k = r then xs ! d else xs ! k)" for k
    using assms by (intro swapped_nth) auto
  have "le (swapped r d xs ! c) (swapped r d xs ! ((c - 1) div 2))"
    if c: "2 * lo < c" "c < n" "(c - 1) div 2 \<noteq> d" for c
  proof (cases "(c - 1) div 2 = r")
    case True
    then have "c = 2 * r + 1 \<or> c = 2 * r + 2"
      using c child_iff [of c r] by auto
    then show ?thesis
      using True larger [OF c(2)] below d by (auto simp: nth)
  next
    case False
    then have "le (xs ! c) (xs ! ((c - 1) div 2))"
      using h c by (auto simp: heap_but_def)
    moreover have "c \<noteq> d"
      using False d by auto
    moreover have "c = r \<Longrightarrow> le (xs ! d) (xs ! ((r - 1) div 2))"
      using h c \<open>d < n\<close> d by (auto simp: heap_but_def)
    ultimately show ?thesis
      using False c by (auto simp: nth)
  qed
  moreover have "le (swapped r d xs ! c) (swapped r d xs ! ((d - 1) div 2))"
    if c: "c < n" "c = 2 * d + 1 \<or> c = 2 * d + 2" for c
  proof -
    have "(c - 1) div 2 = d" and "(d - 1) div 2 = r" and "2 * lo < c"
      using c d \<open>lo \<le> r\<close> by auto
    moreover have "d \<noteq> r" and "c \<noteq> d" and "c \<noteq> r"
      using c d by auto
    ultimately show ?thesis
      using h c(1) by (auto simp: heap_but_def nth)
  qed
  ultimately show ?thesis
    by (auto simp: heap_but_def)
qed

lemma larger_child_ok:
  assumes "inv m" and "n \<le> length (view m)" and "2 * r + 1 < n"
  shows "ok (larger_child ops n (r * 2 + 1) m) (\<lambda>d m'. inv m' \<and> view m' = view m \<and> d < n \<and>
    (d = 2 * r + 1 \<or> d = 2 * r + 2) \<and>
    (\<forall>c. c < n \<and> (c = 2 * r + 1 \<or> c = 2 * r + 2) \<longrightarrow> le (view m ! c) (view m ! d)))"
proof (cases "r * 2 + 1 < n - 1")
  case True
  then have "ok (cmp_elt ops (r * 2 + 1) (r * 2 + 1 + 1) m) (\<lambda>c m'. inv m' \<and> view m' = view m \<and>
    (c \<le> 0 \<longrightarrow> le (view m ! (r * 2 + 1)) (view m ! (r * 2 + 1 + 1))) \<and>
    (0 \<le> c \<longrightarrow> le (view m ! (r * 2 + 1 + 1)) (view m ! (r * 2 + 1))))"
    using assms by (intro cmp_ok) auto
  then show ?thesis
    using True assms by (auto simp: larger_child_def ok_bind mult.commute elim!: ok_mono)
next
  case False
  then show ?thesis
    using assms by (auto simp: larger_child_def mult.commute)
qed

lemma sift_ok:
  assumes "inv m" and "n \<le> length (view m)" and "r < n" and "lo \<le> r" and "heap_but r (view m) lo n"
  shows "ok (sift_down ops n r m)
    (\<lambda>_ m'. inv m' \<and> rearranged 0 n (view m) (view m') \<and> heap (view m') lo n)"
  using assms
proof (induction "n - r" arbitrary: r m rule: less_induct)
  case less
  show ?case
  proof (cases "2 * r + 1 < n")
    case True
    obtain d m1 where d: "larger_child ops n (r * 2 + 1) m = Some (d, m1)" "inv m1" "view m1 = view m"
      "d = 2 * r + 1 \<or> d = 2 * r + 2" "d < n" "r < d"
      and larger: "\<And>c. c < n \<Longrightarrow> c = 2 * r + 1 \<or> c = 2 * r + 2 \<Longrightarrow> le (view m ! c) (view m ! d)"
      using larger_child_ok [OF less.prems(1,2) True] by (auto elim!: ok_SomeE)
    obtain v m2 where v: "cmp_elt ops r d m1 = Some (v, m2)" "inv m2" "view m2 = view m"
      "v \<le> 0 \<Longrightarrow> le (view m ! r) (view m ! d)" "0 \<le> v \<Longrightarrow> le (view m ! d) (view m ! r)"
      using cmp_ok [of m1 r d] d less.prems by (auto elim!: ok_SomeE)
    obtain m3 where m3: "swap_elt ops r d m2 = Some ((), m3)" "inv m3" "view m3 = swapped r d (view m)"
      "rearranged 0 n (view m) (view m3)"
      using swap_rearranges [of m2 0 r n d] v d less.prems by (auto elim!: ok_SomeE)
    have "v > 0 \<Longrightarrow> heap (view m) lo n"
      using v(5) larger less.prems(5) by (intro heap_but_done) (auto intro: le_trans [of _ "view m ! d"])
    moreover have "ok (sift_down ops n d m3)
      (\<lambda>_ m'. inv m' \<and> rearranged 0 n (view m) (view m') \<and> heap (view m') lo n)" if "v \<le> 0"
    proof -
      have "ok (sift_down ops n d m3)
        (\<lambda>_ m'. inv m' \<and> rearranged 0 n (view m3) (view m') \<and> heap (view m') lo n)"
        using that d less.prems m3 v larger heap_but_step [OF less.prems(5,4,2)] by (intro less.hyps) auto
      then show ?thesis
        by (rule ok_mono) (blast intro: rearranged_trans [OF m3(4)])
    qed
    ultimately show ?thesis
      using True d(1) v m3(1)
      by (subst sift_down.simps) (auto simp: ok_def mult.commute)
  next
    case False
    then show ?thesis
      using less.prems heap_but_done [OF less.prems(5)] by (subst sift_down.simps) (simp add: mult.commute)
  qed
qed

lemma heap_Suc: "heap xs (Suc i) n \<Longrightarrow> heap_but i xs i n"
proof -
  assume h: "heap xs (Suc i) n"
  have "le (xs ! c) (xs ! ((c - 1) div 2))" if "2 * i < c" "c < n" "(c - 1) div 2 \<noteq> i" for c
  proof -
    have "2 * Suc i < c"
      using that by presburger
    then show ?thesis
      using h that by (simp add: heap_def)
  qed
  then show ?thesis
    by (simp add: heap_but_def)
qed

lemma build_heap_ok:
  assumes "inv m" and "n \<le> length (view m)" and "i \<le> n" and "heap (view m) i n"
  shows "ok (build_heap ops n i m)
    (\<lambda>_ m'. inv m' \<and> rearranged 0 n (view m) (view m') \<and> heap (view m') 0 n)"
  using assms
proof (induction i arbitrary: m)
  case (Suc i)
  obtain m1 where m1: "sift_down ops n i m = Some ((), m1)" "inv m1" "rearranged 0 n (view m) (view m1)"
    "heap (view m1) i n"
    using sift_ok [of m n i i] heap_Suc [of "view m" i n] Suc.prems by (auto elim!: ok_SomeE)
  then have "ok (build_heap ops n i m1)
    (\<lambda>_ m'. inv m' \<and> rearranged 0 n (view m1) (view m') \<and> heap (view m') 0 n)"
    using Suc rearranged_length [OF m1(3)] by simp
  then show ?case
    using m1 by (auto elim!: ok_mono intro: rearranged_trans)
qed simp

lemma heap_root:
  assumes "heap xs 0 n" and "k < n"
  shows "le (xs ! k) (xs ! 0)"
  using assms(2)
proof (induction k rule: less_induct)
  case (less k)
  show ?case
  proof (cases "k = 0")
    case False
    then have "le (xs ! k) (xs ! ((k - 1) div 2))" and "(k - 1) div 2 < k"
      using assms(1) less.prems by (auto simp: heap_def)
    then show ?thesis
      using less.IH [of "(k - 1) div 2"] less.prems by (auto intro: le_trans)
  qed simp
qed

text \<open>The first \<open>i\<close> elements are a heap and at most the others, which are sorted.\<close>

definition heap_and_sorted :: "'a list \<Rightarrow> nat \<Rightarrow> nat \<Rightarrow> bool" where
  "heap_and_sorted xs i n \<longleftrightarrow>
     heap xs 0 i \<and> (\<forall>k l. k < l \<and> i \<le> l \<and> l < n \<longrightarrow> le (xs ! k) (xs ! l))"

lemma heap_and_sorted_swap:
  assumes "heap_and_sorted xs (Suc i) n" and "i < n" and "n \<le> length xs"
  shows "heap_but 0 (swapped 0 i xs) 0 i"
    and "\<And>k l. k < l \<Longrightarrow> i \<le> l \<Longrightarrow> l < n \<Longrightarrow> le (swapped 0 i xs ! k) (swapped 0 i xs ! l)"
proof -
  have nth: "swapped 0 i xs ! k = (if k = i then xs ! 0 else if k = 0 then xs ! i else xs ! k)" for k
    using assms by (intro swapped_nth) auto
  have *: "k < l \<Longrightarrow> i < l \<Longrightarrow> l < n \<Longrightarrow> le (xs ! k) (xs ! l)" for k l
    using assms(1) by (auto simp: heap_and_sorted_def)
  show "heap_but 0 (swapped 0 i xs) 0 i"
    using assms(1) by (auto simp: heap_but_def nth heap_and_sorted_def heap_def)
  show "le (swapped 0 i xs ! k) (swapped 0 i xs ! l)" if "k < l" "i \<le> l" "l < n" for k l
    using that heap_root [of xs "Suc i"] assms(1) *
    by (cases "l = i") (auto simp: nth heap_and_sorted_def)
qed

lemma sorted_rearranged:
  assumes "\<And>k l. k < l \<Longrightarrow> i \<le> l \<Longrightarrow> l < n \<Longrightarrow> le (xs ! k) (xs ! l)"
    and "rearranged 0 i xs ys" and "n \<le> length xs" and "k < l" and "i \<le> l" and "l < n"
  shows "le (ys ! k) (ys ! l)"
proof (cases "k < i")
  case True
  then obtain k' where "k' < i" "ys ! k = xs ! k'"
    using rearranged_from [OF assms(2), of k] assms by auto
  then show ?thesis
    using assms by (auto simp: rearranged_def)
qed (use assms in \<open>auto simp: rearranged_def\<close>)

lemma empty_heap_ok:
  assumes "inv m" and "i < n" and "n \<le> length (view m)" and "heap_and_sorted (view m) (Suc i) n"
  shows "ok (empty_heap ops i m)
    (\<lambda>_ m'. inv m' \<and> rearranged 0 n (view m) (view m') \<and> heap_and_sorted (view m') 1 n)"
  using assms
proof (induction i arbitrary: m)
  case (Suc i)
  obtain m1 where m1: "swap_elt ops 0 (Suc i) m = Some ((), m1)" "inv m1" "view m1 = swapped 0 (Suc i) (view m)"
    "rearranged 0 n (view m) (view m1)"
    using swap_rearranges [of m 0 0 n "Suc i"] Suc.prems by (auto elim!: ok_SomeE)
  note swap = heap_and_sorted_swap [OF Suc.prems(4,2,3), folded m1(3)]
  obtain m2 where m2: "sift_down ops (Suc i) 0 m1 = Some ((), m2)" "inv m2"
    "rearranged 0 (Suc i) (view m1) (view m2)" "heap (view m2) 0 (Suc i)"
    using sift_ok [of m1 "Suc i" 0 0] m1 swap(1) Suc.prems by (auto elim!: ok_SomeE)
  have "heap_and_sorted (view m2) (Suc i) n"
    using m2 sorted_rearranged [OF swap(2) m2(3)] m1 Suc.prems by (simp add: heap_and_sorted_def)
  then have "ok (empty_heap ops i m2)
    (\<lambda>_ m'. inv m' \<and> rearranged 0 n (view m2) (view m') \<and> heap_and_sorted (view m') 1 n)"
    using Suc m1 m2(2) rearranged_length [OF m2(3)] by simp
  moreover have "rearranged 0 n (view m) (view m2)"
    using m1(4) rearranged_mono [OF m2(3), of 0 n] Suc.prems by (auto intro: rearranged_trans)
  ultimately show ?case
    using m1(1) m2(1) by (auto elim!: ok_mono intro: rearranged_trans)
qed simp

lemma heap_sort_ok:
  assumes "inv m" and "n \<le> length (view m)"
  shows "ok (heap_sort ops n m) (\<lambda>_ m'. inv m' \<and> rearranged 0 n (view m) (view m') \<and>
    (\<forall>k l. k < l \<and> l < n \<longrightarrow> le (view m' ! k) (view m' ! l)))"
proof (cases "1 < n")
  case True
  have "heap (view m) (n div 2) n"
    by (auto simp: heap_def)
  then obtain m1 where m1: "build_heap ops n (n div 2) m = Some ((), m1)" "inv m1"
    "rearranged 0 n (view m) (view m1)" "heap (view m1) 0 n"
    using build_heap_ok [of m n "n div 2"] assms by (auto elim!: ok_SomeE)
  then have "heap_and_sorted (view m1) (Suc (n - 1)) n"
    using True by (auto simp: heap_and_sorted_def)
  then have "ok (empty_heap ops (n - 1) m1)
    (\<lambda>_ m'. inv m' \<and> rearranged 0 n (view m1) (view m') \<and> heap_and_sorted (view m') 1 n)"
    using m1 assms True rearranged_length [OF m1(3)] by (intro empty_heap_ok) auto
  then show ?thesis
    using True m1 by (auto simp: heap_sort_def heap_and_sorted_def elim!: ok_mono intro: rearranged_trans)
qed (use assms in \<open>auto simp: heap_sort_def\<close>)

end

end
