(* ===== verification/QuickSort.thy ===== *)
theory QuickSort
  imports HeapSort
begin

text \<open>
  The main part of \<open>rqsort\<close> (cutils.c), by indices of elements: quick sort with three-way partition, an
  explicit stack of 50 segments, heap sort when a segment has been split 50 times, and insertion sort for
  segments of at most six elements.
\<close>

section \<open>The algorithm\<close>

text \<open>In addition to single elements the algorithm exchanges blocks, and calls the heap sort on a segment.\<close>

record 'm quick_ops = "'m sort_ops" +
  swap_block :: "nat \<Rightarrow> nat \<Rightarrow> nat \<Rightarrow> 'm \<Rightarrow> (unit \<times> 'm) option"
  heapsort_at :: "nat \<Rightarrow> nat \<Rightarrow> 'm \<Rightarrow> (unit \<times> 'm) option"

definition med3 :: "('m, 'z) sort_ops_scheme \<Rightarrow> nat \<Rightarrow> nat \<Rightarrow> nat \<Rightarrow> 'm \<Rightarrow> (nat \<times> 'm) option" where
  "med3 ops a b c m =
     do { (v, m) \<leftarrow> cmp_elt ops a b m;
          if v < 0
          then do { (v, m) \<leftarrow> cmp_elt ops b c m;
                    if v < 0 then Some (b, m)
                    else do { (v, m) \<leftarrow> cmp_elt ops a c m; Some (if v < 0 then c else a, m) } }
          else do { (v, m) \<leftarrow> cmp_elt ops b c m;
                    if v > 0 then Some (b, m)
                    else do { (v, m) \<leftarrow> cmp_elt ops a c m; Some (if v < 0 then a else c, m) } } }"

text \<open>The pivot is at \<open>ptr\<close>. Elements equal to it are moved to the two ends of the segment.\<close>

partial_function (option) scan_up ::
  "('m, 'z) sort_ops_scheme \<Rightarrow> nat \<Rightarrow> nat \<Rightarrow> nat \<Rightarrow> nat \<Rightarrow> 'm \<Rightarrow> ((nat \<times> nat) \<times> 'm) option" where
  "scan_up ops ptr pi plt pj m =
     (if pi < pj
      then do {
        (c, m) \<leftarrow> cmp_elt ops ptr pi m;
        if c \<ge> 0
        then do {
          (plt, m) \<leftarrow>
            (if c = 0 then do { (_, m) \<leftarrow> swap_elt ops plt pi m; Some (plt + 1, m) } else Some (plt, m));
          scan_up ops ptr (pi + 1) plt pj m }
        else Some ((pi, plt), m) }
      else Some ((pi, plt), m))"

declare scan_up.simps [code]

partial_function (option) scan_down ::
  "('m, 'z) sort_ops_scheme \<Rightarrow> nat \<Rightarrow> nat \<Rightarrow> nat \<Rightarrow> nat \<Rightarrow> 'm \<Rightarrow> ((nat \<times> nat) \<times> 'm) option" where
  "scan_down ops ptr pi pj pgt m =
     (let pj = pj - 1
      in if pi < pj
         then do {
           (c, m) \<leftarrow> cmp_elt ops ptr pj m;
           if c \<le> 0
           then do {
             (pgt, m) \<leftarrow>
               (if c = 0 then do { (_, m) \<leftarrow> swap_elt ops (pgt - 1) pj m; Some (pgt - 1, m) } else Some (pgt, m));
             scan_down ops ptr pi pj pgt m }
           else Some ((pj, pgt), m) }
         else Some ((pj, pgt), m))"

declare scan_down.simps [code]

partial_function (option) partition_loop ::
  "('m, 'z) sort_ops_scheme \<Rightarrow> nat \<Rightarrow> nat \<Rightarrow> nat \<Rightarrow> nat \<Rightarrow> nat \<Rightarrow> 'm \<Rightarrow> ((nat \<times> nat \<times> nat) \<times> 'm) option" where
  "partition_loop ops ptr pi plt pj pgt m =
     do { ((pi, plt), m) \<leftarrow> scan_up ops ptr pi plt pj m;
          ((pj, pgt), m) \<leftarrow> scan_down ops ptr pi pj pgt m;
          if pi \<ge> pj then Some ((pi, plt, pgt), m)
          else do { (_, m) \<leftarrow> swap_elt ops pi pj m; partition_loop ops ptr (pi + 1) plt pj pgt m } }"

declare partition_loop.simps [code]

text \<open>
  One round: choose the pivot, partition, and move the elements equal to the pivot to the middle. The
  results are the number of smaller elements and the number of elements that are not greater.
\<close>

definition partition_segment ::
  "('m, 'z) quick_ops_scheme \<Rightarrow> nat \<Rightarrow> nat \<Rightarrow> 'm \<Rightarrow> ((nat \<times> nat) \<times> 'm) option" where
  "partition_segment ops ptr nmemb m =
     (let m4 = nmemb div 4; top = ptr + nmemb
      in do {
        (p, m) \<leftarrow> med3 ops (ptr + m4) (ptr + 2 * m4) (ptr + 3 * m4) m;
        (_, m) \<leftarrow> swap_elt ops ptr p m;
        ((pi, plt, pgt), m) \<leftarrow> partition_loop ops ptr (ptr + 1) (ptr + 1) top top m;
        let span = plt - ptr;
        let span2 = pi - plt;
        let lt = pi - plt;
        let span = (if span > span2 then span2 else span);
        (_, m) \<leftarrow> swap_block ops ptr (pi - span) span m;
        let span = top - pgt;
        let span2 = pgt - pi;
        let gt = nmemb - (pgt - pi);
        let span = (if span > span2 then span2 else span);
        (_, m) \<leftarrow> swap_block ops pi (top - span) span m;
        Some ((lt, gt), m) })"

text \<open>The larger part is pushed and the loop goes on with the smaller one. The stack has 50 entries.\<close>

type_synonym segment = "nat \<times> nat \<times> nat"

definition push :: "segment \<Rightarrow> segment list \<Rightarrow> segment list option" where
  "push e stack = (if length stack < 50 then Some (e # stack) else None)"

partial_function (option) split_segment ::
  "('m, 'z) quick_ops_scheme \<Rightarrow> nat \<Rightarrow> nat \<Rightarrow> nat \<Rightarrow> segment list \<Rightarrow> 'm
    \<Rightarrow> ((nat \<times> nat \<times> segment list) \<times> 'm) option" where
  "split_segment ops ptr nmemb depth stack m =
     (if nmemb > 6
      then
        (let depth = depth + 1
         in if depth > 50
            then do { (_, m) \<leftarrow> heapsort_at ops ptr nmemb m; Some ((ptr, 0, stack), m) }
            else do {
              ((lt, gt), m) \<leftarrow> partition_segment ops ptr nmemb m;
              if lt > nmemb - gt
              then do { stack \<leftarrow> push (ptr, lt, depth) stack;
                        split_segment ops (ptr + gt) (nmemb - gt) depth stack m }
              else do { stack \<leftarrow> push (ptr + gt, nmemb - gt, depth) stack;
                        split_segment ops ptr lt depth stack m } })
      else Some ((ptr, nmemb, stack), m))"

declare split_segment.simps [code]

fun insert_down :: "('m, 'z) sort_ops_scheme \<Rightarrow> nat \<Rightarrow> nat \<Rightarrow> 'm \<Rightarrow> (unit \<times> 'm) option" where
  "insert_down ops ptr 0 m = Some ((), m)"
| "insert_down ops ptr (Suc j) m =
     do { (v, m) \<leftarrow> cmp_elt ops (ptr + j) (ptr + Suc j) m;
          if v > 0
          then do { (_, m) \<leftarrow> swap_elt ops (ptr + Suc j) (ptr + j) m; insert_down ops ptr j m }
          else Some ((), m) }"

text \<open>The outer loop of the insertion sort, with \<open>k\<close> elements left to insert.\<close>

fun insertion_loop :: "('m, 'z) sort_ops_scheme \<Rightarrow> nat \<Rightarrow> nat \<Rightarrow> nat \<Rightarrow> 'm \<Rightarrow> (unit \<times> 'm) option" where
  "insertion_loop ops ptr i 0 m = Some ((), m)"
| "insertion_loop ops ptr i (Suc k) m =
     do { (_, m) \<leftarrow> insert_down ops ptr i m; insertion_loop ops ptr (i + 1) k m }"

partial_function (option) segments_loop ::
  "('m, 'z) quick_ops_scheme \<Rightarrow> segment list \<Rightarrow> 'm \<Rightarrow> (unit \<times> 'm) option" where
  "segments_loop ops stack m =
     (case stack of
        [] \<Rightarrow> Some ((), m)
      | (ptr, nmemb, depth) # stack \<Rightarrow>
          do { ((ptr, nmemb, stack), m) \<leftarrow> split_segment ops ptr nmemb depth stack m;
               (_, m) \<leftarrow> insertion_loop ops ptr 1 (nmemb - 1) m;
               segments_loop ops stack m })"

declare segments_loop.simps [code]

definition quick_sort :: "('m, 'z) quick_ops_scheme \<Rightarrow> nat \<Rightarrow> 'm \<Rightarrow> (unit \<times> 'm) option" where
  "quick_sort ops nmemb m = (if nmemb < 2 then Some ((), m) else segments_loop ops [(0, nmemb, 0)] m)"

section \<open>The memory it needs\<close>

definition block_swapped :: "nat \<Rightarrow> nat \<Rightarrow> nat \<Rightarrow> 'a list \<Rightarrow> 'a list" where
  "block_swapped a b n xs = map (\<lambda>k. xs ! origin a b n k) [0..<length xs]"

lemma length_block_swapped [simp]: "length (block_swapped a b n xs) = length xs"
  by (simp add: block_swapped_def)

lemma origin_bij:
  assumes "a + n \<le> b" and "b + n \<le> N"
  shows "bij_betw (origin a b n) {..<N} {..<N}"
proof (rule bij_betw_byWitness [where f' = "origin a b n"])
  show "\<forall>k\<in>{..<N}. origin a b n (origin a b n k) = k"
    using assms by (auto simp: origin_def)
  then show "\<forall>k\<in>{..<N}. origin a b n (origin a b n k) = k" .
qed (use assms in \<open>auto simp: origin_def\<close>)

lemma rearranged_block_swapped:
  assumes "lo \<le> a" and "a + n \<le> b" and "b + n \<le> hi" and "hi \<le> length xs"
  shows "rearranged lo hi xs (block_swapped a b n xs)"
proof -
  let ?N = "length xs"
  have "image_mset (origin a b n) (mset_set {..<?N}) = mset_set {..<?N}"
    using origin_bij [of a n b ?N] assms by (simp add: bij_betw_def image_mset_mset_set)
  then have "image_mset (\<lambda>k. xs ! origin a b n k) (mset_set {..<?N}) = image_mset ((!) xs) (mset_set {..<?N})"
    by (metis (no_types, lifting) image_mset.compositionality comp_def image_mset_cong)
  moreover have "mset (map f [0..<?N]) = image_mset f (mset_set {..<?N})" for f :: "nat \<Rightarrow> 'a"
    by (simp add: atLeast0LessThan)
  ultimately have "mset (block_swapped a b n xs) = mset (map ((!) xs) [0..<?N])"
    by (simp add: block_swapped_def)
  moreover have "block_swapped a b n xs ! k = xs ! k" if "k < lo \<or> hi \<le> k" "k < ?N" for k
    using that assms by (auto simp: block_swapped_def origin_def)
  ultimately show ?thesis
    by (simp add: rearranged_def map_nth)
qed

locale quick_memory = sort_memory ops view inv le
  for ops :: "('m, 'z) quick_ops_scheme" and view :: "'m \<Rightarrow> 'a list" and inv and le +
  assumes block_ok: "inv m \<Longrightarrow> a + n \<le> b \<Longrightarrow> b + n \<le> length (view m) \<Longrightarrow>
      ok (swap_block ops a b n m) (\<lambda>_ m'. inv m' \<and> view m' = block_swapped a b n (view m))"
    and heapsort_ok: "inv m \<Longrightarrow> p + n \<le> length (view m) \<Longrightarrow>
      ok (heapsort_at ops p n m) (\<lambda>_ m'. inv m' \<and> rearranged p (p + n) (view m) (view m') \<and>
        (\<forall>k l. p \<le> k \<and> k < l \<and> l < p + n \<longrightarrow> le (view m' ! k) (view m' ! l)))"

section \<open>Partition\<close>

context sort_memory
begin

text \<open>
  The four parts during the partition around \<open>x\<close>: equal, smaller, not yet seen, greater, equal.
\<close>

definition parts :: "'a \<Rightarrow> 'a list \<Rightarrow> nat \<Rightarrow> nat \<Rightarrow> nat \<Rightarrow> nat \<Rightarrow> nat \<Rightarrow> nat \<Rightarrow> bool" where
  "parts x xs ptr lt i j gt hi \<longleftrightarrow>
     ptr < lt \<and> lt \<le> i \<and> i \<le> j \<and> j \<le> gt \<and> gt \<le> hi \<and> hi \<le> length xs \<and> xs ! ptr = x \<and>
     (\<forall>k. ptr \<le> k \<and> k < lt \<or> gt \<le> k \<and> k < hi \<longrightarrow> le x (xs ! k) \<and> le (xs ! k) x) \<and>
     (\<forall>k. lt \<le> k \<and> k < i \<longrightarrow> le (xs ! k) x) \<and> (\<forall>k. j \<le> k \<and> k < gt \<longrightarrow> le x (xs ! k))"

lemma parts_bounds:
  "parts x xs ptr lt i j gt hi \<Longrightarrow>
    ptr < lt \<and> lt \<le> i \<and> i \<le> j \<and> j \<le> gt \<and> gt \<le> hi \<and> hi \<le> length xs \<and> xs ! ptr = x"
  by (simp add: parts_def)

lemma parts_less:
  "parts x xs ptr lt i j gt hi \<Longrightarrow> i < j \<Longrightarrow> le (xs ! i) x \<Longrightarrow> parts x xs ptr lt (i + 1) j gt hi"
  by (auto simp: parts_def less_Suc_eq)

lemma parts_less_equal:
  assumes "parts x xs ptr lt i j gt hi" and "i < j" and "le (xs ! i) x" and "le x (xs ! i)"
  shows "parts x (swapped lt i xs) ptr (lt + 1) (i + 1) j gt hi"
proof -
  have "swapped lt i xs ! k = (if k = i then xs ! lt else if k = lt then xs ! i else xs ! k)" for k
    using assms by (intro swapped_nth) (auto simp: parts_def)
  then show ?thesis
    using assms by (auto simp: parts_def less_Suc_eq)
qed

lemma parts_greater:
  "parts x xs ptr lt i (Suc j) gt hi \<Longrightarrow> i \<le> j \<Longrightarrow> le x (xs ! j) \<Longrightarrow> parts x xs ptr lt i j gt hi"
  by (auto simp: parts_def) (metis le_antisym not_less_eq_eq)

lemma parts_greater_equal:
  assumes "parts x xs ptr lt i (Suc j) gt hi" and "i \<le> j" and "le x (xs ! j)" and "le (xs ! j) x"
  shows "parts x (swapped (gt - 1) j xs) ptr lt i j (gt - 1) hi"
proof -
  obtain g where g: "gt = Suc g"
    using assms(1) by (cases gt) (auto simp: parts_def)
  have nth: "swapped g j xs ! k = (if k = j then xs ! g else if k = g then xs ! j else xs ! k)" for k
    using assms(1) g by (intro swapped_nth) (auto simp: parts_def)
  have "le x (xs ! g)"
    using assms g by (cases "j = g") (auto simp: parts_def)
  then show ?thesis
    using assms by (auto simp: parts_def nth g le_Suc_eq)
qed

lemma parts_exchange:
  assumes "parts x xs ptr lt i (Suc j) gt hi" and "i < j" and "le x (xs ! i)" and "le (xs ! j) x"
  shows "parts x (swapped i j xs) ptr lt (i + 1) j gt hi"
proof -
  have nth: "swapped i j xs ! k = (if k = j then xs ! i else if k = i then xs ! j else xs ! k)" for k
    using assms by (intro swapped_nth) (auto simp: parts_def)
  show ?thesis
    using assms by (auto simp: parts_def nth less_Suc_eq)
qed

lemma scan_up_ok:
  assumes "inv m" and "parts x (view m) ptr lt i j gt hi"
  shows "ok (scan_up ops ptr i lt j m) (\<lambda>(i', lt') m'. inv m' \<and> rearranged ptr hi (view m) (view m') \<and>
    parts x (view m') ptr lt' i' j gt hi \<and> i \<le> i' \<and> (i' < j \<longrightarrow> le x (view m' ! i')))"
  using assms
proof (induction "j - i" arbitrary: i lt m rule: less_induct)
  case less
  note p = less.prems(2)
  show ?case
  proof (cases "i < j")
    case True
    obtain c m1 where c: "cmp_elt ops ptr i m = Some (c, m1)" "inv m1" "view m1 = view m"
      "c \<le> 0 \<Longrightarrow> le x (view m ! i)" "0 \<le> c \<Longrightarrow> le (view m ! i) x"
      using cmp_ok [of m ptr i] less.prems True by (auto simp: parts_def elim!: ok_SomeE)
    obtain m2 where m2: "swap_elt ops lt i m1 = Some ((), m2)" "inv m2" "view m2 = swapped lt i (view m)"
      "rearranged ptr hi (view m) (view m2)"
      using swap_rearranges [of m1 ptr lt hi i] c True p by (auto simp: parts_def elim!: ok_SomeE)
    let ?post = "\<lambda>(i', lt') m'. inv m' \<and> rearranged ptr hi (view m) (view m') \<and>
      parts x (view m') ptr lt' i' j gt hi \<and> i \<le> i' \<and> (i' < j \<longrightarrow> le x (view m' ! i'))"
    have "ok (scan_up ops ptr (i + 1) (lt + 1) j m2) ?post" if "c = 0"
    proof -
      have parts: "parts x (view m2) ptr (lt + 1) (i + 1) j gt hi"
        using parts_less_equal [OF p True] c m2(3) that by simp
      show ?thesis
        by (rule ok_mono [OF less.hyps [OF _ m2(2) parts]]) (use True in \<open>auto intro: rearranged_trans [OF m2(4)]\<close>)
    qed
    moreover have "ok (scan_up ops ptr (i + 1) lt j m1) ?post" if "c > 0"
    proof -
      have parts: "parts x (view m1) ptr lt (i + 1) j gt hi"
        using parts_less [OF p True] c that by simp
      show ?thesis
        by (rule ok_mono [OF less.hyps [OF _ c(2) parts]]) (use True c(3) in auto)
    qed
    ultimately show ?thesis
      using True c m2(1) p by (subst scan_up.simps) auto
  next
    case False
    then show ?thesis
      using less.prems by (subst scan_up.simps) simp
  qed
qed

lemma scan_down_ok:
  assumes "inv m" and "parts x (view m) ptr lt i j gt hi"
  shows "ok (scan_down ops ptr i j gt m) (\<lambda>(j', gt') m'. inv m' \<and> rearranged (i + 1) hi (view m) (view m') \<and>
    parts x (view m') ptr lt i (Suc j') gt' hi \<and> j' < j \<and> (i < j' \<longrightarrow> le (view m' ! j') x))"
  using assms
proof (induction "j - i" arbitrary: j gt m rule: less_induct)
  case less
  obtain j' where j: "j = Suc j'"
    using less.prems(2) by (cases j) (auto simp: parts_def)
  note p = less.prems(2) [unfolded j]
  show ?case
  proof (cases "i < j'")
    case True
    obtain c m1 where c: "cmp_elt ops ptr j' m = Some (c, m1)" "inv m1" "view m1 = view m"
      "c \<le> 0 \<Longrightarrow> le x (view m ! j')" "0 \<le> c \<Longrightarrow> le (view m ! j') x"
      using cmp_ok [of m ptr j'] less.prems True j by (auto simp: parts_def elim!: ok_SomeE)
    obtain m2 where m2: "swap_elt ops (gt - 1) j' m1 = Some ((), m2)" "inv m2"
      "view m2 = swapped (gt - 1) j' (view m)" "rearranged (i + 1) hi (view m) (view m2)"
    proof -
      have "i + 1 \<le> gt - 1" and "gt - 1 < hi" and "j' < hi" and "hi \<le> length (view m1)"
        using parts_bounds [OF p] True c(3) by auto
      then have "ok (swap_elt ops (gt - 1) j' m1) (\<lambda>_ m'. inv m' \<and> view m' = swapped (gt - 1) j' (view m1) \<and>
        rearranged (i + 1) hi (view m1) (view m'))"
        using True c(2) by (intro swap_rearranges) auto
      then show thesis
        using that c(3) by (auto elim!: ok_SomeE)
    qed
    let ?post = "\<lambda>(j', gt') m'. inv m' \<and> rearranged (i + 1) hi (view m) (view m') \<and>
      parts x (view m') ptr lt i (Suc j') gt' hi \<and> j' < j \<and> (i < j' \<longrightarrow> le (view m' ! j') x)"
    have "ok (scan_down ops ptr i j' (gt - 1) m2) ?post" if "c = 0"
    proof -
      have parts: "parts x (view m2) ptr lt i j' (gt - 1) hi"
        using parts_greater_equal [OF p] True c m2(3) that by simp
      show ?thesis
        by (rule ok_mono [OF less.hyps [OF _ m2(2) parts]])
          (use True j in \<open>auto intro: rearranged_trans [OF m2(4), simplified]\<close>)
    qed
    moreover have "ok (scan_down ops ptr i j' gt m1) ?post" if "c < 0"
    proof -
      have parts: "parts x (view m1) ptr lt i j' gt hi"
        using parts_greater [OF p] True c that by simp
      show ?thesis
        by (rule ok_mono [OF less.hyps [OF _ c(2) parts]]) (use True c(3) j in auto)
    qed
    ultimately show ?thesis
      using True c m2(1) p j by (subst scan_down.simps) auto
  next
    case False
    then show ?thesis
      using less.prems j by (subst scan_down.simps) simp
  qed
qed

lemma partition_loop_ok:
  assumes "inv m" and "parts x (view m) ptr lt i j gt hi"
  shows "ok (partition_loop ops ptr i lt j gt m) (\<lambda>(i', lt', gt') m'. inv m' \<and>
    rearranged ptr hi (view m) (view m') \<and> parts x (view m') ptr lt' i' i' gt' hi)"
  using assms
proof (induction "j - i" arbitrary: i j lt gt m rule: less_induct)
  case less
  obtain i1 lt1 m1 where up: "scan_up ops ptr i lt j m = Some ((i1, lt1), m1)" "inv m1"
    "rearranged ptr hi (view m) (view m1)" "parts x (view m1) ptr lt1 i1 j gt hi" "i \<le> i1"
    "i1 < j \<Longrightarrow> le x (view m1 ! i1)"
    using scan_up_ok [OF less.prems] by (auto elim!: ok_SomeE)
  obtain j1 gt1 m2 where down: "scan_down ops ptr i1 j gt m1 = Some ((j1, gt1), m2)" "inv m2"
    "rearranged (i1 + 1) hi (view m1) (view m2)" "parts x (view m2) ptr lt1 i1 (Suc j1) gt1 hi" "j1 < j"
    "i1 < j1 \<Longrightarrow> le (view m2 ! j1) x"
    using scan_down_ok [OF up(2,4)] by (auto elim!: ok_SomeE)
  have rearr: "rearranged ptr hi (view m) (view m2)"
    using parts_bounds [OF up(4)] by (intro rearranged_trans [OF up(3)] rearranged_mono [OF down(3)]) auto
  have pivot: "le x (view m2 ! i1)" if "i1 \<le> j1"
    using that up down by (auto simp: rearranged_def parts_def)
  show ?case
  proof (cases "i1 < j1")
    case True
    obtain m3 where m3: "swap_elt ops i1 j1 m2 = Some ((), m3)" "inv m3" "view m3 = swapped i1 j1 (view m2)"
      "rearranged ptr hi (view m2) (view m3)"
      using swap_rearranges [of m2 ptr i1 hi j1] True down by (auto simp: parts_def elim!: ok_SomeE)
    have parts: "parts x (view m3) ptr lt1 (i1 + 1) j1 gt1 hi"
      using parts_exchange [OF down(4) True] pivot down(6) m3(3) True by simp
    have "ok (partition_loop ops ptr (i1 + 1) lt1 j1 gt1 m3) (\<lambda>(i', lt', gt') m'. inv m' \<and>
      rearranged ptr hi (view m) (view m') \<and> parts x (view m') ptr lt' i' i' gt' hi)"
      by (rule ok_mono [OF less.hyps [OF _ m3(2) parts]])
        (use True up(5) down(5) rearr in \<open>auto intro: rearranged_trans rearranged_trans [OF m3(4)]\<close>)
    then show ?thesis
      using True up(1) down(1) m3(1) by (subst partition_loop.simps) simp
  next
    case False
    have "parts x (view m2) ptr lt1 i1 i1 gt1 hi"
    proof (cases "i1 = j1")
      case True
      then show ?thesis
        using parts_greater [OF down(4)] pivot by simp
    next
      case False
      then have "Suc j1 = i1"
        using \<open>\<not> i1 < j1\<close> down(4) by (simp add: parts_def)
      then show ?thesis
        using down(4) by simp
    qed
    then show ?thesis
      using False up(1) down(1,2) rearr by (subst partition_loop.simps) simp
  qed
qed

lemma med3_ok:
  assumes "inv m" and "a < length (view m)" and "b < length (view m)" and "c < length (view m)"
  shows "ok (med3 ops a b c m) (\<lambda>p m'. inv m' \<and> view m' = view m \<and> (p = a \<or> p = b \<or> p = c))"
proof -
  have cmp: "ok (cmp_elt ops i j m') Q"
    if "inv m'" "view m' = view m" "i < length (view m)" "j < length (view m)"
      "\<And>v m'. inv m' \<Longrightarrow> view m' = view m \<Longrightarrow> Q v m'" for i j m' Q
    using that cmp_ok [of m' i j] by (auto elim!: ok_mono)
  show ?thesis
    unfolding med3_def ok_bind by (auto intro!: cmp simp: assms ok_bind)
qed

end

section \<open>One round\<close>

text \<open>
  Exchanging the shorter of two adjacent blocks with the far end of the longer one exchanges the blocks, up
  to their inner order.
\<close>

lemma adjacent_blocks:
  assumes "a \<le> b" and "b \<le> c" and "span = (if b - a > c - b then c - b else b - a)"
  shows "a \<le> k \<Longrightarrow> k < a + (c - b) \<Longrightarrow> b \<le> origin a (c - span) span k \<and> origin a (c - span) span k < c"
    and "a + (c - b) \<le> k \<Longrightarrow> k < c \<Longrightarrow> a \<le> origin a (c - span) span k \<and> origin a (c - span) span k < b"
    and "k < a \<or> c \<le> k \<Longrightarrow> origin a (c - span) span k = k"
    and "a + span \<le> c - span"
  using assms by (auto simp: origin_def split: if_splits)

lemma block_swapped_nth: "k < length xs \<Longrightarrow> block_swapped a b n xs ! k = xs ! origin a b n k"
  by (simp add: block_swapped_def)

context quick_memory
begin

text \<open>The segment from \<open>ptr\<close> is split in elements below, equal to and above some element.\<close>

definition split3 :: "'a list \<Rightarrow> nat \<Rightarrow> nat \<Rightarrow> nat \<Rightarrow> nat \<Rightarrow> bool" where
  "split3 xs ptr lt gt n \<longleftrightarrow>
     (\<exists>x. (\<forall>k. ptr \<le> k \<and> k < ptr + gt \<longrightarrow> le (xs ! k) x) \<and> (\<forall>k. ptr + lt \<le> k \<and> k < ptr + n \<longrightarrow> le x (xs ! k)))"

lemma parts_blocks:
  assumes p: "parts x xs ptr lt i i gt hi"
    and span: "span = (if lt - ptr > i - lt then i - lt else lt - ptr)"
    and span': "span' = (if hi - gt > gt - i then gt - i else hi - gt)"
  shows "split3 (block_swapped i (hi - span') span' (block_swapped ptr (i - span) span xs)) ptr (i - lt)
    (hi - ptr - (gt - i)) (hi - ptr)"
proof -
  let ?ys = "block_swapped ptr (i - span) span xs"
  let ?zs = "block_swapped i (hi - span') span' ?ys"
  note b = parts_bounds [OF p]
  have o: "ptr \<le> k \<Longrightarrow> k < ptr + (i - lt) \<Longrightarrow> lt \<le> origin ptr (i - span) span k \<and> origin ptr (i - span) span k < i"
    "ptr + (i - lt) \<le> k \<Longrightarrow> k < i \<Longrightarrow> ptr \<le> origin ptr (i - span) span k \<and> origin ptr (i - span) span k < lt"
    "i \<le> k \<Longrightarrow> origin ptr (i - span) span k = k" for k
    using adjacent_blocks(1-3) [OF _ _ span, of k] b by auto
  have span'': "span' = (if gt - i > hi - gt then hi - gt else gt - i)"
    by (simp add: span')
  have o': "i \<le> k \<Longrightarrow> k < i + (hi - gt) \<Longrightarrow> gt \<le> origin i (hi - span') span' k \<and> origin i (hi - span') span' k < hi"
    "i + (hi - gt) \<le> k \<Longrightarrow> k < hi \<Longrightarrow> i \<le> origin i (hi - span') span' k \<and> origin i (hi - span') span' k < gt"
    "k < i \<Longrightarrow> origin i (hi - span') span' k = k" for k
    using adjacent_blocks(1-3) [OF _ _ span'', of k] b by auto
  have zs: "?zs ! k = xs ! origin ptr (i - span) span (origin i (hi - span') span' k)" if "k < hi" for k
    using that b o' [of k] by (cases "k < i"; cases "k < i + (hi - gt)") (auto simp: block_swapped_nth)
  have low: "le (?zs ! k) x" if "ptr \<le> k" "k < i" for k
  proof -
    have "?zs ! k = xs ! origin ptr (i - span) span k"
      using zs [of k] o'(3) [of k] that b by auto
    then show ?thesis
      using o(1,2) [of k] that p by (cases "k < ptr + (i - lt)") (auto simp: parts_def)
  qed
  have high: "?zs ! k = xs ! origin i (hi - span') span' k" if "i \<le> k" "k < hi" for k
    using zs [of k] o(3) o'(1,2) [of k] that b by (cases "k < i + (hi - gt)") auto
  have "le (?zs ! k) x" if "ptr \<le> k" "k < ptr + (hi - ptr - (gt - i))" for k
  proof (cases "k < i")
    case False
    then show ?thesis
      using high [of k] o'(1) [of k] that p b by (auto simp: parts_def)
  qed (use low that in simp)
  moreover have "le x (?zs ! k)" if "ptr + (i - lt) \<le> k" "k < ptr + (hi - ptr)" for k
  proof (cases "k < i")
    case True
    then have "?zs ! k = xs ! origin ptr (i - span) span k"
      using zs [of k] o'(3) [of k] that b by auto
    then show ?thesis
      using o(2) [of k] that True p by (auto simp: parts_def)
  next
    case False
    then have "k < hi" and "i \<le> k"
      using that b by auto
    then show ?thesis
      using high [of k] o'(1,2) [of k] p by (cases "k < i + (hi - gt)") (auto simp: parts_def)
  qed
  ultimately show ?thesis
    unfolding split3_def by blast
qed

lemma partition_segment_ok:
  assumes "inv m" and "6 < n" and "ptr + n \<le> length (view m)"
  shows "ok (partition_segment ops ptr n m) (\<lambda>(lt, gt) m'. inv m' \<and>
    rearranged ptr (ptr + n) (view m) (view m') \<and> lt < gt \<and> gt \<le> n \<and> split3 (view m') ptr lt gt n)"
proof -
  let ?hi = "ptr + n"
  obtain p m1 where med: "med3 ops (ptr + n div 4) (ptr + 2 * (n div 4)) (ptr + 3 * (n div 4)) m = Some (p, m1)"
    "inv m1" "view m1 = view m" "ptr \<le> p" "p < ?hi"
  proof -
    have "3 * (n div 4) < n"
      using assms(2) by linarith
    then show thesis
      using that med3_ok [of m "ptr + n div 4" "ptr + 2 * (n div 4)" "ptr + 3 * (n div 4)"] assms
      by (auto elim!: ok_SomeE)
  qed
  obtain m2 where m2: "swap_elt ops ptr p m1 = Some ((), m2)" "inv m2" "rearranged ptr ?hi (view m) (view m2)"
    using swap_rearranges [of m1 ptr ptr ?hi p] med assms by (auto elim!: ok_SomeE)
  have "parts (view m2 ! ptr) (view m2) ptr (ptr + 1) (ptr + 1) ?hi ?hi ?hi"
    using assms rearranged_length [OF m2(3)] by (auto simp: parts_def le_less_Suc_eq)
  then obtain i lt gt m3 where part: "partition_loop ops ptr (ptr + 1) (ptr + 1) ?hi ?hi m2 = Some ((i, lt, gt), m3)"
    "inv m3" "rearranged ptr ?hi (view m2) (view m3)" "parts (view m2 ! ptr) (view m3) ptr lt i i gt ?hi"
    using partition_loop_ok [OF m2(2)] by (fastforce elim!: ok_SomeE)
  note b = parts_bounds [OF part(4)]
  define span where "span = (if lt - ptr > i - lt then i - lt else lt - ptr)"
  define span' where "span' = (if ?hi - gt > gt - i then gt - i else ?hi - gt)"
  have s: "ptr + span \<le> i - span" "i + span' \<le> ?hi - span'" "span \<le> i" "span' \<le> ?hi"
    using b by (auto simp: span_def span'_def)
  obtain m4 where m4: "swap_block ops ptr (i - span) span m3 = Some ((), m4)" "inv m4"
    "view m4 = block_swapped ptr (i - span) span (view m3)"
    using block_ok [OF part(2), of ptr span "i - span"] s b by (auto elim!: ok_SomeE)
  obtain m5 where m5: "swap_block ops i (?hi - span') span' m4 = Some ((), m5)" "inv m5"
    "view m5 = block_swapped i (?hi - span') span' (view m4)"
    using block_ok [OF m4(2), of i span' "?hi - span'"] s b m4(3) by (auto elim!: ok_SomeE)
  have "rearranged ptr ?hi (view m3) (view m4)" "rearranged ptr ?hi (view m4) (view m5)"
    using s b m4(3) m5(3) by (auto intro!: rearranged_block_swapped)
  then have "rearranged ptr ?hi (view m) (view m5)"
    using m2(3) part(3) by (blast intro: rearranged_trans)
  moreover have "split3 (view m5) ptr (i - lt) (n - (gt - i)) n"
    using parts_blocks [OF part(4) span_def span'_def] m4(3) m5(3) by simp
  moreover have "i - lt < n - (gt - i)" and "n - (gt - i) \<le> n"
    using b by linarith+
  ultimately show ?thesis
    using med(1) m2(1) part(1) m4(1) m5(1,2) b unfolding partition_segment_def span_def span'_def
    by (simp add: Let_def del: diff_diff_right)
qed

end

section \<open>Insertion sort\<close>

context sort_memory
begin

definition sorted_seg :: "'a list \<Rightarrow> nat \<Rightarrow> nat \<Rightarrow> bool" where
  "sorted_seg xs p n \<longleftrightarrow> (\<forall>k l. k < l \<and> l < n \<longrightarrow> le (xs ! (p + k)) (xs ! (p + l)))"

text \<open>The first \<open>i + 1\<close> elements are sorted, except that the one at \<open>j\<close> may be too small for its place.\<close>

definition sorted_but :: "'a list \<Rightarrow> nat \<Rightarrow> nat \<Rightarrow> nat \<Rightarrow> bool" where
  "sorted_but xs p i j \<longleftrightarrow> (\<forall>k l. k < l \<and> l \<le> i \<and> l \<noteq> j \<longrightarrow> le (xs ! (p + k)) (xs ! (p + l)))"

lemma sorted_but_step:
  assumes s: "sorted_but xs p i (Suc j)" and "Suc j \<le> i" and "p + i < length xs"
    and le: "le (xs ! (p + Suc j)) (xs ! (p + j))"
  shows "sorted_but (swapped (p + Suc j) (p + j) xs) p i j"
proof -
  have nth: "swapped (p + Suc j) (p + j) xs ! (p + k) =
    (if k = j then xs ! (p + Suc j) else if k = Suc j then xs ! (p + j) else xs ! (p + k))" for k
    using assms by (subst swapped_nth) auto
  have "le (swapped (p + Suc j) (p + j) xs ! (p + k)) (swapped (p + Suc j) (p + j) xs ! (p + l))"
    if "k < l" "l \<le> i" "l \<noteq> j" for k l
  proof (cases "l = Suc j")
    case True
    then show ?thesis
      using that s le assms(2) by (auto simp: nth sorted_but_def less_Suc_eq simp del: add_Suc_right)
  next
    case False
    then show ?thesis
      using that s assms(2) by (auto simp: nth sorted_but_def simp del: add_Suc_right)
  qed
  then show ?thesis
    by (simp add: sorted_but_def)
qed

lemma sorted_but_done:
  assumes s: "sorted_but xs p i (Suc j)" and "Suc j \<le> i" and le: "le (xs ! (p + j)) (xs ! (p + Suc j))"
  shows "sorted_seg xs p (Suc i)"
proof -
  have "le (xs ! (p + k)) (xs ! (p + l))" if "k < l" "l \<le> i" for k l
  proof (cases "l = Suc j")
    case True
    moreover have "k < j \<Longrightarrow> le (xs ! (p + k)) (xs ! (p + j))"
      using s assms(2) by (auto simp: sorted_but_def)
    ultimately show ?thesis
      using that le by (cases "k = j") (auto intro: le_trans simp del: add_Suc_right)
  qed (use that s in \<open>auto simp: sorted_but_def\<close>)
  then show ?thesis
    by (simp add: sorted_seg_def less_Suc_eq_le)
qed

lemma insert_down_ok:
  assumes "inv m" and "p + i < length (view m)" and "j \<le> i" and "sorted_but (view m) p i j"
  shows "ok (insert_down ops p j m) (\<lambda>_ m'. inv m' \<and> rearranged p (p + Suc i) (view m) (view m') \<and>
    sorted_seg (view m') p (Suc i))"
  using assms
proof (induction j arbitrary: m)
  case 0
  then show ?case
    by (auto simp: sorted_but_def sorted_seg_def less_Suc_eq_le)
next
  case (Suc j)
  obtain v m1 where v: "cmp_elt ops (p + j) (p + Suc j) m = Some (v, m1)" "inv m1" "view m1 = view m"
    "v \<le> 0 \<Longrightarrow> le (view m ! (p + j)) (view m ! (p + Suc j))"
    "0 \<le> v \<Longrightarrow> le (view m ! (p + Suc j)) (view m ! (p + j))"
    using cmp_ok [of m "p + j" "p + Suc j"] Suc.prems by (auto elim!: ok_SomeE)
  obtain m2 where m2: "swap_elt ops (p + Suc j) (p + j) m1 = Some ((), m2)" "inv m2"
    "view m2 = swapped (p + Suc j) (p + j) (view m)" "rearranged p (p + Suc i) (view m) (view m2)"
    using swap_rearranges [of m1 p "p + Suc j" "p + Suc i" "p + j"] v(2,3) Suc.prems by (auto elim!: ok_SomeE)
  have "ok (insert_down ops p j m2) (\<lambda>_ m'. inv m' \<and> rearranged p (p + Suc i) (view m) (view m') \<and>
    sorted_seg (view m') p (Suc i))" if "v > 0"
  proof -
    have "sorted_but (view m2) p i j"
      using sorted_but_step [OF Suc.prems(4,3,2)] v(5) m2(3) that by simp
    then have "ok (insert_down ops p j m2) (\<lambda>_ m'. inv m' \<and> rearranged p (p + Suc i) (view m2) (view m') \<and>
      sorted_seg (view m') p (Suc i))"
      using Suc.IH [OF m2(2)] Suc.prems(2,3) m2(3) by (simp del: add_Suc_right)
    then show ?thesis
      by (rule ok_mono) (blast intro: rearranged_trans [OF m2(4)])
  qed
  moreover have "v \<le> 0 \<Longrightarrow> sorted_seg (view m) p (Suc i)"
    using sorted_but_done [OF Suc.prems(4,3)] v(4) by simp
  ultimately show ?case
    using v(1-3) m2(1) by auto
qed

lemma insertion_loop_ok:
  assumes "inv m" and "p + (i + k) \<le> length (view m)" and "sorted_seg (view m) p i"
  shows "ok (insertion_loop ops p i k m) (\<lambda>_ m'. inv m' \<and> rearranged p (p + (i + k)) (view m) (view m') \<and>
    sorted_seg (view m') p (i + k))"
  using assms
proof (induction k arbitrary: i m)
  case (Suc k)
  have "sorted_but (view m) p i i"
    using Suc.prems(3) by (auto simp: sorted_but_def sorted_seg_def)
  then obtain m1 where m1: "insert_down ops p i m = Some ((), m1)" "inv m1"
    "rearranged p (p + Suc i) (view m) (view m1)" "sorted_seg (view m1) p (Suc i)"
    using insert_down_ok [of m p i i] Suc.prems by (auto elim!: ok_SomeE)
  have "rearranged p (p + (i + Suc k)) (view m) (view m1)"
    by (rule rearranged_mono [OF m1(3)]) auto
  moreover have "ok (insertion_loop ops p (Suc i) k m1) (\<lambda>_ m'. inv m' \<and>
    rearranged p (p + (i + Suc k)) (view m1) (view m') \<and> sorted_seg (view m') p (i + Suc k))"
    using Suc.IH [of m1 "Suc i"] m1 Suc.prems(2) rearranged_length [OF m1(3)] by simp
  ultimately show ?case
    using m1(1) by (auto elim!: ok_mono intro: rearranged_trans)
qed simp

end

end
