(* ===== verification/Segments.thy ===== *)
theory Segments
  imports QuickSort
begin

text \<open>
  The stack of segments of \<open>rqsort\<close>: the segments that wait on it are disjoint, any two elements that are not
  in one of them are in order, and its depth stays below 50. So the loop ends with a sorted array.
\<close>

section \<open>Pending segments\<close>

fun disjoint_segs :: "segment list \<Rightarrow> nat \<Rightarrow> bool" where
  "disjoint_segs [] N \<longleftrightarrow> True"
| "disjoint_segs ((p, n, d) # segs) N \<longleftrightarrow>
     p + n \<le> N \<and> (\<forall>(q, k, e) \<in> set segs. p + n \<le> q \<or> q + k \<le> p) \<and> disjoint_segs segs N"

text \<open>An entry of the stack has been split at least as often as there are entries below it.\<close>

fun depths_ok :: "segment list \<Rightarrow> bool" where
  "depths_ok [] \<longleftrightarrow> True"
| "depths_ok ((p, n, d) # segs) \<longleftrightarrow> length segs \<le> d \<and> depths_ok segs"

definition weight :: "segment list \<Rightarrow> nat" where
  "weight segs = sum_list (map (\<lambda>(p, n, d). n + 1) segs)"

lemma weight_simps [simp]: "weight [] = 0" "weight ((p, n, d) # segs) = n + 1 + weight segs"
  by (simp_all add: weight_def)

lemma disjoint_segs_shrink:
  assumes "disjoint_segs ((p, n, d) # segs) N" and "p \<le> q" and "q + k \<le> p + n"
  shows "disjoint_segs ((q, k, e) # segs) N"
  using assms by fastforce

context quick_memory
begin

definition pending :: "segment list \<Rightarrow> 'a list \<Rightarrow> bool" where
  "pending segs xs \<longleftrightarrow> disjoint_segs segs (length xs) \<and>
     (\<forall>k l. k < l \<and> l < length xs \<and> (\<forall>(p, n, d) \<in> set segs. \<not> (p \<le> k \<and> l < p + n)) \<longrightarrow> le (xs ! k) (xs ! l))"

lemma pendingD:
  "pending segs xs \<Longrightarrow> k < l \<Longrightarrow> l < length xs \<Longrightarrow> \<forall>(p, n, d) \<in> set segs. \<not> (p \<le> k \<and> l < p + n) \<Longrightarrow>
    le (xs ! k) (xs ! l)"
  by (auto simp: pending_def)

lemma outside_disjoint:
  assumes "disjoint_segs ((p, n, d) # segs) N" and "p \<le> j" and "j < p + n" and "(q, k, e) \<in> set segs"
  shows "\<not> (q \<le> j \<and> j < q + k)"
  using assms by fastforce

lemma pending_rearranged:
  assumes pend: "pending ((p, n, d) # segs) xs" and re: "rearranged p (p + n) xs ys"
  shows "pending ((p, n, d) # segs) ys"
proof -
  have N: "length ys = length xs" "p + n \<le> length xs"
    using pend re by (auto simp: pending_def rearranged_def)
  have dis: "disjoint_segs ((p, n, d) # segs) (length xs)"
    using pend by (simp add: pending_def)
  have out: "ys ! k = xs ! k" if "k < p \<or> p + n \<le> k" "k < length xs" for k
    using re that by (auto simp: rearranged_def)
  have "le (ys ! k) (ys ! l)"
    if kl: "k < l" "l < length xs" "\<forall>(q, j, e) \<in> set ((p, n, d) # segs). \<not> (q \<le> k \<and> l < q + j)" for k l
  proof -
    consider "p \<le> k" "k < p + n" "p + n \<le> l" | "p \<le> l" "l < p + n" "k < p"
      | "k < p \<or> p + n \<le> k" "l < p \<or> p + n \<le> l"
      using kl by fastforce
    then show ?thesis
    proof cases
      case 1
      then obtain k' where k': "p \<le> k'" "k' < p + n" "ys ! k = xs ! k'"
        using rearranged_from [OF re] N by blast
      have "\<forall>(q, j, e) \<in> set ((p, n, d) # segs). \<not> (q \<le> k' \<and> l < q + j)"
        using outside_disjoint [OF dis k'(1,2)] k' 1 by fastforce
      then show ?thesis
        using pendingD [OF pend, of k' l] k' 1 kl out [of l] by auto
    next
      case 2
      then obtain l' where l': "p \<le> l'" "l' < p + n" "ys ! l = xs ! l'"
        using rearranged_from [OF re] N by blast
      have "\<forall>(q, j, e) \<in> set ((p, n, d) # segs). \<not> (q \<le> k \<and> l' < q + j)"
        using outside_disjoint [OF dis l'(1,2)] l' 2 by fastforce
      then show ?thesis
        using pendingD [OF pend, of k l'] l' 2 N out [of k] by auto
    next
      case 3
      then show ?thesis
        using pendingD [OF pend kl] out kl by simp
    qed
  qed
  then show ?thesis
    using dis N by (auto simp: pending_def)
qed

lemma pending_sorted:
  assumes "pending ((p, n, d) # segs) xs" and "sorted_seg xs p n"
  shows "pending ((p, 0, e) # segs) xs"
proof -
  have "le (xs ! k) (xs ! l)"
    if "k < l" "l < length xs" "\<forall>(q, j, e) \<in> set segs. \<not> (q \<le> k \<and> l < q + j)" for k l
  proof (cases "p \<le> k \<and> l < p + n")
    case True
    moreover from this have "k - p < l - p" and "l - p < n"
      using that(1) by auto
    then have "le (xs ! (p + (k - p))) (xs ! (p + (l - p)))"
      using assms(2) unfolding sorted_seg_def by blast
    ultimately show ?thesis
      using that(1) by simp
  next
    case False
    then show ?thesis
      using pendingD [OF assms(1), of k l] that by simp
  qed
  moreover have "disjoint_segs ((p, 0, e) # segs) (length xs)"
    using disjoint_segs_shrink [of p n d segs "length xs" p 0 e] assms(1) by (auto simp: pending_def)
  ultimately show ?thesis
    by (auto simp: pending_def)
qed

lemma pending_drop: "pending ((p, 0, d) # segs) xs \<Longrightarrow> pending segs xs"
  by (auto simp: pending_def)

lemma pending_split:
  assumes pend: "pending ((p, n, d) # segs) xs" and "split3 xs p lt gt n" and "lt < gt" and "gt \<le> n"
  shows "pending ((p, lt, e) # (p + gt, n - gt, f) # segs) xs" and "pending ((p + gt, n - gt, f) # (p, lt, e) # segs) xs"
proof -
  obtain x where x: "\<And>k. p \<le> k \<Longrightarrow> k < p + gt \<Longrightarrow> le (xs ! k) x" "\<And>k. p + lt \<le> k \<Longrightarrow> k < p + n \<Longrightarrow> le x (xs ! k)"
    using assms(2) by (auto simp: split3_def)
  have ord: "le (xs ! k) (xs ! l)"
    if "k < l" "l < length xs" "\<not> (p \<le> k \<and> l < p + lt)" "\<not> (p + gt \<le> k \<and> l < p + n)"
      "\<forall>(q, j, e) \<in> set segs. \<not> (q \<le> k \<and> l < q + j)" for k l
  proof (cases "p \<le> k \<and> l < p + n")
    case True
    then show ?thesis
      using x(1) [of k] x(2) [of l] that assms(3,4) by (auto intro: le_trans)
  next
    case False
    then show ?thesis
      using pendingD [OF pend, of k l] that by simp
  qed
  have "disjoint_segs ((p, n, d) # segs) (length xs)"
    using pend by (simp add: pending_def)
  from disjoint_segs_shrink [OF this, of p lt e] disjoint_segs_shrink [OF this, of "p + gt" "n - gt" f]
  have "disjoint_segs ((p, lt, e) # segs) (length xs)" "disjoint_segs ((p + gt, n - gt, f) # segs) (length xs)"
    using assms(3,4) by auto
  then show "pending ((p, lt, e) # (p + gt, n - gt, f) # segs) xs" "pending ((p + gt, n - gt, f) # (p, lt, e) # segs) xs"
    using ord assms(3,4) by (auto simp: pending_def)
qed

end

section \<open>The loops\<close>

context quick_memory
begin

lemma push_ok: "length stack \<le> d \<Longrightarrow> d < 50 \<Longrightarrow> push e stack = Some (e # stack)"
  by (simp add: push_def)

definition split_post :: "'m \<Rightarrow> nat \<Rightarrow> nat \<times> nat \<times> segment list \<Rightarrow> 'm \<Rightarrow> bool" where
  "split_post m w = (\<lambda>(p, n, stack) m'. inv m' \<and> rearranged 0 (length (view m)) (view m) (view m') \<and>
     pending ((p, n, 0) # stack) (view m') \<and> depths_ok stack \<and> n + weight stack \<le> w)"

lemma split_post_trans:
  assumes "rearranged p (p + n) (view m) (view m1)" and "p + n \<le> length (view m)" and "w1 \<le> w"
    and "split_post m1 w1 r m2"
  shows "split_post m w r m2"
proof -
  have "rearranged 0 (length (view m)) (view m) (view m1)"
    using assms(1,2) by (auto intro: rearranged_mono)
  then show ?thesis
    using assms(3,4) rearranged_length [OF assms(1)]
    by (auto simp: split_post_def intro: rearranged_trans)
qed

lemma split_segment_ok:
  assumes "inv m" and "pending ((p, n, d) # stack) (view m)" and "length stack \<le> d" and "depths_ok stack"
  shows "ok (split_segment ops p n d stack m) (split_post m (n + weight stack))"
  using assms
proof (induction n arbitrary: p d stack m rule: less_induct)
  case (less n)
  note pend = less.prems(2)
  have fits: "p + n \<le> length (view m)"
    using pend by (simp add: pending_def)
  consider "n \<le> 6" | "6 < n" "50 \<le> d" | "6 < n" "d < 50"
    by linarith
  then show ?case
  proof cases
    case 1
    then show ?thesis
      using less.prems by (subst split_segment.simps) (auto simp: split_post_def pending_def)
  next
    case 2
    obtain m1 where m1: "heapsort_at ops p n m = Some ((), m1)" "inv m1" "rearranged p (p + n) (view m) (view m1)"
      "sorted_seg (view m1) p n"
      using heapsort_ok [OF less.prems(1) fits] by (auto simp: sorted_seg_def elim!: ok_SomeE)
    then have "pending ((p, 0, 0) # stack) (view m1)"
      using pending_sorted pending_rearranged [OF pend] by blast
    then have "split_post m1 (weight stack) (p, 0, stack) m1"
      using m1(2) less.prems(4) by (simp add: split_post_def)
    then have "split_post m (n + weight stack) (p, 0, stack) m1"
      by (intro split_post_trans [OF m1(3) fits]) auto
    then show ?thesis
      using 2 m1(1) by (subst split_segment.simps) simp
  next
    case 3
    obtain lt gt m1 where m1: "partition_segment ops p n m = Some ((lt, gt), m1)" "inv m1"
      "rearranged p (p + n) (view m) (view m1)" "lt < gt" "gt \<le> n" "split3 (view m1) p lt gt n"
      using partition_segment_ok [OF less.prems(1) _ fits] 3 by (auto elim!: ok_SomeE)
    note split = pending_split [OF pending_rearranged [OF pend m1(3)] m1(6,4,5)]
    have "ok (split_segment ops (p + gt) (n - gt) (d + 1) ((p, lt, d + 1) # stack) m1)
        (split_post m1 (n - gt + weight ((p, lt, d + 1) # stack)))"
      using split(2) m1 less.prems(3,4) by (intro less.IH) auto
    then have a: "ok (split_segment ops (p + gt) (n - gt) (d + 1) ((p, lt, d + 1) # stack) m1)
        (split_post m (n + weight stack))"
      by (rule ok_mono) (use m1(4,5) in \<open>intro split_post_trans [OF m1(3) fits], auto\<close>)
    have "ok (split_segment ops p lt (d + 1) ((p + gt, n - gt, d + 1) # stack) m1)
        (split_post m1 (lt + weight ((p + gt, n - gt, d + 1) # stack)))"
      using split(1) m1 less.prems(3,4) by (intro less.IH) auto
    then have b: "ok (split_segment ops p lt (d + 1) ((p + gt, n - gt, d + 1) # stack) m1)
        (split_post m (n + weight stack))"
      by (rule ok_mono) (use m1(4,5) in \<open>intro split_post_trans [OF m1(3) fits], auto\<close>)
    show ?thesis
      using a b m1(1) 3 push_ok [OF less.prems(3)] by (subst split_segment.simps) simp
  qed
qed

lemma segments_loop_ok:
  assumes "inv m" and "pending stack (view m)" and "depths_ok stack"
  shows "ok (segments_loop ops stack m) (\<lambda>_ m'. inv m' \<and> rearranged 0 (length (view m)) (view m) (view m') \<and>
    pending [] (view m'))"
  using assms
proof (induction "weight stack" arbitrary: stack m rule: less_induct)
  case less
  show ?case
  proof (cases stack)
    case Nil
    then show ?thesis
      using less.prems by (subst segments_loop.simps) simp
  next
    case (Cons e stack')
    obtain p n d where e: "e = (p, n, d)"
      by (cases e)
    obtain q k stack1 m1 where split: "split_segment ops p n d stack' m = Some ((q, k, stack1), m1)"
      "split_post m (n + weight stack') (q, k, stack1) m1"
      using split_segment_ok [OF less.prems(1), of p n d stack'] less.prems Cons e by (auto elim!: ok_SomeE)
    then have m1: "inv m1" "rearranged 0 (length (view m)) (view m) (view m1)"
      "pending ((q, k, 0) # stack1) (view m1)" "depths_ok stack1" "weight stack1 < weight stack"
      using Cons e by (auto simp: split_post_def)
    have fits: "q + k \<le> length (view m1)"
      using m1(3) by (simp add: pending_def)
    have "ok (insertion_loop ops q 1 (k - 1) m1) (\<lambda>_ m'. inv m' \<and>
      rearranged q (q + k) (view m1) (view m') \<and> sorted_seg (view m') q k)"
    proof (cases k)
      case 0
      then show ?thesis
        using m1(1) by (simp add: sorted_seg_def)
    next
      case (Suc k')
      then show ?thesis
        using insertion_loop_ok [of m1 q 1 k'] m1(1) fits by (simp add: sorted_seg_def)
    qed
    then obtain m2 where m2: "insertion_loop ops q 1 (k - 1) m1 = Some ((), m2)" "inv m2"
      "rearranged q (q + k) (view m1) (view m2)" "sorted_seg (view m2) q k"
      by (auto elim!: ok_SomeE)
    have "pending stack1 (view m2)"
      using pending_drop pending_sorted [OF pending_rearranged [OF m1(3) m2(3)] m2(4)] by blast
    then have "ok (segments_loop ops stack1 m2) (\<lambda>_ m'. inv m' \<and>
      rearranged 0 (length (view m2)) (view m2) (view m') \<and> pending [] (view m'))"
      using less.hyps [OF m1(5) m2(2)] m1(4) by blast
    moreover have "rearranged 0 (length (view m)) (view m) (view m2)"
      using m1(2) rearranged_mono [OF m2(3), of 0 "length (view m)"] fits rearranged_length [OF m1(2)]
      by (auto intro: rearranged_trans)
    ultimately show ?thesis
      using Cons e split(1) m2(1) rearranged_length [of 0 "length (view m)" "view m" "view m2"]
      by (subst segments_loop.simps) (auto elim!: ok_mono intro: rearranged_trans)
  qed
qed

theorem quick_sort_ok:
  assumes "inv m"
  shows "ok (quick_sort ops (length (view m)) m) (\<lambda>_ m'. inv m' \<and> mset (view m') = mset (view m) \<and>
    sorted_wrt le (view m'))"
proof (cases "length (view m) < 2")
  case True
  then have "sorted_wrt le (view m)"
    by (cases "view m"; cases "tl (view m)") auto
  then show ?thesis
    using True assms by (simp add: quick_sort_def)
next
  case False
  have "pending [(0, length (view m), 0)] (view m)"
    by (simp add: pending_def)
  then have "ok (segments_loop ops [(0, length (view m), 0)] m) (\<lambda>_ m'. inv m' \<and>
    rearranged 0 (length (view m)) (view m) (view m') \<and> pending [] (view m'))"
    using assms by (intro segments_loop_ok) auto
  then show ?thesis
    using False by (auto simp: quick_sort_def pending_def rearranged_def sorted_wrt_iff_nth_less elim!: ok_mono)
qed

end

end
