(* ===== verification/Rqsort.thy ===== *)
theory Rqsort
  imports Segments
begin

text \<open>
  \<open>rqsort\<close> and \<open>heapsortx\<close> (cutils.c) on memory: elements are blocks of \<open>sz\<close> bytes from the address \<open>base\<close>, and
  are exchanged by the functions that \<open>exchange_func\<close> chooses. The comparison function sees the bytes of two
  elements and may change a state of its own.
\<close>

unbundle bit_operations_syntax

section \<open>The functions\<close>

type_synonym 's cmp_f = "u8 list \<Rightarrow> u8 list \<Rightarrow> 's \<Rightarrow> int \<times> 's"

definition cmp_at :: "'s cmp_f \<Rightarrow> nat \<Rightarrow> nat \<Rightarrow> nat \<Rightarrow> nat \<Rightarrow> mem \<times> 's \<Rightarrow> (int \<times> mem \<times> 's) option" where
  "cmp_at cmp base sz i j = (\<lambda>(mem, s).
     if base + (i + 1) * sz \<le> length mem \<and> base + (j + 1) * sz \<le> length mem
     then (let (c, s) = cmp (bytes_at (base + i * sz) sz mem) (bytes_at (base + j * sz) sz mem) s in Some (c, mem, s))
     else None)"

definition exchange_at :: "exchange_f \<Rightarrow> nat \<Rightarrow> nat \<Rightarrow> nat \<Rightarrow> nat \<Rightarrow> nat \<Rightarrow> mem \<times> 's \<Rightarrow> (unit \<times> mem \<times> 's) option" where
  "exchange_at f base sz i j n = (\<lambda>(mem, s).
     map_option (\<lambda>mem. ((), mem, s)) (f mem (base + i * sz) (base + j * sz) (n * sz)))"

definition heapsortx :: "'s cmp_f \<Rightarrow> nat \<Rightarrow> nat \<Rightarrow> nat \<Rightarrow> mem \<times> 's \<Rightarrow> (unit \<times> mem \<times> 's) option" where
  "heapsortx cmp base nmemb sz =
     heap_sort
       \<lparr>cmp_elt = cmp_at cmp base sz,
        swap_elt = (\<lambda>i j. exchange_at (exchange_func base sz) base sz i j 1)\<rparr>
       nmemb"

definition rqsort_ops :: "'s cmp_f \<Rightarrow> nat \<Rightarrow> nat \<Rightarrow> (mem \<times> 's) quick_ops" where
  "rqsort_ops cmp base sz =
     \<lparr>cmp_elt = cmp_at cmp base sz,
      swap_elt = (\<lambda>i j. exchange_at (exchange_func base sz) base sz i j 1),
      swap_block = (\<lambda>i j n. exchange_at (exchange_func base (sz OR 128)) base sz i j n),
      heapsort_at = (\<lambda>p n. heapsortx cmp (base + p * sz) n sz)\<rparr>"

definition rqsort :: "'s cmp_f \<Rightarrow> nat \<Rightarrow> nat \<Rightarrow> nat \<Rightarrow> mem \<times> 's \<Rightarrow> (unit \<times> mem \<times> 's) option" where
  "rqsort cmp base nmemb sz m =
     (if nmemb < 2 \<or> sz \<le> 0 then Some ((), m) else quick_sort (rqsort_ops cmp base sz) nmemb m)"

section \<open>Memory as an array\<close>

definition elems :: "nat \<Rightarrow> nat \<Rightarrow> nat \<Rightarrow> mem \<Rightarrow> u8 list list" where
  "elems base n sz mem = map (\<lambda>k. bytes_at (base + k * sz) sz mem) [0..<n]"

definition array_of :: "nat \<Rightarrow> nat \<Rightarrow> nat \<Rightarrow> mem \<times> 's \<Rightarrow> u8 list list" where
  "array_of base n sz m = elems base n sz (fst m)"

text \<open>The array is inside the memory, and outside of it the memory is the initial one.\<close>

definition array_in :: "nat \<Rightarrow> nat \<Rightarrow> nat \<Rightarrow> mem \<Rightarrow> mem \<times> 's \<Rightarrow> bool" where
  "array_in base n sz mem0 m \<longleftrightarrow>
     base + n * sz \<le> length mem0 \<and> length (fst m) = length mem0 \<and>
     (\<forall>k < length mem0. k < base \<or> base + n * sz \<le> k \<longrightarrow> fst m ! k = mem0 ! k)"

lemma length_elems [simp]: "length (elems base n sz mem) = n"
  by (simp add: elems_def)

lemma elems_nth: "k < n \<Longrightarrow> elems base n sz mem ! k = bytes_at (base + k * sz) sz mem"
  by (simp add: elems_def)

lemma block_le: "t < (sz :: nat) \<Longrightarrow> a * sz \<le> k * sz + t \<longleftrightarrow> a \<le> k"
  using less_eq_div_iff_mult_less_eq [of sz a "k * sz + t"] by simp

lemma origin_elements:
  assumes "t < sz"
  shows "origin (base + a * sz) (base + b * sz) (n * sz) (base + k * sz + t) = base + origin a b n k * sz + t"
proof -
  have ge: "base + c * sz \<le> base + k * sz + t \<longleftrightarrow> c \<le> k" for c
    using block_le [OF assms, of c k] by simp
  have lt: "base + k * sz + t < base + c * sz + n * sz \<longleftrightarrow> k < c + n" for c
    using block_le [OF assms, of "c + n" k] by (simp add: add_mult_distrib not_le [symmetric])
  have off: "base + e * sz + (base + k * sz + t - (base + c * sz)) = base + (e + (k - c)) * sz + t"
    if c: "c \<le> k" for c e
  proof -
    obtain d where "k = c + d"
      using c by (auto simp: le_iff_add)
    then show ?thesis
      by (simp add: add_mult_distrib)
  qed
  show ?thesis
    by (auto simp only: origin_def ge lt off split: if_split)
qed

lemma fits_le: "c \<le> N \<Longrightarrow> base + N * sz \<le> L \<Longrightarrow> base + c * sz \<le> (L :: nat)"
  by (meson add_le_mono le_refl le_trans mult_le_mono1)

lemma elems_exchanged:
  assumes "a = b \<or> a + n \<le> b \<or> b + n \<le> a" and "a + n \<le> N" and "b + n \<le> N" and "base + N * sz \<le> length mem"
  shows "elems base N sz (exchanged (base + a * sz) (base + b * sz) (n * sz) mem) =
    map (\<lambda>k. elems base N sz mem ! origin a b n k) [0..<N]"
    and "apart (base + a * sz) (base + b * sz) (n * sz) mem"
proof -
  have le: "c + n \<le> d \<Longrightarrow> c * sz + n * sz \<le> d * sz" for c d
    by (metis add_mult_distrib mult_le_mono1)
  show ap: "apart (base + a * sz) (base + b * sz) (n * sz) mem"
    using assms(1) le [OF assms(2)] le [OF assms(3)] assms(4) le [of a b] le [of b a] by (auto simp: apart_def)
  have "bytes_at (base + k * sz) sz (exchanged (base + a * sz) (base + b * sz) (n * sz) mem) =
    bytes_at (base + origin a b n k * sz) sz mem" if k: "k < N" for k
  proof -
    have o: "origin a b n k < N"
      using k assms(1-3) by (auto simp: origin_def)
    have "base + k * sz + sz \<le> length mem" "base + origin a b n k * sz + sz \<le> length mem"
      using fits_le [of "Suc k" N base sz "length mem"] fits_le [of "Suc (origin a b n k)" N base sz "length mem"]
        k o assms(4) by (simp_all add: algebra_simps)
    then show ?thesis
      using ap by (intro nth_equalityI) (simp_all add: length_bytes_at length_exchanged bytes_at_nth exchanged_origin origin_elements)
  qed
  then show "elems base N sz (exchanged (base + a * sz) (base + b * sz) (n * sz) mem) =
    map (\<lambda>k. elems base N sz mem ! origin a b n k) [0..<N]"
    using assms(1-3) by (auto simp: elems_def origin_def)
qed

section \<open>The operations on elements\<close>

lemma exchange_at_ok:
  assumes "a = b \<or> a + n \<le> b \<or> b + n \<le> a" and "a + n \<le> N" and "b + n \<le> N"
    and "array_in base N sz mem0 (mem, s)" and "z = sz \<and> n = 1 \<or> z = sz OR 128"
  shows "exchange_at (exchange_func base z) base sz a b n (mem, s) =
      Some ((), exchanged (base + a * sz) (base + b * sz) (n * sz) mem, s)"
    and "array_in base N sz mem0 (exchanged (base + a * sz) (base + b * sz) (n * sz) mem, s)"
proof -
  have fits: "base + N * sz \<le> length mem"
    using assms(4) by (simp add: array_in_def)
  note ap = elems_exchanged(2) [OF assms(1-3) fits]
  have "int 128 \<le> int (128 OR sz)"
    unfolding of_nat_or_eq by (rule or_greater_eq) simp
  then have "128 \<le> sz OR 128"
    by (simp add: or.commute del: of_nat_numeral)
  moreover have "2 ^ j dvd base \<Longrightarrow> 2 ^ j dvd z \<Longrightarrow>
    2 ^ j dvd base + a * sz \<and> 2 ^ j dvd base + b * sz \<and> 2 ^ j dvd n * sz" for j
    using assms(5) by (auto simp: dvd_or_iff)
  ultimately have "exchange_func base z mem (base + a * sz) (base + b * sz) (n * sz) =
    Some (exchanged (base + a * sz) (base + b * sz) (n * sz) mem)"
    using assms(5) by (intro exchange_func_ok [OF ap]) auto
  then show "exchange_at (exchange_func base z) base sz a b n (mem, s) =
      Some ((), exchanged (base + a * sz) (base + b * sz) (n * sz) mem, s)"
    by (simp add: exchange_at_def)
  have "base + c * sz + n * sz \<le> base + N * sz" if "c + n \<le> N" for c
    using mult_le_mono1 [OF that, of sz] by (simp add: add_mult_distrib)
  from this [OF assms(2)] this [OF assms(3)]
  show "array_in base N sz mem0 (exchanged (base + a * sz) (base + b * sz) (n * sz) mem, s)"
    using assms(4) ap by (auto simp: array_in_def length_exchanged exchanged_origin origin_def)
qed

lemma swapped_origin:
  assumes "i < length xs" and "j < length xs"
  shows "map (\<lambda>k. xs ! origin i j 1 k) [0..<length xs] = swapped i j xs"
  using assms by (intro nth_equalityI) (auto simp: swapped_nth origin_def)

text \<open>A segment of the array is the array of the segment.\<close>

lemma elems_append: "elems base (p + q) sz mem = elems base p sz mem @ elems (base + p * sz) q sz mem"
proof -
  have "[p..<p + q] = map (\<lambda>k. k + p) [0..<q]"
    by (simp add: map_add_upt add.commute)
  then have "[0..<p + q] = [0..<p] @ map (\<lambda>k. k + p) [0..<q]"
    using upt_add_eq_append [of 0 p q] by simp
  then show ?thesis
    by (simp add: elems_def algebra_simps)
qed

lemma elems_outside:
  assumes "base + n * sz \<le> length mem" and "length mem' = length mem"
    and "\<And>k. base \<le> k \<Longrightarrow> k < base + n * sz \<Longrightarrow> mem' ! k = mem ! k"
  shows "elems base n sz mem' = elems base n sz mem"
proof -
  have "bytes_at (base + k * sz) sz mem' = bytes_at (base + k * sz) sz mem" if "k < n" for k
  proof -
    have "k * sz + sz \<le> n * sz"
      using mult_le_mono1 [of "Suc k" n sz] that by simp
    then show ?thesis
      using assms by (intro nth_equalityI) (auto simp: length_bytes_at bytes_at_nth)
  qed
  then show ?thesis
    by (simp add: elems_def)
qed

lemma rearranged_segment:
  assumes m: "array_in base N sz mem0 (mem, s)" and m': "array_in (base + p * sz) n sz mem (mem', s')"
    and "p + n \<le> N"
  shows "array_in base N sz mem0 (mem', s')"
    and "k < n \<Longrightarrow> elems base N sz mem' ! (p + k) = elems (base + p * sz) n sz mem' ! k"
    and "mset (elems (base + p * sz) n sz mem') = mset (elems (base + p * sz) n sz mem) \<Longrightarrow>
      rearranged p (p + n) (elems base N sz mem) (elems base N sz mem')"
proof -
  obtain r where N: "N = p + n + r"
    using \<open>p + n \<le> N\<close> by (auto simp: le_iff_add)
  have split: "elems base N sz x =
    elems base p sz x @ elems (base + p * sz) n sz x @ elems (base + (p + n) * sz) r sz x" for x
    by (simp add: N elems_append add_mult_distrib add.assoc)
  have len: "base + N * sz \<le> length mem" "length mem' = length mem"
    using m m' by (auto simp: array_in_def)
  have out: "mem' ! k = mem ! k" if "k < length mem" "k < base + p * sz \<or> base + (p + n) * sz \<le> k" for k
    using m' that by (auto simp: array_in_def add_mult_distrib)
  have low: "elems base p sz mem' = elems base p sz mem"
    using len out by (intro elems_outside) (auto simp: N add_mult_distrib)
  have high: "elems (base + (p + n) * sz) r sz mem' = elems (base + (p + n) * sz) r sz mem"
    using len out by (intro elems_outside) (auto simp: N add_mult_distrib)
  show "array_in base N sz mem0 (mem', s')"
    using m m' len out by (auto simp: array_in_def N add_mult_distrib)
  show "k < n \<Longrightarrow> elems base N sz mem' ! (p + k) = elems (base + p * sz) n sz mem' ! k"
    by (simp add: split nth_append)
  show "rearranged p (p + n) (elems base N sz mem) (elems base N sz mem')"
    if "mset (elems (base + p * sz) n sz mem') = mset (elems (base + p * sz) n sz mem)"
    using that low high by (auto simp: rearranged_def split nth_append)
qed

section \<open>Sorting\<close>

text \<open>What a comparison function says about a preorder.\<close>

locale cmp_order =
  fixes cmp :: "'s cmp_f" and le :: "u8 list \<Rightarrow> u8 list \<Rightarrow> bool"
  assumes cmp_le: "fst (cmp x y s) \<le> 0 \<Longrightarrow> le x y"
    and cmp_ge: "0 \<le> fst (cmp x y s) \<Longrightarrow> le y x"
    and order_refl: "le x x"
    and order_trans: "le x y \<Longrightarrow> le y z \<Longrightarrow> le x z"
begin

lemma cmp_at_ok:
  assumes "array_in base N sz mem0 m" and "i < N" and "j < N"
  shows "ok (cmp_at cmp base sz i j m) (\<lambda>c m'. array_in base N sz mem0 m' \<and> array_of base N sz m' = array_of base N sz m \<and>
    (c \<le> 0 \<longrightarrow> le (array_of base N sz m ! i) (array_of base N sz m ! j)) \<and>
    (0 \<le> c \<longrightarrow> le (array_of base N sz m ! j) (array_of base N sz m ! i)))"
proof -
  obtain mem s where m: "m = (mem, s)"
    by (cases m)
  have "base + (i + 1) * sz \<le> length mem" "base + (j + 1) * sz \<le> length mem"
    using fits_le [of "i + 1" N base sz "length mem"] fits_le [of "j + 1" N base sz "length mem"] assms m
    by (simp_all add: array_in_def)
  moreover obtain c s' where c: "cmp (bytes_at (base + i * sz) sz mem) (bytes_at (base + j * sz) sz mem) s = (c, s')"
    by fastforce
  ultimately show ?thesis
    using assms cmp_le [of _ _ s] cmp_ge [of _ _ s] m
    by (auto simp: cmp_at_def array_of_def array_in_def elems_nth split: prod.splits)
qed

lemma swap_at_ok:
  assumes "array_in base N sz mem0 m" and "i < N" and "j < N"
  shows "ok (exchange_at (exchange_func base sz) base sz i j 1 m)
    (\<lambda>_ m'. array_in base N sz mem0 m' \<and> array_of base N sz m' = swapped i j (array_of base N sz m))"
proof -
  obtain mem s where m: "m = (mem, s)"
    by (cases m)
  have "i = j \<or> i + 1 \<le> j \<or> j + 1 \<le> i" "i + 1 \<le> N" "j + 1 \<le> N"
    using assms by auto
  note ex = exchange_at_ok [OF this assms(1) [unfolded m], of sz]
    elems_exchanged(1) [OF this, of base sz mem]
  then show ?thesis
    using swapped_origin [of i "elems base N sz mem" j] assms m
    by (auto simp: array_of_def array_in_def)
qed

lemma block_at_ok:
  assumes "array_in base N sz mem0 m" and "a + n \<le> b" and "b + n \<le> N"
  shows "ok (exchange_at (exchange_func base (sz OR 128)) base sz a b n m)
    (\<lambda>_ m'. array_in base N sz mem0 m' \<and> array_of base N sz m' = block_swapped a b n (array_of base N sz m))"
proof -
  obtain mem s where m: "m = (mem, s)"
    by (cases m)
  have "a = b \<or> a + n \<le> b \<or> b + n \<le> a" "a + n \<le> N" "b + n \<le> N"
    using assms by auto
  note ex = exchange_at_ok [OF this assms(1) [unfolded m], of "sz OR 128"]
    elems_exchanged(1) [OF this, of base sz mem]
  then show ?thesis
    using assms m by (auto simp: array_of_def array_in_def block_swapped_def)
qed

end

sublocale cmp_order \<subseteq> heap: sort_memory
  "\<lparr>cmp_elt = cmp_at cmp base sz, swap_elt = (\<lambda>i j. exchange_at (exchange_func base sz) base sz i j 1)\<rparr>"
  "array_of base N sz" "array_in base N sz mem0" le for base N sz mem0
  using cmp_at_ok [of base N sz mem0] swap_at_ok [of base N sz mem0] order_refl order_trans
  by unfold_locales (auto simp: array_of_def)

context cmp_order
begin

lemma heapsortx_ok:
  assumes m: "array_in base N sz mem0 m" and "p + n \<le> N"
  shows "ok (heapsortx cmp (base + p * sz) n sz m) (\<lambda>_ m'. array_in base N sz mem0 m' \<and>
    rearranged p (p + n) (array_of base N sz m) (array_of base N sz m') \<and>
    (\<forall>k l. p \<le> k \<and> k < l \<and> l < p + n \<longrightarrow> le (array_of base N sz m' ! k) (array_of base N sz m' ! l)))"
proof -
  obtain mem s where mem: "m = (mem, s)"
    by (cases m)
  have "p * sz + n * sz \<le> N * sz"
    using mult_le_mono1 [OF assms(2), of sz] by (simp add: add_mult_distrib)
  then have "array_in (base + p * sz) n sz mem m"
    using m mem by (auto simp: array_in_def)
  from heap.heap_sort_ok [OF this, of n]
  obtain mem' s' where m': "heapsortx cmp (base + p * sz) n sz m = Some ((), mem', s')"
    "array_in (base + p * sz) n sz mem (mem', s')"
    "rearranged 0 n (elems (base + p * sz) n sz mem) (elems (base + p * sz) n sz mem')"
    "\<And>k l. k < l \<Longrightarrow> l < n \<Longrightarrow> le (elems (base + p * sz) n sz mem' ! k) (elems (base + p * sz) n sz mem' ! l)"
    using mem by (auto simp: heapsortx_def array_of_def elim!: ok_SomeE)
  note seg = rearranged_segment [OF m [unfolded mem] m'(2) assms(2)]
  have "le (elems base N sz mem' ! k) (elems base N sz mem' ! l)" if "p \<le> k" "k < l" "l < p + n" for k l
    using seg(2) [of "k - p"] seg(2) [of "l - p"] m'(4) [of "k - p" "l - p"] that by simp
  then show ?thesis
    using m'(1,3) seg(1,3) mem by (simp add: array_of_def rearranged_def)
qed

end

sublocale cmp_order \<subseteq> quick: quick_memory
  "rqsort_ops cmp base sz" "array_of base N sz" "array_in base N sz mem0" le for base N sz mem0
  using cmp_at_ok [of base N sz mem0] swap_at_ok [of base N sz mem0] block_at_ok [of base N sz mem0]
    heapsortx_ok [of base N sz mem0] order_refl order_trans
  by unfold_locales (auto simp: array_of_def rqsort_ops_def)

context cmp_order
begin

lemma rqsort_ok:
  assumes "base + nmemb * sz \<le> length mem"
  shows "ok (rqsort cmp base nmemb sz (mem, s)) (\<lambda>_ (mem', s').
    length mem' = length mem \<and>
    (\<forall>k < length mem. k < base \<or> base + nmemb * sz \<le> k \<longrightarrow> mem' ! k = mem ! k) \<and>
    mset (elems base nmemb sz mem') = mset (elems base nmemb sz mem) \<and>
    sorted_wrt le (elems base nmemb sz mem'))"
proof (cases "nmemb < 2 \<or> sz = 0")
  case True
  have "sorted_wrt le (elems base nmemb sz mem)"
  proof (cases "sz = 0")
    case True
    then show ?thesis
      by (simp add: sorted_wrt_iff_nth_less elems_nth bytes_at_def order_refl)
  next
    case False
    then show ?thesis
      using \<open>nmemb < 2 \<or> sz = 0\<close> by (auto simp: sorted_wrt_iff_nth_less)
  qed
  then show ?thesis
    using True by (auto simp: rqsort_def)
next
  case False
  have "array_in base nmemb sz mem (mem, s)"
    using assms by (simp add: array_in_def)
  from quick.quick_sort_ok [OF this] False show ?thesis
    by (auto simp: rqsort_def array_of_def array_in_def elim!: ok_mono)
qed

end

text \<open>Nothing needs to be known of a comparison function for the result to be a rearrangement.\<close>

interpretation any_cmp: cmp_order cmp "\<lambda>_ _. True" for cmp
  by unfold_locales simp_all

section \<open>The guarantees\<close>

text \<open>
  C15. \<open>rqsort\<close> is safe for every comparison function, also one that answers inconsistently or keeps a state: it
  returns, never leaves the array or its stack of 50 segments, leaves the memory outside the array alone, and
  the elements afterwards are a permutation of those before.
\<close>

theorem rqsort_permutes:
  assumes "base + nmemb * sz \<le> length mem"
  shows "\<exists>mem' s'. rqsort cmp base nmemb sz (mem, s) = Some ((), mem', s') \<and> length mem' = length mem \<and>
    (\<forall>k. k < base \<or> base + nmemb * sz \<le> k \<and> k < length mem \<longrightarrow> mem' ! k = mem ! k) \<and>
    mset (elems base nmemb sz mem') = mset (elems base nmemb sz mem)"
  using any_cmp.rqsort_ok [OF assms, of cmp s] assms by (auto simp: ok_def)

text \<open>A comparison function that answers in turn less, equal and greater, on eight elements of two bytes.\<close>

theorem rqsort_permutes_witness:
  "\<exists>mem' s'. rqsort (\<lambda>x y n. (n mod 3 - 1, n + 1)) 2 8 2 (map of_nat [0..<20], 0) = Some ((), mem', s') \<and>
    length mem' = 20 \<and> (\<forall>k. k < 2 \<or> 18 \<le> k \<and> k < 20 \<longrightarrow> mem' ! k = map of_nat [0..<20] ! k) \<and>
    mset (elems 2 8 2 mem') = mset (elems 2 8 2 (map of_nat [0..<20]))"
proof -
  have "2 + 8 * 2 \<le> length (map of_nat [0..<20] :: mem)"
    by simp
  from rqsort_permutes [OF this, of "\<lambda>x y n. (n mod 3 - 1, n + 1)" 0] show ?thesis
    by simp
qed

text \<open>
  C16. When the answers of the comparison function are the signs of a total preorder, \<open>rqsort\<close> returns with the
  array sorted, a permutation of what it was.
\<close>

theorem rqsort_sorts:
  assumes "base + nmemb * sz \<le> length mem" and sign: "\<And>x y s. fst (cmp x y s) = sign x y"
    and flip: "\<And>x y. 0 < sign x y \<longleftrightarrow> sign y x < 0"
    and trans: "\<And>x y z. sign x y \<le> 0 \<Longrightarrow> sign y z \<le> 0 \<Longrightarrow> sign x z \<le> 0"
  shows "\<exists>mem' s'. rqsort cmp base nmemb sz (mem, s) = Some ((), mem', s') \<and>
    mset (elems base nmemb sz mem') = mset (elems base nmemb sz mem) \<and>
    sorted_wrt (\<lambda>x y. sign x y \<le> 0) (elems base nmemb sz mem')"
proof -
  have "cmp_order cmp (\<lambda>x y. sign x y \<le> 0)"
  proof
    show "sign y x \<le> 0" if "0 \<le> fst (cmp x y s)" for x y s
      using that flip [of y x] by (auto simp: sign)
    show "sign x x \<le> 0" for x
      using flip [of x x] by linarith
  qed (use sign trans in auto)
  from cmp_order.rqsort_ok [OF this assms(1), of s] show ?thesis
    by (auto simp: ok_def)
qed

text \<open>Ten elements of three bytes, by their first bytes.\<close>

theorem rqsort_sorts_witness:
  "\<exists>mem' s'. rqsort (\<lambda>x y s. (int (unat (hd x)) - int (unat (hd y)), s)) 1 10 3
      (map (\<lambda>k. of_nat (k * 7 mod 11)) [0..<31], ()) = Some ((), mem', s') \<and>
    mset (elems 1 10 3 mem') = mset (elems 1 10 3 (map (\<lambda>k. of_nat (k * 7 mod 11)) [0..<31])) \<and>
    sorted_wrt (\<lambda>x y. int (unat (hd x)) - int (unat (hd y)) \<le> 0) (elems 1 10 3 mem')"
  by (rule rqsort_sorts) auto

end
