(* ===== verification/Ranges.thy ===== *)
theory Ranges
  imports Prelude
begin

text \<open>
  Sets of code points as lists of points: consecutive pairs are half-open intervals. For points in ascending
  order a code point is in the set when the number of points up to it is odd. The list function \<open>compress\<close>
  is what \<open>cr_compress\<close> of libunicode.c does in place.
\<close>

section \<open>The set of a list of points\<close>

fun ranges :: "u32 list \<Rightarrow> u32 set" where
  "ranges (a # b # ps) = {a..<b} \<union> ranges ps"
| "ranges ps = {}"

definition inside :: "u32 list \<Rightarrow> u32 \<Rightarrow> bool" where
  "inside ps c \<longleftrightarrow> odd (length (filter (\<lambda>p. p \<le> c) ps))"

lemma inside_simps [simp]: "inside [] c = False" "inside (p # ps) c = (if p \<le> c then \<not> inside ps c else inside ps c)"
  by (simp_all add: inside_def)

lemma inside_append: "inside (ps @ qs) c \<longleftrightarrow> inside ps c \<noteq> inside qs c"
  by (auto simp: inside_def)

lemma inside_all: "(\<And>p. p \<in> set ps \<Longrightarrow> p \<le> c) \<Longrightarrow> inside ps c \<longleftrightarrow> odd (length ps)"
  by (simp add: inside_def)

lemma inside_none: "(\<And>p. p \<in> set ps \<Longrightarrow> c < p) \<Longrightarrow> \<not> inside ps c"
  by (induction ps) (auto simp: not_le [symmetric])

lemma ranges_inside:
  assumes "sorted ps" and "even (length ps)"
  shows "c \<in> ranges ps \<longleftrightarrow> inside ps c"
  using assms
proof (induction ps rule: ranges.induct)
  case (1 a b ps)
  have "\<not> inside ps c" if "c < b"
    using 1(2) that by (intro inside_none) auto
  then show ?case
    using 1 by auto
qed auto

section \<open>Compression\<close>

text \<open>The end of the interval that ends at \<open>e\<close> with those that follow without a gap, and what is left.\<close>

fun merge_run :: "u32 \<Rightarrow> u32 list \<Rightarrow> u32 \<times> u32 list" where
  "merge_run e (s # t # ps) = (if e = s then merge_run t ps else (e, s # t # ps))"
| "merge_run e ps = (e, ps)"

lemma length_merge_run: "length (snd (merge_run e ps)) \<le> length ps"
  by (induction e ps rule: merge_run.induct) auto

function (sequential) compress :: "u32 list \<Rightarrow> u32 list" where
  "compress (a # b # ps) =
     (if a = b then compress ps else a # fst (merge_run b ps) # compress (snd (merge_run b ps)))"
| "compress ps = []"
  by pat_completeness auto
termination
  using length_merge_run by (relation "measure length") (auto simp: le_imp_less_Suc less_Suc_eq_le intro: le_SucI)

lemma merge_run_ranges:
  assumes "sorted (a # e # ps)"
  shows "{a..<fst (merge_run e ps)} \<union> ranges (snd (merge_run e ps)) = {a..<e} \<union> ranges ps"
  using assms
proof (induction e ps rule: merge_run.induct)
  case (1 e s t ps)
  then have "{a..<t} = {a..<e} \<union> {e..<t}"
    by (intro set_eqI) auto
  then show ?case
    using 1 by auto
qed auto

lemma merge_run_sorted:
  assumes "sorted (e # ps)"
  shows "sorted (fst (merge_run e ps) # snd (merge_run e ps))"
    and "e \<le> fst (merge_run e ps)"
    and "even (length ps) \<Longrightarrow> even (length (snd (merge_run e ps)))"
    and "\<And>s ps'. snd (merge_run e ps) = s # ps' \<Longrightarrow> even (length ps) \<Longrightarrow> fst (merge_run e ps) < s"
  using assms
proof (induction e ps rule: merge_run.induct)
  case (1 e s t ps)
  { case 1 then show ?case using "1.IH"(1) by (auto split: if_splits) }
  { case 2 then show ?case using "1.IH"(2) by (force split: if_splits) }
  { case 3 then show ?case using "1.IH"(3) by (auto split: if_splits) }
  { case (4 s' ps') then show ?case using "1.IH"(4) by (auto split: if_splits) }
qed auto

lemma compress_ok:
  assumes "sorted ps" and "even (length ps)"
  shows "ranges (compress ps) = ranges ps" and "sorted_wrt (<) (compress ps)" and "even (length (compress ps))"
    and "\<And>p. p \<in> set (compress ps) \<Longrightarrow> \<exists>q \<in> set ps. q \<le> p"
  using assms
proof (induction ps rule: compress.induct)
  case (1 a b ps)
  let ?r = "snd (merge_run b ps)" and ?e = "fst (merge_run b ps)"
  have run: "sorted (?e # ?r)" "b \<le> ?e" "even (length ?r)" "\<And>s ps'. ?r = s # ps' \<Longrightarrow> ?e < s"
    if "sorted (a # b # ps)" "even (length (a # b # ps))"
    using merge_run_sorted [of b ps] that by auto
  { case 1
    then show ?case
      using "1.IH"(1,5) run merge_run_ranges [of a b ps] by auto }
  { case 2
    have "?e < p" if p: "p \<in> set (compress ?r)" "a \<noteq> b" for p
    proof -
      obtain q where q: "q \<in> set ?r" "q \<le> p"
        using "1.IH"(8) [of p] run 2 p by auto
      then obtain s ps' where s: "?r = s # ps'"
        by (cases ?r) auto
      then have "?e < s" "s \<le> q"
        using run 2 q by auto
      then show ?thesis
        using q by simp
    qed
    then show ?case
      using "1.IH"(2,6) run 2 by fastforce }
  { case 3
    then show ?case
      using "1.IH"(3,7) run by auto }
  { case (4 p)
    then show ?case
      using "1.IH"(4,8) run by (fastforce split: if_splits dest: order_trans) }
qed auto

section \<open>Overlapping intervals\<close>

text \<open>The intervals in the order of their lower ends; each absorbs those that follow and begin before its end.\<close>

fun absorb :: "u32 \<Rightarrow> u32 list \<Rightarrow> u32 \<times> u32 list" where
  "absorb e (s # t # ps) = (if s > e then (e, s # t # ps) else if t \<le> e then absorb e ps else absorb t ps)"
| "absorb e ps = (e, ps)"

lemma length_absorb: "length (snd (absorb e ps)) \<le> length ps"
  by (induction e ps rule: absorb.induct) auto

function (sequential) unite :: "u32 list \<Rightarrow> u32 list" where
  "unite (a # b # ps) = a # fst (absorb b ps) # unite (snd (absorb b ps))"
| "unite ps = []"
  by pat_completeness auto
termination
  using length_absorb by (relation "measure length") (auto simp: le_imp_less_Suc less_Suc_eq_le intro: le_SucI)

text \<open>The lower ends, and that no interval is empty.\<close>

fun starts :: "u32 list \<Rightarrow> u32 list" where
  "starts (a # b # ps) = a # starts ps"
| "starts ps = []"

fun nonempty :: "u32 list \<Rightarrow> bool" where
  "nonempty (a # b # ps) \<longleftrightarrow> a < b \<and> nonempty ps"
| "nonempty ps \<longleftrightarrow> True"

lemma absorb_ranges:
  assumes "\<And>s. s \<in> set (starts ps) \<Longrightarrow> a \<le> s"
  shows "{a..<fst (absorb e ps)} \<union> ranges (snd (absorb e ps)) = {a..<e} \<union> ranges ps"
  using assms
proof (induction e ps rule: absorb.induct)
  case (1 e s t ps)
  have a: "a \<le> s" "\<And>s. s \<in> set (starts ps) \<Longrightarrow> a \<le> s"
    using "1.prems" by simp_all
  consider "e < s" | "s \<le> e" "t \<le> e" | "s \<le> e" "e < t"
    by (meson not_le)
  then show ?case
  proof cases
    case 2
    then have "{s..<t} \<subseteq> {a..<e}"
      using a(1) by auto
    then show ?thesis
      using 2 "1.IH"(1) a(2) by (auto simp: not_less)
  next
    case 3
    then have "{a..<e} \<union> {s..<t} = {a..<t}"
      using a(1) by (intro set_eqI) auto
    then show ?thesis
      using 3 "1.IH"(2) a(2) by (auto simp: not_less not_le Un_assoc [symmetric])
  qed simp
qed auto

lemma absorb_sorted:
  assumes "sorted (starts ps)"
  shows "sorted (starts (snd (absorb e ps)))" and "set (starts (snd (absorb e ps))) \<subseteq> set (starts ps)"
    and "nonempty ps \<Longrightarrow> nonempty (snd (absorb e ps))" and "e \<le> fst (absorb e ps)"
    and "\<And>s. s \<in> set (starts (snd (absorb e ps))) \<Longrightarrow> fst (absorb e ps) < s"
  using assms
proof (induction e ps rule: absorb.induct)
  case (1 e s t ps)
  { case 1 then show ?case using "1.IH" by auto }
  { case 2 then show ?case using "1.IH" by auto }
  { case 3 then show ?case using "1.IH" by auto }
  { case 4 then show ?case using "1.IH" by (auto simp: not_le intro: order_trans less_imp_le) }
  { case (5 s') then show ?case using "1.IH" by (auto split: if_splits intro: less_le_trans) }
qed auto

lemma unite_ok:
  assumes "sorted (starts ps)"
  shows "ranges (unite ps) = ranges ps" and "nonempty ps \<Longrightarrow> sorted_wrt (<) (unite ps)" and "even (length (unite ps))"
    and "\<And>p. nonempty ps \<Longrightarrow> p \<in> set (unite ps) \<Longrightarrow> \<exists>s \<in> set (starts ps). s \<le> p"
  using assms
proof (induction ps rule: unite.induct)
  case (1 a b ps)
  let ?r = "snd (absorb b ps)" and ?e = "fst (absorb b ps)"
  have run: "sorted (starts ?r)" "set (starts ?r) \<subseteq> set (starts ps)" "nonempty ps \<Longrightarrow> nonempty ?r" "b \<le> ?e"
    "\<And>s. s \<in> set (starts ?r) \<Longrightarrow> ?e < s" if "sorted (starts (a # b # ps))"
    using absorb_sorted(1-4) [of ps b] absorb_sorted(5) [of ps _ b] that by auto
  { case 1
    then show ?case
      using "1.IH"(1) run absorb_ranges [of ps a b] by auto }
  { case 2
    have "?e < p" if p: "p \<in> set (unite ?r)" for p
    proof -
      obtain s where "s \<in> set (starts ?r)" "s \<le> p"
        using "1.IH"(4) [of p] run 2 p by auto
      then show ?thesis
        using run(5) [OF 2(2)] by (meson less_le_trans)
    qed
    moreover have "a < ?e"
      using 2 run(4) by auto
    ultimately show ?case
      using "1.IH"(2) run 2 by (auto intro: less_trans) }
  { case 3
    then show ?case
      using "1.IH"(3) run by auto }
  { case (4 p)
    have "p = a \<or> p = ?e \<or> p \<in> set (unite ?r)"
      using 4 by simp
    moreover have "a < ?e"
      using 4 run(4) by auto
    moreover have "\<exists>s \<in> set (starts ps). s \<le> p" if p: "p \<in> set (unite ?r)"
      using "1.IH"(4) [of p] run(1-3) 4 p by auto
    ultimately show ?case
      by auto }
qed auto

text \<open>Intervals one by one.\<close>

definition interval :: "u32 \<times> u32 \<Rightarrow> u32 set" where
  "interval = (\<lambda>(a, b). {a..<b})"

definition flat :: "(u32 \<times> u32) list \<Rightarrow> u32 list" where
  "flat ivs = concat (map (\<lambda>(a, b). [a, b]) ivs)"

lemma flat_simps [simp]: "flat [] = []" "flat ((a, b) # ivs) = a # b # flat ivs"
  by (simp_all add: flat_def)

lemma flat_facts:
  "ranges (flat ivs) = (\<Union>iv \<in> set ivs. interval iv)" "starts (flat ivs) = map fst ivs"
  "nonempty (flat ivs) \<longleftrightarrow> (\<forall>(a, b) \<in> set ivs. a < b)" "length (flat ivs) = 2 * length ivs"
  by (induction ivs) (auto simp: interval_def)

end
