(* ===== verification/CharRange.thy ===== *)
theory CharRange
  imports DynBuf Rqsort Ranges
begin

text \<open>
  The sets of code points of libunicode.c (\<open>CharRange\<close>, the \<open>cr_\<close> functions). The points are a block of bytes
  from a reallocation function, of the type that the dynamic buffers use; \<open>None\<close> is the null pointer. The
  fields \<open>len\<close> and \<open>size\<close> are of type \<open>int\<close>: they are natural numbers here, and an overflow is undefined
  behaviour, \<open>None\<close>. The fields \<open>realloc_func\<close> and \<open>mem_opaque\<close>, which never change, are the argument \<open>R\<close> of
  the operations and the state that they pass along with the structure.
\<close>

unbundle bit_operations_syntax

section \<open>The structure\<close>

record char_range =
  cr_len :: nat
  cr_size :: nat
  cr_points :: "u8 list option"

datatype cr_op_kind = CR_OP_UNION | CR_OP_INTER | CR_OP_XOR | CR_OP_SUB

type_synonym ('o, 'a) crop = "char_range \<times> 'o \<Rightarrow> ('a \<times> char_range \<times> 'o) option"

definition int_range :: "nat \<Rightarrow> bool" where
  "int_range n \<longleftrightarrow> n < 2 ^ 31"

definition get_point :: "u8 list option \<Rightarrow> nat \<Rightarrow> u32 option" where
  "get_point p i = (case p of None \<Rightarrow> None | Some b \<Rightarrow> get_u32 (drop (4 * i) b))"

definition set_point :: "u8 list option \<Rightarrow> nat \<Rightarrow> u32 \<Rightarrow> u8 list option option" where
  "set_point p i v =
     (case p of
        None \<Rightarrow> None
      | Some b \<Rightarrow> map_option (\<lambda>t. Some (take (4 * i) b @ t)) (put_u32 (drop (4 * i) b) v))"

definition cr_default_realloc :: "c_heap DynBufReallocFunc" where
  "cr_default_realloc opaque ptr n = c_realloc opaque ptr n"

definition cr_init :: char_range where
  "cr_init = \<lparr>cr_len = 0, cr_size = 0, cr_points = None\<rparr>"

definition cr_free :: "'o DynBufReallocFunc \<Rightarrow> char_range \<Rightarrow> 'o \<Rightarrow> 'o" where
  "cr_free R cr q = snd (R q (cr_points cr) 0)"

definition cr_realloc :: "'o DynBufReallocFunc \<Rightarrow> nat \<Rightarrow> ('o, int) crop" where
  "cr_realloc R sz = (\<lambda>(cr, q).
     if sz > cr_size cr
     then if \<not> int_range (cr_size cr * 3) then None
       else
         let new_size = max sz (cr_size cr * 3 div 2)
         in case R q (cr_points cr) (of_nat new_size * 4) of
              (None, q) \<Rightarrow> Some (- 1, cr, q)
            | (Some new_buf, q) \<Rightarrow> Some (0, cr\<lparr>cr_points := Some new_buf, cr_size := new_size\<rparr>, q)
     else Some (0, cr, q))"

text \<open>\<open>cr->points[cr->len++] = v\<close>\<close>

definition append_point :: "u32 \<Rightarrow> ('o, unit) crop" where
  "append_point v = (\<lambda>(cr, q).
     do { p \<leftarrow> set_point (cr_points cr) (cr_len cr) v;
          Some ((), cr\<lparr>cr_points := p, cr_len := cr_len cr + 1\<rparr>, q) })"

definition cr_add_point :: "'o DynBufReallocFunc \<Rightarrow> u32 \<Rightarrow> ('o, int) crop" where
  "cr_add_point R v = (\<lambda>(cr, q).
     do { (r, cr, q) \<leftarrow>
            (if cr_len cr \<ge> cr_size cr
             then if int_range (cr_len cr + 1) then cr_realloc R (cr_len cr + 1) (cr, q) else None
             else Some (0, cr, q));
          if r \<noteq> 0 then Some (- 1, cr, q)
          else do { (_, cr, q) \<leftarrow> append_point v (cr, q); Some (0, cr, q) } })"

definition cr_add_interval :: "'o DynBufReallocFunc \<Rightarrow> u32 \<Rightarrow> u32 \<Rightarrow> ('o, int) crop" where
  "cr_add_interval R c1 c2 = (\<lambda>(cr, q).
     if \<not> int_range (cr_len cr + 2) then None
     else do { (r, cr, q) \<leftarrow>
                 (if cr_len cr + 2 > cr_size cr then cr_realloc R (cr_len cr + 2) (cr, q) else Some (0, cr, q));
               if r \<noteq> 0 then Some (- 1, cr, q)
               else do { (_, cr, q) \<leftarrow> append_point c1 (cr, q);
                         (_, cr, q) \<leftarrow> append_point c2 (cr, q);
                         Some (0, cr, q) } })"

text \<open>\<open>memcpy\<close> of the points of another range.\<close>

definition cr_copy :: "'o DynBufReallocFunc \<Rightarrow> char_range \<Rightarrow> ('o, int) crop" where
  "cr_copy R cr1 = (\<lambda>(cr, q).
     do { (r, cr, q) \<leftarrow> cr_realloc R (cr_len cr1) (cr, q);
          if r \<noteq> 0 then Some (- 1, cr, q)
          else case (cr_points cr, cr_points cr1) of
            (Some b, Some b1) \<Rightarrow>
              if 4 * cr_len cr1 \<le> length b \<and> 4 * cr_len cr1 \<le> length b1
              then Some (0, cr\<lparr>cr_points := Some (take (4 * cr_len cr1) b1 @ drop (4 * cr_len cr1) b),
                               cr_len := cr_len cr1\<rparr>, q)
              else None
          | _ \<Rightarrow> None })"

section \<open>Compression in place\<close>

partial_function (option) compress_run :: "u8 list option \<Rightarrow> nat \<Rightarrow> nat \<Rightarrow> nat option" where
  "compress_run pt len j =
     (if j + 3 < len
      then do { x \<leftarrow> get_point pt (j + 1);
                y \<leftarrow> get_point pt (j + 2);
                if x = y then compress_run pt len (j + 2) else Some j }
      else Some j)"

declare compress_run.simps [code]

partial_function (option) compress_loop :: "u8 list option \<Rightarrow> nat \<Rightarrow> nat \<Rightarrow> nat \<Rightarrow> (u8 list option \<times> nat) option" where
  "compress_loop pt len i k =
     (if i + 1 < len
      then do { x \<leftarrow> get_point pt i;
                y \<leftarrow> get_point pt (i + 1);
                if x = y then compress_loop pt len (i + 2) k
                else do { j \<leftarrow> compress_run pt len i;
                          x \<leftarrow> get_point pt i;
                          pt \<leftarrow> set_point pt k x;
                          y \<leftarrow> get_point pt (j + 1);
                          pt \<leftarrow> set_point pt (k + 1) y;
                          compress_loop pt len (j + 2) (k + 2) } }
      else Some (pt, k))"

declare compress_loop.simps [code]

definition cr_compress :: "char_range \<Rightarrow> char_range option" where
  "cr_compress cr =
     do { (pt, k) \<leftarrow> compress_loop (cr_points cr) (cr_len cr) 0 0; Some (cr\<lparr>cr_points := pt, cr_len := k\<rparr>) }"

section \<open>Set operations\<close>

definition is_in :: "cr_op_kind \<Rightarrow> nat \<Rightarrow> nat \<Rightarrow> bool" where
  "is_in opc a_idx b_idx =
     (case opc of
        CR_OP_UNION \<Rightarrow> odd a_idx \<or> odd b_idx
      | CR_OP_INTER \<Rightarrow> odd a_idx \<and> odd b_idx
      | CR_OP_XOR \<Rightarrow> odd a_idx \<noteq> odd b_idx
      | CR_OP_SUB \<Rightarrow> odd a_idx \<and> even b_idx)"

text \<open>The next point of the two arrays in increasing order, and the new indices.\<close>

definition next_point :: "u32 list \<Rightarrow> nat \<Rightarrow> u32 list \<Rightarrow> nat \<Rightarrow> (u32 \<times> nat \<times> nat) option" where
  "next_point a_pt a_idx b_pt b_idx =
     (if a_idx < length a_pt \<and> b_idx < length b_pt
      then if a_pt ! a_idx < b_pt ! b_idx then Some (a_pt ! a_idx, a_idx + 1, b_idx)
        else if a_pt ! a_idx = b_pt ! b_idx then Some (a_pt ! a_idx, a_idx + 1, b_idx + 1)
        else Some (b_pt ! b_idx, a_idx, b_idx + 1)
      else if a_idx < length a_pt then Some (a_pt ! a_idx, a_idx + 1, b_idx)
      else if b_idx < length b_pt then Some (b_pt ! b_idx, a_idx, b_idx + 1)
      else None)"

partial_function (option) cr_op_loop ::
  "'o DynBufReallocFunc \<Rightarrow> u32 list \<Rightarrow> nat \<Rightarrow> u32 list \<Rightarrow> nat \<Rightarrow> cr_op_kind \<Rightarrow> char_range \<times> 'o
    \<Rightarrow> (int \<times> char_range \<times> 'o) option" where
  "cr_op_loop R a_pt a_idx b_pt b_idx opc s =
     (case next_point a_pt a_idx b_pt b_idx of
        None \<Rightarrow> Some (0, s)
      | Some (v, a_idx, b_idx) \<Rightarrow>
          if is_in opc a_idx b_idx \<noteq> odd (cr_len (fst s))
          then do { (r, s) \<leftarrow> cr_add_point R v s;
                    if r \<noteq> 0 then Some (- 1, s) else cr_op_loop R a_pt a_idx b_pt b_idx opc s }
          else cr_op_loop R a_pt a_idx b_pt b_idx opc s)"

declare cr_op_loop.simps [code]

definition cr_op :: "'o DynBufReallocFunc \<Rightarrow> u32 list \<Rightarrow> u32 list \<Rightarrow> cr_op_kind \<Rightarrow> ('o, int) crop" where
  "cr_op R a_pt b_pt opc s =
     do { (r, cr, q) \<leftarrow> cr_op_loop R a_pt 0 b_pt 0 opc s;
          if r \<noteq> 0 then Some (- 1, cr, q)
          else do { cr \<leftarrow> cr_compress cr; Some (0, cr, q) } }"

text \<open>The array of points of a range, for use as an operand.\<close>

fun read_points :: "u8 list option \<Rightarrow> nat \<Rightarrow> u32 list option" where
  "read_points p 0 = Some []"
| "read_points p (Suc n) = do { vs \<leftarrow> read_points p n; v \<leftarrow> get_point p n; Some (vs @ [v]) }"

definition cr_op1 :: "'o DynBufReallocFunc \<Rightarrow> u32 list \<Rightarrow> cr_op_kind \<Rightarrow> ('o, int) crop" where
  "cr_op1 R b_pt opc = (\<lambda>(cr, q).
     let a = cr;
         cr = cr\<lparr>cr_len := 0, cr_size := 0, cr_points := None\<rparr>
     in do { a_pt \<leftarrow> read_points (cr_points a) (cr_len a);
             (ret, cr, q) \<leftarrow> cr_op R a_pt b_pt opc (cr, q);
             Some (ret, cr, cr_free R a q) })"

definition cr_union_interval :: "'o DynBufReallocFunc \<Rightarrow> u32 \<Rightarrow> u32 \<Rightarrow> ('o, int) crop" where
  "cr_union_interval R c1 c2 s = cr_op1 R [c1, c2 + 1] CR_OP_UNION s"

definition cr_invert :: "'o DynBufReallocFunc \<Rightarrow> ('o, int) crop" where
  "cr_invert R = (\<lambda>(cr, q).
     let n = cr_len cr
     in if \<not> int_range (n + 2) then None
        else do {
          (r, cr, q) \<leftarrow> cr_realloc R (n + 2) (cr, q);
          if r \<noteq> 0 then Some (- 1, cr, q)
          else do {
            b \<leftarrow> cr_points cr;
            pt \<leftarrow> (if 4 * (n + 1) \<le> length b then Some (Some (take 4 b @ take (4 * n) b @ drop (4 * n + 4) b)) else None);
            pt \<leftarrow> set_point pt 0 0;
            pt \<leftarrow> set_point pt (n + 1) 0xFFFFFFFF;
            cr \<leftarrow> cr_compress (cr\<lparr>cr_points := pt, cr_len := n + 2\<rparr>);
            Some (0, cr, q) } })"

section \<open>Sorting and removing overlaps\<close>

definition point_cmp :: "'s cmp_f" where
  "point_cmp p1 p2 arg =
     (let v1 = le_word (take 4 p1) :: u32;
          v2 = le_word (take 4 p2) :: u32
      in (of_bool (v1 > v2) - of_bool (v1 < v2), arg))"

partial_function (option) overlap_run :: "u8 list option \<Rightarrow> nat \<Rightarrow> nat \<Rightarrow> u32 \<Rightarrow> (nat \<times> u32) option" where
  "overlap_run pt len i e =
     (if i < len
      then do { start1 \<leftarrow> get_point pt i;
                end1 \<leftarrow> get_point pt (i + 1);
                if start1 > e then Some (i, e)
                else if end1 \<le> e then overlap_run pt len (i + 2) e
                else overlap_run pt len (i + 2) end1 }
      else Some (i, e))"

declare overlap_run.simps [code]

partial_function (option) overlap_loop :: "u8 list option \<Rightarrow> nat \<Rightarrow> nat \<Rightarrow> nat \<Rightarrow> (u8 list option \<times> nat) option" where
  "overlap_loop pt len i j =
     (if i < len
      then do { s \<leftarrow> get_point pt i;
                e \<leftarrow> get_point pt (i + 1);
                (i, e) \<leftarrow> overlap_run pt len (i + 2) e;
                pt \<leftarrow> set_point pt j s;
                pt \<leftarrow> set_point pt (j + 1) e;
                overlap_loop pt len i (j + 2) }
      else Some (pt, j))"

declare overlap_loop.simps [code]

definition cr_sort_and_remove_overlap :: "char_range \<Rightarrow> char_range option" where
  "cr_sort_and_remove_overlap cr =
     do { pt \<leftarrow>
            (case cr_points cr of
               None \<Rightarrow> if cr_len cr div 2 < 2 then Some None else None
             | Some b \<Rightarrow> do { (_, b, _) \<leftarrow> rqsort point_cmp 0 (cr_len cr div 2) 8 (b, ()); Some (Some b) });
          (pt, j) \<leftarrow> overlap_loop pt (cr_len cr) 0 0;
          Some (cr\<lparr>cr_points := pt, cr_len := j\<rparr>) }"

end
