(* ===== verification/CharRange_Facts.thy ===== *)
theory CharRange_Facts
  imports CharRange
begin

text \<open>
  The functions on code point sets compute set operations: union, intersection, difference, symmetric
  difference, complement and the normal form of a list of intervals. The facts are proved for every
  reallocation function that meets the contract of the dynamic buffers.
\<close>

section \<open>Points in a block\<close>

definition pts :: "nat \<Rightarrow> u8 list \<Rightarrow> u32 list" where
  "pts n b = map (\<lambda>i. le_word (take 4 (drop (4 * i) b))) [0..<n]"

definition put_pt :: "u8 list \<Rightarrow> nat \<Rightarrow> u32 \<Rightarrow> u8 list" where
  "put_pt b i v = take (4 * i) b @ le_bytes 4 v @ drop (4 * i + 4) b"

lemma length_pts [simp]: "length (pts n b) = n"
  by (simp add: pts_def)

lemma pts_nth: "i < n \<Longrightarrow> pts n b ! i = le_word (take 4 (drop (4 * i) b))"
  by (simp add: pts_def)

lemma pts_take: "k \<le> n \<Longrightarrow> pts k b = take k (pts n b)"
  by (simp add: pts_def take_map)

lemma pts_Suc: "pts (Suc n) b = pts n b @ [le_word (take 4 (drop (4 * n) b))]"
  by (simp add: pts_def)

lemma get_point_pts: "i < n \<Longrightarrow> 4 * n \<le> length b \<Longrightarrow> get_point (Some b) i = Some (pts n b ! i)"
  by (simp add: get_point_def get_u32_def get_le_def pts_nth)

lemma set_point_put: "4 * i + 4 \<le> length b \<Longrightarrow> set_point (Some b) i v = Some (Some (put_pt b i v))"
  by (simp add: set_point_def put_u32_def put_le_def put_pt_def add.commute)

lemma length_put_pt [simp]: "4 * i + 4 \<le> length b \<Longrightarrow> length (put_pt b i v) = length b"
  by (simp add: put_pt_def)

lemma le_word_le_bytes_4: "le_word (le_bytes 4 (v :: u32)) = v"
  by (simp add: le_word_bytes take_bit_word_eq_self)

lemma pts_put_pt:
  assumes "4 * n \<le> length b" and "4 * i + 4 \<le> length b"
  shows "pts n (put_pt b i v) = (pts n b)[i := v]"
proof (rule nth_equalityI)
  fix k assume "k < length (pts n (put_pt b i v))"
  then have k: "k < n"
    by simp
  have "le_word (take 4 (drop (4 * k) (put_pt b i v))) = (if k = i then v else le_word (take 4 (drop (4 * k) b)))"
  proof -
    consider "k < i" | "k = i" | "i < k"
      by linarith
    then show ?thesis
    proof cases
      case 1
      then have "take 4 (drop (4 * k) (put_pt b i v)) = take 4 (drop (4 * k) b)"
        using assms by (intro nth_equalityI) (auto simp: put_pt_def nth_append)
      then show ?thesis
        using 1 by simp
    next
      case 2
      then have "take 4 (drop (4 * k) (put_pt b i v)) = le_bytes 4 v"
        using assms by (simp add: put_pt_def)
      then show ?thesis
        using 2 by (simp add: le_word_le_bytes_4)
    next
      case 3
      then have "take 4 (drop (4 * k) (put_pt b i v)) = take 4 (drop (4 * k) b)"
        using assms k by (intro nth_equalityI) (auto simp: put_pt_def nth_append)
      then show ?thesis
        using 3 by simp
    qed
  qed
  then show "pts n (put_pt b i v) ! k = (pts n b)[i := v] ! k"
    using k by (simp add: pts_nth nth_list_update)
qed simp

section \<open>Compression\<close>

lemma drop_two: "Suc i < length xs \<Longrightarrow> drop i xs = xs ! i # xs ! Suc i # drop (i + 2) xs"
  by (simp add: Cons_nth_drop_Suc)

lemma compress_run_ok:
  assumes "4 * n \<le> length b" and "j + 1 < n"
  shows "\<exists>j'. compress_run (Some b) n j = Some j' \<and> j \<le> j' \<and> j' + 1 < n \<and>
    merge_run (pts n b ! (j + 1)) (drop (j + 2) (pts n b)) = (pts n b ! (j' + 1), drop (j' + 2) (pts n b))"
  using assms(2)
proof (induction "n - j" arbitrary: j rule: less_induct)
  case less
  let ?xs = "pts n b"
  show ?case
  proof (cases "j + 3 < n \<and> ?xs ! (j + 1) = ?xs ! (j + 2)")
    case True
    then have "compress_run (Some b) n j = compress_run (Some b) n (j + 2)"
      by (subst compress_run.simps) (simp add: get_point_pts [OF _ assms(1)])
    moreover have "merge_run (?xs ! (j + 1)) (drop (j + 2) ?xs) = merge_run (?xs ! (j + 2 + 1)) (drop (j + 2 + 2) ?xs)"
      using True drop_two [of "j + 2" ?xs] by (simp add: numeral_eq_Suc)
    ultimately show ?thesis
      using less.hyps [of "j + 2"] True by fastforce
  next
    case False
    then have "compress_run (Some b) n j = Some j"
      by (subst compress_run.simps) (auto simp: get_point_pts [OF _ assms(1)])
    moreover have "merge_run (?xs ! (j + 1)) (drop (j + 2) ?xs) = (?xs ! (j + 1), drop (j + 2) ?xs)"
    proof (cases "j + 3 < n")
      case True
      then show ?thesis
        using False drop_two [of "j + 2" ?xs] by (simp add: numeral_eq_Suc)
    next
      case False
      then have "length (drop (j + 2) ?xs) \<le> 1"
        by simp
      then show ?thesis
        by (cases "drop (j + 2) ?xs"; cases "tl (drop (j + 2) ?xs)") auto
    qed
    ultimately show ?thesis
      using less.prems by auto
  qed
qed

lemma compress_loop_ok:
  assumes "4 * n \<le> length b" and "k \<le> i" and "i \<le> n"
  shows "\<exists>b' k'. compress_loop (Some b) n i k = Some (Some b', k') \<and> length b' = length b \<and> k' \<le> n \<and>
    pts k' b' = take k (pts n b) @ compress (drop i (pts n b))"
  using assms
proof (induction "n - i" arbitrary: i k b rule: less_induct)
  case less
  let ?xs = "pts n b"
  show ?case
  proof (cases "i + 1 < n")
    case False
    then have "compress_loop (Some b) n i k = Some (Some b, k)"
      by (subst compress_loop.simps) simp
    moreover have "compress (drop i ?xs) = []"
      using False by (cases "drop i ?xs"; cases "tl (drop i ?xs)") (auto simp: drop_Cons' dest!: arg_cong [of _ _ length])
    ultimately show ?thesis
      using less.prems pts_take [of k n b] by auto
  next
    case True
    then have two: "drop i ?xs = ?xs ! i # ?xs ! (i + 1) # drop (i + 2) ?xs"
      using drop_two [of i ?xs] by simp
    show ?thesis
    proof (cases "?xs ! i = ?xs ! (i + 1)")
      case eq: True
      then have "compress_loop (Some b) n i k = compress_loop (Some b) n (i + 2) k"
        using True by (subst compress_loop.simps) (simp add: get_point_pts [OF _ less.prems(1)])
      moreover have "compress (drop i ?xs) = compress (drop (i + 2) ?xs)"
        using eq two by simp
      ultimately show ?thesis
        using less.hyps [of "i + 2" b k] less.prems True by simp
    next
      case ne: False
      obtain j where j: "compress_run (Some b) n i = Some j" "i \<le> j" "j + 1 < n"
        "merge_run (?xs ! (i + 1)) (drop (i + 2) ?xs) = (?xs ! (j + 1), drop (j + 2) ?xs)"
        using compress_run_ok [OF less.prems(1) True] by blast
      define b1 where "b1 = put_pt b k (?xs ! i)"
      define b2 where "b2 = put_pt b1 (k + 1) (?xs ! (j + 1))"
      have b1: "length b1 = length b" "pts n b1 = ?xs[k := ?xs ! i]" "set_point (Some b) k (?xs ! i) = Some (Some b1)"
        using less.prems True by (simp_all add: b1_def pts_put_pt set_point_put)
      have b2: "length b2 = length b" "pts n b2 = ?xs[k := ?xs ! i, k + 1 := ?xs ! (j + 1)]"
        "set_point (Some b1) (k + 1) (?xs ! (j + 1)) = Some (Some b2)"
        using less.prems True b1 by (simp_all add: b2_def pts_put_pt set_point_put)
      have "get_point (Some b1) (j + 1) = Some (?xs ! (j + 1))"
        using j less.prems get_point_pts [of "j + 1" n b1] by (simp add: b1)
      then have "compress_loop (Some b) n i k = compress_loop (Some b2) n (j + 2) (k + 2)"
        using True ne j(1) b1(3) b2(3)
        by (subst compress_loop.simps) (simp add: get_point_pts [OF _ less.prems(1)])
      moreover have "\<exists>b' k'. compress_loop (Some b2) n (j + 2) (k + 2) = Some (Some b', k') \<and> length b' = length b2 \<and>
        k' \<le> n \<and> pts k' b' = take (k + 2) (pts n b2) @ compress (drop (j + 2) (pts n b2))"
        using less.prems j b2(1) by (intro less.hyps) auto
      moreover have "drop (j + 2) (pts n b2) = drop (j + 2) ?xs"
        using j less.prems by (simp add: b2)
      moreover have "take (k + 2) (pts n b2) = take k ?xs @ [?xs ! i, ?xs ! (j + 1)]"
        using less.prems True by (intro nth_equalityI) (auto simp: b2 nth_append nth_list_update less_Suc_eq)
      ultimately show ?thesis
        using two ne j(4) b2(1) by simp
    qed
  qed
qed

section \<open>The structure\<close>

definition cr_ok :: "char_range \<Rightarrow> bool" where
  "cr_ok cr \<longleftrightarrow> cr_len cr \<le> cr_size cr \<and> cr_size cr < 2 ^ 31 \<and>
     (case cr_points cr of None \<Rightarrow> cr_size cr = 0 | Some b \<Rightarrow> length b = 4 * cr_size cr)"

definition cr_list :: "char_range \<Rightarrow> u32 list" where
  "cr_list cr = (case cr_points cr of None \<Rightarrow> [] | Some b \<Rightarrow> pts (cr_len cr) b)"

lemma length_cr_list: "cr_ok cr \<Longrightarrow> length (cr_list cr) = cr_len cr"
  by (auto simp: cr_ok_def cr_list_def split: option.splits)

lemma cr_ok_init [simp]: "cr_ok cr_init" "cr_list cr_init = []"
  by (simp_all add: cr_ok_def cr_list_def cr_init_def)

lemma cr_compress_ok:
  assumes "cr_ok cr"
  shows "\<exists>cr'. cr_compress cr = Some cr' \<and> cr_ok cr' \<and> cr_list cr' = compress (cr_list cr) \<and>
    cr_size cr' = cr_size cr"
proof (cases "cr_points cr")
  case None
  then have "cr_len cr = 0"
    using assms by (simp add: cr_ok_def)
  then have "compress_loop None (cr_len cr) 0 0 = Some (None, 0)"
    by (subst compress_loop.simps) simp
  then show ?thesis
    using assms None by (auto simp: cr_compress_def cr_ok_def cr_list_def)
next
  case (Some b)
  then have "4 * cr_len cr \<le> length b"
    using assms by (simp add: cr_ok_def)
  from compress_loop_ok [OF this, of 0 0] obtain b' k' where
    "compress_loop (Some b) (cr_len cr) 0 0 = Some (Some b', k')" "length b' = length b" "k' \<le> cr_len cr"
    "pts k' b' = compress (pts (cr_len cr) b)"
    by auto
  then show ?thesis
    using assms Some by (auto simp: cr_compress_def cr_ok_def cr_list_def)
qed

lemma append_point_ok:
  assumes "cr_ok cr" and "cr_len cr < cr_size cr"
  shows "\<exists>cr'. append_point v (cr, q) = Some ((), cr', q) \<and> cr_ok cr' \<and> cr_list cr' = cr_list cr @ [v] \<and>
    cr_len cr' = cr_len cr + 1 \<and> cr_size cr' = cr_size cr"
proof -
  obtain b where b: "cr_points cr = Some b" "length b = 4 * cr_size cr"
    using assms by (auto simp: cr_ok_def split: option.splits)
  have fits: "4 * cr_len cr + 4 \<le> length b" "4 * Suc (cr_len cr) \<le> length b"
    using assms(2) b by auto
  have "pts (Suc (cr_len cr)) (put_pt b (cr_len cr) v) = pts (cr_len cr) b @ [v]"
    using fits by (simp add: pts_put_pt) (simp add: pts_Suc list_update_append)
  then show ?thesis
    using assms b fits
    by (auto simp: append_point_def set_point_put cr_ok_def cr_list_def)
qed

text \<open>A failure is always that of a reallocation.\<close>

definition refuses :: "'o DynBufReallocFunc \<Rightarrow> bool" where
  "refuses R \<longleftrightarrow> (\<exists>q p n. n \<noteq> 0 \<and> fst (R q p n) = None)"

context realloc_contract
begin

lemma cr_realloc_ok:
  assumes cr: "cr_ok cr" and "3 * cr_size cr < 2 ^ 31" and "sz < 2 ^ 31"
  shows "ok (cr_realloc R sz (cr, q)) (\<lambda>r (cr', q'). cr_ok cr' \<and> cr_len cr' = cr_len cr \<and> cr_list cr' = cr_list cr \<and>
    (r = 0 \<and> sz \<le> cr_size cr' \<or> r = - 1 \<and> refuses R))"
proof (cases "cr_size cr < sz")
  case False
  then show ?thesis
    using cr by (simp add: cr_realloc_def)
next
  case True
  let ?n = "max sz (cr_size cr * 3 div 2)"
  let ?w = "of_nat ?n * 4 :: u64"
  have n: "?n < 2 ^ 31" "0 < ?n"
    using assms(2,3) True by auto
  then have w: "unat ?w = 4 * ?n" "?w \<noteq> 0"
    by (auto simp: unat_word_ariths unat_of_nat take_bit_eq_mod simp flip: unat_eq_zero)
  show ?thesis
  proof (cases "R q (cr_points cr) ?w")
    case (Pair p q')
    show ?thesis
    proof (cases p)
      case None
      then have "refuses R"
        using Pair w(2) by (auto simp: refuses_def intro!: exI [of _ q] exI [of _ "cr_points cr"] exI [of _ ?w])
      then show ?thesis
        using None Pair True assms by (simp add: cr_realloc_def int_range_def mult.commute Let_def)
    next
      case (Some b)
      have len: "length b = 4 * ?n"
        using length_realloc [OF w(2)] Pair Some w(1) by simp
      have "pts (cr_len cr) b = cr_list cr"
      proof (cases "cr_points cr")
        case None
        then show ?thesis
          using cr by (simp add: cr_ok_def cr_list_def pts_def)
      next
        case old: (Some old)
        then have "take (length old) b = old"
          using keep_realloc [OF w(2), of q old b q'] Pair Some w(1) cr True by (simp add: cr_ok_def)
        moreover have "take 4 (drop (4 * i) (take (length old) b)) = take 4 (drop (4 * i) b)" if "i < cr_len cr" for i
        proof -
          have "4 \<le> length old - 4 * i"
            using that cr old by (auto simp: cr_ok_def)
          then show ?thesis
            by (simp add: drop_take min_def)
        qed
        ultimately have "take 4 (drop (4 * i) b) = take 4 (drop (4 * i) old)" if "i < cr_len cr" for i
          using that by simp
        then show ?thesis
          using old by (simp add: cr_list_def pts_def)
      qed
      then show ?thesis
        using Pair Some True assms len n by (auto simp: cr_realloc_def int_range_def mult.commute Let_def cr_ok_def cr_list_def)
    qed
  qed
qed

lemma cr_add_point_ok:
  assumes cr: "cr_ok cr" and "3 * (cr_len cr + 1) < 2 ^ 31"
  shows "ok (cr_add_point R v (cr, q)) (\<lambda>r (cr', q'). cr_ok cr' \<and>
    (r = 0 \<and> cr_list cr' = cr_list cr @ [v] \<and> cr_len cr' = cr_len cr + 1 \<or> r = - 1 \<and> refuses R))"
proof (cases "cr_len cr \<ge> cr_size cr")
  case False
  then show ?thesis
    using append_point_ok [OF cr, of v q] by (auto simp: cr_add_point_def)
next
  case True
  then have "ok (cr_realloc R (cr_len cr + 1) (cr, q)) (\<lambda>r (cr', q'). cr_ok cr' \<and> cr_len cr' = cr_len cr \<and>
    cr_list cr' = cr_list cr \<and> (r = 0 \<and> cr_len cr + 1 \<le> cr_size cr' \<or> r = - 1 \<and> refuses R))"
    using assms by (intro cr_realloc_ok) auto
  then obtain r cr1 q1 where re: "cr_realloc R (cr_len cr + 1) (cr, q) = Some (r, cr1, q1)" "cr_ok cr1"
    "cr_len cr1 = cr_len cr" "cr_list cr1 = cr_list cr" "r = 0 \<and> cr_len cr + 1 \<le> cr_size cr1 \<or> r = - 1 \<and> refuses R"
    by (auto elim!: ok_SomeE)
  then show ?thesis
    using True assms append_point_ok [OF re(2), of v q1] by (auto simp: cr_add_point_def int_range_def)
qed

lemma cr_add_interval_ok:
  assumes cr: "cr_ok cr" and "3 * (cr_len cr + 2) < 2 ^ 31"
  shows "ok (cr_add_interval R c1 c2 (cr, q)) (\<lambda>r (cr', q'). cr_ok cr' \<and>
    (r = 0 \<and> cr_list cr' = cr_list cr @ [c1, c2] \<or> r = - 1 \<and> refuses R \<and> cr_list cr' = cr_list cr))"
proof -
  have two: "\<exists>cr2 cr3. append_point c1 (cr1, q1) = Some ((), cr2, q1) \<and> append_point c2 (cr2, q1) = Some ((), cr3, q1) \<and>
    cr_ok cr3 \<and> cr_list cr3 = cr_list cr1 @ [c1, c2]" if "cr_ok cr1" "cr_len cr1 + 2 \<le> cr_size cr1" for cr1 q1
    using append_point_ok [OF that(1), of c1 q1] append_point_ok [of _ c2 q1] that(2) by fastforce
  show ?thesis
  proof (cases "cr_len cr + 2 > cr_size cr")
    case False
    then show ?thesis
      using two [OF cr, of q] assms by (auto simp: cr_add_interval_def int_range_def)
  next
    case True
    then have "ok (cr_realloc R (cr_len cr + 2) (cr, q)) (\<lambda>r (cr', q'). cr_ok cr' \<and> cr_len cr' = cr_len cr \<and>
      cr_list cr' = cr_list cr \<and> (r = 0 \<and> cr_len cr + 2 \<le> cr_size cr' \<or> r = - 1 \<and> refuses R))"
      using assms by (intro cr_realloc_ok) auto
    then obtain r cr1 q1 where re: "cr_realloc R (cr_len cr + 2) (cr, q) = Some (r, cr1, q1)" "cr_ok cr1"
      "cr_len cr1 = cr_len cr" "cr_list cr1 = cr_list cr" "r = 0 \<and> cr_len cr + 2 \<le> cr_size cr1 \<or> r = - 1 \<and> refuses R"
      by (auto elim!: ok_SomeE)
    then show ?thesis
      using True assms two [OF re(2), of q1] by (auto simp: cr_add_interval_def int_range_def)
  qed
qed

end

section \<open>Set operations\<close>

fun combine :: "cr_op_kind \<Rightarrow> bool \<Rightarrow> bool \<Rightarrow> bool" where
  "combine CR_OP_UNION x y = (x \<or> y)"
| "combine CR_OP_INTER x y = (x \<and> y)"
| "combine CR_OP_XOR x y = (x \<noteq> y)"
| "combine CR_OP_SUB x y = (x \<and> \<not> y)"

lemma is_in_combine: "is_in opc i j = combine opc (odd i) (odd j)"
  by (cases opc) (auto simp: is_in_def)

text \<open>
  The points written so far delimit the combination of the points read so far, and none of them is after a
  point that is still to be read.
\<close>

definition merged :: "cr_op_kind \<Rightarrow> u32 list \<Rightarrow> nat \<Rightarrow> u32 list \<Rightarrow> nat \<Rightarrow> u32 list \<Rightarrow> bool" where
  "merged opc a i b j ps \<longleftrightarrow> i \<le> length a \<and> j \<le> length b \<and> length ps \<le> i + j \<and> sorted ps \<and>
     odd (length ps) = is_in opc i j \<and>
     (\<forall>p \<in> set (take i a @ take j b @ ps). \<forall>x \<in> set (drop i a @ drop j b). p \<le> x) \<and>
     (\<forall>c. inside ps c = combine opc (inside (take i a) c) (inside (take j b) c))"

lemma merged_init: "merged opc a 0 b 0 []"
  by (cases opc) (auto simp: merged_def is_in_def)

lemma next_point_None: "next_point a i b j = None \<Longrightarrow> merged opc a i b j ps \<Longrightarrow> i = length a \<and> j = length b"
  by (auto simp: next_point_def merged_def split: if_splits)

lemma sorted_split:
  assumes "sorted xs" and "k < length xs"
  shows "drop k xs = xs ! k # drop (Suc k) xs" and "take (Suc k) xs = take k xs @ [xs ! k]"
    and "\<And>x. x \<in> set (drop (Suc k) xs) \<Longrightarrow> xs ! k \<le> x"
proof -
  show "drop k xs = xs ! k # drop (Suc k) xs" "take (Suc k) xs = take k xs @ [xs ! k]"
    using assms(2) by (simp_all add: Cons_nth_drop_Suc take_Suc_conv_app_nth)
  then show "\<And>x. x \<in> set (drop (Suc k) xs) \<Longrightarrow> xs ! k \<le> x"
    using sorted_wrt_drop [OF assms(1), of k] by simp
qed

lemma next_point_Some:
  assumes "next_point a i b j = Some (v, i', j')" and "merged opc a i b j ps" and "sorted a" and "sorted b"
  shows "i' \<le> length a" and "j' \<le> length b" and "i + j < i' + j'"
    and "\<And>p. p \<in> set (take i' a @ take j' b @ ps) \<Longrightarrow> p \<le> v"
    and "\<And>x. x \<in> set (drop i' a @ drop j' b) \<Longrightarrow> v \<le> x"
    and "\<And>c. c < v \<Longrightarrow> inside (take i' a) c = inside (take i a) c \<and> inside (take j' b) c = inside (take j b) c"
proof -
  note sa = sorted_split [OF assms(3)] and sb = sorted_split [OF assms(4)]
  have before: "\<And>p x. p \<in> set (take i a @ take j b @ ps) \<Longrightarrow> x \<in> set (drop i a @ drop j b) \<Longrightarrow> p \<le> x"
    and ij: "i \<le> length a" "j \<le> length b"
    using assms(2) by (auto simp: merged_def)
  have ta: "i < length a \<Longrightarrow> \<forall>x \<in> set (drop i a). a ! i \<le> x" and tb: "j < length b \<Longrightarrow> \<forall>x \<in> set (drop j b). b ! j \<le> x"
    using sa(1,3) [of i] sb(1,3) [of j] by auto
  have "i < length a \<and> v = a ! i \<and> i' = Suc i \<and> j' = j \<and> (\<forall>x \<in> set (drop j b). v \<le> x)
    \<or> i < length a \<and> j < length b \<and> v = a ! i \<and> v = b ! j \<and> i' = Suc i \<and> j' = Suc j
    \<or> j < length b \<and> v = b ! j \<and> i' = i \<and> j' = Suc j \<and> (\<forall>x \<in> set (drop i a). v \<le> x)"
  proof (cases "i < length a \<and> j < length b")
    case True
    consider "a ! i < b ! j" | "a ! i = b ! j" | "b ! j < a ! i"
      by (rule linorder_cases)
    then show ?thesis
    proof cases
      case 1
      then have "\<forall>x \<in> set (drop j b). a ! i \<le> x"
        using tb True by (meson less_imp_le order_trans)
      then show ?thesis
        using 1 True assms(1) by (simp add: next_point_def)
    next
      case 2
      then show ?thesis
        using True assms(1) by (simp add: next_point_def)
    next
      case 3
      then have "\<forall>x \<in> set (drop i a). b ! j \<le> x"
        using ta True by (meson less_imp_le order_trans)
      then show ?thesis
        using 3 True assms(1) by (auto simp: next_point_def split: if_splits)
    qed
  next
    case False
    then show ?thesis
      using assms(1) by (simp add: next_point_def split: if_splits)
  qed
  then consider "i < length a" "v = a ! i" "i' = Suc i" "j' = j" "\<forall>x \<in> set (drop j b). v \<le> x"
    | "i < length a" "j < length b" "v = a ! i" "v = b ! j" "i' = Suc i" "j' = Suc j"
    | "j < length b" "v = b ! j" "i' = i" "j' = Suc j" "\<forall>x \<in> set (drop i a). v \<le> x"
    by blast
  note which = this
  show "i' \<le> length a"
    by (cases rule: which) (use ij in simp_all)
  show "j' \<le> length b"
    by (cases rule: which) (use ij in simp_all)
  show "i + j < i' + j'"
    by (cases rule: which) simp_all
  have "v \<in> set (drop i a @ drop j b)"
    using which sa(1) [of i] sb(1) [of j] by cases simp_all
  then have old: "p \<le> v" if "p \<in> set (take i a @ take j b @ ps)" for p
    using before that by blast
  show "p \<le> v" if "p \<in> set (take i' a @ take j' b @ ps)" for p
    using which
  proof cases
    case 1
    then have "p \<in> set (take i a @ take j b @ ps) \<or> p = v"
      using that sa(2) [of i] by auto
    then show ?thesis
      using old by blast
  next
    case 2
    then have "p \<in> set (take i a @ take j b @ ps) \<or> p = v"
      using that sa(2) [of i] sb(2) [of j] by auto
    then show ?thesis
      using old by blast
  next
    case 3
    then have "p \<in> set (take i a @ take j b @ ps) \<or> p = v"
      using that sb(2) [of j] by auto
    then show ?thesis
      using old by blast
  qed
  show "v \<le> x" if "x \<in> set (drop i' a @ drop j' b)" for x
    using which that sa(3) [of i] sb(3) [of j] by cases auto
  show "inside (take i' a) c = inside (take i a) c \<and> inside (take j' b) c = inside (take j b) c" if "c < v" for c
    using which that sa(2) [of i] sb(2) [of j] by cases (auto simp: inside_append)
qed

lemma merged_step:
  assumes nx: "next_point a i b j = Some (v, i', j')" and m: "merged opc a i b j ps" and "sorted a" and "sorted b"
    and ps': "ps' = (if is_in opc i' j' \<noteq> odd (length ps) then ps @ [v] else ps)"
  shows "merged opc a i' b j' ps'"
proof -
  note n = next_point_Some [OF nx m assms(3,4)]
  have odd: "odd (length ps') = is_in opc i' j'"
    by (auto simp: ps')
  have le: "p \<le> v" if "p \<in> set (take i' a @ take j' b @ ps')" for p
    using that n(4) by (auto simp: ps' split: if_splits)
  have "inside ps' c = combine opc (inside (take i' a) c) (inside (take j' b) c)" for c
  proof (cases "c < v")
    case True
    then have "inside ps' c = inside ps c"
      by (auto simp: ps' inside_append)
    then show ?thesis
      using True n(6) m by (simp add: merged_def)
  next
    case False
    then have "\<And>p. p \<in> set (take i' a @ take j' b @ ps') \<Longrightarrow> p \<le> c"
      using le by (meson not_less order_trans)
    then show ?thesis
      using odd n(1,2) by (simp add: inside_all is_in_combine)
  qed
  moreover have "sorted ps'"
    using m n(4) by (auto simp: ps' merged_def sorted_append)
  moreover have "length ps' \<le> i' + j'"
    using m n(3) by (auto simp: ps' merged_def)
  moreover have "\<forall>p \<in> set (take i' a @ take j' b @ ps'). \<forall>x \<in> set (drop i' a @ drop j' b). p \<le> x"
    using le n(5) order_trans by blast
  ultimately show ?thesis
    unfolding merged_def using n(1,2) odd by blast
qed

fun set_op :: "cr_op_kind \<Rightarrow> u32 set \<Rightarrow> u32 set \<Rightarrow> u32 set" where
  "set_op CR_OP_UNION A B = A \<union> B"
| "set_op CR_OP_INTER A B = A \<inter> B"
| "set_op CR_OP_XOR A B = (A - B) \<union> (B - A)"
| "set_op CR_OP_SUB A B = A - B"

lemma set_op_combine: "c \<in> set_op opc A B \<longleftrightarrow> combine opc (c \<in> A) (c \<in> B)"
  by (cases opc) auto

text \<open>The points of a range in use: ascending pairs. A normal range has no empty or touching intervals.\<close>

definition well_formed :: "u32 list \<Rightarrow> bool" where
  "well_formed ps \<longleftrightarrow> sorted ps \<and> even (length ps)"

definition canonical :: "u32 list \<Rightarrow> bool" where
  "canonical ps \<longleftrightarrow> sorted_wrt (<) ps \<and> even (length ps)"

lemma canonical_well_formed: "canonical ps \<Longrightarrow> well_formed ps"
  by (simp add: canonical_def well_formed_def strict_sorted_imp_sorted)

lemma compress_canonical:
  assumes "well_formed ps"
  shows "canonical (compress ps)" and "ranges (compress ps) = ranges ps"
  using compress_ok [of ps] assms by (auto simp: canonical_def well_formed_def)

lemma merged_ranges:
  assumes "merged opc a (length a) b (length b) ps" and "well_formed a" and "well_formed b"
  shows "well_formed ps" and "ranges ps = set_op opc (ranges a) (ranges b)"
proof -
  have ab: "even (length a)" "even (length b)" "sorted a" "sorted b"
    using assms(2,3) by (auto simp: well_formed_def)
  have "sorted ps" and "\<not> odd (length ps)"
    using assms(1) ab by (cases opc; auto simp: merged_def is_in_def)+
  then show ps: "well_formed ps"
    by (simp add: well_formed_def)
  then show "ranges ps = set_op opc (ranges a) (ranges b)"
    using assms(1) ab by (intro set_eqI) (simp add: ranges_inside set_op_combine merged_def well_formed_def)
qed

context realloc_contract
begin

lemma cr_op_loop_ok:
  assumes "cr_ok cr" and "merged opc a i b j (cr_list cr)" and "sorted a" and "sorted b"
    and "3 * (length a + length b) < 2 ^ 31"
  shows "ok (cr_op_loop R a i b j opc (cr, q)) (\<lambda>r (cr', q'). cr_ok cr' \<and>
    (r = 0 \<and> merged opc a (length a) b (length b) (cr_list cr') \<or> r = - 1 \<and> refuses R))"
  using assms(1,2)
proof (induction "length a + length b - (i + j)" arbitrary: i j cr q rule: less_induct)
  case less
  show ?case
  proof (cases "next_point a i b j")
    case None
    then show ?thesis
      using next_point_None [OF None less.prems(2)] less.prems by (subst cr_op_loop.simps) simp
  next
    case (Some t)
    obtain v i' j' where t: "t = (v, i', j')"
      by (cases t)
    note n = next_point_Some(1-3) [OF Some [unfolded t] less.prems(2) assms(3,4)]
    note step = merged_step [OF Some [unfolded t] less.prems(2) assms(3,4) refl]
    have len: "length (cr_list cr) = cr_len cr"
      using length_cr_list less.prems(1) .
    show ?thesis
    proof (cases "is_in opc i' j' \<noteq> odd (cr_len cr)")
      case True
      have "cr_len cr + 1 \<le> length a + length b"
        using n less.prems(2) len by (simp add: merged_def)
      then have "ok (cr_add_point R v (cr, q)) (\<lambda>r (cr', q'). cr_ok cr' \<and>
        (r = 0 \<and> cr_list cr' = cr_list cr @ [v] \<and> cr_len cr' = cr_len cr + 1 \<or> r = - 1 \<and> refuses R))"
        using less.prems(1) assms(5) by (intro cr_add_point_ok) auto
      then obtain r cr1 q1 where add: "cr_add_point R v (cr, q) = Some (r, cr1, q1)" "cr_ok cr1"
        "r = 0 \<and> cr_list cr1 = cr_list cr @ [v] \<or> r = - 1 \<and> refuses R"
        by (auto elim!: ok_SomeE)
      have "ok (cr_op_loop R a i' b j' opc (cr1, q1)) (\<lambda>r (cr', q'). cr_ok cr' \<and>
        (r = 0 \<and> merged opc a (length a) b (length b) (cr_list cr') \<or> r = - 1 \<and> refuses R))" if "r = 0"
        using n that add True len step by (intro less.hyps) auto
      then show ?thesis
        using Some t True add by (subst cr_op_loop.simps) auto
    next
      case False
      then have "ok (cr_op_loop R a i' b j' opc (cr, q)) (\<lambda>r (cr', q'). cr_ok cr' \<and>
        (r = 0 \<and> merged opc a (length a) b (length b) (cr_list cr') \<or> r = - 1 \<and> refuses R))"
        using n len step less.prems(1) by (intro less.hyps) auto
      then show ?thesis
        using Some t False by (subst cr_op_loop.simps) simp
    qed
  qed
qed

lemma cr_op_ok:
  assumes "cr_ok cr" and "cr_len cr = 0" and "well_formed a" and "well_formed b" and "3 * (length a + length b) < 2 ^ 31"
  shows "ok (cr_op R a b opc (cr, q)) (\<lambda>r (cr', q'). cr_ok cr' \<and>
    (r = 0 \<and> canonical (cr_list cr') \<and> ranges (cr_list cr') = set_op opc (ranges a) (ranges b) \<or> r = - 1 \<and> refuses R))"
proof -
  have "cr_list cr = []"
    using length_cr_list [OF assms(1)] assms(2) by simp
  then have "ok (cr_op_loop R a 0 b 0 opc (cr, q)) (\<lambda>r (cr', q'). cr_ok cr' \<and>
    (r = 0 \<and> merged opc a (length a) b (length b) (cr_list cr') \<or> r = - 1 \<and> refuses R))"
    using assms merged_init by (intro cr_op_loop_ok) (auto simp: well_formed_def)
  then obtain r cr1 q1 where loop: "cr_op_loop R a 0 b 0 opc (cr, q) = Some (r, cr1, q1)" "cr_ok cr1"
    "r = 0 \<and> merged opc a (length a) b (length b) (cr_list cr1) \<or> r = - 1 \<and> refuses R"
    by (auto elim!: ok_SomeE)
  show ?thesis
  proof (cases "r = 0")
    case True
    then have m: "well_formed (cr_list cr1)" "ranges (cr_list cr1) = set_op opc (ranges a) (ranges b)"
      using merged_ranges [of opc a b] loop(3) assms(3,4) by auto
    then show ?thesis
      using True loop(1) cr_compress_ok [OF loop(2)] compress_canonical by (fastforce simp: cr_op_def)
  next
    case False
    then show ?thesis
      using loop by (simp add: cr_op_def)
  qed
qed

lemma read_points_ok: "n \<le> cr_len cr \<Longrightarrow> cr_ok cr \<Longrightarrow> read_points (cr_points cr) n = Some (take n (cr_list cr))"
proof (induction n)
  case (Suc n)
  then obtain b where b: "cr_points cr = Some b" "4 * cr_len cr \<le> length b"
    by (auto simp: cr_ok_def split: option.splits)
  then show ?case
    using Suc get_point_pts [of n "cr_len cr" b] by (simp add: cr_list_def take_Suc_conv_app_nth)
qed simp

lemma cr_op1_ok:
  assumes "cr_ok cr" and "well_formed (cr_list cr)" and "well_formed b" and "3 * (cr_len cr + length b) < 2 ^ 31"
  shows "ok (cr_op1 R b opc (cr, q)) (\<lambda>r (cr', q'). cr_ok cr' \<and>
    (r = 0 \<and> canonical (cr_list cr') \<and> ranges (cr_list cr') = set_op opc (ranges (cr_list cr)) (ranges b) \<or> r = - 1 \<and> refuses R))"
proof -
  let ?cr = "cr\<lparr>cr_len := 0, cr_size := 0, cr_points := None\<rparr>"
  have "ok (cr_op R (cr_list cr) b opc (?cr, q)) (\<lambda>r (cr', q'). cr_ok cr' \<and>
    (r = 0 \<and> canonical (cr_list cr') \<and> ranges (cr_list cr') = set_op opc (ranges (cr_list cr)) (ranges b) \<or> r = - 1 \<and> refuses R))"
    using assms length_cr_list [OF assms(1)] by (intro cr_op_ok) (auto simp: cr_ok_def)
  moreover have "read_points (cr_points cr) (cr_len cr) = Some (cr_list cr)"
    using read_points_ok [of "cr_len cr" cr] assms(1) length_cr_list [OF assms(1)] by simp
  ultimately show ?thesis
    by (auto simp: cr_op1_def ok_def)
qed

lemma cr_union_interval_ok:
  assumes "cr_ok cr" and "well_formed (cr_list cr)" and "c1 \<le> c2" and "c2 < 0xFFFFFFFF" and "3 * (cr_len cr + 2) < 2 ^ 31"
  shows "ok (cr_union_interval R c1 c2 (cr, q)) (\<lambda>r (cr', q'). cr_ok cr' \<and>
    (r = 0 \<and> canonical (cr_list cr') \<and> ranges (cr_list cr') = ranges (cr_list cr) \<union> {c1..c2} \<or> r = - 1 \<and> refuses R))"
proof -
  have "unat (c2 + 1) = Suc (unat c2)"
    using assms(4) by (simp add: unat_word_ariths word_less_nat_alt)
  then have lt: "x < c2 + 1 \<longleftrightarrow> x \<le> c2" for x
    by (simp add: word_less_nat_alt word_le_nat_alt less_Suc_eq_le)
  have "ranges [c1, c2 + 1] = {c1..c2}"
    by (auto simp: lt)
  moreover have "c1 \<le> c2 + 1"
    by (rule less_imp_le) (simp only: lt assms(3))
  ultimately show ?thesis
    using cr_op1_ok [OF assms(1,2), of "[c1, c2 + 1]" CR_OP_UNION q] assms(5)
    by (simp add: cr_union_interval_def well_formed_def)
qed

end

end
