(* ===== verification/CharRange_Claims.thy ===== *)
theory CharRange_Claims
  imports CharRange_Facts
begin

text \<open>
  Complement and normal form of code point sets, and what the functions of libunicode.c promise about sets.
  The normal form sorts the intervals with \<open>rqsort\<close>.
\<close>

section \<open>Complement\<close>

lemma ranges_complement:
  assumes "well_formed ps"
  shows "well_formed (0 # ps @ [0xFFFFFFFF])"
    and "ranges (0 # ps @ [0xFFFFFFFF]) = - ranges ps - {0xFFFFFFFF}"
proof -
  have max: "c \<le> 0xFFFFFFFF" for c :: u32
  proof -
    have "(0xFFFFFFFF :: u32) = - 1"
      by simp
    then show ?thesis
      by (simp only: word_order.extremum)
  qed
  show wf: "well_formed (0 # ps @ [0xFFFFFFFF])"
    using assms max by (auto simp: well_formed_def sorted_append)
  have "c \<in> ranges (0 # ps @ [0xFFFFFFFF]) \<longleftrightarrow> c \<notin> ranges ps \<and> c \<noteq> 0xFFFFFFFF" for c
  proof (cases "c = 0xFFFFFFFF")
    case True
    then have "\<not> inside ps c"
      using inside_all [of ps c] max assms by (auto simp: well_formed_def)
    then show ?thesis
      using True wf by (simp add: ranges_inside well_formed_def inside_append)
  next
    case False
    then have "\<not> 0xFFFFFFFF \<le> c"
      using max [of c] by auto
    then show ?thesis
      using False wf assms by (simp add: ranges_inside well_formed_def inside_append)
  qed
  then show "ranges (0 # ps @ [0xFFFFFFFF]) = - ranges ps - {0xFFFFFFFF}"
    by auto
qed

lemma pts_shift:
  assumes "4 * (n + 2) \<le> length b"
  shows "pts (n + 2) (put_pt (put_pt (take 4 b @ take (4 * n) b @ drop (4 * n + 4) b) 0 0) (n + 1) v) = 0 # pts n b @ [v]"
proof -
  let ?c = "take 4 b @ take (4 * n) b @ drop (4 * n + 4) b"
  have len: "length ?c = length b"
    using assms by simp
  have "pts (n + 2) ?c ! Suc k = pts n b ! k" if "k < n" for k
  proof -
    have "take 4 (drop (4 * Suc k) ?c) = take 4 (drop (4 * k) b)"
      using that assms by (intro nth_equalityI) (auto simp: nth_append)
    then show ?thesis
      using that by (simp add: pts_nth)
  qed
  then have nth: "pts (n + 2) ?c ! k = pts n b ! (k - 1)" if "0 < k" "k \<le> n" for k
    using that by (cases k) auto
  show ?thesis
    using assms len
    by (intro nth_equalityI) (auto simp: pts_put_pt nth_list_update nth_append nth_Cons' less_Suc_eq nth [simplified])
qed

context realloc_contract
begin

lemma cr_invert_ok:
  assumes cr: "cr_ok cr" and "well_formed (cr_list cr)" and "3 * (cr_len cr + 2) < 2 ^ 31"
  shows "ok (cr_invert R (cr, q)) (\<lambda>r (cr', q'). cr_ok cr' \<and>
    (r = 0 \<and> canonical (cr_list cr') \<and> ranges (cr_list cr') = - ranges (cr_list cr) - {0xFFFFFFFF} \<or>
     r = - 1 \<and> refuses R \<and> cr_list cr' = cr_list cr))"
proof -
  let ?n = "cr_len cr"
  have "ok (cr_realloc R (?n + 2) (cr, q)) (\<lambda>r (cr', q'). cr_ok cr' \<and> cr_len cr' = ?n \<and> cr_list cr' = cr_list cr \<and>
    (r = 0 \<and> ?n + 2 \<le> cr_size cr' \<or> r = - 1 \<and> refuses R))"
  proof (cases "?n + 2 \<le> cr_size cr")
    case True
    then show ?thesis
      using cr by (simp add: cr_realloc_def)
  next
    case False
    then show ?thesis
      using assms by (intro cr_realloc_ok) auto
  qed
  then obtain r cr1 q1 where re: "cr_realloc R (?n + 2) (cr, q) = Some (r, cr1, q1)" "cr_ok cr1" "cr_len cr1 = ?n"
    "cr_list cr1 = cr_list cr" "r = 0 \<and> ?n + 2 \<le> cr_size cr1 \<or> r = - 1 \<and> refuses R"
    by (auto elim!: ok_SomeE)
  show ?thesis
  proof (cases "r = 0")
    case False
    then show ?thesis
      using re assms(3) by (auto simp: cr_invert_def int_range_def)
  next
    case True
    then obtain b where b: "cr_points cr1 = Some b" "length b = 4 * cr_size cr1" "4 * (?n + 2) \<le> length b"
      using re by (auto simp: cr_ok_def split: option.splits)
    let ?b = "put_pt (put_pt (take 4 b @ take (4 * ?n) b @ drop (4 * ?n + 4) b) 0 0) (?n + 1) 0xFFFFFFFF"
    let ?cr = "cr1\<lparr>cr_points := Some ?b, cr_len := ?n + 2\<rparr>"
    have list: "cr_list ?cr = 0 # cr_list cr @ [0xFFFFFFFF]"
      using pts_shift [OF b(3)] re(3,4) b(1) by (simp add: cr_list_def)
    have ok: "cr_ok ?cr"
      using re(2,5) True b by (simp add: cr_ok_def)
    have "cr_invert R (cr, q) = do { cr \<leftarrow> cr_compress ?cr; Some (0, cr, q1) }"
      using re(1) True b assms(3) by (simp add: cr_invert_def int_range_def set_point_put Let_def)
    moreover obtain cr2 where "cr_compress ?cr = Some cr2" "cr_ok cr2"
      "cr_list cr2 = compress (0 # cr_list cr @ [0xFFFFFFFF])"
      using cr_compress_ok [OF ok] unfolding list by blast
    ultimately show ?thesis
      using compress_canonical [OF ranges_complement(1) [OF assms(2)]] ranges_complement(2) [OF assms(2)] by simp
  qed
qed

lemma cr_copy_ok:
  assumes cr: "cr_ok cr" and cr1: "cr_ok cr1" and "3 * cr_len cr1 < 2 ^ 31" and "cr_len cr1 \<noteq> 0"
  shows "ok (cr_copy R cr1 (cr, q)) (\<lambda>r (cr', q'). cr_ok cr' \<and>
    (r = 0 \<and> cr_list cr' = cr_list cr1 \<or> r = - 1 \<and> refuses R \<and> cr_list cr' = cr_list cr))"
proof -
  have "ok (cr_realloc R (cr_len cr1) (cr, q)) (\<lambda>r (cr', q'). cr_ok cr' \<and> cr_len cr' = cr_len cr \<and>
    cr_list cr' = cr_list cr \<and> (r = 0 \<and> cr_len cr1 \<le> cr_size cr' \<or> r = - 1 \<and> refuses R))"
  proof (cases "cr_len cr1 \<le> cr_size cr")
    case True
    then show ?thesis
      using cr by (simp add: cr_realloc_def)
  next
    case False
    then show ?thesis
      using assms by (intro cr_realloc_ok) auto
  qed
  then obtain r cr2 q2 where re: "cr_realloc R (cr_len cr1) (cr, q) = Some (r, cr2, q2)" "cr_ok cr2"
    "cr_list cr2 = cr_list cr" "r = 0 \<and> cr_len cr1 \<le> cr_size cr2 \<or> r = - 1 \<and> refuses R"
    by (auto elim!: ok_SomeE)
  obtain b1 where b1: "cr_points cr1 = Some b1" "4 * cr_len cr1 \<le> length b1"
    using cr1 assms(4) by (auto simp: cr_ok_def split: option.splits)
  show ?thesis
  proof (cases "r = 0")
    case True
    then obtain b where b: "cr_points cr2 = Some b" "length b = 4 * cr_size cr2" "4 * cr_len cr1 \<le> length b"
      using re assms(4) by (auto simp: cr_ok_def split: option.splits)
    have "take 4 (drop (4 * i) (take (4 * cr_len cr1) b1 @ drop (4 * cr_len cr1) b)) = take 4 (drop (4 * i) b1)"
      if "i < cr_len cr1" for i
      using that b1 b by (intro nth_equalityI) (auto simp: nth_append)
    then have "pts (cr_len cr1) (take (4 * cr_len cr1) b1 @ drop (4 * cr_len cr1) b) = pts (cr_len cr1) b1"
      by (simp add: pts_def)
    then show ?thesis
      using True re b b1 by (auto simp: cr_copy_def cr_ok_def cr_list_def)
  next
    case False
    then show ?thesis
      using re by (simp add: cr_copy_def)
  qed
qed

end

section \<open>Sorting the intervals\<close>

interpretation point_order: cmp_order point_cmp "\<lambda>x y. (le_word (take 4 x) :: u32) \<le> le_word (take 4 y)"
  by unfold_locales (auto simp: point_cmp_def Let_def split: if_splits)

definition pair_of :: "u8 list \<Rightarrow> u32 \<times> u32" where
  "pair_of e = (le_word (take 4 e), le_word (take 4 (drop 4 e)))"

lemma flat_append: "flat (xs @ ys) = flat xs @ flat ys"
  by (simp add: flat_def)

lemma pts_elems: "pts (2 * m) b = flat (map pair_of (elems 0 m 8 b))"
proof (induction m)
  case (Suc m)
  have "pair_of (bytes_at (m * 8) 8 b) = (le_word (take 4 (drop (8 * m) b)), le_word (take 4 (drop (8 * m + 4) b)))"
    by (simp add: pair_of_def bytes_at_def drop_take mult.commute add.commute)
  moreover have "elems 0 (Suc m) 8 b = elems 0 m 8 b @ [bytes_at (m * 8) 8 b]"
    by (simp add: elems_def)
  moreover have "pts (2 * Suc m) b =
    pts (2 * m) b @ [le_word (take 4 (drop (8 * m) b)), le_word (take 4 (drop (8 * m + 4) b))]"
    by (simp add: pts_Suc mult.assoc [symmetric] add.commute)
  ultimately show ?case
    using Suc by (simp add: flat_append)
qed (simp add: pts_def elems_def)

lemma sort_points_ok:
  assumes "8 * m \<le> length b"
  shows "\<exists>b' ivs. rqsort point_cmp 0 m 8 (b, ()) = Some ((), b', ()) \<and> length b' = length b \<and>
    pts (2 * m) b' = flat ivs \<and> mset ivs = mset (map pair_of (elems 0 m 8 b)) \<and> sorted (map fst ivs)"
proof -
  obtain b' where b': "rqsort point_cmp 0 m 8 (b, ()) = Some ((), b', ())" "length b' = length b"
    "mset (elems 0 m 8 b') = mset (elems 0 m 8 b)"
    "sorted_wrt (\<lambda>x y. (le_word (take 4 x) :: u32) \<le> le_word (take 4 y)) (elems 0 m 8 b')"
    using point_order.rqsort_ok [of 0 m 8 b "()"] assms by (auto simp: mult.commute elim!: ok_SomeE)
  have "sorted (map fst (map pair_of (elems 0 m 8 b')))"
    using b'(4) by (simp add: sorted_wrt_map pair_of_def)
  then show ?thesis
    using b' pts_elems [of m b']
    by (intro exI [of _ b'] exI [of _ "map pair_of (elems 0 m 8 b')"]) (simp del: map_map)
qed

section \<open>Removing overlaps\<close>

lemma overlap_run_ok:
  assumes "4 * n \<le> length b" and "even n" and "even i" and "i \<le> n"
  shows "\<exists>i' e'. overlap_run (Some b) n i e = Some (i', e') \<and> i \<le> i' \<and> i' \<le> n \<and> even i' \<and>
    absorb e (drop i (pts n b)) = (e', drop i' (pts n b))"
  using assms(3,4)
proof (induction "n - i" arbitrary: i e rule: less_induct)
  case less
  let ?xs = "pts n b"
  show ?case
  proof (cases "i < n")
    case True
    then have i: "i + 1 < n"
      using less.prems assms(2) by presburger
    then have two: "drop i ?xs = ?xs ! i # ?xs ! (i + 1) # drop (i + 2) ?xs"
      using drop_two [of i ?xs] by simp
    have run: "overlap_run (Some b) n i e =
      (if ?xs ! i > e then Some (i, e)
       else if ?xs ! (i + 1) \<le> e then overlap_run (Some b) n (i + 2) e
       else overlap_run (Some b) n (i + 2) (?xs ! (i + 1)))"
      using True i by (subst overlap_run.simps) (simp add: get_point_pts [OF _ assms(1)])
    have IH: "\<exists>i' e'. overlap_run (Some b) n (i + 2) d = Some (i', e') \<and> i + 2 \<le> i' \<and> i' \<le> n \<and> even i' \<and>
      absorb d (drop (i + 2) ?xs) = (e', drop i' ?xs)" for d
      using less.prems i by (intro less.hyps) auto
    show ?thesis
      using run two IH [of e] IH [of "?xs ! (i + 1)"] less.prems by auto
  next
    case False
    then have "overlap_run (Some b) n i e = Some (i, e)"
      by (subst overlap_run.simps) simp
    then show ?thesis
      using False less.prems by simp
  qed
qed

lemma overlap_loop_ok:
  assumes "4 * n \<le> length b" and "even n" and "even i" and "j \<le> i" and "i \<le> n"
  shows "\<exists>b' j'. overlap_loop (Some b) n i j = Some (Some b', j') \<and> length b' = length b \<and> j' \<le> n \<and>
    pts j' b' = take j (pts n b) @ unite (drop i (pts n b))"
  using assms(1,3-5)
proof (induction "n - i" arbitrary: i j b rule: less_induct)
  case less
  let ?xs = "pts n b"
  show ?case
  proof (cases "i < n")
    case False
    then have "overlap_loop (Some b) n i j = Some (Some b, j)"
      by (subst overlap_loop.simps) simp
    then show ?thesis
      using False less.prems pts_take [of j n b] by auto
  next
    case True
    then have i: "i + 1 < n"
      using less.prems assms(2) by presburger
    then have two: "drop i ?xs = ?xs ! i # ?xs ! (i + 1) # drop (i + 2) ?xs"
      using drop_two [of i ?xs] by simp
    obtain i' e' where run: "overlap_run (Some b) n (i + 2) (?xs ! (i + 1)) = Some (i', e')" "i + 2 \<le> i'" "i' \<le> n"
      "even i'" "absorb (?xs ! (i + 1)) (drop (i + 2) ?xs) = (e', drop i' ?xs)"
      using overlap_run_ok [OF less.prems(1) assms(2), of "i + 2" "?xs ! (i + 1)"] less.prems i by auto
    define b1 where "b1 = put_pt b j (?xs ! i)"
    define b2 where "b2 = put_pt b1 (j + 1) e'"
    have b1: "length b1 = length b" "pts n b1 = ?xs[j := ?xs ! i]" "set_point (Some b) j (?xs ! i) = Some (Some b1)"
      using less.prems i by (simp_all add: b1_def pts_put_pt set_point_put)
    have b2: "length b2 = length b" "pts n b2 = ?xs[j := ?xs ! i, j + 1 := e']"
      "set_point (Some b1) (j + 1) e' = Some (Some b2)"
      using less.prems i b1 by (simp_all add: b2_def pts_put_pt set_point_put)
    have "overlap_loop (Some b) n i j = overlap_loop (Some b2) n i' (j + 2)"
      using True i run(1) b1(3) b2(3)
      by (subst overlap_loop.simps) (simp add: get_point_pts [OF _ less.prems(1)])
    moreover have "\<exists>b' j'. overlap_loop (Some b2) n i' (j + 2) = Some (Some b', j') \<and> length b' = length b2 \<and>
      j' \<le> n \<and> pts j' b' = take (j + 2) (pts n b2) @ unite (drop i' (pts n b2))"
      using less.prems run b2(1) True by (intro less.hyps) auto
    moreover have "drop i' (pts n b2) = drop i' ?xs"
      using run(2) less.prems by (simp add: b2)
    moreover have "take (j + 2) (pts n b2) = take j ?xs @ [?xs ! i, e']"
      using less.prems i by (intro nth_equalityI) (auto simp: b2 nth_append nth_list_update less_Suc_eq)
    ultimately show ?thesis
      using two run(5) b2(1) by simp
  qed
qed

lemma cr_sort_and_remove_overlap_ok:
  assumes cr: "cr_ok cr" and even: "even (cr_len cr)"
  shows "\<exists>cr'. cr_sort_and_remove_overlap cr = Some cr' \<and> cr_ok cr' \<and> ranges (cr_list cr') = ranges (cr_list cr) \<and>
    (nonempty (cr_list cr) \<longrightarrow> canonical (cr_list cr'))"
proof (cases "cr_points cr")
  case None
  then have "cr_len cr = 0"
    using cr by (simp add: cr_ok_def)
  moreover have "overlap_loop None 0 0 0 = Some (None, 0)"
    by (subst overlap_loop.simps) simp
  ultimately show ?thesis
    using cr None by (auto simp: cr_sort_and_remove_overlap_def cr_ok_def cr_list_def canonical_def)
next
  case (Some b)
  define m where "m = cr_len cr div 2"
  have n: "cr_len cr = 2 * m"
    using even by (simp add: m_def)
  have b: "8 * m \<le> length b" "length b = 4 * cr_size cr"
    using cr Some n by (auto simp: cr_ok_def)
  obtain b1 ivs where sort: "rqsort point_cmp 0 m 8 (b, ()) = Some ((), b1, ())" "length b1 = length b"
    "pts (2 * m) b1 = flat ivs" "mset ivs = mset (map pair_of (elems 0 m 8 b))" "sorted (map fst ivs)"
    using sort_points_ok [OF b(1)] by blast
  obtain b2 k where loop: "overlap_loop (Some b1) (2 * m) 0 0 = Some (Some b2, k)" "length b2 = length b1" "k \<le> 2 * m"
    "pts k b2 = unite (flat ivs)"
    using overlap_loop_ok [of "2 * m" b1 0 0] b sort by auto
  let ?cr = "cr\<lparr>cr_points := Some b2, cr_len := k\<rparr>"
  have old: "cr_list cr = flat (map pair_of (elems 0 m 8 b))"
    using Some n pts_elems [of m b] by (simp add: cr_list_def)
  have set: "set ivs = set (map pair_of (elems 0 m 8 b))"
    using mset_eq_setD [OF sort(4)] .
  have "sorted (starts (flat ivs))"
    using sort(5) by (simp add: flat_facts)
  note unite = unite_ok [OF this]
  have "cr_sort_and_remove_overlap cr = Some ?cr"
    using Some n sort(1) loop(1) by (simp add: cr_sort_and_remove_overlap_def)
  moreover have "cr_ok ?cr"
    using cr Some n b sort(2) loop(2,3) by (simp add: cr_ok_def)
  moreover have "cr_list ?cr = unite (flat ivs)"
    using loop(4) by (simp add: cr_list_def)
  moreover have "ranges (flat ivs) = ranges (cr_list cr)" "nonempty (flat ivs) = nonempty (cr_list cr)"
    unfolding old flat_facts set by simp_all
  ultimately show ?thesis
    using unite by (auto simp: canonical_def)
qed

section \<open>The guarantees\<close>

interpretation cr_libc: realloc_contract cr_default_realloc
  by unfold_locales (auto simp: cr_default_realloc_def c_realloc_def Let_def split: if_splits list.splits bool.splits option.splits)

text \<open>
  C19. \<open>cr_op1\<close> computes the union, intersection, symmetric difference or difference of two sets of code points, as
  a list of ascending, non-empty intervals that do not touch. It stays inside its blocks and fails only when
  the reallocation function refuses.
\<close>

theorem char_range_operations:
  assumes "realloc_contract R" and "cr_ok cr" and "well_formed (cr_list cr)" and "well_formed b_pt"
    and "3 * (cr_len cr + length b_pt) < 2 ^ 31"
  shows "\<exists>r cr' q'. cr_op1 R b_pt opc (cr, q) = Some (r, cr', q') \<and> cr_ok cr' \<and>
    (r = 0 \<and> canonical (cr_list cr') \<and> ranges (cr_list cr') = set_op opc (ranges (cr_list cr)) (ranges b_pt) \<or>
     r = - 1 \<and> refuses R)"
  using realloc_contract.cr_op1_ok [OF assms, of opc q] by (auto simp: ok_def)

text \<open>The small letters, added to the empty set.\<close>

theorem char_range_operations_witness:
  "\<exists>r cr' q'. cr_op1 cr_default_realloc [97, 123] CR_OP_UNION
      (cr_init, \<lparr>heap_grants = [True, True], heap_fill = \<lambda>_. 7\<rparr>) = Some (r, cr', q') \<and> cr_ok cr' \<and>
    (r = 0 \<and> canonical (cr_list cr') \<and> ranges (cr_list cr') = ranges [97, 123] \<or> r = - 1)"
  using char_range_operations [OF cr_libc.realloc_contract_axioms, of cr_init "[97, 123]" CR_OP_UNION
      "\<lparr>heap_grants = [True, True], heap_fill = \<lambda>_. 7\<rparr>"]
  by (auto simp: well_formed_def cr_init_def [THEN arg_cong, of cr_len])

text \<open>
  C20. \<open>cr_union_interval\<close> adds an interval that includes both its ends, and \<open>cr_invert\<close> computes the complement,
  without the largest 32-bit integer, which is not a code point. A range that could not be inverted is
  unchanged.
\<close>

theorem char_range_complement:
  assumes "realloc_contract R" and "cr_ok cr" and "well_formed (cr_list cr)" and "3 * (cr_len cr + 2) < 2 ^ 31"
  shows "(\<exists>r cr' q'. cr_invert R (cr, q) = Some (r, cr', q') \<and> cr_ok cr' \<and>
      (r = 0 \<and> canonical (cr_list cr') \<and> ranges (cr_list cr') = - ranges (cr_list cr) - {0xFFFFFFFF} \<or>
       r = - 1 \<and> refuses R \<and> cr_list cr' = cr_list cr)) \<and>
    (c1 \<le> c2 \<and> c2 < 0xFFFFFFFF \<longrightarrow>
      (\<exists>r cr' q'. cr_union_interval R c1 c2 (cr, q) = Some (r, cr', q') \<and> cr_ok cr' \<and>
        (r = 0 \<and> canonical (cr_list cr') \<and> ranges (cr_list cr') = ranges (cr_list cr) \<union> {c1..c2} \<or>
         r = - 1 \<and> refuses R)))"
  using realloc_contract.cr_invert_ok [OF assms, of q]
    realloc_contract.cr_union_interval_ok [OF assms(1-3) _ _ assms(4), of c1 c2 q] by (fastforce simp: ok_def)

theorem char_range_complement_witness:
  "(\<exists>r cr' q'. cr_invert cr_default_realloc (cr_init, \<lparr>heap_grants = [True], heap_fill = \<lambda>_. 7\<rparr>) = Some (r, cr', q') \<and>
      cr_ok cr') \<and>
    (\<exists>r cr' q'. cr_union_interval cr_default_realloc 48 57
        (cr_init, \<lparr>heap_grants = [True, True], heap_fill = \<lambda>_. 7\<rparr>) = Some (r, cr', q') \<and> cr_ok cr')"
  using char_range_complement [OF cr_libc.realloc_contract_axioms, of cr_init "\<lparr>heap_grants = [True], heap_fill = \<lambda>_. 7\<rparr>" 0 1]
    char_range_complement [OF cr_libc.realloc_contract_axioms, of cr_init "\<lparr>heap_grants = [True, True], heap_fill = \<lambda>_. 7\<rparr>" 48 57]
  by (auto simp: well_formed_def cr_init_def [THEN arg_cong, of cr_len])

text \<open>
  C21. \<open>cr_sort_and_remove_overlap\<close> accepts intervals in any order and with overlaps: the set stays the same, and
  the result is in ascending order without overlaps if no interval was empty.
\<close>

theorem char_range_normal_form:
  assumes "cr_ok cr" and "even (cr_len cr)"
  shows "\<exists>cr'. cr_sort_and_remove_overlap cr = Some cr' \<and> cr_ok cr' \<and> ranges (cr_list cr') = ranges (cr_list cr) \<and>
    (nonempty (cr_list cr) \<longrightarrow> canonical (cr_list cr'))"
  by (rule cr_sort_and_remove_overlap_ok [OF assms])

text \<open>The intervals \<open>[2, 5)\<close> and \<open>[1, 3)\<close>.\<close>

theorem char_range_normal_form_witness:
  "\<exists>cr'. cr_sort_and_remove_overlap
      \<lparr>cr_len = 4, cr_size = 4, cr_points = Some [2, 0, 0, 0, 5, 0, 0, 0, 1, 0, 0, 0, 3, 0, 0, 0]\<rparr> = Some cr' \<and> cr_ok cr'"
  using char_range_normal_form [of "\<lparr>cr_len = 4, cr_size = 4, cr_points = Some [2, 0, 0, 0, 5, 0, 0, 0, 1, 0, 0, 0, 3, 0, 0, 0]\<rparr>"]
  by (auto simp: cr_ok_def)

end
