(* ===== verification/IntrusiveLists.thy ===== *)
theory IntrusiveLists
  imports Prelude
begin

text \<open>
  The doubly linked lists of list.h. The nodes live in a memory shared by all lists; an address is a number and
  0 is the null pointer. A list is a ring through its head. \<open>None\<close> is an access to an address without a
  node. The loops are partial functions: on a broken ring they need not end.
\<close>

section \<open>The operations\<close>

record list_head =
  prev_ptr :: nat
  next_ptr :: nat

type_synonym list_mem = "nat \<Rightarrow> list_head option"

definition set_prev :: "nat \<Rightarrow> nat \<Rightarrow> list_mem \<Rightarrow> list_mem option" where
  "set_prev p v m = (case m p of None \<Rightarrow> None | Some n \<Rightarrow> Some (m(p \<mapsto> n\<lparr>prev_ptr := v\<rparr>)))"

definition set_next :: "nat \<Rightarrow> nat \<Rightarrow> list_mem \<Rightarrow> list_mem option" where
  "set_next p v m = (case m p of None \<Rightarrow> None | Some n \<Rightarrow> Some (m(p \<mapsto> n\<lparr>next_ptr := v\<rparr>)))"

definition init_list_head :: "nat \<Rightarrow> list_mem \<Rightarrow> list_mem option" where
  "init_list_head head m = do { m \<leftarrow> set_prev head head m; set_next head head m }"

text \<open>\<open>__list_add\<close>\<close>

definition list_add_between :: "nat \<Rightarrow> nat \<Rightarrow> nat \<Rightarrow> list_mem \<Rightarrow> list_mem option" where
  "list_add_between el p q m =
     do { m \<leftarrow> set_next p el m;
          m \<leftarrow> set_prev el p m;
          m \<leftarrow> set_next el q m;
          set_prev q el m }"

definition list_add :: "nat \<Rightarrow> nat \<Rightarrow> list_mem \<Rightarrow> list_mem option" where
  "list_add el head m = do { h \<leftarrow> m head; list_add_between el head (next_ptr h) m }"

definition list_add_tail :: "nat \<Rightarrow> nat \<Rightarrow> list_mem \<Rightarrow> list_mem option" where
  "list_add_tail el head m = do { h \<leftarrow> m head; list_add_between el (prev_ptr h) head m }"

definition list_del :: "nat \<Rightarrow> list_mem \<Rightarrow> list_mem option" where
  "list_del el m =
     do { n \<leftarrow> m el;
          let p = prev_ptr n;
          let q = next_ptr n;
          m \<leftarrow> set_next p q m;
          m \<leftarrow> set_prev q p m;
          m \<leftarrow> set_prev el 0 m;
          set_next el 0 m }"

definition list_empty :: "nat \<Rightarrow> list_mem \<Rightarrow> bool option" where
  "list_empty el m = map_option (\<lambda>n. next_ptr n = el) (m el)"

section \<open>The loops\<close>

text \<open>The elements that \<open>list_for_each\<close> and \<open>list_for_each_prev\<close> visit.\<close>

partial_function (option) for_each_from :: "list_mem \<Rightarrow> nat \<Rightarrow> nat \<Rightarrow> nat list option" where
  "for_each_from m head el =
     (if el = head then Some [] else do { n \<leftarrow> m el; els \<leftarrow> for_each_from m head (next_ptr n); Some (el # els) })"

declare for_each_from.simps [code]

definition list_for_each :: "list_mem \<Rightarrow> nat \<Rightarrow> nat list option" where
  "list_for_each m head = do { h \<leftarrow> m head; for_each_from m head (next_ptr h) }"

partial_function (option) for_each_prev_from :: "list_mem \<Rightarrow> nat \<Rightarrow> nat \<Rightarrow> nat list option" where
  "for_each_prev_from m head el =
     (if el = head then Some [] else do { n \<leftarrow> m el; els \<leftarrow> for_each_prev_from m head (prev_ptr n); Some (el # els) })"

declare for_each_prev_from.simps [code]

definition list_for_each_prev :: "list_mem \<Rightarrow> nat \<Rightarrow> nat list option" where
  "list_for_each_prev m head = do { h \<leftarrow> m head; for_each_prev_from m head (prev_ptr h) }"

text \<open>\<open>list_for_each_safe\<close>, whose body may remove the element it is given.\<close>

partial_function (option) for_each_safe_from ::
  "(nat \<Rightarrow> list_mem \<Rightarrow> list_mem option) \<Rightarrow> nat \<Rightarrow> nat \<Rightarrow> nat \<Rightarrow> list_mem \<Rightarrow> list_mem option" where
  "for_each_safe_from body head el el1 m =
     (if el = head then Some m
      else do { m \<leftarrow> body el m; n \<leftarrow> m el1; for_each_safe_from body head el1 (next_ptr n) m })"

declare for_each_safe_from.simps [code]

definition list_for_each_safe :: "(nat \<Rightarrow> list_mem \<Rightarrow> list_mem option) \<Rightarrow> nat \<Rightarrow> list_mem \<Rightarrow> list_mem option" where
  "list_for_each_safe body head m =
     do { h \<leftarrow> m head; n \<leftarrow> m (next_ptr h); for_each_safe_from body head (next_ptr h) (next_ptr n) m }"

text \<open>\<open>list_for_each_prev_safe\<close>\<close>

partial_function (option) for_each_prev_safe_from ::
  "(nat \<Rightarrow> list_mem \<Rightarrow> list_mem option) \<Rightarrow> nat \<Rightarrow> nat \<Rightarrow> nat \<Rightarrow> list_mem \<Rightarrow> list_mem option" where
  "for_each_prev_safe_from body head el el1 m =
     (if el = head then Some m
      else do { m \<leftarrow> body el m; n \<leftarrow> m el1; for_each_prev_safe_from body head el1 (prev_ptr n) m })"

declare for_each_prev_safe_from.simps [code]

definition list_for_each_prev_safe :: "(nat \<Rightarrow> list_mem \<Rightarrow> list_mem option) \<Rightarrow> nat \<Rightarrow> list_mem \<Rightarrow> list_mem option" where
  "list_for_each_prev_safe body head m =
     do { h \<leftarrow> m head; n \<leftarrow> m (prev_ptr h); for_each_prev_safe_from body head (prev_ptr h) (prev_ptr n) m }"

section \<open>Rings\<close>

text \<open>The two pointers of a node as functions of the memory.\<close>

definition nxt :: "list_mem \<Rightarrow> nat \<Rightarrow> nat option" where
  "nxt m p = map_option next_ptr (m p)"

definition prv :: "list_mem \<Rightarrow> nat \<Rightarrow> nat option" where
  "prv m p = map_option prev_ptr (m p)"

lemma pointers_upd: "nxt (m(p \<mapsto> n)) = (nxt m)(p \<mapsto> next_ptr n)" "prv (m(p \<mapsto> n)) = (prv m)(p \<mapsto> prev_ptr n)"
  by (rule ext, simp add: nxt_def prv_def)+

lemma pointers_same: "m p = Some n \<Longrightarrow> (nxt m)(p \<mapsto> next_ptr n) = nxt m" "m p = Some n \<Longrightarrow> (prv m)(p \<mapsto> prev_ptr n) = prv m"
  by (rule fun_upd_idem, simp add: nxt_def prv_def)+

lemma set_next_ok:
  assumes "p \<in> dom m"
  shows "\<exists>m'. set_next p v m = Some m' \<and> nxt m' = (nxt m)(p \<mapsto> v) \<and> prv m' = prv m \<and> dom m' = dom m \<and> (\<forall>q. q \<noteq> p \<longrightarrow> m' q = m q)"
  using assms by (auto simp: set_next_def pointers_upd pointers_same)

lemma set_prev_ok:
  assumes "p \<in> dom m"
  shows "\<exists>m'. set_prev p v m = Some m' \<and> prv m' = (prv m)(p \<mapsto> v) \<and> nxt m' = nxt m \<and> dom m' = dom m \<and> (\<forall>q. q \<noteq> p \<longrightarrow> m' q = m q)"
  using assms by (auto simp: set_prev_def pointers_upd pointers_same)

lemma node: "nxt m p = Some q \<Longrightarrow> \<exists>n. m p = Some n \<and> next_ptr n = q" "prv m p = Some q \<Longrightarrow> \<exists>n. m p = Some n \<and> prev_ptr n = q"
  by (auto simp: nxt_def prv_def)

text \<open>Neighbours point at each other. In a ring the head stands at both ends.\<close>

fun linked :: "(nat \<Rightarrow> nat option) \<Rightarrow> (nat \<Rightarrow> nat option) \<Rightarrow> nat list \<Rightarrow> bool" where
  "linked N P (x # y # ys) \<longleftrightarrow> N x = Some y \<and> P y = Some x \<and> linked N P (y # ys)"
| "linked N P ys \<longleftrightarrow> True"

definition ring :: "list_mem \<Rightarrow> nat \<Rightarrow> nat list \<Rightarrow> bool" where
  "ring m head xs \<longleftrightarrow> distinct (head # xs) \<and> linked (nxt m) (prv m) (head # xs @ [head])"

lemma linked_append:
  "linked N P (xs @ ys) \<longleftrightarrow> linked N P xs \<and> linked N P ys \<and>
    (xs \<noteq> [] \<longrightarrow> ys \<noteq> [] \<longrightarrow> N (last xs) = Some (hd ys) \<and> P (hd ys) = Some (last xs))"
proof (induction xs)
  case (Cons x xs)
  then show ?case
    by (cases xs; cases ys) auto
qed simp

lemma linked_frame:
  assumes "\<And>x. x \<in> set (butlast xs) \<Longrightarrow> N' x = N x" and "\<And>x. x \<in> set (tl xs) \<Longrightarrow> P' x = P x"
  shows "linked N' P' xs \<longleftrightarrow> linked N P xs"
  using assms by (induction N P xs rule: linked.induct) auto

text \<open>A ring, cut open at one place.\<close>

lemma ring_split:
  "ring m head (ys @ zs) \<longleftrightarrow> distinct (head # ys @ zs) \<and> linked (nxt m) (prv m) (head # ys) \<and> linked (nxt m) (prv m) (zs @ [head]) \<and>
    nxt m (last (head # ys)) = Some (hd (zs @ [head])) \<and> prv m (hd (zs @ [head])) = Some (last (head # ys))"
  using linked_append [of "nxt m" "prv m" "head # ys" "zs @ [head]"] by (auto simp: ring_def)

lemma ring_cut:
  assumes "distinct (head # ys @ zs)" and "el \<notin> set (head # ys @ zs)"
  shows "last (head # ys) \<notin> set (butlast (head # ys))" "hd (zs @ [head]) \<notin> set ys" "el \<notin> set (butlast (head # ys))" "el \<notin> set ys"
    "last (head # ys) \<notin> set zs" "hd (zs @ [head]) \<notin> set (tl (zs @ [head]))" "el \<notin> set zs" "el \<notin> set (tl (zs @ [head]))"
    "last (head # ys) \<noteq> el" "hd (zs @ [head]) \<noteq> el"
proof -
  have d: "distinct (head # ys)" "distinct (zs @ [head])"
    using assms(1) by auto
  show "last (head # ys) \<notin> set (butlast (head # ys))"
    using d(1) by (metis append_butlast_last_id distinct_append disjoint_insert(1) list.distinct(1) list.set(2))
  show "hd (zs @ [head]) \<notin> set (tl (zs @ [head]))"
    using d(2) by (cases zs) auto
  have "last (head # ys) \<in> set (head # ys)" "set (tl (zs @ [head])) \<subseteq> set (zs @ [head])"
    by (rule last_in_set, simp) (cases zs; auto)
  then show "last (head # ys) \<notin> set zs" "el \<notin> set (tl (zs @ [head]))"
    using assms by auto
qed (use assms in \<open>auto dest: in_set_butlastD split: if_splits simp: hd_append\<close>)

lemma last_head: "last [head] = head" "last (head # ys @ [y]) = y"
  by simp_all

lemma list_add_between_ok:
  assumes r: "ring m head (ys @ zs)" and el: "el \<notin> set (head # ys @ zs)" "el \<in> dom m"
  shows "\<exists>m'. list_add_between el (last (head # ys)) (hd (zs @ [head])) m = Some m' \<and> ring m' head (ys @ el # zs) \<and>
    dom m' = dom m \<and> (\<forall>a. a \<notin> set (el # head # ys @ zs) \<longrightarrow> m' a = m a)"
proof -
  let ?p = "last (head # ys)" and ?q = "hd (zs @ [head])"
  have in_ring: "?p \<in> set (head # ys)" "?q \<in> set (zs @ [head])"
    by (rule last_in_set, simp) (rule hd_in_set, simp)
  have s: "distinct (head # ys @ zs)" "linked (nxt m) (prv m) (head # ys)" "linked (nxt m) (prv m) (zs @ [head])"
    "nxt m ?p = Some ?q" "prv m ?q = Some ?p"
    using r by (simp_all only: ring_split)
  note cut = ring_cut [OF s(1) el(1)]
  have alive: "?p \<in> dom m" "?q \<in> dom m"
    using node(1) [OF s(4)] node(2) [OF s(5)] by auto
  obtain m1 where m1: "set_next ?p el m = Some m1" "nxt m1 = (nxt m)(?p \<mapsto> el)" "prv m1 = prv m" "dom m1 = dom m" "\<forall>a. a \<noteq> ?p \<longrightarrow> m1 a = m a"
    using set_next_ok [OF alive(1), of el] by blast
  obtain m2 where m2: "set_prev el ?p m1 = Some m2" "prv m2 = (prv m1)(el \<mapsto> ?p)" "nxt m2 = nxt m1" "dom m2 = dom m1" "\<forall>a. a \<noteq> el \<longrightarrow> m2 a = m1 a"
    using set_prev_ok [of el m1 ?p] el(2) m1(4) by auto
  obtain m3 where m3: "set_next el ?q m2 = Some m3" "nxt m3 = (nxt m2)(el \<mapsto> ?q)" "prv m3 = prv m2" "dom m3 = dom m2" "\<forall>a. a \<noteq> el \<longrightarrow> m3 a = m2 a"
    using set_next_ok [of el m2 ?q] el(2) m1(4) m2(4) by auto
  obtain m4 where m4: "set_prev ?q el m3 = Some m4" "prv m4 = (prv m3)(?q \<mapsto> el)" "nxt m4 = nxt m3" "dom m4 = dom m3" "\<forall>a. a \<noteq> ?q \<longrightarrow> m4 a = m3 a"
    using set_prev_ok [of ?q m3 el] alive(2) m1(4) m2(4) m3(4) by auto
  have ptrs: "nxt m4 = (nxt m)(?p \<mapsto> el, el \<mapsto> ?q)" "prv m4 = (prv m)(el \<mapsto> ?p, ?q \<mapsto> el)"
    using m1 m2 m3 m4 by simp_all
  have "linked (nxt m4) (prv m4) (head # ys)" "linked (nxt m4) (prv m4) (zs @ [head])"
    unfolding ptrs using s(2,3) cut by (subst linked_frame [where N = "nxt m" and P = "prv m"]; auto)+
  then have "linked (nxt m4) (prv m4) ((head # ys) @ [el] @ (zs @ [head]))"
    using cut(9,10) ptrs by (simp only: linked_append) auto
  then have "ring m4 head (ys @ el # zs)"
    using s(1) el(1) by (auto simp: ring_def)
  moreover have "m4 a = m a" if "a \<notin> set (el # head # ys @ zs)" for a
  proof -
    have "a \<noteq> ?p" "a \<noteq> ?q" "a \<noteq> el"
      using that in_ring by auto
    then show ?thesis
      using m1(5) m2(5) m3(5) m4(5) by simp
  qed
  ultimately show ?thesis
    using m1(1,4) m2(1,4) m3(1,4) m4(1,4) by (auto simp: list_add_between_def)
qed

lemma list_del_ok:
  assumes r: "ring m head (ys @ el # zs)"
  shows "\<exists>m'. list_del el m = Some m' \<and> ring m' head (ys @ zs) \<and> nxt m' el = Some 0 \<and> prv m' el = Some 0 \<and>
    dom m' = dom m \<and> (\<forall>a. a \<notin> set (el # head # ys @ zs) \<longrightarrow> m' a = m a)"
proof -
  let ?p = "last (head # ys)" and ?q = "hd (zs @ [head])"
  have in_ring: "?p \<in> set (head # ys)" "?q \<in> set (zs @ [head])"
    by (rule last_in_set, simp) (rule hd_in_set, simp)
  have d: "distinct (head # ys @ zs)" "el \<notin> set (head # ys @ zs)"
    using r by (auto simp: ring_def)
  have "linked (nxt m) (prv m) ((head # ys) @ [el] @ (zs @ [head]))"
    using r by (simp add: ring_def)
  then have s: "linked (nxt m) (prv m) (head # ys)" "linked (nxt m) (prv m) (zs @ [head])"
    "nxt m ?p = Some el" "prv m el = Some ?p" "nxt m el = Some ?q" "prv m ?q = Some el"
    by (simp_all only: linked_append) simp_all
  note cut = ring_cut [OF d]
  obtain n where n: "m el = Some n" "prev_ptr n = ?p" "next_ptr n = ?q"
    using s(4,5) by (auto simp: nxt_def prv_def)
  have alive: "?p \<in> dom m" "?q \<in> dom m" "el \<in> dom m"
    using node(1) [OF s(3)] node(2) [OF s(6)] n(1) by auto
  obtain m1 where m1: "set_next ?p ?q m = Some m1" "nxt m1 = (nxt m)(?p \<mapsto> ?q)" "prv m1 = prv m" "dom m1 = dom m" "\<forall>a. a \<noteq> ?p \<longrightarrow> m1 a = m a"
    using set_next_ok [OF alive(1), of ?q] by blast
  obtain m2 where m2: "set_prev ?q ?p m1 = Some m2" "prv m2 = (prv m1)(?q \<mapsto> ?p)" "nxt m2 = nxt m1" "dom m2 = dom m1" "\<forall>a. a \<noteq> ?q \<longrightarrow> m2 a = m1 a"
    using set_prev_ok [of ?q m1 ?p] alive(2) m1(4) by auto
  obtain m3 where m3: "set_prev el 0 m2 = Some m3" "prv m3 = (prv m2)(el \<mapsto> 0)" "nxt m3 = nxt m2" "dom m3 = dom m2" "\<forall>a. a \<noteq> el \<longrightarrow> m3 a = m2 a"
    using set_prev_ok [of el m2 0] alive(3) m1(4) m2(4) by auto
  obtain m4 where m4: "set_next el 0 m3 = Some m4" "nxt m4 = (nxt m3)(el \<mapsto> 0)" "prv m4 = prv m3" "dom m4 = dom m3" "\<forall>a. a \<noteq> el \<longrightarrow> m4 a = m3 a"
    using set_next_ok [of el m3 0] alive(3) m1(4) m2(4) m3(4) by auto
  have ptrs: "nxt m4 = (nxt m)(?p \<mapsto> ?q, el \<mapsto> 0)" "prv m4 = (prv m)(?q \<mapsto> ?p, el \<mapsto> 0)"
    using m1 m2 m3 m4 by simp_all
  have "linked (nxt m4) (prv m4) (head # ys)" "linked (nxt m4) (prv m4) (zs @ [head])"
    unfolding ptrs using s(1,2) cut by (subst linked_frame [where N = "nxt m" and P = "prv m"]; auto)+
  moreover have "nxt m4 ?p = Some ?q" "prv m4 ?q = Some ?p"
    using cut(9,10) by (simp_all only: ptrs fun_upd_apply simp_thms if_True if_False)
  ultimately have "ring m4 head (ys @ zs)"
    using d(1) by (simp only: ring_split simp_thms)
  moreover have "m4 a = m a" if "a \<notin> set (el # head # ys @ zs)" for a
  proof -
    have "a \<noteq> ?p" "a \<noteq> ?q" "a \<noteq> el"
      using that in_ring by auto
    then show ?thesis
      using m1(5) m2(5) m3(5) m4(5) by simp
  qed
  moreover have "list_del el m = Some m4"
    using n m1(1) m2(1) m3(1) m4(1) by (simp add: list_del_def Let_def del: last.simps)
  ultimately show ?thesis
    using ptrs m1(4) m2(4) m3(4) m4(4) by auto
qed

lemma ring_head:
  assumes "ring m head xs"
  shows "nxt m head = Some (hd (xs @ [head]))" "prv m head = Some (last (head # xs))"
  using assms ring_split [of m head "[]" xs] ring_split [of m head xs "[]"] by simp_all

lemma list_add_ok:
  assumes "ring m head xs" and "el \<notin> set (head # xs)" and "el \<in> dom m"
  shows "\<exists>m'. list_add el head m = Some m' \<and> ring m' head (el # xs) \<and> dom m' = dom m \<and> (\<forall>a. a \<notin> set (el # head # xs) \<longrightarrow> m' a = m a)"
    and "\<exists>m'. list_add_tail el head m = Some m' \<and> ring m' head (xs @ [el]) \<and> dom m' = dom m \<and> (\<forall>a. a \<notin> set (el # head # xs) \<longrightarrow> m' a = m a)"
proof -
  obtain n where "m head = Some n" "next_ptr n = hd (xs @ [head])" "prev_ptr n = last (head # xs)"
    using ring_head [OF assms(1)] by (auto simp: nxt_def prv_def)
  then show "\<exists>m'. list_add el head m = Some m' \<and> ring m' head (el # xs) \<and> dom m' = dom m \<and> (\<forall>a. a \<notin> set (el # head # xs) \<longrightarrow> m' a = m a)"
    and "\<exists>m'. list_add_tail el head m = Some m' \<and> ring m' head (xs @ [el]) \<and> dom m' = dom m \<and> (\<forall>a. a \<notin> set (el # head # xs) \<longrightarrow> m' a = m a)"
    using list_add_between_ok [of m head "[]" xs el] list_add_between_ok [of m head xs "[]" el] assms
    by (simp_all add: list_add_def list_add_tail_def last_head del: last.simps)
qed

text \<open>The first and the last element of a ring point at the second and at the last but one.\<close>

lemma ring_first:
  assumes "ring m head xs"
  shows "\<exists>n. m (hd (xs @ [head])) = Some n \<and> (xs \<noteq> [] \<longrightarrow> next_ptr n = hd (tl xs @ [head]))"
proof (cases xs)
  case Nil
  then show ?thesis
    using node(1) [OF ring_head(1) [OF assms]] by auto
next
  case (Cons y ys)
  then have "nxt m y = Some (hd (ys @ [head]))"
    using ring_split [of m head "[y]" ys] assms by simp
  then show ?thesis
    using node(1) [of m y] Cons by auto
qed

lemma ring_last:
  assumes "ring m head xs"
  shows "\<exists>n. m (last (head # xs)) = Some n \<and> (xs \<noteq> [] \<longrightarrow> prev_ptr n = last (head # butlast xs))"
proof (cases xs rule: rev_cases)
  case Nil
  then show ?thesis
    using node(2) [OF ring_head(2) [OF assms]] by auto
next
  case (snoc ys y)
  then have "prv m y = Some (last (head # ys))"
    using ring_split [of m head ys "[y]"] assms by simp
  then show ?thesis
    using node(2) [of m y] snoc by auto
qed

section \<open>Loops over a ring\<close>

lemma for_each_from_ring:
  assumes "linked (nxt m) (prv m) (zs @ [head])" and "head \<notin> set zs"
  shows "for_each_from m head (hd (zs @ [head])) = Some zs"
  using assms
proof (induction zs)
  case (Cons z zs)
  have l: "nxt m z = Some (hd (zs @ [head]))" "linked (nxt m) (prv m) (zs @ [head])"
    using Cons.prems(1) linked_append [of "nxt m" "prv m" "[z]" "zs @ [head]"] by simp_all
  then obtain n where "m z = Some n" "next_ptr n = hd (zs @ [head])"
    using node(1) by blast
  then show ?case
    using Cons.IH [OF l(2)] Cons.prems(2) by (simp add: for_each_from.simps [of m head z])
qed (simp add: for_each_from.simps)

lemma for_each_prev_from_ring:
  assumes "linked (nxt m) (prv m) (head # ys)" and "head \<notin> set ys"
  shows "for_each_prev_from m head (last (head # ys)) = Some (rev ys)"
  using assms
proof (induction ys rule: rev_induct)
  case (snoc y ys)
  have l: "prv m y = Some (last (head # ys))" "linked (nxt m) (prv m) (head # ys)"
    using snoc.prems(1) linked_append [of "nxt m" "prv m" "head # ys" "[y]"] by simp_all
  then obtain n where "m y = Some n" "prev_ptr n = last (head # ys)"
    using node(2) by blast
  then show ?case
    using snoc.IH [OF l(2)] snoc.prems(2) by (simp add: for_each_prev_from.simps [of m head y] last_head del: last.simps)
qed (simp add: for_each_prev_from.simps)

lemma list_for_each_ring:
  assumes "ring m head xs"
  shows "list_for_each m head = Some xs" and "list_for_each_prev m head = Some (rev xs)" and "list_empty head m = Some (xs = [])"
proof -
  obtain n where n: "m head = Some n" "next_ptr n = hd (xs @ [head])" "prev_ptr n = last (head # xs)"
    using ring_head [OF assms] by (auto simp: nxt_def prv_def)
  have l: "linked (nxt m) (prv m) (xs @ [head])" "linked (nxt m) (prv m) (head # xs)" "head \<notin> set xs"
    using assms ring_split [of m head "[]" xs] ring_split [of m head xs "[]"] by simp_all
  show "list_for_each m head = Some xs" "list_for_each_prev m head = Some (rev xs)"
    using n for_each_from_ring [OF l(1,3)] for_each_prev_from_ring [OF l(2,3)]
    by (simp_all add: list_for_each_def list_for_each_prev_def del: last.simps)
  show "list_empty head m = Some (xs = [])"
    using n l(3) by (cases xs) (auto simp: list_empty_def)
qed

text \<open>Removing every element while walking over the list.\<close>

lemma for_each_safe_del:
  assumes "ring m head zs" and "zs \<noteq> [] \<Longrightarrow> el1 = hd (tl zs @ [head])"
  shows "\<exists>m'. for_each_safe_from list_del head (hd (zs @ [head])) el1 m = Some m' \<and> ring m' head [] \<and>
    (\<forall>a \<in> set zs. nxt m' a = Some 0 \<and> prv m' a = Some 0) \<and> (\<forall>a. a \<notin> set (head # zs) \<longrightarrow> m' a = m a)"
  using assms
proof (induction zs arbitrary: m el1)
  case Nil
  then show ?case
    by (simp add: for_each_safe_from.simps)
next
  case (Cons z zs)
  have z: "z \<noteq> head" "z \<notin> set zs" "el1 = hd (zs @ [head])"
    using Cons.prems by (auto simp: ring_def)
  obtain m1 where m1: "list_del z m = Some m1" "ring m1 head zs" "nxt m1 z = Some 0" "prv m1 z = Some 0"
    "\<forall>a. a \<notin> set (z # head # zs) \<longrightarrow> m1 a = m a"
    using list_del_ok [of m head "[]" z zs] Cons.prems(1) by auto
  obtain n where n: "m1 el1 = Some n" "zs \<noteq> [] \<Longrightarrow> next_ptr n = hd (tl zs @ [head])"
    using ring_first [OF m1(2)] z(3) by blast
  obtain m' where m': "for_each_safe_from list_del head (hd (zs @ [head])) (next_ptr n) m1 = Some m'" "ring m' head []"
    "\<forall>a \<in> set zs. nxt m' a = Some 0 \<and> prv m' a = Some 0" "\<forall>a. a \<notin> set (head # zs) \<longrightarrow> m' a = m1 a"
    using Cons.IH [OF m1(2) n(2)] by blast
  have "m' z = m1 z"
    using m'(4) z by simp
  then have "nxt m' z = Some 0" "prv m' z = Some 0"
    using m1(3,4) by (simp_all add: nxt_def prv_def)
  moreover have "for_each_safe_from list_del head z el1 m = Some m'"
    using z m1(1) n(1) m'(1) by (simp add: for_each_safe_from.simps [of list_del head z])
  ultimately show ?case
    using m'(2-4) m1(5) by auto
qed

lemma list_for_each_safe_del:
  assumes "ring m head xs"
  shows "\<exists>m'. list_for_each_safe list_del head m = Some m' \<and> ring m' head [] \<and>
    (\<forall>a \<in> set xs. nxt m' a = Some 0 \<and> prv m' a = Some 0) \<and> (\<forall>a. a \<notin> set (head # xs) \<longrightarrow> m' a = m a)"
proof -
  obtain h where h: "m head = Some h" "next_ptr h = hd (xs @ [head])"
    using node(1) [OF ring_head(1) [OF assms]] by blast
  obtain n where n: "m (hd (xs @ [head])) = Some n" "xs \<noteq> [] \<Longrightarrow> next_ptr n = hd (tl xs @ [head])"
    using ring_first [OF assms] by blast
  show ?thesis
    using for_each_safe_del [OF assms n(2)] h n(1) by (auto simp: list_for_each_safe_def)
qed

text \<open>The same backwards.\<close>

lemma for_each_prev_safe_del:
  assumes "ring m head ys" and "ys \<noteq> [] \<Longrightarrow> el1 = last (head # butlast ys)"
  shows "\<exists>m'. for_each_prev_safe_from list_del head (last (head # ys)) el1 m = Some m' \<and> ring m' head [] \<and>
    (\<forall>a \<in> set ys. nxt m' a = Some 0 \<and> prv m' a = Some 0) \<and> (\<forall>a. a \<notin> set (head # ys) \<longrightarrow> m' a = m a)"
  using assms
proof (induction ys arbitrary: m el1 rule: rev_induct)
  case Nil
  then show ?case
    by (simp add: for_each_prev_safe_from.simps)
next
  case (snoc z ys)
  have z: "z \<noteq> head" "z \<notin> set ys" "el1 = last (head # ys)"
    using snoc.prems by (auto simp: ring_def)
  obtain m1 where m1: "list_del z m = Some m1" "ring m1 head ys" "nxt m1 z = Some 0" "prv m1 z = Some 0"
    "\<forall>a. a \<notin> set (z # head # ys) \<longrightarrow> m1 a = m a"
    using list_del_ok [of m head ys z "[]"] snoc.prems(1) by auto
  obtain n where n: "m1 el1 = Some n" "ys \<noteq> [] \<Longrightarrow> prev_ptr n = last (head # butlast ys)"
    using ring_last [OF m1(2)] z(3) by blast
  obtain m' where m': "for_each_prev_safe_from list_del head (last (head # ys)) (prev_ptr n) m1 = Some m'" "ring m' head []"
    "\<forall>a \<in> set ys. nxt m' a = Some 0 \<and> prv m' a = Some 0" "\<forall>a. a \<notin> set (head # ys) \<longrightarrow> m' a = m1 a"
    using snoc.IH [OF m1(2) n(2)] by blast
  have "m' z = m1 z"
    using m'(4) z by simp
  then have "nxt m' z = Some 0" "prv m' z = Some 0"
    using m1(3,4) by (simp_all add: nxt_def prv_def)
  moreover have "for_each_prev_safe_from list_del head (last (head # ys @ [z])) el1 m = Some m'"
    using z m1(1) n(1) m'(1)
    by (simp add: for_each_prev_safe_from.simps [of list_del head z] last_head del: last.simps)
  ultimately show ?case
    using m'(2-4) m1(5) by auto
qed

lemma list_for_each_prev_safe_del:
  assumes "ring m head xs"
  shows "\<exists>m'. list_for_each_prev_safe list_del head m = Some m' \<and> ring m' head [] \<and>
    (\<forall>a \<in> set xs. nxt m' a = Some 0 \<and> prv m' a = Some 0) \<and> (\<forall>a. a \<notin> set (head # xs) \<longrightarrow> m' a = m a)"
proof -
  obtain h where h: "m head = Some h" "prev_ptr h = last (head # xs)"
    using node(2) [OF ring_head(2) [OF assms]] by blast
  obtain n where n: "m (last (head # xs)) = Some n" "xs \<noteq> [] \<Longrightarrow> prev_ptr n = last (head # butlast xs)"
    using ring_last [OF assms] by blast
  have "list_for_each_prev_safe list_del head m = for_each_prev_safe_from list_del head (last (head # xs)) (prev_ptr n) m"
    using h n(1) by (simp add: list_for_each_prev_safe_def del: last.simps)
  then show ?thesis
    using for_each_prev_safe_del [OF assms n(2)] by simp
qed

section \<open>Two lists in one memory\<close>

lemma linked_cong:
  assumes "\<And>x. x \<in> set xs \<Longrightarrow> m' x = m x"
  shows "linked (nxt m') (prv m') xs \<longleftrightarrow> linked (nxt m) (prv m) xs"
proof (rule linked_frame)
  show "nxt m' x = nxt m x" if "x \<in> set (butlast xs)" for x
    using assms in_set_butlastD [OF that] by (simp add: nxt_def)
  show "prv m' x = prv m x" if "x \<in> set (tl xs)" for x
    using assms that by (cases xs) (simp_all add: prv_def)
qed

lemma ring_frame:
  assumes "ring m head2 ys" and "set (head2 # ys) \<inter> S = {}" and "\<And>a. a \<notin> S \<Longrightarrow> m' a = m a"
  shows "ring m' head2 ys"
proof -
  have "m' x = m x" if "x \<in> set (head2 # ys @ [head2])" for x
    using that assms(2,3) by auto
  then show ?thesis
    using assms(1) linked_cong [of "head2 # ys @ [head2]" m' m] by (simp add: ring_def)
qed

lemma init_list_head_ok:
  assumes "head \<in> dom m"
  shows "\<exists>m'. init_list_head head m = Some m' \<and> ring m' head [] \<and> dom m' = dom m \<and> (\<forall>a. a \<noteq> head \<longrightarrow> m' a = m a)"
  using assms by (auto simp: init_list_head_def set_prev_def set_next_def ring_def nxt_def prv_def)

section \<open>Claims\<close>

lemma list_operations_ok:
  assumes "ring m head xs" and "ring m head2 ys" and "set (head # xs) \<inter> set (head2 # ys) = {}"
    and "el \<in> dom m" and "el \<notin> set (head # xs)" and "el \<notin> set (head2 # ys)"
  shows "\<exists>m'. init_list_head el m = Some m' \<and> ring m' el [] \<and> ring m' head xs \<and> ring m' head2 ys"
    and "\<exists>m'. list_add el head m = Some m' \<and> ring m' head (el # xs) \<and> ring m' head2 ys"
    and "\<exists>m'. list_add_tail el head m = Some m' \<and> ring m' head (xs @ [el]) \<and> ring m' head2 ys"
    and "\<forall>us x vs. xs = us @ x # vs \<longrightarrow>
      (\<exists>m'. list_del x m = Some m' \<and> ring m' head (us @ vs) \<and> ring m' head2 ys \<and> m' x = Some \<lparr>prev_ptr = 0, next_ptr = 0\<rparr>)"
proof -
  note other = ring_frame [OF assms(2)]
  obtain m1 where "init_list_head el m = Some m1" "ring m1 el []" "\<forall>a. a \<noteq> el \<longrightarrow> m1 a = m a"
    using init_list_head_ok [OF assms(4)] by blast
  then show "\<exists>m'. init_list_head el m = Some m' \<and> ring m' el [] \<and> ring m' head xs \<and> ring m' head2 ys"
    using other [of "{el}" m1] ring_frame [OF assms(1), of "{el}" m1] assms(5,6) by auto
  obtain m2 where "list_add el head m = Some m2" "ring m2 head (el # xs)" "\<forall>a. a \<notin> set (el # head # xs) \<longrightarrow> m2 a = m a"
    using list_add_ok(1) [OF assms(1,5,4)] by blast
  then show "\<exists>m'. list_add el head m = Some m' \<and> ring m' head (el # xs) \<and> ring m' head2 ys"
    using other [of "set (el # head # xs)" m2] assms(3,6) by auto
  obtain m3 where "list_add_tail el head m = Some m3" "ring m3 head (xs @ [el])" "\<forall>a. a \<notin> set (el # head # xs) \<longrightarrow> m3 a = m a"
    using list_add_ok(2) [OF assms(1,5,4)] by blast
  then show "\<exists>m'. list_add_tail el head m = Some m' \<and> ring m' head (xs @ [el]) \<and> ring m' head2 ys"
    using other [of "set (el # head # xs)" m3] assms(3,6) by auto
  show "\<forall>us x vs. xs = us @ x # vs \<longrightarrow>
      (\<exists>m'. list_del x m = Some m' \<and> ring m' head (us @ vs) \<and> ring m' head2 ys \<and> m' x = Some \<lparr>prev_ptr = 0, next_ptr = 0\<rparr>)"
  proof (intro allI impI)
    fix us x vs
    assume xs: "xs = us @ x # vs"
    obtain m4 where m4: "list_del x m = Some m4" "ring m4 head (us @ vs)" "nxt m4 x = Some 0" "prv m4 x = Some 0"
      "\<forall>a. a \<notin> set (x # head # us @ vs) \<longrightarrow> m4 a = m a"
      using list_del_ok [of m head us x vs] assms(1) xs by blast
    have "ring m4 head2 ys"
      using other [of "set (x # head # us @ vs)" m4] m4(5) assms(3) xs by auto
    moreover have "m4 x = Some \<lparr>prev_ptr = 0, next_ptr = 0\<rparr>"
      using m4(3,4) by (auto simp: nxt_def prv_def)
    ultimately show "\<exists>m'. list_del x m = Some m' \<and> ring m' head (us @ vs) \<and> ring m' head2 ys \<and> m' x = Some \<lparr>prev_ptr = 0, next_ptr = 0\<rparr>"
      using m4(1,2) by blast
  qed
qed

text \<open>
  C17. The list operations refine operations on sequences. Initialising makes an empty list; \<open>list_add\<close> puts
  a node that is not in the list in front, \<open>list_add_tail\<close> puts it at the end, and \<open>list_del\<close> takes a node
  out wherever it stands and leaves null pointers in it. Every other list that shares no node with the changed
  one keeps its elements.
\<close>

theorem intrusive_lists_refine:
  assumes "ring m head xs" and "ring m head2 ys" and "set (head # xs) \<inter> set (head2 # ys) = {}"
    and "el \<in> dom m" and "el \<notin> set (head # xs)" and "el \<notin> set (head2 # ys)"
  shows "(\<exists>m'. init_list_head el m = Some m' \<and> ring m' el [] \<and> ring m' head xs \<and> ring m' head2 ys) \<and>
    (\<exists>m'. list_add el head m = Some m' \<and> ring m' head (el # xs) \<and> ring m' head2 ys) \<and>
    (\<exists>m'. list_add_tail el head m = Some m' \<and> ring m' head (xs @ [el]) \<and> ring m' head2 ys) \<and>
    (\<forall>us x vs. xs = us @ x # vs \<longrightarrow>
      (\<exists>m'. list_del x m = Some m' \<and> ring m' head (us @ vs) \<and> ring m' head2 ys \<and> m' x = Some \<lparr>prev_ptr = 0, next_ptr = 0\<rparr>))"
  using list_operations_ok [OF assms] by (intro conjI)

definition two_lists :: list_mem where
  "two_lists = [1 \<mapsto> \<lparr>prev_ptr = 3, next_ptr = 2\<rparr>, 2 \<mapsto> \<lparr>prev_ptr = 1, next_ptr = 3\<rparr>, 3 \<mapsto> \<lparr>prev_ptr = 2, next_ptr = 1\<rparr>,
     4 \<mapsto> \<lparr>prev_ptr = 5, next_ptr = 5\<rparr>, 5 \<mapsto> \<lparr>prev_ptr = 4, next_ptr = 4\<rparr>, 6 \<mapsto> \<lparr>prev_ptr = 0, next_ptr = 0\<rparr>]"

lemma two_lists_rings: "ring two_lists 1 [2, 3]" "ring two_lists 4 [5]"
  by (simp_all add: two_lists_def ring_def nxt_def prv_def)

theorem intrusive_lists_refine_witness:
  "(\<exists>m'. list_add_tail 6 1 two_lists = Some m' \<and> ring m' 1 [2, 3, 6] \<and> ring m' 4 [5]) \<and>
   (\<exists>m'. list_del 2 two_lists = Some m' \<and> ring m' 1 [3] \<and> ring m' 4 [5] \<and> m' 2 = Some \<lparr>prev_ptr = 0, next_ptr = 0\<rparr>)"
proof
  have fresh: "set [1, 2, 3] \<inter> set [4, 5 :: nat] = {}" "6 \<in> dom two_lists" "6 \<notin> set [1, 2, 3 :: nat]" "6 \<notin> set [4, 5 :: nat]"
    by (simp_all add: two_lists_def)
  show "\<exists>m'. list_add_tail 6 1 two_lists = Some m' \<and> ring m' 1 [2, 3, 6] \<and> ring m' 4 [5]"
    using intrusive_lists_refine [OF two_lists_rings fresh] by simp
  show "\<exists>m'. list_del 2 two_lists = Some m' \<and> ring m' 1 [3] \<and> ring m' 4 [5] \<and> m' 2 = Some \<lparr>prev_ptr = 0, next_ptr = 0\<rparr>"
    using intrusive_lists_refine [OF two_lists_rings fresh, THEN conjunct2, THEN conjunct2, THEN conjunct2, THEN spec [of _ "[]"], THEN spec [of _ 2], THEN spec [of _ "[3]"]] by simp
qed

lemma list_loops_ok:
  assumes "ring m head xs"
  shows "list_for_each m head = Some xs" and "list_for_each_prev m head = Some (rev xs)" and "list_empty head m = Some (xs = [])"
    and "\<exists>m'. list_for_each_safe list_del head m = Some m' \<and> list_empty head m' = Some True \<and>
      (\<forall>a \<in> set xs. m' a = Some \<lparr>prev_ptr = 0, next_ptr = 0\<rparr>) \<and> (\<forall>a. a \<notin> set (head # xs) \<longrightarrow> m' a = m a)"
    and "\<exists>m'. list_for_each_prev_safe list_del head m = Some m' \<and> list_empty head m' = Some True \<and>
      (\<forall>a \<in> set xs. m' a = Some \<lparr>prev_ptr = 0, next_ptr = 0\<rparr>) \<and> (\<forall>a. a \<notin> set (head # xs) \<longrightarrow> m' a = m a)"
proof -
  show "list_for_each m head = Some xs" "list_for_each_prev m head = Some (rev xs)" "list_empty head m = Some (xs = [])"
    using list_for_each_ring [OF assms] by simp_all
  have null: "m' a = Some \<lparr>prev_ptr = 0, next_ptr = 0\<rparr>" if "nxt m' a = Some 0 \<and> prv m' a = Some 0" for m' a
    using that by (auto simp: nxt_def prv_def)
  show "\<exists>m'. list_for_each_safe list_del head m = Some m' \<and> list_empty head m' = Some True \<and>
      (\<forall>a \<in> set xs. m' a = Some \<lparr>prev_ptr = 0, next_ptr = 0\<rparr>) \<and> (\<forall>a. a \<notin> set (head # xs) \<longrightarrow> m' a = m a)"
    using list_for_each_safe_del [OF assms] list_for_each_ring(3) null by fastforce
  show "\<exists>m'. list_for_each_prev_safe list_del head m = Some m' \<and> list_empty head m' = Some True \<and>
      (\<forall>a \<in> set xs. m' a = Some \<lparr>prev_ptr = 0, next_ptr = 0\<rparr>) \<and> (\<forall>a. a \<notin> set (head # xs) \<longrightarrow> m' a = m a)"
    using list_for_each_prev_safe_del [OF assms] list_for_each_ring(3) null by fastforce
qed

text \<open>
  C18. On every list the loops end. \<open>list_for_each\<close> visits the elements in order and \<open>list_for_each_prev\<close> in
  reverse, \<open>list_empty\<close> tells whether there are any, and both safe loops may remove each element they are
  given: they leave the list empty, every removed node with null pointers, and nothing else changed.
\<close>

theorem list_loops_visit_all:
  assumes "ring m head xs"
  shows "(list_for_each m head = Some xs) \<and>
    (list_for_each_prev m head = Some (rev xs)) \<and>
    (list_empty head m = Some (xs = [])) \<and>
    (\<exists>m'. list_for_each_safe list_del head m = Some m' \<and> list_empty head m' = Some True \<and>
      (\<forall>a \<in> set xs. m' a = Some \<lparr>prev_ptr = 0, next_ptr = 0\<rparr>) \<and> (\<forall>a. a \<notin> set (head # xs) \<longrightarrow> m' a = m a)) \<and>
    (\<exists>m'. list_for_each_prev_safe list_del head m = Some m' \<and> list_empty head m' = Some True \<and>
      (\<forall>a \<in> set xs. m' a = Some \<lparr>prev_ptr = 0, next_ptr = 0\<rparr>) \<and> (\<forall>a. a \<notin> set (head # xs) \<longrightarrow> m' a = m a))"
  using list_loops_ok [OF assms] by (intro conjI)

theorem list_loops_visit_all_witness:
  "list_for_each_prev two_lists 1 = Some [3, 2] \<and>
   (\<exists>m'. list_for_each_safe list_del 1 two_lists = Some m' \<and> list_empty 1 m' = Some True \<and>
      (\<forall>a \<in> {2, 3}. m' a = Some \<lparr>prev_ptr = 0, next_ptr = 0\<rparr>))"
proof
  show "list_for_each_prev two_lists 1 = Some [3, 2]"
    using list_loops_visit_all [OF two_lists_rings(1)] by simp
  show "\<exists>m'. list_for_each_safe list_del 1 two_lists = Some m' \<and> list_empty 1 m' = Some True \<and>
      (\<forall>a \<in> {2, 3}. m' a = Some \<lparr>prev_ptr = 0, next_ptr = 0\<rparr>)"
    using list_loops_visit_all [OF two_lists_rings(1)] by auto
qed


end
