(* ===== verification/Utf8.thy ===== *)
theory Utf8
  imports Bytes
begin

text \<open>
  UTF-8 encoding and decoding of \<open>native/quickjs/cutils.c\<close>, for code points of up to 31 bits and
  sequences of up to six bytes, with the shortest-form check of the decoder.
\<close>

unbundle bit_operations_syntax

section \<open>Operations\<close>

definition utf8_tail :: "nat \<Rightarrow> u32 \<Rightarrow> u8" where
  "utf8_tail k c = ucast ((drop_bit k c AND 0x3f) OR 0x80)"

text \<open>The bytes \<open>unicode_to_utf8\<close> stores; none when it returns 0.\<close>

definition unicode_to_utf8 :: "u32 \<Rightarrow> u8 list" where
  "unicode_to_utf8 c =
     (if c < 0x80 then [ucast c]
      else if c < 0x800
      then [ucast (drop_bit 6 c OR 0xc0), utf8_tail 0 c]
      else if c < 0x10000
      then [ucast (drop_bit 12 c OR 0xe0), utf8_tail 6 c, utf8_tail 0 c]
      else if c < 0x00200000
      then [ucast (drop_bit 18 c OR 0xf0), utf8_tail 12 c, utf8_tail 6 c, utf8_tail 0 c]
      else if c < 0x04000000
      then [ucast (drop_bit 24 c OR 0xf8), utf8_tail 18 c, utf8_tail 12 c, utf8_tail 6 c, utf8_tail 0 c]
      else if c < 0x80000000
      then [ucast (drop_bit 30 c OR 0xfc), utf8_tail 24 c, utf8_tail 18 c, utf8_tail 12 c, utf8_tail 6 c,
            utf8_tail 0 c]
      else [])"

definition utf8_min_code :: "u32 list" where
  "utf8_min_code = [0x80, 0x800, 0x10000, 0x00200000, 0x04000000]"

definition utf8_first_code_mask :: "u8 list" where
  "utf8_first_code_mask = [0x1f, 0xf, 0x7, 0x3, 0x1]"

text \<open>
  The loop over the \<open>l\<close> continuation bytes. The outer \<open>None\<close> is a read past the block, the inner one
  the result -1.
\<close>

fun utf8_continue :: "nat \<Rightarrow> u32 \<Rightarrow> u8 list \<Rightarrow> (u32 \<times> u8 list) option option" where
  "utf8_continue 0 c p = Some (Some (c, p))"
| "utf8_continue (Suc l) c [] = None"
| "utf8_continue (Suc l) c (b # p) =
     (if b < 0x80 \<or> b \<ge> 0xc0 then Some None
      else utf8_continue l (push_bit 6 c OR (ucast b AND 0x3f)) p)"

definition utf8_lead :: "u8 \<Rightarrow> nat option" where
  "utf8_lead c =
     (if 0xc0 \<le> c \<and> c \<le> 0xdf then Some 1
      else if 0xe0 \<le> c \<and> c \<le> 0xef then Some 2
      else if 0xf0 \<le> c \<and> c \<le> 0xf7 then Some 3
      else if 0xf8 \<le> c \<and> c \<le> 0xfb then Some 4
      else if 0xfc \<le> c \<and> c \<le> 0xfd then Some 5
      else None)"

definition unicode_from_utf8 :: "u8 list \<Rightarrow> int \<Rightarrow> (u32 \<times> u8 list) option option" where
  "unicode_from_utf8 p max_len =
     (case p of
        [] \<Rightarrow> None
      | c # p \<Rightarrow>
          if c < 0x80 then Some (Some (ucast c, p))
          else case utf8_lead c of
            None \<Rightarrow> Some None
          | Some l \<Rightarrow>
              if int l > max_len - 1 then Some None
              else case utf8_continue l (ucast (c AND utf8_first_code_mask ! (l - 1))) p of
                None \<Rightarrow> None
              | Some None \<Rightarrow> Some None
              | Some (Some (c, p)) \<Rightarrow> if c < utf8_min_code ! (l - 1) then Some None else Some (Some (c, p)))"

section \<open>Bytes as numbers\<close>

lemma utf8_constants:
  "(0x3f :: u32) = mask 6" "(0x80 :: u32) = push_bit 7 1"
  "(0xc0 :: u32) = push_bit 6 3" "(0xe0 :: u32) = push_bit 5 7" "(0xf0 :: u32) = push_bit 4 15"
  "(0xf8 :: u32) = push_bit 3 31" "(0xfc :: u32) = push_bit 2 63"
  "(0x1f :: u8) = mask 5" "(0xf :: u8) = mask 4" "(0x7 :: u8) = mask 3" "(0x3 :: u8) = mask 2" "(1 :: u8) = mask 1"
  by (simp_all add: mask_eq_exp_minus_1 push_bit_eq_mult)

lemma unat_tail: "unat (utf8_tail k c) = 128 + unat c div 2 ^ k mod 64"
proof -
  let ?x = "take_bit 6 (drop_bit k c)"
  have x: "unat ?x = unat c div 2 ^ k mod 64"
    by (simp only: unat_take_bit unat_drop_bit) simp
  moreover from this have "unat ?x < 64"
    by simp
  ultimately have "unat (?x OR push_bit 7 1) = unat (1 :: u32) * 2 ^ 7 + unat ?x"
    by (intro unat_or_disjoint) simp_all
  then show ?thesis
    unfolding utf8_tail_def utf8_constants unat_ucast using x by (simp flip: take_bit_eq_mask)
qed

lemma unat_lead:
  assumes "unat (x :: u32) < 2 ^ k" and "(q + 1) * 2 ^ k \<le> 256" and "unat p = q"
  shows "unat (ucast (x OR push_bit k p) :: u8) = q * 2 ^ k + unat x"
proof -
  have less: "q * 2 ^ k + unat x < 256"
    using assms(1,2) by (simp add: algebra_simps)
  then have "unat (x OR push_bit k p) = q * 2 ^ k + unat x"
    using assms by (subst unat_or_disjoint) auto
  with less show ?thesis
    by (simp add: unat_ucast)
qed

text \<open>The value of the bytes of a sequence, given the bits of its first byte.\<close>

definition utf8_value :: "nat \<Rightarrow> u8 list \<Rightarrow> nat" where
  "utf8_value a bs = fold (\<lambda>b n. n * 64 + unat b mod 64) bs a"

definition is_tail :: "u8 \<Rightarrow> bool" where
  "is_tail b \<longleftrightarrow> 128 \<le> unat b \<and> unat b < 192"

lemma utf8_step:
  assumes "unat (c :: u32) < 2 ^ 25"
  shows "unat (push_bit 6 c OR (ucast (b :: u8) AND 0x3f)) = unat c * 64 + unat b mod 64"
proof -
  have b: "unat (take_bit 6 (ucast b :: u32)) = unat b mod 64"
    by (simp only: unat_take_bit unat_ucast) (simp add: mod_mod_cancel)
  moreover from this have "unat (take_bit 6 (ucast b :: u32)) < 64"
    by simp
  ultimately have "unat (push_bit 6 c OR take_bit 6 (ucast b)) = unat c * 2 ^ 6 + unat (take_bit 6 (ucast b :: u32))"
    using assms by (intro unat_or_disjoint') simp_all
  then show ?thesis
    by (simp add: b utf8_constants(1) flip: take_bit_eq_mask)
qed

lemma utf8_continue_complete:
  assumes "list_all is_tail bs" and "length bs = l" and "(unat c + 1) * 64 ^ l \<le> 2 ^ 31"
  shows "\<exists>c'. utf8_continue l c (bs @ rest) = Some (Some (c', rest)) \<and> unat c' = utf8_value (unat c) bs \<and>
    unat c' < (unat c + 1) * 64 ^ l"
  using assms
proof (induction bs arbitrary: c l)
  case Nil
  then show ?case by (simp add: utf8_value_def)
next
  case (Cons b bs)
  then obtain m where l: "l = Suc m" "length bs = m"
    by auto
  let ?c = "push_bit 6 c OR (ucast b AND 0x3f)"
  have "(unat c + 1) * 64 * 1 \<le> (unat c + 1) * 64 * 64 ^ m"
    by (rule mult_le_mono2) simp
  also have m: "\<dots> \<le> 2 ^ 31"
    using Cons.prems(3) l by (simp add: algebra_simps)
  finally have "unat c < 2 ^ 25"
    by simp
  then have c: "unat ?c = unat c * 64 + unat b mod 64"
    by (rule utf8_step)
  have "unat b mod 64 < 64"
    by simp
  then have le: "unat ?c + 1 \<le> (unat c + 1) * 64"
    unfolding c by (simp add: algebra_simps)
  then have up: "(unat ?c + 1) * 64 ^ m \<le> (unat c + 1) * 64 * 64 ^ m"
    by (rule mult_le_mono1)
  with m have "(unat ?c + 1) * 64 ^ m \<le> 2 ^ 31"
    by linarith
  then obtain c' where c': "utf8_continue m ?c (bs @ rest) = Some (Some (c', rest))"
    "unat c' = utf8_value (unat ?c) bs" "unat c' < (unat ?c + 1) * 64 ^ m"
    using Cons.IH [of m ?c] Cons.prems(1) l by auto
  have "\<not> (b < 0x80 \<or> b \<ge> 0xc0)"
    using Cons.prems(1) by (auto simp: is_tail_def word_less_nat_alt word_le_nat_alt)
  then have "utf8_continue l c ((b # bs) @ rest) = Some (Some (c', rest))"
    using c' l by simp
  moreover have "unat c' < (unat c + 1) * 64 ^ l"
    using c'(3) up l by (simp add: algebra_simps)
  ultimately show ?case
    using c'(2) c by (auto simp: utf8_value_def)
qed

lemma utf8_continue_sound:
  assumes "utf8_continue l c p = Some (Some (c', rest))"
  shows "\<exists>bs. p = bs @ rest \<and> length bs = l \<and> list_all is_tail bs"
  using assms
proof (induction l c p rule: utf8_continue.induct)
  case (3 l c b p)
  then have b: "is_tail b"
    by (auto simp: is_tail_def word_less_nat_alt word_le_nat_alt split: if_splits)
  from 3 obtain bs where "p = bs @ rest" "length bs = l" "list_all is_tail bs"
    by (auto split: if_splits)
  with b show ?case
    by (intro exI [of _ "b # bs"]) simp
qed auto

lemma utf8_continue_safe: "l \<le> length p \<Longrightarrow> utf8_continue l c p \<noteq> None"
  by (induction l c p rule: utf8_continue.induct) auto

section \<open>Sequences\<close>

text \<open>First bytes, value ranges and first-byte bits of sequences with \<open>l\<close> continuation bytes.\<close>

definition lead_base :: "nat \<Rightarrow> nat" where
  "lead_base l = 256 - 2 ^ (7 - l)"

definition seq_ok :: "nat \<Rightarrow> u8 \<Rightarrow> u8 list \<Rightarrow> nat \<Rightarrow> bool" where
  "seq_ok l b bs n \<longleftrightarrow>
     l \<in> {1..5} \<and> lead_base l \<le> unat b \<and> unat b < lead_base l + 2 ^ (6 - l) \<and>
     length bs = l \<and> list_all is_tail bs \<and> n = utf8_value (unat b - lead_base l) bs \<and>
     (if l = 1 then 2 ^ 7 else 2 ^ (5 * l + 1)) \<le> n \<and> n < 2 ^ (5 * l + 6)"

lemma five_cases:
  assumes "l \<in> {1..5 :: nat}"
  obtains "l = 1" | "l = 2" | "l = 3" | "l = 4" | "l = 5"
  using assms by force

lemma utf8_lead_iff:
  "utf8_lead b = Some l \<longleftrightarrow> l \<in> {1..5} \<and> lead_base l \<le> unat b \<and> unat b < lead_base l + 2 ^ (6 - l)"
proof -
  define n where "n = unat b"
  have lead: "utf8_lead b =
     (if 192 \<le> n \<and> n \<le> 223 then Some 1 else if 224 \<le> n \<and> n \<le> 239 then Some 2
      else if 240 \<le> n \<and> n \<le> 247 then Some 3 else if 248 \<le> n \<and> n \<le> 251 then Some 4
      else if 252 \<le> n \<and> n \<le> 253 then Some 5 else None)"
    by (simp add: utf8_lead_def word_le_nat_alt n_def)
  show ?thesis
  proof (cases "l \<in> {1..5}")
    case True
    then show ?thesis
      unfolding lead n_def [symmetric] by (cases rule: five_cases) (auto simp: lead_base_def)
  next
    case False
    then show ?thesis
      by (auto simp: lead)
  qed
qed

lemma first_code:
  assumes "utf8_lead b = Some l"
  shows "unat (ucast (b AND utf8_first_code_mask ! (l - 1)) :: u32) = unat b - lead_base l"
proof -
  have l: "l \<in> {1..5}" and b: "lead_base l \<le> unat b" "unat b < lead_base l + 2 ^ (6 - l)"
    using assms by (simp_all add: utf8_lead_iff)
  have m: "utf8_first_code_mask ! (l - 1) = mask (6 - l)"
    using l by (cases rule: five_cases) (simp_all add: utf8_first_code_mask_def mask_eq_exp_minus_1)
  have "unat (ucast (b AND utf8_first_code_mask ! (l - 1)) :: u32) = unat b mod 2 ^ (6 - l)"
    unfolding m take_bit_eq_mask [symmetric] by (subst unat_ucast_up) (simp_all add: unat_take_bit)
  also have "\<dots> = unat b - lead_base l"
  proof -
    obtain k where "unat b = lead_base l + k" "k < 2 ^ (6 - l)"
      using b by (metis le_add_diff_inverse nat_add_left_cancel_less)
    moreover have "2 ^ (6 - l) dvd lead_base l"
      using l by (cases rule: five_cases) (simp_all add: lead_base_def)
    ultimately show ?thesis
      by auto
  qed
  finally show ?thesis .
qed

text \<open>The decoder on a sequence of more than one byte.\<close>

lemma decode_seq:
  assumes "seq_ok l b bs n" and "int l < max_len"
  shows "\<exists>c. unicode_from_utf8 (b # bs @ rest) max_len = Some (Some (c, rest)) \<and> unat c = n"
proof -
  let ?c = "ucast (b AND utf8_first_code_mask ! (l - 1)) :: u32"
  have lead: "utf8_lead b = Some l" and l: "l \<in> {1..5}"
    using assms(1) by (simp_all add: seq_ok_def utf8_lead_iff)
  have c: "unat ?c = unat b - lead_base l"
    using lead by (rule first_code)
  have "unat ?c + 1 \<le> 2 ^ (6 - l)"
    using assms(1) unfolding c by (auto simp: seq_ok_def)
  then have "(unat ?c + 1) * 64 ^ l \<le> 2 ^ (6 - l) * 64 ^ l"
    by (rule mult_le_mono1)
  also have "\<dots> \<le> 2 ^ 31"
    using l by (cases rule: five_cases) simp_all
  finally obtain c' where c': "utf8_continue l ?c (bs @ rest) = Some (Some (c', rest))" "unat c' = n"
    using utf8_continue_complete [of bs l ?c rest] assms(1) c by (auto simp: seq_ok_def)
  have "unat (utf8_min_code ! (l - 1)) = (if l = 1 then 2 ^ 7 else 2 ^ (5 * l + 1))"
    using l by (cases rule: five_cases) (simp_all add: utf8_min_code_def)
  then have "\<not> c' < utf8_min_code ! (l - 1)"
    using assms(1) c'(2) by (simp add: seq_ok_def word_less_nat_alt split: if_splits)
  moreover have "lead_base 1 \<le> unat b"
    using l by (cases rule: five_cases) (use assms(1) in \<open>auto simp: seq_ok_def lead_base_def\<close>)
  then have "\<not> b < 0x80"
    by (simp add: word_less_nat_alt lead_base_def)
  ultimately show ?thesis
    using lead c' assms(2) by (simp add: unicode_from_utf8_def)
qed

text \<open>Conversely, every success of the decoder is such a sequence or a single byte.\<close>

lemma decode_seqD:
  assumes "unicode_from_utf8 p max_len = Some (Some (c, rest))"
  shows "(\<exists>b. p = b # rest \<and> unat b < 128 \<and> c = ucast b) \<or>
    (\<exists>l b bs. p = b # bs @ rest \<and> seq_ok l b bs (unat c))"
proof -
  obtain b q where p: "p = b # q"
    using assms by (auto simp: unicode_from_utf8_def split: list.splits)
  show ?thesis
  proof (cases "b < 0x80")
    case True
    then show ?thesis
      using assms p by (simp add: unicode_from_utf8_def word_less_nat_alt)
  next
    case False
    let ?c = "\<lambda>l. ucast (b AND utf8_first_code_mask ! (l - 1)) :: u32"
    obtain l where lead: "utf8_lead b = Some l" and cont: "utf8_continue l (?c l) q = Some (Some (c, rest))"
      and min: "\<not> c < utf8_min_code ! (l - 1)"
      using assms False by (auto simp: unicode_from_utf8_def p split: option.splits if_splits)
    then have l: "l \<in> {1..5}"
      by (simp add: utf8_lead_iff)
    obtain bs where bs: "q = bs @ rest" "length bs = l" "list_all is_tail bs"
      using utf8_continue_sound [OF cont] by blast
    have a: "unat (?c l) = unat b - lead_base l"
      using lead by (rule first_code)
    have "unat (?c l) + 1 \<le> 2 ^ (6 - l)"
      using lead unfolding a utf8_lead_iff by auto
    then have up: "(unat (?c l) + 1) * 64 ^ l \<le> 2 ^ (6 - l) * 64 ^ l"
      by (rule mult_le_mono1)
    moreover have "2 ^ (6 - l) * 64 ^ l = (2 :: nat) ^ (5 * l + 6)" "(2 :: nat) ^ (5 * l + 6) \<le> 2 ^ 31"
      using l by (cases rule: five_cases; simp)+
    ultimately have "unat c = utf8_value (unat b - lead_base l) bs \<and> unat c < 2 ^ (5 * l + 6)"
      using utf8_continue_complete [OF bs(3,2), of "?c l" rest] cont bs(1) a by auto
    moreover have "unat (utf8_min_code ! (l - 1)) = (if l = 1 then 2 ^ 7 else 2 ^ (5 * l + 1))"
      using l by (cases rule: five_cases) (simp_all add: utf8_min_code_def)
    ultimately have "seq_ok l b bs (unat c)"
      using lead bs min unfolding seq_ok_def utf8_lead_iff word_less_nat_alt by auto
    then show ?thesis
      using p bs(1) by blast
  qed
qed

section \<open>The encoder\<close>

lemma value_tail:
  "utf8_value (unat c div 2 ^ (k + 6)) (utf8_tail k c # bs) = utf8_value (unat c div 2 ^ k) bs"
proof -
  have "unat c div 2 ^ (k + 6) * 64 + unat c div 2 ^ k mod 64 = unat c div 2 ^ k"
    by (simp add: power_add div_mult2_eq)
  then show ?thesis
    by (simp add: utf8_value_def unat_tail mod_add_eq [symmetric])
qed

lemma tail_is_tail [simp]: "is_tail (utf8_tail k c)"
  by (simp add: is_tail_def unat_tail)

lemma encode_seq:
  assumes "l \<in> {1..5}" and "(if l = 1 then 2 ^ 7 else 2 ^ (5 * l + 1)) \<le> unat c" and "unat c < 2 ^ (5 * l + 6)"
  shows "\<exists>b bs. unicode_to_utf8 c = b # bs \<and> seq_ok l b bs (unat c)"
proof -
  let ?n = "unat c"
  have v: "utf8_value (?n div 64) [utf8_tail 0 c] = ?n"
    "utf8_value (?n div 2 ^ 12) (utf8_tail 6 c # bs) = utf8_value (?n div 64) bs"
    "utf8_value (?n div 2 ^ 18) (utf8_tail 12 c # bs) = utf8_value (?n div 2 ^ 12) bs"
    "utf8_value (?n div 2 ^ 24) (utf8_tail 18 c # bs) = utf8_value (?n div 2 ^ 18) bs"
    "utf8_value (?n div 2 ^ 30) (utf8_tail 24 c # bs) = utf8_value (?n div 2 ^ 24) bs" for bs
    using value_tail [of c 0 "[]"] value_tail [of c 6 bs] value_tail [of c 12 bs] value_tail [of c 18 bs]
      value_tail [of c 24 bs] by (simp_all add: utf8_value_def)
  have lead: "unat (ucast (drop_bit (6 * l) c OR push_bit (7 - l) p) :: u8) = lead_base l + ?n div 2 ^ (6 * l)"
    "?n div 2 ^ (6 * l) < 2 ^ (6 - l)" if "unat p = 2 ^ (l + 1) - 1" for p :: u32
  proof -
    have "2 ^ (5 * l + 6) = (2 :: nat) ^ (6 - l) * 2 ^ (6 * l)"
      using assms(1) by (cases rule: five_cases) simp_all
    then show less: "?n div 2 ^ (6 * l) < 2 ^ (6 - l)"
      using assms(3) by (simp add: less_mult_imp_div_less)
    have "(2 :: nat) ^ (6 - l) \<le> 2 ^ (7 - l)"
      by (rule power_increasing) auto
    with less have "unat (drop_bit (6 * l) c) < 2 ^ (7 - l)"
      by (simp only: unat_drop_bit)
    then have "unat (ucast (drop_bit (6 * l) c OR push_bit (7 - l) p) :: u8) =
        (2 ^ (l + 1) - 1) * 2 ^ (7 - l) + unat (drop_bit (6 * l) c)"
      by (rule unat_lead) (use assms(1) that in \<open>cases rule: five_cases; simp\<close>, fact that)
    moreover have "(2 ^ (l + 1) - 1) * 2 ^ (7 - l) = lead_base l"
      using assms(1) by (cases rule: five_cases) (simp_all add: lead_base_def)
    ultimately show "unat (ucast (drop_bit (6 * l) c OR push_bit (7 - l) p) :: u8) = lead_base l + ?n div 2 ^ (6 * l)"
      by (simp only: unat_drop_bit)
  qed
  show ?thesis
    using assms(1)
  proof (cases rule: five_cases)
    case 1
    have b: "unat (ucast (drop_bit 6 c OR 0xc0) :: u8) = 192 + ?n div 2 ^ 6" "?n div 2 ^ 6 < 32"
      using lead [of 3] unfolding utf8_constants(3) 1 by (simp_all add: lead_base_def)
    have "unicode_to_utf8 c = [ucast (drop_bit 6 c OR 0xc0), utf8_tail 0 c]"
      using assms(2,3) unfolding 1 by (simp add: unicode_to_utf8_def word_less_nat_alt)
    moreover have "seq_ok l (ucast (drop_bit 6 c OR 0xc0)) [utf8_tail 0 c] ?n"
      using assms(2,3) b v unfolding 1 by (simp add: seq_ok_def lead_base_def)
    ultimately show ?thesis
      by blast
  next
    case 2
    have b: "unat (ucast (drop_bit 12 c OR 0xe0) :: u8) = 224 + ?n div 2 ^ 12" "?n div 2 ^ 12 < 16"
      using lead [of 7] unfolding utf8_constants(4) 2 by (simp_all add: lead_base_def)
    have "unicode_to_utf8 c = [ucast (drop_bit 12 c OR 0xe0), utf8_tail 6 c, utf8_tail 0 c]"
      using assms(2,3) unfolding 2 by (simp add: unicode_to_utf8_def word_less_nat_alt)
    moreover have "seq_ok l (ucast (drop_bit 12 c OR 0xe0)) [utf8_tail 6 c, utf8_tail 0 c] ?n"
      using assms(2,3) b v unfolding 2 by (simp add: seq_ok_def lead_base_def)
    ultimately show ?thesis
      by blast
  next
    case 3
    have b: "unat (ucast (drop_bit 18 c OR 0xf0) :: u8) = 240 + ?n div 2 ^ 18" "?n div 2 ^ 18 < 8"
      using lead [of 15] unfolding utf8_constants(5) 3 by (simp_all add: lead_base_def)
    have "unicode_to_utf8 c = [ucast (drop_bit 18 c OR 0xf0), utf8_tail 12 c, utf8_tail 6 c, utf8_tail 0 c]"
      using assms(2,3) unfolding 3 by (simp add: unicode_to_utf8_def word_less_nat_alt)
    moreover have "seq_ok l (ucast (drop_bit 18 c OR 0xf0)) [utf8_tail 12 c, utf8_tail 6 c, utf8_tail 0 c] ?n"
      using assms(2,3) b v unfolding 3 by (simp add: seq_ok_def lead_base_def)
    ultimately show ?thesis
      by blast
  next
    case 4
    have b: "unat (ucast (drop_bit 24 c OR 0xf8) :: u8) = 248 + ?n div 2 ^ 24" "?n div 2 ^ 24 < 4"
      using lead [of 31] unfolding utf8_constants(6) 4 by (simp_all add: lead_base_def)
    have "unicode_to_utf8 c = [ucast (drop_bit 24 c OR 0xf8), utf8_tail 18 c, utf8_tail 12 c, utf8_tail 6 c, utf8_tail 0 c]"
      using assms(2,3) unfolding 4 by (simp add: unicode_to_utf8_def word_less_nat_alt)
    moreover have "seq_ok l (ucast (drop_bit 24 c OR 0xf8)) [utf8_tail 18 c, utf8_tail 12 c, utf8_tail 6 c, utf8_tail 0 c] ?n"
      using assms(2,3) b v unfolding 4 by (simp add: seq_ok_def lead_base_def)
    ultimately show ?thesis
      by blast
  next
    case 5
    have b: "unat (ucast (drop_bit 30 c OR 0xfc) :: u8) = 252 + ?n div 2 ^ 30" "?n div 2 ^ 30 < 2"
      using lead [of 63] unfolding utf8_constants(7) 5 by (simp_all add: lead_base_def)
    have "unicode_to_utf8 c = [ucast (drop_bit 30 c OR 0xfc), utf8_tail 24 c, utf8_tail 18 c, utf8_tail 12 c, utf8_tail 6 c, utf8_tail 0 c]"
      using assms(2,3) unfolding 5 by (simp add: unicode_to_utf8_def word_less_nat_alt)
    moreover have "seq_ok l (ucast (drop_bit 30 c OR 0xfc)) [utf8_tail 24 c, utf8_tail 18 c, utf8_tail 12 c, utf8_tail 6 c, utf8_tail 0 c] ?n"
      using assms(2,3) b v unfolding 5 by (simp add: seq_ok_def lead_base_def)
    ultimately show ?thesis
      by blast
  qed
qed

lemma code_point_ranges:
  assumes "c < (0x80000000 :: u32)" and "\<not> c < 0x80"
  obtains l where "l \<in> {1..5}" "(if l = 1 then 2 ^ 7 else 2 ^ (5 * l + 1)) \<le> unat c" "unat c < 2 ^ (5 * l + 6)"
proof -
  have c: "unat c < 2 ^ 31" "2 ^ 7 \<le> unat c"
    using assms by (simp_all add: word_less_nat_alt)
  consider "unat c < 2 ^ 11" | "2 ^ 11 \<le> unat c" "unat c < 2 ^ 16" | "2 ^ 16 \<le> unat c" "unat c < 2 ^ 21"
    | "2 ^ 21 \<le> unat c" "unat c < 2 ^ 26" | "2 ^ 26 \<le> unat c"
    by linarith
  then show ?thesis
    using that [of 1] that [of 2] that [of 3] that [of 4] that [of 5] c by cases auto
qed

lemma utf8_value_inj:
  assumes "length bs = length bs'" and "list_all is_tail bs" and "list_all is_tail bs'"
    and "utf8_value a bs = utf8_value a' bs'"
  shows "a = a' \<and> bs = bs'"
  using assms
proof (induction bs arbitrary: bs' rule: rev_induct)
  case (snoc b bs)
  then obtain b' cs where bs': "bs' = cs @ [b']"
    by (cases bs' rule: rev_cases) auto
  have eq: "utf8_value a bs * 64 + unat b mod 64 = utf8_value a' cs * 64 + unat b' mod 64"
    using snoc.prems(4) by (simp add: bs' utf8_value_def)
  have v: "utf8_value a bs = utf8_value a' cs" "unat b mod 64 = unat b' mod 64"
    using arg_cong [OF eq, of "\<lambda>x. x div 64"] arg_cong [OF eq, of "\<lambda>x. x mod 64"] by simp_all
  have "unat b div 64 = 2" "unat b' div 64 = 2"
    using snoc.prems(2,3) by (auto simp: bs' is_tail_def)
  then have "unat b = unat b'"
    using v(2) by (metis div_mult_mod_eq)
  then show ?case
    using snoc.IH [of cs] snoc.prems v(1) by (auto simp: bs' word_unat_eq_iff)
qed (simp add: utf8_value_def)

lemma seq_ok_unique:
  assumes "seq_ok l b bs n" and "seq_ok l b' bs' n"
  shows "b = b' \<and> bs = bs'"
proof -
  have "unat b - lead_base l = unat b' - lead_base l \<and> bs = bs'"
    using assms unfolding seq_ok_def by (intro utf8_value_inj) auto
  moreover have "lead_base l \<le> unat b" "lead_base l \<le> unat b'"
    using assms by (simp_all add: seq_ok_def)
  ultimately show ?thesis
    by (metis eq_diff_iff word_unat_eq_iff)
qed

text \<open>
  C12. UTF-8 round trip: every code point of up to 31 bits is decoded from its encoding, with the pointer
  behind it, whatever follows, as long as the length limit admits the whole sequence.
\<close>

theorem utf8_encode_decode:
  assumes "c < 0x80000000" and "int (length (unicode_to_utf8 c)) \<le> max_len"
  shows "unicode_from_utf8 (unicode_to_utf8 c @ rest) max_len = Some (Some (c, rest))"
proof (cases "c < 0x80")
  case True
  then have "(ucast c :: u8) < 0x80" "ucast (ucast c :: u8) = c"
    by (simp_all add: word_less_nat_alt unat_ucast word_unat_eq_iff)
  with True show ?thesis
    by (simp add: unicode_to_utf8_def unicode_from_utf8_def)
next
  case False
  obtain l where l: "l \<in> {1..5}" "(if l = 1 then 2 ^ 7 else 2 ^ (5 * l + 1)) \<le> unat c" "unat c < 2 ^ (5 * l + 6)"
    using assms(1) False by (rule code_point_ranges)
  then obtain b bs where b: "unicode_to_utf8 c = b # bs" "seq_ok l b bs (unat c)"
    using encode_seq by blast
  then have "int l < max_len"
    using assms(2) by (simp add: seq_ok_def)
  from decode_seq [OF b(2) this, of rest] show ?thesis
    using b(1) by (auto simp: word_unat_eq_iff)
qed

theorem utf8_encode_decode_witness:
  "unicode_from_utf8 (unicode_to_utf8 0x20AC @ [7]) 3 = Some (Some (0x20AC, [7]))"
  by (rule utf8_encode_decode) (simp_all add: unicode_to_utf8_def)

text \<open>
  C13. Only shortest forms are decoded: whenever the decoder succeeds, the bytes it consumed are exactly the
  encoding of the code point it returns.
\<close>

theorem utf8_decode_canonical:
  assumes "unicode_from_utf8 p max_len = Some (Some (c, rest))"
  shows "p = unicode_to_utf8 c @ rest \<and> unicode_to_utf8 c \<noteq> []"
  using decode_seqD [OF assms]
proof
  assume "\<exists>b. p = b # rest \<and> unat b < 128 \<and> c = ucast b"
  then obtain b where b: "p = b # rest" "unat b < 128" "c = ucast b"
    by blast
  then have "c < 0x80" "ucast c = b"
    by (simp_all add: word_less_nat_alt unat_ucast word_unat_eq_iff)
  with b(1) show ?thesis
    by (simp add: unicode_to_utf8_def)
next
  assume "\<exists>l b bs. p = b # bs @ rest \<and> seq_ok l b bs (unat c)"
  then obtain l b bs where p: "p = b # bs @ rest" and s: "seq_ok l b bs (unat c)"
    by blast
  then obtain b' bs' where "unicode_to_utf8 c = b' # bs'" "seq_ok l b' bs' (unat c)"
    using encode_seq [of l c] by (auto simp: seq_ok_def)
  with seq_ok_unique [OF s] p show ?thesis
    by simp
qed

theorem utf8_decode_canonical_witness: "[0xC3, 0xA9, 0x41] = unicode_to_utf8 0xE9 @ [0x41]"
  using utf8_decode_canonical [of "[0xC3, 0xA9, 0x41]" 3 "0xE9" "[0x41]"]
  by (simp add: unicode_from_utf8_def utf8_lead_def utf8_first_code_mask_def utf8_min_code_def)

text \<open>
  C14. The decoder never reads more than the given number of bytes: with at least that many in the block,
  and at least one, it always returns.
\<close>

theorem utf8_decode_in_bounds:
  assumes "1 \<le> max_len" and "max_len \<le> int (length p)"
  shows "unicode_from_utf8 p max_len \<noteq> None"
proof -
  obtain c q where p: "p = c # q"
    using assms by (cases p) auto
  have "int l > max_len - 1" if "utf8_continue l x q = None" for l x
    using that assms p utf8_continue_safe [of l q x] by force
  then show ?thesis
    by (auto simp: unicode_from_utf8_def p split: option.splits)
qed

theorem utf8_decode_in_bounds_witness: "unicode_from_utf8 [0xE2, 0x82] 2 \<noteq> None"
  by (rule utf8_decode_in_bounds) simp_all


end
