(* ===== verification/Limbs.thy ===== *)
theory Limbs
  imports Words F64
begin

text \<open>
  The multiple precision kernel of QuickJS (the \<open>mp_\<close> functions of quickjs.c, with 64-bit limbs).
  A pointer to limbs together with its count is the list of those limbs, least significant first;
  a loop over the limbs is a recursion on the list, and a function that stores through its result
  pointer returns the limbs it stored next to its C result. Double limbs are 128-bit words.
\<close>

unbundle bit_operations_syntax

section \<open>Values of limb arrays\<close>

type_synonym js_limb_t = "64 word"
type_synonym js_dlimb_t = "128 word"

definition limb_base :: nat where
  "limb_base = 2 ^ 64"

fun nval :: "js_limb_t list \<Rightarrow> nat" where
  "nval [] = 0"
| "nval (x # xs) = unat x + limb_base * nval xs"

text \<open>A part of an array, and the array with a part of it overwritten.\<close>

definition limbs_at :: "nat \<Rightarrow> nat \<Rightarrow> 'a list \<Rightarrow> 'a list" where
  "limbs_at i n xs = take n (drop i xs)"

definition store_at :: "nat \<Rightarrow> 'a list \<Rightarrow> 'a list \<Rightarrow> 'a list" where
  "store_at i ys xs = take i xs @ ys @ drop (i + length ys) xs"

definition limb_of_bool :: "bool \<Rightarrow> js_limb_t" where
  "limb_of_bool b = (if b then 1 else 0)"

section \<open>The functions\<close>

definition addc :: "js_limb_t \<Rightarrow> js_limb_t \<Rightarrow> js_limb_t \<Rightarrow> js_limb_t \<times> js_limb_t" where
  "addc op1 op2 carry_in =
     (let v = op1;
          a = v + op2;
          k1 = limb_of_bool (a < v);
          k = carry_in;
          a = a + k
      in (a, limb_of_bool (a < k) OR k1))"

definition clz32 :: "u32 \<Rightarrow> nat" where
  "clz32 a = 31 - floor_log2 (unat a)"

definition clz64 :: "u64 \<Rightarrow> nat" where
  "clz64 a = 63 - floor_log2 (unat a)"

definition js_limb_clz :: "js_limb_t \<Rightarrow> nat" where
  "js_limb_clz a = clz64 a"

definition js_limb_safe_clz :: "js_limb_t \<Rightarrow> nat" where
  "js_limb_safe_clz a = (if a = 0 then 64 else js_limb_clz a)"

fun mp_add :: "js_limb_t list \<Rightarrow> js_limb_t list \<Rightarrow> js_limb_t \<Rightarrow> js_limb_t list \<times> js_limb_t" where
  "mp_add (x # op1) (y # op2) carry =
     (let (r, carry) = addc x y carry;
          (res, carry) = mp_add op1 op2 carry
      in (r # res, carry))"
| "mp_add _ _ carry = ([], carry)"

fun mp_sub :: "js_limb_t list \<Rightarrow> js_limb_t list \<Rightarrow> js_limb_t \<Rightarrow> js_limb_t list \<times> js_limb_t" where
  "mp_sub (v # op1) (y # op2) k =
     (let a = v - y;
          k1 = limb_of_bool (a > v);
          v = a - k;
          k = limb_of_bool (v > a) OR k1;
          (res, k) = mp_sub op1 op2 k
      in (v # res, k))"
| "mp_sub _ _ k = ([], k)"

fun mp_neg_loop :: "js_limb_t list \<Rightarrow> js_limb_t \<Rightarrow> js_limb_t list \<times> js_limb_t" where
  "mp_neg_loop [] carry = ([], carry)"
| "mp_neg_loop (x # op2) carry =
     (let v = NOT x + carry;
          carry = limb_of_bool (v < carry);
          (res, carry) = mp_neg_loop op2 carry
      in (v # res, carry))"

definition mp_neg :: "js_limb_t list \<Rightarrow> js_limb_t list \<times> js_limb_t" where
  "mp_neg op2 = mp_neg_loop op2 1"

fun mp_mul1 :: "js_limb_t list \<Rightarrow> js_limb_t \<Rightarrow> js_limb_t \<Rightarrow> js_limb_t list \<times> js_limb_t" where
  "mp_mul1 [] b l = ([], l)"
| "mp_mul1 (a # taba) b l =
     (let t = (ucast a * ucast b + ucast l :: js_dlimb_t);
          (tabr, h) = mp_mul1 taba b (ucast (drop_bit 64 t))
      in (ucast t # tabr, h))"

text \<open>\<open>((js_dlimb_t) h << 64) | l\<close>\<close>

definition dlimb :: "js_limb_t \<Rightarrow> js_limb_t \<Rightarrow> js_dlimb_t" where
  "dlimb h l = push_bit 64 (ucast h) OR ucast l"

fun mp_div1 :: "js_limb_t list \<Rightarrow> js_limb_t \<Rightarrow> js_limb_t \<Rightarrow> js_limb_t list \<times> js_limb_t" where
  "mp_div1 [] b r = ([], r)"
| "mp_div1 (a # taba) b r =
     (let (tabr, r) = mp_div1 taba b r;
          a1 = dlimb r a
      in (ucast (a1 div ucast b) # tabr, ucast (a1 mod ucast b)))"

fun mp_add_mul1_loop ::
  "js_limb_t list \<Rightarrow> js_limb_t list \<Rightarrow> js_limb_t \<Rightarrow> js_limb_t \<Rightarrow> js_limb_t list \<times> js_limb_t" where
  "mp_add_mul1_loop (r # tabr) (a # taba) b l =
     (let t = (ucast a * ucast b + ucast l + ucast r :: js_dlimb_t);
          (tabr, h) = mp_add_mul1_loop tabr taba b (ucast (drop_bit 64 t))
      in (ucast t # tabr, h))"
| "mp_add_mul1_loop _ _ b l = ([], l)"

definition mp_add_mul1 :: "js_limb_t list \<Rightarrow> js_limb_t list \<Rightarrow> js_limb_t \<Rightarrow> js_limb_t list \<times> js_limb_t" where
  "mp_add_mul1 tabr taba b = mp_add_mul1_loop tabr taba b 0"

fun mp_mul_basecase_loop ::
  "js_limb_t list \<Rightarrow> js_limb_t list \<Rightarrow> nat \<Rightarrow> js_limb_t list \<Rightarrow> js_limb_t list" where
  "mp_mul_basecase_loop result op1 i [] = result"
| "mp_mul_basecase_loop result op1 i (y # op2) =
     (let (part, r) = mp_add_mul1 (limbs_at i (length op1) result) op1 y;
          result = store_at i part result;
          result = result [i + length op1 := r]
      in mp_mul_basecase_loop result op1 (Suc i) op2)"

definition mp_mul_basecase ::
  "js_limb_t list \<Rightarrow> js_limb_t list \<Rightarrow> js_limb_t list \<Rightarrow> js_limb_t list" where
  "mp_mul_basecase result op1 op2 =
     (let (part, r) = mp_mul1 op1 (hd op2) 0;
          result = store_at 0 part result;
          result = result [length op1 := r]
      in mp_mul_basecase_loop result op1 1 (tl op2))"

fun mp_sub_mul1_loop ::
  "js_limb_t list \<Rightarrow> js_limb_t list \<Rightarrow> js_limb_t \<Rightarrow> js_limb_t \<Rightarrow> js_limb_t list \<times> js_limb_t" where
  "mp_sub_mul1_loop (r # tabr) (a # taba) b l =
     (let t = (ucast r - ucast a * ucast b - ucast l :: js_dlimb_t);
          (tabr, h) = mp_sub_mul1_loop tabr taba b (ucast (- drop_bit 64 t))
      in (ucast t # tabr, h))"
| "mp_sub_mul1_loop _ _ b l = ([], l)"

definition mp_sub_mul1 :: "js_limb_t list \<Rightarrow> js_limb_t list \<Rightarrow> js_limb_t \<Rightarrow> js_limb_t list \<times> js_limb_t" where
  "mp_sub_mul1 tabr taba b = mp_sub_mul1_loop tabr taba b 0"

definition udiv1norm_init :: "js_limb_t \<Rightarrow> js_limb_t" where
  "udiv1norm_init d =
     (let a1 = - d - 1;
          a0 = - 1
      in ucast (dlimb a1 a0 div ucast d))"

text \<open>The quotient and the remainder stored through \<open>pr\<close>.\<close>

definition udiv1norm ::
  "js_limb_t \<Rightarrow> js_limb_t \<Rightarrow> js_limb_t \<Rightarrow> js_limb_t \<Rightarrow> js_limb_t \<times> js_limb_t" where
  "udiv1norm a1 a0 d d_inv =
     (let n1m = signed_drop_bit 63 a0;
          n_adj = a0 + (n1m AND d);
          a = (ucast d_inv * ucast (a1 - n1m) + ucast n_adj :: js_dlimb_t);
          q = ucast (drop_bit 64 a) + a1;
          a = dlimb a1 a0;
          a = a - ucast q * ucast d - ucast d;
          ah = ucast (drop_bit 64 a);
          q = q + (1 + ah);
          r = ucast a + (ah AND d)
      in (q, r))"

definition UDIV1NORM_THRESHOLD :: nat where
  "UDIV1NORM_THRESHOLD = 3"

fun mp_div1norm_loop ::
  "js_limb_t list \<Rightarrow> js_limb_t \<Rightarrow> js_limb_t \<Rightarrow> js_limb_t \<Rightarrow> js_limb_t list \<times> js_limb_t" where
  "mp_div1norm_loop [] b b_inv r = ([], r)"
| "mp_div1norm_loop (a # taba) b b_inv r =
     (let (tabr, r) = mp_div1norm_loop taba b b_inv r;
          (q, r) = udiv1norm r a b b_inv
      in (q # tabr, r))"

definition mp_div1norm :: "js_limb_t list \<Rightarrow> js_limb_t \<Rightarrow> js_limb_t \<Rightarrow> js_limb_t list \<times> js_limb_t" where
  "mp_div1norm taba b r =
     (if length taba \<ge> UDIV1NORM_THRESHOLD
      then mp_div1norm_loop taba b (udiv1norm_init b) r
      else mp_div1 taba b r)"

fun mp_shl_loop :: "js_limb_t list \<Rightarrow> nat \<Rightarrow> js_limb_t \<Rightarrow> js_limb_t list \<times> js_limb_t" where
  "mp_shl_loop [] shift l = ([], l)"
| "mp_shl_loop (v # taba) shift l =
     (let (tabr, h) = mp_shl_loop taba shift (drop_bit (64 - shift) v)
      in ((push_bit shift v OR l) # tabr, h))"

definition mp_shl :: "js_limb_t list \<Rightarrow> nat \<Rightarrow> js_limb_t list \<times> js_limb_t" where
  "mp_shl taba shift = mp_shl_loop taba shift 0"

fun mp_shr_loop :: "js_limb_t list \<Rightarrow> nat \<Rightarrow> js_limb_t \<Rightarrow> js_limb_t list \<times> js_limb_t" where
  "mp_shr_loop [] shift l = ([], l)"
| "mp_shr_loop (a # tab) shift l =
     (let (tab_r, l) = mp_shr_loop tab shift l
      in ((drop_bit shift a OR push_bit (64 - shift) l) # tab_r, a))"

definition mp_shr :: "js_limb_t list \<Rightarrow> nat \<Rightarrow> js_limb_t \<Rightarrow> js_limb_t list \<times> js_limb_t" where
  "mp_shr tab shift high =
     (let (tab_r, l) = mp_shr_loop tab shift high
      in (tab_r, l AND (push_bit shift 1 - 1)))"

section \<open>Reading words as numbers\<close>

lemma limb_base_pos [simp]: "0 < limb_base"
  by (simp add: limb_base_def)

lemma limb_base_neq_0 [simp]: "limb_base \<noteq> 0"
  by (simp add: limb_base_def)

lemma limb_base_gt_1 [simp]: "1 < limb_base"
  by (simp add: limb_base_def)

lemma unat_limb_less [simp]: "unat (x :: js_limb_t) < limb_base"
  using unat_less [of x] by (simp add: limb_base_def)

lemma limb_add: "unat (x + y :: js_limb_t) = (unat x + unat y) mod limb_base"
  by (simp add: unat_add limb_base_def)

lemma limb_sub:
  "unat (x - y :: js_limb_t) = (if unat y \<le> unat x then unat x - unat y else limb_base + unat x - unat y)"
  by (simp add: unat_minus limb_base_def word_le_nat_alt)

lemma limb_not: "unat (NOT x :: js_limb_t) = limb_base - 1 - unat x"
proof -
  have "NOT x = (- 1) - x"
    by (simp add: not_eq_complement)
  moreover have "unat (- 1 :: js_limb_t) = limb_base - 1"
    by (simp add: unsigned_minus_1_eq_mask mask_eq_exp_minus_1 limb_base_def)
  moreover have "unat x \<le> limb_base - 1"
    using unat_limb_less [of x] by linarith
  ultimately show ?thesis
    by (simp add: limb_sub)
qed

lemma unat_limb_of_bool [simp]: "unat (limb_of_bool b) = of_bool b"
  by (simp add: limb_of_bool_def)

lemma limb_of_bool_or [simp]: "limb_of_bool a OR limb_of_bool b = limb_of_bool (a \<or> b)"
  by (simp add: limb_of_bool_def)

lemma limb_of_bool_eq_0 [simp]: "limb_of_bool b = 0 \<longleftrightarrow> \<not> b"
  by (simp add: limb_of_bool_def)

lemma limb_high_bit: "unat (a :: js_limb_t) div 2 ^ 63 = of_bool (2 ^ 63 \<le> unat a)"
proof -
  have "unat a < 2 ^ 64"
    using unat_less [of a] by simp
  then show ?thesis
    by (auto intro: div_nat_eqI)
qed

lemma limb_msb: "bit (a :: js_limb_t) 63 \<longleftrightarrow> 2 ^ 63 \<le> unat a"
proof -
  have "bit a 63 \<longleftrightarrow> odd (unat a div 2 ^ 63)"
    by (metis bit_unsigned_iff bit_iff_odd possible_bit_nat)
  then show ?thesis
    by (simp only: limb_high_bit) simp
qed

lemma limb_sign_bit: "drop_bit 63 (a :: js_limb_t) = limb_of_bool (bit a 63)"
  by (simp only: word_unat_eq_iff unat_drop_bit limb_high_bit limb_msb unat_limb_of_bool)

lemma limb_sign_fill: "signed_drop_bit 63 (a :: js_limb_t) = (if bit a 63 then - 1 else 0)"
proof (rule bit_word_eqI)
  fix n assume "n < LENGTH(64)"
  then show "bit (signed_drop_bit 63 a) n = bit (if bit a 63 then - 1 else 0 :: js_limb_t) n"
    by (cases n) (auto simp: bit_simps)
qed

lemma bit_floor_log2:
  assumes "2 ^ k \<le> n" and "n < 2 ^ Suc k"
  shows "bit (n :: nat) k"
proof -
  have "n div 2 ^ k = 1"
    using assms by (intro div_nat_eqI) simp_all
  then show ?thesis
    by (simp add: bit_iff_odd)
qed

lemma power_of_2_test:
  fixes v :: "'a :: len word"
  assumes "v \<noteq> 0" and "v AND (v - 1) = 0"
  shows "unat v = 2 ^ floor_log2 (unat v)"
proof (rule ccontr)
  let ?k = "floor_log2 (unat v)"
  assume neq: "unat v \<noteq> 2 ^ ?k"
  have pos: "0 < unat v"
    using assms(1) by (simp add: unat_gt_0)
  note b = floor_log2_bounds [OF pos]
  have u: "unat (v - 1) = unat v - 1"
    using assms(1) by (rule unat_minus_one)
  have "2 ^ ?k \<le> unat v - 1" and "unat v - 1 < 2 ^ Suc ?k"
    using neq b by linarith+
  then have "bit (unat (v - 1)) ?k" and "bit (unat v) ?k"
    unfolding u using b by (auto intro: bit_floor_log2)
  then have "bit (v AND (v - 1)) ?k"
    by (simp add: bit_simps)
  with assms(2) show False by simp
qed

lemma sint_limb: "sint (v :: js_limb_t) = int (unat v) - (if bit v 63 then int limb_base else 0)"
proof -
  have "sint v = signed_take_bit (LENGTH(64) - Suc 0) (uint v)"
    by (rule sint_uint)
  also have "\<dots> = take_bit (Suc 63) (uint v) - 2 ^ Suc 63 * of_bool (bit (uint v) 63)"
    by (simp only: signed_take_bit_eq_take_bit_minus) simp
  also have "take_bit (Suc 63) (uint v) = uint v"
  proof (rule take_bit_int_eq_self)
    have "uint v < 2 ^ LENGTH(64)"
      by (rule unsigned_less)
    then show "uint v < 2 ^ Suc 63"
      by simp
  qed simp
  finally show ?thesis
    by (simp add: bit_uint_iff limb_base_def)
qed

lemma sint_limb_neg: "sint (v :: js_limb_t) < 0 \<longleftrightarrow> bit v 63"
proof -
  have "int (unat v) < int limb_base"
    by (simp only: of_nat_less_iff unat_limb_less)
  then show ?thesis
    unfolding sint_limb by (simp only: split: if_split) linarith
qed

lemma dlimb_base: "(2 :: nat) ^ LENGTH(128) = limb_base * limb_base"
  by (simp add: limb_base_def)

lemma unat_wide [simp]: "unat (ucast (x :: js_limb_t) :: js_dlimb_t) = unat x"
  by (rule unat_ucast_up) simp

lemma unat_narrow: "unat (ucast (t :: js_dlimb_t) :: js_limb_t) = unat t mod limb_base"
  by (simp add: unat_ucast limb_base_def)

lemma unat_high: "unat (ucast (drop_bit 64 (t :: js_dlimb_t)) :: js_limb_t) = unat t div limb_base"
proof -
  have "unat t < limb_base * limb_base"
    using unat_less [of t] by (simp only: dlimb_base)
  then have "unat t div limb_base < limb_base"
    by (simp add: less_mult_imp_div_less)
  then show ?thesis
    by (simp add: unat_narrow unat_drop_bit limb_base_def)
qed

lemma limb_mult_le:
  assumes "a < b" and "c < b"
  shows "a * c + 2 * b \<le> b * b + (1 :: nat)"
proof -
  obtain d where d: "b = Suc d"
    using assms(1) by (cases b) auto
  with assms have "a \<le> d" and "c \<le> d"
    by simp_all
  then have "a * c \<le> d * d"
    by (rule mult_le_mono)
  then show ?thesis
    by (simp add: d)
qed

lemma unat_mul_add:
  "unat (ucast (a :: js_limb_t) * ucast (b :: js_limb_t) + ucast (l :: js_limb_t) :: js_dlimb_t)
     = unat a * unat b + unat l"
proof -
  have "unat a * unat b + 2 * limb_base \<le> limb_base * limb_base + 1"
    by (rule limb_mult_le) simp_all
  then have "unat a * unat b + unat l < limb_base * limb_base"
    using unat_limb_less [of l] limb_base_gt_1 by linarith
  then have "unat a * unat b + unat l < 2 ^ LENGTH(128)" and "unat a * unat b < 2 ^ LENGTH(128)"
    by (simp_all only: dlimb_base)
  then show ?thesis
    by (simp only: unat_add unat_mult unat_wide mod_less)
qed

lemma unat_mul_add2:
  "unat (ucast (a :: js_limb_t) * ucast (b :: js_limb_t) + ucast (l :: js_limb_t) + ucast (r :: js_limb_t) :: js_dlimb_t)
     = unat a * unat b + unat l + unat r"
proof -
  have "unat a * unat b + 2 * limb_base \<le> limb_base * limb_base + 1"
    by (rule limb_mult_le) simp_all
  then have "unat a * unat b + unat l + unat r < limb_base * limb_base"
    using unat_limb_less [of l] unat_limb_less [of r] by linarith
  then have "unat a * unat b + unat l + unat r < 2 ^ LENGTH(128)"
    by (simp only: dlimb_base)
  then show ?thesis
    by (simp only: unat_add [of _ "ucast r"] unat_mul_add unat_wide mod_less)
qed

lemma unat_dlimb: "unat (dlimb h l) = unat h * limb_base + unat l"
proof -
  have "unat h * limb_base + unat l < limb_base * limb_base"
  proof -
    have "unat h * limb_base + unat l < Suc (unat h) * limb_base"
      by simp
    also have "\<dots> \<le> limb_base * limb_base"
      by (intro mult_le_mono1) (simp add: Suc_le_eq)
    finally show ?thesis .
  qed
  then have "unat h * 2 ^ 64 + unat l < 2 ^ LENGTH(128)"
    by (simp add: limb_base_def)
  moreover have "unat (ucast l :: js_dlimb_t) < 2 ^ 64"
    using unat_less [of l] by simp
  ultimately show ?thesis
    unfolding dlimb_def by (subst unat_or_disjoint') (simp_all add: limb_base_def)
qed

section \<open>Values of arrays\<close>

lemma nval_less: "nval xs < limb_base ^ length xs"
proof (induction xs)
  case (Cons x xs)
  have "unat x + limb_base * nval xs < limb_base + limb_base * nval xs"
    by simp
  also have "\<dots> = limb_base * Suc (nval xs)"
    by simp
  also have "\<dots> \<le> limb_base * limb_base ^ length xs"
    using Cons.IH by (intro mult_le_mono2) simp
  finally show ?case by simp
qed simp

lemma nval_append: "nval (xs @ ys) = nval xs + limb_base ^ length xs * nval ys"
  by (induction xs) (simp_all add: algebra_simps)

lemma nval_replicate_0 [simp]: "nval (replicate n 0) = 0"
  by (induction n) simp_all

lemma nval_inject:
  "length xs = length ys \<Longrightarrow> nval xs = nval ys \<longleftrightarrow> xs = ys"
proof (induction xs ys rule: list_induct2)
  case (Cons x xs y ys)
  have "nval (x # xs) = nval (y # ys) \<longleftrightarrow> unat x = unat y \<and> nval xs = nval ys"
  proof
    assume eq: "nval (x # xs) = nval (y # ys)"
    then have "nval (x # xs) mod limb_base = nval (y # ys) mod limb_base"
      by simp
    then have "unat x = unat y"
      by simp
    with eq show "unat x = unat y \<and> nval xs = nval ys"
      by simp
  qed simp
  with Cons.IH show ?case
    by (simp add: word_unat_eq_iff)
qed simp

lemma length_store_at [simp]: "i + length ys \<le> length xs \<Longrightarrow> length (store_at i ys xs) = length xs"
  by (simp add: store_at_def)

lemma length_limbs_at [simp]: "i + n \<le> length xs \<Longrightarrow> length (limbs_at i n xs) = n"
  by (simp add: limbs_at_def)

lemma split_at:
  assumes "i + n \<le> length xs"
  shows "xs = take i xs @ limbs_at i n xs @ drop (i + n) xs"
  using append_take_drop_id [of i xs] append_take_drop_id [of n "drop i xs"]
  by (simp add: limbs_at_def add.commute)

section \<open>Addition, subtraction and negation\<close>

lemma addc_correct:
  assumes "addc x y k = (r, c)" and "k = limb_of_bool b"
  shows "unat r + limb_base * unat c = unat x + unat y + unat k" and "\<exists>b'. c = limb_of_bool b'"
proof -
  let ?a = "x + y"
  have r: "r = ?a + k" and c: "c = limb_of_bool (r < k \<or> ?a < x)"
    using assms(1) by (auto simp: addc_def Let_def)
  then show "\<exists>b'. c = limb_of_bool b'" by blast
  have k: "unat k \<le> 1"
    by (simp add: assms(2))
  show "unat r + limb_base * unat c = unat x + unat y + unat k"
  proof (cases "unat x + unat y < limb_base")
    case True
    then have a: "unat ?a = unat x + unat y"
      by (simp add: limb_add)
    then have nlt: "\<not> ?a < x"
      by (simp add: word_less_nat_alt)
    show ?thesis
    proof (cases "unat ?a + unat k < limb_base")
      case T: True
      then have "unat r = unat x + unat y + unat k"
        using a by (simp add: r limb_add)
      then show ?thesis
        using nlt by (simp add: c word_less_nat_alt)
    next
      case False
      then have "unat ?a + unat k = limb_base" and "unat k = 1"
        using k unat_limb_less [of ?a] by linarith+
      then show ?thesis
        using a by (simp add: c r limb_add [of ?a k] word_less_nat_alt)
    qed
  next
    case False
    have "(unat x + unat y) mod limb_base = unat x + unat y - limb_base"
      using False unat_limb_less [of x] unat_limb_less [of y]
      by (simp only: le_mod_geq not_less) (rule mod_less, linarith)
    then have a: "unat ?a = unat x + unat y - limb_base"
      by (simp add: limb_add)
    then have lt: "?a < x"
      using False unat_limb_less [of y] unat_limb_less [of x] by (subst word_less_nat_alt) linarith
    have "unat ?a + unat k < limb_base"
      using False a k unat_limb_less [of x] unat_limb_less [of y] by linarith
    then have "unat r = unat x + unat y - limb_base + unat k"
      using a by (simp add: r limb_add [of ?a k])
    with False lt show ?thesis
      by (simp add: c)
  qed
qed

lemma mp_add_correct:
  assumes "length op1 = length op2" and "mp_add op1 op2 k = (res, c)" and "k = limb_of_bool b"
  shows "length res = length op1 \<and> nval res + limb_base ^ length op1 * unat c = nval op1 + nval op2 + unat k
    \<and> (\<exists>b'. c = limb_of_bool b')"
  using assms
proof (induction op1 op2 arbitrary: k b res rule: list_induct2)
  case (Cons x xs y ys)
  obtain r c1 where s: "addc x y k = (r, c1)"
    by (cases "addc x y k")
  obtain rs c2 where t: "mp_add xs ys c1 = (rs, c2)"
    by (cases "mp_add xs ys c1")
  have res: "res = r # rs" "c = c2"
    using Cons.prems s t by auto
  from addc_correct [OF s Cons.prems(2)]
  obtain b1 where c1: "c1 = limb_of_bool b1" and e: "unat r + limb_base * unat c1 = unat x + unat y + unat k"
    by blast
  have "length rs = length xs \<and> nval rs + limb_base ^ length xs * unat c2 = nval xs + nval ys + unat c1
    \<and> (\<exists>b'. c2 = limb_of_bool b')"
    using Cons.IH [of c1 rs b1] t c1 res(2) by simp
  then have i: "length rs = length xs" "\<exists>b'. c2 = limb_of_bool b'"
    "limb_base * (nval rs + limb_base ^ length xs * unat c2) = limb_base * (nval xs + nval ys + unat c1)"
    by simp_all
  with e show ?case
    by (simp add: res algebra_simps)
qed auto

lemma borrow_arith:
  assumes "x < b" and "y < b" and "k \<le> (1 :: nat)" and "1 < b"
  defines "a \<equiv> if y \<le> x then x - y else b + x - y"
  shows "(if k \<le> a then a - k else b + a - k) + y + k
    = x + b * of_bool (a < (if k \<le> a then a - k else b + a - k) \<or> x < a)"
  using assms by (cases "y \<le> x"; cases "k \<le> a") auto

lemma mp_sub_correct:
  assumes "length op1 = length op2" and "mp_sub op1 op2 k = (res, c)" and "k = limb_of_bool b"
  shows "length res = length op1 \<and> nval res + nval op2 + unat k = nval op1 + limb_base ^ length op1 * unat c
    \<and> (\<exists>b'. c = limb_of_bool b')"
  using assms
proof (induction op1 op2 arbitrary: k b res rule: list_induct2)
  case (Cons x xs y ys)
  define a where "a = x - y"
  define v where "v = a - k"
  define c1 where "c1 = limb_of_bool (v > a \<or> a > x)"
  obtain rs c2 where t: "mp_sub xs ys c1 = (rs, c2)"
    by (cases "mp_sub xs ys c1")
  have res: "res = v # rs" "c = c2"
    using Cons.prems(1) t unfolding c1_def v_def a_def by (auto simp: Let_def)
  have k: "unat k \<le> 1"
    by (simp add: Cons.prems(2))
  have e: "unat v + unat y + unat k = unat x + limb_base * unat c1"
    using borrow_arith [OF unat_limb_less [of x] unat_limb_less [of y] k limb_base_gt_1]
    unfolding c1_def v_def a_def by (simp only: unat_limb_of_bool limb_sub word_less_nat_alt)
  have "length rs = length xs \<and> nval rs + nval ys + unat c1 = nval xs + limb_base ^ length xs * unat c2
    \<and> (\<exists>b'. c2 = limb_of_bool b')"
    using Cons.IH [of c1 rs "v > a \<or> a > x"] t res(2) by (simp add: c1_def)
  then have i: "length rs = length xs" "\<exists>b'. c2 = limb_of_bool b'"
    "limb_base * (nval rs + nval ys + unat c1) = limb_base * (nval xs + limb_base ^ length xs * unat c2)"
    by simp_all
  with e show ?case
    by (simp add: res algebra_simps)
qed auto

lemma mp_neg_loop_correct:
  assumes "mp_neg_loop xs k = (res, c)" and "k = limb_of_bool b"
  shows "length res = length xs \<and> nval res + nval xs + 1 + limb_base ^ length xs * unat c
      = limb_base ^ length xs + unat k \<and> (\<exists>b'. c = limb_of_bool b')"
  using assms
proof (induction xs arbitrary: k b res)
  case (Cons x xs)
  define v where "v = NOT x + k"
  define c1 where "c1 = limb_of_bool (v < k)"
  obtain rs c2 where t: "mp_neg_loop xs c1 = (rs, c2)"
    by (cases "mp_neg_loop xs c1")
  have res: "res = v # rs" "c = c2"
    using Cons.prems(1) t unfolding c1_def v_def by (auto simp: Let_def)
  have k: "unat k \<le> 1"
    by (simp add: Cons.prems(2))
  have e: "unat v + unat x + 1 + limb_base * unat c1 = limb_base + unat k"
  proof (cases "limb_base - 1 - unat x + unat k < limb_base")
    case True
    then have v: "unat v = limb_base - 1 - unat x + unat k"
      by (simp only: v_def limb_add limb_not mod_less)
    then have "\<not> v < k"
      by (simp add: word_less_nat_alt)
    then show ?thesis
      using v unat_limb_less [of x] unfolding c1_def unat_limb_of_bool by (simp only: of_bool_eq)
  next
    case False
    then have "unat k = 1" "unat x = 0"
      using k limb_base_gt_1 by linarith+
    then show ?thesis
      unfolding c1_def v_def by (auto simp: limb_add limb_not word_less_nat_alt)
  qed
  have "length rs = length xs \<and> nval rs + nval xs + 1 + limb_base ^ length xs * unat c2
      = limb_base ^ length xs + unat c1 \<and> (\<exists>b'. c2 = limb_of_bool b')"
    using Cons.IH [of c1 rs "v < k"] t res(2) by (simp add: c1_def)
  then have i: "length rs = length xs" "\<exists>b'. c2 = limb_of_bool b'"
    "limb_base * (nval rs + nval xs + 1 + limb_base ^ length xs * unat c2)
      = limb_base * (limb_base ^ length xs + unat c1)"
    by simp_all
  with e show ?case
    by (simp add: res algebra_simps)
qed auto

lemma mp_neg_correct:
  assumes "mp_neg xs = (res, c)"
  shows "length res = length xs" and "nval res = (limb_base ^ length xs - nval xs) mod limb_base ^ length xs"
proof -
  have k: "(1 :: js_limb_t) = limb_of_bool True"
    by (simp add: limb_of_bool_def)
  note 1 = mp_neg_loop_correct [OF assms [unfolded mp_neg_def] k]
  then show l: "length res = length xs" by simp
  have "nval res < limb_base ^ length xs"
    using nval_less [of res] l by simp
  moreover have "nval res + nval xs + limb_base ^ length xs * unat c = limb_base ^ length xs"
    using 1 by (simp add: k [symmetric])
  moreover obtain b where "c = limb_of_bool b"
    using 1 by blast
  ultimately show "nval res = (limb_base ^ length xs - nval xs) mod limb_base ^ length xs"
    by (cases b) auto
qed

section \<open>Multiplication\<close>

lemma mp_mul1_correct:
  assumes "mp_mul1 xs b l = (res, h)"
  shows "length res = length xs \<and> nval res + limb_base ^ length xs * unat h = nval xs * unat b + unat l"
  using assms
proof (induction xs arbitrary: l res)
  case (Cons a xs)
  define t where "t = (ucast a * ucast b + ucast l :: js_dlimb_t)"
  obtain rs where r: "mp_mul1 xs b (ucast (drop_bit 64 t)) = (rs, h)" "res = ucast t # rs"
    using Cons.prems by (auto simp: t_def Let_def split: prod.splits)
  define m d where "m = unat t mod limb_base" and "d = unat t div limb_base"
  have t: "m + limb_base * d = unat a * unat b + unat l"
    unfolding m_def d_def mod_mult_div_eq t_def by (rule unat_mul_add)
  have "length rs = length xs" and
    "limb_base * (nval rs + limb_base ^ length xs * unat h) = limb_base * (nval xs * unat b + d)"
    using Cons.IH [OF r(1)] by (simp_all add: unat_high d_def)
  with t show ?case
    by (simp add: r(2) unat_narrow m_def [symmetric] algebra_simps)
qed simp

lemma mp_add_mul1_loop_correct:
  assumes "length rs = length xs" and "mp_add_mul1_loop rs xs b l = (res, h)"
  shows "length res = length xs \<and>
    nval res + limb_base ^ length xs * unat h = nval rs + nval xs * unat b + unat l"
  using assms
proof (induction rs xs arbitrary: l res rule: list_induct2)
  case (Cons r rs a xs)
  define t where "t = (ucast a * ucast b + ucast l + ucast r :: js_dlimb_t)"
  obtain qs where q: "mp_add_mul1_loop rs xs b (ucast (drop_bit 64 t)) = (qs, h)" "res = ucast t # qs"
    using Cons.prems by (auto simp: t_def Let_def split: prod.splits)
  define m d where "m = unat t mod limb_base" and "d = unat t div limb_base"
  have t: "m + limb_base * d = unat a * unat b + unat l + unat r"
    unfolding m_def d_def mod_mult_div_eq t_def by (rule unat_mul_add2)
  have "length qs = length xs" and
    "limb_base * (nval qs + limb_base ^ length xs * unat h)
      = limb_base * (nval rs + nval xs * unat b + d)"
    using Cons.IH [OF q(1)] by (simp_all add: unat_high d_def)
  with t show ?case
    by (simp add: q(2) unat_narrow m_def [symmetric] algebra_simps)
qed simp

text \<open>One row of the product: the limbs above the row do not change.\<close>

lemma mp_mul_row:
  assumes "i + length xs < length result"
    and "mp_add_mul1 (limbs_at i (length xs) result) xs y = (part, r)"
  defines "result' \<equiv> (store_at i part result) [i + length xs := r]"
  shows "length result' = length result"
    and "nval (take (Suc (i + length xs)) result')
      = nval (take (i + length xs) result) + limb_base ^ i * (nval xs * unat y)"
proof -
  let ?n = "length xs"
  have len: "length (limbs_at i ?n result) = ?n"
    using assms(1) by simp
  note mul = mp_add_mul1_loop_correct [OF len assms(2) [unfolded mp_add_mul1_def]]
  then show "length result' = length result"
    using assms(1) by (simp add: result'_def)
  have "take (Suc (i + ?n)) result' = take i result @ part @ [r]"
    using assms(1) mul by (simp add: result'_def store_at_def list_update_append take_Suc_conv_app_nth)
  moreover have "take (i + ?n) result = take i result @ limbs_at i ?n result"
    by (simp add: limbs_at_def take_add)
  moreover have "limb_base ^ i * (nval part + limb_base ^ ?n * unat r)
      = limb_base ^ i * (nval (limbs_at i ?n result) + nval xs * unat y)"
    using mul by simp
  ultimately show "nval (take (Suc (i + ?n)) result')
      = nval (take (i + ?n) result) + limb_base ^ i * (nval xs * unat y)"
    using assms(1) mul by (simp add: nval_append algebra_simps)
qed

lemma mp_mul_basecase_loop_correct:
  assumes "length result = i + length op1 + length op2"
  shows "length (mp_mul_basecase_loop result op1 i op2) = length result"
    and "nval (mp_mul_basecase_loop result op1 i op2)
      = nval (take (i + length op1) result) + limb_base ^ i * (nval op1 * nval op2)"
proof -
  have "length (mp_mul_basecase_loop result op1 i op2) = length result \<and>
    nval (mp_mul_basecase_loop result op1 i op2)
      = nval (take (i + length op1) result) + limb_base ^ i * (nval op1 * nval op2)"
    using assms
  proof (induction op2 arbitrary: result i)
    case (Cons y ys)
    obtain part r where s: "mp_add_mul1 (limbs_at i (length op1) result) op1 y = (part, r)"
      by (cases "mp_add_mul1 (limbs_at i (length op1) result) op1 y")
    define result' where "result' = (store_at i part result) [i + length op1 := r]"
    have "i + length op1 < length result"
      using Cons.prems by simp
    note row = mp_mul_row [OF this s, folded result'_def]
    have "length result' = Suc i + length op1 + length ys"
      using row(1) Cons.prems by simp
    note Cons.IH [OF this]
    then show ?case
      using row by (simp add: s result'_def [symmetric] algebra_simps)
  qed simp
  then show "length (mp_mul_basecase_loop result op1 i op2) = length result"
    and "nval (mp_mul_basecase_loop result op1 i op2)
      = nval (take (i + length op1) result) + limb_base ^ i * (nval op1 * nval op2)"
    by simp_all
qed

lemma mp_mul_basecase_correct:
  assumes "length result = length op1 + length op2" and "op2 \<noteq> []"
  shows "length (mp_mul_basecase result op1 op2) = length result"
    and "nval (mp_mul_basecase result op1 op2) = nval op1 * nval op2"
proof -
  obtain y ys where op2: "op2 = y # ys"
    using assms(2) by (cases op2) auto
  obtain part r where s: "mp_mul1 op1 y 0 = (part, r)"
    by (cases "mp_mul1 op1 y 0")
  note mul = mp_mul1_correct [OF s]
  define result' where "result' = (store_at 0 part result) [length op1 := r]"
  have len: "length result' = 1 + length op1 + length ys"
    using mul assms(1) by (simp add: result'_def op2)
  have "take (Suc (length op1)) result' = part @ [r]"
    using mul assms(1) by (simp add: result'_def store_at_def list_update_append take_Suc_conv_app_nth op2)
  then have "nval (take (1 + length op1) result') = nval op1 * unat y"
    using mul by (simp add: nval_append)
  then show "length (mp_mul_basecase result op1 op2) = length result"
    and "nval (mp_mul_basecase result op1 op2) = nval op1 * nval op2"
    using mp_mul_basecase_loop_correct [OF len] len assms(1)
    by (simp_all add: mp_mul_basecase_def op2 s result'_def [symmetric] algebra_simps)
qed

section \<open>Shifts\<close>

lemma limb_base_split: "s \<le> 64 \<Longrightarrow> limb_base = 2 ^ (64 - s) * 2 ^ s"
  by (simp add: limb_base_def power_add [symmetric])

lemma limb_push_bit:
  assumes "s \<le> 64"
  shows "unat (push_bit s (x :: js_limb_t)) = (unat x mod 2 ^ (64 - s)) * 2 ^ s"
proof -
  have "unat (push_bit s x) = unat x * 2 ^ s mod (2 ^ (64 - s) * 2 ^ s)"
    by (simp only: unat_push_bit limb_base_split [OF assms, symmetric]) (simp add: limb_base_def)
  then show ?thesis
    by (simp only: mult_mod_left)
qed

lemma limb_split_shift:
  assumes "s \<le> 64"
  shows "unat (x :: js_limb_t) * 2 ^ s = unat (push_bit s x) + limb_base * unat (drop_bit (64 - s) x)"
proof -
  have "unat x * 2 ^ s = (unat x mod 2 ^ (64 - s) + 2 ^ (64 - s) * (unat x div 2 ^ (64 - s))) * 2 ^ s"
    by (simp only: mod_mult_div_eq)
  then show ?thesis
    by (simp only: limb_push_bit [OF assms] limb_base_split [OF assms] unat_drop_bit algebra_simps)
qed

lemma unat_push_or:
  assumes "unat (l :: js_limb_t) < 2 ^ s" and "s < 64"
  shows "unat (push_bit s x OR l) = unat (push_bit s x) + unat l"
proof -
  have "l OR push_bit s x = l + push_bit s x"
    using assms(1) by (rule or_disjoint)
  moreover have "unat (push_bit s x) + unat l < limb_base"
  proof -
    define q where "q = unat x mod 2 ^ (64 - s)"
    have q: "unat (push_bit s x) = 2 ^ s * q" and B: "limb_base = 2 ^ s * 2 ^ (64 - s)"
      using assms(2) limb_push_bit [of s x] limb_base_split [of s] by (simp_all add: q_def mult.commute)
    have "q < 2 ^ (64 - s)"
      by (simp add: q_def)
    then have "2 ^ s * Suc q \<le> (2 :: nat) ^ s * 2 ^ (64 - s)"
      by (intro mult_le_mono2) simp
    then show ?thesis
      using assms(1) q B by simp
  qed
  ultimately show ?thesis
    by (simp add: or.commute [of _ l] limb_add add.commute)
qed

lemma mp_shl_loop_correct:
  assumes "mp_shl_loop xs s l = (res, h)" and "unat l < 2 ^ s" and "s < 64"
  shows "length res = length xs \<and> nval res + limb_base ^ length xs * unat h = nval xs * 2 ^ s + unat l
    \<and> unat h < 2 ^ s"
  using assms
proof (induction xs arbitrary: l res)
  case (Cons v xs)
  define l' where "l' = drop_bit (64 - s) v"
  obtain rs where r: "mp_shl_loop xs s l' = (rs, h)" "res = (push_bit s v OR l) # rs"
    using Cons.prems by (auto simp: l'_def Let_def split: prod.splits)
  have "unat v < 2 ^ (64 - s) * 2 ^ s"
    using unat_less [of v] Cons.prems(3) by (simp add: power_add [symmetric])
  then have "unat l' < 2 ^ s"
    by (simp add: l'_def unat_drop_bit less_mult_imp_div_less mult.commute)
  note Cons.IH [OF r(1) this Cons.prems(3)]
  then have "length rs = length xs" "unat h < 2 ^ s" and
    "limb_base * (nval rs + limb_base ^ length xs * unat h) = limb_base * (nval xs * 2 ^ s + unat l')"
    by simp_all
  moreover have "unat v * 2 ^ s = unat (push_bit s v) + limb_base * unat l'"
    using limb_split_shift [of s v] Cons.prems(3) by (simp add: l'_def)
  ultimately show ?case
    using unat_push_or [OF Cons.prems(2,3), of v] by (simp add: r(2) algebra_simps)
qed simp

lemma mp_shl_correct:
  assumes "mp_shl xs s = (res, h)" and "s < 64"
  shows "length res = length xs" and "nval res + limb_base ^ length xs * unat h = nval xs * 2 ^ s"
    and "unat h < 2 ^ s"
  using mp_shl_loop_correct [of xs s 0 res h] assms by (simp_all add: mp_shl_def)

text \<open>
  The right shift reads the array with a limb \<open>high\<close> above it; the lowest \<open>s\<close> bits are returned.
  With \<open>low\<close> the lowest limb of that longer array, the result is the quotient by \<open>2 ^ s\<close>, except that
  the bits of \<open>high\<close> above position \<open>s\<close> are lost.
\<close>

lemma mp_shr_loop_correct:
  assumes "mp_shr_loop xs s high = (res, l)" and "0 < s" and "s < 64"
  shows "length res = length xs \<and> nval res
      = (nval xs + limb_base ^ length xs * (unat high mod 2 ^ s)) div 2 ^ s \<and> l = hd (xs @ [high])"
  using assms
proof (induction xs arbitrary: l res)
  case (Cons a xs)
  obtain rs k where r: "mp_shr_loop xs s high = (rs, k)"
    by (cases "mp_shr_loop xs s high")
  then have res: "res = (drop_bit s a OR push_bit (64 - s) k) # rs" "l = a"
    using Cons.prems by auto
  define v where "v = nval xs + limb_base ^ length xs * (unat high mod 2 ^ s)"
  have IH: "length rs = length xs" "nval rs = v div 2 ^ s" "k = hd (xs @ [high])"
    using Cons.IH [OF r Cons.prems(2,3)] by (simp_all add: v_def)
  have B: "limb_base = 2 ^ (64 - s) * 2 ^ s"
    using limb_base_split [of s] Cons.prems(3) by simp
  have low: "unat k mod 2 ^ s = v mod 2 ^ s"
  proof (cases xs)
    case (Cons y ys)
    have "limb_base * z mod 2 ^ s = 0" for z
      by (simp add: B mult.assoc mult.commute [of "2 ^ s"])
    moreover have "v = unat y + limb_base * (nval ys + limb_base ^ length ys * (unat high mod 2 ^ s))"
      by (simp add: v_def Cons algebra_simps)
    ultimately show ?thesis
      using IH(3) by (metis Cons add.right_neutral append_Cons list.sel(1) mod_add_right_eq)
  qed (simp add: v_def IH(3))
  have "unat (drop_bit s a) < 2 ^ (64 - s)"
    using unat_limb_less [of a] by (simp add: unat_drop_bit B less_mult_imp_div_less)
  then have "unat (push_bit (64 - s) k OR drop_bit s a) = unat (push_bit (64 - s) k) + unat (drop_bit s a)"
    by (rule unat_push_or) (use Cons.prems in simp)
  moreover have "unat (push_bit (64 - s) k) = (unat k mod 2 ^ s) * 2 ^ (64 - s)"
    using limb_push_bit [of "64 - s" k] Cons.prems(3) by simp
  ultimately have hd: "unat (drop_bit s a OR push_bit (64 - s) k) = (v mod 2 ^ s) * 2 ^ (64 - s) + unat a div 2 ^ s"
    by (simp add: or.commute unat_drop_bit low)
  have "(unat a + limb_base * v) div 2 ^ s = unat a div 2 ^ s + 2 ^ (64 - s) * v"
    by (simp add: B mult.assoc mult.left_commute)
  also have "2 ^ (64 - s) * v = 2 ^ (64 - s) * (v mod 2 ^ s) + limb_base * (v div 2 ^ s)"
    by (subst (1) div_mult_mod_eq [of v "2 ^ s", symmetric]) (simp only: B algebra_simps)
  finally have "(unat a + limb_base * v) div 2 ^ s = nval res"
    by (simp add: res hd IH(2) mult.commute)
  then show ?case
    using IH(1) by (simp add: res v_def algebra_simps)
qed simp

section \<open>Division by one limb\<close>

lemma mp_div1_step:
  fixes b :: js_limb_t
  assumes "unat r < unat b"
  shows "unat (ucast (dlimb r a div ucast b) :: js_limb_t) = (unat r * limb_base + unat a) div unat b"
    and "unat (ucast (dlimb r a mod ucast b) :: js_limb_t) = (unat r * limb_base + unat a) mod unat b"
proof -
  have "unat r * limb_base + unat a < Suc (unat r) * limb_base"
    by simp
  also have "\<dots> \<le> unat b * limb_base"
    using assms by (intro mult_le_mono1) simp
  finally have "(unat r * limb_base + unat a) div unat b < limb_base"
    by (simp add: less_mult_imp_div_less mult.commute)
  then show "unat (ucast (dlimb r a div ucast b) :: js_limb_t) = (unat r * limb_base + unat a) div unat b"
    by (simp add: unat_narrow unat_div unat_dlimb)
  have "(unat r * limb_base + unat a) mod unat b < limb_base"
  proof -
    have "(unat r * limb_base + unat a) mod unat b < unat b"
      using assms by (intro mod_less_divisor) linarith
    then show ?thesis
      using unat_limb_less [of b] by (rule less_trans)
  qed
  then show "unat (ucast (dlimb r a mod ucast b) :: js_limb_t) = (unat r * limb_base + unat a) mod unat b"
    by (simp add: unat_narrow unat_mod unat_dlimb)
qed

text \<open>Both division loops satisfy the same equation, from the step they take for one limb.\<close>

lemma div_rows:
  assumes "q * b + r = r0 * limb_base + unat a" and "nval qs * b + r0 = nval xs + limb_base ^ n * r1"
  shows "(q + limb_base * nval qs) * b + r = unat a + limb_base * nval xs + limb_base ^ Suc n * (r1 :: nat)"
proof -
  have "limb_base * (nval qs * b + r0) = limb_base * (nval xs + limb_base ^ n * r1)"
    using assms(2) by simp
  with assms(1) show ?thesis
    by (simp add: algebra_simps)
qed

lemma mp_div1_correct:
  assumes "unat r < unat b" and "mp_div1 xs b r = (qs, m)"
  shows "length qs = length xs \<and> nval qs * unat b + unat m = nval xs + limb_base ^ length xs * unat r
    \<and> unat m < unat b"
  using assms(2)
proof (induction xs arbitrary: qs m)
  case (Cons a xs)
  obtain qs1 m1 where s: "mp_div1 xs b r = (qs1, m1)"
    by (cases "mp_div1 xs b r")
  then have q: "qs = ucast (dlimb m1 a div ucast b) # qs1" and m: "m = ucast (dlimb m1 a mod ucast b)"
    using Cons.prems by (auto simp: Let_def)
  note IH = Cons.IH [OF s]
  then have lt: "unat m1 < unat b" by blast
  note step = mp_div1_step [OF lt, of a]
  have "unat (hd qs) * unat b + unat m = unat m1 * limb_base + unat a"
    by (simp add: q m step)
  then have "(unat (hd qs) + limb_base * nval qs1) * unat b + unat m
      = unat a + limb_base * nval xs + limb_base ^ Suc (length xs) * unat r"
    by (rule div_rows) (use IH in simp)
  then show ?case
    using IH lt step(2) by (simp add: q m)
qed (use assms(1) in auto)

section \<open>Multiply and subtract\<close>

lemma mp_sub_mul1_step:
  fixes r a b l :: js_limb_t
  defines "t \<equiv> (ucast r - ucast a * ucast b - ucast l :: js_dlimb_t)"
  shows "unat (ucast t :: js_limb_t) + unat a * unat b + unat l
    = unat r + limb_base * unat (ucast (- drop_bit 64 t) :: js_limb_t)"
proof -
  define z where "z = unat a * unat b + unat l"
  have "unat a * unat b + 2 * limb_base \<le> limb_base * limb_base + 1"
    by (rule limb_mult_le) simp_all
  then have z: "z + limb_base \<le> limb_base * limb_base"
    using unat_limb_less [of l] unfolding z_def by linarith
  have eq: "t = ucast r - (ucast a * ucast b + ucast l)"
    by (simp add: t_def)
  have u: "unat (ucast a * ucast b + ucast l :: js_dlimb_t) = z"
    unfolding z_def by (rule unat_mul_add)
  show ?thesis
  proof (cases "z \<le> unat r")
    case True
    then have "unat t = unat r - z"
      by (simp only: eq unat_minus u word_le_nat_alt unat_wide if_True)
    moreover from this have "unat t < limb_base"
      using unat_limb_less [of r] by linarith
    then have "drop_bit 64 t = 0" and "unat (ucast t :: js_limb_t) = unat t"
      by (simp_all add: word_unat_eq_iff unat_drop_bit unat_narrow limb_base_def)
    ultimately show ?thesis
      using True by (simp add: z_def)
  next
    case False
    then have "unat t = limb_base * limb_base + unat r - z"
      by (simp only: eq unat_minus u word_le_nat_alt unat_wide if_False dlimb_base)
    with False z have t: "unat t + z = limb_base * limb_base + unat r"
      by simp
    define h where "h = unat t div limb_base"
    define m where "m = unat t mod limb_base"
    have th: "m + limb_base * h = unat t"
      unfolding h_def m_def by (rule mod_mult_div_eq)
    have "limb_base * 1 \<le> unat t" and "unat t < limb_base * limb_base"
      using t z False unat_limb_less [of r] by linarith+
    then have h: "0 < h" "h < limb_base"
      by (auto simp: h_def div_greater_zero_iff less_mult_imp_div_less)
    then have "unat (drop_bit 64 t) = h"
      by (simp add: unat_drop_bit h_def limb_base_def)
    moreover have "h \<le> limb_base * limb_base"
      using h(2) limb_base_gt_1 by (meson le_square less_imp_le order_trans)
    moreover have "- drop_bit 64 t = 0 - drop_bit 64 t"
      by simp
    ultimately have "unat (- drop_bit 64 t) = limb_base * limb_base - h"
      using h(1) by (simp only: unat_minus word_le_nat_alt dlimb_base unat_0 le_zero_eq) auto
    also have "\<dots> = limb_base * (limb_base - 1) + (limb_base - h)"
      using h(2) limb_base_gt_1 by (simp add: diff_mult_distrib2 add.commute)
    finally have "unat (ucast (- drop_bit 64 t) :: js_limb_t) = (limb_base - h) mod limb_base"
      by (simp only: unat_narrow mod_mult_self4)
    then have "unat (ucast (- drop_bit 64 t) :: js_limb_t) = limb_base - h"
      using h by simp
    moreover have "limb_base * (limb_base - h) + limb_base * h = limb_base * limb_base"
      using h(2) by (simp add: add_mult_distrib2 [symmetric])
    ultimately show ?thesis
      using t th by (simp add: unat_narrow m_def z_def)
  qed
qed

lemma mp_sub_mul1_loop_correct:
  assumes "length rs = length xs" and "mp_sub_mul1_loop rs xs b l = (res, h)"
  shows "length res = length xs \<and>
    nval res + nval xs * unat b + unat l = nval rs + limb_base ^ length xs * unat h"
  using assms
proof (induction rs xs arbitrary: l res rule: list_induct2)
  case (Cons r rs a xs)
  define t where "t = (ucast r - ucast a * ucast b - ucast l :: js_dlimb_t)"
  define k where "k = (ucast (- drop_bit 64 t) :: js_limb_t)"
  obtain qs where q: "mp_sub_mul1_loop rs xs b k = (qs, h)" "res = ucast t # qs"
    using Cons.prems by (auto simp: t_def k_def Let_def split: prod.splits)
  have "unat (ucast t :: js_limb_t) + unat a * unat b + unat l = unat r + limb_base * unat k"
    unfolding t_def k_def by (rule mp_sub_mul1_step)
  moreover have "length qs = length xs" and
    "limb_base * (nval qs + nval xs * unat b + unat k) = limb_base * (nval rs + limb_base ^ length xs * unat h)"
    using Cons.IH [OF q(1)] by simp_all
  ultimately show ?case
    by (simp add: q(2) algebra_simps)
qed simp

section \<open>Leading zeros\<close>

lemma js_limb_clz_correct:
  assumes "a \<noteq> 0"
  shows "js_limb_clz a < 64"
    and "2 ^ 63 \<le> unat a * 2 ^ js_limb_clz a" and "unat a * 2 ^ js_limb_clz a < limb_base"
proof -
  let ?f = "floor_log2 (unat a)"
  have pos: "0 < unat a"
    using assms by (simp add: unat_gt_0)
  have "unat a < 2 ^ 64"
    using unat_less [of a] by simp
  then have f: "?f < 64"
    by (rule floor_log2_less [OF pos])
  then have e: "js_limb_clz a = 63 - ?f" "63 - ?f + ?f = 63" "Suc ?f + (63 - ?f) = 64"
    by (simp_all add: js_limb_clz_def clz64_def)
  then show "js_limb_clz a < 64" by simp
  have "2 ^ ?f * 2 ^ (63 - ?f) \<le> unat a * 2 ^ (63 - ?f)"
    by (rule mult_le_mono1) (rule floor_log2_bounds [OF pos])
  then show "2 ^ 63 \<le> unat a * 2 ^ js_limb_clz a"
    by (simp only: e power_add [symmetric] add.commute [of ?f])
  have "unat a * 2 ^ (63 - ?f) < 2 ^ Suc ?f * 2 ^ (63 - ?f)"
    using floor_log2_bounds(2) [OF pos] by (intro mult_strict_right_mono) simp_all
  then show "unat a * 2 ^ js_limb_clz a < limb_base"
    by (simp only: e power_add [symmetric] limb_base_def)
qed

end
