(* ===== verification/Limbs_Div.thy ===== *)
theory Limbs_Div
  imports Limbs
begin

text \<open>
  Long division of quickjs.c (\<open>mp_divnorm\<close>): the divisor is normalised so that its highest bit is set,
  each quotient limb is estimated from the two highest limbs of the current window (by a hardware
  division, or by a multiplication with a precomputed inverse, \<open>udiv1norm\<close>) and corrected by adding the
  divisor back. The correction loop has no bound in the source; it is a \<open>partial_function\<close> whose value
  \<open>None\<close> would mean that it never ends.
\<close>

unbundle bit_operations_syntax

section \<open>The functions\<close>

text \<open>The comparison loop of the first iteration, from the most significant limbs down.\<close>

fun mp_divnorm_first :: "js_limb_t list \<Rightarrow> js_limb_t list \<Rightarrow> js_limb_t" where
  "mp_divnorm_first (a # as) (b # bs) =
     (if a \<noteq> b then (if a < b then 0 else 1) else mp_divnorm_first as bs)"
| "mp_divnorm_first _ _ = 1"

text \<open>The loop on a negative remainder: \<open>w\<close> is the window \<open>taba + i\<close>, \<open>hi\<close> the limb above it.\<close>

partial_function (option) mp_divnorm_addback ::
  "js_limb_t list \<Rightarrow> js_limb_t list \<Rightarrow> js_limb_t \<Rightarrow> js_limb_t \<Rightarrow> (js_limb_t list \<times> js_limb_t \<times> js_limb_t) option" where
  "mp_divnorm_addback tabb w hi q =
     (let q = q - 1;
          (w, c) = mp_add w tabb 0
      in if c \<noteq> 0
         then (let hi = hi + 1
               in if hi = 0 then Some (w, hi, q) else mp_divnorm_addback tabb w hi q)
         else mp_divnorm_addback tabb w hi q)"

definition mp_divnorm_estimate :: "js_limb_t \<Rightarrow> js_limb_t \<Rightarrow> js_limb_t \<Rightarrow> js_limb_t \<Rightarrow> js_limb_t" where
  "mp_divnorm_estimate hi lo b1 b1_inv =
     (if hi \<ge> b1 then - 1
      else if b1_inv \<noteq> 0 then fst (udiv1norm hi lo b1 b1_inv)
      else ucast (dlimb hi lo div ucast b1))"

fun mp_divnorm_loop ::
  "js_limb_t list \<Rightarrow> js_limb_t \<Rightarrow> js_limb_t list \<Rightarrow> js_limb_t list \<Rightarrow> nat \<Rightarrow> (js_limb_t list \<times> js_limb_t list) option" where
  "mp_divnorm_loop tabb b1_inv tabq taba 0 = Some (tabq, taba)"
| "mp_divnorm_loop tabb b1_inv tabq taba (Suc i) =
     (let nb = length tabb;
          q = mp_divnorm_estimate (taba ! (i + nb)) (taba ! (i + nb - 1)) (last tabb) b1_inv;
          (w, r) = mp_sub_mul1 (limbs_at i nb taba) tabb q;
          v = taba ! (i + nb);
          a = v - r;
          c = limb_of_bool (a > v)
      in do {
        (w, a, q) \<leftarrow> if c \<noteq> 0 then mp_divnorm_addback tabb w a q else Some (w, a, q);
        mp_divnorm_loop tabb b1_inv (tabq [i := q]) ((store_at i w taba) [i + nb := a]) i
      })"

definition mp_divnorm ::
  "js_limb_t list \<Rightarrow> js_limb_t list \<Rightarrow> js_limb_t list \<Rightarrow> (js_limb_t list \<times> js_limb_t list) option" where
  "mp_divnorm tabq taba tabb =
     (let na = length taba;
          nb = length tabb;
          b1 = last tabb
      in if nb = 1
         then (let (part, r) = mp_div1norm taba b1 0
               in Some (store_at 0 part tabq, taba [0 := r]))
         else
           (let n = na - nb;
                b1_inv = (if n \<ge> UDIV1NORM_THRESHOLD then udiv1norm_init b1 else 0);
                q = mp_divnorm_first (rev (limbs_at n nb taba)) (rev tabb);
                tabq = tabq [n := q];
                taba = (if q \<noteq> 0 then store_at n (fst (mp_sub (limbs_at n nb taba) tabb 0)) taba else taba)
            in mp_divnorm_loop tabb b1_inv tabq taba n))"

section \<open>Division by multiplication with the inverse\<close>

text \<open>The quotient estimate of \<open>udiv1norm\<close> is the quotient or one less.\<close>

lemma udiv1norm_estimate:
  fixes B d m e a1 a0 k t :: int
  assumes inv: "(B + m) * d + e = B * B" and e: "0 \<le> e" "e \<le> d"
    and d: "d < B" "B \<le> 2 * d" and a1: "0 \<le> a1" "a1 < d" and a0: "0 \<le> a0" "a0 < B"
    and k: "k = (if B \<le> 2 * a0 then 1 else 0)"
    and t: "t = m * (a1 + k) + (a0 + k * (d - B))"
  defines "n \<equiv> a1 * B + a0"
  shows "0 \<le> n - (a1 + t div B) * d" and "n - (a1 + t div B) * d < 2 * d"
proof -
  define p where "p = t mod B"
  define Q where "Q = t div B"
  have B: "0 < B"
    using d a0 by linarith
  have p: "0 \<le> p" "p < B"
    using B by (simp_all add: p_def)
  have q: "B * Q = t - p"
    by (simp add: p_def Q_def minus_mod_eq_mult_div)
  have md: "m * d = B * B - e - B * d"
    using inv by (simp add: algebra_simps)
  have "B * (n - (a1 + Q) * d) = B * n - B * a1 * d - (B * (Q)) * d"
    by (simp add: algebra_simps)
  also have "\<dots> = B * n - B * a1 * d - (a1 + k) * (m * d) - (a0 + k * (d - B)) * d + p * d"
    unfolding q t by (simp add: algebra_simps)
  also have "\<dots> = (a1 + k) * e + (B - d) * (a0 - k * (B - d)) + p * d"
    by (simp only: md n_def) (simp add: algebra_simps)
  finally have main: "B * (n - (a1 + Q) * d) = (a1 + k) * e + (B - d) * (a0 - k * (B - d)) + p * d" .
  have k01: "0 \<le> k" "k \<le> 1"
    using k by simp_all
  have adj: "0 \<le> a0 - k * (B - d)" "a0 - k * (B - d) \<le> d"
    using k a0 d by (auto split: if_splits)
  have lo1: "0 \<le> (a1 + k) * e" and hi1: "(a1 + k) * e \<le> d * d"
    using a1 k01 e by (auto intro!: mult_mono)
  have lo2: "0 \<le> (B - d) * (a0 - k * (B - d))" and hi2: "(B - d) * (a0 - k * (B - d)) \<le> (B - d) * d"
    using adj d by (auto intro!: mult_left_mono)
  have dpos: "0 < d" using a1 by linarith
  have lo3: "0 \<le> p * d" and hi3: "p * d < B * d"
    using p dpos by (auto intro!: mult_strict_right_mono)
  have "0 \<le> B * (n - (a1 + Q) * d)"
    using main lo1 lo2 lo3 by linarith
  then show "0 \<le> n - (a1 + t div B) * d"
    using B by (simp add: Q_def zero_le_mult_iff)
  have "d * d + (B - d) * d + B * d = B * (2 * d)"
    by (simp add: algebra_simps)
  then have "B * (n - (a1 + Q) * d) < B * (2 * d)"
    using main hi1 hi2 hi3 by linarith
  then show "n - (a1 + t div B) * d < 2 * d"
    using B by (simp add: Q_def)
qed

lemma udiv1norm_estimate_nat:
  fixes B d m e a1 a0 k t adj :: nat
  assumes inv: "(B + m) * d + e = B * B" and e: "e \<le> d"
    and d: "d < B" "B \<le> 2 * d" and a1: "a1 < d" and a0: "a0 < B"
    and k: "k = (if B \<le> 2 * a0 then 1 else 0)"
    and t: "t = m * (a1 + k) + adj" and adj: "adj + k * B = a0 + k * d"
  shows "(a1 + t div B) * d \<le> a1 * B + a0" and "a1 * B + a0 < (a1 + t div B) * d + 2 * d"
proof -
  have i: "(int B + int m) * int d + int e = int B * int B"
    using inv by (metis of_nat_add of_nat_mult)
  have ik: "int k = (if int B \<le> 2 * int a0 then 1 else 0)"
    using k by auto
  have it: "int t = int m * (int a1 + int k) + (int a0 + int k * (int d - int B))"
    using t arg_cong [OF adj, of int] by (simp add: algebra_simps)
  have "0 \<le> int a1 * int B + int a0 - (int a1 + int t div int B) * int d"
    and "int a1 * int B + int a0 - (int a1 + int t div int B) * int d < 2 * int d"
    using udiv1norm_estimate [OF i _ _ _ _ _ _ _ _ ik it] e d a1 a0 by simp_all
  then have "int ((a1 + t div B) * d) \<le> int (a1 * B + a0)"
    and "int (a1 * B + a0) < int ((a1 + t div B) * d + 2 * d)"
    by (simp_all add: zdiv_int)
  then show "(a1 + t div B) * d \<le> a1 * B + a0" and "a1 * B + a0 < (a1 + t div B) * d + 2 * d"
    by linarith+
qed

lemma udiv1norm_init_correct:
  assumes "2 ^ 63 \<le> unat d"
  obtains e where "(limb_base + unat (udiv1norm_init d)) * unat d + e = limb_base * limb_base" and "e \<le> unat d"
proof -
  define N where "N = (limb_base - 1 - unat d) * limb_base + (limb_base - 1)"
  have dB: "unat d < limb_base" "limb_base \<le> 2 * unat d"
    using assms by (simp_all add: limb_base_def [symmetric]) (simp add: limb_base_def)
  have dpos: "0 < unat d"
    using dB limb_base_gt_1 by linarith
  have N: "unat d * limb_base + N + 1 = limb_base * limb_base"
  proof -
    have "unat d + (limb_base - 1 - unat d) + 1 = limb_base"
      using dB(1) by linarith
    then have "(unat d + (limb_base - 1 - unat d) + 1) * limb_base = limb_base * limb_base"
      by (rule arg_cong)
    then show ?thesis
      using limb_base_gt_1 by (simp add: N_def algebra_simps)
  qed
  have "- d - 1 = NOT d"
    by (simp add: not_eq_complement)
  moreover have "unat (- 1 :: js_limb_t) = limb_base - 1"
    by (simp add: unsigned_minus_1_eq_mask mask_eq_exp_minus_1 limb_base_def)
  ultimately have "unat (dlimb (- d - 1) (- 1)) = N"
    by (simp only: unat_dlimb limb_not N_def)
  then have "unat (udiv1norm_init d) = N div unat d mod limb_base"
    by (simp add: udiv1norm_init_def unat_narrow unat_div)
  moreover have "N div unat d < limb_base"
  proof (rule less_mult_imp_div_less)
    have "limb_base * limb_base \<le> 2 * unat d * limb_base"
      using dB(2) by (rule mult_le_mono1)
    then show "N < limb_base * unat d"
      using N by (simp only: mult.assoc mult.commute [of "unat d"])
  qed
  ultimately have m: "unat (udiv1norm_init d) = N div unat d"
    by simp
  have "N mod unat d < unat d"
    using dpos by simp
  moreover have "(limb_base + N div unat d) * unat d + Suc (N mod unat d) = limb_base * limb_base"
    using N by (simp add: algebra_simps)
  ultimately show thesis
    using that [of "Suc (N mod unat d)"] m by simp
qed

text \<open>The final correction of \<open>udiv1norm\<close>, from the estimate with remainder \<open>r0 < 2 * d\<close>.\<close>

lemma udiv1norm_finish:
  fixes q d :: js_limb_t and a :: js_dlimb_t
  assumes n: "unat a = unat q * unat d + r0" and r0: "r0 < 2 * unat d" and d: "2 ^ 63 \<le> unat d"
    and n_less: "unat a < unat d * limb_base"
  defines "a' \<equiv> a - ucast q * ucast d - ucast d"
  defines "ah \<equiv> ucast (drop_bit 64 a') :: js_limb_t"
  shows "unat (q + (1 + ah)) = unat a div unat d" and "unat (ucast a' + (ah AND d)) = unat a mod unat d"
proof -
  have dB: "unat d < limb_base" "0 < unat d"
    using d by auto
  have "unat q * unat d < limb_base * limb_base"
    by (intro mult_strict_mono) auto
  then have "unat q * unat d < 2 ^ LENGTH(128)"
    by (simp only: dlimb_base)
  then have "unat (ucast q * ucast d :: js_dlimb_t) = unat q * unat d"
    by (simp only: unat_mult unat_wide mod_less)
  then have b: "unat (a - ucast q * ucast d) = r0"
    using n by (simp add: unat_minus word_le_nat_alt)
  show "unat (q + (1 + ah)) = unat a div unat d" "unat (ucast a' + (ah AND d)) = unat a mod unat d"
  proof (atomize (full), cases "unat d \<le> r0")
    case True
    then have a': "unat a' = r0 - unat d"
      by (simp only: a'_def unat_minus [of "a - _"] b unat_wide word_le_nat_alt if_True)
    then have lt: "unat a' < unat d" "unat a' < limb_base"
      using r0 dB(1) by linarith+
    then have ah: "ah = 0"
      unfolding ah_def by (simp add: word_unat_eq_iff unat_high)
    have qr: "unat a = Suc (unat q) * unat d + (r0 - unat d)"
      using n True by simp
    then have "Suc (unat q) * unat d < limb_base * unat d"
      using n_less by (simp add: mult.commute [of limb_base])
    then have "Suc (unat q) < limb_base"
      by (simp only: mult_less_cancel2)
    then have "unat (q + 1) = Suc (unat q)"
      by (simp add: limb_add)
    moreover have "(Suc (unat q) * unat d + (r0 - unat d)) div unat d = Suc (unat q)"
      "(Suc (unat q) * unat d + (r0 - unat d)) mod unat d = r0 - unat d"
      using lt(1) a' by (simp_all only: div_mult_self3 mod_mult_self3 div_less mod_less)
    ultimately show "unat (q + (1 + ah)) = unat a div unat d \<and> unat (ucast a' + (ah AND d)) = unat a mod unat d"
      using lt(2) by (simp only: qr ah) (simp add: unat_narrow a')
  next
    case False
    then have a': "unat a' = limb_base * limb_base + r0 - unat d"
      by (simp only: a'_def unat_minus [of "a - _"] b unat_wide word_le_nat_alt if_False dlimb_base)
    also have "\<dots> = (limb_base - 1) * limb_base + (limb_base + r0 - unat d)"
    proof -
      have "(limb_base - 1) * limb_base + limb_base = limb_base * limb_base"
        using mult_Suc [of "limb_base - 1" limb_base] by simp
      then show ?thesis
        using dB(1) by linarith
    qed
    finally have "unat a' = (limb_base - 1) * limb_base + (limb_base + r0 - unat d)" .
    moreover have "limb_base + r0 - unat d < limb_base"
      using False dB(1) by linarith
    ultimately have "unat a' div limb_base = limb_base - 1" "unat a' mod limb_base = limb_base + r0 - unat d"
      by simp_all
    then have "unat ah = limb_base - 1" and low: "unat (ucast a' :: js_limb_t) = limb_base + r0 - unat d"
      unfolding ah_def by (simp_all only: unat_high) (simp only: unat_narrow)
    moreover have "unat (- 1 :: js_limb_t) = limb_base - 1"
      by (simp add: unsigned_minus_1_eq_mask mask_eq_exp_minus_1 limb_base_def)
    ultimately have ah: "ah = - 1"
      by (metis word_unat_eq_iff)
    have "limb_base + r0 - unat d + unat d = limb_base + r0"
      using dB(1) by linarith
    then have "unat (ucast a' + d) = (limb_base + r0) mod limb_base"
      by (simp only: limb_add low)
    then have "unat (ucast a' + d) = r0"
      using False dB(1) by simp
    then show "unat (q + (1 + ah)) = unat a div unat d \<and> unat (ucast a' + (ah AND d)) = unat a mod unat d"
      using False by (simp add: ah n)
  qed
qed

lemma udiv1norm_correct:
  assumes d: "2 ^ 63 \<le> unat d" and a1: "unat a1 < unat d"
    and eq: "udiv1norm a1 a0 d (udiv1norm_init d) = (q, r)"
  shows "unat q = (unat a1 * limb_base + unat a0) div unat d"
    and "unat r = (unat a1 * limb_base + unat a0) mod unat d"
proof -
  let ?m = "udiv1norm_init d"
  define k where "k = (of_bool (bit a0 63) :: nat)"
  define n1m where "n1m = (if bit a0 63 then - 1 else 0 :: js_limb_t)"
  define n_adj where "n_adj = a0 + (n1m AND d)"
  define a where "a = (ucast ?m * ucast (a1 - n1m) + ucast n_adj :: js_dlimb_t)"
  define q0 where "q0 = ucast (drop_bit 64 a) + a1"
  obtain e where e: "(limb_base + unat ?m) * unat d + e = limb_base * limb_base" "e \<le> unat d"
    using udiv1norm_init_correct [OF d] .
  have dB: "unat d < limb_base" "limb_base \<le> 2 * unat d"
    using d by (simp_all add: limb_base_def [symmetric]) (simp add: limb_base_def)
  have "2 ^ 63 \<le> unat a0 \<longleftrightarrow> limb_base \<le> 2 * unat a0"
    by (simp add: limb_base_def)
  then have kk: "k = (if limb_base \<le> 2 * unat a0 then 1 else 0)"
    by (simp add: k_def limb_msb)
  have "Suc (unat a1) < limb_base"
    using a1 dB(1) by linarith
  then have "unat (a1 - n1m) = unat a1 + k"
    by (simp add: n1m_def k_def limb_add)
  moreover have "unat a = unat ?m * unat (a1 - n1m) + unat n_adj"
    unfolding a_def by (rule unat_mul_add)
  ultimately have t: "unat a = unat ?m * (unat a1 + k) + unat n_adj"
    by simp
  have adj: "unat n_adj + k * limb_base = unat a0 + k * unat d"
  proof (cases "bit a0 63")
    case True
    then have "limb_base \<le> unat a0 + unat d"
      using kk dB(2) by (simp add: k_def split: if_splits)
    moreover have "unat a0 < limb_base" by simp
    ultimately have "(unat a0 + unat d) mod limb_base = unat a0 + unat d - limb_base"
      using dB(1) by (simp only: le_mod_geq) (rule mod_less, linarith)
    then show ?thesis
      using True \<open>limb_base \<le> unat a0 + unat d\<close> by (simp add: n_adj_def n1m_def limb_add k_def)
  qed (simp add: n_adj_def n1m_def k_def)
  define Q where "Q = unat a1 + unat a div limb_base"
  define N where "N = unat a1 * limb_base + unat a0"
  have est: "Q * unat d \<le> N" "N < Q * unat d + 2 * unat d"
    unfolding Q_def N_def
    using udiv1norm_estimate_nat [OF e dB a1 _ kk t adj] by simp_all
  have N_less: "N < unat d * limb_base"
  proof -
    have "N < Suc (unat a1) * limb_base"
      by (simp add: N_def)
    also have "\<dots> \<le> unat d * limb_base"
      using a1 by (intro mult_le_mono1) simp
    finally show ?thesis .
  qed
  then have "Q * unat d < limb_base * unat d"
    using est(1) by (simp only: mult.commute [of limb_base])
  then have "Q < limb_base"
    by (simp only: mult_less_cancel2)
  then have q0: "unat q0 = Q"
    by (simp add: q0_def limb_add unat_high Q_def add.commute)
  have "unat (dlimb a1 a0) = unat q0 * unat d + (N - Q * unat d)"
    using est(1) by (simp add: unat_dlimb q0 N_def)
  moreover have "N - Q * unat d < 2 * unat d"
    using est by linarith
  moreover have "unat (dlimb a1 a0) < unat d * limb_base"
    using N_less by (simp add: unat_dlimb N_def)
  ultimately have "unat (q0 + (1 + (ucast (drop_bit 64 (dlimb a1 a0 - ucast q0 * ucast d - ucast d)) :: js_limb_t)))
      = unat (dlimb a1 a0) div unat d"
    and "unat (ucast (dlimb a1 a0 - ucast q0 * ucast d - ucast d)
        + ((ucast (drop_bit 64 (dlimb a1 a0 - ucast q0 * ucast d - ucast d)) :: js_limb_t) AND d))
      = unat (dlimb a1 a0) mod unat d"
    using udiv1norm_finish [OF _ _ d] by blast+
  moreover have "q = q0 + (1 + ucast (drop_bit 64 (dlimb a1 a0 - ucast q0 * ucast d - ucast d)))"
    and "r = ucast (dlimb a1 a0 - ucast q0 * ucast d - ucast d)
        + (ucast (drop_bit 64 (dlimb a1 a0 - ucast q0 * ucast d - ucast d)) AND d)"
    using eq unfolding udiv1norm_def Let_def limb_sign_fill q0_def a_def n_adj_def n1m_def by blast+
  ultimately show "unat q = (unat a1 * limb_base + unat a0) div unat d"
    and "unat r = (unat a1 * limb_base + unat a0) mod unat d"
    by (simp_all only: unat_dlimb)
qed

lemma mp_div1norm_loop_correct:
  assumes b: "2 ^ 63 \<le> unat b" and r: "unat r < unat b" and "mp_div1norm_loop xs b (udiv1norm_init b) r = (qs, m)"
  shows "length qs = length xs \<and> nval qs * unat b + unat m = nval xs + limb_base ^ length xs * unat r
    \<and> unat m < unat b"
  using assms(3)
proof (induction xs arbitrary: qs m)
  case (Cons a xs)
  obtain qs1 m1 where s: "mp_div1norm_loop xs b (udiv1norm_init b) r = (qs1, m1)"
    by (cases "mp_div1norm_loop xs b (udiv1norm_init b) r")
  obtain q where q: "udiv1norm m1 a b (udiv1norm_init b) = (q, m)" "qs = q # qs1"
    using Cons.prems s by (auto split: prod.splits)
  note IH = Cons.IH [OF s]
  then have lt: "unat m1 < unat b" by blast
  note step = udiv1norm_correct [OF b lt q(1)]
  have "unat q * unat b + unat m = unat m1 * limb_base + unat a"
    by (simp add: step)
  then have "(unat q + limb_base * nval qs1) * unat b + unat m
      = unat a + limb_base * nval xs + limb_base ^ Suc (length xs) * unat r"
    by (rule div_rows) (use IH in simp)
  then show ?case
    using IH lt step(2) by (simp add: q(2))
qed (use r in auto)

text \<open>The two loops of \<open>mp_div1norm\<close> compute the same quotient and remainder.\<close>

lemma mp_div1norm_correct:
  assumes "2 ^ 63 \<le> unat b" and "unat r < unat b" and "mp_div1norm xs b r = (qs, m)"
  shows "length qs = length xs" and "nval qs * unat b + unat m = nval xs + limb_base ^ length xs * unat r"
    and "unat m < unat b"
  using mp_div1norm_loop_correct [OF assms(1,2), of xs qs m] mp_div1_correct [OF assms(2), of xs qs m] assms(3)
  by (auto simp: mp_div1norm_def split: if_splits)

section \<open>Comparison of limb arrays\<close>

text \<open>Arrays of equal length compare like their values, by the most significant limb that differs.\<close>

lemma nval_less_by_top:
  assumes "length xs = length ys" and "unat x < unat y"
  shows "nval (xs @ [x]) < nval (ys @ [y])"
proof -
  have "nval (xs @ [x]) < limb_base ^ length xs + limb_base ^ length xs * unat x"
    using nval_less [of xs] by (simp add: nval_append)
  also have "\<dots> = limb_base ^ length xs * Suc (unat x)"
    by simp
  also have "\<dots> \<le> limb_base ^ length xs * unat y"
    using assms(2) by (intro mult_le_mono2) simp
  also have "\<dots> \<le> nval (ys @ [y])"
    using assms(1) by (simp add: nval_append)
  finally show ?thesis .
qed

lemma mp_divnorm_first_correct:
  assumes "length xs = length ys"
  shows "mp_divnorm_first (rev xs) (rev ys) = limb_of_bool (nval ys \<le> nval xs)"
  using assms
proof (induction xs arbitrary: ys rule: rev_induct)
  case (snoc x xs)
  then obtain y ys' where ys: "ys = ys' @ [y]" "length xs = length ys'"
    by (cases ys rule: rev_cases) auto
  show ?case
  proof (cases "x = y")
    case True
    then show ?thesis
      using snoc.IH [OF ys(2)] by (simp add: ys nval_append)
  next
    case False
    then have "unat x < unat y \<or> unat y < unat x"
      by (metis nat_neq_iff word_unat_eq_iff)
    then show ?thesis
      using nval_less_by_top [OF ys(2), of x y] nval_less_by_top [OF ys(2) [symmetric], of y x] False
      by (auto simp: ys word_less_nat_alt limb_of_bool_def)
  qed
qed (simp add: limb_of_bool_def)

section \<open>The correction loop\<close>

text \<open>
  Adding the divisor back ends as soon as the window, a number below zero in two's complement, becomes
  non-negative: \<open>y\<close> is the distance of the window from zero.
\<close>

lemma mp_divnorm_addback_correct:
  assumes "length w = length tabb" and "0 < nval tabb" and "0 < y"
    and "nval w + limb_base ^ length tabb * unat hi + y = limb_base ^ Suc (length tabb)"
  shows "\<exists>w' k. mp_divnorm_addback tabb w hi q = Some (w', 0, q - of_nat k) \<and> length w' = length tabb
    \<and> nval w' + y = k * nval tabb \<and> nval w' < nval tabb"
  using assms
proof (induction y arbitrary: w hi q rule: less_induct)
  case (less y)
  let ?P = "limb_base ^ length tabb"
  obtain w1 c where s: "mp_add w tabb 0 = (w1, c)"
    by (cases "mp_add w tabb 0")
  have "(0 :: js_limb_t) = limb_of_bool False"
    by (simp add: limb_of_bool_def)
  from mp_add_correct [OF less.prems(1) s this]
  obtain b where a: "length w1 = length tabb" "nval w1 + ?P * unat c = nval w + nval tabb" "c = limb_of_bool b"
    using less.prems(1) by auto
  have w1: "nval w1 < ?P"
    using nval_less [of w1] a(1) by simp
  have c1: "c \<noteq> 0 \<longleftrightarrow> b" "unat c = of_bool b"
    by (simp_all add: a(3))
  define hi1 where "hi1 = (if b then hi + 1 else hi)"
  have hiB: "unat hi < limb_base" by simp
  have Pp: "0 < ?P" by simp
  have unf: "mp_divnorm_addback tabb w hi q =
    (if b \<and> hi1 = 0 then Some (w1, 0, q - 1) else mp_divnorm_addback tabb w1 hi1 (q - 1))"
    by (subst mp_divnorm_addback.simps) (simp add: s c1 hi1_def Let_def)
  have total: "nval w1 + ?P * (unat hi + of_bool b) + y = limb_base * ?P + nval tabb"
    using less.prems(4) a(2) c1(2) by (simp add: algebra_simps)
  show ?case
  proof (cases "y \<le> nval tabb")
    case True
    have "limb_base * ?P \<le> nval w1 + ?P * (unat hi + of_bool b)"
      using total True by linarith
    then have "?P * limb_base < ?P * Suc (unat hi + of_bool b)"
      using w1 by (simp add: mult.commute)
    then have "limb_base < Suc (unat hi + of_bool b)"
      by (simp only: mult_less_cancel1)
    then have bt: "limb_base \<le> unat hi + of_bool b"
      by linarith
    have b: "b"
    proof (rule ccontr)
      assume "\<not> b"
      with bt have "limb_base \<le> unat hi"
        by (simp only: of_bool_eq)
      with hiB show False by linarith
    qed
    with bt hiB have top: "Suc (unat hi) = limb_base"
      by (simp only: of_bool_eq)
    then have "hi1 = 0"
      using b by (simp add: hi1_def word_unat_eq_iff limb_add)
    moreover have "nval w1 + y = nval tabb"
      using total b top by (simp add: algebra_simps)
    moreover have "nval w1 < nval tabb"
      using \<open>nval w1 + y = nval tabb\<close> less.prems(3) by linarith
    ultimately show ?thesis
      using unf b a(1) by (intro exI [of _ w1] exI [of _ 1]) simp
  next
    case False
    then have lt: "nval w1 + ?P * (unat hi + of_bool b) < limb_base * ?P"
      using total by linarith
    then have "?P * (unat hi + of_bool b) < ?P * limb_base"
      by (simp only: mult.commute [of limb_base])
    then have top: "unat hi + of_bool b < limb_base"
      by (simp only: mult_less_cancel1)
    then have hi1: "unat hi1 = unat hi + of_bool b"
      by (cases b) (simp_all add: hi1_def limb_add)
    then have "\<not> (b \<and> hi1 = 0)"
      by auto
    then have rec: "mp_divnorm_addback tabb w hi q = mp_divnorm_addback tabb w1 hi1 (q - 1)"
      by (simp only: unf if_False)
    have "nval w1 + ?P * unat hi1 + (y - nval tabb) = limb_base ^ Suc (length tabb)"
      using total False hi1 by simp
    then obtain w' k where IH: "mp_divnorm_addback tabb w1 hi1 (q - 1) = Some (w', 0, q - 1 - of_nat k)"
      "length w' = length tabb" "nval w' + (y - nval tabb) = k * nval tabb" "nval w' < nval tabb"
      using less.IH [of "y - nval tabb" w1 hi1 "q - 1"] less.prems(2) False a(1) by auto
    then show ?thesis
      using rec False by (intro exI [of _ w'] exI [of _ "Suc k"]) (simp add: algebra_simps)
  qed
qed

section \<open>One quotient limb\<close>

definition normal_divisor :: "js_limb_t list \<Rightarrow> bool" where
  "normal_divisor tabb \<longleftrightarrow> tabb \<noteq> [] \<and> 2 ^ 63 \<le> unat (last tabb)"

lemma nval_butlast_last:
  assumes "xs \<noteq> []"
  shows "nval xs = nval (butlast xs) + limb_base ^ (length xs - 1) * unat (last xs)"
  using nval_append [of "butlast xs" "[last xs]"] assms by simp

lemma normal_divisor_pos: "normal_divisor tabb \<Longrightarrow> 0 < nval tabb"
  by (auto simp: normal_divisor_def nval_butlast_last)

lemma mp_divnorm_estimate_upper:
  assumes b: "normal_divisor tabb" and w: "length w = length tabb"
    and inv: "b1_inv = 0 \<or> b1_inv = udiv1norm_init (last tabb)"
    and V: "nval w + limb_base ^ length tabb * unat hi < limb_base * nval tabb"
  shows "(nval w + limb_base ^ length tabb * unat hi) div nval tabb
    \<le> unat (mp_divnorm_estimate hi (last w) (last tabb) b1_inv)"
proof (cases "last tabb \<le> hi")
  case True
  have "(nval w + limb_base ^ length tabb * unat hi) div nval tabb < limb_base"
    using V by (rule less_mult_imp_div_less)
  moreover have "unat (- 1 :: js_limb_t) = limb_base - 1"
    by (simp add: unsigned_minus_1_eq_mask mask_eq_exp_minus_1 limb_base_def)
  ultimately show ?thesis
    using True by (simp only: mp_divnorm_estimate_def if_True)
next
  case False
  let ?P = "limb_base ^ (length tabb - 1)"
  have ne: "w \<noteq> []" "tabb \<noteq> []" and b1: "2 ^ 63 \<le> unat (last tabb)"
    using b w by (auto simp: normal_divisor_def)
  have hi: "unat hi < unat (last tabb)"
    using False by (simp add: word_le_nat_alt)
  define T where "T = unat hi * limb_base + unat (last w)"
  have est: "unat (mp_divnorm_estimate hi (last w) (last tabb) b1_inv) = T div unat (last tabb)"
  proof (cases "b1_inv = 0")
    case True
    then show ?thesis
      using False mp_div1_step(1) [OF hi] by (simp add: mp_divnorm_estimate_def T_def)
  next
    case nz: False
    obtain q r where qr: "udiv1norm hi (last w) (last tabb) b1_inv = (q, r)"
      by (cases "udiv1norm hi (last w) (last tabb) b1_inv")
    have "udiv1norm hi (last w) (last tabb) (udiv1norm_init (last tabb)) = (q, r)"
      using qr nz inv by simp
    from udiv1norm_correct(1) [OF b1 hi this] show ?thesis
      using False nz by (simp add: mp_divnorm_estimate_def T_def qr)
  qed
  have "limb_base ^ length tabb = ?P * limb_base"
    using ne(2) by (cases tabb) simp_all
  then have "nval w + limb_base ^ length tabb * unat hi = nval (butlast w) + T * ?P"
    using ne(1) w by (simp add: nval_butlast_last T_def algebra_simps)
  moreover have "nval (butlast w) < ?P"
    using nval_less [of "butlast w"] w by simp
  ultimately have top: "(nval w + limb_base ^ length tabb * unat hi) div ?P = T"
    by simp
  have "?P * unat (last tabb) \<le> nval tabb"
    using nval_butlast_last [OF ne(2)] by simp
  moreover have "0 < ?P * unat (last tabb)"
    using b1 by simp
  ultimately have "(nval w + limb_base ^ length tabb * unat hi) div nval tabb
      \<le> (nval w + limb_base ^ length tabb * unat hi) div (?P * unat (last tabb))"
    by (intro div_le_mono2)
  then show ?thesis
    by (simp only: est div_mult2_eq top)
qed

text \<open>
  From an estimate that is not below the quotient, the subtraction and the correction loop give the
  quotient limb and the remainder, and the limb above the window becomes 0.
\<close>

lemma mp_divnorm_limb:
  assumes b: "0 < nval tabb" and w: "length w = length tabb"
    and est: "(nval w + limb_base ^ length tabb * unat hi) div nval tabb \<le> unat q"
    and s: "mp_sub_mul1 w tabb q = (w1, r)"
  shows "\<exists>w' q'. (if hi - r > hi then mp_divnorm_addback tabb w1 (hi - r) q else Some (w1, hi - r, q)) = Some (w', 0, q')
    \<and> length w' = length tabb \<and> nval w + limb_base ^ length tabb * unat hi = unat q' * nval tabb + nval w'
    \<and> nval w' < nval tabb"
proof -
  let ?P = "limb_base ^ length tabb"
  define V where "V = nval w + ?P * unat hi"
  have m: "length w1 = length tabb" "nval w1 + nval tabb * unat q = nval w + ?P * unat r"
    using mp_sub_mul1_loop_correct [OF w s [unfolded mp_sub_mul1_def]] by simp_all
  have w1: "nval w1 < ?P"
    using nval_less [of w1] m(1) by simp
  have tabb: "nval tabb < ?P"
    by (rule nval_less)
  show ?thesis
  proof (cases "unat q * nval tabb \<le> V")
    case True
    then have "unat q \<le> V div nval tabb"
      using b by (simp add: less_eq_div_iff_mult_less_eq)
    then have q: "unat q = V div nval tabb"
      using est by (simp add: V_def)
    have rem: "V = unat q * nval tabb + V mod nval tabb" and lt: "V mod nval tabb < nval tabb"
      using b by (simp_all add: q)
    have eq: "nval w1 + ?P * unat hi = V mod nval tabb + ?P * unat r"
    proof -
      have "nval w1 + nval tabb * unat q + ?P * unat hi = nval w + ?P * unat r + ?P * unat hi"
        using m(2) by simp
      then show ?thesis
        using rem by (simp add: V_def mult.commute)
    qed
    then have "(nval w1 + ?P * unat hi) div ?P = (V mod nval tabb + ?P * unat r) div ?P"
      and "(nval w1 + ?P * unat hi) mod ?P = (V mod nval tabb + ?P * unat r) mod ?P"
      by simp_all
    then have "unat hi = unat r" and w1_eq: "nval w1 = V mod nval tabb"
      using w1 lt tabb by simp_all
    then have "hi = r"
      by (simp add: word_unat_eq_iff)
    moreover have "V = unat q * nval tabb + nval w1" "nval w1 < nval tabb"
      using rem lt w1_eq by simp_all
    ultimately show ?thesis
      using m(1) unfolding V_def by (intro exI [of _ w1] exI [of _ q]) simp
  next
    case False
    define y where "y = unat q * nval tabb - V"
    have y: "0 < y" "V + y = unat q * nval tabb"
      using False by (simp_all add: y_def)
    have bal: "nval w1 + ?P * unat hi + y = ?P * unat r"
      using y(2) m(2) by (simp add: V_def mult.commute)
    then have "?P * unat hi < ?P * unat r"
      using y(1) by linarith
    then have hr: "unat hi < unat r"
      by simp
    then have a: "unat (hi - r) = limb_base + unat hi - unat r"
      by (simp add: limb_sub)
    have rB: "unat r < limb_base" by simp
    then have gt: "hi - r > hi"
      using a hr by (subst word_less_nat_alt) linarith
    have "unat (hi - r) + unat r = limb_base + unat hi"
      using a rB by linarith
    then have "?P * unat (hi - r) + ?P * unat r = ?P * limb_base + ?P * unat hi"
      by (simp only: add_mult_distrib2 [symmetric])
    then have "nval w1 + ?P * unat (hi - r) + y = limb_base ^ Suc (length tabb)"
      using bal by (simp add: mult.commute)
    from mp_divnorm_addback_correct [OF m(1) b y(1) this]
    obtain w' k where k: "mp_divnorm_addback tabb w1 (hi - r) q = Some (w', 0, q - of_nat k)"
      "length w' = length tabb" "nval w' + y = k * nval tabb" "nval w' < nval tabb"
      by blast
    have e: "V + k * nval tabb = unat q * nval tabb + nval w'"
      using k(3) y(2) by linarith
    then have "k * nval tabb < Suc (unat q) * nval tabb"
      using k(4) by simp
    then have kq: "k \<le> unat q"
      using b by (simp only: mult_less_cancel2) simp
    then have "unat (of_nat k :: js_limb_t) = k"
      using unat_limb_less [of q] by (simp add: unat_of_nat limb_base_def)
    then have q': "unat (q - of_nat k) + k = unat q"
      using kq by (simp add: limb_sub)
    have "V + k * nval tabb = (unat (q - of_nat k) + k) * nval tabb + nval w'"
      using e by (simp only: q')
    then have "V = unat (q - of_nat k) * nval tabb + nval w'"
      by (simp add: algebra_simps)
    then show ?thesis
      using k gt unfolding V_def by (intro exI [of _ w'] exI [of _ "q - of_nat k"]) simp
  qed
qed

section \<open>The whole division\<close>

lemma limbs_at_Suc:
  assumes "i + n < length xs"
  shows "limbs_at i (Suc n) xs = limbs_at i n xs @ [xs ! (i + n)]"
    and "limbs_at i (Suc n) xs = xs ! i # limbs_at (Suc i) n xs"
proof -
  show "limbs_at i (Suc n) xs = limbs_at i n xs @ [xs ! (i + n)]"
    using assms by (simp add: limbs_at_def take_Suc_conv_app_nth)
  have "drop i xs = xs ! i # drop (Suc i) xs"
    using assms by (simp add: Cons_nth_drop_Suc)
  then show "limbs_at i (Suc n) xs = xs ! i # limbs_at (Suc i) n xs"
    by (simp add: limbs_at_def)
qed

lemma take_limbs_at: "take (i + n) xs = take i xs @ limbs_at i n xs"
  by (simp add: limbs_at_def take_add)

lemma store_window:
  fixes a :: 'a
  assumes "i + length w < length xs"
  defines "ys \<equiv> (store_at i w xs) [i + length w := a]"
  shows "length ys = length xs" and "take i ys = take i xs" and "limbs_at i (length w) ys = w"
  using assms by (simp_all add: ys_def store_at_def limbs_at_def list_update_append)

lemma mp_divnorm_loop_correct:
  assumes b: "normal_divisor tabb" and inv: "b1_inv = 0 \<or> b1_inv = udiv1norm_init (last tabb)"
    and "i + length tabb \<le> length taba" and "i \<le> length tabq"
    and "nval (limbs_at i (length tabb) taba) < nval tabb"
  shows "\<exists>tabq' taba'. mp_divnorm_loop tabb b1_inv tabq taba i = Some (tabq', taba')
    \<and> length tabq' = length tabq \<and> drop i tabq' = drop i tabq \<and> length taba' = length taba
    \<and> nval (take (i + length tabb) taba) = nval (take i tabq') * nval tabb + nval (take (length tabb) taba')
    \<and> nval (take (length tabb) taba') < nval tabb"
  using assms(3-5)
proof (induction i arbitrary: tabq taba)
  case 0
  then show ?case by (simp add: limbs_at_def)
next
  case (Suc i)
  let ?nb = "length tabb"
  let ?P = "limb_base ^ ?nb"
  define w hi where "w = limbs_at i ?nb taba" and "hi = taba ! (i + ?nb)"
  have nb: "0 < ?nb" and bpos: "0 < nval tabb"
    using b normal_divisor_pos by (auto simp: normal_divisor_def)
  have lt: "i + ?nb < length taba"
    using Suc.prems(1) by simp
  then have w: "length w = ?nb"
    by (simp add: w_def)
  have lo: "taba ! (i + ?nb - Suc 0) = last w"
    using lt nb w by (cases ?nb) (simp_all add: w_def limbs_at_def last_conv_nth)
  have win: "nval (limbs_at i (Suc ?nb) taba) = nval w + ?P * unat hi"
    by (simp add: limbs_at_Suc(1) [OF lt] nval_append w w_def [symmetric] hi_def [symmetric])
  have "unat (taba ! i) < limb_base" by simp
  moreover have "limb_base * Suc (nval (limbs_at (Suc i) ?nb taba)) \<le> limb_base * nval tabb"
    using Suc.prems(3) by (intro mult_le_mono2) simp
  ultimately have "nval (limbs_at i (Suc ?nb) taba) < limb_base * nval tabb"
    by (simp only: limbs_at_Suc(2) [OF lt] nval.simps mult_Suc_right)
  then have V: "nval w + ?P * unat hi < limb_base * nval tabb"
    by (simp only: win)
  define q where "q = mp_divnorm_estimate hi (last w) (last tabb) b1_inv"
  obtain w1 r where s: "mp_sub_mul1 w tabb q = (w1, r)"
    by (cases "mp_sub_mul1 w tabb q")
  obtain w' q' where l: "(if hi - r > hi then mp_divnorm_addback tabb w1 (hi - r) q else Some (w1, hi - r, q))
      = Some (w', 0, q')" "length w' = ?nb" "nval w + ?P * unat hi = unat q' * nval tabb + nval w'" "nval w' < nval tabb"
    using mp_divnorm_limb [OF bpos w mp_divnorm_estimate_upper [OF b w inv V, folded q_def] s] by blast
  define taba1 where "taba1 = (store_at i w' taba) [i + ?nb := 0]"
  have t1: "length taba1 = length taba" "take i taba1 = take i taba" "limbs_at i ?nb taba1 = w'"
    using store_window [of i w' taba 0] lt l(2) by (simp_all add: taba1_def)
  have "mp_divnorm_loop tabb b1_inv tabq taba (Suc i) =
      do { (w, a, q) \<leftarrow> (if hi - r > hi then mp_divnorm_addback tabb w1 (hi - r) q else Some (w1, hi - r, q));
           mp_divnorm_loop tabb b1_inv (tabq [i := q]) ((store_at i w taba) [i + ?nb := a]) i }"
    by (simp add: w_def [symmetric] hi_def [symmetric] lo q_def [symmetric] s Let_def split del: if_split cong del: if_weak_cong)
  then have unf: "mp_divnorm_loop tabb b1_inv tabq taba (Suc i) = mp_divnorm_loop tabb b1_inv (tabq [i := q']) taba1 i"
    by (simp only: l(1)) (simp add: taba1_def)
  obtain tabq' taba' where IH: "mp_divnorm_loop tabb b1_inv (tabq [i := q']) taba1 i = Some (tabq', taba')"
    "length tabq' = length tabq" "drop i tabq' = drop i (tabq [i := q'])" "length taba' = length taba"
    "nval (take (i + ?nb) taba1) = nval (take i tabq') * nval tabb + nval (take ?nb taba')"
    "nval (take ?nb taba') < nval tabb"
    using Suc.IH [of taba1 "tabq [i := q']"] Suc.prems t1 l(4) by auto
  have i: "i < length tabq'"
    using Suc.prems(2) IH(2) by simp
  have "tabq' ! i = q'" and rest: "drop (Suc i) tabq' = drop (Suc i) tabq"
    using IH(3) Suc.prems(2) i by (simp_all add: Cons_nth_drop_Suc [symmetric])
  then have tq: "nval (take (Suc i) tabq') = nval (take i tabq') + limb_base ^ i * unat q'"
    using i by (simp add: take_Suc_conv_app_nth nval_append)
  have "nval (take (Suc i + ?nb) taba) = nval (take i taba) + limb_base ^ i * (nval w + ?P * unat hi)"
    using take_limbs_at [of i "Suc ?nb" taba] lt by (simp add: nval_append win)
  also have "\<dots> = (nval (take i taba) + limb_base ^ i * nval w') + limb_base ^ i * unat q' * nval tabb"
    by (simp only: l(3)) (simp add: algebra_simps)
  also have "nval (take i taba) + limb_base ^ i * nval w' = nval (take (i + ?nb) taba1)"
    using lt by (simp add: take_limbs_at nval_append t1)
  finally have "nval (take (Suc i + ?nb) taba) = nval (take (Suc i) tabq') * nval tabb + nval (take ?nb taba')"
    by (simp add: IH(5) tq algebra_simps)
  then show ?case
    using unf IH(1,2,4,6) rest by auto
qed

text \<open>
  Division of an array by a normalised divisor: the function always returns, the array holds the
  remainder in its low limbs and \<open>tabq\<close> the quotient.
\<close>

lemma mp_divnorm_correct:
  assumes b: "normal_divisor tabb" and nb: "length tabb \<le> length taba"
    and nq: "length taba - length tabb < length tabq"
  shows "\<exists>tabq' taba'. mp_divnorm tabq taba tabb = Some (tabq', taba')
    \<and> length tabq' = length tabq \<and> length taba' = length taba
    \<and> nval (take (Suc (length taba - length tabb)) tabq') = nval taba div nval tabb
    \<and> nval (take (length tabb) taba') = nval taba mod nval tabb"
proof (cases "length tabb = 1")
  case True
  then obtain b1 where tabb: "tabb = [b1]"
    by (cases tabb) auto
  with b have b1: "2 ^ 63 \<le> unat b1" "unat (0 :: js_limb_t) < unat b1"
    by (auto simp: normal_divisor_def)
  obtain part r where s: "mp_div1norm taba b1 0 = (part, r)"
    by (cases "mp_div1norm taba b1 0")
  from mp_div1norm_correct [OF b1 s]
  have d: "length part = length taba" "nval part * unat b1 + unat r = nval taba" "unat r < unat b1"
    by simp_all
  have ne: "taba \<noteq> []"
    using nb tabb by auto
  have n: "length taba \<le> length tabq" "Suc (length taba - 1) = length taba"
    using nq nb tabb by simp_all
  have "nval taba div unat b1 = nval part" "nval taba mod unat b1 = unat r"
    using d(2,3) by (simp_all add: d(2) [symmetric])
  then show ?thesis
    using n d(1) ne s by (cases taba) (simp_all add: mp_divnorm_def tabb store_at_def)
next
  case False
  let ?nb = "length tabb"
  let ?n = "length taba - ?nb"
  define W where "W = limbs_at ?n ?nb taba"
  define b1_inv where "b1_inv = (if ?n \<ge> UDIV1NORM_THRESHOLD then udiv1norm_init (last tabb) else 0)"
  define q where "q = limb_of_bool (nval tabb \<le> nval W)"
  define taba1 where "taba1 = (if q \<noteq> 0 then store_at ?n (fst (mp_sub W tabb 0)) taba else taba)"
  define tabq1 where "tabq1 = tabq [?n := q]"
  have W: "length W = ?nb"
    using nb by (simp add: W_def)
  have bpos: "0 < nval tabb"
    using b by (rule normal_divisor_pos)
  have unf: "mp_divnorm tabq taba tabb = mp_divnorm_loop tabb b1_inv tabq1 taba1 ?n"
    using False mp_divnorm_first_correct [OF W]
    by (simp add: mp_divnorm_def Let_def W_def [symmetric] b1_inv_def q_def taba1_def tabq1_def)
  have top: "nval tabb \<le> nval W \<longrightarrow> nval W < 2 * nval tabb"
  proof -
    have "nval W < limb_base ^ (?nb - 1) * limb_base"
      using nval_less [of W] W b by (cases tabb) (simp_all add: normal_divisor_def mult.commute)
    moreover have "limb_base ^ (?nb - 1) * limb_base \<le> limb_base ^ (?nb - 1) * (2 * unat (last tabb))"
      using b by (intro mult_le_mono2) (simp add: normal_divisor_def limb_base_def)
    moreover have "limb_base ^ (?nb - 1) * unat (last tabb) \<le> nval tabb"
      using b nval_butlast_last [of tabb] by (simp add: normal_divisor_def)
    ultimately show ?thesis by linarith
  qed
  obtain W1 where W1: "length W1 = ?nb" "taba1 = store_at ?n W1 taba" "nval W = unat q * nval tabb + nval W1"
    "nval W1 < nval tabb"
  proof (cases "nval tabb \<le> nval W")
    case True
    obtain res c where s: "mp_sub W tabb 0 = (res, c)"
      by (cases "mp_sub W tabb 0")
    have "(0 :: js_limb_t) = limb_of_bool False"
      by (simp add: limb_of_bool_def)
    from mp_sub_correct [OF W s this]
    obtain bb where e: "length res = ?nb" "nval res + nval tabb = nval W + limb_base ^ ?nb * unat c"
      "c = limb_of_bool bb"
      using W by auto
    have "nval res < limb_base ^ ?nb"
      using nval_less [of res] e(1) by simp
    moreover have "nval tabb < limb_base ^ ?nb"
      by (rule nval_less)
    ultimately have "\<not> bb"
      using e True by (cases bb) auto
    then have "nval res + nval tabb = nval W"
      using e by simp
    moreover from this have "nval res < nval tabb"
      using top True by linarith
    moreover have "unat q = 1" "q \<noteq> 0"
      using True by (simp_all add: q_def)
    moreover from this have "taba1 = store_at ?n res taba"
      by (simp only: taba1_def s fst_conv if_True simp_thms)
    ultimately show thesis
      using e(1) by (intro that [of res]) simp_all
  next
    case ltb: False
    have "taba = store_at ?n W taba"
      unfolding store_at_def using split_at [of ?n ?nb taba] nb W by (simp add: W_def)
    then show thesis
      using that [of W] ltb W by (simp add: taba1_def q_def)
  qed
  have t1: "length taba1 = length taba" "take ?n taba1 = take ?n taba" "limbs_at ?n ?nb taba1 = W1"
    using nb W1(1) by (simp_all add: W1(2) store_at_def limbs_at_def)
  have inv: "b1_inv = 0 \<or> b1_inv = udiv1norm_init (last tabb)"
    by (simp add: b1_inv_def)
  obtain tabq' taba' where r: "mp_divnorm_loop tabb b1_inv tabq1 taba1 ?n = Some (tabq', taba')"
    "length tabq' = length tabq" "drop ?n tabq' = drop ?n tabq1" "length taba' = length taba"
    "nval (take (?n + ?nb) taba1) = nval (take ?n tabq') * nval tabb + nval (take ?nb taba')"
    "nval (take ?nb taba') < nval tabb"
    using mp_divnorm_loop_correct [OF b inv, of ?n taba1 tabq1] nb nq t1 W1(4) by (auto simp: tabq1_def)
  have "tabq' ! ?n = q"
    using r(2,3) nq by (simp add: tabq1_def Cons_nth_drop_Suc [symmetric])
  then have tq: "nval (take (Suc ?n) tabq') = nval (take ?n tabq') + limb_base ^ ?n * unat q"
    using nq r(2) by (simp add: take_Suc_conv_app_nth nval_append)
  have "nval taba = nval (take ?n taba) + limb_base ^ ?n * nval W"
    using take_limbs_at [of ?n ?nb taba] nb by (simp add: W_def) (metis length_take min.absorb2 diff_le_self nval_append)
  also have "\<dots> = nval (take (?n + ?nb) taba1) + limb_base ^ ?n * unat q * nval tabb"
  proof -
    have "nval (take (?n + ?nb) taba1) = nval (take ?n taba) + limb_base ^ ?n * nval W1"
      unfolding take_limbs_at t1 nval_append using nb by simp
    then show ?thesis
      by (simp only: W1(3)) (simp add: algebra_simps)
  qed
  finally have "nval taba = nval (take (Suc ?n) tabq') * nval tabb + nval (take ?nb taba')"
    by (simp only: r(5) tq) (simp add: algebra_simps)
  then have "nval taba div nval tabb = nval (take (Suc ?n) tabq')" "nval taba mod nval tabb = nval (take ?nb taba')"
    using r(6) by simp_all
  then show ?thesis
    using unf r(1,2,4) by simp
qed

end
