(* ===== verification/BigInt.thy ===== *)
theory BigInt
  imports Limbs_Div
begin

text \<open>
  BigInt arithmetic of quickjs.c. A \<open>JSBigInt\<close> is a reference count and its limbs in two's complement,
  least significant first; a pointer that may be \<open>NULL\<close> is an option. The context carries what the
  functions change besides their result: the pending exception, the number of blocks that are allocated
  (so that leaks and double frees show), and whether an assertion failed. Which allocations succeed and
  what fresh memory contains are arbitrary functions of the number of the request.
\<close>

unbundle bit_operations_syntax

section \<open>Context and memory\<close>

datatype js_error = RangeError string | TypeError string | SyntaxError string | OutOfMemory

record js_ctx =
  exn :: "js_error option"
  blocks :: int
  allocs :: nat
  grant :: "nat \<Rightarrow> bool"
  junk :: "nat \<Rightarrow> nat \<Rightarrow> js_limb_t"
  assert_failed :: bool

definition JS_ThrowRangeError :: "string \<Rightarrow> js_ctx \<Rightarrow> js_ctx" where
  "JS_ThrowRangeError msg c = c \<lparr>exn := Some (RangeError msg)\<rparr>"

definition JS_ThrowTypeError :: "string \<Rightarrow> js_ctx \<Rightarrow> js_ctx" where
  "JS_ThrowTypeError msg c = c \<lparr>exn := Some (TypeError msg)\<rparr>"

definition JS_ThrowSyntaxError :: "string \<Rightarrow> js_ctx \<Rightarrow> js_ctx" where
  "JS_ThrowSyntaxError msg c = c \<lparr>exn := Some (SyntaxError msg)\<rparr>"

definition JS_ThrowOutOfMemory :: "js_ctx \<Rightarrow> js_ctx" where
  "JS_ThrowOutOfMemory c = c \<lparr>exn := Some OutOfMemory\<rparr>"

definition js_assert :: "bool \<Rightarrow> js_ctx \<Rightarrow> js_ctx" where
  "js_assert b c = (if b then c else c \<lparr>assert_failed := True\<rparr>)"

text \<open>The contents of the \<open>n\<close> limbs the next allocation returns.\<close>

definition fresh :: "nat \<Rightarrow> js_ctx \<Rightarrow> js_limb_t list" where
  "fresh n c = map (junk c (allocs c)) [0..<n]"

definition js_malloc :: "js_ctx \<Rightarrow> bool \<times> js_ctx" where
  "js_malloc c =
     (let ok = grant c (allocs c);
          c = c \<lparr>allocs := Suc (allocs c)\<rparr>
      in if ok then (True, c \<lparr>blocks := blocks c + 1\<rparr>) else (False, JS_ThrowOutOfMemory c))"

definition js_realloc :: "js_ctx \<Rightarrow> bool \<times> js_ctx" where
  "js_realloc c =
     (let ok = grant c (allocs c);
          c = c \<lparr>allocs := Suc (allocs c)\<rparr>
      in if ok then (True, c) else (False, JS_ThrowOutOfMemory c))"

definition js_free :: "js_ctx \<Rightarrow> js_ctx" where
  "js_free c = c \<lparr>blocks := blocks c - 1\<rparr>"

section \<open>BigInt objects\<close>

record JSBigInt =
  ref_count :: int
  tab :: "js_limb_t list"

abbreviation len :: "JSBigInt \<Rightarrow> nat" where
  "len a \<equiv> length (tab a)"

definition JS_BIGINT_MAX_SIZE :: nat where
  "JS_BIGINT_MAX_SIZE = 1024 * 1024 div 64"

definition js_bigint_new :: "nat \<Rightarrow> js_ctx \<Rightarrow> JSBigInt option \<times> js_ctx" where
  "js_bigint_new n c =
     (if n > JS_BIGINT_MAX_SIZE
      then (None, JS_ThrowRangeError ''BigInt is too large to allocate'' c)
      else case js_malloc c of
        (True, c') \<Rightarrow> (Some \<lparr>ref_count = 1, tab = fresh n c\<rparr>, c')
      | (False, c') \<Rightarrow> (None, c'))"

definition js_bigint_set_si :: "js_limb_t \<Rightarrow> JSBigInt" where
  "js_bigint_set_si a = \<lparr>ref_count = 0, tab = [a]\<rparr>"

definition js_bigint_set_si64 :: "u64 \<Rightarrow> JSBigInt" where
  "js_bigint_set_si64 a = js_bigint_set_si a"

text \<open>An allocation whose limbs the caller fills in.\<close>

definition js_bigint_new_with :: "js_limb_t list \<Rightarrow> js_ctx \<Rightarrow> JSBigInt option \<times> js_ctx" where
  "js_bigint_new_with xs c =
     (case js_bigint_new (length xs) c of
        (Some r, c) \<Rightarrow> (Some (r \<lparr>tab := xs\<rparr>), c)
      | (None, c) \<Rightarrow> (None, c))"

definition js_bigint_new_si :: "js_limb_t \<Rightarrow> js_ctx \<Rightarrow> JSBigInt option \<times> js_ctx" where
  "js_bigint_new_si a = js_bigint_new_with [a]"

definition js_bigint_new_si64 :: "u64 \<Rightarrow> js_ctx \<Rightarrow> JSBigInt option \<times> js_ctx" where
  "js_bigint_new_si64 a = js_bigint_new_si a"

definition js_bigint_new_ui64 :: "u64 \<Rightarrow> js_ctx \<Rightarrow> JSBigInt option \<times> js_ctx" where
  "js_bigint_new_ui64 a =
     (if a \<le> 0x7FFFFFFFFFFFFFFF then js_bigint_new_si64 a else js_bigint_new_with [a, 0])"

definition js_bigint_new_di :: "js_dlimb_t \<Rightarrow> js_ctx \<Rightarrow> JSBigInt option \<times> js_ctx" where
  "js_bigint_new_di a =
     (if a = scast (ucast a :: js_limb_t) then js_bigint_new_with [ucast a]
      else js_bigint_new_with [ucast a, ucast (signed_drop_bit 64 a)])"

text \<open>The test that the limb \<open>v\<close> above a limb \<open>u\<close> is not just its sign extension.\<close>

definition significant :: "js_limb_t \<Rightarrow> js_limb_t \<Rightarrow> bool" where
  "significant v u \<longleftrightarrow> (v \<noteq> 0 \<and> v \<noteq> - 1) \<or> (v AND 1) \<noteq> drop_bit 63 u"

fun js_bigint_norm_len :: "js_limb_t list \<Rightarrow> nat \<Rightarrow> nat" where
  "js_bigint_norm_len t (Suc (Suc l)) =
     (if significant (t ! Suc l) (t ! l) then Suc (Suc l) else js_bigint_norm_len t (Suc l))"
| "js_bigint_norm_len t l = l"

definition js_bigint_normalize1 :: "JSBigInt \<Rightarrow> nat \<Rightarrow> js_ctx \<Rightarrow> JSBigInt \<times> js_ctx" where
  "js_bigint_normalize1 a l c =
     (let c = js_assert (ref_count a = 1) c;
          l = js_bigint_norm_len (tab a) l
      in if l \<noteq> len a
         then (a \<lparr>tab := take l (tab a)\<rparr>, snd (js_realloc c))
         else (a, c))"

definition js_bigint_normalize :: "JSBigInt \<Rightarrow> js_ctx \<Rightarrow> JSBigInt \<times> js_ctx" where
  "js_bigint_normalize a c = js_bigint_normalize1 a (len a) c"

definition js_bigint_sign :: "JSBigInt \<Rightarrow> js_limb_t" where
  "js_bigint_sign a = drop_bit 63 (last (tab a))"

definition js_bigint_get_si_sat :: "JSBigInt \<Rightarrow> js_limb_t" where
  "js_bigint_get_si_sat a =
     (if len a = 1 then hd (tab a)
      else if js_bigint_sign a \<noteq> 0 then 0x8000000000000000 else 0x7FFFFFFFFFFFFFFF)"

definition js_bigint_extend :: "JSBigInt \<Rightarrow> js_limb_t \<Rightarrow> js_ctx \<Rightarrow> JSBigInt option \<times> js_ctx" where
  "js_bigint_extend r op1 c =
     (if significant op1 (last (tab r))
      then (case js_realloc c of
              (True, c) \<Rightarrow> (Some (r \<lparr>tab := tab r @ [op1]\<rparr>), c)
            | (False, c) \<Rightarrow> (None, js_free c))
      else (let (r, c) = js_bigint_normalize r c in (Some r, c)))"

section \<open>Arithmetic\<close>

definition js_bigint_add :: "JSBigInt \<Rightarrow> JSBigInt \<Rightarrow> js_limb_t \<Rightarrow> js_ctx \<Rightarrow> JSBigInt option \<times> js_ctx" where
  "js_bigint_add a b b_neg c =
     (let n2 = max (len a) (len b);
          n1 = min (len a) (len b)
      in case js_bigint_new n2 c of
        (None, c) \<Rightarrow> (None, c)
      | (Some r, c) \<Rightarrow>
          (let (low, carry) = mp_add (take n1 (tab a)) (map (\<lambda>x. x XOR (- b_neg)) (take n1 (tab b))) b_neg;
               a_sign = - js_bigint_sign a;
               b_sign = (- js_bigint_sign b) XOR (- b_neg);
               (high, carry) =
                 (if len a > len b
                  then mp_add (drop n1 (tab a)) (replicate (n2 - n1) b_sign) carry
                  else if len a < len b
                  then mp_add (replicate (n2 - n1) a_sign) (map (\<lambda>x. x XOR (- b_neg)) (drop n1 (tab b))) carry
                  else ([], carry))
           in js_bigint_extend (r \<lparr>tab := low @ high\<rparr>) (a_sign + b_sign + carry) c))"

definition js_bigint_neg :: "JSBigInt \<Rightarrow> js_ctx \<Rightarrow> JSBigInt option \<times> js_ctx" where
  "js_bigint_neg a c = js_bigint_add (js_bigint_set_si 0) a 1 c"

definition js_bigint_mul :: "JSBigInt \<Rightarrow> JSBigInt \<Rightarrow> js_ctx \<Rightarrow> JSBigInt option \<times> js_ctx" where
  "js_bigint_mul a b c =
     (case js_bigint_new (len a + len b) c of
        (None, c) \<Rightarrow> (None, c)
      | (Some r, c) \<Rightarrow>
          (let t = mp_mul_basecase (tab r) (tab a) (tab b);
               t = (if js_bigint_sign a \<noteq> 0
                    then store_at (len a) (fst (mp_sub (limbs_at (len a) (len b) t) (tab b) 0)) t else t);
               t = (if js_bigint_sign b \<noteq> 0
                    then store_at (len b) (fst (mp_sub (limbs_at (len b) (len a) t) (tab a) 0)) t else t);
               (r, c) = js_bigint_normalize (r \<lparr>tab := t\<rparr>) c
           in (Some r, c)))"

text \<open>The loops \<open>while (n > 1 && t[n - 1] == 0) n--\<close> of the division.\<close>

fun strip_zeros :: "js_limb_t list \<Rightarrow> nat \<Rightarrow> nat" where
  "strip_zeros t (Suc (Suc n)) = (if t ! Suc n = 0 then strip_zeros t (Suc n) else Suc (Suc n))"
| "strip_zeros t n = n"

definition mp_abs :: "js_limb_t \<Rightarrow> js_limb_t list \<Rightarrow> js_limb_t list" where
  "mp_abs sign t = (if sign \<noteq> 0 then fst (mp_neg t) else t)"

text \<open>Shifting both operands so that the highest bit of the divisor is set.\<close>

definition js_bigint_divrem_shift ::
  "js_limb_t list \<Rightarrow> nat \<Rightarrow> js_limb_t list \<Rightarrow> nat \<Rightarrow> (nat \<times> js_limb_t list \<times> nat \<times> js_limb_t list)" where
  "js_bigint_divrem_shift rt na tabb nb =
     (let shift = js_limb_clz (tabb ! (nb - 1))
      in if shift \<noteq> 0
         then (let tabb = fst (mp_shl (take nb tabb) shift);
                   (part, h) = mp_shl (take na rt) shift;
                   rt = store_at 0 part rt
               in if h \<noteq> 0 then (shift, rt [na := h], na + 1, tabb) else (shift, rt, na, tabb))
         else (shift, rt, na, take nb tabb))"

text \<open>The rest of the division, when the dividend is not shorter; \<open>None\<close> when the division loop does not end.\<close>

definition js_bigint_divrem_main ::
  "JSBigInt \<Rightarrow> js_limb_t \<Rightarrow> js_limb_t \<Rightarrow> bool \<Rightarrow> js_limb_t list \<Rightarrow> nat \<Rightarrow> js_limb_t list \<Rightarrow> nat \<Rightarrow> js_ctx \<Rightarrow>
   (JSBigInt option \<times> js_ctx) option" where
  "js_bigint_divrem_main r a_sign b_sign is_rem rt na tabb nb c =
     (let (shift, rt, na, tabb) = js_bigint_divrem_shift rt na tabb nb
      in case js_bigint_new (na - nb + 2) c of
        (None, c) \<Rightarrow> Some (None, js_free (js_free c))
      | (Some q, c) \<Rightarrow>
         (case mp_divnorm (tab q) (take na rt) tabb of
            None \<Rightarrow> None
          | Some (qt, part) \<Rightarrow>
             (let c = js_free c;
                  rt = store_at 0 part rt
              in if is_rem
                 then
                   (let c = js_free c;
                        rt = (if shift \<noteq> 0 then store_at 0 (fst (mp_shr (take nb rt) shift 0)) rt else rt);
                        rt = rt [nb := 0];
                        rt = store_at 0 (mp_abs a_sign (take (nb + 1) rt)) rt;
                        (r, c) = js_bigint_normalize1 (r \<lparr>tab := rt\<rparr>) (nb + 1) c
                    in Some (Some r, c))
                 else
                   (let c = js_free c;
                        qt = qt [na - nb + 1 := 0];
                        qt = mp_abs (a_sign XOR b_sign) qt;
                        (q, c) = js_bigint_normalize (q \<lparr>tab := qt\<rparr>) c
                    in Some (Some q, c)))))"

definition js_bigint_divrem ::
  "JSBigInt \<Rightarrow> JSBigInt \<Rightarrow> bool \<Rightarrow> js_ctx \<Rightarrow> (JSBigInt option \<times> js_ctx) option" where
  "js_bigint_divrem a b is_rem c =
     (if len b = 1 \<and> hd (tab b) = 0
      then Some (None, JS_ThrowRangeError ''BigInt division by zero'' c)
      else case js_bigint_new (len a + 2) c of
         (None, c) \<Rightarrow> Some (None, c)
       | (Some r, c) \<Rightarrow>
          (let a_sign = js_bigint_sign a;
               b_sign = js_bigint_sign b;
               rt = store_at 0 (mp_abs a_sign (tab a)) (tab r);
               na = strip_zeros rt (len a)
           in case js_malloc c of
             (False, c) \<Rightarrow> Some (None, js_free c)
           | (True, c) \<Rightarrow>
              (let tabb = mp_abs b_sign (tab b);
                   nb = strip_zeros tabb (len b)
               in if na < nb
                  then
                    (let c = js_free (js_free c)
                     in Some (if is_rem then js_bigint_new_with (tab a) c else js_bigint_new_si 0 c))
                  else js_bigint_divrem_main r a_sign b_sign is_rem rt na tabb nb c)))"

section \<open>Logical operations and shifts\<close>

datatype logic_op = OP_or | OP_and | OP_xor

fun limb_logic :: "logic_op \<Rightarrow> js_limb_t \<Rightarrow> js_limb_t \<Rightarrow> js_limb_t" where
  "limb_logic OP_or x y = x OR y"
| "limb_logic OP_and x y = x AND y"
| "limb_logic OP_xor x y = x XOR y"

definition js_bigint_logic ::
  "JSBigInt \<Rightarrow> JSBigInt \<Rightarrow> logic_op \<Rightarrow> js_ctx \<Rightarrow> JSBigInt option \<times> js_ctx" where
  "js_bigint_logic a b opc c =
     (let (a, b) = (if len a < len b then (b, a) else (a, b));
          b_sign = - js_bigint_sign b
      in case js_bigint_new (len a) c of
        (None, c) \<Rightarrow> (None, c)
      | (Some r, c) \<Rightarrow>
          (let t = map2 (limb_logic opc) (take (len b) (tab a)) (tab b)
                   @ map (\<lambda>x. limb_logic opc x b_sign) (drop (len b) (tab a));
               (r, c) = js_bigint_normalize (r \<lparr>tab := t\<rparr>) c
           in (Some r, c)))"

definition js_bigint_not :: "JSBigInt \<Rightarrow> js_ctx \<Rightarrow> JSBigInt option \<times> js_ctx" where
  "js_bigint_not a c = js_bigint_new_with (map (\<lambda>x. NOT x) (tab a)) c"

text \<open>The shift counts are the values of the \<open>unsigned int\<close> arguments of the source.\<close>

definition js_bigint_shl :: "JSBigInt \<Rightarrow> nat \<Rightarrow> js_ctx \<Rightarrow> JSBigInt option \<times> js_ctx" where
  "js_bigint_shl a shift1 c =
     (if len a = 1 \<and> hd (tab a) = 0 then js_bigint_new_si 0 c
      else
       let d = shift1 div 64;
           shift = shift1 mod 64
       in case js_bigint_new (len a + d) c of
         (None, c) \<Rightarrow> (None, c)
       | (Some r, c) \<Rightarrow>
          if shift = 0 then (Some (r \<lparr>tab := replicate d 0 @ tab a\<rparr>), c)
          else
           (let (part, l) = mp_shl (tab a) shift;
                l = (if js_bigint_sign a \<noteq> 0 then l OR push_bit shift (- 1) else l)
            in js_bigint_extend (r \<lparr>tab := replicate d 0 @ part\<rparr>) l c))"

definition js_bigint_shr :: "JSBigInt \<Rightarrow> nat \<Rightarrow> js_ctx \<Rightarrow> JSBigInt option \<times> js_ctx" where
  "js_bigint_shr a shift1 c =
     (let d = shift1 div 64;
          shift = shift1 mod 64;
          a_sign = js_bigint_sign a
      in if d \<ge> len a then js_bigint_new_si (- a_sign) c
         else case js_bigint_new (len a - d) c of
           (None, c) \<Rightarrow> (None, c)
         | (Some r, c) \<Rightarrow>
            if shift = 0 then (Some (r \<lparr>tab := drop d (tab a)\<rparr>), c)
            else
             (let (r, c) = js_bigint_normalize (r \<lparr>tab := fst (mp_shr (drop d (tab a)) shift (- a_sign))\<rparr>) c
              in (Some r, c)))"

section \<open>Powers\<close>

text \<open>
  The loop over the bits of the exponent, from bit \<open>n - 1\<close> down to 0. When a multiplication fails the
  previous power is not freed.
\<close>

fun js_bigint_pow_loop ::
  "(JSBigInt \<Rightarrow> JSBigInt \<Rightarrow> js_ctx \<Rightarrow> JSBigInt option \<times> js_ctx) \<Rightarrow>
   JSBigInt \<Rightarrow> u32 \<Rightarrow> nat \<Rightarrow> JSBigInt \<Rightarrow> js_ctx \<Rightarrow> JSBigInt option \<times> js_ctx" where
  "js_bigint_pow_loop mul a e 0 r c = (Some r, c)"
| "js_bigint_pow_loop mul a e (Suc i) r c =
     (case mul r r c of
        (None, c) \<Rightarrow> (None, c)
      | (Some r1, c) \<Rightarrow>
          (let c = js_free c; r = r1
           in if bit e i
              then (case mul r a c of
                      (None, c) \<Rightarrow> (None, c)
                    | (Some r1, c) \<Rightarrow> js_bigint_pow_loop mul a e i r1 (js_free c))
              else js_bigint_pow_loop mul a e i r c))"

definition js_bigint_pow_overflow :: "js_ctx \<Rightarrow> JSBigInt option \<times> js_ctx" where
  "js_bigint_pow_overflow c = (None, JS_ThrowRangeError ''BigInt is too large'' c)"

definition js_bigint_pow_general :: "JSBigInt \<Rightarrow> JSBigInt \<Rightarrow> js_ctx \<Rightarrow> JSBigInt option \<times> js_ctx" where
  "js_bigint_pow_general a b c =
     (if len b > 1 then js_bigint_pow_overflow c
      else if hd (tab b) > 0x7FFFFFFF then js_bigint_pow_overflow c
      else
       let e = (ucast (hd (tab b)) :: u32);
           n_bits = 32 - clz32 e
       in case js_bigint_new_with (tab a) c of
         (None, c) \<Rightarrow> (None, c)
       | (Some r, c) \<Rightarrow> js_bigint_pow_loop js_bigint_mul a e (n_bits - 1) r c)"

definition js_bigint_pow_2 :: "js_limb_t \<Rightarrow> bool \<Rightarrow> JSBigInt \<Rightarrow> js_ctx \<Rightarrow> JSBigInt option \<times> js_ctx" where
  "js_bigint_pow_2 v is_neg b c =
     (let n = 64 - 1 - js_limb_clz v
      in if len b > 1 then js_bigint_pow_overflow c
         else if hd (tab b) > 0x7FFFFFFF then js_bigint_pow_overflow c
         else
          let e1 = unat (hd (tab b)) * n
          in if e1 > JS_BIGINT_MAX_SIZE * 64 then js_bigint_pow_overflow c
             else
              let e = e1;
                  is_neg = (is_neg \<and> bit (hd (tab b)) 0)
              in case js_bigint_new ((e + 64 + 1 - of_bool is_neg) div 64) c of
                (None, c) \<Rightarrow> (None, c)
              | (Some r, c) \<Rightarrow>
                 (Some (r \<lparr>tab := (replicate (len r) 0) [e div 64 := push_bit (e mod 64) (if is_neg then - 1 else 1)]\<rparr>), c))"

definition js_bigint_pow :: "JSBigInt \<Rightarrow> JSBigInt \<Rightarrow> js_ctx \<Rightarrow> JSBigInt option \<times> js_ctx" where
  "js_bigint_pow a b c =
     (if js_bigint_sign b \<noteq> 0 then (None, JS_ThrowRangeError ''BigInt negative exponent'' c)
      else if len b = 1 \<and> hd (tab b) = 0 then js_bigint_new_si 1 c
      else if len a = 1
      then
       (let v = hd (tab a)
        in if v \<le> 1 then js_bigint_new_si v c
           else if v = - 1 then js_bigint_new_si (1 - 2 * (hd (tab b) AND 1)) c
           else
            let is_neg = bit v 63;
                v = (if is_neg then - v else v)
            in if (v AND (v - 1)) = 0 then js_bigint_pow_2 v is_neg b c
               else js_bigint_pow_general a b c)
      else js_bigint_pow_general a b c)"

section \<open>Comparison\<close>

text \<open>The loop from the most significant limb down.\<close>

fun js_bigint_cmp_loop :: "js_limb_t list \<Rightarrow> js_limb_t list \<Rightarrow> int" where
  "js_bigint_cmp_loop (x # xs) (y # ys) =
     (if x \<noteq> y then (if x < y then - 1 else 1) else js_bigint_cmp_loop xs ys)"
| "js_bigint_cmp_loop _ _ = 0"

definition js_bigint_cmp :: "JSBigInt \<Rightarrow> JSBigInt \<Rightarrow> int" where
  "js_bigint_cmp a b =
     (let a_sign = js_bigint_sign a;
          b_sign = js_bigint_sign b
      in if a_sign \<noteq> b_sign then 1 - 2 * uint a_sign
         else if len a \<noteq> len b
         then (if len a < len b then 2 * uint a_sign - 1 else 1 - 2 * uint a_sign)
         else js_bigint_cmp_loop (rev (tab a)) (rev (tab b)))"

end
