(* ===== verification/BigInt_Rep.thy ===== *)
theory BigInt_Rep
  imports BigInt
begin

text \<open>
  The integers that limb arrays denote in two's complement, the normal form every BigInt has, and the
  contract of an operation that returns a BigInt: the value, the normal form, the balance of allocations
  and the two ways to fail.
\<close>

unbundle bit_operations_syntax

section \<open>Two's complement\<close>

definition limb_pow :: "nat \<Rightarrow> int" where
  "limb_pow n = int (limb_base ^ n)"

definition ival :: "js_limb_t list \<Rightarrow> int" where
  "ival xs = int (nval xs) - (if bit (last xs) 63 then limb_pow (length xs) else 0)"

definition normal :: "js_limb_t list \<Rightarrow> bool" where
  "normal xs \<longleftrightarrow> xs \<noteq> [] \<and> (length xs \<ge> 2 \<longrightarrow> significant (last xs) (last (butlast xs)))"

definition sign_limb :: "js_limb_t list \<Rightarrow> js_limb_t" where
  "sign_limb xs = (if bit (last xs) 63 then - 1 else 0)"

section \<open>The contract of the operations\<close>

text \<open>The context after an operation: requests were only added, and no assertion failed.\<close>

definition later :: "js_ctx \<Rightarrow> js_ctx \<Rightarrow> bool" where
  "later c c' \<longleftrightarrow> allocs c \<le> allocs c' \<and> grant c' = grant c \<and> junk c' = junk c
     \<and> assert_failed c' = assert_failed c"

definition refused :: "js_ctx \<Rightarrow> js_ctx \<Rightarrow> bool" where
  "refused c c' \<longleftrightarrow> (\<exists>i. allocs c \<le> i \<and> i < allocs c' \<and> \<not> grant c i)"

definition bigint :: "JSBigInt \<Rightarrow> bool" where
  "bigint x \<longleftrightarrow> ref_count x = 1 \<and> normal (tab x)"

text \<open>
  \<open>holds k c c'\<close>: \<open>k\<close> more blocks are allocated and the pending exception is the same, unless a
  request was refused on the way. \<open>fails n k c c'\<close>: an operation that asked for \<open>n\<close> limbs was stopped by
  the limit (a RangeError) or by a refused request.
\<close>

definition holds :: "int \<Rightarrow> js_ctx \<Rightarrow> js_ctx \<Rightarrow> bool" where
  "holds k c c' \<longleftrightarrow> later c c' \<and> blocks c' = blocks c + k \<and> (exn c' = exn c \<or> refused c c')"

definition fails :: "nat \<Rightarrow> int \<Rightarrow> js_ctx \<Rightarrow> js_ctx \<Rightarrow> bool" where
  "fails n k c c' \<longleftrightarrow> later c c' \<and> blocks c' = blocks c + k
     \<and> (JS_BIGINT_MAX_SIZE < n \<and> exn c' = Some (RangeError ''BigInt is too large to allocate'')
        \<or> refused c c' \<and> exn c' = Some OutOfMemory)"

text \<open>
  \<open>returns n z c (r, c')\<close>: from the context \<open>c\<close> the operation gives a new BigInt of value \<open>z\<close> and one more
  block, or it gives \<open>NULL\<close> and no block, because the \<open>n\<close> limbs it asks for are over the limit or because
  an allocation was refused.
\<close>

fun returns :: "nat \<Rightarrow> int \<Rightarrow> js_ctx \<Rightarrow> JSBigInt option \<times> js_ctx \<Rightarrow> bool" where
  "returns n z c (Some x, c') \<longleftrightarrow> bigint x \<and> ival (tab x) = z \<and> holds 1 c c'"
| "returns n z c (None, c') \<longleftrightarrow> fails n 0 c c'"

section \<open>Facts about the representation\<close>

lemma limb_half: "limb_base = 2 * 2 ^ 63"
  by (simp add: limb_base_def)

lemma limb_pow_pos [simp]: "0 < limb_pow n"
  by (simp add: limb_pow_def)

lemma limb_pow_0 [simp]: "limb_pow 0 = 1"
  by (simp add: limb_pow_def)

lemma limb_pow_Suc: "limb_pow (Suc n) = int limb_base * limb_pow n"
  by (simp add: limb_pow_def)

lemma limb_pow_add: "limb_pow (m + n) = limb_pow m * limb_pow n"
  by (simp add: limb_pow_def power_add)

lemma nval_less_pow: "int (nval xs) < limb_pow (length xs)"
  unfolding limb_pow_def using nval_less [of xs] by (simp only: of_nat_less_iff)

lemma nval_append_int: "int (nval (xs @ ys)) = int (nval xs) + limb_pow (length xs) * int (nval ys)"
  by (simp add: nval_append limb_pow_def)

lemma half_arith: "p + y \<le> (x :: nat) \<Longrightarrow> l < p \<Longrightarrow> \<not> 2 * x \<le> 2 * (l + y)"
  by simp

lemma nval_half:
  assumes "xs \<noteq> []"
  shows "bit (last xs) 63 \<longleftrightarrow> limb_base ^ length xs \<le> 2 * nval xs"
proof -
  let ?P = "limb_base ^ (length xs - 1)"
  have n: "nval xs = nval (butlast xs) + ?P * unat (last xs)"
    by (rule nval_butlast_last [OF assms])
  have low: "nval (butlast xs) < ?P"
    using nval_less [of "butlast xs"] by simp
  have B: "limb_base ^ length xs = 2 * (?P * 2 ^ 63)"
    using assms by (cases xs) (simp_all add: limb_half)
  show ?thesis
  proof (cases "bit (last xs) 63")
    case True
    then have "limb_base ^ length xs \<le> 2 * nval xs"
      unfolding n B limb_msb by (intro mult_le_mono2 trans_le_add2)
    then show ?thesis
      using True by simp
  next
    case False
    then have "?P * Suc (unat (last xs)) \<le> ?P * 2 ^ 63"
      by (intro mult_le_mono2) (simp add: limb_msb)
    then have "\<not> limb_base ^ length xs \<le> 2 * nval xs"
      unfolding n B mult_Suc_right using low by (rule half_arith)
    then show ?thesis
      using False by simp
  qed
qed

lemma nval_half_int:
  assumes "xs \<noteq> []"
  shows "bit (last xs) 63 \<longleftrightarrow> limb_pow (length xs) \<le> 2 * int (nval xs)"
  unfolding nval_half [OF assms] limb_pow_def by linarith

lemma ival_bounds:
  assumes "xs \<noteq> []"
  shows "- limb_pow (length xs) \<le> 2 * ival xs" and "2 * ival xs < limb_pow (length xs)"
  using nval_less_pow [of xs] nval_half_int [OF assms] by (simp_all add: ival_def)

lemma ival_cong: "limb_pow (length xs) dvd ival xs - int (nval xs)"
  by (simp add: ival_def)

lemma small_multiple:
  fixes P x :: int
  assumes "P dvd x" and "- P < x" and "x < P"
  shows "x = 0"
proof -
  have "\<bar>x\<bar> < \<bar>P\<bar>"
    using assms(2,3) by linarith
  then show ?thesis
    using assms(1) dvd_imp_le_int by (meson leD)
qed

text \<open>An array denotes the integer in its range that is congruent to its unsigned value.\<close>

lemma ival_eqI:
  assumes "xs \<noteq> []" and "limb_pow (length xs) dvd z - int (nval xs)"
    and "- (limb_pow (length xs)) \<le> 2 * z" and "2 * z < limb_pow (length xs)"
  shows "ival xs = z"
proof -
  have "limb_pow (length xs) dvd (ival xs - int (nval xs)) - (z - int (nval xs))"
    using ival_cong assms(2) by (rule dvd_diff)
  then have "limb_pow (length xs) dvd ival xs - z"
    by simp
  moreover have "- (limb_pow (length xs)) < ival xs - z" "ival xs - z < limb_pow (length xs)"
    using ival_bounds [OF assms(1)] assms(3,4) by linarith+
  ultimately have "ival xs - z = 0"
    by (rule small_multiple)
  then show ?thesis by simp
qed

lemma ival_inject:
  assumes "length xs = length ys" and "xs \<noteq> []"
  shows "ival xs = ival ys \<longleftrightarrow> xs = ys"
proof
  assume eq: "ival xs = ival ys"
  have "limb_pow (length xs) dvd (ival ys - int (nval ys)) - (ival xs - int (nval xs))"
    using ival_cong [of xs] ival_cong [of ys] assms(1) by (metis dvd_diff)
  then have "limb_pow (length xs) dvd int (nval xs) - int (nval ys)"
    by (simp add: eq)
  moreover have "- limb_pow (length xs) < int (nval xs) - int (nval ys)"
    "int (nval xs) - int (nval ys) < limb_pow (length xs)"
    using nval_less_pow [of xs] nval_less_pow [of ys] assms(1) by simp_all
  ultimately have "int (nval xs) - int (nval ys) = 0"
    by (rule small_multiple)
  then show "xs = ys"
    using nval_inject [OF assms(1)] by simp
qed simp

lemma minus_one_limb: "unat (- 1 :: js_limb_t) = limb_base - 1"
  by (simp add: unsigned_minus_1_eq_mask mask_eq_exp_minus_1 limb_base_def)

lemma significant_sign_limb: "\<not> significant v (last xs) \<longleftrightarrow> v = sign_limb xs"
proof -
  have one: "(- 1 :: js_limb_t) AND 1 = 1"
    by simp
  show ?thesis
    unfolding significant_def sign_limb_def limb_sign_bit limb_of_bool_def
    by (auto simp: one)
qed

lemma ival_snoc:
  assumes "xs \<noteq> []"
  shows "ival (xs @ [v]) = int (nval xs) + limb_pow (length xs) * sint v"
  by (simp add: sint_limb ival_def nval_append_int limb_pow_Suc [of "length xs"] algebra_simps)

lemma ival_sign_limb:
  assumes "xs \<noteq> []"
  shows "ival (xs @ [sign_limb xs]) = ival xs"
proof -
  have "ival (xs @ [sign_limb xs]) = int (nval xs) + limb_pow (length xs) * sint (sign_limb xs)"
    by (rule ival_snoc [OF assms])
  also have "\<dots> = ival xs"
    by (simp add: ival_def sign_limb_def)
  finally show ?thesis .
qed

lemma ival_not_significant:
  assumes "xs \<noteq> []" and "\<not> significant v (last xs)"
  shows "ival (xs @ [v]) = ival xs"
  using assms significant_sign_limb [of v xs] ival_sign_limb [OF assms(1)] by simp

lemma normal_snoc: "xs \<noteq> [] \<Longrightarrow> normal (xs @ [v]) \<longleftrightarrow> significant v (last xs)"
  by (cases xs) (simp_all add: normal_def)

lemma normal_single [simp]: "normal [v]"
  by (simp add: normal_def)

section \<open>Rules for the contract\<close>

lemma later_refl [simp]: "later c c"
  by (simp add: later_def)

lemma later_trans: "later c c' \<Longrightarrow> later c' c'' \<Longrightarrow> later c c''"
  by (simp add: later_def)

lemma refused_mono: "later c c' \<Longrightarrow> later c' c'' \<Longrightarrow> refused c c' \<or> refused c' c'' \<Longrightarrow> refused c c''"
  by (auto simp: refused_def later_def intro: less_le_trans order_trans)

lemma holds_refl [simp]: "holds 0 c c"
  by (simp add: holds_def)

lemma holds_trans:
  assumes "holds k c c'" and "holds l c' c''"
  shows "holds (k + l) c c''"
  using assms by (auto simp: holds_def intro: later_trans refused_mono)

lemma fails_after:
  assumes "holds k c c'" and "fails n l c' c''"
  shows "fails n (k + l) c c''"
  using assms by (auto simp: holds_def fails_def intro: later_trans refused_mono)

lemma fails_mono: "fails n k c c' \<Longrightarrow> n \<le> m \<Longrightarrow> fails m k c c'"
  by (auto simp: fails_def)

lemma holds_free [simp]: "holds k c (js_free c') \<longleftrightarrow> holds (k + 1) c c'"
  by (auto simp: holds_def js_free_def later_def refused_def)

lemma fails_free [simp]: "fails n k c (js_free c') \<longleftrightarrow> fails n (k + 1) c c'"
  by (auto simp: fails_def js_free_def later_def refused_def)

lemma js_malloc_contract:
  assumes "js_malloc c = (okay, c')"
  shows "okay \<Longrightarrow> holds 1 c c'" and "\<not> okay \<Longrightarrow> fails n 0 c c'"
  using assms by (auto simp: js_malloc_def Let_def holds_def fails_def later_def refused_def JS_ThrowOutOfMemory_def
      split: if_splits)

lemma js_realloc_contract:
  assumes "js_realloc c = (okay, c')"
  shows "holds 0 c c'" and "\<not> okay \<Longrightarrow> fails n 0 c c'"
  using assms by (auto simp: js_realloc_def Let_def holds_def fails_def later_def refused_def JS_ThrowOutOfMemory_def
      split: if_splits)

lemma js_bigint_new_contract:
  shows "js_bigint_new n c = (Some r, c') \<Longrightarrow> ref_count r = 1 \<and> len r = n \<and> n \<le> JS_BIGINT_MAX_SIZE \<and> holds 1 c c'"
    and "js_bigint_new n c = (None, c') \<Longrightarrow> fails n 0 c c'"
  by (auto simp: js_bigint_new_def fresh_def fails_def JS_ThrowRangeError_def later_def
      dest: js_malloc_contract split: if_splits bool.splits prod.splits)

text \<open>An operation allocates its result and goes on from there.\<close>

lemma js_bigint_new_returns:
  assumes "\<And>r c'. js_bigint_new n c = (Some r, c') \<Longrightarrow> ref_count r = 1 \<Longrightarrow> len r = n \<Longrightarrow> holds 1 c c' \<Longrightarrow>
    returns m z c (f r c')" and "n \<le> m"
  shows "returns m z c (case js_bigint_new n c of (None, c) \<Rightarrow> (None, c) | (Some r, c) \<Rightarrow> f r c)"
  using assms js_bigint_new_contract [of n c]
  by (auto split: prod.splits option.splits intro: fails_mono)

lemma js_bigint_new_with_returns:
  assumes "normal xs" and "ival xs = z" and "length xs \<le> m"
  shows "returns m z c (js_bigint_new_with xs c)"
  using assms js_bigint_new_contract [of "length xs" c]
  by (auto simp: js_bigint_new_with_def bigint_def split: prod.splits option.splits intro: fails_mono)

end
