(* ===== verification/BigInt_Arith.thy ===== *)
theory BigInt_Arith
  imports BigInt_Rep
begin

text \<open>
  The BigInt operations compute the operations on integers: addition, subtraction, negation and
  multiplication. Every lemma has the form of the contract \<open>returns\<close>.
\<close>

unbundle bit_operations_syntax

section \<open>Normalisation and extension\<close>

lemma js_bigint_norm_len_correct:
  assumes "0 < l" and "l \<le> length t"
  shows "0 < js_bigint_norm_len t l \<and> js_bigint_norm_len t l \<le> l
    \<and> normal (take (js_bigint_norm_len t l) t) \<and> ival (take (js_bigint_norm_len t l) t) = ival (take l t)"
  using assms
proof (induction t l rule: js_bigint_norm_len.induct)
  case (1 t l)
  have tk: "take (Suc (Suc l)) t = take (Suc l) t @ [t ! Suc l]"
    using 1 by (simp add: take_Suc_conv_app_nth)
  have last: "last (take (Suc l) t) = t ! l" and ne: "take (Suc l) t \<noteq> []"
    using 1 by (auto simp: take_Suc_conv_app_nth)
  show ?case
  proof (cases "significant (t ! Suc l) (t ! l)")
    case True
    then show ?thesis
      using tk normal_snoc [OF ne] last by simp
  next
    case False
    then have "ival (take (Suc (Suc l)) t) = ival (take (Suc l) t)"
      using tk ival_not_significant [OF ne] last by simp
    then show ?thesis
      using 1 False by auto
  qed
qed (auto simp: normal_def)

lemma js_bigint_normalize1_returns:
  assumes "ref_count a = 1" and "0 < l" and "l \<le> len a" and "ival (take l (tab a)) = z" and "holds 1 c c1"
  shows "returns n z c (let (r, c) = js_bigint_normalize1 a l c1 in (Some r, c))"
proof -
  note len = js_bigint_norm_len_correct [OF assms(2,3)]
  have "holds 1 c (snd (js_realloc c1))"
    using holds_trans [OF assms(5) js_realloc_contract(1)] by (metis add.right_neutral prod.collapse)
  then show ?thesis
    using assms len by (auto simp: js_bigint_normalize1_def js_assert_def bigint_def Let_def)
qed

lemma js_bigint_normalize_returns:
  assumes "ref_count a = 1" and "tab a \<noteq> []" and "ival (tab a) = z" and "holds 1 c c1"
  shows "returns n z c (let (r, c) = js_bigint_normalize a c1 in (Some r, c))"
  unfolding js_bigint_normalize_def
  using assms by (intro js_bigint_normalize1_returns) auto

lemma js_bigint_extend_returns:
  assumes "ref_count r = 1" and "tab r \<noteq> []" and "ival (tab r @ [v]) = z" and "holds 1 c c1"
  shows "returns n z c (js_bigint_extend r v c1)"
proof (cases "significant v (last (tab r))")
  case True
  obtain b c2 where s: "js_realloc c1 = (b, c2)"
    by (cases "js_realloc c1")
  show ?thesis
  proof (cases b)
    case b: True
    have "holds 1 c c2"
      using holds_trans [OF assms(4) js_realloc_contract(1) [OF s]] by simp
    then show ?thesis
      using True b s assms normal_snoc [OF assms(2)] by (simp add: js_bigint_extend_def bigint_def)
  next
    case b: False
    have "fails n 1 c c2"
      using fails_after [OF assms(4) js_realloc_contract(2) [OF s b]] by simp
    then show ?thesis
      using True b s by (simp add: js_bigint_extend_def)
  qed
next
  case False
  then have "ival (tab r) = z"
    using assms(2,3) ival_not_significant by simp
  then show ?thesis
    using False js_bigint_normalize_returns [OF assms(1,2) _ assms(4)]
    by (simp add: js_bigint_extend_def)
qed

section \<open>Signs\<close>

lemma js_bigint_sign_limb: "- js_bigint_sign a = sign_limb (tab a)"
  by (simp add: js_bigint_sign_def sign_limb_def limb_sign_bit limb_of_bool_def)

lemma js_bigint_sign_neg: "tab a \<noteq> [] \<Longrightarrow> js_bigint_sign a \<noteq> 0 \<longleftrightarrow> ival (tab a) < 0"
  using nval_less_pow [of "tab a"] by (simp add: js_bigint_sign_def limb_sign_bit ival_def)

lemma ival_sign_iff: "xs \<noteq> [] \<Longrightarrow> bit (last xs) 63 \<longleftrightarrow> ival xs < 0"
  using nval_less_pow [of xs] by (simp add: ival_def)

text \<open>Sign extension to any length.\<close>

definition sext :: "nat \<Rightarrow> js_limb_t list \<Rightarrow> js_limb_t list" where
  "sext n xs = xs @ replicate (n - length xs) (sign_limb xs)"

lemma last_replicate_sign: "xs \<noteq> [] \<Longrightarrow> sign_limb (xs @ replicate k (sign_limb xs)) = sign_limb xs"
  by (cases k) (auto simp: sign_limb_def)

lemma ival_replicate_sign:
  assumes "xs \<noteq> []"
  shows "ival (xs @ replicate k (sign_limb xs)) = ival xs"
proof (induction k)
  case (Suc k)
  let ?ys = "xs @ replicate k (sign_limb xs)"
  have "xs @ replicate (Suc k) (sign_limb xs) = ?ys @ [sign_limb ?ys]"
    by (simp only: last_replicate_sign [OF assms] replicate_append_same [symmetric] replicate_Suc append_assoc)
  then show ?case
    using Suc ival_sign_limb [of ?ys] assms by simp
qed simp

lemma ival_sext [simp]: "xs \<noteq> [] \<Longrightarrow> ival (sext n xs) = ival xs"
  unfolding sext_def by (rule ival_replicate_sign)

lemma length_sext [simp]: "length xs \<le> n \<Longrightarrow> length (sext n xs) = n"
  by (simp add: sext_def)

lemma sign_limb_sext [simp]: "xs \<noteq> [] \<Longrightarrow> sign_limb (sext n xs) = sign_limb xs"
  by (simp add: sext_def last_replicate_sign)

section \<open>Complement\<close>

lemma nval_complement: "int (nval (map (\<lambda>x. NOT x) xs)) = limb_pow (length xs) - 1 - int (nval xs)"
proof (induction xs)
  case (Cons x xs)
  have "int (unat (NOT x)) = int limb_base - 1 - int (unat x)"
  proof -
    have "unat (NOT x) + unat x + 1 = limb_base"
      using unat_limb_less [of x] by (simp only: limb_not)
    then show ?thesis by linarith
  qed
  moreover have "int limb_base * int (nval (map (\<lambda>x. NOT x) xs))
      = int limb_base * (limb_pow (length xs) - 1 - int (nval xs))"
    by (simp only: Cons)
  ultimately show ?case
    by (simp add: limb_pow_Suc algebra_simps)
qed simp

lemma ival_complement:
  assumes "xs \<noteq> []"
  shows "ival (map (\<lambda>x. NOT x) xs) = - 1 - ival xs"
proof -
  have "bit (last (map (\<lambda>x. NOT x) xs)) 63 \<longleftrightarrow> \<not> bit (last xs) 63"
    using assms by (simp add: last_map bit_simps)
  then show ?thesis
    by (simp add: ival_def nval_complement)
qed

section \<open>Addition and subtraction\<close>

lemma mp_add_append:
  assumes "length xs1 = length ys1"
  shows "mp_add (xs1 @ xs2) (ys1 @ ys2) k =
    (let (l, c) = mp_add xs1 ys1 k; (h, c) = mp_add xs2 ys2 c in (l @ h, c))"
  using assms by (induction xs1 ys1 arbitrary: k rule: list_induct2) (auto split: prod.splits)

lemma sign_limb_value:
  "int (nval xs) + limb_pow (length xs) * int (unat (sign_limb xs))
     = ival xs + (if bit (last xs) 63 then limb_pow (Suc (length xs)) else 0)"
proof -
  have "int (unat (- 1 :: js_limb_t)) = int limb_base - 1"
    using minus_one_limb limb_base_gt_1 by simp
  then show ?thesis
    by (simp add: sign_limb_def ival_def limb_pow_Suc right_diff_distrib mult.commute)
qed

text \<open>The sum of two arrays of the same length, with the limb that both sign extensions and the carry give.\<close>

lemma ival_sum:
  assumes "length xs = length ys" and "xs \<noteq> []" and add: "mp_add xs ys (limb_of_bool b) = (zs, c)"
  shows "ival (zs @ [sign_limb xs + sign_limb ys + c]) = ival xs + ival ys + of_bool b"
proof (rule ival_eqI)
  let ?P = "limb_pow (length xs)"
  let ?v = "sign_limb xs + sign_limb ys + c"
  from mp_add_correct [OF assms(1) add refl]
  have len: "length zs = length xs"
    and "nval zs + limb_base ^ length xs * unat c = nval xs + nval ys + of_bool b"
    by simp_all
  then have zs: "int (nval zs) + ?P * int (unat c) = int (nval xs) + int (nval ys) + of_bool b"
    unfolding limb_pow_def by (metis of_nat_add of_nat_mult of_nat_of_bool)
  define w where "w = unat (sign_limb xs) + unat (sign_limb ys) + unat c"
  have "unat ?v = w mod limb_base"
    by (simp add: w_def limb_add mod_simps)
  then have "int w = int (unat ?v) + int limb_base * int (w div limb_base)"
    by (metis mod_mult_div_eq of_nat_add of_nat_mult)
  then have v: "?P * int (unat ?v) = ?P * int w - limb_pow (Suc (length xs)) * int (w div limb_base)"
    by (simp add: limb_pow_Suc algebra_simps)
  have w: "?P * int w = ?P * int (unat (sign_limb xs)) + ?P * int (unat (sign_limb ys)) + ?P * int (unat c)"
    by (simp add: w_def algebra_simps)
  define ex ey where "ex = (if bit (last xs) 63 then limb_pow (Suc (length xs)) else 0)"
    and "ey = (if bit (last ys) 63 then limb_pow (Suc (length xs)) else 0)"
  have "int (nval xs) + ?P * int (unat (sign_limb xs)) = ival xs + ex"
    "int (nval ys) + ?P * int (unat (sign_limb ys)) = ival ys + ey"
    using sign_limb_value [of xs] sign_limb_value [of ys] assms(1) by (simp_all only: ex_def ey_def)
  moreover have "int (nval (zs @ [?v])) = int (nval zs) + ?P * int (unat ?v)"
    by (simp add: nval_append_int len)
  ultimately have "ival xs + ival ys + of_bool b - int (nval (zs @ [?v]))
      = limb_pow (Suc (length xs)) * int (w div limb_base) - ex - ey"
    using zs v w by linarith
  moreover have "limb_pow (Suc (length xs)) dvd \<dots>"
    by (intro dvd_diff) (auto simp: ex_def ey_def)
  ultimately show "limb_pow (length (zs @ [?v])) dvd ival xs + ival ys + of_bool b - int (nval (zs @ [?v]))"
    by (simp only: length_append_singleton len)
  have "ys \<noteq> []"
    using assms(1,2) by auto
  note bounds = ival_bounds [OF assms(2)] ival_bounds [OF this]
  have "3 \<le> int limb_base"
    by (simp add: limb_base_def)
  then have "3 * ?P \<le> limb_pow (Suc (length xs))"
    unfolding limb_pow_Suc by (intro mult_right_mono) (simp_all add: less_imp_le)
  moreover have "of_bool b \<le> (1 :: int)" "0 \<le> (of_bool b :: int)" "0 < ?P"
    by simp_all
  ultimately show "- limb_pow (length (zs @ [?v])) \<le> 2 * (ival xs + ival ys + of_bool b)"
    "2 * (ival xs + ival ys + of_bool b) < limb_pow (length (zs @ [?v]))"
    using bounds assms(1) len by simp_all
qed simp

definition xor_neg :: "bool \<Rightarrow> js_limb_t list \<Rightarrow> js_limb_t list" where
  "xor_neg b xs = map (\<lambda>x. x XOR - limb_of_bool b) xs"

lemma xor_neg_simps: "xor_neg False xs = xs" "xor_neg True xs = map (\<lambda>x. NOT x) xs"
  by (simp_all add: xor_neg_def limb_of_bool_def)

lemma ival_xor_neg:
  "xs \<noteq> [] \<Longrightarrow> ival (xor_neg b xs) + of_bool b = (if b then - ival xs else ival xs)"
  by (cases b) (simp_all add: xor_neg_simps ival_complement)

lemma sign_limb_xor_neg:
  "xs \<noteq> [] \<Longrightarrow> sign_limb (xor_neg b xs) = sign_limb xs XOR - limb_of_bool b"
  by (cases b) (simp_all add: xor_neg_simps sign_limb_def limb_of_bool_def last_map bit_simps)

lemma js_bigint_add_sum:
  fixes neg :: bool
  assumes "tab a \<noteq> []" and "tab b \<noteq> []"
  defines "n \<equiv> max (len a) (len b)"
  defines "ys \<equiv> xor_neg neg (tab b)"
  shows "js_bigint_add a b (limb_of_bool neg) c =
    (case js_bigint_new n c of
       (None, c) \<Rightarrow> (None, c)
     | (Some r, c) \<Rightarrow>
        (let (zs, carry) = mp_add (sext n (tab a)) (sext n ys) (limb_of_bool neg)
         in js_bigint_extend (r \<lparr>tab := zs\<rparr>) (sign_limb (tab a) + sign_limb ys + carry) c))"
proof -
  define k where "k = min (len a) (len b)"
  have ys: "length ys = len b" "ys \<noteq> []" "sign_limb ys = sign_limb (tab b) XOR - limb_of_bool neg"
    "map (\<lambda>x. x XOR - limb_of_bool neg) (take k (tab b)) = take k ys"
    "map (\<lambda>x. x XOR - limb_of_bool neg) (drop k (tab b)) = drop k ys"
    using assms(2) sign_limb_xor_neg [OF assms(2), of neg]
    by (simp_all add: ys_def xor_neg_def take_map drop_map)
  have l: "length (take k (tab a)) = length (take k ys)"
    using ys(1) by (simp add: k_def)
  have eq: "mp_add (sext n (tab a)) (sext n ys) (limb_of_bool neg) =
    (let (low, carry) = mp_add (take k (tab a)) (take k ys) (limb_of_bool neg);
         (high, carry) =
           (if len a > len b then mp_add (drop k (tab a)) (replicate (n - k) (sign_limb ys)) carry
            else if len a < len b then mp_add (replicate (n - k) (sign_limb (tab a))) (drop k ys) carry
            else ([], carry))
     in (low @ high, carry))"
  proof -
    consider "len b < len a" | "len a < len b" | "len a = len b"
      by linarith
    then show ?thesis
    proof cases
      case 1
      then have "sext n (tab a) = take k (tab a) @ drop k (tab a)"
        "sext n ys = take k ys @ replicate (n - k) (sign_limb ys)"
        using ys(1) by (simp_all add: sext_def n_def k_def)
      then show ?thesis
        using 1 by (simp only: mp_add_append [OF l]) (simp add: Let_def)
    next
      case 2
      then have "sext n (tab a) = take k (tab a) @ replicate (n - k) (sign_limb (tab a))"
        "sext n ys = take k ys @ drop k ys"
        using ys(1) by (simp_all add: sext_def n_def k_def)
      then show ?thesis
        using 2 by (simp only: mp_add_append [OF l]) (simp add: Let_def)
    next
      case 3
      then show ?thesis
        using ys(1) by (simp add: sext_def n_def k_def)
    qed
  qed
  show ?thesis
    unfolding js_bigint_add_def js_bigint_sign_limb ys(3) [symmetric] eq
    unfolding Let_def n_def [symmetric] k_def [symmetric] ys(4,5)
    by (simp add: split_beta split: option.splits)
qed

lemma js_bigint_add_returns:
  assumes "tab a \<noteq> []" and "tab b \<noteq> []"
  shows "returns (max (len a) (len b)) (ival (tab a) + (if neg then - ival (tab b) else ival (tab b))) c
    (js_bigint_add a b (limb_of_bool neg) c)"
proof -
  let ?n = "max (len a) (len b)"
  let ?ys = "xor_neg neg (tab b)"
  obtain zs carry where s: "mp_add (sext ?n (tab a)) (sext ?n ?ys) (limb_of_bool neg) = (zs, carry)"
    by (cases "mp_add (sext ?n (tab a)) (sext ?n ?ys) (limb_of_bool neg)")
  have ys: "?ys \<noteq> []" "length ?ys = len b"
    using assms(2) by (simp_all add: xor_neg_def)
  have len: "length (sext ?n (tab a)) = length (sext ?n ?ys)" "sext ?n (tab a) \<noteq> []"
    using ys(2) assms(1) by (simp_all add: sext_def)
  have "ival (zs @ [sign_limb (tab a) + sign_limb ?ys + carry]) = ival (tab a) + ival ?ys + of_bool neg"
    using ival_sum [OF len s] assms(1) ys(1) by simp
  moreover have "zs \<noteq> []"
    using mp_add_correct [OF len(1) s refl] len(2) by (metis length_0_conv)
  ultimately show ?thesis
    unfolding js_bigint_add_sum [OF assms] using ival_xor_neg [OF assms(2), of neg]
    by (intro js_bigint_new_returns) (auto simp: s intro!: js_bigint_extend_returns)
qed

lemma js_bigint_neg_returns:
  assumes "tab a \<noteq> []"
  shows "returns (len a) (- ival (tab a)) c (js_bigint_neg a c)"
proof -
  have "returns (max 1 (len a)) (- ival (tab a)) c (js_bigint_add (js_bigint_set_si 0) a (limb_of_bool True) c)"
    using js_bigint_add_returns [of "js_bigint_set_si 0" a True c] assms
    by (simp add: js_bigint_set_si_def ival_def)
  moreover have "max 1 (len a) = len a"
    using assms by (cases "tab a") simp_all
  ultimately show ?thesis
    by (simp add: js_bigint_neg_def limb_of_bool_def)
qed

section \<open>Multiplication\<close>

text \<open>Subtracting an array from the upper part of another one, modulo the size of the whole.\<close>

lemma sub_at:
  assumes "length t = i + length ys"
  defines "t' \<equiv> store_at i (fst (mp_sub (limbs_at i (length ys) t) ys 0)) t"
  shows "length t' = length t" and "limb_pow (length t) dvd int (nval t) - limb_pow i * int (nval ys) - int (nval t')"
proof -
  obtain zs c where s: "mp_sub (limbs_at i (length ys) t) ys 0 = (zs, c)"
    by (cases "mp_sub (limbs_at i (length ys) t) ys 0")
  have len: "length (limbs_at i (length ys) t) = length ys"
    using assms(1) by simp
  have "(0 :: js_limb_t) = limb_of_bool False"
    by (simp add: limb_of_bool_def)
  from mp_sub_correct [OF len s this]
  have zs: "length zs = length ys"
    "nval zs + nval ys = nval (limbs_at i (length ys) t) + limb_base ^ length ys * unat c"
    using len by simp_all
  then show "length t' = length t"
    using assms(1) by (simp add: t'_def s)
  have zi: "int (nval zs) + int (nval ys) = int (nval (limbs_at i (length ys) t)) + limb_pow (length ys) * int (unat c)"
    using zs(2) unfolding limb_pow_def by (metis of_nat_add of_nat_mult)
  have "t' = take i t @ zs" and "t = take i t @ limbs_at i (length ys) t"
    using assms(1) zs(1) split_at [of i "length ys" t] by (simp_all add: t'_def s store_at_def)
  then have "int (nval t') = int (nval (take i t)) + limb_pow i * int (nval zs)"
    and "int (nval t) = int (nval (take i t)) + limb_pow i * int (nval (limbs_at i (length ys) t))"
    using assms(1) nval_append_int [of "take i t"] by (metis length_take min.absorb2 le_add1)+
  then have "int (nval t) - limb_pow i * int (nval ys) - int (nval t')
      = limb_pow i * (int (nval (limbs_at i (length ys) t)) - int (nval ys) - int (nval zs))"
    by (simp add: algebra_simps)
  also have "int (nval (limbs_at i (length ys) t)) - int (nval ys) - int (nval zs) = - limb_pow (length ys) * int (unat c)"
    using zi by simp
  also have "limb_pow i * (- limb_pow (length ys) * int (unat c)) = - limb_pow (length t) * int (unat c)"
    by (simp add: assms(1) limb_pow_add)
  finally show "limb_pow (length t) dvd int (nval t) - limb_pow i * int (nval ys) - int (nval t')"
    by simp
qed

lemma product_range:
  fixes a b p q :: int
  assumes "- p \<le> 2 * a" "2 * a \<le> p" "- q \<le> 2 * b" "2 * b \<le> q" "0 < p" "0 < q"
  shows "- (p * q) \<le> 2 * (a * b)" and "2 * (a * b) < p * q"
proof -
  have "\<bar>2 * a\<bar> * \<bar>2 * b\<bar> \<le> p * q"
    using assms by (intro mult_mono) auto
  then have "\<bar>4 * (a * b)\<bar> \<le> p * q"
    by (simp add: abs_mult)
  moreover have "0 < p * q"
    using assms(5,6) by simp
  ultimately show "- (p * q) \<le> 2 * (a * b)" and "2 * (a * b) < p * q"
    by linarith+
qed

lemma ival_product:
  assumes a: "xs \<noteq> []" and b: "ys \<noteq> []" and t: "length t = length xs + length ys" and prod: "nval t = nval xs * nval ys"
  defines "t1 \<equiv> (if bit (last xs) 63 then store_at (length xs) (fst (mp_sub (limbs_at (length xs) (length ys) t) ys 0)) t else t)"
  defines "t2 \<equiv> (if bit (last ys) 63 then store_at (length ys) (fst (mp_sub (limbs_at (length ys) (length xs) t1) xs 0)) t1 else t1)"
  shows "length t2 = length t" and "ival t2 = ival xs * ival ys"
proof -
  let ?P = "limb_pow (length xs)" and ?Q = "limb_pow (length ys)"
  define s r where "s = (if bit (last xs) 63 then 1 else 0 :: int)" and "r = (if bit (last ys) 63 then 1 else 0 :: int)"
  have PQ: "limb_pow (length t) = ?P * ?Q"
    by (simp add: t limb_pow_add)
  have t1: "length t1 = length t" "?P * ?Q dvd int (nval t) - s * ?P * int (nval ys) - int (nval t1)"
    using sub_at [of t "length xs" ys] t by (simp_all add: t1_def s_def limb_pow_add mult.commute)
  have t2: "length t2 = length t" "?P * ?Q dvd int (nval t1) - r * ?Q * int (nval xs) - int (nval t2)"
    using sub_at [of t1 "length ys" xs] t t1(1) by (simp_all add: t2_def r_def limb_pow_add mult.commute)
  then show "length t2 = length t" by simp
  have iv: "ival xs = int (nval xs) - s * ?P" "ival ys = int (nval ys) - r * ?Q"
    by (simp_all add: ival_def s_def r_def)
  have "ival xs * ival ys - int (nval t2)
      = (int (nval t) - s * ?P * int (nval ys) - int (nval t1)) + (int (nval t1) - r * ?Q * int (nval xs) - int (nval t2))
        + ?P * ?Q * (s * r)"
    by (simp add: iv prod algebra_simps)
  also have "?P * ?Q dvd \<dots>"
    using t1(2) t2(2) by (intro dvd_add) auto
  finally have "limb_pow (length t2) dvd ival xs * ival ys - int (nval t2)"
    by (simp only: t2(1) PQ)
  then show "ival t2 = ival xs * ival ys"
  proof (rule ival_eqI [rotated])
    show "t2 \<noteq> []"
      using t2(1) t a by auto
    show "- limb_pow (length t2) \<le> 2 * (ival xs * ival ys)" "2 * (ival xs * ival ys) < limb_pow (length t2)"
      unfolding t2(1) PQ using ival_bounds [OF a] ival_bounds [OF b]
      by (auto intro!: product_range simp: less_imp_le)
  qed
qed

lemma js_bigint_mul_returns:
  assumes a: "tab a \<noteq> []" and b: "tab b \<noteq> []"
  shows "returns (len a + len b) (ival (tab a) * ival (tab b)) c (js_bigint_mul a b c)"
  unfolding js_bigint_mul_def
proof (rule js_bigint_new_returns)
  fix r c'
  assume r: "ref_count r = 1" "len r = len a + len b" and h: "holds 1 c c'"
  let ?t = "mp_mul_basecase (tab r) (tab a) (tab b)"
  have t: "length ?t = len a + len b" "nval ?t = nval (tab a) * nval (tab b)"
    using mp_mul_basecase_correct [OF r(2) b] r(2) by simp_all
  have sign: "js_bigint_sign x \<noteq> 0 \<longleftrightarrow> bit (last (tab x)) 63" for x
    by (simp add: js_bigint_sign_def limb_sign_bit)
  show "returns (len a + len b) (ival (tab a) * ival (tab b)) c
     (let t = ?t;
          t = if js_bigint_sign a \<noteq> 0
              then store_at (len a) (fst (mp_sub (limbs_at (len a) (len b) t) (tab b) 0)) t else t;
          t = if js_bigint_sign b \<noteq> 0
              then store_at (len b) (fst (mp_sub (limbs_at (len b) (len a) t) (tab a) 0)) t else t;
          (r, c) = js_bigint_normalize (r\<lparr>tab := t\<rparr>) c'
      in (Some r, c))"
    unfolding Let_def sign
    using ival_product [OF a b t] r(1) h a t(1)
    by (intro js_bigint_normalize_returns [unfolded Let_def]) auto
qed simp

end
