(* ===== verification/BigInt_Div.thy ===== *)
theory BigInt_Div
  imports BigInt_Arith "HOL-Library.Signed_Division"
begin

text \<open>
  Division and remainder of BigInts: they truncate towards zero, the remainder has the sign of the
  dividend. The functions return for every input.
\<close>

unbundle bit_operations_syntax

section \<open>Normal forms are unique\<close>

lemma normal_large:
  assumes "normal xs" and "length xs = Suc n" and "0 < n"
  shows "limb_pow n \<le> 2 * ival xs \<or> 2 * ival xs < - limb_pow n"
proof -
  obtain ys v where xs: "xs = ys @ [v]" and len: "length ys = n" and ne: "ys \<noteq> []"
    using assms(2,3) by (cases xs rule: rev_cases) auto
  have v: "v \<noteq> sign_limb ys"
    using assms(1) normal_snoc [OF ne] significant_sign_limb [of v ys] by (auto simp: xs)
  have iv: "ival xs = int (nval ys) + limb_pow n * sint v"
    using ival_snoc [OF ne] by (simp add: xs len)
  have lt: "int (nval ys) < limb_pow n"
    using nval_less_pow [of ys] by (simp add: len)
  have half: "bit (last ys) 63 \<longleftrightarrow> limb_pow n \<le> 2 * int (nval ys)"
    using nval_half_int [OF ne] by (simp add: len)
  consider "1 \<le> sint v" | "sint v = 0" | "sint v = - 1" | "sint v \<le> - 2"
    by linarith
  then show ?thesis
  proof cases
    case 1
    then have "limb_pow n * 1 \<le> limb_pow n * sint v"
      by (intro mult_left_mono) (simp_all add: less_imp_le)
    then have "limb_pow n \<le> ival xs"
      by (simp only: iv mult_1_right)
    then show ?thesis
      using limb_pow_pos [of n] by linarith
  next
    case 2
    then have "v = 0"
      by (simp add: signed_eq_0_iff)
    then show ?thesis
      using v half by (simp add: iv sign_limb_def split: if_splits)
  next
    case 3
    then have "sint v = sint (- 1 :: js_limb_t)"
      by simp
    then have "v = - 1"
      by (simp only: signed_word_eqI)
    then show ?thesis
      using v half by (simp add: iv sign_limb_def split: if_splits)
  next
    case 4
    then have "limb_pow n * sint v \<le> limb_pow n * - 2"
      by (intro mult_left_mono) (simp_all add: less_imp_le)
    then have "2 * ival xs < - limb_pow n"
      using lt iv by linarith
    then show ?thesis ..
  qed
qed

lemma limb_pow_mono: "m \<le> n \<Longrightarrow> limb_pow m \<le> limb_pow n"
  unfolding limb_pow_def of_nat_le_iff by (rule power_increasing) (simp_all add: Suc_le_eq)

lemma normal_shorter:
  assumes "normal xs" and "normal ys" and "length xs < length ys"
  shows "(0 \<le> ival ys \<longrightarrow> ival xs < ival ys) \<and> (ival ys < 0 \<longrightarrow> ival ys < ival xs)"
proof -
  obtain n where n: "length ys = Suc n" "0 < n" "length xs \<le> n"
    using assms by (cases "length ys") (auto simp: normal_def)
  have "limb_pow (length xs) \<le> limb_pow n"
    using n(3) by (rule limb_pow_mono)
  moreover have "xs \<noteq> []"
    using assms(1) by (simp add: normal_def)
  ultimately show ?thesis
    using normal_large [OF assms(2) n(1,2)] ival_bounds [of xs] by auto
qed

lemma normal_unique:
  assumes "normal xs" and "normal ys" and "ival xs = ival ys"
  shows "xs = ys"
proof -
  have "length xs = length ys"
    using normal_shorter [OF assms(1,2)] normal_shorter [OF assms(2,1)] assms(3)
    by (metis less_irrefl linorder_neqE_nat not_less)
  then show ?thesis
    using ival_inject assms by (auto simp: normal_def)
qed

lemma normal_zero: "normal xs \<Longrightarrow> ival xs = 0 \<longleftrightarrow> xs = [0]"
  using normal_unique [of xs "[0]"] by (auto simp: ival_def)

section \<open>Absolute values\<close>

lemma nval_mp_abs:
  assumes "tab a \<noteq> []"
  shows "int (nval (mp_abs (js_bigint_sign a) (tab a))) = \<bar>ival (tab a)\<bar>"
    and "length (mp_abs (js_bigint_sign a) (tab a)) = len a"
proof -
  obtain res c where s: "mp_neg (tab a) = (res, c)"
    by (cases "mp_neg (tab a)")
  note neg = mp_neg_correct [OF s]
  have sign: "js_bigint_sign a \<noteq> 0 \<longleftrightarrow> bit (last (tab a)) 63"
    by (simp add: js_bigint_sign_def limb_sign_bit)
  show "length (mp_abs (js_bigint_sign a) (tab a)) = len a"
    using neg by (simp add: mp_abs_def s)
  show "int (nval (mp_abs (js_bigint_sign a) (tab a))) = \<bar>ival (tab a)\<bar>"
  proof (cases "bit (last (tab a)) 63")
    case True
    then have "limb_pow (len a) \<le> 2 * int (nval (tab a))"
      using nval_half_int [OF assms] by simp
    then have pos: "0 < nval (tab a)"
      using limb_pow_pos [of "len a"] by linarith
    then have "nval res = limb_base ^ len a - nval (tab a)"
      using neg(2) nval_less [of "tab a"] by simp
    then have "int (nval res) = limb_pow (len a) - int (nval (tab a))"
      using nval_less [of "tab a"] by (simp add: limb_pow_def of_nat_diff)
    then show ?thesis
      using True sign nval_less_pow [of "tab a"] by (simp add: mp_abs_def s ival_def)
  next
    case False
    then show ?thesis
      using sign by (simp add: mp_abs_def ival_def)
  qed
qed

lemma ival_mp_abs_small:
  assumes "xs \<noteq> []" and "last xs = 0"
  shows "ival (mp_abs s xs) = (if s \<noteq> 0 then - int (nval xs) else int (nval xs))"
    and "length (mp_abs s xs) = length xs"
proof -
  obtain res c where r: "mp_neg xs = (res, c)"
    by (cases "mp_neg xs")
  note neg = mp_neg_correct [OF r]
  show "length (mp_abs s xs) = length xs"
    using neg by (simp add: mp_abs_def r)
  have half: "2 * int (nval xs) < limb_pow (length xs)"
    using nval_half_int [OF assms(1)] assms(2) by simp
  have "ival res = - int (nval xs)"
  proof (rule ival_eqI)
    show "res \<noteq> []"
      using neg(1) assms(1) by auto
    have "int (nval res) = (limb_pow (length xs) - int (nval xs)) mod limb_pow (length xs)"
      using neg(2) nval_less [of xs] by (simp add: limb_pow_def zmod_int of_nat_diff)
    then have "- int (nval xs) - int (nval res) = - int (nval xs) - (- int (nval xs)) mod limb_pow (length xs)"
      by simp
    then show "limb_pow (length res) dvd - int (nval xs) - int (nval res)"
      using neg(1) by (simp only: minus_mod_eq_mult_div) simp
    show "- limb_pow (length res) \<le> 2 * - int (nval xs)" "2 * - int (nval xs) < limb_pow (length res)"
      using half neg(1) limb_pow_pos [of "length res"] by simp_all
  qed
  then show "ival (mp_abs s xs) = (if s \<noteq> 0 then - int (nval xs) else int (nval xs))"
    using assms(2) ival_def [of xs] by (simp add: mp_abs_def r)
qed

section \<open>Leading zero limbs\<close>

lemma strip_zeros_correct:
  assumes "0 < n" and "n \<le> length t"
  shows "0 < strip_zeros t n \<and> strip_zeros t n \<le> n \<and> nval (take (strip_zeros t n) t) = nval (take n t)
    \<and> (1 < strip_zeros t n \<longrightarrow> t ! (strip_zeros t n - 1) \<noteq> 0)"
  using assms
proof (induction t n rule: strip_zeros.induct)
  case (1 t n)
  have "take (Suc (Suc n)) t = take (Suc n) t @ [t ! Suc n]"
    using 1 by (simp add: take_Suc_conv_app_nth)
  then show ?case
    using 1 by (auto simp: nval_append)
qed auto

section \<open>Normalising the divisor\<close>

lemma top_limb_half:
  assumes "xs \<noteq> []" and "limb_base ^ (length xs - 1) * 2 ^ 63 \<le> nval xs"
  shows "2 ^ 63 \<le> unat (last xs)"
proof (rule ccontr)
  assume "\<not> 2 ^ 63 \<le> unat (last xs)"
  then have "Suc (unat (last xs)) \<le> 2 ^ 63"
    by linarith
  then have "limb_base ^ (length xs - 1) * Suc (unat (last xs)) \<le> limb_base ^ (length xs - 1) * 2 ^ 63"
    by (rule mult_le_mono2)
  moreover have "nval (butlast xs) < limb_base ^ (length xs - 1)"
    using nval_less [of "butlast xs"] by simp
  moreover have "nval xs = nval (butlast xs) + limb_base ^ (length xs - 1) * unat (last xs)"
    by (rule nval_butlast_last [OF assms(1)])
  ultimately have "nval xs < limb_base ^ (length xs - 1) * 2 ^ 63"
    by (simp only: mult_Suc_right)
  with assms(2) show False by linarith
qed

lemma take_store_0: "length ys \<le> length xs \<Longrightarrow> n = length ys \<Longrightarrow> take n (store_at 0 ys xs) = ys"
  by (simp add: store_at_def)

lemma shl_divisor:
  assumes xs: "xs \<noteq> []" and top: "last xs \<noteq> 0"
  defines "s \<equiv> js_limb_clz (last xs)"
  defines "ys \<equiv> (if s \<noteq> 0 then fst (mp_shl xs s) else xs)"
  shows "normal_divisor ys" and "length ys = length xs" and "nval ys = nval xs * 2 ^ s"
proof -
  let ?P = "limb_base ^ (length xs - 1)"
  note clz = js_limb_clz_correct [OF top, folded s_def]
  obtain zs h where z: "mp_shl xs s = (zs, h)"
    by (cases "mp_shl xs s")
  note shl = mp_shl_correct [OF z clz(1)]
  have nv: "nval xs = nval (butlast xs) + ?P * unat (last xs)"
    by (rule nval_butlast_last [OF xs])
  have P: "limb_base ^ length xs = ?P * limb_base"
    using xs by (cases xs) simp_all
  have low: "nval (butlast xs) < ?P"
    using nval_less [of "butlast xs"] by simp
  have "nval xs * 2 ^ s < limb_base ^ length xs"
  proof -
    have "unat (last xs) * 2 ^ s + 2 ^ s \<le> limb_base"
    proof -
      have B: "limb_base = 2 ^ (64 - s) * 2 ^ s"
        using clz(1) by (intro limb_base_split) simp
      then have "unat (last xs) * 2 ^ s < 2 ^ (64 - s) * 2 ^ s"
        using clz(3) by simp
      then have "unat (last xs) < 2 ^ (64 - s)"
        by (simp only: mult_less_cancel2)
      then have "Suc (unat (last xs)) * 2 ^ s \<le> 2 ^ (64 - s) * 2 ^ s"
        by (intro mult_le_mono1) simp
      then show ?thesis
        by (simp only: B mult_Suc add.commute)
    qed
    then have "?P * (unat (last xs) * 2 ^ s + 2 ^ s) \<le> ?P * limb_base"
      by (rule mult_le_mono2)
    moreover have "nval (butlast xs) * 2 ^ s < ?P * 2 ^ s"
      using low by simp
    moreover have "nval xs * 2 ^ s = nval (butlast xs) * 2 ^ s + ?P * (unat (last xs) * 2 ^ s)"
      by (simp only: nv add_mult_distrib mult.assoc)
    ultimately show ?thesis
      by (simp only: P add_mult_distrib2)
  qed
  then have "limb_base ^ length xs * unat h < limb_base ^ length xs * 1"
    using shl(2) by linarith
  then have "unat h = 0"
    by (simp only: mult_less_cancel1) simp
  then have zs: "nval zs = nval xs * 2 ^ s"
    using shl(2) by simp
  show ys: "length ys = length xs" "nval ys = nval xs * 2 ^ s"
    using shl(1) zs by (simp_all add: ys_def z)
  have "?P * 2 ^ 63 \<le> ?P * (unat (last xs) * 2 ^ s)"
    using clz(2) by (rule mult_le_mono2)
  also have "\<dots> \<le> nval ys"
    by (simp only: ys(2) nv add_mult_distrib mult.assoc)
  finally have "limb_base ^ (length ys - 1) * 2 ^ 63 \<le> nval ys"
    by (simp only: ys(1))
  moreover have "ys \<noteq> []"
    using ys(1) xs by auto
  ultimately show "normal_divisor ys"
    unfolding normal_divisor_def using top_limb_half by blast
qed

lemma js_bigint_divrem_shift_correct:
  assumes na: "na < length rt" and nb: "0 < nb" "nb \<le> length tabb" and top: "tabb ! (nb - 1) \<noteq> 0"
    and eq: "js_bigint_divrem_shift rt na tabb nb = (shift, rt', na', tabb')"
  shows "shift < 64 \<and> length rt' = length rt \<and> na \<le> na' \<and> na' \<le> na + 1 \<and> length tabb' = nb \<and> normal_divisor tabb'
    \<and> nval tabb' = nval (take nb tabb) * 2 ^ shift \<and> nval (take na' rt') = nval (take na rt) * 2 ^ shift"
proof -
  have xs: "take nb tabb \<noteq> []"
    using nb by auto
  have last: "last (take nb tabb) = tabb ! (nb - 1)"
    using nb by (cases nb) (auto simp: take_Suc_conv_app_nth)
  define s where "s = js_limb_clz (tabb ! (nb - 1))"
  note eq' = eq [unfolded js_bigint_divrem_shift_def Let_def, folded s_def]
  have top': "last (take nb tabb) \<noteq> 0"
    using top last by simp
  note d = shl_divisor [OF xs top', unfolded last, folded s_def]
  have s: "s < 64"
    using js_limb_clz_correct(1) [OF top] by (simp add: s_def)
  obtain part h where p: "mp_shl (take na rt) s = (part, h)"
    by (cases "mp_shl (take na rt) s")
  note shl = mp_shl_correct [OF p s]
  have len: "length part = na"
    using shl(1) na by simp
  show ?thesis
  proof (cases "s = 0")
    case True
    then show ?thesis
      using eq' d nb by auto
  next
    case False
    have tk: "take na (store_at 0 part rt) = part"
      using na len by (intro take_store_0) simp_all
    have "nval (take (Suc na) ((store_at 0 part rt) [na := h])) = nval part + limb_base ^ na * unat h"
      using na len tk by (simp add: take_Suc_conv_app_nth nval_append)
    moreover have "h = 0 \<Longrightarrow> nval (take na (store_at 0 part rt)) = nval part + limb_base ^ na * unat h"
      using tk by simp
    moreover have "nval part + limb_base ^ na * unat h = nval (take na rt) * 2 ^ s"
      using shl(2) na by simp
    ultimately show ?thesis
      using eq' False d nb s p na len by (auto split: if_splits)
  qed
qed

section \<open>Quotient and remainder\<close>

definition signed_mag :: "js_limb_t \<Rightarrow> nat \<Rightarrow> int" where
  "signed_mag s n = (if s \<noteq> 0 then - int n else int n)"

lemma nval_snoc_0 [simp]: "nval (xs @ [0]) = nval xs"
  by (simp add: nval_append)

lemma mp_shr_exact:
  assumes "nval xs = m * 2 ^ s" and "0 < s" and "s < 64"
  shows "length (fst (mp_shr xs s 0)) = length xs" and "nval (fst (mp_shr xs s 0)) = m"
proof -
  obtain res l where r: "mp_shr_loop xs s 0 = (res, l)"
    by (cases "mp_shr_loop xs s 0")
  show "length (fst (mp_shr xs s 0)) = length xs" "nval (fst (mp_shr xs s 0)) = m"
    using mp_shr_loop_correct [OF r assms(2,3)] by (simp_all add: mp_shr_def r assms(1))
qed

lemma divrem_quotient:
  assumes "length qt = Suc (Suc n)" and "nval (take (Suc n) qt) = m"
  shows "ival (mp_abs s (qt [Suc n := 0])) = signed_mag s m" and "mp_abs s (qt [Suc n := 0]) \<noteq> []"
proof -
  have "qt [Suc n := 0] = take (Suc n) (qt [Suc n := 0]) @ [qt [Suc n := 0] ! Suc n]"
    using assms(1) by (metis length_list_update lessI take_Suc_conv_app_nth take_all_iff order_refl)
  then have qt: "qt [Suc n := 0] = take (Suc n) qt @ [0]"
    using assms(1) by simp
  have len: "length (mp_abs s (qt [Suc n := 0])) = Suc (Suc n)"
    using ival_mp_abs_small(2) [of "qt [Suc n := 0]" s] assms(1) by (simp add: qt)
  then show "mp_abs s (qt [Suc n := 0]) \<noteq> []"
    by auto
  show "ival (mp_abs s (qt [Suc n := 0])) = signed_mag s m"
    using ival_mp_abs_small(1) [of "qt [Suc n := 0]" s] by (simp add: qt signed_mag_def assms(2))
qed

lemma divrem_remainder:
  fixes sa :: js_limb_t
  assumes len: "Suc nb \<le> length rt" and rem: "nval (take nb rt) = m * 2 ^ s" and s: "s < 64" and "0 < nb"
  defines "rt1 \<equiv> (if s \<noteq> 0 then store_at 0 (fst (mp_shr (take nb rt) s 0)) rt else rt)"
  defines "rt2 \<equiv> rt1 [nb := 0]"
  defines "rt3 \<equiv> store_at 0 (mp_abs sa (take (nb + 1) rt2)) rt2"
  shows "length rt3 = length rt" and "ival (take (nb + 1) rt3) = signed_mag sa m"
proof -
  have rt1: "length rt1 = length rt" "nval (take nb rt1) = m"
    using mp_shr_exact [OF rem _ s] len rem by (auto simp: rt1_def take_store_0)
  have tk: "take (Suc nb) rt2 = take nb rt1 @ [0]"
    using len rt1(1) by (simp add: rt2_def take_Suc_conv_app_nth)
  have "length (mp_abs sa (take (nb + 1) rt2)) = nb + 1"
    "ival (mp_abs sa (take (nb + 1) rt2)) = signed_mag sa m"
    using ival_mp_abs_small [of "take nb rt1 @ [0]" sa] len rt1 by (simp_all add: tk signed_mag_def)
  then show "length rt3 = length rt" and "ival (take (nb + 1) rt3) = signed_mag sa m"
    using len rt1(1) by (simp_all add: rt3_def rt2_def take_store_0)
qed

lemma js_bigint_divrem_main_returns:
  assumes r: "ref_count r = 1" and rt: "length rt = k + 2" and na: "nb \<le> na" "na \<le> k"
    and nb: "0 < nb" "nb \<le> length tabb" "tabb ! (nb - 1) \<noteq> 0" and h: "holds 2 c c0"
  defines "A \<equiv> nval (take na rt)" and "D \<equiv> nval (take nb tabb)"
  shows "\<exists>res. js_bigint_divrem_main r sa sb is_rem rt na tabb nb c0 = Some res \<and>
    returns (k + 2) (if is_rem then signed_mag sa (A mod D) else signed_mag (sa XOR sb) (A div D)) c res"
proof -
  obtain s rt' na' tabb' where sh: "js_bigint_divrem_shift rt na tabb nb = (s, rt', na', tabb')"
    by (cases "js_bigint_divrem_shift rt na tabb nb") auto
  have s: "s < 64" "length rt' = k + 2" "na \<le> na'" "na' \<le> na + 1" "length tabb' = nb" "normal_divisor tabb'"
    "nval tabb' = D * 2 ^ s" "nval (take na' rt') = A * 2 ^ s"
    using js_bigint_divrem_shift_correct [OF _ nb sh] rt na by (auto simp: A_def D_def)
  obtain q c1 where new: "js_bigint_new (na' - nb + 2) c0 = (q, c1)"
    by (cases "js_bigint_new (na' - nb + 2) c0")
  show ?thesis
  proof (cases q)
    case None
    have "na' - nb + 2 \<le> k + 2"
      using s(4) na nb(1) by linarith
    then have "fails (k + 2) 0 c0 c1"
      using js_bigint_new_contract(2) new None fails_mono by blast
    then have "fails (k + 2) 2 c c1"
      using fails_after [OF h] by fastforce
    then show ?thesis
      using None new by (simp add: js_bigint_divrem_main_def sh)
  next
    case (Some q')
    then have q: "ref_count q' = 1" "len q' = na' - nb + 2" and h1: "holds 1 c0 c1"
      using js_bigint_new_contract(1) new by blast+
    have h3: "holds 3 c c1"
      using holds_trans [OF h h1] by simp
    have len: "length (take na' rt') = na'"
      using s na by simp
    obtain qt part where d: "mp_divnorm (tab q') (take na' rt') tabb' = Some (qt, part)"
      "length qt = na' - nb + 2" "length part = na'"
      "nval (take (Suc (na' - nb)) qt) = A * 2 ^ s div (D * 2 ^ s)"
      "nval (take nb part) = A * 2 ^ s mod (D * 2 ^ s)"
      using mp_divnorm_correct [OF s(6), of "take na' rt'" "tab q'"] len s na q(2) by auto
    have qr: "nval (take (Suc (na' - nb)) qt) = A div D" "nval (take nb part) = (A mod D) * 2 ^ s"
      using d(4,5) by (simp_all add: mult_mod_left)
    show ?thesis
    proof (cases is_rem)
      case True
      define rt1 where "rt1 = store_at 0 part rt'"
      have rt1: "length rt1 = k + 2" "nval (take nb rt1) = (A mod D) * 2 ^ s"
        using d(3) s na qr(2) by (simp_all add: rt1_def store_at_def)
      define rt2 where "rt2 = (if s \<noteq> 0 then store_at 0 (fst (mp_shr (take nb rt1) s 0)) rt1 else rt1) [nb := 0]"
      define rt3 where "rt3 = store_at 0 (mp_abs sa (take (nb + 1) rt2)) rt2"
      have rt3: "length rt3 = k + 2" "ival (take (nb + 1) rt3) = signed_mag sa (A mod D)"
        using divrem_remainder [OF _ rt1(2) s(1) nb(1), of sa] rt1(1) na by (simp_all add: rt3_def rt2_def)
      have "returns (k + 2) (signed_mag sa (A mod D)) c
        (let (r, c) = js_bigint_normalize1 (r \<lparr>tab := rt3\<rparr>) (nb + 1) (js_free (js_free c1)) in (Some r, c))"
        using rt3 r h3 na by (intro js_bigint_normalize1_returns) simp_all
      moreover have "js_bigint_divrem_main r sa sb is_rem rt na tabb nb c0 = Some
        (let (r, c) = js_bigint_normalize1 (r \<lparr>tab := rt3\<rparr>) (nb + 1) (js_free (js_free c1)) in (Some r, c))"
        unfolding js_bigint_divrem_main_def sh Let_def prod.case new Some option.case d(1)
        using True by (simp add: rt1_def rt2_def rt3_def split_beta)
      ultimately show ?thesis
        using True by simp
    next
      case False
      note quo = divrem_quotient [OF _ qr(1), of "sa XOR sb"]
      have "returns (k + 2) (signed_mag (sa XOR sb) (A div D)) c
        (let (q, c) = js_bigint_normalize (q' \<lparr>tab := mp_abs (sa XOR sb) (qt [Suc (na' - nb) := 0])\<rparr>) (js_free (js_free c1))
         in (Some q, c))"
        using quo d(2) q(1) h3 by (intro js_bigint_normalize_returns) simp_all
      then show ?thesis
        using False Some new d(1) by (simp add: js_bigint_divrem_main_def sh Let_def split: prod.splits)
    qed
  qed
qed

lemma returns_after:
  assumes "holds 0 c c'" and "returns n z c' res"
  shows "returns n z c res"
proof (cases res)
  case (Pair r c'')
  then show ?thesis
    using assms holds_trans [of 0 c c' 1 c''] fails_after [of 0 c c' n 0 c''] by (cases r) auto
qed
lemma signed_mag_div:
  fixes a b :: int
  assumes "sa \<noteq> 0 \<longleftrightarrow> a < 0" and "sb \<noteq> 0 \<longleftrightarrow> b < 0" and "int A = \<bar>a\<bar>" and "int D = \<bar>b\<bar>"
    and "sa = limb_of_bool p" and "sb = limb_of_bool r"
  shows "signed_mag (sa XOR sb) (A div D) = a sdiv b" and "signed_mag sa (A mod D) = a smod b"
proof -
  have "sa XOR sb \<noteq> 0 \<longleftrightarrow> (a < 0) \<noteq> (b < 0)"
    using assms(1,2) unfolding assms(5,6) by (cases p; cases r) (simp_all add: limb_of_bool_def)
  then show "signed_mag (sa XOR sb) (A div D) = a sdiv b"
    using assms(3,4) by (auto simp: signed_mag_def signed_divide_int_def zdiv_int sgn_if)
  show "signed_mag sa (A mod D) = a smod b"
    using assms(1,3,4) by (auto simp: signed_mag_def signed_modulo_int_def zmod_int sgn_if)
qed

lemma js_bigint_divrem_returns:
  assumes a: "normal (tab a)" and b: "normal (tab b)" and nz: "ival (tab b) \<noteq> 0"
  shows "\<exists>res. js_bigint_divrem a b is_rem c = Some res \<and>
    returns (len a + 2) (if is_rem then ival (tab a) smod ival (tab b) else ival (tab a) sdiv ival (tab b)) c res"
proof -
  let ?z = "if is_rem then ival (tab a) smod ival (tab b) else ival (tab a) sdiv ival (tab b)"
  define sa sb where "sa = js_bigint_sign a" and "sb = js_bigint_sign b"
  define ta tb where "ta = mp_abs sa (tab a)" and "tb = mp_abs sb (tab b)"
  have ne: "tab a \<noteq> []" "tab b \<noteq> []"
    using a b by (simp_all add: normal_def)
  have ta: "int (nval ta) = \<bar>ival (tab a)\<bar>" "length ta = len a" and tb: "int (nval tb) = \<bar>ival (tab b)\<bar>" "length tb = len b"
    using nval_mp_abs ne by (simp_all add: ta_def tb_def sa_def sb_def)
  have z: "(if is_rem then signed_mag sa (nval ta mod nval tb) else signed_mag (sa XOR sb) (nval ta div nval tb)) = ?z"
    using signed_mag_div [OF _ _ ta(1) tb(1), of sa sb] js_bigint_sign_neg ne
    by (simp add: sa_def sb_def js_bigint_sign_def limb_sign_bit)
  have chk: "\<not> (len b = 1 \<and> hd (tab b) = 0)"
    using nz by (cases "tab b") (auto simp: ival_def)
  obtain r c1 where new: "js_bigint_new (len a + 2) c = (r, c1)"
    by (cases "js_bigint_new (len a + 2) c")
  show ?thesis
  proof (cases r)
    case None
    then show ?thesis
      using chk new js_bigint_new_contract(2) by (auto simp: js_bigint_divrem_def)
  next
    case (Some r')
    then have r: "ref_count r' = 1" "len r' = len a + 2" and h1: "holds 1 c c1"
      using js_bigint_new_contract(1) new by blast+
    define rt where "rt = store_at 0 ta (tab r')"
    define na where "na = strip_zeros rt (len a)"
    have rt: "length rt = len a + 2" "take (len a) rt = ta"
      using r(2) ta(2) by (simp_all add: rt_def take_store_0)
    have na: "0 < na" "na \<le> len a" "nval (take na rt) = nval ta" "1 < na \<longrightarrow> rt ! (na - 1) \<noteq> 0"
      using strip_zeros_correct [of "len a" rt] ne rt by (simp_all add: na_def)
    define nb where "nb = strip_zeros tb (len b)"
    have nb: "0 < nb" "nb \<le> len b" "nval (take nb tb) = nval tb" "1 < nb \<longrightarrow> tb ! (nb - 1) \<noteq> 0"
      using strip_zeros_correct [of "len b" tb] ne tb(2) by (simp_all add: nb_def)
    have pos: "0 < nval tb"
      using tb(1) nz by linarith
    have top: "tb ! (nb - 1) \<noteq> 0"
    proof (cases "nb = 1")
      case True
      then show ?thesis
        using nb(3) pos ne tb(2) by (cases tb) (auto simp: unat_gt_0)
    qed (use nb in auto)
    obtain m c2 where mal: "js_malloc c1 = (m, c2)"
      by (cases "js_malloc c1")
    have unf: "js_bigint_divrem a b is_rem c = (case js_malloc c1 of (False, c) \<Rightarrow> Some (None, js_free c)
      | (True, c) \<Rightarrow> if na < nb then
          (let c = js_free (js_free c) in Some (if is_rem then js_bigint_new_with (tab a) c else js_bigint_new_si 0 c))
        else js_bigint_divrem_main r' sa sb is_rem rt na tb nb c)"
      using chk unfolding js_bigint_divrem_def new Some Let_def na_def nb_def rt_def ta_def tb_def sa_def sb_def by auto
    show ?thesis
    proof (cases m)
      case False
      then show ?thesis
        using mal fails_after [OF h1 js_malloc_contract(2) [OF mal]] by (simp add: unf)
    next
      case True
      have h2: "holds 2 c c2"
        using holds_trans [OF h1 js_malloc_contract(1) [OF mal True]] by simp
      show ?thesis
      proof (cases "na < nb")
        case lt: True
        have "nval ta < limb_base ^ na"
          using nval_less [of "take na rt"] na rt by simp
        also have "\<dots> \<le> limb_base ^ (nb - 1)"
          using lt by (intro power_increasing) (simp_all add: Suc_le_eq)
        also have "\<dots> \<le> limb_base ^ (nb - 1) * unat (tb ! (nb - 1))"
          using top by (simp add: Suc_le_eq unat_gt_0)
        also have "\<dots> \<le> nval (take nb tb)"
        proof -
          have "take nb tb = take (nb - 1) tb @ [tb ! (nb - 1)]"
            using nb(1,2) tb(2) by (cases nb) (simp_all add: take_Suc_conv_app_nth)
          moreover have "length (take (nb - 1) tb) = nb - 1"
            using nb(2) tb(2) by simp
          ultimately show ?thesis
            by (simp add: nval_append)
        qed
        finally have small: "nval ta < nval tb"
          using nb(3) by simp
        have "returns (len a + 2) ?z (js_free (js_free c2))
          (if is_rem then js_bigint_new_with (tab a) (js_free (js_free c2)) else js_bigint_new_si 0 (js_free (js_free c2)))"
        proof (cases is_rem)
          case True
          have "ival (tab a) = ival (tab a) smod ival (tab b)"
            using z True small js_bigint_sign_neg [OF ne(1)] ta(1) by (simp add: signed_mag_def sa_def split: if_splits)
          then show ?thesis
            using True a by (simp add: js_bigint_new_with_returns)
        next
          case False
          moreover have "ival [0] = 0"
            by (simp add: ival_def)
          moreover have "ival (tab a) sdiv ival (tab b) = 0"
            using z False small by (simp add: signed_mag_def split: if_splits)
          ultimately show ?thesis
            by (simp add: js_bigint_new_si_def js_bigint_new_with_returns)
        qed
        then show ?thesis
          using lt True mal h2 unf returns_after [of c "js_free (js_free c2)"] by (simp add: Let_def)
      next
        case False
        then have "nb \<le> na" and "nb \<le> length tb"
          using nb(2) tb(2) by simp_all
        from js_bigint_divrem_main_returns [OF r(1) rt(1) this(1) na(2) nb(1) this(2) top h2, of sa sb is_rem]
        obtain res where "js_bigint_divrem_main r' sa sb is_rem rt na tb nb c2 = Some res"
          "returns (len a + 2) ?z c res"
          unfolding na(3) nb(3) z by blast
        then show ?thesis
          using False True mal unf by simp
      qed
    qed
  qed
qed

end
