(* ===== verification/BigInt_Bits.thy ===== *)
theory BigInt_Bits
  imports BigInt_Div
begin

text \<open>
  Bitwise operations, shifts and comparison of BigInts are those of the integers: the operands count as
  infinite two's complement strings, the right shift rounds towards minus infinity.
\<close>

unbundle bit_operations_syntax

section \<open>Bitwise operations\<close>

fun int_logic :: "logic_op \<Rightarrow> int \<Rightarrow> int \<Rightarrow> int" where
  "int_logic OP_or x y = x OR y"
| "int_logic OP_and x y = x AND y"
| "int_logic OP_xor x y = x XOR y"

lemma ival_append:
  assumes "ys \<noteq> []"
  shows "ival (xs @ ys) = int (nval xs) + limb_pow (length xs) * ival ys"
  using assms by (simp add: ival_def nval_append_int limb_pow_add algebra_simps)

lemma ival_single: "ival [x] = sint x"
  by (simp add: ival_def sint_limb limb_pow_Suc)

lemma ival_Cons:
  assumes "xs \<noteq> []"
  shows "ival (x # xs) = concat_bit 64 (uint x) (ival xs)"
proof -
  have "ival (x # xs) = uint x + 2 ^ 64 * ival xs"
    using ival_append [OF assms, of "[x]"] by (simp add: limb_pow_Suc limb_base_def)
  moreover have "take_bit 64 (uint x) = uint x"
  proof (rule take_bit_int_eq_self)
    have "uint x < 2 ^ LENGTH(64)"
      by (rule unsigned_less)
    then show "uint x < 2 ^ 64"
      by simp
  qed simp
  ultimately show ?thesis
    by (simp add: concat_bit_eq push_bit_eq_mult mult.commute)
qed

lemma int_logic_concat:
  "int_logic opc (concat_bit n a b) (concat_bit n c d) = concat_bit n (int_logic opc a c) (int_logic opc b d)"
  by (cases opc) (auto intro!: bit_eqI simp: bit_concat_bit_iff bit_simps)

lemma ival_map2_logic:
  assumes "length xs = length ys" and "xs \<noteq> []"
  shows "ival (map2 (limb_logic opc) xs ys) = int_logic opc (ival xs) (ival ys)"
  using assms
proof (induction xs ys rule: list_induct2)
  case (Cons x xs y ys)
  show ?case
  proof (cases "xs = []")
    case True
    then show ?thesis
      using Cons.hyps by (cases opc) (simp_all add: ival_single signed_or_eq signed_and_eq signed_xor_eq)
  next
    case False
    then have ne: "ys \<noteq> []" "map2 (limb_logic opc) xs ys \<noteq> []"
      using Cons.hyps by (cases xs; cases ys; simp)+
    have "uint (limb_logic opc x y) = int_logic opc (uint x) (uint y)"
      by (cases opc) (simp_all add: unsigned_or_eq unsigned_and_eq unsigned_xor_eq)
    then show ?thesis
      using Cons.IH [OF False] by (simp add: ival_Cons False ne int_logic_concat)
  qed
qed simp

lemma int_logic_commute: "int_logic opc x y = int_logic opc y x"
  by (cases opc) (simp_all add: ac_simps)

lemma js_bigint_logic_sext:
  assumes "tab a \<noteq> []" and "tab b \<noteq> []" and le: "\<not> len a < len b"
  shows "map2 (limb_logic opc) (take (len b) (tab a)) (tab b)
      @ map (\<lambda>x. limb_logic opc x (- js_bigint_sign b)) (drop (len b) (tab a))
    = map2 (limb_logic opc) (tab a) (sext (len a) (tab b))"
proof -
  have "map2 (limb_logic opc) (tab a) (sext (len a) (tab b))
    = map2 (limb_logic opc) (take (len b) (tab a) @ drop (len b) (tab a))
        (tab b @ replicate (len a - len b) (sign_limb (tab b)))"
    by (simp add: sext_def)
  also have "\<dots> = map2 (limb_logic opc) (take (len b) (tab a)) (tab b)
      @ map2 (limb_logic opc) (drop (len b) (tab a)) (replicate (len a - len b) (sign_limb (tab b)))"
    using le by (subst zip_append) simp_all
  also have "map2 (limb_logic opc) (drop (len b) (tab a)) (replicate (len a - len b) (sign_limb (tab b)))
      = map (\<lambda>x. limb_logic opc x (sign_limb (tab b))) (drop (len b) (tab a))"
    by (simp add: zip_replicate2)
  finally show ?thesis
    by (simp add: js_bigint_sign_limb)
qed

lemma js_bigint_logic_returns:
  assumes "tab a \<noteq> []" and "tab b \<noteq> []"
  shows "returns (max (len a) (len b)) (int_logic opc (ival (tab a)) (ival (tab b))) c (js_bigint_logic a b opc c)"
proof -
  define p where "p = (if len a < len b then (b, a) else (a, b))"
  have p: "tab (fst p) \<noteq> []" "tab (snd p) \<noteq> []" "\<not> len (fst p) < len (snd p)" "len (fst p) = max (len a) (len b)"
    "int_logic opc (ival (tab (fst p))) (ival (tab (snd p))) = int_logic opc (ival (tab a)) (ival (tab b))"
    using assms int_logic_commute by (auto simp: p_def)
  let ?t = "map2 (limb_logic opc) (tab (fst p)) (sext (len (fst p)) (tab (snd p)))"
  have l: "len (fst p) = length (sext (len (fst p)) (tab (snd p)))"
    using p(3) by simp
  then have "length ?t = len (fst p)"
    by simp
  then have t: "?t \<noteq> []" "ival ?t = int_logic opc (ival (tab a)) (ival (tab b))"
    using p(1,2,5) ival_map2_logic [OF l p(1), of opc] by auto
  have unf: "js_bigint_logic a b opc c = (case js_bigint_new (len (fst p)) c of (None, c) \<Rightarrow> (None, c)
    | (Some r, c) \<Rightarrow> (let (r, c) = js_bigint_normalize (r \<lparr>tab := ?t\<rparr>) c in (Some r, c)))"
    unfolding js_bigint_logic_def p_def [symmetric] Let_def split_beta js_bigint_logic_sext [OF p(1-3)] by simp
  show ?thesis
    unfolding unf using t p(4)
    by (intro js_bigint_new_returns js_bigint_normalize_returns) auto
qed

section \<open>Complement\<close>

lemma significant_not: "significant (NOT v) (NOT u) \<longleftrightarrow> significant v u"
proof -
  have "significant (NOT v) (NOT u) \<longleftrightarrow> NOT v \<noteq> (if bit (NOT u) 63 then - 1 else 0)" for u v
    using significant_sign_limb [of "NOT v" "[NOT u]"] by (auto simp: sign_limb_def)
  moreover have "significant v u \<longleftrightarrow> v \<noteq> (if bit u 63 then - 1 else 0)"
    using significant_sign_limb [of v "[u]"] by (auto simp: sign_limb_def)
  moreover have "NOT v = 0 \<longleftrightarrow> v = - 1" "NOT v = - 1 \<longleftrightarrow> v = 0"
    by (metis bit.compl_zero bit.double_compl)+
  ultimately show ?thesis
    by (simp add: bit_simps)
qed

lemma js_bigint_not_returns:
  assumes "normal (tab a)"
  shows "returns (len a) (NOT (ival (tab a))) c (js_bigint_not a c)"
proof -
  have "normal (map (\<lambda>x. NOT x) (tab a))"
    using assms significant_not by (auto simp: normal_def last_map map_butlast [symmetric])
      (metis last_map length_butlast length_greater_0_conv map_butlast zero_less_diff Suc_1 Suc_le_lessD)
  moreover have "ival (map (\<lambda>x. NOT x) (tab a)) = NOT (ival (tab a))"
    using assms ival_complement [of "tab a"] by (simp add: normal_def not_int_def)
  ultimately show ?thesis
    by (simp add: js_bigint_not_def js_bigint_new_with_returns)
qed

section \<open>Left shift\<close>

lemma limb_pow_2: "limb_pow n = 2 ^ (64 * n)"
  by (simp add: limb_pow_def limb_base_def power_mult)

lemma normal_replicate_0:
  assumes "normal xs" and "ival xs \<noteq> 0"
  shows "normal (replicate d 0 @ xs)"
proof (cases "length xs \<ge> 2")
  case True
  then obtain ys u v where xs: "xs = ys @ [u, v]"
    by (metis One_nat_def Suc_1 Suc_le_D append_Cons append_Nil append_assoc length_0_conv length_Cons
        list.size(3) rev_exhaust Suc_le_mono le_zero_eq nat.distinct(1) length_append_singleton)
  have "normal ((ys @ [u]) @ [v])" and ne: "replicate d 0 @ ys @ [u] \<noteq> []"
    using assms(1) by (simp_all add: xs)
  then have "significant v u"
    using normal_snoc [of "ys @ [u]" v] by simp
  then show ?thesis
    using normal_snoc [OF ne, of v] by (simp add: xs)
next
  case False
  then obtain v where xs: "xs = [v]"
    using assms(1) by (cases xs) (auto simp: normal_def Suc_le_eq)
  then have "v \<noteq> 0"
    using assms(2) by (auto simp: ival_def)
  then have "significant v 0"
    using significant_sign_limb [of v "[0]"] by (simp add: sign_limb_def)
  then show ?thesis
    by (cases d) (simp_all add: xs normal_def)
qed

lemma minus_one_mod: "k \<le> 64 \<Longrightarrow> unat (- 1 :: js_limb_t) mod 2 ^ k = 2 ^ k - 1"
  by (simp add: unsigned_minus_1_eq_mask take_bit_eq_mod [symmetric] take_bit_of_mask min_def)
    (simp add: mask_eq_exp_minus_1)

lemma div_range:
  fixes z k p :: int
  assumes "- p \<le> 2 * z" and "2 * z < p" and "1 \<le> k"
  shows "- p \<le> 2 * (z div k)" and "2 * (z div k) < p"
proof -
  define q where "q = z div k"
  have z: "z = q * k + z mod k" and m: "0 \<le> z mod k" "z mod k < k"
    using assms(3) by (simp_all add: q_def)
  have "- p \<le> 2 * q \<and> 2 * q < p"
  proof (cases "0 \<le> q")
    case True
    then have "q * 1 \<le> q * k"
      using assms(3) by (intro mult_left_mono)
    then show ?thesis
      using True z m assms(1,2) by linarith
  next
    case False
    then have "(q + 1) * k \<le> (q + 1) * 1"
      using assms(3) by (intro mult_left_mono_neg) simp_all
    then have "q * k + k \<le> q + 1"
      by (simp add: distrib_right)
    then have "z \<le> q"
      using z m by linarith
    then show ?thesis
      using False assms(1,2) by linarith
  qed
  then show "- p \<le> 2 * (z div k)" and "2 * (z div k) < p"
    by (simp_all add: q_def)
qed

lemma unat_push_minus_one:
  assumes "s < 64"
  shows "unat (push_bit s (- 1 :: js_limb_t)) = limb_base - 2 ^ s"
proof -
  have B: "limb_base = 2 ^ (64 - s) * 2 ^ s"
    using assms by (intro limb_base_split) simp
  have "unat (- 1 :: js_limb_t) mod 2 ^ (64 - s) = 2 ^ (64 - s) - 1"
    by (rule minus_one_mod) simp
  then show ?thesis
    using limb_push_bit [of s "- 1"] assms by (simp add: B diff_mult_distrib)
qed

lemma ival_shl:
  assumes ne: "xs \<noteq> []" and s: "0 < s" "s < 64" and shl: "mp_shl xs s = (part, h)"
  shows "ival (part @ [if bit (last xs) 63 then h OR push_bit s (- 1) else h]) = ival xs * 2 ^ s"
proof -
  note m = mp_shl_correct [OF shl s(2)]
  have part: "part \<noteq> []"
    using m(1) ne by auto
  have ps: "(2 :: nat) ^ s \<le> 2 ^ 63"
    using s(2) by (intro power_increasing) simp_all
  let ?l = "if bit (last xs) 63 then h OR push_bit s (- 1) else h"
  have sint: "sint ?l = int (unat h) - (if bit (last xs) 63 then 2 ^ s else 0)"
  proof (cases "bit (last xs) 63")
    case False
    then show ?thesis
      using m(3) ps by (simp add: sint_limb limb_msb)
  next
    case True
    have "unat (push_bit s (- 1 :: js_limb_t)) = limb_base - 2 ^ s"
      by (rule unat_push_minus_one [OF s(2)])
    moreover have "unat (push_bit s (- 1) OR h) = unat (push_bit s (- 1 :: js_limb_t)) + unat h"
      by (rule unat_push_or [OF m(3) s(2)])
    moreover have B2: "2 ^ s \<le> limb_base" "2 ^ 63 \<le> limb_base - 2 ^ s"
      using ps by (simp_all add: limb_half)
    ultimately have u: "unat (h OR push_bit s (- 1)) + 2 ^ s = limb_base + unat h"
      by (simp add: or.commute [of h])
    then have "bit (h OR push_bit s (- 1)) 63"
      unfolding limb_msb using B2 by linarith
    then have "sint (h OR push_bit s (- 1)) = int (unat (h OR push_bit s (- 1))) - int limb_base"
      by (simp add: sint_limb)
    moreover have "int (unat (h OR push_bit s (- 1))) + 2 ^ s = int limb_base + int (unat h)"
      using arg_cong [OF u, of int] by simp
    ultimately show ?thesis
      using True by simp
  qed
  have mi: "int (nval part) + limb_pow (length xs) * int (unat h) = int (nval xs) * 2 ^ s"
    using m(2) unfolding limb_pow_def by (metis of_nat_add of_nat_mult of_nat_numeral of_nat_power)
  have "ival (part @ [?l]) = int (nval part) + limb_pow (length xs) * sint ?l"
    using ival_snoc [OF part] m(1) by simp
  also have "\<dots> = int (nval xs) * 2 ^ s - (if bit (last xs) 63 then limb_pow (length xs) * 2 ^ s else 0)"
    unfolding sint using mi by (simp add: algebra_simps)
  also have "\<dots> = ival xs * 2 ^ s"
    by (simp add: ival_def left_diff_distrib)
  finally show ?thesis .
qed

lemma js_bigint_shl_returns:
  assumes "normal (tab a)"
  shows "returns (len a + n div 64) (ival (tab a) * 2 ^ n) c (js_bigint_shl a n c)"
proof (cases "len a = 1 \<and> hd (tab a) = 0")
  case True
  then have "tab a = [0]"
    by (cases "tab a") auto
  then have "ival (tab a) = 0"
    by (simp add: ival_def)
  moreover have "ival [0] = 0"
    by (simp add: ival_def)
  ultimately show ?thesis
    using True by (simp add: js_bigint_shl_def js_bigint_new_si_def js_bigint_new_with_returns)
next
  case False
  define d s where "d = n div 64" and "s = n mod 64"
  have n: "n = 64 * d + s" and s: "s < 64"
    by (simp_all add: d_def s_def)
  have ne: "tab a \<noteq> []"
    using assms by (simp add: normal_def)
  have nz: "ival (tab a) \<noteq> 0"
    using False normal_zero [OF assms] by auto
  have sign: "js_bigint_sign a \<noteq> 0 \<longleftrightarrow> bit (last (tab a)) 63"
    by (simp add: js_bigint_sign_def limb_sign_bit)
  obtain part h where shl: "mp_shl (tab a) s = (part, h)"
    by (cases "mp_shl (tab a) s")
  let ?l = "if bit (last (tab a)) 63 then h OR push_bit s (- 1) else h"
  have unf: "js_bigint_shl a n c = (case js_bigint_new (len a + d) c of (None, c) \<Rightarrow> (None, c)
    | (Some r, c) \<Rightarrow> if s = 0 then (Some (r \<lparr>tab := replicate d 0 @ tab a\<rparr>), c)
        else js_bigint_extend (r \<lparr>tab := replicate d 0 @ part\<rparr>) ?l c)"
    using False unfolding js_bigint_shl_def d_def [symmetric] s_def [symmetric] sign Let_def shl prod.case by auto
  have zeros: "ival (replicate d 0 @ ys) = 2 ^ (64 * d) * ival ys" if "ys \<noteq> []" for ys
    using ival_append [OF that, of "replicate d 0"] by (simp add: limb_pow_2)
  show ?thesis
  proof (cases "s = 0")
    case True
    then have "ival (replicate d 0 @ tab a) = ival (tab a) * 2 ^ n"
      using zeros [OF ne] n by simp
    then show ?thesis
      unfolding unf d_def [symmetric] using True normal_replicate_0 [OF assms nz]
      by (intro js_bigint_new_returns) (simp_all add: bigint_def)
  next
    case False
    have "ival (part @ [?l]) = ival (tab a) * 2 ^ s"
      using ival_shl [OF ne _ s shl] False by simp
    then have "ival ((replicate d 0 @ part) @ [?l]) = ival (tab a) * 2 ^ n"
      using zeros [of "part @ [?l]"] by (simp add: n power_add)
    moreover have "replicate d 0 @ part \<noteq> []"
      using mp_shl_correct(1) [OF shl s] ne by auto
    ultimately show ?thesis
      unfolding unf d_def [symmetric] using False
      by (intro js_bigint_new_returns) (auto intro!: js_bigint_extend_returns)
  qed
qed

section \<open>Right shift\<close>

lemma ival_drop:
  assumes "d < length xs"
  shows "ival (drop d xs) = ival xs div limb_pow d"
proof -
  have "ival xs = int (nval (take d xs)) + limb_pow d * ival (drop d xs)"
    using ival_append [of "drop d xs" "take d xs"] assms by simp
  moreover have "int (nval (take d xs)) < limb_pow d"
    using nval_less_pow [of "take d xs"] assms by simp
  ultimately show ?thesis
    by (simp add: div_pos_pos_trivial)
qed

lemma ival_shr:
  assumes ne: "xs \<noteq> []" and s: "0 < s" "s < 64"
  shows "ival (fst (mp_shr xs s (sign_limb xs))) = ival xs div 2 ^ s" and "fst (mp_shr xs s (sign_limb xs)) \<noteq> []"
proof -
  obtain res l where r: "mp_shr_loop xs s (sign_limb xs) = (res, l)"
    by (cases "mp_shr_loop xs s (sign_limb xs)")
  have fst: "fst (mp_shr xs s (sign_limb xs)) = res"
    by (simp add: mp_shr_def r)
  have m: "length res = length xs"
    "nval res = (nval xs + limb_base ^ length xs * (unat (sign_limb xs) mod 2 ^ s)) div 2 ^ s"
    using mp_shr_loop_correct [OF r s] by simp_all
  show "fst (mp_shr xs s (sign_limb xs)) \<noteq> []"
    using fst m(1) ne by auto
  let ?P = "limb_pow (length xs)"
  have "int (unat (sign_limb xs) mod 2 ^ s) = (if bit (last xs) 63 then 2 ^ s - 1 else 0)"
  proof (cases "bit (last xs) 63")
    case True
    have "unat (- 1 :: js_limb_t) mod 2 ^ s = 2 ^ s - 1"
      using s(2) by (intro minus_one_mod) simp
    then show ?thesis
      using True by (simp add: sign_limb_def of_nat_diff)
  qed (simp add: sign_limb_def)
  then have "int (nval res) = (int (nval xs) + ?P * (if bit (last xs) 63 then 2 ^ s - 1 else 0)) div 2 ^ s"
    unfolding m(2) limb_pow_def zdiv_int of_nat_add of_nat_mult by simp
  also have "int (nval xs) + ?P * (if bit (last xs) 63 then 2 ^ s - 1 else 0)
      = ival xs + (if bit (last xs) 63 then ?P else 0) * 2 ^ s"
    by (simp add: ival_def algebra_simps)
  finally have "int (nval res) = ival xs div 2 ^ s + (if bit (last xs) 63 then ?P else 0)"
    by simp
  then have "ival xs div 2 ^ s - int (nval res) = - (if bit (last xs) 63 then ?P else 0)"
    by simp
  moreover have "- ?P \<le> 2 * (ival xs div 2 ^ s)" "2 * (ival xs div 2 ^ s) < ?P"
    using div_range [OF ival_bounds [OF ne], of "2 ^ s"] by simp_all
  ultimately have "ival res = ival xs div 2 ^ s"
    using m(1) fst ne by (intro ival_eqI) (auto split: if_splits)
  then show "ival (fst (mp_shr xs s (sign_limb xs))) = ival xs div 2 ^ s"
    by (simp add: fst)
qed

lemma normal_drop:
  assumes "normal xs" and "d < length xs"
  shows "normal (drop d xs)"
proof -
  have "last (butlast (drop d xs)) = last (butlast xs)" if "2 \<le> length (drop d xs)"
    using that by (subst drop_butlast [symmetric], subst last_drop) simp_all
  then show ?thesis
    using assms by (auto simp: normal_def last_drop)
qed

lemma js_bigint_shr_returns:
  assumes "normal (tab a)"
  shows "returns (len a) (ival (tab a) div 2 ^ n) c (js_bigint_shr a n c)"
proof -
  define d s where "d = n div 64" and "s = n mod 64"
  have n: "n = 64 * d + s" and s: "s < 64"
    by (simp_all add: d_def s_def)
  have p: "(2 :: int) ^ n = limb_pow d * 2 ^ s"
    by (simp add: n power_add limb_pow_2)
  have ne: "tab a \<noteq> []" and pos: "0 < len a"
    using assms by (simp_all add: normal_def)
  show ?thesis
  proof (cases "len a \<le> d")
    case True
    have "limb_pow (len a) \<le> limb_pow d"
      using True by (rule limb_pow_mono)
    moreover have "limb_pow d * 1 \<le> limb_pow d * 2 ^ s"
      by (intro mult_left_mono) (simp_all add: less_imp_le)
    ultimately have big: "limb_pow (len a) \<le> 2 ^ n"
      by (simp only: p mult_1_right)
    have "ival (tab a) div 2 ^ n = (if ival (tab a) < 0 then - 1 else 0)"
    proof (cases "ival (tab a) < 0")
      case True
      then have "ival (tab a) + 2 ^ n \<ge> 0"
        using big ival_bounds [OF ne] by linarith
      then show ?thesis
        using True by (simp add: div_pos_neg_trivial) (smt (verit) div_pos_pos_trivial div_add_self2 zero_less_power)
    next
      case False
      then show ?thesis
        using big ival_bounds [OF ne] by (simp add: div_pos_pos_trivial)
    qed
    moreover have "ival [- js_bigint_sign a] = (if ival (tab a) < 0 then - 1 else 0)"
      using ival_sign_iff [OF ne] by (simp add: js_bigint_sign_limb sign_limb_def ival_single)
    ultimately have "ival [- js_bigint_sign a] = ival (tab a) div 2 ^ n"
      by (simp only:)
    then have "returns (len a) (ival (tab a) div 2 ^ n) c (js_bigint_new_with [- js_bigint_sign a] c)"
      using pos by (intro js_bigint_new_with_returns) (simp_all add: Suc_le_eq)
    then show ?thesis
      using True by (simp add: js_bigint_shr_def d_def [symmetric] js_bigint_new_si_def)
  next
    case False
    then have d: "d < len a"
      by simp
    have ys: "drop d (tab a) \<noteq> []" "sign_limb (drop d (tab a)) = sign_limb (tab a)"
      "ival (drop d (tab a)) = ival (tab a) div limb_pow d"
      using d ival_drop [OF d] by (simp_all add: sign_limb_def last_drop)
    have q: "ival (tab a) div 2 ^ n = ival (drop d (tab a)) div 2 ^ s"
      by (simp add: ys(3) p zdiv_zmult2_eq)
    have unf: "js_bigint_shr a n c = (case js_bigint_new (len a - d) c of (None, c) \<Rightarrow> (None, c)
      | (Some r, c) \<Rightarrow> if s = 0 then (Some (r \<lparr>tab := drop d (tab a)\<rparr>), c)
          else (let (r, c) = js_bigint_normalize (r \<lparr>tab := fst (mp_shr (drop d (tab a)) s (sign_limb (drop d (tab a))))\<rparr>) c
                in (Some r, c)))"
      using False unfolding js_bigint_shr_def Let_def d_def [symmetric] s_def [symmetric] js_bigint_sign_limb ys(2) by simp
    show ?thesis
    proof (cases "s = 0")
      case True
      then show ?thesis
        unfolding unf q using normal_drop [OF assms d]
        by (intro js_bigint_new_returns) (simp_all add: bigint_def)
    next
      case False
      then have "0 < s" by simp
      note shr = ival_shr [OF ys(1) this s]
      show ?thesis
        unfolding unf q using False shr
        by (intro js_bigint_new_returns) (auto intro!: js_bigint_normalize_returns [unfolded Let_def] simp: Let_def)
    qed
  qed
qed

section \<open>Comparison\<close>

definition int_cmp :: "int \<Rightarrow> int \<Rightarrow> int" where
  "int_cmp x y = (if x < y then - 1 else if y < x then 1 else 0)"

lemma js_bigint_cmp_loop_correct:
  assumes "length xs = length ys"
  shows "js_bigint_cmp_loop (rev xs) (rev ys) = int_cmp (int (nval xs)) (int (nval ys))"
  using assms
proof (induction xs arbitrary: ys rule: rev_induct)
  case (snoc x xs)
  then obtain y ys' where ys: "ys = ys' @ [y]" "length xs = length ys'"
    by (cases ys rule: rev_cases) auto
  show ?case
  proof (cases "x = y")
    case True
    then show ?thesis
      using snoc.IH [OF ys(2)] ys(2) by (simp add: ys(1) nval_append int_cmp_def)
  next
    case False
    then have "unat x < unat y \<or> unat y < unat x"
      by (metis nat_neq_iff word_unat_eq_iff)
    then show ?thesis
      using nval_less_by_top [OF ys(2), of x y] nval_less_by_top [OF ys(2) [symmetric], of y x] False
      by (auto simp: ys word_less_nat_alt int_cmp_def)
  qed
qed (simp add: int_cmp_def)

lemma js_bigint_cmp_correct:
  assumes a: "normal (tab a)" and b: "normal (tab b)"
  shows "js_bigint_cmp a b = int_cmp (ival (tab a)) (ival (tab b))"
proof -
  have ne: "tab a \<noteq> []" "tab b \<noteq> []"
    using a b by (simp_all add: normal_def)
  have sign: "js_bigint_sign x = limb_of_bool (ival (tab x) < 0)" if "tab x \<noteq> []" for x
    using ival_sign_iff [OF that] by (simp add: js_bigint_sign_def limb_sign_bit)
  have u: "uint (limb_of_bool p) = of_bool p" for p
    by (simp add: limb_of_bool_def)
  have eq: "limb_of_bool p = limb_of_bool q \<longleftrightarrow> p = q" for p q
    by (auto simp: limb_of_bool_def)
  consider "(ival (tab a) < 0) \<noteq> (ival (tab b) < 0)"
    | "(ival (tab a) < 0) = (ival (tab b) < 0)" "len a < len b"
    | "(ival (tab a) < 0) = (ival (tab b) < 0)" "len b < len a"
    | "(ival (tab a) < 0) = (ival (tab b) < 0)" "len a = len b"
    by linarith
  then show ?thesis
  proof cases
    case 4
    define k where "k = (if bit (last (tab a)) 63 then limb_pow (len a) else 0)"
    have "bit (last (tab a)) 63 = bit (last (tab b)) 63"
      using 4(1) ival_sign_iff ne by simp
    then have "ival (tab a) = int (nval (tab a)) - k" "ival (tab b) = int (nval (tab b)) - k"
      using 4(2) by (simp_all only: ival_def k_def)
    then have "int_cmp (ival (tab a)) (ival (tab b)) = int_cmp (int (nval (tab a))) (int (nval (tab b)))"
      by (simp add: int_cmp_def)
    then show ?thesis
      using 4 js_bigint_cmp_loop_correct [OF 4(2)] by (simp add: js_bigint_cmp_def sign ne)
  qed (use normal_shorter [OF a b] normal_shorter [OF b a] in \<open>auto simp: js_bigint_cmp_def sign ne u eq int_cmp_def\<close>)
qed

end
