(* ===== verification/BigInt_Pow.thy ===== *)
theory BigInt_Pow
  imports BigInt_Bits
begin

text \<open>
  Powers. The binary exponentiation loop relies only on the contract of the multiplication it calls;
  that contract is a locale, interpreted on \<open>js_bigint_mul\<close>. When a multiplication fails inside the
  loop the previous power stays allocated: the contract of the power function counts exactly one block that
  is never freed whenever the first allocation was granted and the call fails.
\<close>

unbundle bit_operations_syntax

section \<open>The contract of a binary operation\<close>

text \<open>A binary operation computes \<open>f\<close> on the values and asks for \<open>size\<close> limbs.\<close>

locale bigint_binary =
  fixes operation :: "JSBigInt \<Rightarrow> JSBigInt \<Rightarrow> js_ctx \<Rightarrow> JSBigInt option \<times> js_ctx"
    and f :: "int \<Rightarrow> int \<Rightarrow> int"
    and size :: "nat \<Rightarrow> nat \<Rightarrow> nat"
  assumes computes: "normal (tab a) \<Longrightarrow> normal (tab b) \<Longrightarrow>
    returns (size (len a) (len b)) (f (ival (tab a)) (ival (tab b))) c (operation a b c)"
begin

text \<open>With every request granted and a size within the limit, the operation succeeds.\<close>

lemma succeeds:
  assumes "normal (tab a)" and "normal (tab b)" and "\<And>i. grant c i" and "size (len a) (len b) \<le> JS_BIGINT_MAX_SIZE"
  shows "\<exists>x c'. operation a b c = (Some x, c') \<and> bigint x \<and> ival (tab x) = f (ival (tab a)) (ival (tab b))
    \<and> blocks c' = blocks c + 1 \<and> exn c' = exn c"
proof -
  obtain r c' where r: "operation a b c = (r, c')"
    by (cases "operation a b c")
  with computes [OF assms(1,2), of c] assms(3,4) show ?thesis
    by (cases r) (auto simp: fails_def holds_def refused_def)
qed

text \<open>The result depends on the values only, not on the objects or the state of the memory.\<close>

lemma deterministic:
  assumes "normal (tab a)" and "normal (tab b)" and "operation a b c1 = (Some x, c1')" and "operation a b c2 = (Some y, c2')"
  shows "tab x = tab y"
  using computes [OF assms(1,2), of c1] computes [OF assms(1,2), of c2] assms(3,4) normal_unique
  by (auto simp: bigint_def)

end

lemma product_length:
  assumes "normal xs" and "normal ys" and "normal zs" and "ival zs = ival xs * ival ys"
  shows "length zs \<le> length xs + length ys"
proof (rule ccontr)
  assume "\<not> length zs \<le> length xs + length ys"
  then obtain n where n: "length zs = Suc n" "length xs + length ys \<le> n"
    by (metis less_eq_Suc_le not_le Suc_le_D Suc_le_mono)
  have ne: "xs \<noteq> []" "ys \<noteq> []"
    using assms by (simp_all add: normal_def)
  then have "0 < n"
    using n(2) by (cases xs) simp_all
  then have "limb_pow n \<le> 2 * ival zs \<or> 2 * ival zs < - limb_pow n"
    using normal_large [OF assms(3) n(1)] by simp
  moreover have "limb_pow (length xs) * limb_pow (length ys) \<le> limb_pow n"
    using limb_pow_mono [OF n(2)] by (simp add: limb_pow_add)
  moreover have "- (limb_pow (length xs) * limb_pow (length ys)) \<le> 2 * (ival xs * ival ys)"
    "2 * (ival xs * ival ys) < limb_pow (length xs) * limb_pow (length ys)"
    using ival_bounds [OF ne(1)] ival_bounds [OF ne(2)] by (auto intro!: product_range simp: less_imp_le)
  ultimately show False
    unfolding assms(4) by linarith
qed

text \<open>
  The limit, less the slack of a multiplication: a product of \<open>l\<close> and \<open>k\<close> limbs asks for \<open>l + k\<close> limbs, and its value may need up to
  one limb less.
\<close>

definition pow_limit :: int where
  "pow_limit = 2 ^ (64 * (JS_BIGINT_MAX_SIZE - 1) - 2)"

lemma normal_size:
  assumes "normal xs" and "ival xs \<noteq> 0"
  shows "limb_pow (length xs - 1) \<le> 2 * \<bar>ival xs\<bar>"
proof (cases "length xs \<le> 1")
  case True
  then show ?thesis
    using assms(2) by simp
next
  case False
  then obtain n where n: "length xs = Suc n" "0 < n"
    by (cases "length xs") auto
  show ?thesis
    using normal_large [OF assms(1) n] n by auto
qed

lemma pow_limit_le:
  assumes "2 ^ (64 * (JS_BIGINT_MAX_SIZE - 1)) \<le> 4 * y"
  shows "pow_limit \<le> y"
proof -
  define m where "m = 64 * (JS_BIGINT_MAX_SIZE - 1) - 2"
  have m: "64 * (JS_BIGINT_MAX_SIZE - 1) = m + 2"
    by (simp add: m_def JS_BIGINT_MAX_SIZE_def)
  have "(2 :: int) ^ (m + 2) = 4 * 2 ^ m"
    by (simp add: power_add)
  then show ?thesis
    using assms unfolding m pow_limit_def by simp
qed

lemma product_limit:
  assumes "normal xs" and "normal ys" and "ival xs * ival ys \<noteq> 0" and "JS_BIGINT_MAX_SIZE < length xs + length ys"
  shows "pow_limit \<le> \<bar>ival xs * ival ys\<bar>"
proof (rule pow_limit_le)
  have "limb_pow (JS_BIGINT_MAX_SIZE - 1) \<le> limb_pow ((length xs - 1) + (length ys - 1))"
    using assms(4) by (intro limb_pow_mono) simp
  also have "\<dots> \<le> (2 * \<bar>ival xs\<bar>) * (2 * \<bar>ival ys\<bar>)"
    unfolding limb_pow_add using normal_size [OF assms(1)] normal_size [OF assms(2)] assms(3)
    by (intro mult_mono) (auto simp: less_imp_le)
  finally show "2 ^ (64 * (JS_BIGINT_MAX_SIZE - 1)) \<le> 4 * \<bar>ival xs * ival ys\<bar>"
    by (simp add: limb_pow_2 abs_mult)
qed

text \<open>A failure with \<open>k\<close> more blocks; when it is a RangeError, \<open>y\<close> is at the limit.\<close>

definition stops :: "int \<Rightarrow> int \<Rightarrow> js_ctx \<Rightarrow> js_ctx \<Rightarrow> bool" where
  "stops y k c c' \<longleftrightarrow> (\<exists>n. fails n k c c' \<and> (JS_BIGINT_MAX_SIZE < n \<longrightarrow> pow_limit \<le> y))"

lemma stops_after: "holds k c c' \<Longrightarrow> stops y l c' c'' \<Longrightarrow> stops y (k + l) c c''"
  using fails_after by (fastforce simp: stops_def)

lemma stops_mono: "stops y k c c' \<Longrightarrow> y \<le> z \<Longrightarrow> stops z k c c'"
  by (fastforce simp: stops_def)

locale bigint_product = bigint_binary operation "(*)" "(+)"
  for operation :: "JSBigInt \<Rightarrow> JSBigInt \<Rightarrow> js_ctx \<Rightarrow> JSBigInt option \<times> js_ctx" +
  assumes limited: "normal (tab a) \<Longrightarrow> normal (tab b) \<Longrightarrow> operation a b c = (Some x, c') \<Longrightarrow> len x \<le> JS_BIGINT_MAX_SIZE"
begin

lemma product_stops:
  assumes "normal (tab a)" and "normal (tab b)" and "ival (tab a) * ival (tab b) \<noteq> 0" and "operation a b c = (None, c')"
  shows "stops \<bar>ival (tab a) * ival (tab b)\<bar> 0 c c'"
  using computes [OF assms(1,2), of c] assms(4) product_limit [OF assms(1-3)] by (auto simp: stops_def)

text \<open>
  The loop: \<open>r\<close> is the power of exponent \<open>k\<close>, and the \<open>i\<close> low bits of \<open>e\<close> are still to come.
\<close>

lemma pow_loop:
  assumes a: "normal (tab a)" "ival (tab a) \<noteq> 0" and "bigint r" and "ival (tab r) = ival (tab a) ^ k" and "len r \<le> JS_BIGINT_MAX_SIZE"
    and "holds 1 c c1"
  shows "case js_bigint_pow_loop operation a e i r c1 of
      (Some x, c') \<Rightarrow> bigint x \<and> ival (tab x) = ival (tab a) ^ (k * 2 ^ i + take_bit i (unat e)) \<and>
        len x \<le> JS_BIGINT_MAX_SIZE \<and> holds 1 c c'
    | (None, c') \<Rightarrow> stops (\<bar>ival (tab a)\<bar> ^ (k * 2 ^ i + take_bit i (unat e))) 1 c c'"
  using assms(3-)
proof (induction i arbitrary: r k c1)
  case (Suc i)
  let ?p = "k * 2 ^ Suc i + take_bit (Suc i) (unat e)" and ?z = "ival (tab a)"
  have z1: "1 \<le> \<bar>?z\<bar>"
    using a(2) by linarith
  have "bit (unat e) i = bit e i"
    by (simp add: bit_simps)
  then have "take_bit (Suc i) (unat e) = of_bool (bit e i) * 2 ^ i + take_bit i (unat e)"
    by (simp add: take_bit_Suc_from_most add.commute mult.commute)
  then have p: "?p = (2 * k + of_bool (bit e i)) * 2 ^ i + take_bit i (unat e)"
    by (simp add: algebra_simps)
  have stop: "stops (\<bar>?z\<bar> ^ ?p) 1 c c'" if "stops \<bar>?z ^ l\<bar> 0 c2 c'" "holds 1 c c2" "l \<le> 2 * k + of_bool (bit e i)" for l c2 c'
  proof (rule stops_mono)
    show "stops \<bar>?z ^ l\<bar> 1 c c'"
      using stops_after [OF that(2,1)] by simp
    have "l \<le> l * 2 ^ i"
      by simp
    also have "\<dots> \<le> (2 * k + of_bool (bit e i)) * 2 ^ i"
      using that(3) by (rule mult_le_mono1)
    finally have "l \<le> ?p"
      unfolding p by (rule trans_le_add1)
    then show "\<bar>?z ^ l\<bar> \<le> \<bar>?z\<bar> ^ ?p"
      using z1 by (simp add: power_abs power_increasing)
  qed
  have nr: "normal (tab r)"
    using Suc.prems(1) by (simp add: bigint_def)
  have v1: "ival (tab r) * ival (tab r) = ?z ^ (2 * k)"
    by (simp add: Suc.prems(2) mult_2 power_add)
  obtain r1 c2 where s1: "operation r r c1 = (r1, c2)"
    by (cases "operation r r c1")
  show ?case
  proof (cases r1)
    case None
    then have "stops \<bar>?z ^ (2 * k)\<bar> 0 c1 c2"
      using product_stops [OF nr nr, of c1 c2] s1 a(2) by (simp add: v1)
    then show ?thesis
      using stop [OF _ Suc.prems(4), of "2 * k"] None s1 by simp
  next
    case (Some r2)
    then have r2: "bigint r2" "ival (tab r2) = ?z ^ (2 * k)" "holds 1 c1 c2"
      using computes [OF nr nr, of c1] s1 v1 by simp_all
    have l2: "len r2 \<le> JS_BIGINT_MAX_SIZE"
      using limited [OF nr nr] s1 Some by blast
    have h2: "holds 1 c (js_free c2)"
      using holds_trans [OF Suc.prems(4) r2(3)] by simp
    have n2: "normal (tab r2)"
      using r2(1) by (simp add: bigint_def)
    show ?thesis
    proof (cases "bit e i")
      case False
      then have ex: "?p = 2 * k * 2 ^ i + take_bit i (unat e)"
        using p by simp
      show ?thesis
        unfolding ex using Suc.IH [OF r2(1,2) l2 h2] False Some s1 by simp
    next
      case True
      then have ex: "?p = (2 * k + 1) * 2 ^ i + take_bit i (unat e)"
        using p by simp
      have v2: "ival (tab r2) * ?z = ?z ^ (2 * k + 1)"
        by (simp add: r2(2))
      obtain r3 c3 where s2: "operation r2 a (js_free c2) = (r3, c3)"
        by (cases "operation r2 a (js_free c2)")
      show ?thesis
      proof (cases r3)
        case None
        then have "stops \<bar>?z ^ (2 * k + 1)\<bar> 0 (js_free c2) c3"
          using product_stops [OF n2 a(1), of "js_free c2" c3] s2 a(2) unfolding v2 by simp
        then show ?thesis
          using stop [OF _ h2, of "2 * k + 1"] None Some s1 s2 True by simp
      next
        case S3: (Some r4)
        then have r4: "bigint r4" "ival (tab r4) = ?z ^ (2 * k + 1)" "holds 1 (js_free c2) c3"
          using computes [OF n2 a(1), of "js_free c2"] s2 v2 by simp_all
        have l4: "len r4 \<le> JS_BIGINT_MAX_SIZE"
          using limited [OF n2 a(1)] s2 S3 by blast
        have h3: "holds 1 c (js_free c3)"
          using holds_trans [OF h2 r4(3)] by simp
        show ?thesis
          unfolding ex using Suc.IH [OF r4(1,2) l4 h3] S3 Some s1 s2 True by simp
      qed
    qed
  qed
qed simp

end

section \<open>The operations satisfy the contract\<close>

interpretation bigint_sum: bigint_binary "\<lambda>a b. js_bigint_add a b 0" "(+)" max
proof
  fix a b :: JSBigInt and c
  assume "normal (tab a)" and "normal (tab b)"
  then show "returns (max (len a) (len b)) (ival (tab a) + ival (tab b)) c (js_bigint_add a b 0 c)"
    using js_bigint_add_returns [of a b False c] by (simp add: normal_def limb_of_bool_def)
qed

interpretation bigint_difference: bigint_binary "\<lambda>a b. js_bigint_add a b 1" "(-)" max
proof
  fix a b :: JSBigInt and c
  assume "normal (tab a)" and "normal (tab b)"
  then show "returns (max (len a) (len b)) (ival (tab a) - ival (tab b)) c (js_bigint_add a b 1 c)"
    using js_bigint_add_returns [of a b True c] by (simp add: normal_def limb_of_bool_def)
qed

lemma js_bigint_mul_limited:
  assumes "normal (tab a)" and "normal (tab b)" and "js_bigint_mul a b c = (Some x, c')"
  shows "len x \<le> JS_BIGINT_MAX_SIZE"
proof -
  have "len a + len b \<le> JS_BIGINT_MAX_SIZE"
    using assms(3) by (auto simp: js_bigint_mul_def js_bigint_new_def split: if_splits)
  moreover have "returns (len a + len b) (ival (tab a) * ival (tab b)) c (Some x, c')"
    using js_bigint_mul_returns [of a b c] assms by (simp add: normal_def)
  then have "len x \<le> len a + len b"
    using product_length [OF assms(1,2), of "tab x"] by (simp add: bigint_def)
  ultimately show ?thesis
    by simp
qed

interpretation bigint_times: bigint_product js_bigint_mul
  by unfold_locales (simp_all add: js_bigint_mul_returns js_bigint_mul_limited normal_def)

interpretation bigint_bitwise: bigint_binary "\<lambda>a b. js_bigint_logic a b opc" "int_logic opc" max for opc
  by unfold_locales (simp add: js_bigint_logic_returns normal_def)

section \<open>Powers of two\<close>

text \<open>The array of a power of two, positive or negative.\<close>

lemma pow_2_array:
  fixes e :: nat and neg :: bool
  defines "t \<equiv> (replicate ((e + 64 + 1 - of_bool neg) div 64) 0) [e div 64 := push_bit (e mod 64) (if neg then - 1 else 1 :: js_limb_t)]"
  shows "normal t" and "ival t = (if neg then - (2 ^ e) else 2 ^ e)"
proof -
  define d s where "d = e div 64" and "s = e mod 64"
  have e: "e = 64 * d + s" and s: "s < 64"
    by (simp_all add: d_def s_def)
  define v where "v = push_bit s (if neg then - 1 else 1 :: js_limb_t)"
  have zeros: "ival (replicate d 0 @ ys) = 2 ^ (64 * d) * ival ys" if "ys \<noteq> []" for ys
    using ival_append [OF that, of "replicate d 0"] by (simp add: limb_pow_2)
  have goal: "normal t \<and> ival t = (if neg then - (2 ^ e) else 2 ^ e)"
    if t: "t = replicate d 0 @ ys" and ys: "normal ys" "ival ys = (if neg then - (2 ^ s) else 2 ^ s)" for ys
  proof -
    have ne: "ys \<noteq> []" "ival ys \<noteq> 0"
      using ys by (auto simp: normal_def)
    then show ?thesis
      using zeros [OF ne(1)] normal_replicate_0 [OF ys(1)] ys(2) by (simp add: t e power_add)
  qed
  have pos: "unat (push_bit s 1 :: js_limb_t) = 2 ^ s"
    using limb_push_bit [of s 1] s by (simp add: unat_1)
  have ps: "s < 63 \<Longrightarrow> (2 :: nat) ^ s < 2 ^ 63"
    by (intro power_strict_increasing) simp_all
  have dd: "e div 64 = d" "e mod 64 = s"
    by (simp_all add: d_def s_def)
  have upd: "(replicate (Suc d) 0) [d := v] = replicate d 0 @ [v]"
    "(replicate (Suc (Suc d)) 0) [d := v] = replicate d 0 @ [v, 0]"
    by (simp_all add: list_update_append replicate_app_Cons_same [symmetric] replicate_append_same [symmetric])
  show "normal t" "ival t = (if neg then - (2 ^ e) else 2 ^ e)"
  proof (atomize (full), cases neg)
    case True
    have L: "(e + 64 + 1 - of_bool neg) div 64 = Suc d"
      using True by (simp add: d_def)
    have "t = replicate d 0 @ [v]"
      by (simp only: t_def dd v_def [symmetric] L upd(1))
    moreover have "ival [v] = - (2 ^ s)"
    proof -
      have ps63: "(2 :: nat) ^ s \<le> 2 ^ 63"
        using s by (intro power_increasing) simp_all
      have u: "unat v = limb_base - 2 ^ s"
        using True unat_push_minus_one [OF s] by (simp add: v_def)
      then have "bit v 63"
        unfolding limb_msb using ps63 limb_half by linarith
      moreover have "int (unat v) = int limb_base - 2 ^ s"
        using u ps63 limb_half by (simp add: of_nat_diff)
      ultimately show ?thesis
        by (simp add: ival_single sint_limb)
    qed
    ultimately show "normal t \<and> ival t = (if neg then - (2 ^ e) else 2 ^ e)"
      using True by (intro goal) simp_all
  next
    case False
    show "normal t \<and> ival t = (if neg then - (2 ^ e) else 2 ^ e)"
    proof (cases "s = 63")
      case s63: True
      have L: "(e + 64 + 1 - of_bool neg) div 64 = Suc (Suc d)"
        using False e s63 by simp
      have "t = replicate d 0 @ [v, 0]"
        by (simp only: t_def dd v_def [symmetric] L upd(2))
      moreover have "bit v 63"
        using pos False s63 by (simp add: limb_msb v_def)
      then have "significant 0 v"
        using significant_sign_limb [of 0 "[v]"] by (simp add: sign_limb_def)
      then have "normal [v, 0]"
        by (simp add: normal_def)
      moreover have "ival [v, 0] = 2 ^ s"
        using pos False by (simp add: ival_def v_def)
      ultimately show ?thesis
        using False by (intro goal) simp_all
    next
      case ns: False
      have L: "(e + 64 + 1 - of_bool neg) div 64 = Suc d"
        using False e s ns by simp
      have "t = replicate d 0 @ [v]"
        by (simp only: t_def dd v_def [symmetric] L upd(1))
      moreover have "ival [v] = 2 ^ s"
        using pos False ps ns s by (simp add: ival_def v_def limb_msb)
      ultimately show ?thesis
        using False by (intro goal) simp_all
    qed
  qed
qed

section \<open>The power function\<close>

text \<open>
  The contract of \<open>js_bigint_pow\<close> for base \<open>z\<close> and exponent \<open>n\<close>: the power, within the limit of the BigInt size; or a RangeError,
  only when the power is at the limit; or the failure of an allocation. When the call fails after its first
  allocation was granted, one block stays allocated; otherwise none does.
\<close>

definition started :: "js_ctx \<Rightarrow> js_ctx \<Rightarrow> bool" where
  "started c c' \<longleftrightarrow> allocs c < allocs c' \<and> grant c (allocs c)"

definition too_large :: "js_error option \<Rightarrow> bool" where
  "too_large e \<longleftrightarrow> e = Some (RangeError ''BigInt is too large'') \<or> e = Some (RangeError ''BigInt is too large to allocate'')"

fun powers :: "int \<Rightarrow> nat \<Rightarrow> js_ctx \<Rightarrow> JSBigInt option \<times> js_ctx \<Rightarrow> bool" where
  "powers z n c (Some x, c') \<longleftrightarrow> bigint x \<and> ival (tab x) = z ^ n \<and> len x \<le> JS_BIGINT_MAX_SIZE \<and> holds 1 c c'"
| "powers z n c (None, c') \<longleftrightarrow>
     later c c' \<and> blocks c' = blocks c + of_bool (started c c') \<and>
     (too_large (exn c') \<and> pow_limit \<le> \<bar>z\<bar> ^ n \<or> refused c c' \<and> exn c' = Some OutOfMemory)"

lemma powers_new:
  assumes "normal xs" and "ival xs = z ^ n" and "JS_BIGINT_MAX_SIZE < length xs \<Longrightarrow> pow_limit \<le> \<bar>z\<bar> ^ n"
  shows "powers z n c (js_bigint_new_with xs c)"
  using assms
  by (auto simp: js_bigint_new_with_def js_bigint_new_def js_malloc_def Let_def bigint_def holds_def later_def refused_def
      started_def too_large_def JS_ThrowRangeError_def JS_ThrowOutOfMemory_def)

lemma powers_overflow:
  assumes "pow_limit \<le> \<bar>z\<bar> ^ n"
  shows "powers z n c (js_bigint_pow_overflow c)"
  using assms by (simp add: js_bigint_pow_overflow_def JS_ThrowRangeError_def later_def started_def too_large_def)

lemma pow_limit_exponent:
  assumes "2 \<le> \<bar>z :: int\<bar>" and "JS_BIGINT_MAX_SIZE * 64 \<le> n"
  shows "pow_limit \<le> \<bar>z\<bar> ^ n"
proof -
  have "pow_limit \<le> 2 ^ n"
    unfolding pow_limit_def using assms(2) by (intro power_increasing) simp_all
  also have "\<dots> \<le> \<bar>z\<bar> ^ n"
    using assms(1) by (rule power_mono) simp
  finally show ?thesis .
qed

lemma exponent_limb:
  assumes "normal (tab b)" and "0 \<le> ival (tab b)"
  shows "len b = 1 \<Longrightarrow> nat (ival (tab b)) = unat (hd (tab b))" and "1 < len b \<Longrightarrow> 2 ^ 63 \<le> nat (ival (tab b))"
proof -
  show "nat (ival (tab b)) = unat (hd (tab b))" if "len b = 1"
  proof -
    obtain x where b: "tab b = [x]"
      using \<open>len b = 1\<close> by (cases "tab b") auto
    then have "\<not> bit x 63"
      using ival_sign_iff [of "[x]"] assms(2) by simp
    then show ?thesis
      by (simp add: b ival_def)
  qed
  assume "1 < len b"
  then obtain n where n: "len b = Suc n" "0 < n"
    by (cases "len b") auto
  have "limb_pow 1 \<le> limb_pow n"
    using n(2) by (intro limb_pow_mono) simp
  then have "(2 :: int) ^ 63 \<le> ival (tab b)"
    using normal_large [OF assms(1) n] assms(2) limb_pow_pos [of n] by (simp add: limb_pow_Suc limb_half)
  then have "nat (2 ^ 63) \<le> nat (ival (tab b))"
    by (rule nat_mono)
  then show "2 ^ 63 \<le> nat (ival (tab b))"
    by simp
qed

lemma exponent_overflow:
  assumes "normal (tab b)" and "0 \<le> ival (tab b)" and "len b > 1 \<or> hd (tab b) > 0x7FFFFFFF"
  shows "JS_BIGINT_MAX_SIZE * 64 \<le> nat (ival (tab b))"
proof (cases "1 < len b")
  case True
  then show ?thesis
    using exponent_limb(2) [OF assms(1,2)] by (simp add: JS_BIGINT_MAX_SIZE_def)
next
  case False
  then have "len b = 1"
    using assms(1) by (cases "tab b") (auto simp: normal_def)
  then show ?thesis
    using exponent_limb(1) [OF assms(1,2)] assms(3) by (simp add: JS_BIGINT_MAX_SIZE_def word_less_nat_alt)
qed

lemma first_size_limit:
  assumes "normal (tab a)" and "2 \<le> \<bar>ival (tab a)\<bar>" and "0 < m" and "JS_BIGINT_MAX_SIZE < len a"
  shows "pow_limit \<le> \<bar>ival (tab a)\<bar> ^ m"
proof -
  have "limb_pow (JS_BIGINT_MAX_SIZE - 1) \<le> limb_pow (len a - 1)"
    using assms(4) by (intro limb_pow_mono) simp
  also have "\<dots> \<le> 2 * \<bar>ival (tab a)\<bar>"
    using assms(2) by (intro normal_size [OF assms(1)]) auto
  finally have "pow_limit \<le> \<bar>ival (tab a)\<bar> ^ 1"
    by (intro pow_limit_le) (simp add: limb_pow_2)
  also have "\<dots> \<le> \<bar>ival (tab a)\<bar> ^ m"
    using assms(2,3) by (intro power_increasing) simp_all
  finally show ?thesis .
qed

lemma js_bigint_pow_general_returns:
  assumes a: "normal (tab a)" "2 \<le> \<bar>ival (tab a)\<bar>" and b: "normal (tab b)" "0 < ival (tab b)"
  shows "powers (ival (tab a)) (nat (ival (tab b))) c (js_bigint_pow_general a b c)"
proof (cases "len b > 1 \<or> hd (tab b) > 0x7FFFFFFF")
  case True
  then have "JS_BIGINT_MAX_SIZE * 64 \<le> nat (ival (tab b))"
    using b by (intro exponent_overflow) simp_all
  then show ?thesis
    using True powers_overflow [OF pow_limit_exponent [OF a(2)]] by (auto simp: js_bigint_pow_general_def)
next
  case False
  let ?n = "nat (ival (tab b))"
  have "len b = 1"
    using False b(1) by (cases "tab b") (auto simp: normal_def)
  then have n: "?n = unat (hd (tab b))" and pos: "0 < ?n"
    using exponent_limb(1) [OF b(1)] b(2) by simp_all
  define e where "e = (ucast (hd (tab b)) :: u32)"
  have lt: "?n < 2 ^ 31"
    using False n by (simp add: word_less_nat_alt not_less)
  then have e: "unat e = ?n"
    unfolding e_def by (simp add: unat_ucast n [symmetric])
  let ?f = "floor_log2 ?n"
  have f: "?f < 31"
    using floor_log2_less [OF pos lt] .
  then have bits: "32 - clz32 e - 1 = ?f"
    by (simp add: clz32_def e)
  note fb = floor_log2_bounds [OF pos]
  have "?n div 2 ^ ?f = 1"
    using fb by (intro div_nat_eqI) simp_all
  then have ex: "1 * 2 ^ ?f + take_bit ?f (unat e) = ?n"
    using div_mult_mod_eq [of ?n "2 ^ ?f"] by (simp add: e take_bit_eq_mod)
  obtain r c1 where r: "js_bigint_new_with (tab a) c = (r, c1)"
    by (cases "js_bigint_new_with (tab a) c")
  have unf: "js_bigint_pow_general a b c = (case r of None \<Rightarrow> (None, c1)
    | Some r \<Rightarrow> js_bigint_pow_loop js_bigint_mul a e ?f r c1)"
    using False bits by (simp add: js_bigint_pow_general_def e_def [symmetric] r split: option.splits)
  have la: "JS_BIGINT_MAX_SIZE < len a \<Longrightarrow> pow_limit \<le> \<bar>ival (tab a)\<bar> ^ m" if "0 < m" for m
    using first_size_limit [OF a that] .
  show ?thesis
  proof (cases r)
    case None
    have "powers (ival (tab a)) 1 c (None, c1)"
      using powers_new [OF a(1), of "ival (tab a)" 1 c] la [of 1] r None by simp
    moreover have "powers (ival (tab a)) ?n c (None, c1)" if "powers (ival (tab a)) 1 c (None, c1)"
    proof -
      have "\<bar>ival (tab a)\<bar> ^ 1 \<le> \<bar>ival (tab a)\<bar> ^ ?n"
        using a(2) pos by (intro power_increasing) simp_all
      then show ?thesis
        using that by auto
    qed
    ultimately show ?thesis
      using unf None by simp
  next
    case (Some r')
    have "powers (ival (tab a)) 1 c (Some r', c1)"
      using powers_new [OF a(1), of "ival (tab a)" 1 c] la [of 1] r Some by simp
    then have r': "bigint r'" "ival (tab r') = ival (tab a) ^ 1" "len r' \<le> JS_BIGINT_MAX_SIZE" "holds 0 c (js_free c1)"
      by simp_all
    have first: "allocs c < allocs c1" "grant c (allocs c)"
      using r Some by (auto simp: js_bigint_new_with_def js_bigint_new_def js_malloc_def Let_def split: if_splits)
    have "holds 1 (js_free c1) c1"
      by (simp add: holds_def later_def js_free_def)
    from bigint_times.pow_loop [OF a(1) _ r'(1-3) this, where e = e and i = ?f] a(2)
    have loop: "case js_bigint_pow_loop js_bigint_mul a e ?f r' c1 of
        (Some x, c') \<Rightarrow> bigint x \<and> ival (tab x) = ival (tab a) ^ ?n \<and> len x \<le> JS_BIGINT_MAX_SIZE \<and> holds 1 (js_free c1) c'
      | (None, c') \<Rightarrow> stops (\<bar>ival (tab a)\<bar> ^ ?n) 1 (js_free c1) c'"
      unfolding ex by simp
    have "powers (ival (tab a)) ?n c (x, c')" if x: "js_bigint_pow_loop js_bigint_mul a e ?f r' c1 = (x, c')" for x c'
    proof (cases x)
      case None
      then have st: "stops (\<bar>ival (tab a)\<bar> ^ ?n) 1 (js_free c1) c'"
        using loop x by simp
      then have "allocs c1 \<le> allocs c'"
        by (auto simp: stops_def fails_def later_def js_free_def)
      then have "started c c'"
        using first by (simp add: started_def)
      then show ?thesis
        using None stops_after [OF r'(4) st] by (auto simp: stops_def fails_def too_large_def)
    next
      case S: (Some y)
      then show ?thesis
        using loop x holds_trans [OF r'(4), of 1 c'] by simp
    qed
    then show ?thesis
      using unf Some by (cases "js_bigint_pow_loop js_bigint_mul a e ?f r' c1") simp
  qed
qed

lemma js_bigint_pow_2_returns:
  assumes a: "\<bar>ival (tab a)\<bar> = int (unat v)" "neg \<longleftrightarrow> ival (tab a) < 0" "normal (tab a)" and v: "v AND (v - 1) = 0" "2 \<le> unat v"
    and b: "normal (tab b)" "0 < ival (tab b)"
  shows "powers (ival (tab a)) (nat (ival (tab b))) c (js_bigint_pow_2 v neg b c)"
proof -
  let ?n = "nat (ival (tab b))"
  let ?z = "ival (tab a)"
  define k where "k = floor_log2 (unat v)"
  have "unat v < 2 ^ 64"
    using unat_less [of v] by simp
  then have k64: "k < 64"
    unfolding k_def using v(2) by (intro floor_log2_less) simp_all
  have "v \<noteq> 0"
    using v(2) by auto
  then have vk: "unat v = 2 ^ k"
    unfolding k_def using v(1) by (rule power_of_2_test)
  have clz: "64 - 1 - js_limb_clz v = k"
    using k64 by (simp add: js_limb_clz_def clz64_def k_def)
  have z: "?z = (if neg then - (2 ^ k) else 2 ^ k)"
    using a(1,2) vk by (auto simp: abs_if split: if_splits)
  show ?thesis
  proof (cases "len b > 1 \<or> hd (tab b) > 0x7FFFFFFF")
    case True
    then have "JS_BIGINT_MAX_SIZE * 64 \<le> ?n"
      using b by (intro exponent_overflow) simp_all
    moreover have "2 \<le> \<bar>?z\<bar>"
      using a(1) v(2) by linarith
    ultimately show ?thesis
      using True powers_overflow [OF pow_limit_exponent, of ?z ?n c] by (auto simp: js_bigint_pow_2_def Let_def)
  next
    case False
    have "len b = 1"
      using False b(1) by (cases "tab b") (auto simp: normal_def)
    then have n: "unat (hd (tab b)) = ?n" and pos: "0 < ?n"
      using exponent_limb(1) [OF b(1)] b(2) by simp_all
    have odd: "bit (hd (tab b)) 0 \<longleftrightarrow> odd ?n"
    proof -
      have "bit (hd (tab b)) 0 \<longleftrightarrow> bit (unat (hd (tab b))) 0"
        by (simp add: bit_simps)
      then show ?thesis
        by (simp add: n bit_0)
    qed
    have zn: "?z ^ ?n = (if neg \<and> odd ?n then - (2 ^ (?n * k)) else 2 ^ (?n * k))"
      by (simp add: z power_mult [symmetric] mult.commute power_minus [of "2 ^ k"] minus_one_power_iff)
    have abs_zn: "\<bar>?z\<bar> ^ ?n = 2 ^ (?n * k)"
      using a(1) vk by (simp add: power_mult mult.commute)
    show ?thesis
    proof (cases "?n * k > JS_BIGINT_MAX_SIZE * 64")
      case True
      then have "pow_limit \<le> \<bar>?z\<bar> ^ ?n"
        unfolding abs_zn pow_limit_def by (intro power_increasing) simp_all
      from powers_overflow [OF this, of c] show ?thesis
        using True False clz by (simp add: js_bigint_pow_2_def Let_def n)
    next
      case small: False
      define neg' where "neg' = (neg \<and> odd ?n)"
      define t where "t = (replicate ((?n * k + 64 + 1 - of_bool neg') div 64) 0)
        [?n * k div 64 := push_bit (?n * k mod 64) (if neg' then - 1 else 1 :: js_limb_t)]"
      have t: "normal t" "ival t = ?z ^ ?n"
        using pow_2_array [where e = "?n * k" and neg = neg'] zn by (auto simp: t_def neg'_def)
      have len_t: "length t = (?n * k + 64 + 1 - of_bool neg') div 64"
        by (simp add: t_def)
      have limit: "pow_limit \<le> \<bar>?z\<bar> ^ ?n" if "JS_BIGINT_MAX_SIZE < length t"
      proof -
        have "JS_BIGINT_MAX_SIZE * 64 \<le> ?n * k + 1"
          using that unfolding len_t by (cases neg') simp_all
        then show ?thesis
          unfolding abs_zn pow_limit_def by (intro power_increasing) simp_all
      qed
      have conds: "(1 < len b) = False" "(0x7FFFFFFF < hd (tab b)) = False" "(JS_BIGINT_MAX_SIZE * 64 < ?n * k) = False"
        using False small by blast+
      have unf: "js_bigint_pow_2 v neg b c = (case js_bigint_new ((?n * k + 64 + 1 - of_bool neg') div 64) c of
          (None, c) \<Rightarrow> (None, c)
        | (Some r, c) \<Rightarrow> (Some (r \<lparr>tab := (replicate (len r) 0)
            [?n * k div 64 := push_bit (?n * k mod 64) (if neg' then - 1 else 1)]\<rparr>), c))"
        unfolding js_bigint_pow_2_def Let_def clz n odd neg'_def [symmetric] conds if_False ..
      have "js_bigint_pow_2 v neg b c = js_bigint_new_with t c"
        unfolding unf js_bigint_new_with_def len_t
        by (auto simp: t_def js_bigint_new_def fresh_def split: prod.splits option.splits bool.splits if_splits)
      then show ?thesis
        using powers_new [OF t limit] by simp
    qed
  qed
qed

lemma ival_parity:
  assumes "normal xs"
  shows "even (ival xs) \<longleftrightarrow> \<not> bit (hd xs) 0"
proof -
  obtain x ys where xs: "xs = x # ys"
    using assms by (cases xs) (auto simp: normal_def)
  have "even (limb_pow (length xs))"
    by (simp add: xs limb_pow_Suc limb_half)
  then have "even (ival xs) \<longleftrightarrow> even (nval xs)"
    by (simp add: ival_def)
  also have "\<dots> \<longleftrightarrow> even (unat x)"
    by (simp add: xs limb_half)
  also have "\<dots> \<longleftrightarrow> \<not> bit (unat x) 0"
    by (simp add: bit_0)
  also have "bit (unat x) 0 \<longleftrightarrow> bit x 0"
    by (simp add: bit_simps)
  finally show ?thesis
    by (simp add: xs)
qed

lemma js_bigint_pow_returns:
  assumes a: "normal (tab a)" and b: "normal (tab b)"
  shows "if ival (tab b) < 0 then js_bigint_pow a b c = (None, JS_ThrowRangeError ''BigInt negative exponent'' c)
    else powers (ival (tab a)) (nat (ival (tab b))) c (js_bigint_pow a b c)"
proof (cases "ival (tab b) < 0")
  case True
  then show ?thesis
    using b js_bigint_sign_neg [of b] by (simp add: js_bigint_pow_def normal_def)
next
  case nneg: False
  let ?z = "ival (tab a)" and ?n = "nat (ival (tab b))"
  have sign: "js_bigint_sign b = 0"
    using nneg b js_bigint_sign_neg [of b] by (auto simp: normal_def)
  have new1: "powers z n c (js_bigint_new_si v c)" if "ival [v] = z ^ n" for v z n
    unfolding js_bigint_new_si_def using that by (intro powers_new) (simp_all add: JS_BIGINT_MAX_SIZE_def)
  have "powers ?z ?n c (js_bigint_pow a b c)"
  proof (cases "ival (tab b) = 0")
    case True
    then have "tab b = [0]"
      using normal_zero [OF b] by simp
    then show ?thesis
      using sign True new1 [of 1 ?z 0] by (simp add: js_bigint_pow_def ival_single)
  next
    case False
    with nneg have pos: "0 < ival (tab b)"
      by simp
    have nz: "\<not> (len b = 1 \<and> hd (tab b) = 0)"
      using False by (cases "tab b") (auto simp: ival_def)
    show ?thesis
    proof (cases "len a = 1")
      case True
      then obtain v where v: "tab a = [v]"
        by (cases "tab a") auto
      then have z: "?z = sint v"
        by (simp add: ival_single)
      consider "v \<le> 1" | "v = - 1" | "\<not> v \<le> 1" "v \<noteq> - 1"
        by blast
      then show ?thesis
      proof cases
        case 1
        then have "unat v \<le> 1"
          by (simp add: word_le_nat_alt)
        then have "unat v = unat (0 :: js_limb_t) \<or> unat v = unat (1 :: js_limb_t)"
          by auto
        then have "v = 0 \<or> v = 1"
          by (simp only: word_unat_eq_iff)
        then have "ival [v] = ?z ^ ?n"
          using pos z by (auto simp: ival_single)
        then show ?thesis
          using sign nz v 1 new1 [of v ?z ?n] by (auto simp: js_bigint_pow_def)
      next
        case 2
        have par: "hd (tab b) AND 1 = limb_of_bool (odd ?n)"
        proof -
          have "odd ?n \<longleftrightarrow> bit (hd (tab b)) 0"
            using pos ival_parity [OF b] by (simp add: even_nat_iff)
          then show ?thesis
            by (simp add: and_one_eq limb_of_bool_def bit_0 odd_iff_mod_2_eq_one even_iff_mod_2_eq_zero)
        qed
        then have "ival [1 - 2 * (hd (tab b) AND 1)] = ?z ^ ?n"
          using 2 z by (simp add: ival_single limb_of_bool_def)
        moreover have "js_bigint_pow a b c = js_bigint_new_si (1 - 2 * (hd (tab b) AND 1)) c"
          using sign nz v 2 by (simp add: js_bigint_pow_def Let_def word_le_nat_alt minus_one_limb limb_half)
        ultimately show ?thesis
          using new1 by simp
      next
        case 3
        define w where "w = (if bit v 63 then - v else v)"
        have nz0: "v \<noteq> 0" "v \<noteq> 1"
          using 3(1) by auto
        have w: "\<bar>?z\<bar> = int (unat w)"
        proof (cases "bit v 63")
          case True
          have "unat (0 - v) = limb_base - unat v"
            using nz0(1) by (simp only: limb_sub) (simp add: unat_gt_0)
          then have "int (unat w) = int limb_base - int (unat v)"
            using True by (simp add: w_def of_nat_diff less_imp_le)
          moreover have "unat v < limb_base" by simp
          moreover have "?z = int (unat v) - int limb_base"
            using True by (simp add: z sint_limb)
          ultimately show ?thesis
            by linarith
        qed (simp add: w_def z sint_limb)
        have neg: "bit v 63 \<longleftrightarrow> ?z < 0"
          using ival_sign_iff [of "[v]"] v by simp
        have "?z \<noteq> sint (0 :: js_limb_t)" "?z \<noteq> sint (1 :: js_limb_t)" "?z \<noteq> sint (- 1 :: js_limb_t)"
          using nz0 3(2) z signed_word_eqI [of v] by metis+
        then have big: "2 \<le> \<bar>?z\<bar>"
          by (simp add: abs_if)
        then have w2: "2 \<le> unat w"
          using w by linarith
        have unf: "js_bigint_pow a b c = (if w AND (w - 1) = 0 then js_bigint_pow_2 w (bit v 63) b c else js_bigint_pow_general a b c)"
          using sign nz v True 3 unfolding js_bigint_pow_def Let_def w_def by auto
        show ?thesis
          unfolding unf
          using js_bigint_pow_2_returns [OF w neg a _ w2 b pos, of c] js_bigint_pow_general_returns [OF a big b pos, of c] by simp
      qed
    next
      case len: False
      then obtain m where m: "len a = Suc m" "0 < m"
        using a by (cases "len a") (auto simp: normal_def)
      have "limb_pow 1 \<le> limb_pow m"
        using m(2) by (intro limb_pow_mono) simp
      then have "2 \<le> \<bar>?z\<bar>"
        using normal_large [OF a m] by (auto simp: limb_pow_Suc limb_half)
      then show ?thesis
        using js_bigint_pow_general_returns [OF a _ b pos, of c] sign nz len by (auto simp: js_bigint_pow_def)
    qed
  qed
  then show ?thesis
    using nneg by simp
qed

text \<open>With every request granted, a power clearly below the limit is returned and one that does not fit is a RangeError.\<close>

lemma powers_granted:
  assumes "powers z n c res" and "\<And>i. grant c i"
  shows "\<bar>z\<bar> ^ n < pow_limit \<Longrightarrow> \<exists>x c'. res = (Some x, c')"
    and "2 ^ (64 * JS_BIGINT_MAX_SIZE - 1) < \<bar>z\<bar> ^ n \<Longrightarrow> \<exists>c'. res = (None, c') \<and> too_large (exn c')"
proof -
  obtain r c' where res: "res = (r, c')"
    by (cases res)
  have no: "\<not> refused c c'"
    using assms(2) by (simp add: refused_def)
  have double: "(2 :: int) ^ m = 2 * 2 ^ (m - 1)" if "0 < m" for m
    using that by (cases m) simp_all
  have "0 < 64 * JS_BIGINT_MAX_SIZE"
    by (simp add: JS_BIGINT_MAX_SIZE_def)
  note double = double [OF this]
  show "\<exists>x c'. res = (Some x, c')" if "\<bar>z\<bar> ^ n < pow_limit"
    using assms(1) that no res by (cases r) auto
  show "\<exists>c'. res = (None, c') \<and> too_large (exn c')" if large: "2 ^ (64 * JS_BIGINT_MAX_SIZE - 1) < \<bar>z\<bar> ^ n"
  proof (cases r)
    case None
    then show ?thesis
      using assms(1) no res by auto
  next
    case (Some x)
    then have x: "normal (tab x)" "ival (tab x) = z ^ n" "len x \<le> JS_BIGINT_MAX_SIZE"
      using assms(1) res by (simp_all add: bigint_def)
    then have "2 * \<bar>z ^ n\<bar> \<le> limb_pow (len x)"
      using ival_bounds [of "tab x"] by (auto simp: normal_def)
    also have "\<dots> \<le> limb_pow JS_BIGINT_MAX_SIZE"
      using x(3) by (rule limb_pow_mono)
    also have "\<dots> = 2 * 2 ^ (64 * JS_BIGINT_MAX_SIZE - 1)"
      unfolding limb_pow_2 by (rule double)
    finally show ?thesis
      using large by (simp add: power_abs)
  qed
qed

end
