(* ===== verification/Itoa.thy ===== *)
theory Itoa
  imports Limbs
begin

text \<open>
  Printing of integers (dtoa.c, \<open>u32toa\<close> to \<open>i64toa_radix\<close>). A function that fills a buffer from its start
  gives the bytes it writes; the length it returns is the length of that list. The reference is the
  positional notation, \<open>numeral_digits\<close>.
\<close>

unbundle bit_operations_syntax

section \<open>The functions\<close>

fun u32toa_len :: "u32 \<Rightarrow> nat \<Rightarrow> u8 list" where
  "u32toa_len n 0 = []"
| "u32toa_len n (Suc i) = u32toa_len (n div 10) i @ [ucast (n mod 10) + 48]"

text \<open>The bytes of the digits from ten on are letters.\<close>

definition digit_byte :: "u32 \<Rightarrow> u8" where
  "digit_byte digit = (if digit < 10 then ucast (digit + 48) else ucast (digit + (97 - 10)))"

fun u64toa_bin_len :: "u64 \<Rightarrow> nat \<Rightarrow> nat \<Rightarrow> u8 list" where
  "u64toa_bin_len n radix_bits 0 = []"
| "u64toa_bin_len n radix_bits (Suc i) =
     (let msk = push_bit radix_bits 1 - 1 :: u32;
          digit = ucast n AND msk
      in u64toa_bin_len (drop_bit radix_bits n) radix_bits i @ [digit_byte digit])"

text \<open>The loop of \<open>u32toa\<close> fills \<open>buf1\<close> from its end, \<open>q\<close> holds the bytes from there on.\<close>

function u32toa_loop :: "u32 \<Rightarrow> u8 list \<Rightarrow> u8 list" where
  "u32toa_loop n q =
     (let q = (ucast (n mod 10) + 48) # q;
          n = n div 10
      in if n \<noteq> 0 then u32toa_loop n q else q)"
  by pat_completeness auto
termination
proof (relation "measure (\<lambda>(n, q). unat n)")
  fix n m :: u32 and q q' :: "u8 list"
  assume m: "m = n div 10" and "m \<noteq> 0"
  then have "unat m \<noteq> 0"
    by (simp only: unsigned_eq_0_iff simp_thms)
  moreover have "unat m = unat n div 10"
    by (simp add: m unat_div_distrib)
  ultimately show "((m, q'), n, q) \<in> measure (\<lambda>(n, q). unat n)"
    by simp
qed simp

declare u32toa_loop.simps [simp del]

definition u32toa :: "u32 \<Rightarrow> u8 list" where
  "u32toa n = u32toa_loop n []"

definition i32toa :: "u32 \<Rightarrow> u8 list" where
  "i32toa n = (if 0 \<le> sint n then u32toa n else 45 # u32toa (- n))"

definition u64toa :: "u64 \<Rightarrow> u8 list" where
  "u64toa n =
     (if n < 0x100000000 then u32toa (ucast n)
      else
       let n1 = n div 1000000000;
           n = n mod 1000000000
       in (if n1 \<ge> 0x100000000
           then
            (let n2 = (ucast (n1 div 1000000000) :: u32);
                 n1 = n1 mod 1000000000
             in (if n2 \<ge> 10 then [ucast (n2 div 10) + 48, ucast (n2 mod 10) + 48] else [ucast n2 + 48])
                @ u32toa_len (ucast n1) 9)
           else u32toa (ucast n1)) @ u32toa_len (ucast n) 9)"

definition i64toa :: "u64 \<Rightarrow> u8 list" where
  "i64toa n = (if 0 \<le> sint n then u64toa n else 45 # u64toa (- n))"

text \<open>The loop of \<open>u64toa_radix\<close>; with a radix of one it does not end.\<close>

partial_function (option) u64toa_radix_loop :: "u64 \<Rightarrow> u32 \<Rightarrow> u8 list \<Rightarrow> u8 list option" where
  "u64toa_radix_loop n radix q =
     (let q = digit_byte (ucast (n mod ucast radix)) # q;
          n = n div ucast radix
      in if n \<noteq> 0 then u64toa_radix_loop n radix q else Some q)"

definition u64toa_radix :: "u64 \<Rightarrow> u32 \<Rightarrow> u8 list option" where
  "u64toa_radix n radix =
     (if radix = 10 then Some (u64toa n)
      else if radix AND (radix - 1) = 0
      then
       (let radix_bits = 31 - clz32 radix;
            l = (if n = 0 then 1 else (64 - clz64 n + radix_bits - 1) div radix_bits)
        in Some (u64toa_bin_len n radix_bits l))
      else u64toa_radix_loop n radix [])"

definition i64toa_radix :: "u64 \<Rightarrow> u32 \<Rightarrow> u8 list option" where
  "i64toa_radix n radix =
     (if 0 \<le> sint n then u64toa_radix n radix else map_option ((#) 45) (u64toa_radix (- n) radix))"

section \<open>Positional notation\<close>

text \<open>The digits of a number in base \<open>b\<close>, the most significant first, without leading zeros.\<close>

function numeral_digits :: "nat \<Rightarrow> nat \<Rightarrow> nat list" where
  "numeral_digits b n = (if b < 2 \<or> n < b then [n] else numeral_digits b (n div b) @ [n mod b])"
  by pat_completeness auto
termination
  by (relation "measure snd") auto

declare numeral_digits.simps [simp del]

definition digit_char :: "nat \<Rightarrow> u8" where
  "digit_char d = (if d < 10 then of_nat (d + 48) else of_nat (d + 87))"

definition show_nat :: "nat \<Rightarrow> nat \<Rightarrow> u8 list" where
  "show_nat b n = map digit_char (numeral_digits b n)"

definition show_int :: "nat \<Rightarrow> int \<Rightarrow> u8 list" where
  "show_int b z = (if z < 0 then [45] else []) @ show_nat b (nat \<bar>z\<bar>)"

text \<open>The \<open>k\<close> lowest digits, with leading zeros.\<close>

fun low_digits :: "nat \<Rightarrow> nat \<Rightarrow> nat \<Rightarrow> nat list" where
  "low_digits b n 0 = []"
| "low_digits b n (Suc k) = low_digits b (n div b) k @ [n mod b]"

lemma numeral_digits_step:
  assumes "2 \<le> b"
  shows "numeral_digits b n = (if n div b = 0 then [] else numeral_digits b (n div b)) @ [n mod b]"
  using assms by (subst numeral_digits.simps) (auto simp: div_eq_0_iff)

lemma numeral_digits_low:
  assumes "2 \<le> b" and "n div b ^ k \<noteq> 0"
  shows "numeral_digits b n = numeral_digits b (n div b ^ k) @ low_digits b n k"
  using assms(2)
proof (induction k arbitrary: n)
  case (Suc k)
  have "n div b \<noteq> 0"
    using Suc.prems by (metis div_0 div_mult2_eq power_Suc)
  then have "numeral_digits b n = numeral_digits b (n div b) @ [n mod b]"
    using numeral_digits_step [OF assms(1), of n] by simp
  moreover have "n div b div b ^ k \<noteq> 0"
    using Suc.prems by (simp add: div_mult2_eq)
  ultimately show ?case
    using Suc.IH [of "n div b"] by (simp add: div_mult2_eq)
qed simp

lemma low_digits_mod:
  assumes "k \<le> m"
  shows "low_digits b (n mod b ^ m) k = low_digits b n k"
  using assms
proof (induction k arbitrary: n m)
  case (Suc k)
  then obtain m' where m: "m = Suc m'" "k \<le> m'"
    by (cases m) auto
  have "n mod b ^ m div b = n div b mod b ^ m'"
    by (cases "b = 0") (simp_all add: m mod_mult2_eq)
  moreover have "n mod b ^ m mod b = n mod b"
    by (simp add: m mod_mult2_eq)
  ultimately show ?case
    using Suc.IH [OF m(2)] by simp
qed simp

lemma low_digits_all:
  assumes "2 \<le> b" and "0 < k" and "n < b ^ k" and "b ^ (k - 1) \<le> n \<or> k = 1"
  shows "low_digits b n k = numeral_digits b n"
  using assms(2-)
proof (induction k arbitrary: n)
  case (Suc k)
  show ?case
  proof (cases k)
    case 0
    then show ?thesis
      using Suc.prems assms(1) by (simp add: numeral_digits.simps)
  next
    case (Suc k')
    then have k: "0 < k" "b ^ k \<le> n" "n < b * b ^ k"
      using Suc.prems by auto
    have "b \<le> n"
      using k(2) self_le_power [of b k] k(1) assms(1) by simp
    then have "n div b \<noteq> 0"
      using assms(1) by (simp add: div_eq_0_iff)
    moreover have "n div b < b ^ k"
      using k(3) assms(1) by (simp add: less_mult_imp_div_less mult.commute)
    moreover have "b ^ (k - 1) \<le> n div b"
      using k assms(1) Suc by (simp add: less_eq_div_iff_mult_less_eq mult.commute)
    ultimately show ?thesis
      using Suc.IH [of "n div b"] k(1) numeral_digits_step [OF assms(1), of n] by simp
  qed
qed simp

section \<open>The printing functions write the positional notation\<close>

lemma mod_less_bound: "0 < b \<Longrightarrow> b \<le> k \<Longrightarrow> n mod b < (k :: nat)"
  by (meson mod_less_divisor order_less_le_trans)

lemma show_nat_single: "n < b \<Longrightarrow> show_nat b n = [digit_char n]"
  by (simp add: show_nat_def numeral_digits.simps)

lemma show_nat_step: "2 \<le> b \<Longrightarrow> show_nat b n = (if n div b = 0 then [] else show_nat b (n div b)) @ [digit_char (n mod b)]"
  by (simp add: show_nat_def numeral_digits_step)

lemma show_nat_low:
  assumes "2 \<le> b" and "n div b ^ k \<noteq> 0"
  shows "show_nat b n = show_nat b (n div b ^ k) @ map digit_char (low_digits b n k)"
  using numeral_digits_low [OF assms] by (simp add: show_nat_def)

lemma decimal_byte:
  assumes "unat (x :: 'a :: len word) < 10" and "8 \<le> LENGTH('a)"
  shows "(ucast x :: u8) + 48 = digit_char (unat x)"
proof -
  have "(ucast x :: u8) = of_nat (unat x)"
    by (simp add: word_unat_eq_iff unat_ucast unat_of_nat)
  then show ?thesis
    using assms by (simp add: digit_char_def)
qed

lemma digit_byte_char: "unat d < 36 \<Longrightarrow> digit_byte d = digit_char (unat d)"
proof -
  assume d: "unat d < 36"
  have "d < 10 \<longleftrightarrow> unat d < 10"
    by (simp add: word_less_nat_alt)
  moreover have "(ucast (d + k) :: u8) = of_nat (unat d + unat k)" for k
    by (simp add: word_unat_eq_iff unat_ucast unat_add unat_of_nat mod_mod_cancel mod_add_eq)
  ultimately show ?thesis
    using d by (simp add: digit_byte_def digit_char_def)
qed

lemma u32toa_len_low: "u32toa_len n k = map digit_char (low_digits 10 (unat n) k)"
proof (induction k arbitrary: n)
  case (Suc k)
  have "unat (n mod 10) = unat n mod 10" "unat (n div 10) = unat n div 10"
    by (simp_all add: unat_mod_distrib unat_div_distrib)
  then show ?case
    using Suc decimal_byte [of "n mod 10"] by simp
qed simp

lemma u64toa_bin_len_low:
  assumes "r \<le> 5"
  shows "u64toa_bin_len n r k = map digit_char (low_digits (2 ^ r) (unat n) k)"
proof (induction k arbitrary: n)
  case (Suc k)
  have "(push_bit r 1 - 1 :: u32) = mask r"
    by (simp add: mask_eq_decr_exp push_bit_eq_mult)
  then have "(ucast n :: u32) AND (push_bit r 1 - 1) = take_bit r (ucast n)"
    by (simp only: take_bit_eq_mask)
  then have d: "unat ((ucast n :: u32) AND (push_bit r 1 - 1)) = unat n mod 2 ^ r"
    using assms by (simp only: unat_take_bit unat_ucast mod_exp_eq) (simp add: min_def)
  have "(2 :: nat) ^ r \<le> 2 ^ 5"
    by (rule power_increasing [OF assms]) simp
  then have "unat n mod 2 ^ r < 36"
    by (intro mod_less_bound) simp_all
  then show ?case
    using Suc [of "drop_bit r n"] digit_byte_char d by (simp add: Let_def unat_drop_bit)
qed simp

lemma u32toa_loop_show: "u32toa_loop n q = show_nat 10 (unat n) @ q"
proof (induction n q rule: u32toa_loop.induct)
  case (1 n q)
  have u: "unat (n mod 10) = unat n mod 10" "unat (n div 10) = unat n div 10"
    by (simp_all add: unat_mod_distrib unat_div_distrib)
  have "n div 10 \<noteq> 0 \<longleftrightarrow> unat n div 10 \<noteq> 0"
    unfolding u(2) [symmetric] by (simp only: unsigned_eq_0_iff)
  then show ?case
    using 1 u decimal_byte [of "n mod 10"] by (subst u32toa_loop.simps) (simp add: Let_def show_nat_step [of 10 "unat n"])
qed

lemma u32toa_show: "u32toa n = show_nat 10 (unat n)"
  by (simp add: u32toa_def u32toa_loop_show)
lemma decimal_split:
  assumes "n div 1000000000 \<noteq> 0"
  shows "show_nat 10 n = show_nat 10 (n div 1000000000) @ map digit_char (low_digits 10 n 9)"
  using show_nat_low [of 10 n 9] assms by simp

lemma u64toa_show: "u64toa n = show_nat 10 (unat n)"
proof (cases "n < 0x100000000")
  case True
  then have "unat (ucast n :: u32) = unat n"
    by (simp add: unat_ucast word_less_nat_alt)
  then show ?thesis
    using True by (simp add: u64toa_def u32toa_show)
next
  case False
  define n1 where "n1 = n div 1000000000"
  have nB: "unat n < 2 ^ 64" "2 ^ 32 \<le> unat n"
    using False unat_less [of n] by (simp_all add: word_less_nat_alt not_less)
  have u1: "unat n1 = unat n div 1000000000"
    by (simp add: n1_def unat_div_distrib)
  have low: "u32toa_len (ucast (m mod 1000000000)) 9 = map digit_char (low_digits 10 (unat m) 9)" for m :: u64
  proof -
    have "unat (ucast (m mod 1000000000) :: u32) = unat m mod 10 ^ 9"
      by (simp add: unat_ucast unat_mod_distrib)
    then show ?thesis
      by (simp only: u32toa_len_low low_digits_mod [OF order_refl])
  qed
  have "show_nat 10 (unat n) = show_nat 10 (unat n1) @ map digit_char (low_digits 10 (unat n) 9)"
    unfolding u1 using nB by (intro decimal_split) (simp add: div_eq_0_iff)
  moreover have "(if n1 \<ge> 0x100000000
           then
            (let n2 = (ucast (n1 div 1000000000) :: u32);
                 n1 = n1 mod 1000000000
             in (if n2 \<ge> 10 then [ucast (n2 div 10) + 48, ucast (n2 mod 10) + 48] else [ucast n2 + 48])
                @ u32toa_len (ucast n1) 9)
           else u32toa (ucast n1)) = show_nat 10 (unat n1)"
  proof (cases "n1 \<ge> 0x100000000")
    case True
    define n2 where "n2 = (ucast (n1 div 1000000000) :: u32)"
    have n2: "unat n2 = unat n1 div 1000000000"
      using nB u1 by (simp add: n2_def unat_ucast unat_div_distrib div_le_mono less_mult_imp_div_less)
    have small: "unat n2 < 100"
      using nB(1) unfolding n2 u1 by (simp add: div_mult2_eq [symmetric] less_mult_imp_div_less)
    have "2 ^ 32 \<le> unat n1"
      using True by (simp add: word_le_nat_alt)
    then have "show_nat 10 (unat n1) = show_nat 10 (unat n2) @ map digit_char (low_digits 10 (unat n1) 9)"
      unfolding n2 by (intro decimal_split) (simp add: div_eq_0_iff)
    moreover have "(if n2 \<ge> 10 then [ucast (n2 div 10) + 48, ucast (n2 mod 10) + 48] else [ucast n2 + 48]) = show_nat 10 (unat n2)"
    proof (cases "n2 \<ge> 10")
      case True
      then have t: "10 \<le> unat n2"
        by (simp add: word_le_nat_alt)
      have u: "unat (n2 div 10) = unat n2 div 10" "unat (n2 mod 10) = unat n2 mod 10"
        by (simp_all add: unat_div_distrib unat_mod_distrib)
      have "unat n2 div 10 < 10" "unat n2 div 10 \<noteq> 0"
        using small t by (auto simp: less_mult_imp_div_less div_eq_0_iff)
      then have "show_nat 10 (unat n2) = [digit_char (unat n2 div 10), digit_char (unat n2 mod 10)]"
        using show_nat_step [of 10 "unat n2"] by (simp add: show_nat_single)
      then show ?thesis
        using True decimal_byte [of "n2 div 10"] decimal_byte [of "n2 mod 10"] u \<open>unat n2 div 10 < 10\<close> by simp
    next
      case False
      then have "unat n2 < 10"
        by (simp add: word_le_nat_alt)
      then show ?thesis
        using False decimal_byte [of n2] by (simp add: show_nat_single)
    qed
    ultimately show ?thesis
      using True low [of n1] by (simp add: Let_def n2_def [symmetric])
  next
    case F: False
    then have "unat (ucast n1 :: u32) = unat n1"
      by (simp add: unat_ucast word_le_nat_alt)
    then show ?thesis
      using F by (simp add: u32toa_show)
  qed
  ultimately show ?thesis
    using False low [of n] by (simp add: u64toa_def n1_def [symmetric] Let_def)
qed

lemma u64toa_radix_loop_show:
  assumes r: "2 \<le> unat radix" "unat radix \<le> 36"
  shows "u64toa_radix_loop n radix q = Some (show_nat (unat radix) (unat n) @ q)"
proof (induction "unat n" arbitrary: n q rule: less_induct)
  case less
  have rr: "unat (ucast radix :: u64) = unat radix"
    by (simp add: unat_ucast_up)
  have u: "unat (n div ucast radix) = unat n div unat radix" "unat (n mod ucast radix) = unat n mod unat radix"
    by (simp_all add: unat_div_distrib unat_mod_distrib rr)
  have m: "unat n mod unat radix < 36"
    using r by (intro mod_less_bound) simp_all
  then have "unat n mod unat radix < 2 ^ 32"
    by simp
  then have "unat (ucast (n mod ucast radix) :: u32) = unat n mod unat radix"
    using u(2) by (simp add: unat_ucast)
  then have d: "digit_byte (ucast (n mod ucast radix)) = digit_char (unat n mod unat radix)"
    using digit_byte_char [of "ucast (n mod ucast radix)"] m r by simp
  have z: "n div ucast radix = 0 \<longleftrightarrow> unat n div unat radix = 0"
    unfolding u(1) [symmetric] by (simp only: unsigned_eq_0_iff)
  show ?case
  proof (cases "unat n div unat radix = 0")
    case True
    then show ?thesis
      using z d show_nat_step [OF r(1), of "unat n"] by (simp add: u64toa_radix_loop.simps [of n])
  next
    case False
    then have "unat n div unat radix < unat n"
      using r by (intro div_less_dividend) (auto simp: div_eq_0_iff)
    then show ?thesis
      using less [of "n div ucast radix"] False z d u(1) show_nat_step [OF r(1), of "unat n"]
      by (simp add: u64toa_radix_loop.simps [of n])
  qed
qed
text \<open>A radix that passes the test for a power of two.\<close>

lemma binary_radix:
  assumes "2 \<le> unat radix" and "unat radix \<le> 36" and "radix AND (radix - 1) = (0 :: u32)"
  obtains r where "1 \<le> r" and "r \<le> 5" and "unat radix = 2 ^ r" and "31 - clz32 radix = r"
proof -
  let ?k = "floor_log2 (unat radix)"
  have pos: "0 < unat radix"
    using assms(1) by simp
  then have p: "unat radix = 2 ^ ?k"
    using assms(3) by (intro power_of_2_test) auto
  have "?k < 6"
    using assms(2) by (intro floor_log2_less pos) simp
  moreover have "1 \<le> ?k"
    using assms(1) by (simp add: floor_log2.simps)
  ultimately show ?thesis
    using that [of ?k] p by (simp add: clz32_def)
qed

text \<open>The number of digits for a power of two, computed from the number of bits, is exact.\<close>

lemma low_digits_binary:
  assumes k: "1 \<le> k" and pos: "0 < n"
  shows "low_digits (2 ^ k) n ((floor_log2 n + k) div k) = numeral_digits (2 ^ k) n"
proof -
  let ?f = "floor_log2 n"
  define l where "l = (?f + k) div k"
  note fb = floor_log2_bounds [OF pos]
  have lk: "?f < k * l" "k * (l - 1) \<le> ?f" "0 < l"
    using k dividend_less_times_div [of k ?f] by (simp_all add: l_def div_add_self2)
  have "n < 2 ^ Suc ?f"
    by (rule fb)
  also have "\<dots> \<le> 2 ^ (k * l)"
    using lk(1) by (intro power_increasing) simp_all
  finally have "n < (2 ^ k) ^ l"
    by (simp only: power_mult)
  moreover have "(2 :: nat) ^ (k * (l - 1)) \<le> 2 ^ ?f"
    using lk(2) by (intro power_increasing) simp_all
  then have "(2 ^ k) ^ (l - 1) \<le> n"
    using fb(1) by (simp only: power_mult)
  moreover have "(2 :: nat) ^ 1 \<le> 2 ^ k"
    using k by (intro power_increasing) simp_all
  ultimately show ?thesis
    unfolding l_def [symmetric] using lk(3) by (intro low_digits_all) simp_all
qed

lemma u64toa_radix_show:
  assumes r: "2 \<le> unat radix" "unat radix \<le> 36"
  shows "u64toa_radix n radix = Some (show_nat (unat radix) (unat n))"
proof -
  consider "radix = 10" | "radix \<noteq> 10" "radix AND (radix - 1) = 0" | "radix \<noteq> 10" "radix AND (radix - 1) \<noteq> 0"
    by blast
  then show ?thesis
  proof cases
    case 1
    then show ?thesis
      by (simp add: u64toa_radix_def u64toa_show)
  next
    case 2
    obtain k where k: "1 \<le> k" "k \<le> 5" "unat radix = 2 ^ k" "31 - clz32 radix = k"
      using binary_radix [OF r 2(2)] .
    define l where "l = (if n = 0 then 1 else (64 - clz64 n + k - 1) div k)"
    have "low_digits (2 ^ k) (unat n) l = numeral_digits (2 ^ k) (unat n)"
    proof (cases "n = 0")
      case True
      then show ?thesis
        using k(1) by (simp add: l_def numeral_digits.simps)
    next
      case False
      then have pos: "0 < unat n"
        by (simp add: unat_gt_0)
      then have "floor_log2 (unat n) < 64"
        using unat_less [of n] by (intro floor_log2_less) simp_all
      then have "l = (floor_log2 (unat n) + k) div k"
        using False by (simp add: l_def clz64_def)
      then show ?thesis
        using low_digits_binary [OF k(1) pos] by simp
    qed
    then show ?thesis
      using 2 k u64toa_bin_len_low [OF k(2)]
      by (simp add: u64toa_radix_def l_def [symmetric] show_nat_def)
  next
    case 3
    then show ?thesis
      using u64toa_radix_loop_show [OF r, of n "[]"] by (simp add: u64toa_radix_def)
  qed
qed

lemma minus_magnitude:
  assumes "sint (n :: u64) < 0"
  shows "unat (- n) = nat \<bar>sint n\<bar>"
proof -
  have "bit n 63"
    using assms by (simp only: sint_limb_neg)
  then have s: "sint n = int (unat n) - int limb_base"
    by (simp only: sint_limb if_True)
  have "n \<noteq> 0" "0 < unat n"
    using assms by (auto simp: unat_gt_0)
  then have "unat (- n) = limb_base - unat n"
    using unat_minus [of 0 n] by (simp add: word_le_nat_alt limb_base_def)
  moreover have "unat n < limb_base"
    by simp
  ultimately show ?thesis
    using s by linarith
qed

lemma i64toa_radix_show:
  assumes "2 \<le> unat radix" and "unat radix \<le> 36"
  shows "i64toa_radix n radix = Some (show_int (unat radix) (sint n))"
proof (cases "0 \<le> sint n")
  case True
  then have "\<not> bit n 63"
    using sint_limb_neg [of n] by simp
  then have "unat n = nat (sint n)"
    by (simp add: sint_limb)
  then show ?thesis
    using True u64toa_radix_show [OF assms, of n] by (simp add: i64toa_radix_def show_int_def)
next
  case False
  then show ?thesis
    using u64toa_radix_show [OF assms, of "- n"] minus_magnitude [of n] by (simp add: i64toa_radix_def show_int_def)
qed

end
