(* ===== verification/BigInt_Text.thy ===== *)
theory BigInt_Text
  imports BigInt_Pow Itoa
begin

text \<open>
  BigInts and text (quickjs.c, \<open>js_bigint_from_string\<close> and \<open>js_bigint_to_string1\<close>). A C string is the list of
  its bytes up to the terminator, and reading at its end gives zero. A text that a function writes
  from the end of its buffer is the list of the bytes written so far. The loops of the printer have no
  bound in the source and are partial functions.
\<close>

unbundle bit_operations_syntax

section \<open>Reading\<close>

definition deref :: "u8 list \<Rightarrow> u8" where
  "deref p = (case p of [] \<Rightarrow> 0 | c # _ \<Rightarrow> c)"

definition to_digit :: "u8 \<Rightarrow> nat" where
  "to_digit c =
     (if 48 \<le> c \<and> c \<le> 57 then unat c - 48
      else if 65 \<le> c \<and> c \<le> 90 then unat c - 65 + 10
      else if 97 \<le> c \<and> c \<le> 122 then unat c - 97 + 10
      else 36)"

definition JS_LIMB_DIGITS :: nat where
  "JS_LIMB_DIGITS = 19"

definition js_pow_dec :: "js_limb_t list" where
  "js_pow_dec = [1, 10, 100, 1000, 10000, 100000, 1000000, 10000000, 100000000, 1000000000, 10000000000,
     100000000000, 1000000000000, 10000000000000, 100000000000000, 1000000000000000, 10000000000000000,
     100000000000000000, 1000000000000000000, 10000000000000000000]"

text \<open>The inner loop: at most \<open>k\<close> more digits, \<open>i\<close> read so far with the value \<open>v\<close>.\<close>

fun read_digits :: "nat \<Rightarrow> nat \<Rightarrow> u8 list \<Rightarrow> nat \<Rightarrow> js_limb_t \<Rightarrow> nat \<times> js_limb_t \<times> u8 list" where
  "read_digits 0 radix p i v = (i, v, p)"
| "read_digits (Suc k) radix p i v =
     (let c = to_digit (deref p)
      in if c \<ge> radix then (i, v, p) else read_digits k radix (tl p) (Suc i) (v * 10 + of_nat c))"

text \<open>
  The outer loop; \<open>t\<close> is the buffer, of which \<open>l\<close> limbs are in use. A limb written behind the
  buffer is \<open>None\<close>; the other accesses are to limbs in use.
\<close>

partial_function (option) read_decimal :: "js_limb_t list \<Rightarrow> nat \<Rightarrow> u8 list \<Rightarrow> (js_limb_t list \<times> nat) option" where
  "read_decimal t l p =
     (let (i, v, p) = read_digits JS_LIMB_DIGITS 10 p 0 0
      in if i = 0 then Some (t, l)
         else if l = 1 \<and> t ! 0 = 0 then read_decimal (t [0 := v]) l p
         else
          (let (part, h) = mp_mul1 (take l t) (js_pow_dec ! i) v;
               t = store_at 0 part t
           in if h \<noteq> 0 then (if l < length t then read_decimal (t [l := h]) (l + 1) p else None)
              else read_decimal t l p))"

text \<open>The loop for a radix that is a power of two, over the digits from the last one on.\<close>

fun read_binary :: "nat \<Rightarrow> nat \<Rightarrow> nat \<Rightarrow> u8 list \<Rightarrow> js_limb_t list \<Rightarrow> js_ctx \<Rightarrow> js_limb_t list \<times> js_ctx" where
  "read_binary radix log2_radix i [] t c = (t, c)"
| "read_binary radix log2_radix i (x # xs) t c =
     (let d = to_digit x;
          c = js_assert (d < radix) c;
          bit_pos = i * log2_radix;
          shift = bit_pos mod 64;
          pos = bit_pos div 64;
          t = t [pos := t ! pos OR push_bit shift (of_nat d)];
          t = (if shift + log2_radix > 64 then t [pos + 1 := t ! (pos + 1) OR drop_bit (64 - shift) (of_nat d)] else t)
      in read_binary radix log2_radix (Suc i) xs t c)"

definition js_bigint_from_string :: "u8 list \<Rightarrow> nat \<Rightarrow> js_ctx \<Rightarrow> (JSBigInt option \<times> js_ctx) option" where
  "js_bigint_from_string str radix c =
     (let is_neg = (deref str = 45);
          p = (if is_neg then tl str else str);
          p = dropWhile (\<lambda>c. c = 48) p;
          n_digits = length p
      in if n_digits > JS_BIGINT_MAX_SIZE * 64
         then Some (None, JS_ThrowRangeError ''BigInt is too large to allocate'' c)
         else
          let log2_radix = 32 - clz32 (of_nat (radix - 1));
              n_bits = (if radix = 10 then (n_digits * 27 + 7) div 8 else n_digits * log2_radix);
              n_limbs = max 1 (n_bits div 64 + 1)
          in case js_bigint_new n_limbs c of
            (None, c) \<Rightarrow> Some (None, c)
          | (Some r, c) \<Rightarrow>
              do {
                (t, c) \<leftarrow>
                  (if radix = 10
                   then
                    do {
                      (t, l) \<leftarrow> read_decimal ((tab r) [0 := 0]) 1 p;
                      Some (if drop_bit 63 (t ! (l - 1)) \<noteq> 0 then take (l + 1) (t [l := 0]) else take l t, c)
                    }
                   else Some (read_binary radix log2_radix 0 (rev p) (replicate n_limbs 0) c));
                let (r, c) = js_bigint_normalize (r \<lparr>tab := t\<rparr>) c;
                Some (if is_neg then (let (r1, c) = js_bigint_neg r c in (r1, js_free c)) else (Some r, c))
              })"

section \<open>Printing\<close>

definition digits :: "u8 list" where
  "digits = map of_char ''0123456789abcdefghijklmnopqrstuvwxyz''"

partial_function (option) js_u64toa :: "u8 list \<Rightarrow> u64 \<Rightarrow> u32 \<Rightarrow> u8 list option" where
  "js_u64toa q n base =
     (let digit = n mod ucast base;
          n = n div ucast base;
          q = (if base = 10 then 48 + ucast digit else digits ! unat digit) # q
      in if n \<noteq> 0 then js_u64toa q n base else Some q)"

fun limb_to_a :: "u8 list \<Rightarrow> js_limb_t \<Rightarrow> u32 \<Rightarrow> nat \<Rightarrow> u8 list" where
  "limb_to_a q n radix 0 = q"
| "limb_to_a q n radix (Suc i) =
     (let digit = n mod ucast radix;
          n = n div ucast radix
      in limb_to_a ((if radix = 10 then ucast digit + 48 else digits ! unat digit) # q) n radix i)"

definition digits_per_limb_table :: "nat list" where
  "digits_per_limb_table =
     [64,40,32,27,24,22,21,20,19,18,17,17,16,16,16,15,15,15,14,14,14,14,13,13,13,13,13,13,13,12,12,12,12,12,12]"

definition radix_base_table :: "js_limb_t list" where
  "radix_base_table =
     [0x0000000000000000, 0xa8b8b452291fe821, 0x0000000000000000, 0x6765c793fa10079d,
      0x41c21cb8e1000000, 0x3642798750226111, 0x8000000000000000, 0xa8b8b452291fe821,
      0x8ac7230489e80000, 0x4d28cb56c33fa539, 0x1eca170c00000000, 0x780c7372621bd74d,
      0x1e39a5057d810000, 0x5b27ac993df97701, 0x0000000000000000, 0x27b95e997e21d9f1,
      0x5da0e1e53c5c8000, 0xd2ae3299c1c4aedb, 0x16bcc41e90000000, 0x2d04b7fdd9c0ef49,
      0x5658597bcaa24000, 0xa0e2073737609371, 0x0c29e98000000000, 0x14adf4b7320334b9,
      0x226ed36478bfa000, 0x383d9170b85ff80b, 0x5a3c23e39c000000, 0x8e65137388122bcd,
      0xdd41bb36d259e000, 0x0aee5720ee830681, 0x1000000000000000, 0x172588ad4f5f0981,
      0x211e44f7d02c1000, 0x2ee56725f06e5c71, 0x41c21cb8e1000000]"

text \<open>The loop for a radix that is not a power of two, on the limbs in use.\<close>

partial_function (option) write_limbs :: "js_limb_t list \<Rightarrow> u8 list \<Rightarrow> u32 \<Rightarrow> u8 list option" where
  "write_limbs t q radix =
     (let radix_base = radix_base_table ! unat (radix - 2);
          t = take (strip_zeros t (length t)) t
      in if length t = 1 \<and> t ! 0 < radix_base
         then (let v = t ! 0 in if v \<noteq> 0 then js_u64toa q v radix else Some q)
         else
          (let (t, v) = mp_div1 t radix_base 0
           in write_limbs t (limb_to_a q v radix (digits_per_limb_table ! unat (radix - 2))) radix))"

text \<open>The loop for a power of two, \<open>n\<close> digits from the lowest one on; \<open>c\<close> has 32 bits.\<close>

fun write_binary :: "js_limb_t list \<Rightarrow> u32 \<Rightarrow> nat \<Rightarrow> nat \<Rightarrow> nat \<Rightarrow> u8 list \<Rightarrow> u8 list" where
  "write_binary t radix log2_radix i 0 q = q"
| "write_binary t radix log2_radix i (Suc n) q =
     (let bit_pos = i * log2_radix;
          pos = bit_pos div 64;
          shift = bit_pos mod 64;
          c = (ucast (drop_bit shift (t ! pos)) :: u32);
          c = (if shift + log2_radix > 64 \<and> pos + 1 < length t
               then c OR ucast (push_bit (64 - shift) (t ! (pos + 1))) else c);
          c = c AND (radix - 1)
      in write_binary t radix log2_radix (Suc i) n (digits ! unat c # q))"

definition js_new_string8_len :: "u8 list \<Rightarrow> js_ctx \<Rightarrow> u8 list option \<times> js_ctx" where
  "js_new_string8_len buf c = (case js_malloc c of (True, c) \<Rightarrow> (Some buf, c) | (False, c) \<Rightarrow> (None, c))"

text \<open>A BigInt value: a short one holds its integer, a long one a pointer to the object.\<close>

datatype bigint_value = Short u64 | Long JSBigInt

text \<open>
  The part for long values; \<open>None\<close> inside is \<open>JS_EXCEPTION\<close>. The output buffer is the list of the bytes written; \<open>BigInt_Print\<close>
  shows that they are not more than the source allocates.
\<close>

definition js_bigint_to_string2 :: "JSBigInt \<Rightarrow> u32 \<Rightarrow> js_ctx \<Rightarrow> (u8 list option \<times> js_ctx) option" where
  "js_bigint_to_string2 r radix c =
     (let is_binary_radix = (radix AND (radix - 1) = 0);
          is_neg = (js_bigint_sign r \<noteq> 0);
          has_tmp = (is_neg \<or> \<not> is_binary_radix)
      in case (if is_neg then js_bigint_neg r c
               else if \<not> is_binary_radix then js_bigint_new_with (tab r) c
               else (Some r, c)) of
        (None, c) \<Rightarrow> Some (None, c)
      | (Some r, c) \<Rightarrow>
         (let log2_radix = 31 - clz32 radix;
              n_bits = len r * 64 - js_limb_safe_clz (last (tab r));
              n_digits = (n_bits + log2_radix - 1) div log2_radix
          in case js_malloc c of
            (False, c) \<Rightarrow> Some (None, if has_tmp then js_free c else c)
          | (True, c) \<Rightarrow>
             do {
               q \<leftarrow> (if \<not> is_binary_radix then write_limbs (tab r) [] radix
                     else Some (write_binary (tab r) radix log2_radix 0 n_digits []));
               let q = (if is_neg then 45 # q else q);
               let c = (if has_tmp then js_free c else c);
               let (res, c) = js_new_string8_len q c;
               Some (res, js_free c)
             }))"

definition js_bigint_to_string1 :: "bigint_value \<Rightarrow> u32 \<Rightarrow> js_ctx \<Rightarrow> (u8 list option \<times> js_ctx) option" where
  "js_bigint_to_string1 val radix c =
     (case val of
        Short v \<Rightarrow> do { buf \<leftarrow> i64toa_radix v radix; Some (js_new_string8_len buf c) }
      | Long r \<Rightarrow>
         if len r = 1 \<and> hd (tab r) = 0 then Some (js_new_string8_len [48] c)
         else js_bigint_to_string2 r radix c)"

end
