(* ===== verification/BigInt_Print.thy ===== *)
theory BigInt_Print
  imports BigInt_Text
begin

text \<open>
  The printer writes the positional notation of the integer, in every radix from 2 to 36, and stays
  inside its buffer.
\<close>

unbundle bit_operations_syntax

section \<open>Digits\<close>

lemma digits_nth: "d < 36 \<Longrightarrow> digits ! d = digit_char d"
proof -
  have "list_all (\<lambda>d. digits ! d = digit_char d) [0..<36]"
    by code_simp
  then show "d < 36 \<Longrightarrow> digits ! d = digit_char d"
    by (simp add: list_all_iff)
qed

text \<open>The tables, checked entry by entry: a power of two, or the power of the radix that fits a limb.\<close>

lemma radix_tables:
  assumes "2 \<le> b" and "b \<le> 36"
  shows "(of_nat b :: u32) AND (of_nat b - 1) = 0
    \<or> unat (radix_base_table ! (b - 2)) = b ^ (digits_per_limb_table ! (b - 2)) \<and> 0 < digits_per_limb_table ! (b - 2)"
proof -
  have "list_all (\<lambda>b. (of_nat b :: u32) AND (of_nat b - 1) = 0
    \<or> unat (radix_base_table ! (b - 2)) = b ^ (digits_per_limb_table ! (b - 2)) \<and> 0 < digits_per_limb_table ! (b - 2)) [2..<37]"
    by (simp add: upt_rec radix_base_table_def digits_per_limb_table_def)
  moreover have "b \<in> set [2..<37]"
    unfolding set_upt using assms by simp
  ultimately show ?thesis
    unfolding list_all_iff by (rule bspec)
qed

lemma char_of_digit:
  assumes "2 \<le> unat radix" and "unat radix \<le> 36"
  shows "(if radix = 10 then (48 :: u8) + ucast (n mod ucast radix) else digits ! unat (n mod ucast radix :: u64))
    = digit_char (unat n mod unat (radix :: u32))"
    and "(if radix = 10 then (ucast (n mod ucast radix) :: u8) + 48 else digits ! unat (n mod ucast radix :: u64))
    = digit_char (unat n mod unat radix)"
proof -
  have u: "unat (n mod ucast radix) = unat n mod unat radix"
    by (simp add: unat_mod_distrib unat_ucast_up)
  have lt: "unat n mod unat radix < 36"
    using assms by (intro mod_less_bound) simp_all
  have ten: "(ucast (n mod ucast radix) :: u8) + 48 = digit_char (unat n mod unat radix)" if "radix = 10"
  proof -
    have "unat (n mod ucast radix) < 10"
      using u that by simp
    then show ?thesis
      using decimal_byte [of "n mod ucast radix"] u by simp
  qed
  then show "(if radix = 10 then (48 :: u8) + ucast (n mod ucast radix) else digits ! unat (n mod ucast radix :: u64))
    = digit_char (unat n mod unat radix)"
    "(if radix = 10 then (ucast (n mod ucast radix) :: u8) + 48 else digits ! unat (n mod ucast radix :: u64))
    = digit_char (unat n mod unat radix)"
    using digits_nth [OF lt] u by (simp_all only: add.commute [of 48] if_True if_False split: if_split) simp_all
qed

lemma js_u64toa_show:
  assumes r: "2 \<le> unat radix" "unat radix \<le> 36"
  shows "js_u64toa q n radix = Some (show_nat (unat radix) (unat n) @ q)"
proof (induction "unat n" arbitrary: n q rule: less_induct)
  case less
  have u: "unat (n div ucast radix) = unat n div unat radix"
    by (simp add: unat_div_distrib unat_ucast_up)
  have z: "n div ucast radix = 0 \<longleftrightarrow> unat n div unat radix = 0"
    unfolding u [symmetric] by (simp only: unsigned_eq_0_iff)
  show ?case
  proof (cases "unat n div unat radix = 0")
    case True
    then show ?thesis
      using z char_of_digit(1) [OF r] show_nat_step [OF r(1), of "unat n"] by (simp add: js_u64toa.simps [of q n])
  next
    case False
    then have "unat n div unat radix < unat n"
      using r by (intro div_less_dividend) (auto simp: div_eq_0_iff)
    then show ?thesis
      using less [of "n div ucast radix"] False z char_of_digit(1) [OF r] u show_nat_step [OF r(1), of "unat n"]
      by (simp add: js_u64toa.simps [of q n])
  qed
qed

lemma limb_to_a_show:
  assumes r: "2 \<le> unat radix" "unat radix \<le> 36"
  shows "limb_to_a q n radix k = map digit_char (low_digits (unat radix) (unat n) k) @ q"
proof (induction k arbitrary: n q)
  case (Suc k)
  have "unat (n div ucast radix) = unat n div unat radix"
    by (simp add: unat_div_distrib unat_ucast_up)
  then show ?case
    using Suc char_of_digit(2) [OF r] by (simp add: Let_def)
qed simp

section \<open>A radix that is not a power of two\<close>

lemma other_radix:
  assumes r: "2 \<le> unat radix" "unat radix \<le> 36" and nb: "radix AND (radix - 1) \<noteq> (0 :: u32)"
  shows "unat (radix_base_table ! unat (radix - 2)) = unat radix ^ (digits_per_limb_table ! unat (radix - 2))"
    and "2 \<le> unat (radix_base_table ! unat (radix - 2))"
proof -
  have u: "unat (radix - 2) = unat radix - 2"
    using r by (simp add: unat_minus word_le_nat_alt)
  have t: "unat (radix_base_table ! (unat radix - 2)) = unat radix ^ (digits_per_limb_table ! (unat radix - 2))"
    "0 < digits_per_limb_table ! (unat radix - 2)"
    using radix_tables [OF r] nb by simp_all
  show "unat (radix_base_table ! unat (radix - 2)) = unat radix ^ (digits_per_limb_table ! unat (radix - 2))"
    unfolding u by (rule t)
  show "2 \<le> unat (radix_base_table ! unat (radix - 2))"
    unfolding u t(1) using r(1) t(2) by (metis One_nat_def Suc_leI le_trans self_le_power one_le_numeral)
qed

lemma write_limbs_show:
  assumes r: "2 \<le> unat radix" "unat radix \<le> 36" and nb: "radix AND (radix - 1) \<noteq> 0" and "t \<noteq> []"
  shows "write_limbs t q radix = Some ((if nval t = 0 then [] else show_nat (unat radix) (nval t)) @ q)"
  using assms(4)
proof (induction "nval t" arbitrary: t q rule: less_induct)
  case less
  define base k where "base = radix_base_table ! unat (radix - 2)" and "k = digits_per_limb_table ! unat (radix - 2)"
  note b = other_radix [OF r nb, folded base_def k_def]
  define s where "s = take (strip_zeros t (length t)) t"
  have sc: "0 < strip_zeros t (length t)" "strip_zeros t (length t) \<le> length t" "nval s = nval t"
    "1 < strip_zeros t (length t) \<longrightarrow> t ! (strip_zeros t (length t) - 1) \<noteq> 0"
    using strip_zeros_correct [of "length t" t] less.prems by (simp_all add: s_def)
  have ls: "length s = strip_zeros t (length t)"
    using sc(2) by (simp add: s_def)
  have "s \<noteq> []"
    using sc(1) ls by auto
  moreover from this have "last s = t ! (length s - 1)"
    using ls sc by (simp add: last_conv_nth) (simp add: s_def)
  ultimately have s: "s \<noteq> []" "nval s = nval t" "length s = 1 \<or> last s \<noteq> 0"
    using sc ls by auto
  show ?case
  proof (cases "length s = 1 \<and> s ! 0 < base")
    case True
    then obtain v where v: "s = [v]"
      by (cases s) auto
    then have "nval t = unat v"
      using s(2) by simp
    then show ?thesis
      using True v js_u64toa_show [OF r, of q v]
      by (simp add: unsigned_eq_0_iff write_limbs.simps [of t] base_def [symmetric] s_def [symmetric] Let_def)
  next
    case False
    have big: "unat base \<le> nval t"
    proof (cases "length s = 1")
      case True
      then obtain v where "s = [v]"
        by (cases s) auto
      then show ?thesis
        using False True s(2) by (simp add: word_less_nat_alt)
    next
      case long: False
      have "1 < length s"
        using long s(1) by (cases s) auto
      then have "limb_base ^ 1 \<le> limb_base ^ (length s - 1)"
        by (intro power_increasing) (auto simp: Suc_le_eq)
      also have "\<dots> \<le> limb_base ^ (length s - 1) * unat (last s)"
        using long s(3) by (simp add: unat_gt_0 Suc_le_eq)
      also have "\<dots> \<le> nval s"
        unfolding nval_butlast_last [OF s(1)] by simp
      finally have "limb_base \<le> nval t"
        by (simp add: s(2))
      with less_imp_le [OF unat_limb_less [of base]] show ?thesis
        by (rule order_trans)
    qed
    obtain t' v where d: "mp_div1 s base 0 = (t', v)"
      by (cases "mp_div1 s base 0")
    have q: "length t' = length s" "nval t' = nval t div unat base" "unat v = nval t mod unat base"
    proof -
      have "unat (0 :: js_limb_t) < unat base"
        using b(2) by simp
      then have c: "length t' = length s" "nval t' * unat base + unat v = nval t" "unat v < unat base"
        using mp_div1_correct [OF _ d] s(2) by simp_all
      then have e: "nval t = unat v + nval t' * unat base" and "unat v mod unat base = unat v" "unat v div unat base = 0"
        by simp_all
      then show "length t' = length s" "nval t' = nval t div unat base" "unat v = nval t mod unat base"
        unfolding e using c(1) b(2) by simp_all
    qed
    have "nval t' < nval t"
      unfolding q(2) using b(2) big by (intro div_less_dividend) simp_all
    moreover have "t' \<noteq> []"
      using q(1) s(1) by auto
    ultimately have IH: "write_limbs t' (limb_to_a q v radix k) radix =
        Some ((if nval t' = 0 then [] else show_nat (unat radix) (nval t')) @ limb_to_a q v radix k)"
      by (rule less(1))
    have nz: "nval t div unat base \<noteq> 0"
      using big b(2) by (simp add: div_eq_0_iff)
    have "write_limbs t q radix = write_limbs t' (limb_to_a q v radix k) radix"
      using False d by (auto simp: write_limbs.simps [of t] base_def [symmetric] k_def [symmetric] s_def [symmetric] Let_def)
    moreover have "low_digits (unat radix) (unat v) k = low_digits (unat radix) (nval t) k"
      unfolding q(3) b(1) by (rule low_digits_mod) simp
    moreover have "nval t \<noteq> 0"
      using big b(2) by simp
    ultimately show ?thesis
      using IH nz show_nat_low [OF r(1), of "nval t" k] by (simp add: q(2) b(1) limb_to_a_show [OF r])
  qed
qed
section \<open>A radix that is a power of two\<close>

lemma nval_drop: "nval t div limb_base ^ k = nval (drop k t)"
proof (cases "k \<le> length t")
  case True
  have "nval t = nval (take k t) + limb_base ^ k * nval (drop k t)"
    using nval_append [of "take k t" "drop k t"] True by simp
  moreover have "nval (take k t) < limb_base ^ k"
    using nval_less [of "take k t"] True by simp
  ultimately show ?thesis
    by simp
next
  case False
  then have "limb_base ^ length t \<le> limb_base ^ k"
    by (intro power_increasing) (simp_all add: Suc_le_eq)
  then have "nval t < limb_base ^ k"
    using nval_less [of t] by linarith
  then show ?thesis
    using False by simp
qed

lemma div_mod_low:
  fixes a m s k w :: nat
  assumes "s \<le> w" and "s + k \<le> w"
  shows "(a + 2 ^ w * m) div 2 ^ s mod 2 ^ k = a div 2 ^ s mod 2 ^ k"
proof -
  have "(2 :: nat) ^ w = 2 ^ s * (2 ^ k * 2 ^ (w - s - k))"
    using assms by (simp flip: power_add)
  then have "(a + 2 ^ w * m) div 2 ^ s = a div 2 ^ s + 2 ^ k * (2 ^ (w - s - k) * m)"
    by (simp add: mult.assoc)
  then show ?thesis
    by simp
qed

text \<open>The digit at bit position \<open>i\<close> of an array, taken from one limb or from two.\<close>

lemma binary_digit:
  fixes t :: "js_limb_t list" and radix :: u32
  defines "digit \<equiv> \<lambda>i r. (let pos = i div 64; shift = i mod 64;
     c = (ucast (drop_bit shift (t ! pos)) :: u32);
     c = (if shift + r > 64 \<and> pos + 1 < length t then c OR ucast (push_bit (64 - shift) (t ! (pos + 1))) else c)
     in c AND (radix - 1))"
  assumes r: "1 \<le> r" "r \<le> 5" "unat radix = 2 ^ r" and i: "i div 64 < length t"
  shows "unat (digit i r) = nval t div 2 ^ i mod 2 ^ r"
proof -
  define pos s where "pos = i div 64" and "s = i mod 64"
  have ii: "i = 64 * pos + s" "s < 64"
    by (simp_all add: pos_def s_def)
  have rm: "radix - 1 = mask r"
  proof -
    have "radix = of_nat (unat radix)"
      by simp
    then have "radix = 2 ^ r"
      unfolding r(3) by simp
    then show ?thesis
      by (simp only: mask_eq_decr_exp)
  qed
  have tb: "unat (c AND mask r) = unat c mod 2 ^ r" for c :: u32
    by (simp only: take_bit_eq_mask [symmetric] unat_take_bit)
  obtain ys where d: "drop pos t = t ! pos # ys"
    using i by (metis Cons_nth_drop_Suc pos_def)
  let ?x = "t ! pos"
  have "nval t div 2 ^ i = nval t div limb_base ^ pos div 2 ^ s"
    by (simp add: ii(1) power_add power_mult limb_base_def div_mult2_eq)
  also have "nval t div limb_base ^ pos = unat ?x + 2 ^ 64 * nval ys"
    unfolding nval_drop d by (simp add: limb_base_def)
  finally have n: "nval t div 2 ^ i mod 2 ^ r = (unat ?x + 2 ^ 64 * nval ys) div 2 ^ s mod 2 ^ r"
    by simp
  have low: "unat (ucast (drop_bit s ?x) :: u32) mod 2 ^ r = unat ?x div 2 ^ s mod 2 ^ r"
    using r(2) by (simp only: unat_ucast unat_drop_bit mod_exp_eq) (simp add: min_def)
  show ?thesis
  proof (cases "s + r > 64 \<and> pos + 1 < length t")
    case False
    have "(unat ?x + 2 ^ 64 * nval ys) div 2 ^ s mod 2 ^ r = unat ?x div 2 ^ s mod 2 ^ r"
    proof (cases "s + r \<le> 64")
      case True
      then show ?thesis
        using ii(2) by (intro div_mod_low) simp_all
    next
      case F: False
      then have "length (drop pos t) \<le> 1"
        using False by simp
      then have "ys = []"
        unfolding d by simp
      then show ?thesis
        by simp
    qed
    then show ?thesis
      unfolding n digit_def Let_def pos_def [symmetric] s_def [symmetric] if_not_P [OF False] rm tb low by simp
  next
    case True
    define k where "k = 64 - s"
    define x1 y1 where "x1 = (ucast (drop_bit s ?x) :: u32)" and "y1 = (ucast (t ! (pos + 1)) :: u32)"
    have k: "k \<le> 4" "(2 :: nat) ^ 64 = 2 ^ s * 2 ^ k"
      using True r(2) ii(2) by (auto simp: k_def simp flip: power_add)
    have "ys = drop (pos + 1) t"
      using arg_cong [OF d, of tl] by (simp add: drop_Suc tl_drop)
    then have "ys = t ! (pos + 1) # drop (Suc (pos + 1)) t"
      using True Cons_nth_drop_Suc [of "pos + 1" t] by simp
    then obtain zs where ys: "ys = t ! (pos + 1) # zs"
      by blast
    have c: "x1 OR ucast (push_bit k (t ! (pos + 1))) = x1 + push_bit k y1"
    proof -
      have "unat ?x div 2 ^ s < 2 ^ k"
        using unat_less [of ?x] k(2) by (simp add: less_mult_imp_div_less mult.commute)
      moreover have "(2 :: nat) ^ k \<le> 2 ^ 4"
        using k(1) by (intro power_increasing) simp_all
      ultimately have "unat x1 < 2 ^ k"
        by (simp add: x1_def unat_ucast unat_drop_bit)
      moreover have "(ucast (push_bit k (t ! (pos + 1))) :: u32) = push_bit k y1"
        by (rule bit_word_eqI) (auto simp: y1_def bit_simps)
      ultimately show ?thesis
        by (simp only: or_disjoint)
    qed
    have "unat (x1 + push_bit k y1) mod 2 ^ r = (unat x1 mod 2 ^ r + unat y1 * 2 ^ k mod 2 ^ r) mod 2 ^ r"
      using r(2) by (simp only: unat_add unat_push_bit mod_add_left_eq mod_add_right_eq mod_exp_eq mod_add_eq) (simp add: min_def mod_add_left_eq)
    also have "unat x1 mod 2 ^ r = unat ?x div 2 ^ s mod 2 ^ r"
      unfolding x1_def by (rule low)
    also have "unat y1 * 2 ^ k mod 2 ^ r = unat (t ! (pos + 1)) * 2 ^ k mod 2 ^ r"
    proof -
      have "unat y1 mod 2 ^ r = unat (t ! (pos + 1)) mod 2 ^ r"
        using r(2) unfolding y1_def by (simp only: unat_ucast mod_exp_eq) (simp add: min_def)
      then show ?thesis
        by (rule mod_mult_cong) simp
    qed
    also have "(unat ?x div 2 ^ s mod 2 ^ r + unat (t ! (pos + 1)) * 2 ^ k mod 2 ^ r) mod 2 ^ r
        = (unat ?x div 2 ^ s + 2 ^ k * nval ys) mod 2 ^ r"
    proof -
      have "(2 :: nat) ^ 64 = 2 ^ r * 2 ^ (64 - r)"
        using r(2) by (simp flip: power_add)
      then have e: "unat ?x div 2 ^ s + 2 ^ k * nval ys =
          unat ?x div 2 ^ s + unat (t ! (pos + 1)) * 2 ^ k + 2 ^ r * (2 ^ (64 - r) * 2 ^ k * nval zs)"
        unfolding ys nval.simps limb_base_def by (simp only: distrib_left mult_ac add_ac)
      show ?thesis
        unfolding e by (simp only: mod_mult_self2 mod_add_eq)
    qed
    also have "(unat ?x div 2 ^ s + 2 ^ k * nval ys) = (unat ?x + 2 ^ 64 * nval ys) div 2 ^ s"
      unfolding k(2) by (simp add: mult.assoc)
    finally show ?thesis
      unfolding n digit_def Let_def pos_def [symmetric] s_def [symmetric] if_P [OF True] rm tb x1_def [symmetric] k_def [symmetric] c .
  qed
qed
lemma write_binary_show:
  assumes r: "1 \<le> r" "r \<le> 5" "unat radix = 2 ^ r"
    and "(i + n) * r < 64 * length t + r"
  shows "write_binary t radix r i n q = map digit_char (low_digits (2 ^ r) (nval t div 2 ^ (i * r)) n) @ q"
  using assms(4)
proof (induction n arbitrary: i q)
  case (Suc n)
  have "i * r + r \<le> (i + Suc n) * r"
    by (simp add: algebra_simps)
  then have "i * r < 64 * length t"
    using Suc.prems by linarith
  then have "i * r div 64 < length t"
    by (simp add: less_mult_imp_div_less mult.commute)
  note digit = binary_digit [OF r this]
  have "(2 :: nat) ^ r \<le> 2 ^ 5"
    using r(2) by (intro power_increasing) simp_all
  then have lt: "nval t div 2 ^ (i * r) mod 2 ^ r < 36"
    by (intro mod_less_bound) simp_all
  have step: "nval t div 2 ^ (i * r) div 2 ^ r = nval t div 2 ^ (Suc i * r)"
    by (simp add: div_mult2_eq [symmetric] power_add [symmetric] add.commute)
  show ?case
    using Suc.IH [of "Suc i"] Suc.prems digit digits_nth [OF lt] step by (simp add: Let_def)
qed simp

section \<open>The size of the buffer\<close>

lemma floor_log2_eqI:
  assumes "2 ^ m \<le> n" and "n < 2 ^ Suc m"
  shows "floor_log2 n = m"
proof -
  have pos: "0 < n"
    using assms(1) by (metis gr0I le_zero_eq power_not_zero zero_neq_numeral)
  have "floor_log2 n < Suc m"
    using pos assms(2) by (rule floor_log2_less)
  moreover have "2 ^ m < (2 :: nat) ^ Suc (floor_log2 n)"
    using assms(1) floor_log2_bounds(2) [OF pos] by (rule le_less_trans)
  then have "m < Suc (floor_log2 n)"
    by (rule power_less_imp_less_exp [rotated]) simp
  ultimately show ?thesis
    by simp
qed

lemma nval_floor_log2:
  assumes "xs \<noteq> []" and "last xs \<noteq> 0"
  shows "floor_log2 (nval xs) = 64 * (length xs - 1) + floor_log2 (unat (last xs))"
proof (rule floor_log2_eqI)
  let ?l = "unat (last xs)" and ?P = "limb_base ^ (length xs - 1)"
  have pos: "0 < ?l"
    using assms(2) by (simp add: unat_gt_0)
  note f = floor_log2_bounds [OF pos]
  have P: "?P = 2 ^ (64 * (length xs - 1))"
    by (simp add: limb_base_def power_mult)
  have n: "nval xs = nval (butlast xs) + ?P * ?l"
    by (rule nval_butlast_last [OF assms(1)])
  have low: "nval (butlast xs) < ?P"
    using nval_less [of "butlast xs"] by simp
  have "?P * 2 ^ floor_log2 ?l \<le> ?P * ?l"
    using f(1) by simp
  then show "2 ^ (64 * (length xs - 1) + floor_log2 ?l) \<le> nval xs"
    unfolding power_add P [symmetric] n by linarith
  have "?P * Suc ?l \<le> ?P * 2 ^ Suc (floor_log2 ?l)"
    using f(2) by (intro mult_le_mono2) simp
  then have "nval xs < ?P * 2 ^ Suc (floor_log2 ?l)"
    unfolding n using low by simp
  then show "nval xs < 2 ^ Suc (64 * (length xs - 1) + floor_log2 ?l)"
    unfolding power_Suc power_add P [symmetric] by (simp only: mult_ac)
qed

text \<open>The number of bits the printer computes, for a positive number.\<close>

lemma n_bits_exact:
  assumes "normal t" and "0 < nval t" and "\<not> bit (last t) 63"
  shows "length t * 64 - js_limb_safe_clz (last t) = Suc (floor_log2 (nval t))"
proof (cases "last t = 0")
  case False
  have ne: "t \<noteq> []"
    using assms(1) by (simp add: normal_def)
  have "0 < unat (last t)"
    using False by (simp add: unat_gt_0)
  then have "floor_log2 (unat (last t)) < 64"
    using unat_less [of "last t"] by (intro floor_log2_less) simp_all
  then show ?thesis
    using nval_floor_log2 [OF ne False] False ne
    by (cases t) (simp_all add: js_limb_safe_clz_def js_limb_clz_def clz64_def)
next
  case True
  obtain ys y where t: "t = ys @ [y]"
    using assms(1) by (cases t rule: rev_cases) (auto simp: normal_def)
  have y: "y = 0"
    using True t by simp
  have ys: "ys \<noteq> []"
    using assms(2) t y by auto
  have "significant 0 (last ys)"
    using assms(1) normal_snoc [OF ys] t y by simp
  then have b: "bit (last ys) 63"
    using significant_sign_limb [of 0 ys] by (cases "bit (last ys) 63") (simp_all add: sign_limb_def)
  then have "floor_log2 (unat (last ys)) = 63"
    using unat_less [of "last ys"] by (intro floor_log2_eqI) (simp_all add: limb_msb)
  moreover have "last ys \<noteq> 0"
    using b by auto
  ultimately show ?thesis
    using nval_floor_log2 [OF ys] ys by (cases ys) (simp_all add: t y js_limb_safe_clz_def nval_append)
qed

text \<open>The digits fit the buffer, whose size is computed from the number of bits.\<close>

lemma numeral_digits_fit:
  assumes "2 \<le> b" and "0 < n"
  shows "length (numeral_digits b n) \<le> (floor_log2 n + floor_log2 b) div floor_log2 b"
proof -
  let ?l = "floor_log2 b"
  have l: "1 \<le> ?l"
    using assms(1) by (simp add: floor_log2.simps)
  have "0 < length (numeral_digits b n) \<and> b ^ (length (numeral_digits b n) - 1) \<le> n"
    using assms(2)
  proof (induction b n rule: numeral_digits.induct)
    case (1 b n)
    show ?case
    proof (cases "b < 2 \<or> n < b")
      case True
      then show ?thesis
        using 1 by (simp add: numeral_digits.simps)
    next
      case False
      then have d: "numeral_digits b n = numeral_digits b (n div b) @ [n mod b]" and nb: "2 \<le> b" "b \<le> n"
        by (simp_all add: numeral_digits.simps [of b n])
      have IH: "0 < length (numeral_digits b (n div b))" "b ^ (length (numeral_digits b (n div b)) - 1) \<le> n div b"
        using 1 False nb by (simp_all add: div_greater_zero_iff)
      from IH(2) have "b ^ (length (numeral_digits b (n div b)) - 1) * b \<le> n div b * b"
        by (rule mult_le_mono1)
      also have "\<dots> \<le> n"
        by simp
      finally show ?thesis
        using IH(1) by (simp add: d power_eq_if mult.commute)
    qed
  qed
  then have b: "b ^ (length (numeral_digits b n) - 1) \<le> n" and lp: "0 < length (numeral_digits b n)"
    by simp_all
  have "(2 ^ ?l) ^ (length (numeral_digits b n) - 1) \<le> b ^ (length (numeral_digits b n) - 1)"
    using floor_log2_bounds(1) [of b] assms(1) by (intro power_mono) simp_all
  also note b
  also have "n < 2 ^ Suc (floor_log2 n)"
    using floor_log2_bounds(2) [OF assms(2)] .
  finally have "(2 :: nat) ^ (?l * (length (numeral_digits b n) - 1)) < 2 ^ Suc (floor_log2 n)"
    by (simp only: power_mult)
  then have "?l * (length (numeral_digits b n) - 1) < Suc (floor_log2 n)"
    by (rule power_less_imp_less_exp [rotated]) simp
  then have "(length (numeral_digits b n) - 1) * ?l \<le> floor_log2 n"
    by (simp add: mult.commute)
  then have "length (numeral_digits b n) - 1 \<le> floor_log2 n div ?l"
    using l by (simp add: less_eq_div_iff_mult_less_eq)
  then show ?thesis
    using l lp by (simp add: div_add_self2)
qed
section \<open>The printer\<close>

text \<open>
  The contract of a function that gives a new string: the string and one more block, or none because
  an allocation was refused or a temporary BigInt was over the limit.
\<close>

fun gives :: "nat \<Rightarrow> u8 list \<Rightarrow> js_ctx \<Rightarrow> u8 list option \<times> js_ctx \<Rightarrow> bool" where
  "gives n s c (Some x, c') \<longleftrightarrow> x = s \<and> holds 1 c c'"
| "gives n s c (None, c') \<longleftrightarrow> fails n 0 c c'"

lemma js_new_string8_len_gives:
  assumes "holds 0 c c1"
  shows "gives n s c (js_new_string8_len s c1)"
proof (cases "js_malloc c1")
  case (Pair b c2)
  then show ?thesis
    using js_malloc_contract [OF Pair] holds_trans [OF assms, of 1 c2] fails_after [OF assms, of n 0 c2]
    by (cases b) (auto simp: js_new_string8_len_def)
qed

text \<open>The rest of the printer, once the magnitude is in a BigInt of its own or in place.\<close>

lemma string_after_buffer:
  assumes "holds k c c1" and "k = of_bool has_tmp" and "q = (Some s)"
  shows "\<exists>res. (case js_malloc c1 of
      (False, c) \<Rightarrow> Some (None, if has_tmp then js_free c else c)
    | (True, c) \<Rightarrow> do {
        q \<leftarrow> q;
        let q = (if is_neg then 45 # q else q);
        let c = (if has_tmp then js_free c else c);
        let (res, c) = js_new_string8_len q c;
        Some (res, js_free c) }) = Some res \<and> gives n ((if is_neg then [45] else []) @ s) c res"
proof (cases "js_malloc c1")
  case (Pair b c2)
  note m = js_malloc_contract [OF Pair]
  show ?thesis
  proof (cases b)
    case False
    then have "fails n (of_bool has_tmp) c c2"
      using m(2) fails_after [OF assms(1), of n 0 c2] assms(2) by simp
    then show ?thesis
      using Pair False by (cases has_tmp) simp_all
  next
    case True
    define c3 where "c3 = (if has_tmp then js_free c2 else c2)"
    let ?s = "(if is_neg then [45] else []) @ s"
    have h: "holds 1 c c3"
      using m(1) [OF True] holds_trans [OF assms(1), of 1 c2] assms(2) by (cases has_tmp) (simp_all add: c3_def)
    obtain res c4 where str: "js_new_string8_len ?s c3 = (res, c4)"
      by (cases "js_new_string8_len ?s c3")
    have "gives n ?s c3 (res, c4)"
      unfolding str [symmetric] by (rule js_new_string8_len_gives) simp
    then have "gives n ?s c (res, js_free c4)"
      using holds_trans [OF h, of 1 c4] fails_after [OF h, of n 0 c4] by (cases res) auto
    moreover have "(if is_neg then 45 # s else s) = ?s"
      by simp
    ultimately show ?thesis
      using Pair True str assms(3) by (simp add: c3_def [symmetric] Let_def del: append.simps)
  qed
qed

lemma js_bigint_to_string2_gives:
  assumes r: "2 \<le> unat radix" "unat radix \<le> 36" and a: "normal (tab a)" "ival (tab a) \<noteq> 0"
  shows "\<exists>res. js_bigint_to_string2 a radix c = Some res \<and> gives (len a) (show_int (unat radix) (ival (tab a))) c res"
proof -
  define is_neg where "is_neg = (js_bigint_sign a \<noteq> 0)"
  define binary where "binary = (radix AND (radix - 1) = 0)"
  have neg: "is_neg \<longleftrightarrow> ival (tab a) < 0"
    using js_bigint_sign_neg [of a] a(1) by (simp add: is_neg_def normal_def)
  define start where "start = (if is_neg then js_bigint_neg a c
               else if \<not> binary then js_bigint_new_with (tab a) c
               else (Some a, c))"
  obtain x c1 where st: "start = (x, c1)"
    by (cases start)
  have ne: "tab a \<noteq> []"
    using a(1) by (simp add: normal_def)
  have start: "case x of None \<Rightarrow> fails (len a) 0 c c1
    | Some y \<Rightarrow> normal (tab y) \<and> ival (tab y) = \<bar>ival (tab a)\<bar> \<and> holds (of_bool (is_neg \<or> \<not> binary)) c c1"
    using js_bigint_neg_returns [OF ne, of c] js_bigint_new_with_returns [OF a(1) refl order_refl, of c] st neg a(1)
    unfolding start_def by (cases x) (auto simp: bigint_def split: if_splits)
  show ?thesis
  proof (cases x)
    case None
    then show ?thesis
      using start st by (simp add: js_bigint_to_string2_def Let_def is_neg_def [symmetric] binary_def [symmetric] start_def [symmetric])
  next
    case (Some y)
    then have y: "normal (tab y)" "ival (tab y) = \<bar>ival (tab a)\<bar>" "holds (of_bool (is_neg \<or> \<not> binary)) c c1"
      using start by simp_all
    have yn: "\<not> bit (last (tab y)) 63"
      using ival_sign_iff [of "tab y"] y(1,2) by (auto simp: normal_def)
    then have n: "nval (tab y) = nat \<bar>ival (tab a)\<bar>"
      using y(2) by (simp add: ival_def)
    then have pos: "0 < nval (tab y)"
      using a(2) by simp
    define log2_radix where "log2_radix = 31 - clz32 radix"
    define n_digits where "n_digits = (len y * 64 - js_limb_safe_clz (last (tab y)) + log2_radix - 1) div log2_radix"
    have nd: "n_digits = (floor_log2 (nval (tab y)) + log2_radix) div log2_radix"
      unfolding n_digits_def n_bits_exact [OF y(1) pos yn] by simp
    have q: "(if \<not> binary then write_limbs (tab y) [] radix
        else Some (write_binary (tab y) radix log2_radix 0 n_digits [])) = Some (show_nat (unat radix) (nval (tab y)))"
    proof (cases binary)
      case False
      then show ?thesis
        using write_limbs_show [OF r, of "tab y" "[]"] y(1) pos by (simp add: binary_def normal_def)
    next
      case True
      obtain k where k: "1 \<le> k" "k \<le> 5" "unat radix = 2 ^ k" "log2_radix = k"
        using binary_radix [OF r] True unfolding binary_def log2_radix_def by metis
      have "n_digits * k \<le> floor_log2 (nval (tab y)) + k"
        unfolding nd k(4) by simp
      moreover have "nval (tab y) < 2 ^ (64 * len y)"
        using nval_less [of "tab y"] by (simp add: limb_base_def power_mult)
      then have "floor_log2 (nval (tab y)) < 64 * len y"
        by (rule floor_log2_less [OF pos])
      ultimately have "(0 + n_digits) * k < 64 * len y + k"
        by simp
      from write_binary_show [OF k(1-3) this, of "[]"] show ?thesis
        using low_digits_binary [OF k(1) pos] True by (simp add: k(3,4) nd show_nat_def)
    qed
    have s: "show_int (unat radix) (ival (tab a)) = (if is_neg then [45] else []) @ show_nat (unat radix) (nval (tab y))"
      by (simp add: show_int_def neg n)
    show ?thesis
      unfolding s js_bigint_to_string2_def Let_def is_neg_def [symmetric] binary_def [symmetric] start_def [symmetric]
        log2_radix_def [symmetric] st Some option.case prod.case n_digits_def [symmetric]
      by (rule string_after_buffer [OF y(3) refl q, unfolded Let_def])
  qed
qed

lemma js_bigint_to_string1_gives:
  assumes r: "2 \<le> unat radix" "unat radix \<le> 36"
  shows "\<exists>res. js_bigint_to_string1 (Short v) radix c = Some res \<and> gives 0 (show_int (unat radix) (sint v)) c res"
    and "normal (tab a) \<Longrightarrow>
      \<exists>res. js_bigint_to_string1 (Long a) radix c = Some res \<and> gives (len a) (show_int (unat radix) (ival (tab a))) c res"
proof -
  show "\<exists>res. js_bigint_to_string1 (Short v) radix c = Some res \<and> gives 0 (show_int (unat radix) (sint v)) c res"
    using js_new_string8_len_gives [OF holds_refl] by (simp add: js_bigint_to_string1_def i64toa_radix_show [OF r])
next
  assume a: "normal (tab a)"
  show "\<exists>res. js_bigint_to_string1 (Long a) radix c = Some res \<and> gives (len a) (show_int (unat radix) (ival (tab a))) c res"
  proof (cases "ival (tab a) = 0")
    case True
    then have t: "tab a = [0]"
      using normal_zero [OF a] by simp
    have "show_int (unat radix) 0 = [48]"
      using r by (simp add: show_int_def show_nat_single digit_char_def)
    then show ?thesis
      using js_new_string8_len_gives [OF holds_refl, of 1 "[48]" c] by (simp add: js_bigint_to_string1_def t True [unfolded t])
  next
    case False
    then have "\<not> (len a = 1 \<and> hd (tab a) = 0)"
      using normal_zero [OF a] by (cases "tab a") auto
    then show ?thesis
      using js_bigint_to_string2_gives [OF r a False, of c] by (auto simp: js_bigint_to_string1_def)
  qed
qed

end
