(* ===== verification/BigInt_Read.thy ===== *)
theory BigInt_Read
  imports BigInt_Print
begin

text \<open>
  The reader computes the value of the digits, for the radices 2, 8, 10 and 16, and stays inside its
  buffer; so it reads back what the printer wrote.
\<close>

unbundle bit_operations_syntax

section \<open>The value of a text\<close>

fun digits_value :: "nat \<Rightarrow> u8 list \<Rightarrow> nat" where
  "digits_value b [] = 0"
| "digits_value b (c # cs) = to_digit c * b ^ length cs + digits_value b cs"

definition all_digits :: "nat \<Rightarrow> u8 list \<Rightarrow> bool" where
  "all_digits b cs \<longleftrightarrow> list_all (\<lambda>c. to_digit c < b) cs"

lemma all_digits_simps [simp]: "all_digits b []" "all_digits b (c # cs) \<longleftrightarrow> to_digit c < b \<and> all_digits b cs"
  "all_digits b (xs @ ys) \<longleftrightarrow> all_digits b xs \<and> all_digits b ys"
  by (simp_all add: all_digits_def)

lemma digits_value_append: "digits_value b (xs @ ys) = digits_value b xs * b ^ length ys + digits_value b ys"
  by (induction xs) (simp_all add: power_add algebra_simps)

lemma digits_value_less: "all_digits b cs \<Longrightarrow> digits_value b cs < b ^ length cs"
proof (induction cs)
  case (Cons c cs)
  have "Suc (to_digit c) * b ^ length cs \<le> b * b ^ length cs"
    using Cons.prems by (intro mult_le_mono1) simp
  then show ?case
    using Cons by simp
qed simp

lemma digits_value_zeros: "digits_value b (dropWhile (\<lambda>c. c = 48) cs) = digits_value b cs"
proof (induction cs)
  case (Cons c cs)
  have "to_digit 48 = 0"
    by (simp add: to_digit_def)
  then show ?case
    using Cons by simp
qed simp

lemma all_digits_dropWhile: "all_digits b cs \<Longrightarrow> all_digits b (dropWhile P cs)"
  by (induction cs) simp_all

lemma to_digit_zero: "to_digit 0 = 36"
  by (simp add: to_digit_def)

section \<open>Decimal digits\<close>

lemma read_digits_correct:
  assumes "all_digits 10 p" and "k + i \<le> 19" and "unat v < 10 ^ i"
  shows "\<exists>v'. read_digits k 10 p i v = (i + min k (length p), v', drop k p)
    \<and> unat v' = unat v * 10 ^ min k (length p) + digits_value 10 (take k p)"
  using assms
proof (induction k arbitrary: p i v)
  case (Suc k)
  show ?case
  proof (cases p)
    case Nil
    then show ?thesis
      by (simp add: deref_def to_digit_zero)
  next
    case (Cons c cs)
    have c: "to_digit c < 10" "all_digits 10 cs"
      using Suc.prems(1) Cons by simp_all
    have lt: "unat v * 10 + to_digit c < 10 ^ Suc i"
      using Suc.prems(3) c(1) by simp
    have "(10 :: nat) ^ Suc i \<le> 10 ^ 19"
      using Suc.prems(2) by (intro power_increasing) simp_all
    with lt have "unat v * 10 + to_digit c < 2 ^ 64"
      by simp
    then have u: "unat (v * 10 + of_nat (to_digit c)) = unat v * 10 + to_digit c"
      using c(1) by (simp add: unat_add unat_mult unat_of_nat)
    obtain v' where v': "read_digits k 10 cs (Suc i) (v * 10 + of_nat (to_digit c)) = (Suc i + min k (length cs), v', drop k cs)"
      "unat v' = (unat v * 10 + to_digit c) * 10 ^ min k (length cs) + digits_value 10 (take k cs)"
      using Suc.IH [of cs "Suc i" "v * 10 + of_nat (to_digit c)"] c(2) Suc.prems(2) lt u by auto
    have "length (take k cs) = min k (length cs)"
      by simp
    then show ?thesis
      using v' c(1) Cons by (simp add: deref_def Let_def algebra_simps)
  qed
qed simp

lemma js_pow_dec_nth: "i \<le> 19 \<Longrightarrow> unat (js_pow_dec ! i) = 10 ^ i"
proof -
  have "list_all (\<lambda>i. unat (js_pow_dec ! i) = 10 ^ i) [0..<20]"
    by (simp add: upt_rec js_pow_dec_def)
  then show "i \<le> 19 \<Longrightarrow> unat (js_pow_dec ! i) = 10 ^ i"
    by (simp only: list_all_iff set_upt) simp
qed

text \<open>
  The decimal loop: \<open>V\<close> is the value read so far. The buffer is large enough because the final value
  fits it.
\<close>

lemma read_decimal_correct:
  assumes "all_digits 10 p" and "0 < l" and "l \<le> length t"
    and "nval (take l t) * 10 ^ length p + digits_value 10 p < limb_base ^ length t"
  shows "\<exists>t' l'. read_decimal t l p = Some (t', l') \<and> length t' = length t \<and> 0 < l' \<and> l' \<le> length t
    \<and> nval (take l' t') = nval (take l t) * 10 ^ length p + digits_value 10 p"
  using assms
proof (induction "length p" arbitrary: p t l rule: less_induct)
  case less
  obtain i v p' where rd: "read_digits 19 10 p 0 0 = (i, v, p')" and i: "i = min 19 (length p)" "p' = drop 19 p"
    and v: "unat v = digits_value 10 (take 19 p)"
    using read_digits_correct [OF less.prems(1), of 19 0 0] by auto
  show ?case
  proof (cases "p = []")
    case True
    then show ?thesis
      using rd i less.prems by (simp add: read_decimal.simps [of t] JS_LIMB_DIGITS_def)
  next
    case False
    then have i0: "i \<noteq> 0" and lp: "length p' < length p" "length p = i + length p'" "length (take 19 p) = i"
      using i by (auto simp: min_def)
    have ad: "all_digits 10 p'"
      using less.prems(1) by (metis all_digits_simps(3) append_take_drop_id i(2))
    have val: "digits_value 10 p = digits_value 10 (take 19 p) * 10 ^ length p' + digits_value 10 p'"
      using digits_value_append [of 10 "take 19 p" p'] i(2) by simp
    define V where "V = nval (take l t) * 10 ^ i + unat v"
    have total: "nval (take l t) * 10 ^ length p + digits_value 10 p = V * 10 ^ length p' + digits_value 10 p'"
      by (simp add: V_def val v lp(2) power_add algebra_simps)
    have VB: "V < limb_base ^ length t"
    proof -
      have "V * 1 \<le> V * 10 ^ length p'"
        by (intro mult_le_mono2) simp
      then show ?thesis
        using less.prems(4) total by linarith
    qed
    have next_step: "\<exists>t' l'. read_decimal t1 l1 p' = Some (t', l') \<and> length t' = length t \<and> 0 < l' \<and> l' \<le> length t
        \<and> nval (take l' t') = nval (take l t) * 10 ^ length p + digits_value 10 p"
      if "0 < l1" "l1 \<le> length t" "length t1 = length t" "nval (take l1 t1) = V" for t1 l1
      using less.hyps [OF lp(1) ad that(1), of t1] that less.prems(4) by (simp add: total)
    show ?thesis
    proof (cases "l = 1 \<and> t ! 0 = 0")
      case True
      then have "take l t = [0]"
        using less.prems(3) by (cases t) auto
      then have "V = unat v"
        by (simp add: V_def)
      moreover have "take 1 (t [0 := v]) = [v]"
        using less.prems(2,3) by (cases t) auto
      ultimately show ?thesis
        using next_step [of 1 "t [0 := v]"] True rd i0 less.prems(3)
        by (simp add: read_decimal.simps [of t] JS_LIMB_DIGITS_def)
    next
      case F: False
      obtain part h where m: "mp_mul1 (take l t) (js_pow_dec ! i) v = (part, h)"
        by (cases "mp_mul1 (take l t) (js_pow_dec ! i) v")
      have mc: "length part = l" "nval part + limb_base ^ l * unat h = V"
        using mp_mul1_correct [OF m] less.prems(3) js_pow_dec_nth [of i] i(1) by (simp_all add: V_def)
      define t2 where "t2 = store_at 0 part t"
      have t2: "length t2 = length t" "take l t2 = part"
        using mc(1) less.prems(3) by (simp_all add: t2_def store_at_def)
      show ?thesis
      proof (cases "h = 0")
        case True
        then have "nval (take l t2) = V"
          using mc(2) t2(2) by simp
        from next_step [OF less.prems(2,3) t2(1) this] show ?thesis
          using F rd i0 m True by (auto simp: read_decimal.simps [of t] JS_LIMB_DIGITS_def t2_def [symmetric])
      next
        case False
        have "0 < unat h"
          using False by (simp add: unat_gt_0)
        then have "limb_base ^ l * 1 \<le> limb_base ^ l * unat h"
          by (intro mult_le_mono2) simp
        then have "limb_base ^ l < limb_base ^ length t"
          using VB mc(2) by linarith
        then have lt: "l < length t"
          using limb_base_gt_1 by (rule power_less_imp_less_exp [rotated])
        then have "take (l + 1) (t2 [l := h]) = part @ [h]"
          using t2 by (simp add: take_Suc_conv_app_nth)
        then have "nval (take (l + 1) (t2 [l := h])) = V"
          using mc by (simp add: nval_append)
        from next_step [OF _ _ _ this] show ?thesis
          using F rd i0 m False lt t2(1) by (auto simp: read_decimal.simps [of t] JS_LIMB_DIGITS_def t2_def [symmetric])
      qed
    qed
  qed
qed

section \<open>Digits of a power of two\<close>

lemma nval_at:
  assumes "pos < length t"
  shows "nval t = nval (take pos t) + limb_base ^ pos * (unat (t ! pos) + limb_base * nval (drop (Suc pos) t))"
  using nval_append [of "take pos t" "drop pos t"] assms Cons_nth_drop_Suc [OF assms]
  by (metis append_take_drop_id length_take min.absorb4 nval.simps(2))

lemma nval_update:
  assumes "pos < length t"
  shows "nval (t [pos := x]) = nval (take pos t) + limb_base ^ pos * (unat x + limb_base * nval (drop (Suc pos) t))"
  using nval_at [of pos "t [pos := x]"] assms by simp

lemma nval_zero: "nval t = 0 \<longleftrightarrow> set t \<subseteq> {0}"
  by (induction t) (auto simp: unsigned_eq_0_iff)

text \<open>Below a bit position all limbs are free; the digit goes into one limb or into two.\<close>

lemma free_above:
  assumes "nval t < 2 ^ (64 * pos + s)" and "s < 64" and "pos < length t"
  shows "unat (t ! pos) < 2 ^ s" and "nval (drop (Suc pos) t) = 0"
proof -
  let ?m = "unat (t ! pos) + limb_base * nval (drop (Suc pos) t)"
  have "limb_base ^ pos * ?m \<le> nval t"
    unfolding nval_at [OF assms(3)] by simp
  also have "\<dots> < limb_base ^ pos * 2 ^ s"
    using assms(1) by (simp add: power_add power_mult limb_base_def)
  finally have "limb_base ^ pos * ?m < limb_base ^ pos * 2 ^ s" .
  then have m: "?m < 2 ^ s"
    by simp
  then show "unat (t ! pos) < 2 ^ s"
    by simp
  have "(2 :: nat) ^ s < 2 ^ 64"
    using assms(2) by (intro power_strict_increasing) simp_all
  then have "limb_base * nval (drop (Suc pos) t) < limb_base * 1"
    using m by (simp add: limb_base_def)
  then show "nval (drop (Suc pos) t) = 0"
    by simp
qed

lemma or_digit:
  fixes t :: "js_limb_t list" and b k d :: nat
  defines "pos \<equiv> b div 64" and "s \<equiv> b mod 64"
  defines "t1 \<equiv> t [pos := t ! pos OR push_bit s (of_nat d)]"
  defines "t2 \<equiv> (if s + k > 64 then t1 [pos + 1 := t1 ! (pos + 1) OR drop_bit (64 - s) (of_nat d)] else t1)"
  assumes n: "nval t < 2 ^ b" and pos: "pos < length t" "s + k > 64 \<Longrightarrow> pos + 1 < length t"
    and d: "d < 2 ^ k" "k \<le> 5"
  shows "length t2 = length t" and "nval t2 = nval t + d * 2 ^ b"
proof -
  show "length t2 = length t"
    by (simp add: t2_def t1_def)
  have b: "b = 64 * pos + s" and s: "s < 64"
    by (simp_all add: pos_def s_def)
  note f = free_above [OF n [unfolded b] s pos(1)]
  define m where "m = 64 - s"
  have ms: "(2 :: nat) ^ 64 = 2 ^ m * 2 ^ s" "m + s = 64"
    using s by (simp_all add: m_def flip: power_add)
  have "(2 :: nat) ^ k \<le> 2 ^ 5"
    using d(2) by (intro power_increasing) simp_all
  then have d64: "d < 2 ^ 64"
    using d(1) by simp
  have low: "unat (t ! pos OR push_bit s (of_nat d)) = d mod 2 ^ m * 2 ^ s + unat (t ! pos)"
  proof -
    have lt: "d mod 2 ^ m * 2 ^ s + unat (t ! pos) < 2 ^ LENGTH(64)"
    proof -
      have "Suc (d mod 2 ^ m) * 2 ^ s \<le> 2 ^ m * 2 ^ s"
        by (intro mult_le_mono1) (simp add: Suc_le_eq)
      then show ?thesis
        using f(1) ms(1) by simp
    qed
    have u: "unat (of_nat (d mod 2 ^ m) :: js_limb_t) = d mod 2 ^ m"
    proof -
      have "d mod 2 ^ m < 2 ^ 64"
        using d64 by (meson le_less_trans mod_less_eq_dividend)
      then show ?thesis
        by (simp add: unat_of_nat)
    qed
    have "unat (push_bit s (of_nat d :: js_limb_t)) = d * 2 ^ s mod (2 ^ m * 2 ^ s)"
      using d64 by (simp add: unat_push_bit unat_of_nat ms(1) [symmetric])
    also have "\<dots> = d mod 2 ^ m * 2 ^ s"
      by (simp only: mult_mod_left)
    also have "\<dots> = unat (push_bit s (of_nat (d mod 2 ^ m) :: js_limb_t))"
      using lt by (simp only: unat_push_bit u mod_less add_lessD1)
    finally have "push_bit s (of_nat d) = (push_bit s (of_nat (d mod 2 ^ m)) :: js_limb_t)"
      by (simp only: word_unat_eq_iff)
    moreover note lt u
    ultimately show ?thesis
      using unat_or_disjoint [OF f(1), of "of_nat (d mod 2 ^ m)"] by simp
  qed
  have n1: "nval t1 = nval t + limb_base ^ pos * (d mod 2 ^ m * 2 ^ s)"
    unfolding t1_def nval_update [OF pos(1)] nval_at [OF pos(1)] low by (simp add: algebra_simps)
  have Bb: "(2 :: nat) ^ b = limb_base ^ pos * 2 ^ s"
    by (simp add: b power_add power_mult limb_base_def)
  show "nval t2 = nval t + d * 2 ^ b"
  proof (cases "s + k > 64")
    case False
    then have "(2 :: nat) ^ k \<le> 2 ^ m"
      using ms(2) by (intro power_increasing) simp_all
    then have "d mod 2 ^ m = d"
      by (intro mod_less less_le_trans [OF d(1)])
    then show ?thesis
      using False n1 by (simp add: t2_def Bb mult_ac)
  next
    case True
    then have pos1: "pos + 1 < length t" "pos + 1 < length t1"
      using pos(2) by (simp_all add: t1_def)
    have zero: "t1 ! (pos + 1) = 0"
    proof -
      have "t ! (pos + 1) \<in> set (drop (Suc pos) t)"
        using pos1(1) by (metis Suc_eq_plus1 Cons_nth_drop_Suc list.set_intros(1))
      then show ?thesis
        using f(2) by (auto simp: nval_zero t1_def)
    qed
    have u: "unat (0 OR drop_bit (64 - s) (of_nat d) :: js_limb_t) = d div 2 ^ m"
      using d64 by (simp add: unat_drop_bit unat_of_nat m_def)
    have t2: "t2 = t1 [pos + 1 := 0 OR drop_bit (64 - s) (of_nat d)]"
      using True zero by (simp add: t2_def)
    have B1: "limb_base ^ (pos + 1) = limb_base ^ pos * (2 ^ m * 2 ^ s)"
      by (simp add: limb_base_def ms(1) [symmetric])
    have "nval t2 = nval t1 + limb_base ^ (pos + 1) * (d div 2 ^ m)"
      unfolding t2 nval_update [OF pos1(2)] nval_at [OF pos1(2)] u zero by (simp add: algebra_simps)
    also have "\<dots> = nval t + limb_base ^ pos * (2 ^ s * (d mod 2 ^ m + 2 ^ m * (d div 2 ^ m)))"
      unfolding n1 B1 by (simp only: distrib_left mult_ac add_ac)
    also have "d mod 2 ^ m + 2 ^ m * (d div 2 ^ m) = d"
      by simp
    finally show ?thesis
      by (simp add: Bb mult_ac)
  qed
qed
lemma crossing:
  assumes "64 < b mod 64 + k"
  shows "b div 64 + 1 \<le> (b + k) div (64 :: nat)"
proof -
  have "q + 1 \<le> (q * 64 + r + k) div 64" if "64 < r + k" for q r :: nat
    using that by (simp add: less_eq_div_iff_mult_less_eq)
  from this [OF assms, of "b div 64"] show ?thesis
    by (simp only: div_mult_mod_eq)
qed

lemma read_binary_correct:
  assumes k: "1 \<le> k" "k \<le> 5" and "all_digits (2 ^ k) xs" and "nval t < 2 ^ (i * k)"
    and "(i + length xs) * k div 64 < length t"
  shows "\<exists>t'. read_binary (2 ^ k) k i xs t c = (t', c) \<and> length t' = length t
    \<and> nval t' = nval t + 2 ^ (i * k) * digits_value (2 ^ k) (rev xs)"
  using assms(3-)
proof (induction xs arbitrary: i t)
  case (Cons x xs)
  let ?b = "i * k"
  have d: "to_digit x < 2 ^ k"
    using Cons.prems(1) by simp
  have "?b + k \<le> (i + length (x # xs)) * k"
    by (simp add: algebra_simps)
  then have fit: "(?b + k) div 64 < length t"
    using Cons.prems(3) by (meson div_le_mono le_less_trans)
  then have pos: "?b div 64 < length t"
    by (meson div_le_mono le_add1 le_less_trans)
  have pos1: "?b div 64 + 1 < length t" if "?b mod 64 + k > 64"
    using crossing [OF that] fit by simp
  define t1 where "t1 = t [?b div 64 := t ! (?b div 64) OR push_bit (?b mod 64) (of_nat (to_digit x))]"
  define t2 where "t2 = (if ?b mod 64 + k > 64
    then t1 [?b div 64 + 1 := t1 ! (?b div 64 + 1) OR drop_bit (64 - ?b mod 64) (of_nat (to_digit x))] else t1)"
  have t2: "length t2 = length t" "nval t2 = nval t + to_digit x * 2 ^ ?b"
    using or_digit [OF Cons.prems(2) pos pos1 d k(2)] unfolding t2_def t1_def by blast+
  have "nval t2 < 2 ^ (Suc i * k)"
  proof -
    have "Suc (to_digit x) * 2 ^ ?b \<le> 2 ^ k * 2 ^ ?b"
      using d by (intro mult_le_mono1) simp
    then show ?thesis
      using Cons.prems(2) t2(2) by (simp add: power_add)
  qed
  then obtain t' where t': "read_binary (2 ^ k) k (Suc i) xs t2 c = (t', c)" "length t' = length t2"
    "nval t' = nval t2 + 2 ^ (Suc i * k) * digits_value (2 ^ k) (rev xs)"
    using Cons.IH [of t2 "Suc i"] Cons.prems(1,3) t2(1) by auto
  have "read_binary (2 ^ k) k i (x # xs) t c = (t', c)"
    unfolding read_binary.simps Let_def t1_def [symmetric] t2_def [symmetric] using t'(1) d by (simp add: js_assert_def)
  moreover have "nval t' = nval t + 2 ^ ?b * digits_value (2 ^ k) (rev (x # xs))"
    by (simp add: t'(3) t2(2) digits_value_append power_add algebra_simps)
  ultimately show ?case
    using t'(2) t2(1) by simp
qed simp

section \<open>The reader\<close>

lemma decimal_bits: "10 ^ n \<le> (2 :: nat) ^ ((n * 27 + 7) div 8)"
proof -
  have "(10 ^ n) ^ 8 = (10 ^ 8 :: nat) ^ n"
    by (simp only: power_mult [symmetric] mult.commute)
  also have "\<dots> \<le> (2 ^ 27) ^ n"
    by (intro power_mono) simp_all
  also have "\<dots> = 2 ^ (27 * n)"
    by (simp only: power_mult)
  also have "\<dots> \<le> 2 ^ ((n * 27 + 7) div 8 * 8)"
    by (intro power_increasing) simp_all
  also have "\<dots> = (2 ^ ((n * 27 + 7) div 8)) ^ 8"
    by (simp only: power_mult)
  finally show ?thesis
    by (rule power_le_imp_le_base [of _ 7, simplified]) simp
qed
definition text_value :: "nat \<Rightarrow> u8 list \<Rightarrow> int" where
  "text_value b str =
     (if deref str = 45 then - int (digits_value b (tl str)) else int (digits_value b str))"

definition numeral_text :: "nat \<Rightarrow> u8 list \<Rightarrow> bool" where
  "numeral_text b str \<longleftrightarrow> all_digits b (if deref str = 45 then tl str else str)"

lemma top_limb_fits:
  assumes "nval xs < 2 ^ n" and "xs \<noteq> []" and "bit (last xs) 63"
  shows "length xs \<le> n div 64"
proof -
  have "limb_base ^ length xs \<le> 2 * nval xs"
    using nval_half [OF assms(2)] assms(3) by simp
  then have "(2 :: nat) ^ (64 * length xs) < 2 ^ Suc n"
    using assms(1) by (simp add: limb_base_def power_mult)
  then have "64 * length xs < Suc n"
    by (rule power_less_imp_less_exp [rotated]) simp
  then show ?thesis
    by (simp add: less_eq_div_iff_mult_less_eq mult.commute)
qed

text \<open>The array that the decimal branch leaves: the value, with a limb for the sign when it is needed.\<close>

lemma decimal_array:
  assumes p: "all_digits 10 p" and t: "length t = ((length p * 27 + 7) div 8) div 64 + 1"
  shows "\<exists>t' l. read_decimal (t [0 := 0]) 1 p = Some (t', l)
    \<and> (let u = (if drop_bit 63 (t' ! (l - 1)) \<noteq> 0 then take (l + 1) (t' [l := 0]) else take l t')
       in u \<noteq> [] \<and> length u \<le> length t \<and> ival u = int (digits_value 10 p))"
proof -
  let ?n = "(length p * 27 + 7) div 8"
  have v: "digits_value 10 p < 2 ^ ?n"
    using digits_value_less [OF p] decimal_bits [of "length p"] by linarith
  have "(2 :: nat) ^ ?n \<le> 2 ^ (64 * length t)"
    using t by (intro power_increasing) simp_all
  then have fit: "digits_value 10 p < limb_base ^ length t"
    using v by (simp add: limb_base_def power_mult)
  have first: "take 1 (t [0 := 0]) = [0]"
    using t by (cases t) simp_all
  obtain t' l where rd: "read_decimal (t [0 := 0]) 1 p = Some (t', l)" and l: "length t' = length t" "0 < l" "l \<le> length t"
    and val: "nval (take l t') = digits_value 10 p"
    using read_decimal_correct [OF p, of 1 "t [0 := 0]"] t fit first by auto
  have ne: "take l t' \<noteq> []"
    using l by auto
  have top: "last (take l t') = t' ! (l - 1)"
    unfolding last_conv_nth [OF ne] using l by (simp add: min_def)
  have sign: "drop_bit 63 (t' ! (l - 1)) \<noteq> 0 \<longleftrightarrow> bit (last (take l t')) 63"
    unfolding top by (simp add: limb_sign_bit)
  show ?thesis
  proof (cases "bit (last (take l t')) 63")
    case False
    then have "ival (take l t') = int (digits_value 10 p)"
      by (simp add: ival_def val)
    then show ?thesis
      using rd ne False sign l by (simp add: Let_def)
  next
    case True
    have "length (take l t') \<le> ?n div 64"
      using v val ne True by (intro top_limb_fits) simp_all
    then have lt: "l < length t"
      using l t by simp
    then have "take (l + 1) (t' [l := 0]) = take l t' @ [0]"
      using l by (simp add: take_Suc_conv_app_nth)
    moreover have "ival (take l t' @ [0]) = int (digits_value 10 p)"
      using ival_snoc [OF ne, of 0] val by simp
    ultimately show ?thesis
      using rd True sign lt by (simp add: Let_def)
  qed
qed

lemma binary_array:
  assumes p: "all_digits (2 ^ k) p" and k: "1 \<le> k" "k \<le> 5"
  shows "\<exists>u. read_binary (2 ^ k) k 0 (rev p) (replicate (length p * k div 64 + 1) 0) c = (u, c)
    \<and> u \<noteq> [] \<and> length u = length p * k div 64 + 1 \<and> ival u = int (digits_value (2 ^ k) p)"
proof -
  have rp: "all_digits (2 ^ k) (rev p)"
    using p by (simp add: all_digits_def)
  obtain u where u: "read_binary (2 ^ k) k 0 (rev p) (replicate (length p * k div 64 + 1) 0) c = (u, c)"
    "length u = length p * k div 64 + 1" "nval u = digits_value (2 ^ k) p"
    using read_binary_correct [OF k rp, of "replicate (length p * k div 64 + 1) 0" 0 c] by auto
  have v: "nval u < 2 ^ (length p * k)"
    using digits_value_less [OF p] u(3) by (simp only: power_mult mult.commute [of _ k])
  have ne: "u \<noteq> []"
    using u(2) by auto
  have "\<not> bit (last u) 63"
    using top_limb_fits [OF v ne] u(2) by auto
  then show ?thesis
    using u ne by (simp add: ival_def)
qed

lemma normal_minimal:
  assumes "normal xs" and "ys \<noteq> []" and "ival xs = ival ys"
  shows "length xs \<le> length ys"
proof (rule ccontr)
  assume "\<not> length xs \<le> length ys"
  then obtain n where n: "length xs = Suc n" "length ys \<le> n"
    by (metis Suc_le_D not_le Suc_leI Suc_le_mono)
  then have "0 < n"
    using assms(2) by (cases n) auto
  then show False
    using normal_large [OF assms(1) n(1)] ival_bounds [OF assms(2)] limb_pow_mono [OF n(2)] assms(3) by linarith
qed
lemma log2_radix_exact:
  assumes "1 \<le> k" and "k \<le> 5"
  shows "32 - clz32 (of_nat (2 ^ k - 1)) = k"
proof -
  have "k = 1 \<or> k = 2 \<or> k = 3 \<or> k = 4 \<or> k = 5"
    using assms by linarith
  then show ?thesis
    by (elim disjE) (simp_all add: clz32_def floor_log2.simps)
qed

text \<open>The last step: a negative number is computed from its magnitude, which is freed.\<close>

lemma negated_returns:
  assumes "returns n (int v) c (Some r, c1)" and "len r \<le> n"
  shows "returns n (if neg then - int v else int v) c
    (if neg then (let (r1, c) = js_bigint_neg r c1 in (r1, js_free c)) else (Some r, c1))"
proof (cases neg)
  case True
  obtain r1 c2 where s: "js_bigint_neg r c1 = (r1, c2)"
    by (cases "js_bigint_neg r c1")
  have r: "tab r \<noteq> []" "ival (tab r) = int v" "holds 1 c c1"
    using assms(1) by (auto simp: bigint_def normal_def)
  have "returns (len r) (- int v) c1 (r1, c2)"
    using js_bigint_neg_returns [OF r(1), of c1] r(2) s by simp
  then show ?thesis
    using True s holds_trans [OF r(3), of 1 c2] fails_after [OF r(3), of n 0 c2] fails_mono [OF _ assms(2), of 0 c1 c2]
    by (cases r1) auto
qed (use assms in simp)

lemma js_bigint_from_string_returns:
  assumes radix: "radix = 10 \<or> (\<exists>k. 1 \<le> k \<and> k \<le> 5 \<and> radix = 2 ^ k)" and str: "numeral_text radix str"
  shows "\<exists>res. js_bigint_from_string str radix c = Some res \<and> returns (length str + 1) (text_value radix str) c res"
proof -
  define is_neg where "is_neg = (deref str = 45)"
  define p0 where "p0 = (if is_neg then tl str else str)"
  define p where "p = dropWhile (\<lambda>c. c = 48) p0"
  define log2_radix where "log2_radix = 32 - clz32 (of_nat (radix - 1))"
  define n_bits where "n_bits = (if radix = 10 then (length p * 27 + 7) div 8 else length p * log2_radix)"
  define n_limbs where "n_limbs = max 1 (n_bits div 64 + 1)"
  have nl: "n_limbs = n_bits div 64 + 1"
    by (simp add: n_limbs_def)
  have z: "text_value radix str = (if is_neg then - int (digits_value radix p) else int (digits_value radix p))"
    by (simp add: text_value_def is_neg_def p_def p0_def digits_value_zeros)
  have p: "all_digits radix p"
    using str by (simp add: numeral_text_def p_def p0_def is_neg_def all_digits_dropWhile)
  have lp: "length p \<le> length str"
    unfolding p_def p0_def using length_dropWhile_le order_trans by (simp add: order_trans [OF length_dropWhile_le])
  have unf: "js_bigint_from_string str radix c =
    (if length p > JS_BIGINT_MAX_SIZE * 64 then Some (None, JS_ThrowRangeError ''BigInt is too large to allocate'' c)
     else case js_bigint_new n_limbs c of
            (None, c) \<Rightarrow> Some (None, c)
          | (Some r, c) \<Rightarrow>
              do {
                (t, c) \<leftarrow>
                  (if radix = 10
                   then
                    do {
                      (t, l) \<leftarrow> read_decimal ((tab r) [0 := 0]) 1 p;
                      Some (if drop_bit 63 (t ! (l - 1)) \<noteq> 0 then take (l + 1) (t [l := 0]) else take l t, c)
                    }
                   else Some (read_binary radix log2_radix 0 (rev p) (replicate n_limbs 0) c));
                let (r, c) = js_bigint_normalize (r \<lparr>tab := t\<rparr>) c;
                Some (if is_neg then (let (r1, c) = js_bigint_neg r c in (r1, js_free c)) else (Some r, c))
              })"
    unfolding js_bigint_from_string_def Let_def is_neg_def p0_def p_def log2_radix_def n_bits_def n_limbs_def ..
  show ?thesis
  proof (cases "length p > JS_BIGINT_MAX_SIZE * 64")
    case True
    then have "JS_BIGINT_MAX_SIZE < length str + 1"
      using lp by simp
    then show ?thesis
      using True unf by (simp add: fails_def JS_ThrowRangeError_def later_def)
  next
    case False
    have size: "n_limbs \<le> length str + 1"
    proof -
      have "log2_radix \<le> 32"
        by (simp add: log2_radix_def)
      then have "length p * log2_radix \<le> length p * 64" "(length p * 27 + 7) div 8 \<le> length p * 64"
        by (auto intro: mult_le_mono2)
      then have "n_bits \<le> length p * 64"
        by (simp add: n_bits_def)
      then show ?thesis
        using lp unfolding nl by (simp add: div_le_mono [of _ "length p * 64" 64, simplified] order_trans)
    qed
    obtain r c1 where new: "js_bigint_new n_limbs c = (r, c1)"
      by (cases "js_bigint_new n_limbs c")
    show ?thesis
    proof (cases r)
      case None
      then show ?thesis
        using js_bigint_new_contract(2) [of n_limbs c c1] new unf False fails_mono [OF _ size] by simp
    next
      case (Some x)
      then have x: "ref_count x = 1" "len x = n_limbs" "holds 1 c c1"
        using js_bigint_new_contract(1) [of n_limbs c x c1] new by simp_all
      have array: "\<exists>t. (if radix = 10
           then
            do {
              (t, l) \<leftarrow> read_decimal ((tab x) [0 := 0]) 1 p;
              Some (if drop_bit 63 (t ! (l - 1)) \<noteq> 0 then take (l + 1) (t [l := 0]) else take l t, c1)
            }
           else Some (read_binary radix log2_radix 0 (rev p) (replicate n_limbs 0) c1)) = Some (t, c1)
         \<and> t \<noteq> [] \<and> length t \<le> length str + 1 \<and> ival t = int (digits_value radix p)"
      proof (cases "radix = 10")
        case True
        then have "length (tab x) = ((length p * 27 + 7) div 8) div 64 + 1"
          using x(2) nl by (simp add: n_bits_def)
        from decimal_array [OF p [unfolded True] this] show ?thesis
          using True size x(2) by (auto simp: Let_def)
      next
        case F: False
        then obtain k where k: "1 \<le> k" "k \<le> 5" "radix = 2 ^ k"
          using radix by blast
        then have "log2_radix = k"
          unfolding log2_radix_def by (simp only: log2_radix_exact)
        then show ?thesis
          using binary_array [OF p [unfolded k(3)] k(1,2), of c1] F k(3) size nl by (auto simp: n_bits_def)
      qed
      then obtain t where t: "(if radix = 10
           then
            do {
              (t, l) \<leftarrow> read_decimal ((tab x) [0 := 0]) 1 p;
              Some (if drop_bit 63 (t ! (l - 1)) \<noteq> 0 then take (l + 1) (t [l := 0]) else take l t, c1)
            }
           else Some (read_binary radix log2_radix 0 (rev p) (replicate n_limbs 0) c1)) = Some (t, c1)"
         "t \<noteq> []" "length t \<le> length str + 1" "ival t = int (digits_value radix p)"
        by blast
      obtain y c2 where norm: "js_bigint_normalize (x \<lparr>tab := t\<rparr>) c1 = (y, c2)"
        by (cases "js_bigint_normalize (x \<lparr>tab := t\<rparr>) c1")
      have ret: "returns (length str + 1) (int (digits_value radix p)) c (Some y, c2)"
        using js_bigint_normalize_returns [of "x \<lparr>tab := t\<rparr>" "int (digits_value radix p)" c c1 "length str + 1"] x t norm by simp
      then have "len y \<le> length str + 1"
        using normal_minimal [of "tab y" t] t by (auto simp: bigint_def)
      from negated_returns [OF ret this, of is_neg] show ?thesis
        unfolding unf z using False new Some t(1) norm by (simp add: Let_def)
    qed
  qed
qed

section \<open>Reading what was printed\<close>

lemma to_digit_char: "d < 36 \<Longrightarrow> to_digit (digit_char d) = d"
proof -
  have "list_all (\<lambda>d. to_digit (digit_char d) = d) [0..<36]"
    by (simp add: upt_rec to_digit_def digit_char_def)
  then show "d < 36 \<Longrightarrow> to_digit (digit_char d) = d"
    by (simp only: list_all_iff set_upt) simp
qed

lemma digit_char_no_sign: "d < 36 \<Longrightarrow> digit_char d \<noteq> 45"
proof
  assume "d < 36" and "digit_char d = 45"
  then have "to_digit 45 = d"
    using to_digit_char [of d] by simp
  then show False
    using \<open>d < 36\<close> by (simp add: to_digit_def)
qed

lemma show_nat_value:
  assumes "2 \<le> b" and "b \<le> 36"
  shows "all_digits b (show_nat b n) \<and> digits_value b (show_nat b n) = n \<and> show_nat b n \<noteq> [] \<and> hd (show_nat b n) \<noteq> 45"
  using assms
proof (induction b n rule: numeral_digits.induct)
  case (1 b n)
  show ?case
  proof (cases "n < b")
    case True
    then show ?thesis
      using "1.prems" to_digit_char [of n] digit_char_no_sign [of n] by (simp add: show_nat_single)
  next
    case False
    then have s: "show_nat b n = show_nat b (n div b) @ [digit_char (n mod b)]"
      using show_nat_step [OF "1.prems"(1), of n] "1.prems" by (simp add: div_eq_0_iff)
    have IH: "all_digits b (show_nat b (n div b)) \<and> digits_value b (show_nat b (n div b)) = n div b
        \<and> show_nat b (n div b) \<noteq> [] \<and> hd (show_nat b (n div b)) \<noteq> 45"
      using 1 False by simp
    have m: "n mod b < b"
      using "1.prems" by simp
    then have t: "to_digit (digit_char (n mod b)) = n mod b"
      using "1.prems" by (intro to_digit_char) (rule less_le_trans)
    show ?thesis
      unfolding s using IH m t by (simp add: digits_value_append)
  qed
qed

lemma show_int_value:
  assumes "2 \<le> b" and "b \<le> 36"
  shows "numeral_text b (show_int b z)" and "text_value b (show_int b z) = z"
proof -
  note v = show_nat_value [OF assms, of "nat \<bar>z\<bar>"]
  have d: "deref (show_nat b (nat \<bar>z\<bar>)) \<noteq> 45"
    using v by (cases "show_nat b (nat \<bar>z\<bar>)") (simp_all add: deref_def)
  have dn: "deref (45 # cs) = 45" for cs
    by (simp add: deref_def)
  show "numeral_text b (show_int b z)"
    using v d by (cases "z < 0") (simp_all add: numeral_text_def show_int_def dn)
  show "text_value b (show_int b z) = z"
    using v d by (cases "z < 0") (simp_all add: text_value_def show_int_def dn)
qed

end
