(* ===== verification/BigInt_Float.thy ===== *)
theory BigInt_Float
  imports BigInt_Read
begin

text \<open>
  BigInts and doubles (quickjs.c, \<open>js_bigint_get_mant_exp\<close> to \<open>js_bigint_float64_cmp\<close>). A double is its
  bit pattern. The reference for the conversion to a double is the rounding of IEEE 754, to the nearest
  double and to the even one of two that are equally near; it is also the meaning of the conversion
  from \<open>int64_t\<close> to \<open>double\<close> that the source uses for one limb.
\<close>

unbundle bit_operations_syntax

section \<open>Rounding\<close>

text \<open>\<open>n / 2 ^ k\<close> rounded to the nearest integer, ties to even.\<close>

definition round_even :: "nat \<Rightarrow> nat \<Rightarrow> nat" where
  "round_even n k =
     (let q = n div 2 ^ k; r = n mod 2 ^ k
      in if 2 * r > 2 ^ k \<or> (2 * r = 2 ^ k \<and> odd q) then q + 1 else q)"

definition f64_infinity :: nat where
  "f64_infinity = 2047 * 2 ^ 52"

text \<open>The pattern of the double nearest to a natural number, as a number; a carry runs into the exponent.\<close>

definition f64_nearest :: "nat \<Rightarrow> nat" where
  "f64_nearest n =
     (if n = 0 then 0
      else let e = floor_log2 n;
               m = (if e \<le> 52 then n * 2 ^ (52 - e) else round_even n (e - 52))
           in if e > 1023 then f64_infinity else (e + 1023) * 2 ^ 52 + (m - 2 ^ 52))"

definition f64_round :: "int \<Rightarrow> f64" where
  "f64_round z = of_nat ((if z < 0 then 2 ^ 63 else 0) + f64_nearest (nat \<bar>z\<bar>))"

section \<open>The functions\<close>

text \<open>One limb of the absolute value, with the carry of the negation.\<close>

definition mant_step :: "js_limb_t \<Rightarrow> js_limb_t \<Rightarrow> js_limb_t \<Rightarrow> js_limb_t \<times> js_limb_t" where
  "mant_step sign carry x = (let v = (x XOR (- sign)) + carry in (v, limb_of_bool (v < carry)))"

fun mant_low :: "js_limb_t \<Rightarrow> js_limb_t \<Rightarrow> js_limb_t \<Rightarrow> js_limb_t list \<Rightarrow> js_limb_t \<times> js_limb_t" where
  "mant_low sign carry low_bits [] = (carry, low_bits)"
| "mant_low sign carry low_bits (x # xs) =
     (let (v, carry) = mant_step sign carry x in mant_low sign carry (low_bits OR v) xs)"

text \<open>Two limbs are kept; for one limb the lower one is zero.\<close>

definition js_bigint_get_mant_exp :: "JSBigInt \<Rightarrow> u64 \<times> int" where
  "js_bigint_get_mant_exp a =
     (let sign = js_bigint_sign a;
          (carry, low_bits) = mant_low sign sign 0 (take (len a - 2) (tab a));
          (t0, carry) = (if len a < 2 then (0, carry) else mant_step sign carry (tab a ! (len a - 2)));
          (t1, carry) = mant_step sign carry (tab a ! (len a - 1));
          a1 = t1;
          a0 = t0 OR limb_of_bool (low_bits \<noteq> 0);
          (shift, a1, a0) =
            (if a1 = 0 then (64, a0, 0)
             else
              (let shift = clz64 a1
               in if shift \<noteq> 0
                  then (shift, push_bit shift a1 OR drop_bit (64 - shift) a0, push_bit shift a0)
                  else (shift, a1, a0)));
          a1 = a1 OR limb_of_bool (a0 \<noteq> 0)
      in (a1, int (len a) * 64 - int shift - 1))"

definition shr_rndn :: "u64 \<Rightarrow> nat \<Rightarrow> u64" where
  "shr_rndn a n =
     (let addend = (drop_bit n a AND 1) + (push_bit (n - 1) 1 - 1)
      in drop_bit n (a + addend))"

text \<open>The conversion \<open>(double)(int64_t)\<close> of the one-limb case is the rounding the C standard prescribes for it.\<close>

definition js_bigint_to_float64 :: "JSBigInt \<Rightarrow> f64" where
  "js_bigint_to_float64 a =
     (if len a = 1 then f64_round (sint (hd (tab a)))
      else
       let sign = js_bigint_sign a;
           (mant, e) = js_bigint_get_mant_exp a;
           (mant, e) =
             (if e > 1023 then (0, 1024)
              else
               (let mant = drop_bit 1 mant OR (mant AND 1);
                    mant = shr_rndn mant 10;
                    (mant, e) = (if mant \<ge> push_bit 53 1 then (drop_bit 1 mant, e + 1) else (mant, e))
                in (mant AND (push_bit 52 1 - 1), e)))
       in push_bit 63 sign OR push_bit 52 (word_of_int (e + 1023)) OR mant)"

text \<open>The result code and the BigInt; the code is 1 for a fraction and 2 for NaN and infinity.\<close>

definition js_bigint_from_float64 :: "f64 \<Rightarrow> js_ctx \<Rightarrow> nat \<times> JSBigInt option \<times> js_ctx" where
  "js_bigint_from_float64 a c =
     (let sign = drop_bit 63 a;
          e = uint (drop_bit 52 a AND (push_bit 11 1 - 1));
          mant = a AND (push_bit 52 1 - 1)
      in if e = 2047 then (2, None, c)
         else if e = 0 \<and> mant = 0 then (0, js_bigint_new_si 0 c)
         else
          let e = e - 1023
          in if e < 0 then (1, None, c)
             else
              let mant = mant OR push_bit 52 1
              in if e < 52 \<and> mant AND (push_bit (nat (52 - e)) 1 - 1) \<noteq> 0 then (1, None, c)
                 else
                  let (mant, e) = (if e < 52 then (drop_bit (nat (52 - e)) mant, 0) else (mant, e - 52));
                      mant = (if sign \<noteq> 0 then - mant else mant)
                  in (0, js_bigint_shl (js_bigint_set_si64 mant) (nat e) c))"

definition js_bigint_float64_cmp :: "JSBigInt \<Rightarrow> f64 \<Rightarrow> int" where
  "js_bigint_float64_cmp a b =
     (let b_sign = drop_bit 63 b;
          e = uint (drop_bit 52 b AND (push_bit 11 1 - 1));
          mant = b AND (push_bit 52 1 - 1);
          a_sign = js_bigint_sign a
      in if e = 2047
         then (if mant \<noteq> 0 then 2 else 2 * uint b_sign - 1)
         else if e = 0 \<and> mant = 0
         then (if len a = 1 \<and> hd (tab a) = 0 then 0 else 1 - 2 * uint a_sign)
         else if len a = 1 \<and> hd (tab a) = 0 then 2 * uint b_sign - 1
         else if a_sign \<noteq> b_sign then 1 - 2 * uint a_sign
         else
          let e = e - 1023;
              (a_mant, f) = js_bigint_get_mant_exp a
          in if f \<noteq> e then (if f < e then - 1 else 1)
             else
              let mant = push_bit 11 (mant OR push_bit 52 1)
              in if a_mant < mant then 2 * uint a_sign - 1
                 else if a_mant > mant then 1 - 2 * uint a_sign
                 else 0)"

section \<open>Mantissa and exponent\<close>

text \<open>The 64 leading bits of a number, the lowest one set if any bit below is.\<close>

definition lead64 :: "nat \<Rightarrow> nat" where
  "lead64 n =
     (let e = floor_log2 n
      in if e \<le> 63 then n * 2 ^ (63 - e)
         else n div 2 ^ (e - 63) OR of_bool (n mod 2 ^ (e - 63) \<noteq> 0))"

text \<open>The loop over the limbs of the absolute value is the one of the negation.\<close>

fun abs_limbs :: "js_limb_t \<Rightarrow> js_limb_t \<Rightarrow> js_limb_t list \<Rightarrow> js_limb_t list \<times> js_limb_t" where
  "abs_limbs sign carry [] = ([], carry)"
| "abs_limbs sign carry (x # xs) =
     (let (v, carry) = mant_step sign carry x; (vs, carry) = abs_limbs sign carry xs in (v # vs, carry))"

lemma abs_limbs_mp_abs:
  assumes "sign = limb_of_bool s"
  shows "fst (abs_limbs sign sign xs) = mp_abs sign xs"
proof (cases s)
  case True
  have "abs_limbs 1 c xs = mp_neg_loop xs c" for c
    by (induction xs arbitrary: c) (simp_all add: mant_step_def Let_def)
  then show ?thesis
    using assms True by (simp add: mp_abs_def mp_neg_def limb_of_bool_def)
next
  case False
  have "abs_limbs 0 0 xs = (xs, 0)"
    by (induction xs) (simp_all add: mant_step_def Let_def limb_of_bool_def)
  then show ?thesis
    using assms False by (simp add: mp_abs_def limb_of_bool_def)
qed

lemma abs_limbs_append:
  "abs_limbs s c (xs @ ys) =
    (let (us, c) = abs_limbs s c xs; (vs, c) = abs_limbs s c ys in (us @ vs, c))"
  by (induction xs arbitrary: c) (simp_all add: Let_def split: prod.splits)

lemma length_abs_limbs: "length (fst (abs_limbs s c xs)) = length xs"
  by (induction xs arbitrary: c) (simp_all add: Let_def split_beta)

lemma mant_low_abs:
  "mant_low s c lb xs = (snd (abs_limbs s c xs), fold (\<lambda>v lb. lb OR v) (fst (abs_limbs s c xs)) lb)"
  by (induction xs arbitrary: c lb) (simp_all add: Let_def split_beta)

lemma fold_or_zero: "fold (\<lambda>v lb. lb OR v) vs lb = (0 :: js_limb_t) \<longleftrightarrow> lb = 0 \<and> nval vs = 0"
  by (induction vs arbitrary: lb) (auto simp: or_eq_0_iff unsigned_eq_0_iff)

text \<open>The two highest limbs of the absolute value and the rest.\<close>

lemma get_mant_exp_limbs:
  fixes a :: JSBigInt
  defines "vs \<equiv> mp_abs (js_bigint_sign a) (tab a)"
  assumes "tab a \<noteq> []"
  defines "t1 \<equiv> last vs" and "t0 \<equiv> (if len a < 2 then 0 else last (butlast vs))" and "low \<equiv> butlast (butlast vs)"
  shows "js_bigint_get_mant_exp a =
    (let a0 = t0 OR limb_of_bool (nval low \<noteq> 0);
         (shift, a1, a0) =
            (if t1 = 0 then (64, a0, 0)
             else
              (let shift = clz64 t1
               in if shift \<noteq> 0
                  then (shift, push_bit shift t1 OR drop_bit (64 - shift) a0, push_bit shift a0)
                  else (shift, t1, a0)))
     in (a1 OR limb_of_bool (a0 \<noteq> 0), int (len a) * 64 - int shift - 1))"
proof -
  define s where "s = js_bigint_sign a"
  have sl: "s = limb_of_bool (bit (last (tab a)) 63)"
    by (simp add: s_def js_bigint_sign_def limb_sign_bit)
  have vs: "vs = fst (abs_limbs s s (tab a))"
    unfolding vs_def s_def [symmetric] abs_limbs_mp_abs [OF sl] ..
  consider x where "tab a = [x]" | ws x y where "tab a = ws @ [x, y]"
  proof (cases "tab a" rule: rev_cases)
    case (snoc us y)
    then show ?thesis
      using that by (cases us rule: rev_cases) auto
  qed (use assms(2) in simp)
  then show ?thesis
  proof cases
    case 1
    then show ?thesis
      unfolding js_bigint_get_mant_exp_def t1_def t0_def low_def vs
      by (simp add: s_def [symmetric] Let_def split_beta limb_of_bool_def)
  next
    case 2
    obtain us c1 where low: "abs_limbs s s ws = (us, c1)"
      by (cases "abs_limbs s s ws")
    obtain v0 c2 where v0: "mant_step s c1 x = (v0, c2)"
      by (cases "mant_step s c1 x")
    obtain v1 c3 where v1: "mant_step s c2 y = (v1, c3)"
      by (cases "mant_step s c2 y")
    have vs': "vs = us @ [v0, v1]"
      by (simp add: vs 2 abs_limbs_append low v0 v1)
    have "take (len a - 2) (tab a) = ws" "tab a ! (len a - 2) = x" "tab a ! (len a - 1) = y" "\<not> len a < 2"
      by (simp_all add: 2 nth_append)
    then show ?thesis
      unfolding js_bigint_get_mant_exp_def t1_def t0_def low_def s_def [symmetric] mant_low_abs
      by (simp add: vs' low v0 v1 fold_or_zero Let_def butlast_append)
  qed
qed
lemma or_low_bit: "unat ((x :: u64) OR limb_of_bool b) = unat x OR of_bool b"
proof -
  have "unat (x OR limb_of_bool b) = unat x OR unat (limb_of_bool b)"
    by (rule unsigned_or_eq)
  then show ?thesis
    by (simp only: unat_limb_of_bool)
qed

lemma or_bool_less: "n < 2 ^ k \<Longrightarrow> 0 < k \<Longrightarrow> (n OR of_bool b :: nat) < 2 ^ k"
proof -
  assume n: "n < 2 ^ k" and k: "0 < k"
  have "take_bit k (n OR of_bool b) = n OR of_bool b"
    using n k by (cases b) (simp_all add: take_bit_or take_bit_nat_eq_self)
  then show ?thesis
    by (metis take_bit_nat_less_exp)
qed

lemma or_bool_div: "0 < j \<Longrightarrow> (n OR of_bool b) div 2 ^ j = n div (2 :: nat) ^ j"
  unfolding drop_bit_eq_div [symmetric] drop_bit_or by (cases j) (simp_all add: drop_bit_Suc)

lemma or_bool_mod: "0 < j \<Longrightarrow> (n OR of_bool b) mod 2 ^ j = n mod (2 :: nat) ^ j OR of_bool b"
  unfolding take_bit_eq_mod [symmetric] take_bit_or by (cases j) simp_all

lemma or_bool_eq_0: "(n OR of_bool b :: nat) = 0 \<longleftrightarrow> n = 0 \<and> \<not> b"
  unfolding or_eq_0_iff by simp

text \<open>Splitting a number at a limb boundary: the high part, and whether bits below are set.\<close>

lemma split_high:
  fixes low H P d :: nat
  assumes "low < P"
  shows "(low + P * H) div (P * d) = H div d" and "(low + P * H) mod (P * d) = low + P * (H mod d)"
proof -
  have P: "0 < P"
    using assms by simp
  show "(low + P * H) div (P * d) = H div d"
    using P assms by (simp add: div_mult2_eq)
  show "(low + P * H) mod (P * d) = low + P * (H mod d)"
    using P assms by (simp add: mod_mult2_eq)
qed

lemma lead64_high:
  assumes e: "floor_log2 n = 63 + k" and n: "n = low + limb_base ^ m * H" and low: "low < limb_base ^ m" and k: "k = 64 * m + j"
  shows "lead64 n = H div 2 ^ j OR of_bool (low \<noteq> 0 \<or> H mod 2 ^ j \<noteq> 0)"
proof -
  have p: "(2 :: nat) ^ k = limb_base ^ m * 2 ^ j"
    by (simp add: k power_add power_mult limb_base_def)
  have "n div 2 ^ k = H div 2 ^ j" "n mod 2 ^ k = low + limb_base ^ m * (H mod 2 ^ j)"
    unfolding p n using split_high [OF low] by simp_all
  moreover have "low + limb_base ^ m * (H mod 2 ^ j) \<noteq> 0 \<longleftrightarrow> low \<noteq> 0 \<or> H mod 2 ^ j \<noteq> 0"
    by simp
  ultimately show ?thesis
    using e by (cases "k = 0") (simp_all add: lead64_def)
qed

lemma js_bigint_get_mant_exp_correct:
  assumes a: "normal (tab a)" "ival (tab a) \<noteq> 0"
  defines "n \<equiv> nat \<bar>ival (tab a)\<bar>"
  shows "unat (fst (js_bigint_get_mant_exp a)) = lead64 n" and "snd (js_bigint_get_mant_exp a) = int (floor_log2 n)"
proof -
  define vs where "vs = mp_abs (js_bigint_sign a) (tab a)"
  define t1 where "t1 = last vs"
  define t0 where "t0 = (if len a < 2 then 0 else last (butlast vs))"
  define low where "low = butlast (butlast vs)"
  have ne: "tab a \<noteq> []"
    using a(1) by (simp add: normal_def)
  have vs: "nval vs = n" "length vs = len a" "vs \<noteq> []"
    using nval_mp_abs [OF ne] ne by (auto simp: vs_def n_def)
  have pos: "0 < n"
    using a(2) by (simp add: n_def)
  note eq = get_mant_exp_limbs [OF ne, folded vs_def, folded t1_def t0_def low_def]
  have goal: "unat (fst (js_bigint_get_mant_exp a)) = lead64 n \<and> snd (js_bigint_get_mant_exp a) = int (floor_log2 n)"
  proof (cases "len a = 1")
    case True
    then obtain v where v: "vs = [v]"
      using vs(2) by (cases vs) auto
    have uv: "unat v = n" "v \<noteq> 0"
      using vs(1) pos by (auto simp: v)
    have f: "floor_log2 n < 64"
      using uv unat_less [of v] pos by (intro floor_log2_less) simp_all
    have m: "n * 2 ^ (63 - floor_log2 n) < 2 ^ 64"
    proof -
      have "n * 2 ^ (63 - floor_log2 n) < 2 ^ Suc (floor_log2 n) * 2 ^ (63 - floor_log2 n)"
        using floor_log2_bounds(2) [OF pos] by (intro mult_strict_right_mono) simp_all
      also have "\<dots> = 2 ^ 64"
        using f by (simp flip: power_add power_Suc)
      finally show ?thesis .
    qed
    have "clz64 v = 63 - floor_log2 n"
      by (simp add: clz64_def uv)
    then show ?thesis
      using eq v uv True f m
      by (simp add: t1_def t0_def low_def Let_def limb_of_bool_def lead64_def unat_push_bit)
  next
    case False
    then obtain m where lm: "len a = Suc (Suc m)"
      using ne by (cases "len a"; cases "len a - 1") auto
    obtain us y where u1: "vs = us @ [y]"
      using vs(3) by (cases vs rule: rev_cases) auto
    moreover obtain ws x where u2: "us = ws @ [x]"
      using vs(2) lm u1 by (cases us rule: rev_cases) auto
    have vs3: "vs = low @ [t0, t1]" "length low = m"
      using vs(2) lm u1 u2 by (simp_all add: low_def t0_def t1_def butlast_append)
    define H where "H = unat t0 + limb_base * unat t1"
    have n: "n = nval low + limb_base ^ m * H" and low: "nval low < limb_base ^ m"
      using vs(1) vs3 nval_less [of low] by (auto simp: nval_append H_def)
    define L where "L = limb_of_bool (nval low \<noteq> 0)"
    show ?thesis
    proof (cases "t1 = 0")
      case True
      have "limb_base ^ length (low @ [t0]) \<le> 2 * nval (low @ [t0])"
      proof -
        have "int (limb_base ^ Suc m) \<le> int (2 * n)"
          unfolding limb_pow_def [symmetric] using normal_large [OF a(1) lm] by (auto simp: n_def)
        moreover have "nval (low @ [t0]) = n"
          using vs(1) True by (simp add: vs3 nval_append)
        ultimately show ?thesis
          unfolding of_nat_le_iff using vs3(2) by simp
      qed
      then have b: "bit t0 63"
        using nval_half [of "low @ [t0]"] by simp
      then have f: "floor_log2 (unat t0) = 63" "t0 \<noteq> 0"
        using unat_less [of t0] by (auto intro!: floor_log2_eqI simp: limb_msb)
      have "floor_log2 n = floor_log2 (nval (low @ [t0]))"
        using vs(1) True by (simp add: vs3 nval_append)
      then have fl: "floor_log2 n = 64 * m + 63"
        using nval_floor_log2 [of "low @ [t0]"] f vs3(2) by simp
      then have "lead64 n = H div 2 ^ 0 OR of_bool (nval low \<noteq> 0 \<or> H mod 2 ^ 0 \<noteq> 0)"
        by (intro lead64_high [OF _ n low]) simp_all
      also have "\<dots> = unat (t0 OR L)"
        unfolding L_def or_low_bit using True by (simp add: H_def)
      finally show ?thesis
        using eq [folded L_def] True fl lm limb_of_bool_def [of False] by (simp add: Let_def)
    next
      case t1: False
      define f1 where "f1 = floor_log2 (unat t1)"
      define s j where "s = 63 - f1" and "j = Suc f1"
      have p1: "0 < unat t1"
        using t1 by (simp add: unat_gt_0)
      have f1: "f1 < 64"
        unfolding f1_def using unat_less [of t1] p1 by (intro floor_log2_less) simp_all
      have sj: "s + j = 64" "0 < j" "s < 64"
        using f1 by (simp_all add: s_def j_def)
      have p: "(2 :: nat) ^ 64 = 2 ^ s * 2 ^ j"
        unfolding power_add [symmetric] sj(1) ..
      have t1j: "unat t1 < 2 ^ j"
        unfolding j_def f1_def by (rule floor_log2_bounds [OF p1])
      have fl: "floor_log2 n = 63 + (64 * m + j)"
        using nval_floor_log2 [of vs] vs(1) vs3 t1 by (simp add: f1_def [symmetric] j_def)
      have lead: "lead64 n = H div 2 ^ j OR of_bool (nval low \<noteq> 0 \<or> H mod 2 ^ j \<noteq> 0)"
        by (rule lead64_high [OF fl n low refl])
      have B: "limb_base = 2 ^ s * 2 ^ j"
        using p by (simp add: limb_base_def)
      have Hd: "H div 2 ^ j = unat t1 * 2 ^ s + unat t0 div 2 ^ j" and Hm: "H mod 2 ^ j = unat t0 mod 2 ^ j"
      proof -
        have H: "H = unat t0 + 2 ^ j * (unat t1 * 2 ^ s)"
          by (simp only: H_def B mult_ac)
        show "H div 2 ^ j = unat t1 * 2 ^ s + unat t0 div 2 ^ j" "H mod 2 ^ j = unat t0 mod 2 ^ j"
          unfolding H by simp_all
      qed
      define a0 where "a0 = t0 OR L"
      have a0: "unat a0 div 2 ^ j = unat t0 div 2 ^ j" "unat a0 mod 2 ^ j \<noteq> 0 \<longleftrightarrow> nval low \<noteq> 0 \<or> unat t0 mod 2 ^ j \<noteq> 0"
      proof -
        have u: "unat a0 = unat t0 OR of_bool (nval low \<noteq> 0)"
          unfolding a0_def L_def or_low_bit ..
        show "unat a0 div 2 ^ j = unat t0 div 2 ^ j"
          unfolding u by (rule or_bool_div [OF sj(2)])
        show "unat a0 mod 2 ^ j \<noteq> 0 \<longleftrightarrow> nval low \<noteq> 0 \<or> unat t0 mod 2 ^ j \<noteq> 0"
          unfolding u or_bool_mod [OF sj(2)] or_bool_eq_0 by auto
      qed
      have hi: "unat (push_bit s t1 OR drop_bit j a0) = H div 2 ^ j"
      proof -
        have "unat t0 div 2 ^ j < 2 ^ s"
          using unat_less [of t0] p by (simp add: less_mult_imp_div_less)
        moreover have "unat t1 * 2 ^ s + unat t0 div 2 ^ j < 2 ^ LENGTH(64)"
        proof -
          have "Suc (unat t1) * 2 ^ s \<le> 2 ^ j * 2 ^ s"
            using t1j by (intro mult_le_mono1) simp
          then show ?thesis
            using \<open>unat t0 div 2 ^ j < 2 ^ s\<close> p by (simp add: mult.commute)
        qed
        ultimately show ?thesis
          using unat_or_disjoint' [of "drop_bit j a0" s t1] a0(1) by (simp add: unat_drop_bit Hd)
      qed
      have st: "push_bit s a0 \<noteq> 0 \<longleftrightarrow> nval low \<noteq> 0 \<or> H mod 2 ^ j \<noteq> 0"
      proof -
        have "unat (push_bit s a0) = unat a0 * 2 ^ s mod (2 ^ j * 2 ^ s)"
          using p by (simp add: unat_push_bit mult.commute)
        also have "\<dots> = unat a0 mod 2 ^ j * 2 ^ s"
          by (simp only: mult_mod_left)
        finally have "unat (push_bit s a0) = unat a0 mod 2 ^ j * 2 ^ s" .
        then show ?thesis
          unfolding Hm a0(2) [symmetric] by (metis mult_eq_0_iff power_not_zero unsigned_eq_0_iff zero_neq_numeral)
      qed
      have "js_bigint_get_mant_exp a = ((push_bit s t1 OR drop_bit j a0) OR limb_of_bool (push_bit s a0 \<noteq> 0), int (floor_log2 n))"
      proof -
        have "clz64 t1 = s" "64 - s = j"
          using sj by (simp_all add: clz64_def s_def f1_def)
        moreover have "drop_bit 64 a0 = 0"
          by (rule bit_word_eqI) (simp add: bit_simps)
        ultimately show ?thesis
          using eq [folded L_def, folded a0_def] t1 fl lm sj by (cases "s = 0") (simp_all add: Let_def)
      qed
      then show ?thesis
        unfolding lead using st by (simp only: fst_conv snd_conv or_low_bit hi simp_thms)
    qed
  qed
  then show "unat (fst (js_bigint_get_mant_exp a)) = lead64 n" "snd (js_bigint_get_mant_exp a) = int (floor_log2 n)"
    by simp_all
qed
section \<open>Rounding with a sticky bit\<close>

definition sticky :: "nat \<Rightarrow> nat \<Rightarrow> nat" where
  "sticky n k = n div 2 ^ k OR of_bool (n mod 2 ^ k \<noteq> 0)"

lemma or_one: "(u :: nat) OR 1 = (if even u then u + 1 else u)"
  unfolding or_one_eq by simp

lemma sticky_sticky: "sticky (sticky n k) j = sticky n (k + j)" if "0 < j"
proof -
  have "sticky n k div 2 ^ j = n div 2 ^ (k + j)"
    unfolding sticky_def or_bool_div [OF that] by (simp add: power_add div_mult2_eq)
  moreover have "sticky n k mod 2 ^ j \<noteq> 0 \<longleftrightarrow> n mod 2 ^ (k + j) \<noteq> 0"
    unfolding sticky_def or_bool_mod [OF that] or_bool_eq_0 by (auto simp: power_add mod_mult2_eq)
  ultimately show ?thesis
    by (simp add: sticky_def)
qed

text \<open>The bits below the lowest kept one matter only as being zero or not.\<close>

lemma round_even_sticky:
  assumes "2 \<le> j"
  shows "round_even (sticky n k) j = round_even n (k + j)"
proof -
  define u w h where "u = n div 2 ^ k mod 2 ^ j" and "w = n mod 2 ^ k" and "h = (2 :: nat) ^ (j - 1)"
  have j: "0 < j"
    using assms by simp
  have h: "(2 :: nat) ^ j = 2 * h" "even h"
    using assms by (cases j; simp add: h_def)+
  have q: "sticky n k div 2 ^ j = n div 2 ^ (k + j)"
    unfolding sticky_def or_bool_div [OF j] by (simp add: power_add div_mult2_eq)
  have r: "sticky n k mod 2 ^ j = u OR of_bool (w \<noteq> 0)"
    unfolding sticky_def or_bool_mod [OF j] u_def w_def ..
  have R: "n mod 2 ^ (k + j) = 2 ^ k * u + w"
    by (simp add: power_add mod_mult2_eq u_def w_def)
  have w: "w < 2 ^ k"
    by (simp add: w_def)
  have "(2 * (2 ^ k * u + w) > 2 ^ (k + j) \<longleftrightarrow> 2 * (u OR of_bool (w \<noteq> 0)) > 2 ^ j)
    \<and> (2 * (2 ^ k * u + w) = 2 ^ (k + j) \<longleftrightarrow> 2 * (u OR of_bool (w \<noteq> 0)) = 2 ^ j)"
  proof (cases "w = 0")
    case True
    then show ?thesis
      by (simp add: power_add h(1))
  next
    case False
    have c: "2 ^ k * h < 2 ^ k * u + w \<longleftrightarrow> h \<le> u" "2 ^ k * u + w \<noteq> 2 ^ k * h"
    proof -
      have "2 ^ k * h < 2 ^ k * u + w" if "h \<le> u"
        using that False mult_le_mono2 [OF that, of "2 ^ k"] by linarith
      moreover have "2 ^ k * u + w < 2 ^ k * h" if "\<not> h \<le> u"
      proof -
        have "2 ^ k * Suc u \<le> 2 ^ k * h"
          using that by (intro mult_le_mono2) simp
        then show ?thesis
          using w by simp
      qed
      ultimately show "2 ^ k * h < 2 ^ k * u + w \<longleftrightarrow> h \<le> u" "2 ^ k * u + w \<noteq> 2 ^ k * h"
        by (meson less_asym, metis less_irrefl)
    qed
    have d: "h < (u OR 1) \<longleftrightarrow> h \<le> u" "(u OR 1) \<noteq> h"
      unfolding or_one using h(2) by (auto simp: le_less)
    have e: "(2 :: nat) ^ (k + j) = 2 * (2 ^ k * h)"
      by (simp add: power_add h(1))
    show ?thesis
      unfolding e h(1) mult_less_cancel1 mult_cancel1 using False c d by simp
  qed
  then show ?thesis
    unfolding round_even_def Let_def q r R by simp
qed

lemma round_even_shifted: "round_even (n * 2 ^ a) (a + b) = round_even n b"
proof -
  have p: "(2 :: nat) ^ (a + b) = 2 ^ b * 2 ^ a"
    by (simp add: power_add)
  have "n * 2 ^ a div 2 ^ (a + b) = n div 2 ^ b" "n * 2 ^ a mod 2 ^ (a + b) = n mod 2 ^ b * 2 ^ a"
    unfolding p by (simp_all add: mult_mod_left)
  moreover have "2 * (r * 2 ^ a) > 2 ^ (a + b) \<longleftrightarrow> 2 * r > 2 ^ b" "2 * (r * 2 ^ a) = 2 ^ (a + b) \<longleftrightarrow> 2 * r = 2 ^ b" for r :: nat
    unfolding p mult.assoc [symmetric] by simp_all
  ultimately show ?thesis
    by (simp only: round_even_def Let_def)
qed

lemma round_even_0 [simp]: "round_even n 0 = n"
  by (simp add: round_even_def)

lemma shr_rndn_correct:
  assumes "unat a < 2 ^ 63"
  shows "unat (shr_rndn a 10) = round_even (unat a) 10"
proof -
  define Q R where "Q = unat a div 1024" and "R = unat a mod 1024"
  have a: "unat a = 1024 * Q + R" and R: "R < 1024"
    by (simp_all add: Q_def R_def)
  have odd: "unat (drop_bit 10 a AND 1) = Q mod 2"
  proof -
    have "drop_bit 10 a AND 1 = take_bit 1 (drop_bit 10 a)"
      by (simp add: take_bit_eq_mask)
    then show ?thesis
      by (simp only: unat_take_bit unat_drop_bit) (simp add: Q_def)
  qed
  define add where "add = (drop_bit 10 a AND 1) + (push_bit (10 - 1) 1 - 1)"
  have add: "unat add = Q mod 2 + 511"
    by (simp add: add_def unat_add odd)
  have "Q mod 2 + 511 < 2 ^ 63"
    by (rule less_trans [of _ "2 + 511"]) simp_all
  with assms have "unat a + (Q mod 2 + 511) < 2 ^ 63 + 2 ^ 63"
    by (rule add_less_mono)
  then have "unat a + (Q mod 2 + 511) < 2 ^ 64"
    by simp
  then have "unat (shr_rndn a 10) = (1024 * Q + (R + (Q mod 2 + 511))) div 1024"
    unfolding shr_rndn_def Let_def add_def [symmetric] unat_drop_bit by (simp add: unat_add add a)
  also have "\<dots> = Q + (R + (Q mod 2 + 511)) div 1024"
    by simp
  also have "\<dots> = round_even (unat a) 10"
    using R by (cases "even Q") (auto simp: round_even_def Let_def Q_def [symmetric] R_def [symmetric] odd_iff_mod_2_eq_one)
  finally show ?thesis .
qed
section \<open>Conversion to a double\<close>

lemma sticky_0 [simp]: "sticky n 0 = n"
  by (simp add: sticky_def)

lemma lead64_sticky: "lead64 n = (if floor_log2 n \<le> 63 then n * 2 ^ (63 - floor_log2 n) else sticky n (floor_log2 n - 63))"
  by (simp add: lead64_def sticky_def Let_def)

lemma lead64_less: "0 < n \<Longrightarrow> lead64 n < 2 ^ 64"
proof -
  assume pos: "0 < n"
  let ?e = "floor_log2 n"
  note b = floor_log2_bounds(2) [OF pos]
  show ?thesis
  proof (cases "?e \<le> 63")
    case True
    have "n * 2 ^ (63 - ?e) < 2 ^ Suc ?e * 2 ^ (63 - ?e)"
      using b by (intro mult_strict_right_mono) simp_all
    also have "\<dots> = 2 ^ (Suc ?e + (63 - ?e))"
      by (simp only: power_add)
    also have "Suc ?e + (63 - ?e) = 64"
      using True by simp
    finally show ?thesis
      using True by (simp add: lead64_sticky)
  next
    case False
    have e: "Suc ?e = 64 + (?e - 63)"
      using False by simp
    have "n < 2 ^ 64 * 2 ^ (?e - 63)"
      using b unfolding e power_add .
    then have "n div 2 ^ (?e - 63) < 2 ^ 64"
      by (rule less_mult_imp_div_less)
    then have "sticky n (?e - 63) < 2 ^ 64"
      unfolding sticky_def by (rule or_bool_less) simp
    then show ?thesis
      using False by (simp add: lead64_sticky)
  qed
qed

text \<open>The mantissa of 53 bits, rounded from the 64 leading bits.\<close>

lemma round_lead64:
  assumes "0 < n"
  defines "e \<equiv> floor_log2 n"
  shows "round_even (sticky (lead64 n) 1) 10 = (if e \<le> 52 then n * 2 ^ (52 - e) else round_even n (e - 52))"
proof -
  have r: "round_even (sticky (lead64 n) 1) 10 = round_even (lead64 n) 11"
    using round_even_sticky [of 10 "lead64 n" 1] by simp
  consider "e \<le> 52" | "52 < e" "e \<le> 63" | "63 < e"
    by linarith
  then show ?thesis
  proof cases
    case 1
    have p: "63 - e = (52 - e) + 11"
      using 1 by simp
    have "lead64 n = n * 2 ^ (52 - e) * 2 ^ 11"
      using 1 by (simp only: lead64_sticky e_def [symmetric] p power_add mult.assoc) simp
    then show ?thesis
      using 1 r round_even_shifted [of "n * 2 ^ (52 - e)" 11 0] by (simp only: add_0_right round_even_0 if_True)
  next
    case 2
    have "63 - e + (e - 52) = 11"
      using 2 by simp
    then show ?thesis
      using 2 r round_even_shifted [of n "63 - e" "e - 52"] by (simp add: lead64_sticky e_def [symmetric])
  next
    case 3
    have "e - 63 + 11 = e - 52"
      using 3 by simp
    then show ?thesis
      using 3 r round_even_sticky [of 11 n "e - 63"] by (simp add: lead64_sticky e_def [symmetric])
  qed
qed

lemma mantissa_bounds:
  assumes "0 < n"
  defines "e \<equiv> floor_log2 n"
  defines "m \<equiv> (if e \<le> 52 then n * 2 ^ (52 - e) else round_even n (e - 52))"
  shows "2 ^ 52 \<le> m" and "m \<le> 2 ^ 53"
proof -
  note b = floor_log2_bounds [OF assms(1), folded e_def]
  have "2 ^ 52 \<le> m \<and> m \<le> 2 ^ 53"
  proof (cases "e \<le> 52")
    case True
    then have p: "(2 :: nat) ^ 52 = 2 ^ e * 2 ^ (52 - e)" "(2 :: nat) ^ 53 = 2 ^ Suc e * 2 ^ (52 - e)"
      by (simp_all flip: power_add power_Suc)
    show ?thesis
      unfolding p using b True by (simp only: m_def if_True mult_le_mono1 less_imp_le simp_thms)
  next
    case False
    define k where "k = e - 52"
    have k: "e = 52 + k"
      using False by (simp add: k_def)
    have "2 ^ 52 * 2 ^ k \<le> n" "n < 2 ^ 53 * 2 ^ k"
      using b by (simp_all add: k power_add)
    then have "2 ^ 52 \<le> n div 2 ^ k" "n div 2 ^ k < 2 ^ 53"
      by (simp_all only: less_eq_div_iff_mult_less_eq less_mult_imp_div_less zero_less_power zero_less_numeral)
    then show ?thesis
      using False by (auto simp: m_def k_def [symmetric] round_even_def Let_def)
  qed
  then show "2 ^ 52 \<le> m" "m \<le> 2 ^ 53"
    by simp_all
qed
text \<open>The pattern is put together from fields that do not overlap.\<close>

lemma pattern_fields:
  assumes "unat s \<le> 1" and "x < 2 ^ 11" and "unat m < 2 ^ 52"
  shows "unat (push_bit 63 s OR push_bit 52 (of_nat x) OR (m :: u64)) = unat s * 2 ^ 63 + (x * 2 ^ 52 + unat m)"
proof -
  have x: "unat (of_nat x :: u64) = x"
    using assms(2) by (simp add: unat_of_nat)
  have a: "unat (push_bit 52 (of_nat x) OR m) = x * 2 ^ 52 + unat m"
    using unat_or_disjoint' [OF assms(3), of "of_nat x"] assms(2,3) by (simp add: x)
  then have "unat (push_bit 52 (of_nat x) OR m) < 2 ^ 63"
    using assms(2,3) by simp
  from unat_or_disjoint' [OF this, of s] show ?thesis
    using assms a by simp
qed

lemma f64_nearest_less: "f64_nearest n < 2 ^ 63"
proof (cases "n = 0 \<or> 1023 < floor_log2 n")
  case True
  then show ?thesis
    by (auto simp: f64_nearest_def f64_infinity_def)
next
  case False
  then have pos: "0 < n" and e: "floor_log2 n \<le> 1023"
    by simp_all
  have "(floor_log2 n + 1023) * 2 ^ 52 \<le> (1023 + 1023) * 2 ^ 52"
    using e by simp
  then show ?thesis
    using False mantissa_bounds(2) [OF pos] by (simp add: f64_nearest_def Let_def)
qed

lemma js_bigint_to_float64_correct:
  assumes "normal (tab a)"
  shows "js_bigint_to_float64 a = f64_round (ival (tab a))"
proof (cases "len a = 1")
  case True
  then obtain v where "tab a = [v]"
    by (cases "tab a") auto
  then show ?thesis
    by (simp add: js_bigint_to_float64_def ival_single)
next
  case long: False
  have nz: "ival (tab a) \<noteq> 0"
    using normal_zero [OF assms] long by auto
  define n where "n = nat \<bar>ival (tab a)\<bar>"
  define e where "e = floor_log2 n"
  have pos: "0 < n"
    using nz by (simp add: n_def)
  obtain mant f where me: "js_bigint_get_mant_exp a = (mant, f)"
    by (cases "js_bigint_get_mant_exp a")
  have mant: "unat mant = lead64 n" and f: "f = int e"
    using js_bigint_get_mant_exp_correct [OF assms nz] me by (simp_all add: n_def e_def)
  define s where "s = js_bigint_sign a"
  have s: "unat s = of_bool (ival (tab a) < 0)"
    using ival_sign_iff [of "tab a"] assms by (simp add: s_def js_bigint_sign_def limb_sign_bit normal_def)
  have goal: "js_bigint_to_float64 a = of_nat ((if ival (tab a) < 0 then 2 ^ 63 else 0) + f64_nearest n)"
    if "js_bigint_to_float64 a = push_bit 63 s OR push_bit 52 (of_nat x) OR m" "x < 2 ^ 11" "unat m < 2 ^ 52"
      "x * 2 ^ 52 + unat m = f64_nearest n" for x m
  proof -
    have "unat (js_bigint_to_float64 a) = unat s * 2 ^ 63 + f64_nearest n"
      unfolding that(1) using pattern_fields [of s x m] that(2-4) s by simp
    moreover have "js_bigint_to_float64 a = of_nat (unat (js_bigint_to_float64 a))"
      by simp
    ultimately have "js_bigint_to_float64 a = of_nat (unat s * 2 ^ 63 + f64_nearest n)"
      by (simp only:)
    then show ?thesis
      by (simp add: s)
  qed
  show ?thesis
    unfolding f64_round_def n_def [symmetric]
  proof (cases "e > 1023")
    case True
    then have "js_bigint_to_float64 a = push_bit 63 s OR push_bit 52 (of_nat 2047) OR 0"
      using long me f by (simp add: js_bigint_to_float64_def s_def [symmetric])
    moreover have "f64_nearest n = f64_infinity"
      using True pos by (simp add: f64_nearest_def e_def)
    ultimately show "js_bigint_to_float64 a = of_nat ((if ival (tab a) < 0 then 2 ^ 63 else 0) + f64_nearest n)"
      by (intro goal [of 2047 0]) (simp_all add: f64_infinity_def)
  next
    case False
    define m1 where "m1 = drop_bit 1 mant OR (mant AND 1)"
    define m2 where "m2 = shr_rndn m1 10"
    have "unat (mant AND 1) = unat mant mod 2"
    proof -
      have "mant AND 1 = take_bit 1 mant"
        by (simp add: take_bit_eq_mask)
      then show ?thesis
        by (simp only: unat_take_bit) simp
    qed
    then have m1: "unat m1 = sticky (lead64 n) 1"
    proof -
      have "unat m1 = unat (drop_bit 1 mant) OR unat (mant AND 1)"
        unfolding m1_def by (rule unsigned_or_eq)
      then show ?thesis
        using \<open>unat (mant AND 1) = unat mant mod 2\<close> mant by (simp add: unat_drop_bit sticky_def mod2_eq_if)
    qed
    have "unat m1 < 2 ^ 63"
    proof -
      have "lead64 n div 2 ^ 1 < 2 ^ 63"
        using lead64_less [OF pos] by (simp add: less_mult_imp_div_less)
      then show ?thesis
        unfolding m1 sticky_def by (rule or_bool_less) simp
    qed
    then have m2: "unat m2 = (if e \<le> 52 then n * 2 ^ (52 - e) else round_even n (e - 52))"
      unfolding m2_def using shr_rndn_correct [of m1] m1 round_lead64 [OF pos] by (simp add: e_def)
    note mb = mantissa_bounds [OF pos, folded e_def, folded m2]
    have near: "f64_nearest n = (e + 1023) * 2 ^ 52 + (unat m2 - 2 ^ 52)"
      using False pos m2 by (simp add: f64_nearest_def e_def Let_def)
    have mask: "x AND (push_bit 52 1 - 1) = take_bit 52 x" for x :: u64
      by (simp add: take_bit_eq_mask mask_eq_exp_minus_1)
    define ov where "ov = (m2 \<ge> push_bit 53 1)"
    have ov: "ov \<longleftrightarrow> unat m2 = 2 ^ 53"
      using mb by (auto simp: ov_def word_le_nat_alt)
    define m3 where "m3 = take_bit 52 (if ov then drop_bit 1 m2 else m2)"
    have unf: "js_bigint_to_float64 a = push_bit 63 s OR push_bit 52 (of_nat (e + 1023 + of_bool ov)) OR m3"
      unfolding js_bigint_to_float64_def Let_def s_def [symmetric] me prod.case m1_def [symmetric] m2_def [symmetric]
        ov_def [symmetric] f mask m3_def using long False by (cases ov) (simp_all add: add_ac)
    have "unat m3 = unat m2 - 2 ^ 52 - of_bool ov * 2 ^ 52"
      using mb ov by (cases ov) (simp_all add: m3_def unat_take_bit unat_drop_bit mod_if)
    then show "js_bigint_to_float64 a = of_nat ((if ival (tab a) < 0 then 2 ^ 63 else 0) + f64_nearest n)"
      using False mb ov near by (intro goal [OF unf]) (cases ov; simp add: algebra_simps)+
  qed
qed

section \<open>Conversion from a double\<close>

text \<open>The fields as the source extracts them.\<close>

lemma f64_fields:
  shows "uint (drop_bit 52 (d :: f64) AND (push_bit 11 1 - 1)) = int (f64_exp d)"
    and "unat (d AND (push_bit 52 1 - 1)) = f64_mant d"
    and "f64_mant d < 2 ^ 52" and "drop_bit 63 d = limb_of_bool (f64_sign d)"
proof -
  show "uint (drop_bit 52 (d :: f64) AND (push_bit 11 1 - 1)) = int (f64_exp d)"
    by (simp add: f64_exp_def)
  show "unat (d AND (push_bit 52 1 - 1)) = f64_mant d"
    by (simp add: f64_mant_def)
  show "f64_mant d < 2 ^ 52"
    by (rule f64_mant_less)
  show "drop_bit 63 d = limb_of_bool (f64_sign d)"
    by (simp add: f64_sign_def limb_sign_bit)
qed

lemma f64_significand: "unat ((d AND (push_bit 52 1 - 1)) OR push_bit 52 1 :: f64) = 2 ^ 52 + f64_mant d"
  using unat_or_disjoint [of "d AND (push_bit 52 1 - 1)" 52 1] f64_fields(2,3) [of d] by simp

lemma f64_mag_normal:
  assumes "0 < f64_exp d"
  shows "f64_mag d = (2 ^ 52 + f64_mant d) * 2 ^ (f64_exp d - 1)"
  using assms by (simp add: f64_mag_def)

text \<open>The three ranges of the exponent.\<close>

lemma f64_mag_fraction:
  assumes "f64_exp d < 1023" and "f64_mag d \<noteq> 0"
  shows "\<not> 2 ^ 1074 dvd f64_mag d"
proof -
  have "f64_mag d < 2 ^ 1074"
  proof (cases "f64_exp d = 0")
    case True
    have "f64_mag d = f64_mant d"
      using True by (simp add: f64_mag_def)
    then have "f64_mag d < 2 ^ 52"
      using f64_fields(3) [of d] by simp
    also have "(2 :: nat) ^ 52 \<le> 2 ^ 1074"
      by (rule power_increasing) simp_all
    finally show ?thesis .
  next
    case False
    have "f64_mag d < 2 ^ 53 * 2 ^ (f64_exp d - 1)"
      using False f64_fields(3) [of d] by (simp add: f64_mag_def)
    also have "\<dots> = 2 ^ (53 + (f64_exp d - 1))"
      by (simp only: power_add)
    also have "\<dots> \<le> 2 ^ 1074"
      using assms(1) by (intro power_increasing) simp_all
    finally show ?thesis .
  qed
  then show ?thesis
    using assms(2) nat_dvd_not_less by blast
qed

lemma f64_mag_middle:
  assumes "f64_exp d = 1023 + k" and "k \<le> 52"
  shows "f64_mag d = (2 ^ 52 + f64_mant d) * 2 ^ (1022 + k)"
    and "2 ^ 1074 dvd f64_mag d \<longleftrightarrow> (2 ^ 52 + f64_mant d) mod 2 ^ (52 - k) = 0"
    and "(2 ^ 52 + f64_mant d) mod 2 ^ (52 - k) = 0 \<Longrightarrow> f64_mag d = (2 ^ 52 + f64_mant d) div 2 ^ (52 - k) * 2 ^ 1074"
proof -
  show m: "f64_mag d = (2 ^ 52 + f64_mant d) * 2 ^ (1022 + k)"
    using assms(1) by (simp add: f64_mag_def add.commute)
  have p: "(2 :: nat) ^ 1074 = 2 ^ (52 - k) * 2 ^ (1022 + k)"
    unfolding power_add [symmetric] using assms(2) by simp
  show "2 ^ 1074 dvd f64_mag d \<longleftrightarrow> (2 ^ 52 + f64_mant d) mod 2 ^ (52 - k) = 0"
    unfolding m p by (simp add: dvd_eq_mod_eq_0 [symmetric] del: power_add)
  show "f64_mag d = (2 ^ 52 + f64_mant d) div 2 ^ (52 - k) * 2 ^ 1074" if "(2 ^ 52 + f64_mant d) mod 2 ^ (52 - k) = 0"
    unfolding m p mult.assoc [symmetric] using that by (simp only: dvd_div_mult_self dvd_eq_mod_eq_0)
qed

end
