(* ===== verification/BigInt_FromFloat.thy ===== *)
theory BigInt_FromFloat
  imports BigInt_Float
begin

text \<open>
  The conversion of a double to a BigInt (\<open>js_bigint_from_float64\<close>) and the comparison of a BigInt with a
  double (\<open>js_bigint_float64_cmp\<close>), against the exact values. The conversion is exact and rejects what is
  not an integer. The comparison is exact, except for two negative operands of different exponents, where
  the source returns the opposite answer: \<open>cmp_swapped\<close> is that case.
\<close>
unbundle bit_operations_syntax

lemma returns_mono:
  assumes "returns n z c res" and "n \<le> m"
  shows "returns m z c res"
proof (cases res)
  case (Pair r c')
  then show ?thesis
    using assms by (cases r) (auto simp: fails_def)
qed

text \<open>The unshifted significand, negated for a negative double, is one limb.\<close>

lemma signed_limb_value:
  assumes "unat m = n" and "n < 2 ^ 63"
  shows "sint (if s then - m else m :: u64) = (if s then - int n else int n)"
proof (cases "s \<and> n \<noteq> 0")
  case True
  have "unat (- m) = 2 ^ 64 - n"
    using True assms unat_minus [of 0 m] by (auto simp: word_le_nat_alt)
  then show ?thesis
    using True assms limb_msb [of "- m"] by (simp add: sint_limb limb_base_def)
next
  case False
  moreover have "m = 0" if "n = 0"
    using that assms(1) by (simp add: unsigned_eq_0_iff)
  ultimately show ?thesis
    using assms limb_msb [of m] by (auto simp: sint_limb)
qed

lemma js_bigint_from_float64_special:
  shows "\<not> f64_finite d \<Longrightarrow> js_bigint_from_float64 d c = (2, None, c)"
    and "f64_mag d = 0 \<Longrightarrow> js_bigint_from_float64 d c = (0, js_bigint_new_si 0 c)"
    and "f64_mag d \<noteq> 0 \<Longrightarrow> f64_exp d < 1023 \<Longrightarrow> js_bigint_from_float64 d c = (1, None, c)"
proof -
  have z: "d AND (push_bit 52 1 - 1) = 0 \<longleftrightarrow> f64_mant d = 0"
    unfolding f64_fields(2) [symmetric] unsigned_eq_0_iff ..
  have mag: "f64_mag d = 0 \<longleftrightarrow> f64_exp d = 0 \<and> f64_mant d = 0"
    by (simp add: f64_mag_def)
  show "\<not> f64_finite d \<Longrightarrow> js_bigint_from_float64 d c = (2, None, c)"
    unfolding js_bigint_from_float64_def Let_def f64_fields(1) f64_finite_def by simp
  show "f64_mag d = 0 \<Longrightarrow> js_bigint_from_float64 d c = (0, js_bigint_new_si 0 c)"
    unfolding js_bigint_from_float64_def Let_def f64_fields(1) z mag by simp
  show "f64_mag d \<noteq> 0 \<Longrightarrow> f64_exp d < 1023 \<Longrightarrow> js_bigint_from_float64 d c = (1, None, c)"
    unfolding js_bigint_from_float64_def Let_def f64_fields(1) z mag by auto
qed

lemma js_bigint_from_float64_large:
  assumes "f64_exp d = 1023 + k" and "k < 1024"
  shows "js_bigint_from_float64 d c =
     (let m = (d AND (push_bit 52 1 - 1)) OR push_bit 52 1
      in if k < 52 \<and> m AND (push_bit (52 - k) 1 - 1) \<noteq> 0 then (1, None, c)
         else let (m, e) = if k < 52 then (drop_bit (52 - k) m, 0) else (m, k - 52)
              in (0, js_bigint_shl (js_bigint_set_si64 (if f64_sign d then - m else m)) e c))"
proof -
  have n: "nat (52 - int k) = 52 - k" "nat (int k - 52) = k - 52"
    by simp_all
  show ?thesis
    unfolding js_bigint_from_float64_def Let_def f64_fields(1,4) assms(1)
    using assms(2) by (simp add: n limb_of_bool_def)
qed


text \<open>The mask that tests for a fractional part.\<close>

lemma mask_zero: "(m :: u64) AND (push_bit j 1 - 1) = 0 \<longleftrightarrow> unat m mod 2 ^ j = 0"
proof -
  have "m AND (push_bit j 1 - 1) = take_bit j m"
    by (simp add: take_bit_eq_mask mask_eq_exp_minus_1 push_bit_eq_mult)
  moreover have "unat (take_bit j m) = unat m mod 2 ^ j"
    unfolding unsigned_take_bit_eq by (rule take_bit_eq_mod)
  ultimately show ?thesis
    using unsigned_eq_0_iff [of "take_bit j m"] by metis
qed

lemma f64_units_dvd: "(p :: int) dvd f64_units d \<longleftrightarrow> p dvd int (f64_mag d)"
  by (simp add: f64_units_def)

lemma units_dvd_mag: "2 ^ 1074 dvd f64_units d \<longleftrightarrow> 2 ^ 1074 dvd f64_mag d"
proof -
  have "(2 :: int) ^ 1074 = int (2 ^ 1074)"
    by (simp only: of_nat_power of_nat_numeral)
  then show ?thesis
    by (simp only: f64_units_dvd of_nat_dvd_iff)
qed

lemma js_bigint_from_float64_exact:
  assumes e: "f64_exp d = 1023 + k" "k < 1024" and z: "f64_units d = z * 2 ^ 1074"
  shows "fst (js_bigint_from_float64 d c) = 0" and "returns 16 z c (snd (js_bigint_from_float64 d c))"
proof -
  define m where "m = ((d AND (push_bit 52 1 - 1)) OR push_bit 52 1 :: f64)"
  define n where "n = 2 ^ 52 + f64_mant d"
  have m: "unat m = n" and n: "n < 2 ^ 53"
    using f64_significand [of d] f64_fields(3) [of d] by (simp_all add: m_def n_def)
  have p: "(2 :: int) ^ 1074 \<noteq> 0"
    by simp
  have shl: "returns 16 z c (js_bigint_shl (js_bigint_set_si64 (if f64_sign d then - m' else m')) j c)"
    if "unat m' = n'" "n' < 2 ^ 63" "n' * 2 ^ j * 2 ^ 1074 = f64_mag d" "j < 972" for m' n' j
  proof -
    let ?a = "js_bigint_set_si64 (if f64_sign d then - m' else m')"
    have "ival (tab ?a) * 2 ^ j * 2 ^ 1074 = f64_units d"
      unfolding f64_units_def that(3) [symmetric] js_bigint_set_si64_def js_bigint_set_si_def
      using signed_limb_value [OF that(1,2), of "f64_sign d"] by (simp add: ival_single split: if_splits)
    then have v: "ival (tab ?a) * 2 ^ j = z"
      unfolding z using p by (simp only: mult_cancel_right) blast
    have "normal (tab ?a)" "len ?a = 1"
      by (simp_all add: js_bigint_set_si64_def js_bigint_set_si_def)
    then have "returns (1 + j div 64) z c (js_bigint_shl ?a j c)"
      using js_bigint_shl_returns [of ?a j c] v by simp
    then show ?thesis
      by (rule returns_mono) (use that(4) in simp)
  qed
  have res: "fst (js_bigint_from_float64 d c) = 0 \<and> returns 16 z c (snd (js_bigint_from_float64 d c))"
  proof (cases "k < 52")
    case True
    have "2 ^ 1074 dvd f64_mag d"
      unfolding units_dvd_mag [symmetric] z by (rule dvd_triv_right)
    then have r: "n mod 2 ^ (52 - k) = 0" and q: "f64_mag d = n div 2 ^ (52 - k) * 2 ^ 1074"
      using f64_mag_middle [OF e(1)] True by (simp_all add: n_def)
    have "n div 2 ^ (52 - k) \<le> n"
      by simp
    then have "n div 2 ^ (52 - k) < 2 ^ 63"
      by (rule le_less_trans [OF _ less_trans [OF n]]) simp
    then have "returns 16 z c (js_bigint_shl (js_bigint_set_si64 (if f64_sign d then - drop_bit (52 - k) m else drop_bit (52 - k) m)) 0 c)"
      by (intro shl [of _ "n div 2 ^ (52 - k)"]) (simp_all add: q unat_drop_bit m)
    moreover have "m AND (push_bit (52 - k) 1 - 1) = 0"
      using mask_zero [of m "52 - k"] r m by simp
    ultimately show ?thesis
      unfolding js_bigint_from_float64_large [OF e] m_def [symmetric] Let_def using True by simp
  next
    case False
    have "returns 16 z c (js_bigint_shl (js_bigint_set_si64 (if f64_sign d then - m else m)) (k - 52) c)"
    proof (rule shl [OF m])
      have "n * 2 ^ (k - 52) * 2 ^ 1074 = n * 2 ^ (1022 + k)"
        unfolding mult.assoc power_add [symmetric] using False by simp
      then show "n * 2 ^ (k - 52) * 2 ^ 1074 = f64_mag d"
        using e(1) by (simp add: f64_mag_def n_def add.commute)
    qed (use n e(2) False in simp_all)
    then show ?thesis
      unfolding js_bigint_from_float64_large [OF e] m_def [symmetric] Let_def using False by simp
  qed
  then show "fst (js_bigint_from_float64 d c) = 0" and "returns 16 z c (snd (js_bigint_from_float64 d c))"
    by blast+
qed


text \<open>The three results of the conversion.\<close>

lemma f64_exp_finite: "f64_finite d \<Longrightarrow> f64_exp d < 2047"
  using f64_exp_less [of d] by (simp add: f64_finite_def)

lemma f64_units_zero: "f64_units d = 0 \<longleftrightarrow> f64_mag d = 0"
  by (simp add: f64_units_def)

lemma js_bigint_from_float64_fraction:
  assumes "f64_finite d" and "\<not> 2 ^ 1074 dvd f64_units d"
  shows "js_bigint_from_float64 d c = (1, None, c)"
proof (cases "f64_exp d < 1023")
  case True
  have "f64_mag d \<noteq> 0"
  proof
    assume "f64_mag d = 0"
    then show False
      using assms(2) f64_units_zero [of d] by (simp only: dvd_0_right) simp
  qed
  then show ?thesis
    using True by (rule js_bigint_from_float64_special(3))
next
  case False
  then obtain k where k: "f64_exp d = 1023 + k"
    using le_Suc_ex [of 1023 "f64_exp d"] by auto
  have "k < 1024"
    using f64_exp_finite [OF assms(1)] k by simp
  note large = js_bigint_from_float64_large [OF k this]
  have "2 ^ 1074 dvd f64_mag d" if "52 \<le> k"
  proof -
    have "(2 :: nat) ^ 1074 dvd 2 ^ (f64_exp d - 1)"
      by (rule le_imp_power_dvd) (use that k in simp)
    then show ?thesis
      unfolding f64_mag_normal [of d, unfolded k, OF zero_less_numeral [THEN trans_less_add1]] k by (rule dvd_mult)
  qed
  then have lt: "k < 52"
    using assms(2) unfolding units_dvd_mag by (meson not_le)
  have "(2 ^ 52 + f64_mant d) mod 2 ^ (52 - k) \<noteq> 0"
    using assms(2) f64_mag_middle(2) [OF k] lt by (simp only: units_dvd_mag) simp
  then have "((d AND (push_bit 52 1 - 1)) OR push_bit 52 1) AND (push_bit (52 - k) 1 - 1) \<noteq> 0"
    unfolding mask_zero f64_significand .
  then show ?thesis
    using lt by (simp only: large Let_def simp_thms if_True not_False_eq_True)
qed

lemma js_bigint_from_float64_integer:
  assumes "f64_finite d" and "f64_units d = z * 2 ^ 1074"
  shows "fst (js_bigint_from_float64 d c) = 0" and "returns 16 z c (snd (js_bigint_from_float64 d c))"
proof -
  have "fst (js_bigint_from_float64 d c) = 0 \<and> returns 16 z c (snd (js_bigint_from_float64 d c))"
  proof (cases "f64_mag d = 0")
    case True
    then have "z = 0"
      using assms(2) f64_units_zero [of d] by (simp only: mult_eq_0_iff) simp
    moreover have "returns 16 (ival [0]) c (js_bigint_new_si 0 c)"
      unfolding js_bigint_new_si_def by (rule js_bigint_new_with_returns) simp_all
    ultimately show ?thesis
      using js_bigint_from_float64_special(2) [OF True, of c] by (simp add: ival_single)
  next
    case False
    have "2 ^ 1074 dvd f64_mag d"
      unfolding units_dvd_mag [symmetric] assms(2) by (rule dvd_triv_right)
    then have "1023 \<le> f64_exp d"
      using f64_mag_fraction [OF _ False] by (meson not_le)
    then obtain k where k: "f64_exp d = 1023 + k"
      using le_Suc_ex by blast
    have "k < 1024"
      using f64_exp_finite [OF assms(1)] k by simp
    then show ?thesis
      using js_bigint_from_float64_exact [OF k _ assms(2)] by blast
  qed
  then show "fst (js_bigint_from_float64 d c) = 0" and "returns 16 z c (snd (js_bigint_from_float64 d c))"
    by blast+
qed


section \<open>Comparison with a double\<close>

lemma int_cmp_scale: "0 < p \<Longrightarrow> int_cmp (x * p) (y * p) = int_cmp x y"
  by (simp add: int_cmp_def)

lemma int_cmp_cong: "(x < y \<longleftrightarrow> x' < y') \<Longrightarrow> (x = y \<longleftrightarrow> x' = y') \<Longrightarrow> int_cmp x y = int_cmp x' y'"
  unfolding int_cmp_def by (cases x y rule: linorder_cases; cases x' y' rule: linorder_cases) auto

text \<open>Against an even number, the sticky bit decides like the bits that it stands for.\<close>

lemma int_cmp_sticky:
  assumes "even E"
  shows "int_cmp (int (sticky n k)) (int E) = int_cmp (int n) (int (E * 2 ^ k))"
proof -
  define q r where "q = n div 2 ^ k" and "r = n mod 2 ^ k"
  have n: "n = q * 2 ^ k + r"
    unfolding q_def r_def by (rule div_mult_mod_eq [symmetric])
  have st: "sticky n k = (if r \<noteq> 0 \<and> even q then q + 1 else q)"
    using or_one [of q] by (simp add: sticky_def q_def r_def)
  have less: "n < E * 2 ^ k \<longleftrightarrow> q < E"
    using div_less_iff_less_mult [of "2 ^ k" n E] by (simp add: q_def)
  have eq: "n = E * 2 ^ k \<longleftrightarrow> q = E \<and> r = 0"
  proof
    show "q = E \<and> r = 0" if "n = E * 2 ^ k"
      using that by (simp add: q_def r_def)
  qed (simp add: n)
  have "sticky n k < E \<longleftrightarrow> q < E"
    unfolding st using assms by (auto elim!: evenE)
  moreover have "sticky n k = E \<longleftrightarrow> q = E \<and> r = 0"
    unfolding st using assms by (cases "even q") auto
  ultimately show ?thesis
    using less eq by (intro int_cmp_cong) (simp_all only: of_nat_less_iff of_nat_eq_iff)
qed


text \<open>The comparison of a positive number with a magnitude, by exponent and leading bits.\<close>

definition mag_cmp :: "nat \<Rightarrow> f64 \<Rightarrow> int" where
  "mag_cmp n d = int_cmp (int n * 2 ^ 1074) (int (f64_mag d))"

lemma mag_cmp_nat: "mag_cmp n d = int_cmp (int (n * 2 ^ 1074)) (int (f64_mag d))"
  unfolding mag_cmp_def by (simp only: of_nat_mult of_nat_power of_nat_numeral)

lemma mag_cmp_less:
  assumes n: "0 < n" and k: "1023 + floor_log2 n < f64_exp d"
  shows "mag_cmp n d = - 1"
proof -
  let ?f = "floor_log2 n"
  have "n * 2 ^ 1074 < 2 ^ Suc ?f * 2 ^ 1074"
    using floor_log2_bounds(2) [OF n] by (rule mult_strict_right_mono) simp
  also have "\<dots> = 2 ^ (1075 + ?f)"
    unfolding power_add [symmetric] by simp
  also have "\<dots> \<le> 2 ^ (52 + (f64_exp d - 1))"
    by (rule power_increasing) (use k in simp_all)
  also have "\<dots> \<le> (2 ^ 52 + f64_mant d) * 2 ^ (f64_exp d - 1)"
    unfolding power_add by (rule mult_right_mono) simp_all
  also have "\<dots> = f64_mag d"
    using f64_mag_normal [of d] k by simp
  finally show ?thesis
    unfolding mag_cmp_nat int_cmp_def of_nat_less_iff by (simp only: if_True)
qed

lemma f64_mag_less: "f64_mag d < 2 ^ (53 + (f64_exp d - 1))"
proof (cases "f64_exp d = 0")
  case True
  then have "f64_mag d < 2 ^ 52"
    using f64_fields(3) [of d] by (simp add: f64_mag_def)
  then show ?thesis
    using True by simp
next
  case False
  then show ?thesis
    unfolding power_add using f64_fields(3) [of d] by (simp add: f64_mag_def)
qed

lemma mag_cmp_greater:
  assumes n: "0 < n" and k: "f64_exp d < 1023 + floor_log2 n"
  shows "mag_cmp n d = 1"
proof -
  let ?f = "floor_log2 n"
  note f64_mag_less
  also have "(2 :: nat) ^ (53 + (f64_exp d - 1)) \<le> 2 ^ (?f + 1074)"
    by (rule power_increasing) (use k in simp_all)
  also have "\<dots> \<le> n * 2 ^ 1074"
    unfolding power_add using floor_log2_bounds(1) [OF n] by (rule mult_right_mono) simp
  finally have "f64_mag d < n * 2 ^ 1074" .
  then show ?thesis
    unfolding mag_cmp_nat int_cmp_def of_nat_less_iff by (simp only: if_True less_not_sym if_False)
qed

lemma mag_cmp_equal:
  assumes k: "f64_exp d = 1023 + floor_log2 n"
  shows "mag_cmp n d = int_cmp (int (lead64 n)) (int ((2 ^ 52 + f64_mant d) * 2 ^ 11))"
proof -
  define M where "M = 2 ^ 52 + f64_mant d"
  let ?f = "floor_log2 n"
  note scale = of_nat_mult int_cmp_scale zero_less_power zero_less_numeral of_nat_power of_nat_numeral
  have mag: "f64_mag d = M * 2 ^ (1022 + ?f)"
    using f64_mag_normal [of d] k by (simp add: M_def add.commute)
  show ?thesis
    unfolding M_def [symmetric]
  proof (cases "?f \<le> 63")
    case True
    have "M * 2 ^ (1022 + ?f) = M * 2 ^ 11 * 2 ^ (1011 + ?f)" "n * 2 ^ 1074 = n * 2 ^ (63 - ?f) * 2 ^ (1011 + ?f)"
      unfolding mult.assoc power_add [symmetric] using True by simp_all
    then have "mag_cmp n d = int_cmp (int (n * 2 ^ (63 - ?f))) (int (M * 2 ^ 11))"
      unfolding mag_cmp_nat mag by (simp only: scale)
    then show "mag_cmp n d = int_cmp (int (lead64 n)) (int (M * 2 ^ 11))"
      unfolding lead64_sticky using True by (simp only: if_True)
  next
    case False
    have "M * 2 ^ (1022 + ?f) = M * 2 ^ 11 * 2 ^ (?f - 63) * 2 ^ 1074"
      unfolding mult.assoc power_add [symmetric] using False by simp
    then have "mag_cmp n d = int_cmp (int n) (int (M * 2 ^ 11 * 2 ^ (?f - 63)))"
      unfolding mag_cmp_nat mag by (simp only: scale)
    also have "\<dots> = int_cmp (int (sticky n (?f - 63))) (int (M * 2 ^ 11))"
      by (rule int_cmp_sticky [symmetric]) simp
    finally show "mag_cmp n d = int_cmp (int (lead64 n)) (int (M * 2 ^ 11))"
      unfolding lead64_sticky using False by (simp only: if_False)
  qed
qed

text \<open>The branches of the source, with the fields and the leading bits read as numbers.\<close>

lemma unat_push_bit_small:
  assumes "unat (x :: u64) = n" and "n * 2 ^ k < 2 ^ 64"
  shows "unat (push_bit k x) = n * 2 ^ k"
proof -
  have "unat (push_bit k x) = take_bit 64 (push_bit k (unat x))"
    by (simp add: unsigned_push_bit_eq)
  then show ?thesis
    using assms by (simp only: take_bit_eq_mod push_bit_eq_mult mod_less)
qed

lemma js_bigint_float64_cmp_branches:
  assumes a: "normal (tab a)"
  defines "z \<equiv> ival (tab a)"
  defines "n \<equiv> nat \<bar>z\<bar>"
  shows "js_bigint_float64_cmp a b =
    (if f64_is_nan b then 2
     else if f64_is_inf b then (if f64_sign b then 1 else - 1)
     else if f64_mag b = 0 then int_cmp z 0
     else if z = 0 then (if f64_sign b then 1 else - 1)
     else if (z < 0) \<noteq> f64_sign b then (if z < 0 then - 1 else 1)
     else if 1023 + floor_log2 n < f64_exp b then - 1
     else if f64_exp b < 1023 + floor_log2 n then 1
     else if z < 0 then - mag_cmp n b else mag_cmp n b)"
proof -
  define s where "s = (z < 0)"
  have ne: "tab a \<noteq> []"
    using a by (simp add: normal_def)
  have zero: "len a = 1 \<and> hd (tab a) = 0 \<longleftrightarrow> z = 0"
    using normal_zero [OF a] unfolding z_def by (cases "tab a") auto
  have sgn_a: "js_bigint_sign a = limb_of_bool s"
    using ival_sign_iff [OF ne] by (simp add: js_bigint_sign_def limb_sign_bit s_def z_def)
  have mz: "b AND (push_bit 52 1 - 1) = 0 \<longleftrightarrow> f64_mant b = 0"
    unfolding f64_fields(2) [symmetric] unsigned_eq_0_iff ..
  have mag: "f64_exp b = 0 \<and> f64_mant b = 0 \<longleftrightarrow> f64_mag b = 0"
    by (simp add: f64_mag_def)
  obtain am f where g: "js_bigint_get_mant_exp a = (am, f)"
    by (cases "js_bigint_get_mant_exp a")
  have am: "unat am = lead64 n" "f = int (floor_log2 n)" if "z \<noteq> 0"
    using js_bigint_get_mant_exp_correct [OF a] that g by (simp_all add: z_def n_def)
  have pb: "unat (push_bit 11 ((b AND (push_bit 52 1 - 1)) OR push_bit 52 1)) = (2 ^ 52 + f64_mant b) * 2 ^ 11"
    using f64_fields(3) [of b] by (intro unat_push_bit_small [OF f64_significand]) simp
  have eq: "mag_cmp n b = (if am < push_bit 11 ((b AND (push_bit 52 1 - 1)) OR push_bit 52 1) then - 1
     else if am > push_bit 11 ((b AND (push_bit 52 1 - 1)) OR push_bit 52 1) then 1 else 0)" if "z \<noteq> 0" "f64_exp b = 1023 + floor_log2 n"
    unfolding mag_cmp_equal [OF that(2)] int_cmp_def word_less_nat_alt pb am(1) [OF that(1)] of_nat_less_iff ..
  have fin: "int (f64_exp b) = 2047 \<longleftrightarrow> f64_exp b = 2047" "int (f64_exp b) = 0 \<longleftrightarrow> f64_exp b = 0"
    by simp_all
  have fe: "f \<noteq> int (f64_exp b) - 1023 \<longleftrightarrow> f64_exp b \<noteq> 1023 + floor_log2 n"
    "f < int (f64_exp b) - 1023 \<longleftrightarrow> 1023 + floor_log2 n < f64_exp b" if "z \<noteq> 0"
    using am(2) [OF that] by auto
  have u: "uint (limb_of_bool p) = of_bool p" "limb_of_bool p \<noteq> limb_of_bool q \<longleftrightarrow> p \<noteq> q" for p q
    by (simp_all add: limb_of_bool_def)
  show ?thesis
    unfolding js_bigint_float64_cmp_def Let_def f64_fields(1,4) sgn_a g prod.case mz zero mag fin u f64_is_nan_def f64_is_inf_def
  proof (cases "f64_exp b = 2047 \<or> f64_mag b = 0 \<or> z = 0", goal_cases)
    case 1
    then show ?case
      by (auto simp: int_cmp_def s_def)
  next
    case 2
    then have z: "z \<noteq> 0" and b: "f64_exp b \<noteq> 2047" "f64_mag b \<noteq> 0"
      by auto
    show ?case
      using z b eq [OF z] unfolding fe [OF z] by (auto simp: s_def)
  qed
qed

text \<open>
  The comparison is the one of the exact values, except for two negative numbers of different
  exponents, for which the answer is the opposite one.
\<close>

definition float64_cmp_exact :: "int \<Rightarrow> f64 \<Rightarrow> int" where
  "float64_cmp_exact z d =
     (if f64_is_nan d then 2
      else if f64_is_inf d then (if f64_sign d then 1 else - 1)
      else int_cmp (z * 2 ^ 1074) (f64_units d))"

definition cmp_swapped :: "int \<Rightarrow> f64 \<Rightarrow> bool" where
  "cmp_swapped z d \<longleftrightarrow> f64_finite d \<and> f64_mag d \<noteq> 0 \<and> f64_sign d \<and> z < 0
     \<and> f64_exp d \<noteq> 1023 + floor_log2 (nat \<bar>z\<bar>)"

lemma int_cmp_units:
  assumes "f64_mag d \<noteq> 0" and "z \<noteq> 0" and "(z < 0) = f64_sign d"
  shows "int_cmp (z * 2 ^ 1074) (f64_units d) = (if z < 0 then - mag_cmp (nat \<bar>z\<bar>) d else mag_cmp (nat \<bar>z\<bar>) d)"
proof (cases "z < 0")
  case True
  then have z: "z = - int (nat \<bar>z\<bar>)"
    by simp
  have neg: "int_cmp (- x) (- y) = - int_cmp x y" for x y
    by (simp add: int_cmp_def)
  have "f64_units d = - int (f64_mag d)"
    using True assms(3) by (simp add: f64_units_def)
  then show ?thesis
    using True by (subst z) (simp only: mult_minus_left neg mag_cmp_def if_True)
next
  case False
  then have "int (nat \<bar>z\<bar>) = z" "f64_units d = int (f64_mag d)"
    using assms(3) by (simp_all add: f64_units_def)
  then show ?thesis
    using False by (simp only: mag_cmp_def if_False)
qed

lemma int_cmp_opposite:
  assumes "f64_mag d = 0 \<or> z = 0 \<or> (z < 0) \<noteq> f64_sign d"
  shows "int_cmp (z * 2 ^ 1074) (f64_units d) = 
    (if f64_mag d = 0 then int_cmp z 0 else if z = 0 then (if f64_sign d then 1 else - 1) else if z < 0 then - 1 else 1)"
proof -
  define p where "p = (2 :: int) ^ 1074"
  have "0 < p"
    by (simp add: p_def)
  then have p: "z * p < 0 \<longleftrightarrow> z < 0" "0 < z * p \<longleftrightarrow> 0 < z"
    by (simp_all add: mult_less_0_iff zero_less_mult_iff)
  consider "z < 0" | "z = 0" | "0 < z"
    by linarith
  then show ?thesis
    unfolding p_def [symmetric] using assms p by cases (auto simp: int_cmp_def f64_units_def)
qed

lemma js_bigint_float64_cmp_correct:
  assumes "normal (tab a)"
  shows "js_bigint_float64_cmp a b =
    (if cmp_swapped (ival (tab a)) b then - float64_cmp_exact (ival (tab a)) b else float64_cmp_exact (ival (tab a)) b)"
proof -
  let ?z = "ival (tab a)" and ?n = "nat \<bar>ival (tab a)\<bar>"
  show ?thesis
  proof (cases "\<not> f64_finite b \<or> f64_mag b = 0 \<or> ?z = 0 \<or> (?z < 0) \<noteq> f64_sign b")
    case True
    have "\<not> cmp_swapped ?z b"
      using True by (auto simp: cmp_swapped_def)
    then show ?thesis
      using True int_cmp_opposite [of b ?z]
      unfolding js_bigint_float64_cmp_branches [OF assms] float64_cmp_exact_def f64_finite_def f64_is_nan_def f64_is_inf_def
      by (simp only: if_False) auto
  next
    case False
    then have n: "0 < ?n"
      by simp
    define x where "x = int_cmp (?z * 2 ^ 1074) (f64_units b)"
    have x: "x = (if ?z < 0 then - mag_cmp ?n b else mag_cmp ?n b)"
      unfolding x_def using False by (intro int_cmp_units) auto
    have ex: "float64_cmp_exact ?z b = x"
      using False by (simp only: float64_cmp_exact_def x_def f64_is_nan_def f64_is_inf_def f64_finite_def) auto
    have sw: "cmp_swapped ?z b \<longleftrightarrow> ?z < 0 \<and> f64_exp b \<noteq> 1023 + floor_log2 ?n"
      using False by (auto simp: cmp_swapped_def)
    have "js_bigint_float64_cmp a b =
        (if 1023 + floor_log2 ?n < f64_exp b then - 1 else if f64_exp b < 1023 + floor_log2 ?n then 1 else x)"
      unfolding js_bigint_float64_cmp_branches [OF assms] x f64_is_nan_def f64_is_inf_def
      using False by (auto simp: f64_finite_def)
    then show ?thesis
      unfolding ex sw using mag_cmp_less [OF n, of b] mag_cmp_greater [OF n, of b] x
      by (cases "f64_exp b" "1023 + floor_log2 ?n" rule: linorder_cases) auto
  qed
qed

end
