(* ===== verification/F64_Ops.thy ===== *)
theory F64_Ops
  imports F64
begin

text \<open>
  The operations of C on \<open>double\<close> that the arithmetic of quickjs.c uses, on bit patterns. The result of an
  operation is the exact result rounded to the nearest double, ties to even; the exact results are
  rational numbers in units of \<open>2 ^ -1074\<close>. A NaN result is the pattern of \<open>JS_FLOAT64_NAN\<close>: the sources
  never look at the sign or the payload of a NaN.
\<close>

unbundle bit_operations_syntax

definition JS_FLOAT64_NAN :: f64 where
  "JS_FLOAT64_NAN = 0x7FF8000000000000"

definition f64_inf :: "bool \<Rightarrow> f64" where
  "f64_inf s = (if s then 0xFFF0000000000000 else 0x7FF0000000000000)"

definition f64_zero :: "bool \<Rightarrow> f64" where
  "f64_zero s = (if s then 0x8000000000000000 else 0)"

definition f64_is_zero :: "f64 \<Rightarrow> bool" where
  "f64_is_zero d \<longleftrightarrow> f64_exp d = 0 \<and> f64_mant d = 0"

text \<open>\<open>n / d\<close> rounded to an integer, ties to even.\<close>

definition round_quot :: "nat \<Rightarrow> nat \<Rightarrow> nat" where
  "round_quot n d =
     (let q = n div d; r = n mod d
      in if 2 * r > d \<or> (2 * r = d \<and> odd q) then q + 1 else q)"

text \<open>
  The double nearest to \<open>n / d\<close> units. The significand is kept below \<open>2 ^ 53\<close> by the exponent \<open>k\<close>; patterns
  of consecutive doubles are consecutive numbers, so a carry of the rounding runs into the exponent.
\<close>

definition f64_pack :: "bool \<Rightarrow> nat \<Rightarrow> nat \<Rightarrow> f64" where
  "f64_pack s n d =
     (let q = n div d;
          k = (if q < 2 ^ 53 then 0 else floor_log2 q - 52)
      in of_nat ((if s then 2 ^ 63 else 0) + min (2047 * 2 ^ 52) (k * 2 ^ 52 + round_quot n (d * 2 ^ k))))"

section \<open>Operators\<close>

definition f64_neg :: "f64 \<Rightarrow> f64" where
  "f64_neg a = a XOR 0x8000000000000000"

definition f64_add :: "f64 \<Rightarrow> f64 \<Rightarrow> f64" where
  "f64_add a b =
     (if f64_is_nan a \<or> f64_is_nan b then JS_FLOAT64_NAN
      else if f64_is_inf a then (if f64_is_inf b \<and> f64_sign a \<noteq> f64_sign b then JS_FLOAT64_NAN else a)
      else if f64_is_inf b then b
      else
       let u = f64_units a + f64_units b
       in if u = 0 then f64_zero (f64_is_zero a \<and> f64_is_zero b \<and> f64_sign a \<and> f64_sign b)
          else f64_pack (u < 0) (nat \<bar>u\<bar>) 1)"

definition f64_sub :: "f64 \<Rightarrow> f64 \<Rightarrow> f64" where
  "f64_sub a b = f64_add a (f64_neg b)"

definition f64_mul :: "f64 \<Rightarrow> f64 \<Rightarrow> f64" where
  "f64_mul a b =
     (let s = (f64_sign a \<noteq> f64_sign b)
      in if f64_is_nan a \<or> f64_is_nan b \<or> (f64_is_inf a \<and> f64_is_zero b) \<or> (f64_is_zero a \<and> f64_is_inf b)
         then JS_FLOAT64_NAN
         else if f64_is_inf a \<or> f64_is_inf b then f64_inf s
         else f64_pack s (f64_mag a * f64_mag b) (2 ^ 1074))"

definition f64_div :: "f64 \<Rightarrow> f64 \<Rightarrow> f64" where
  "f64_div a b =
     (let s = (f64_sign a \<noteq> f64_sign b)
      in if f64_is_nan a \<or> f64_is_nan b \<or> (f64_is_inf a \<and> f64_is_inf b) \<or> (f64_is_zero a \<and> f64_is_zero b)
         then JS_FLOAT64_NAN
         else if f64_is_inf a \<or> f64_is_zero b then f64_inf s
         else if f64_is_inf b then f64_zero s
         else f64_pack s (f64_mag a * 2 ^ 1074) (f64_mag b))"

text \<open>\<open>fmod\<close> of the C library is exact; the result has the sign of the first operand.\<close>

definition fmod :: "f64 \<Rightarrow> f64 \<Rightarrow> f64" where
  "fmod a b =
     (if f64_is_nan a \<or> f64_is_nan b \<or> f64_is_inf a \<or> f64_is_zero b then JS_FLOAT64_NAN
      else if f64_is_inf b then a
      else f64_pack (f64_sign a) (f64_mag a mod f64_mag b) 1)"

text \<open>The comparisons; all are false for a NaN.\<close>

definition f64_lt :: "f64 \<Rightarrow> f64 \<Rightarrow> bool" where
  "f64_lt a b \<longleftrightarrow>
     \<not> f64_is_nan a \<and> \<not> f64_is_nan b \<and>
     (if f64_is_inf a then f64_sign a \<and> \<not> (f64_is_inf b \<and> f64_sign b)
      else if f64_is_inf b then \<not> f64_sign b
      else f64_units a < f64_units b)"

definition f64_eq :: "f64 \<Rightarrow> f64 \<Rightarrow> bool" where
  "f64_eq a b \<longleftrightarrow>
     \<not> f64_is_nan a \<and> \<not> f64_is_nan b \<and>
     (if f64_is_inf a \<or> f64_is_inf b then a = b else f64_units a = f64_units b)"

definition f64_le :: "f64 \<Rightarrow> f64 \<Rightarrow> bool" where
  "f64_le a b \<longleftrightarrow> f64_lt a b \<or> f64_eq a b"

end
