(* ===== verification/Numbers.thy ===== *)
theory Numbers
  imports BigInt_FromFloat F64_Ops
begin

text \<open>
  JavaScript values as the numeric code of quickjs.c sees them, and its conversions between them
  (\<open>JS_ToNumberHintFree\<close> to \<open>JS_ToIndex\<close>). BigInt objects live in a heap and are shared: a value holds one
  reference to its object. Strings, symbols and objects are opaque here. What the engine does with them
  (run a \<open>valueOf\<close> method, read a string as a number, concatenate, compare, keep, release) is an argument, the
  record \<open>host\<close>, and may change the rest of the engine's state, the field \<open>world\<close>.

  A function returns \<open>None\<close> when the program aborts, meets undefined behaviour or does not return; where a
  result can be an exception, an inner \<open>None\<close> is the exception.
\<close>

unbundle bit_operations_syntax

section \<open>Values and state\<close>

datatype js_val =
    TagInt u32 | TagBool u32 | TagNull | TagUndefined | TagException | TagFloat64 f64
  | TagShortBigInt u64 | TagBigInt nat | TagSymbol nat | TagString nat | TagStringRope nat
  | TagObject nat | TagInternal u32

record 'w js_state =
  ctx :: js_ctx
  heap :: "nat \<Rightarrow> JSBigInt option"
  fresh_addr :: nat
  world :: 'w

datatype to_prim_hint = HINT_NONE | HINT_NUMBER

record 'w host =
  host_to_primitive :: "nat \<Rightarrow> to_prim_hint \<Rightarrow> 'w js_state \<Rightarrow> js_val \<times> 'w js_state"
  host_string_number :: "js_val \<Rightarrow> 'w js_state \<Rightarrow> js_val \<times> 'w js_state"
  host_string_bigint :: "js_val \<Rightarrow> 'w js_state \<Rightarrow> js_val \<times> 'w js_state"
  host_concat :: "js_val \<Rightarrow> js_val \<Rightarrow> 'w js_state \<Rightarrow> js_val \<times> 'w js_state"
  host_compare :: "js_val \<Rightarrow> js_val \<Rightarrow> 'w js_state \<Rightarrow> int"
  host_string_eq :: "js_val \<Rightarrow> js_val \<Rightarrow> 'w js_state \<Rightarrow> bool"
  host_string_len :: "js_val \<Rightarrow> 'w js_state \<Rightarrow> nat"
  host_is_HTMLDDA :: "nat \<Rightarrow> 'w js_state \<Rightarrow> bool"
  host_dup :: "js_val \<Rightarrow> 'w js_state \<Rightarrow> 'w js_state"
  host_free :: "js_val \<Rightarrow> 'w js_state \<Rightarrow> 'w js_state"
  host_pow :: "f64 \<Rightarrow> f64 \<Rightarrow> f64"

definition JS_NAN :: js_val where
  "JS_NAN = TagFloat64 JS_FLOAT64_NAN"

definition throw :: "(js_ctx \<Rightarrow> js_ctx) \<Rightarrow> 'w js_state \<Rightarrow> 'w js_state" where
  "throw f s = s \<lparr>ctx := f (ctx s)\<rparr>"

text \<open>\<open>JS_FreeValue\<close> and \<open>JS_DupValue\<close>: the reference count of a BigInt object; the rest is the engine's.\<close>

definition JS_FreeValue :: "'w host \<Rightarrow> js_val \<Rightarrow> 'w js_state \<Rightarrow> 'w js_state option" where
  "JS_FreeValue h v s =
     (case v of
        TagBigInt p \<Rightarrow>
          (case heap s p of
             None \<Rightarrow> None
           | Some x \<Rightarrow>
              if ref_count x - 1 \<le> 0
              then Some (s \<lparr>heap := (heap s)(p := None), ctx := js_free (ctx s)\<rparr>)
              else Some (s \<lparr>heap := (heap s)(p \<mapsto> x \<lparr>ref_count := ref_count x - 1\<rparr>)\<rparr>))
      | TagSymbol a \<Rightarrow> Some (host_free h v s)
      | TagString a \<Rightarrow> Some (host_free h v s)
      | TagStringRope a \<Rightarrow> Some (host_free h v s)
      | TagObject a \<Rightarrow> Some (host_free h v s)
      | TagInternal t \<Rightarrow> Some (host_free h v s)
      | _ \<Rightarrow> Some s)"

definition JS_DupValue :: "'w host \<Rightarrow> js_val \<Rightarrow> 'w js_state \<Rightarrow> 'w js_state option" where
  "JS_DupValue h v s =
     (case v of
        TagBigInt p \<Rightarrow>
          (case heap s p of
             None \<Rightarrow> None
           | Some x \<Rightarrow> Some (s \<lparr>heap := (heap s)(p \<mapsto> x \<lparr>ref_count := ref_count x + 1\<rparr>)\<rparr>))
      | TagSymbol a \<Rightarrow> Some (host_dup h v s)
      | TagString a \<Rightarrow> Some (host_dup h v s)
      | TagStringRope a \<Rightarrow> Some (host_dup h v s)
      | TagObject a \<Rightarrow> Some (host_dup h v s)
      | TagInternal t \<Rightarrow> Some (host_dup h v s)
      | _ \<Rightarrow> Some s)"

text \<open>\<open>JS_MKPTR (JS_TAG_BIG_INT, p)\<close> for a block that was just allocated.\<close>

definition mk_big_int :: "JSBigInt \<Rightarrow> 'w js_state \<Rightarrow> js_val \<times> 'w js_state" where
  "mk_big_int p s =
     (TagBigInt (fresh_addr s), s \<lparr>heap := (heap s)(fresh_addr s \<mapsto> p), fresh_addr := Suc (fresh_addr s)\<rparr>)"

definition JS_CompactBigInt :: "JSBigInt \<Rightarrow> 'w js_state \<Rightarrow> js_val \<times> 'w js_state" where
  "JS_CompactBigInt p s =
     (if len p = 1 then (TagShortBigInt (hd (tab p)), s \<lparr>ctx := js_free (ctx s)\<rparr>)
      else mk_big_int p s)"

definition js_bigint_set_short :: "u64 \<Rightarrow> JSBigInt" where
  "js_bigint_set_short v = js_bigint_set_si v"

text \<open>The object behind a BigInt value; a short one is put into a buffer on the stack.\<close>

definition big_operand :: "js_val \<Rightarrow> 'w js_state \<Rightarrow> JSBigInt option" where
  "big_operand v s =
     (case v of
        TagShortBigInt w \<Rightarrow> Some (js_bigint_set_short w)
      | TagBigInt p \<Rightarrow> heap s p
      | _ \<Rightarrow> None)"

definition is_big :: "js_val \<Rightarrow> bool" where
  "is_big v \<longleftrightarrow> (case v of TagShortBigInt w \<Rightarrow> True | TagBigInt p \<Rightarrow> True | _ \<Rightarrow> False)"

definition tag_is_string :: "js_val \<Rightarrow> bool" where
  "tag_is_string v \<longleftrightarrow> (case v of TagString a \<Rightarrow> True | TagStringRope a \<Rightarrow> True | _ \<Rightarrow> False)"

definition is_object :: "js_val \<Rightarrow> bool" where
  "is_object v \<longleftrightarrow> (case v of TagObject a \<Rightarrow> True | _ \<Rightarrow> False)"

text \<open>Constructors for numbers; \<open>(double) n\<close> of an \<open>int64_t\<close> rounds to nearest.\<close>

definition JS_NewInt64 :: "u64 \<Rightarrow> js_val" where
  "JS_NewInt64 v = (if v = scast (ucast v :: u32) then TagInt (ucast v) else TagFloat64 (f64_round (sint v)))"

definition JS_NewUint32 :: "u32 \<Rightarrow> js_val" where
  "JS_NewUint32 v = (if v \<le> 0x7FFFFFFF then TagInt v else TagFloat64 (f64_of_int (uint v)))"

definition js_new_float64 :: "f64 \<Rightarrow> js_val" where
  "js_new_float64 d =
     (if f64_ge_int d (- (2 ^ 31)) \<and> f64_le_int d (2 ^ 31 - 1) \<and> d = f64_of_int (f64_trunc d)
      then TagInt (word_of_int (f64_trunc d)) else TagFloat64 d)"

definition JS_NewBigInt64 :: "u64 \<Rightarrow> js_val" where
  "JS_NewBigInt64 v = TagShortBigInt v"

definition JS_NewBigUint64 :: "u64 \<Rightarrow> 'w js_state \<Rightarrow> js_val \<times> 'w js_state" where
  "JS_NewBigUint64 v s =
     (if v \<le> 0x7FFFFFFFFFFFFFFF then (TagShortBigInt v, s)
      else case js_bigint_new_ui64 v (ctx s) of
        (None, c) \<Rightarrow> (TagException, s \<lparr>ctx := c\<rparr>)
      | (Some p, c) \<Rightarrow> mk_big_int p (s \<lparr>ctx := c\<rparr>))"

section \<open>Conversions\<close>

definition JS_ToPrimitiveFree :: "'w host \<Rightarrow> js_val \<Rightarrow> to_prim_hint \<Rightarrow> 'w js_state \<Rightarrow> js_val \<times> 'w js_state" where
  "JS_ToPrimitiveFree h v hint s =
     (case v of TagObject a \<Rightarrow> host_to_primitive h a hint s | _ \<Rightarrow> (v, s))"

datatype to_number_hint = TON_FLAG_NUMBER | TON_FLAG_NUMERIC

partial_function (option) JS_ToNumberHintFree ::
  "'w host \<Rightarrow> js_val \<Rightarrow> to_number_hint \<Rightarrow> 'w js_state \<Rightarrow> (js_val \<times> 'w js_state) option" where
  "JS_ToNumberHintFree h v flag s =
     (case v of
        TagBigInt p \<Rightarrow>
          if flag \<noteq> TON_FLAG_NUMERIC
          then do {
            s \<leftarrow> JS_FreeValue h v s;
            Some (TagException, throw (JS_ThrowTypeError ''cannot convert bigint to number'') s)
          }
          else Some (v, s)
      | TagShortBigInt w \<Rightarrow>
          if flag \<noteq> TON_FLAG_NUMERIC
          then Some (TagException, throw (JS_ThrowTypeError ''cannot convert bigint to number'') s)
          else Some (v, s)
      | TagFloat64 d \<Rightarrow> Some (v, s)
      | TagInt i \<Rightarrow> Some (v, s)
      | TagException \<Rightarrow> Some (v, s)
      | TagBool b \<Rightarrow> Some (TagInt b, s)
      | TagNull \<Rightarrow> Some (TagInt 0, s)
      | TagUndefined \<Rightarrow> Some (JS_NAN, s)
      | TagObject a \<Rightarrow>
          (let (v, s) = JS_ToPrimitiveFree h v HINT_NUMBER s
           in if v = TagException then Some (TagException, s) else JS_ToNumberHintFree h v flag s)
      | TagString a \<Rightarrow> Some (host_string_number h v s)
      | TagStringRope a \<Rightarrow> Some (host_string_number h v s)
      | TagSymbol a \<Rightarrow>
          do {
            s \<leftarrow> JS_FreeValue h v s;
            Some (TagException, throw (JS_ThrowTypeError ''cannot convert symbol to number'') s)
          }
      | TagInternal t \<Rightarrow>
          do {
            s \<leftarrow> JS_FreeValue h v s;
            Some (JS_NAN, s)
          })"

definition JS_ToNumberFree :: "'w host \<Rightarrow> js_val \<Rightarrow> 'w js_state \<Rightarrow> (js_val \<times> 'w js_state) option" where
  "JS_ToNumberFree h v s = JS_ToNumberHintFree h v TON_FLAG_NUMBER s"

definition JS_ToNumericFree :: "'w host \<Rightarrow> js_val \<Rightarrow> 'w js_state \<Rightarrow> (js_val \<times> 'w js_state) option" where
  "JS_ToNumericFree h v s = JS_ToNumberHintFree h v TON_FLAG_NUMERIC s"

text \<open>\<open>__JS_ToFloat64Free\<close> and the inline part before it.\<close>

definition slow_JS_ToFloat64Free :: "'w host \<Rightarrow> js_val \<Rightarrow> 'w js_state \<Rightarrow> (f64 option \<times> 'w js_state) option" where
  "slow_JS_ToFloat64Free h v s =
     do {
       (v, s) \<leftarrow> JS_ToNumberFree h v s;
       (case v of
          TagException \<Rightarrow> Some (None, s)
        | TagInt i \<Rightarrow> Some (Some (f64_of_int (sint i)), s)
        | TagFloat64 d \<Rightarrow> Some (Some d, s)
        | _ \<Rightarrow> None)
     }"

definition JS_ToFloat64Free :: "'w host \<Rightarrow> js_val \<Rightarrow> 'w js_state \<Rightarrow> (f64 option \<times> 'w js_state) option" where
  "JS_ToFloat64Free h v s =
     (case v of
        TagInt i \<Rightarrow> Some (Some (f64_of_int (sint i)), s)
      | TagBool i \<Rightarrow> Some (Some (f64_of_int (sint i)), s)
      | TagNull \<Rightarrow> Some (Some (f64_of_int 0), s)
      | TagFloat64 d \<Rightarrow> Some (Some d, s)
      | _ \<Rightarrow> slow_JS_ToFloat64Free h v s)"

text \<open>The cast \<open>(int32_t) d\<close>; \<open>None\<close> where C leaves it undefined.\<close>

definition f64_to_int32 :: "f64 \<Rightarrow> u32 option" where
  "f64_to_int32 d =
     (if f64_finite d \<and> - (2 ^ 31) \<le> f64_trunc d \<and> f64_trunc d < 2 ^ 31
      then Some (word_of_int (f64_trunc d)) else None)"

text \<open>The branches for a double of the conversions that wrap and of those that saturate.\<close>

definition float64_to_int32 :: "f64 \<Rightarrow> u32 option" where
  "float64_to_int32 d =
     (let e = uint (drop_bit 52 d AND 0x7FF)
      in if e \<le> 1023 + 30 then f64_to_int32 d
         else if e \<le> 1023 + 30 + 53
         then
          let v = (d AND (push_bit 52 1 - 1)) OR push_bit 52 1;
              v = push_bit (nat ((e - 1023) - 52 + 32)) v;
              ret = ucast (drop_bit 32 v) :: u32
          in Some (if drop_bit 63 d \<noteq> 0 then - ret else ret)
         else Some 0)"

definition float64_to_int64 :: "f64 \<Rightarrow> u64 option" where
  "float64_to_int64 d =
     (let e = uint (drop_bit 52 d AND 0x7FF)
      in if e \<le> 1023 + 62 then f64_to_int64 d
         else if e \<le> 1023 + 62 + 53
         then
          let v = (d AND (push_bit 52 1 - 1)) OR push_bit 52 1;
              ret = push_bit (nat ((e - 1023) - 52)) v
          in Some (if drop_bit 63 d \<noteq> 0 then - ret else ret)
         else Some 0)"

definition float64_to_int32_sat :: "f64 \<Rightarrow> u32 option" where
  "float64_to_int32_sat d =
     (if f64_is_nan d then Some 0
      else if \<not> f64_ge_int d (- (2 ^ 31)) then Some (word_of_int (- (2 ^ 31)))
      else if \<not> f64_le_int d (2 ^ 31 - 1) then Some (word_of_int (2 ^ 31 - 1))
      else f64_to_int32 d)"

definition float64_to_int64_sat :: "f64 \<Rightarrow> u64 option" where
  "float64_to_int64_sat d =
     (if f64_is_nan d then Some 0
      else if \<not> f64_ge_int d (- (2 ^ 63)) then Some (word_of_int (- (2 ^ 63)))
      else if f64_ge_int d (2 ^ 63) then Some (word_of_int (2 ^ 63 - 1))
      else f64_to_int64 d)"

partial_function (option) JS_ToInt32Free :: "'w host \<Rightarrow> js_val \<Rightarrow> 'w js_state \<Rightarrow> (u32 option \<times> 'w js_state) option" where
  "JS_ToInt32Free h v s =
     (case v of
        TagInt i \<Rightarrow> Some (Some i, s)
      | TagBool i \<Rightarrow> Some (Some i, s)
      | TagNull \<Rightarrow> Some (Some 0, s)
      | TagUndefined \<Rightarrow> Some (Some 0, s)
      | TagFloat64 d \<Rightarrow> do { r \<leftarrow> float64_to_int32 d; Some (Some r, s) }
      | _ \<Rightarrow> do {
          (v, s) \<leftarrow> JS_ToNumberFree h v s;
          if v = TagException then Some (None, s) else JS_ToInt32Free h v s
        })"

partial_function (option) JS_ToInt64Free :: "'w host \<Rightarrow> js_val \<Rightarrow> 'w js_state \<Rightarrow> (u64 option \<times> 'w js_state) option" where
  "JS_ToInt64Free h v s =
     (case v of
        TagInt i \<Rightarrow> Some (Some (scast i), s)
      | TagBool i \<Rightarrow> Some (Some (scast i), s)
      | TagNull \<Rightarrow> Some (Some 0, s)
      | TagUndefined \<Rightarrow> Some (Some 0, s)
      | TagFloat64 d \<Rightarrow> do { r \<leftarrow> float64_to_int64 d; Some (Some r, s) }
      | _ \<Rightarrow> do {
          (v, s) \<leftarrow> JS_ToNumberFree h v s;
          if v = TagException then Some (None, s) else JS_ToInt64Free h v s
        })"

partial_function (option) JS_ToInt32SatFree :: "'w host \<Rightarrow> js_val \<Rightarrow> 'w js_state \<Rightarrow> (u32 option \<times> 'w js_state) option" where
  "JS_ToInt32SatFree h v s =
     (case v of
        TagInt i \<Rightarrow> Some (Some i, s)
      | TagBool i \<Rightarrow> Some (Some i, s)
      | TagNull \<Rightarrow> Some (Some 0, s)
      | TagUndefined \<Rightarrow> Some (Some 0, s)
      | TagException \<Rightarrow> Some (None, s)
      | TagFloat64 d \<Rightarrow> do { r \<leftarrow> float64_to_int32_sat d; Some (Some r, s) }
      | _ \<Rightarrow> do {
          (v, s) \<leftarrow> JS_ToNumberFree h v s;
          if v = TagException then Some (None, s) else JS_ToInt32SatFree h v s
        })"

partial_function (option) JS_ToInt64SatFree :: "'w host \<Rightarrow> js_val \<Rightarrow> 'w js_state \<Rightarrow> (u64 option \<times> 'w js_state) option" where
  "JS_ToInt64SatFree h v s =
     (case v of
        TagInt i \<Rightarrow> Some (Some (scast i), s)
      | TagBool i \<Rightarrow> Some (Some (scast i), s)
      | TagNull \<Rightarrow> Some (Some 0, s)
      | TagUndefined \<Rightarrow> Some (Some 0, s)
      | TagException \<Rightarrow> Some (None, s)
      | TagFloat64 d \<Rightarrow> do { r \<leftarrow> float64_to_int64_sat d; Some (Some r, s) }
      | _ \<Rightarrow> do {
          (v, s) \<leftarrow> JS_ToNumberFree h v s;
          if v = TagException then Some (None, s) else JS_ToInt64SatFree h v s
        })"

end
