(* ===== verification/Operators.thy ===== *)
theory Operators
  imports Numbers
begin

text \<open>
  The slow paths of the arithmetic, bitwise and relational operators of the interpreter (quickjs.c,
  \<open>js_unary_arith_slow\<close> to \<open>js_shr_slow\<close>). An operator finds its operands on the stack and owns them. It
  leaves its result on the stack, \<open>Some v\<close>, or it leaves \<open>JS_UNDEFINED\<close> there and returns -1, \<open>None\<close>.
\<close>

unbundle bit_operations_syntax

type_synonym 'w op_result = "(js_val option \<times> 'w js_state) option"

section \<open>Steps that the operators share\<close>

text \<open>A BigInt function on the context.\<close>

definition on_ctx :: "(js_ctx \<Rightarrow> JSBigInt option \<times> js_ctx) \<Rightarrow> 'w js_state \<Rightarrow> JSBigInt option \<times> 'w js_state" where
  "on_ctx f s = (let (r, c) = f (ctx s) in (r, s \<lparr>ctx := c\<rparr>))"

text \<open>The end of a slow path: the operands are released and the result is compacted.\<close>

definition compact_result :: "JSBigInt option \<Rightarrow> 'w js_state \<Rightarrow> js_val option \<times> 'w js_state" where
  "compact_result r s =
     (case r of None \<Rightarrow> (None, s) | Some r \<Rightarrow> let (v, s) = JS_CompactBigInt r s in (Some v, s))"

definition free_operands :: "'w host \<Rightarrow> js_val \<Rightarrow> js_val \<Rightarrow> 'w js_state \<Rightarrow> 'w js_state option" where
  "free_operands h op1 op2 s = do { s \<leftarrow> JS_FreeValue h op1 s; JS_FreeValue h op2 s }"

text \<open>The end of a fast path on two short BigInts: a double limb that may not fit one limb.\<close>

definition short_result :: "js_dlimb_t \<Rightarrow> 'w js_state \<Rightarrow> js_val option \<times> 'w js_state" where
  "short_result v s =
     (if - (2 ^ 63) \<le> sint v \<and> sint v \<le> 2 ^ 63 - 1 then (Some (TagShortBigInt (ucast v)), s)
      else case on_ctx (js_bigint_new_di v) s of
        (None, s) \<Rightarrow> (None, s)
      | (Some r, s) \<Rightarrow> let (v, s) = mk_big_int r s in (Some v, s))"

text \<open>Both operands to numeric values, left to right, releasing the other one on an exception.\<close>

definition to_numeric2 :: "'w host \<Rightarrow> js_val \<Rightarrow> js_val \<Rightarrow> 'w js_state \<Rightarrow> ((js_val \<times> js_val) option \<times> 'w js_state) option" where
  "to_numeric2 h op1 op2 s =
     do {
       (v1, s) \<leftarrow> JS_ToNumericFree h op1 s;
       if v1 = TagException
       then do { s \<leftarrow> JS_FreeValue h op2 s; Some (None, s) }
       else do {
         (v2, s) \<leftarrow> JS_ToNumericFree h op2 s;
         if v2 = TagException
         then do { s \<leftarrow> JS_FreeValue h v1 s; Some (None, s) }
         else Some (Some (v1, v2), s)
       }
     }"

definition to_primitive2 ::
  "'w host \<Rightarrow> to_prim_hint \<Rightarrow> js_val \<Rightarrow> js_val \<Rightarrow> 'w js_state \<Rightarrow> ((js_val \<times> js_val) option \<times> 'w js_state) option" where
  "to_primitive2 h hint op1 op2 s =
     (let (v1, s) = JS_ToPrimitiveFree h op1 hint s
      in if v1 = TagException
         then do { s \<leftarrow> JS_FreeValue h op2 s; Some (None, s) }
         else
          let (v2, s) = JS_ToPrimitiveFree h op2 hint s
          in if v2 = TagException
             then do { s \<leftarrow> JS_FreeValue h v1 s; Some (None, s) }
             else Some (Some (v1, v2), s))"

text \<open>Both operands to doubles.\<close>

definition to_float2 :: "'w host \<Rightarrow> js_val \<Rightarrow> js_val \<Rightarrow> 'w js_state \<Rightarrow> ((f64 \<times> f64) option \<times> 'w js_state) option" where
  "to_float2 h op1 op2 s =
     do {
       (d1, s) \<leftarrow> JS_ToFloat64Free h op1 s;
       (case d1 of
          None \<Rightarrow> do { s \<leftarrow> JS_FreeValue h op2 s; Some (None, s) }
        | Some d1 \<Rightarrow>
           do {
             (d2, s) \<leftarrow> JS_ToFloat64Free h op2 s;
             (case d2 of None \<Rightarrow> Some (None, s) | Some d2 \<Rightarrow> Some (Some (d1, d2), s))
           })
     }"

section \<open>Unary operators\<close>

datatype unary_op = OP_plus | OP_neg | OP_inc | OP_dec | OP_not

text \<open>\<open>2 * (op - OP_dec) - 1\<close>, since \<open>OP_inc\<close> follows \<open>OP_dec\<close>.\<close>

definition op_step :: "unary_op \<Rightarrow> int" where
  "op_step op = (if op = OP_inc then 1 else - 1)"

definition js_unary_big :: "'w host \<Rightarrow> unary_op \<Rightarrow> js_val \<Rightarrow> 'w js_state \<Rightarrow> 'w op_result" where
  "js_unary_big h op op1 s =
     do {
       p1 \<leftarrow> big_operand op1 s;
       (if op = OP_plus
        then do {
          s \<leftarrow> JS_FreeValue h op1 (throw (JS_ThrowTypeError ''bigint argument with unary +'') s);
          Some (None, s)
        }
        else do {
          let (r, s) = on_ctx (case op of
              OP_neg \<Rightarrow> js_bigint_neg p1
            | OP_not \<Rightarrow> js_bigint_not p1
            | _ \<Rightarrow> js_bigint_add p1 (js_bigint_set_si (word_of_int (op_step op))) 0) s;
          s \<leftarrow> JS_FreeValue h op1 s;
          Some (compact_result r s)
        })
     }"

definition js_unary_float :: "unary_op \<Rightarrow> f64 \<Rightarrow> 'w js_state \<Rightarrow> 'w op_result" where
  "js_unary_float op d s =
     (case op of
        OP_plus \<Rightarrow> Some (Some (TagFloat64 d), s)
      | OP_neg \<Rightarrow> Some (Some (TagFloat64 (f64_neg d)), s)
      | OP_not \<Rightarrow> None
      | _ \<Rightarrow> Some (Some (TagFloat64 (f64_add d (f64_of_int (op_step op)))), s))"

definition js_unary_arith_slow :: "'w host \<Rightarrow> unary_op \<Rightarrow> js_val \<Rightarrow> 'w js_state \<Rightarrow> 'w op_result" where
  "js_unary_arith_slow h op op1 s =
     (case op1 of
        TagFloat64 d \<Rightarrow> js_unary_float op d s
      | _ \<Rightarrow> do {
          (v, s) \<leftarrow> JS_ToNumericFree h op1 s;
          (case v of
             TagException \<Rightarrow> Some (None, s)
           | TagInt i \<Rightarrow>
              (let v64 = scast i :: u64
               in case op of
                    OP_plus \<Rightarrow> Some (Some (JS_NewInt64 v64), s)
                  | OP_neg \<Rightarrow> Some (Some (if v64 = 0 then TagFloat64 (f64_zero True) else JS_NewInt64 (- v64)), s)
                  | OP_not \<Rightarrow> None
                  | _ \<Rightarrow> Some (Some (JS_NewInt64 (v64 + word_of_int (op_step op))), s))
           | TagShortBigInt w \<Rightarrow>
              (case op of
                 OP_plus \<Rightarrow> Some (None, throw (JS_ThrowTypeError ''bigint argument with unary +'') s)
               | OP_inc \<Rightarrow>
                   if w = 0x7FFFFFFFFFFFFFFF then js_unary_big h op v s
                   else Some (Some (TagShortBigInt (w + 1)), s)
               | OP_dec \<Rightarrow>
                   if w = 0x8000000000000000 then js_unary_big h op v s
                   else Some (Some (TagShortBigInt (w - 1)), s)
               | OP_neg \<Rightarrow>
                   if w = 0x8000000000000000 then js_unary_big h op v s
                   else Some (Some (TagShortBigInt (- w)), s)
               | OP_not \<Rightarrow> None)
           | TagBigInt p \<Rightarrow> js_unary_big h op v s
           | TagFloat64 d \<Rightarrow> js_unary_float op d s
           | _ \<Rightarrow> None)
        })"

definition js_not_slow :: "'w host \<Rightarrow> js_val \<Rightarrow> 'w js_state \<Rightarrow> 'w op_result" where
  "js_not_slow h op1 s =
     do {
       (v, s) \<leftarrow> JS_ToNumericFree h op1 s;
       (case v of
          TagException \<Rightarrow> Some (None, s)
        | TagShortBigInt w \<Rightarrow> Some (Some (TagShortBigInt (NOT w)), s)
        | TagBigInt p \<Rightarrow>
           do {
             p1 \<leftarrow> heap s p;
             let (r, s) = on_ctx (js_bigint_not p1) s;
             s \<leftarrow> JS_FreeValue h v s;
             Some (compact_result r s)
           }
        | _ \<Rightarrow>
           do {
             (i, s) \<leftarrow> JS_ToInt32Free h v s;
             (case i of None \<Rightarrow> Some (None, s) | Some i \<Rightarrow> Some (Some (TagInt (NOT i)), s))
           })
     }"

section \<open>Binary arithmetic\<close>

datatype arith_op = OP_add | OP_sub | OP_mul | OP_div | OP_mod | OP_pow

definition js_pow :: "'w host \<Rightarrow> f64 \<Rightarrow> f64 \<Rightarrow> f64" where
  "js_pow h a b =
     (if \<not> f64_finite b \<and> (a = 0x3FF0000000000000 \<or> a = 0xBFF0000000000000) then JS_FLOAT64_NAN
      else host_pow h a b)"

text \<open>The label \<open>handle_float64\<close>.\<close>

definition js_arith_float :: "'w host \<Rightarrow> arith_op \<Rightarrow> f64 \<Rightarrow> f64 \<Rightarrow> js_val option" where
  "js_arith_float h op d1 d2 =
     (case op of
        OP_add \<Rightarrow> None
      | OP_sub \<Rightarrow> Some (TagFloat64 (f64_sub d1 d2))
      | OP_mul \<Rightarrow> Some (TagFloat64 (f64_mul d1 d2))
      | OP_div \<Rightarrow> Some (TagFloat64 (f64_div d1 d2))
      | OP_mod \<Rightarrow> Some (TagFloat64 (fmod d1 d2))
      | OP_pow \<Rightarrow> Some (TagFloat64 (js_pow h d1 d2)))"

text \<open>The label \<open>slow_big_int\<close>.\<close>

definition js_arith_big :: "'w host \<Rightarrow> arith_op \<Rightarrow> js_val \<Rightarrow> js_val \<Rightarrow> 'w js_state \<Rightarrow> 'w op_result" where
  "js_arith_big h op op1 op2 s =
     do {
       p1 \<leftarrow> big_operand op1 s;
       p2 \<leftarrow> big_operand op2 s;
       (r, c) \<leftarrow> (case op of
           OP_add \<Rightarrow> Some (js_bigint_add p1 p2 0 (ctx s))
         | OP_sub \<Rightarrow> Some (js_bigint_add p1 p2 1 (ctx s))
         | OP_mul \<Rightarrow> Some (js_bigint_mul p1 p2 (ctx s))
         | OP_div \<Rightarrow> js_bigint_divrem p1 p2 False (ctx s)
         | OP_mod \<Rightarrow> js_bigint_divrem p1 p2 True (ctx s)
         | OP_pow \<Rightarrow> Some (js_bigint_pow p1 p2 (ctx s)));
       s \<leftarrow> free_operands h op1 op2 (s \<lparr>ctx := c\<rparr>);
       Some (compact_result r s)
     }"

text \<open>The part for two \<open>int32_t\<close>.\<close>

definition js_arith_int :: "'w host \<Rightarrow> arith_op \<Rightarrow> u32 \<Rightarrow> u32 \<Rightarrow> js_val option" where
  "js_arith_int h op v1 v2 =
     (let w1 = scast v1 :: u64; w2 = scast v2 :: u64;
          d1 = f64_of_int (sint v1); d2 = f64_of_int (sint v2)
      in case op of
           OP_add \<Rightarrow> None
         | OP_sub \<Rightarrow> Some (JS_NewInt64 (w1 - w2))
         | OP_mul \<Rightarrow>
             Some (if w1 * w2 = 0 \<and> sint (v1 OR v2) < 0 then TagFloat64 (f64_zero True) else JS_NewInt64 (w1 * w2))
         | OP_div \<Rightarrow> Some (js_new_float64 (f64_div d1 d2))
         | OP_mod \<Rightarrow>
             if sint v1 < 0 \<or> sint v2 \<le> 0 then Some (js_new_float64 (fmod d1 d2))
             else Some (JS_NewInt64 (word_of_int (sint w1 smod sint w2)))
         | OP_pow \<Rightarrow> Some (js_new_float64 (js_pow h d1 d2)))"

text \<open>The fast path for two short BigInts.\<close>

definition js_arith_short :: "'w host \<Rightarrow> arith_op \<Rightarrow> u64 \<Rightarrow> u64 \<Rightarrow> 'w js_state \<Rightarrow> 'w op_result" where
  "js_arith_short h op v1 v2 s =
     (let slow = js_arith_big h op (TagShortBigInt v1) (TagShortBigInt v2) s;
          overflow = (v2 = 0 \<or> (v1 = push_bit 63 1 \<and> v2 = - 1))
      in case op of
           OP_add \<Rightarrow> None
         | OP_sub \<Rightarrow> Some (short_result (scast v1 - scast v2) s)
         | OP_mul \<Rightarrow> Some (short_result (scast v1 * scast v2) s)
         | OP_div \<Rightarrow>
             if overflow then slow else Some (Some (TagShortBigInt (word_of_int (sint v1 sdiv sint v2))), s)
         | OP_mod \<Rightarrow>
             if overflow then slow else Some (Some (TagShortBigInt (word_of_int (sint v1 smod sint v2))), s)
         | OP_pow \<Rightarrow> slow)"

definition js_binary_arith_slow :: "'w host \<Rightarrow> arith_op \<Rightarrow> js_val \<Rightarrow> js_val \<Rightarrow> 'w js_state \<Rightarrow> 'w op_result" where
  "js_binary_arith_slow h op op1 op2 s =
     (case (op1, op2) of
        (TagFloat64 d1, TagFloat64 d2) \<Rightarrow> do { v \<leftarrow> js_arith_float h op d1 d2; Some (Some v, s) }
      | (TagShortBigInt v1, TagShortBigInt v2) \<Rightarrow> js_arith_short h op v1 v2 s
      | _ \<Rightarrow>
         do {
           (vs, s) \<leftarrow> to_numeric2 h op1 op2 s;
           (case vs of
              None \<Rightarrow> Some (None, s)
            | Some (TagInt v1, TagInt v2) \<Rightarrow> do { v \<leftarrow> js_arith_int h op v1 v2; Some (Some v, s) }
            | Some (v1, v2) \<Rightarrow>
                if is_big v1 \<and> is_big v2 then js_arith_big h op v1 v2 s
                else do {
                  (ds, s) \<leftarrow> to_float2 h v1 v2 s;
                  (case ds of
                     None \<Rightarrow> Some (None, s)
                   | Some (d1, d2) \<Rightarrow> do { v \<leftarrow> js_arith_float h op d1 d2; Some (Some v, s) })
                })
         })"

section \<open>Addition\<close>

definition js_add_slow :: "'w host \<Rightarrow> js_val \<Rightarrow> js_val \<Rightarrow> 'w js_state \<Rightarrow> 'w op_result" where
  "js_add_slow h op1 op2 s =
     (case (op1, op2) of
        (TagFloat64 d1, TagFloat64 d2) \<Rightarrow> Some (Some (TagFloat64 (f64_add d1 d2)), s)
      | (TagShortBigInt v1, TagShortBigInt v2) \<Rightarrow> Some (short_result (scast v1 + scast v2) s)
      | _ \<Rightarrow>
         do {
           (vs, s) \<leftarrow> (if is_object op1 \<or> is_object op2 then to_primitive2 h HINT_NONE op1 op2 s
                      else Some (Some (op1, op2), s));
           (case vs of
              None \<Rightarrow> Some (None, s)
            | Some (op1, op2) \<Rightarrow>
               if tag_is_string op1 \<or> tag_is_string op2
               then
                let (v, s) = host_concat h op1 op2 s
                in Some (if v = TagException then None else Some v, s)
               else do {
                 (vs, s) \<leftarrow> to_numeric2 h op1 op2 s;
                 (case vs of
                    None \<Rightarrow> Some (None, s)
                  | Some (TagInt v1, TagInt v2) \<Rightarrow> Some (Some (JS_NewInt64 (scast v1 + scast v2)), s)
                  | Some (v1, v2) \<Rightarrow>
                     if is_big v1 \<and> is_big v2 then js_arith_big h OP_add v1 v2 s
                     else do {
                       (ds, s) \<leftarrow> to_float2 h v1 v2 s;
                       (case ds of
                          None \<Rightarrow> Some (None, s)
                        | Some (d1, d2) \<Rightarrow> Some (Some (TagFloat64 (f64_add d1 d2)), s))
                     })
               })
         })"

section \<open>Bitwise operators\<close>

datatype bit_op = OP_logic logic_op | OP_shl | OP_sar

definition INT32_MAX :: int where
  "INT32_MAX = 2 ^ 31 - 1"

text \<open>The label \<open>slow_big_int\<close>; the shift count saturates.\<close>

definition js_logic_big :: "'w host \<Rightarrow> bit_op \<Rightarrow> js_val \<Rightarrow> js_val \<Rightarrow> 'w js_state \<Rightarrow> 'w op_result" where
  "js_logic_big h op op1 op2 s =
     do {
       p1 \<leftarrow> big_operand op1 s;
       p2 \<leftarrow> big_operand op2 s;
       let (r, s) = on_ctx (case op of
           OP_logic l \<Rightarrow> js_bigint_logic p1 p2 l
         | _ \<Rightarrow>
            (let shift = sint (js_bigint_get_si_sat p2);
                 shift = (if shift > INT32_MAX then INT32_MAX else if shift < - INT32_MAX then - INT32_MAX else shift);
                 shift = (if op = OP_sar then - shift else shift)
             in if shift \<ge> 0 then js_bigint_shl p1 (nat shift) else js_bigint_shr p1 (nat (- shift)))) s;
       s \<leftarrow> free_operands h op1 op2 s;
       Some (compact_result r s)
     }"

text \<open>The fast path; \<open>bigint_shl\<close> and \<open>bigint_sar\<close> are its labels.\<close>

definition bigint_shl :: "u64 \<Rightarrow> nat \<Rightarrow> 'w js_state \<Rightarrow> 'w op_result" where
  "bigint_shl v1 n s = Some (short_result (push_bit n (scast v1)) s)"

definition bigint_sar :: "u64 \<Rightarrow> nat \<Rightarrow> 'w js_state \<Rightarrow> 'w op_result" where
  "bigint_sar v1 n s = Some (Some (TagShortBigInt (signed_drop_bit n v1)), s)"

definition js_logic_short :: "'w host \<Rightarrow> bit_op \<Rightarrow> u64 \<Rightarrow> u64 \<Rightarrow> 'w js_state \<Rightarrow> 'w op_result" where
  "js_logic_short h op v1 v2 s =
     (let slow = js_logic_big h op (TagShortBigInt v1) (TagShortBigInt v2) s;
          n = sint v2
      in case op of
           OP_logic l \<Rightarrow> Some (Some (TagShortBigInt (limb_logic l v1 v2)), s)
         | OP_sar \<Rightarrow>
             if n > 63 then slow
             else if n < 0 then (if n < - 63 then slow else bigint_shl v1 (nat (- n)) s)
             else bigint_sar v1 (nat n) s
         | OP_shl \<Rightarrow>
             if n > 63 then slow
             else if n < 0 then (if n < - 63 then slow else bigint_sar v1 (nat (- n)) s)
             else bigint_shl v1 (nat n) s)"

definition js_logic_int :: "bit_op \<Rightarrow> u32 \<Rightarrow> u32 \<Rightarrow> u32" where
  "js_logic_int op v1 v2 =
     (case op of
        OP_shl \<Rightarrow> push_bit (unat (v2 AND 0x1F)) v1
      | OP_sar \<Rightarrow> signed_drop_bit (unat (v2 AND 0x1F)) v1
      | OP_logic OP_and \<Rightarrow> v1 AND v2
      | OP_logic OP_or \<Rightarrow> v1 OR v2
      | OP_logic OP_xor \<Rightarrow> v1 XOR v2)"

definition to_int2 :: "'w host \<Rightarrow> js_val \<Rightarrow> js_val \<Rightarrow> 'w js_state \<Rightarrow> ((u32 \<times> u32) option \<times> 'w js_state) option" where
  "to_int2 h op1 op2 s =
     do {
       (v1, s) \<leftarrow> JS_ToInt32Free h op1 s;
       (case v1 of
          None \<Rightarrow> do { s \<leftarrow> JS_FreeValue h op2 s; Some (None, s) }
        | Some v1 \<Rightarrow>
           do {
             (v2, s) \<leftarrow> JS_ToInt32Free h op2 s;
             (case v2 of None \<Rightarrow> Some (None, s) | Some v2 \<Rightarrow> Some (Some (v1, v2), s))
           })
     }"

definition js_binary_logic_slow :: "'w host \<Rightarrow> bit_op \<Rightarrow> js_val \<Rightarrow> js_val \<Rightarrow> 'w js_state \<Rightarrow> 'w op_result" where
  "js_binary_logic_slow h op op1 op2 s =
     (case (op1, op2) of
        (TagShortBigInt v1, TagShortBigInt v2) \<Rightarrow> js_logic_short h op v1 v2 s
      | _ \<Rightarrow>
         do {
           (vs, s) \<leftarrow> to_numeric2 h op1 op2 s;
           (case vs of
              None \<Rightarrow> Some (None, s)
            | Some (v1, v2) \<Rightarrow>
                if is_big v1 \<and> is_big v2 then js_logic_big h op v1 v2 s
                else do {
                  (is', s) \<leftarrow> to_int2 h v1 v2 s;
                  (case is' of
                     None \<Rightarrow> Some (None, s)
                   | Some (i1, i2) \<Rightarrow> Some (Some (TagInt (js_logic_int op i1 i2)), s))
                })
         })"

definition js_shr_slow :: "'w host \<Rightarrow> js_val \<Rightarrow> js_val \<Rightarrow> 'w js_state \<Rightarrow> 'w op_result" where
  "js_shr_slow h op1 op2 s =
     do {
       (vs, s) \<leftarrow> to_numeric2 h op1 op2 s;
       (case vs of
          None \<Rightarrow> Some (None, s)
        | Some (v1, v2) \<Rightarrow>
            if is_big v1 \<or> is_big v2
            then do {
              s \<leftarrow> free_operands h v1 v2 (throw (JS_ThrowTypeError ''bigint operands are forbidden for >>>'') s);
              Some (None, s)
            }
            else do {
              (i1, s) \<leftarrow> JS_ToInt32Free h v1 s;
              (i2, s) \<leftarrow> JS_ToInt32Free h v2 s;
              i1 \<leftarrow> i1;
              i2 \<leftarrow> i2;
              Some (Some (JS_NewUint32 (drop_bit (unat (i2 AND 0x1F)) i1)), s)
            })
     }"

section \<open>Comparison\<close>

definition tag_is_number :: "js_val \<Rightarrow> bool" where
  "tag_is_number v \<longleftrightarrow>
     (case v of TagInt i \<Rightarrow> True | TagFloat64 d \<Rightarrow> True | TagBigInt p \<Rightarrow> True | TagShortBigInt w \<Rightarrow> True | _ \<Rightarrow> False)"

datatype rel_op = OP_lt | OP_lte | OP_gt | OP_gte | OP_eq

definition JS_ToBigIntBuf :: "js_val \<Rightarrow> 'w js_state \<Rightarrow> JSBigInt option" where
  "JS_ToBigIntBuf op1 s =
     (case op1 of
        TagInt i \<Rightarrow> Some (js_bigint_set_si (scast i))
      | TagShortBigInt w \<Rightarrow> Some (js_bigint_set_short w)
      | TagBigInt p \<Rightarrow> heap s p
      | _ \<Rightarrow> None)"

fun rel_test :: "rel_op \<Rightarrow> int \<Rightarrow> bool" where
  "rel_test OP_lt val = (val < 0)"
| "rel_test OP_lte val = (val \<le> 0)"
| "rel_test OP_gt val = (val > 0)"
| "rel_test OP_gte val = (val \<ge> 0)"
| "rel_test OP_eq val = (val = 0)"

text \<open>The limb of an operand of the fast path.\<close>

definition short_operand :: "js_val \<Rightarrow> u64 option" where
  "short_operand v = (case v of TagInt i \<Rightarrow> Some (scast i) | TagShortBigInt w \<Rightarrow> Some w | _ \<Rightarrow> None)"

definition float_operand :: "js_val \<Rightarrow> f64 option" where
  "float_operand v = (case v of TagFloat64 d \<Rightarrow> Some d | _ \<Rightarrow> None)"

definition js_compare_bigint :: "'w host \<Rightarrow> rel_op \<Rightarrow> js_val \<Rightarrow> js_val \<Rightarrow> 'w js_state \<Rightarrow> (bool \<times> 'w js_state) option" where
  "js_compare_bigint h op op1 op2 s =
     (case (short_operand op1, short_operand op2) of
        (Some v1, Some v2) \<Rightarrow> Some (rel_test op (of_bool (sint v1 > sint v2) - of_bool (sint v1 < sint v2)), s)
      | _ \<Rightarrow>
         do {
           val \<leftarrow> (case (float_operand op1, float_operand op2) of
               (Some d1, _) \<Rightarrow>
                 do {
                   p2 \<leftarrow> JS_ToBigIntBuf op2 s;
                   let val = js_bigint_float64_cmp p2 d1;
                   Some (if val = 2 then None else Some (- val))
                 }
             | (None, Some d2) \<Rightarrow>
                 do {
                   p1 \<leftarrow> JS_ToBigIntBuf op1 s;
                   let val = js_bigint_float64_cmp p1 d2;
                   Some (if val = 2 then None else Some val)
                 }
             | (None, None) \<Rightarrow>
                 do {
                   p1 \<leftarrow> JS_ToBigIntBuf op1 s;
                   p2 \<leftarrow> JS_ToBigIntBuf op2 s;
                   Some (Some (js_bigint_cmp p1 p2))
                 });
           s \<leftarrow> free_operands h op1 op2 s;
           Some (case val of None \<Rightarrow> False | Some val \<Rightarrow> rel_test op val, s)
         })"

text \<open>The label \<open>float64_compare\<close>.\<close>

fun float64_compare :: "rel_op \<Rightarrow> f64 \<Rightarrow> f64 \<Rightarrow> bool" where
  "float64_compare OP_lt d1 d2 = f64_lt d1 d2"
| "float64_compare OP_lte d1 d2 = f64_le d1 d2"
| "float64_compare OP_gt d1 d2 = f64_lt d2 d1"
| "float64_compare _ d1 d2 = f64_le d2 d1"

text \<open>The double of an operand of the comparison, an \<open>int32_t\<close> unless the tag says that it is a double.\<close>

definition compare_double :: "js_val \<Rightarrow> f64 option" where
  "compare_double v =
     (case v of
        TagFloat64 d \<Rightarrow> Some d
      | TagInt i \<Rightarrow> Some (f64_of_int (sint i))
      | TagBool i \<Rightarrow> Some (f64_of_int (sint i))
      | TagNull \<Rightarrow> Some (f64_of_int 0)
      | _ \<Rightarrow> None)"

definition js_relational_slow :: "'w host \<Rightarrow> rel_op \<Rightarrow> js_val \<Rightarrow> js_val \<Rightarrow> 'w js_state \<Rightarrow> 'w op_result" where
  "js_relational_slow h op op1 op2 s =
     do {
       (vs, s) \<leftarrow> to_primitive2 h HINT_NUMBER op1 op2 s;
       (case vs of
          None \<Rightarrow> Some (None, s)
        | Some (op1, op2) \<Rightarrow>
           if tag_is_string op1 \<and> tag_is_string op2
           then do {
             let res = rel_test (if op = OP_eq then OP_gte else op) (host_compare h op1 op2 s);
             s \<leftarrow> free_operands h op1 op2 s;
             Some (Some (TagBool (of_bool res)), s)
           }
           else
            case (compare_double op1, compare_double op2) of
              (Some d1, Some d2) \<Rightarrow> Some (Some (TagBool (of_bool (float64_compare op d1 d2))), s)
            | _ \<Rightarrow>
               if is_big op1 \<and> tag_is_string op2
               then
                let (v2, s) = host_string_bigint h op2 s
                in if \<not> is_big v2
                   then do { s \<leftarrow> free_operands h op1 v2 s; Some (Some (TagBool 0), s) }
                   else do { (res, s) \<leftarrow> js_compare_bigint h op op1 v2 s; Some (Some (TagBool (of_bool res)), s) }
               else if is_big op2 \<and> tag_is_string op1
               then
                let (v1, s) = host_string_bigint h op1 s
                in if \<not> is_big v1
                   then do { s \<leftarrow> free_operands h v1 op2 s; Some (Some (TagBool 0), s) }
                   else do { (res, s) \<leftarrow> js_compare_bigint h op v1 op2 s; Some (Some (TagBool (of_bool res)), s) }
               else do {
                 (vs, s) \<leftarrow> to_numeric2 h op1 op2 s;
                 (case vs of
                    None \<Rightarrow> Some (None, s)
                  | Some (v1, v2) \<Rightarrow>
                     if is_big v1 \<or> is_big v2
                     then do { (res, s) \<leftarrow> js_compare_bigint h op v1 v2 s; Some (Some (TagBool (of_bool res)), s) }
                     else do {
                       d1 \<leftarrow> compare_double v1;
                       d2 \<leftarrow> compare_double v2;
                       Some (Some (TagBool (of_bool (float64_compare op d1 d2))), s)
                     })
               })
     }"

section \<open>Postfix increment\<close>

text \<open>The old value stays below the new one on the stack.\<close>

definition js_post_inc_slow :: "'w host \<Rightarrow> unary_op \<Rightarrow> js_val \<Rightarrow> 'w js_state \<Rightarrow> ((js_val \<times> js_val option) option \<times> 'w js_state) option" where
  "js_post_inc_slow h op op1 s =
     do {
       (v, s) \<leftarrow> JS_ToNumericFree h op1 s;
       if v = TagException then Some (None, s)
       else do {
         s \<leftarrow> JS_DupValue h v s;
         (r, s) \<leftarrow> js_unary_arith_slow h op v s;
         Some (Some (v, r), s)
       }
     }"

section \<open>BigInt functions of the library\<close>

definition JS_ToIndex :: "'w host \<Rightarrow> js_val \<Rightarrow> 'w js_state \<Rightarrow> (u64 option \<times> 'w js_state) option" where
  "JS_ToIndex h v s =
     do {
       s \<leftarrow> JS_DupValue h v s;
       (r, s) \<leftarrow> JS_ToInt64SatFree h v s;
       (case r of
          None \<Rightarrow> Some (None, s)
        | Some i \<Rightarrow>
            if sint i < 0 \<or> sint i > 2 ^ 53 - 1
            then Some (None, throw (JS_ThrowRangeError ''invalid array index'') s)
            else Some (Some i, s))
     }"

text \<open>A string that is not a BigInt literal reads as NaN.\<close>

definition JS_StringToBigIntErr :: "'w host \<Rightarrow> js_val \<Rightarrow> 'w js_state \<Rightarrow> js_val \<times> 'w js_state" where
  "JS_StringToBigIntErr h v s =
     (let (v, s) = host_string_bigint h v s
      in case v of
           TagFloat64 d \<Rightarrow>
             if f64_is_nan d then (TagException, throw (JS_ThrowSyntaxError ''invalid bigint literal'') s) else (v, s)
         | _ \<Rightarrow> (v, s))"

partial_function (option) JS_ToBigIntFree :: "'w host \<Rightarrow> js_val \<Rightarrow> 'w js_state \<Rightarrow> (js_val \<times> 'w js_state) option" where
  "JS_ToBigIntFree h v s =
     (case v of
        TagShortBigInt w \<Rightarrow> Some (v, s)
      | TagBigInt p \<Rightarrow> Some (v, s)
      | TagBool b \<Rightarrow> Some (TagShortBigInt (scast b), s)
      | TagString a \<Rightarrow>
          (let (v, s) = JS_StringToBigIntErr h v s
           in if v = TagException then Some (v, s) else JS_ToBigIntFree h v s)
      | TagStringRope a \<Rightarrow>
          (let (v, s) = JS_StringToBigIntErr h v s
           in if v = TagException then Some (v, s) else JS_ToBigIntFree h v s)
      | TagObject a \<Rightarrow>
          (let (v, s) = JS_ToPrimitiveFree h v HINT_NUMBER s
           in if v = TagException then Some (v, s) else JS_ToBigIntFree h v s)
      | _ \<Rightarrow>
         do {
           s \<leftarrow> JS_FreeValue h v s;
           Some (TagException, throw (JS_ThrowTypeError ''cannot convert to bigint'') s)
         })"

definition JS_ToBigInt64Free :: "'w host \<Rightarrow> js_val \<Rightarrow> 'w js_state \<Rightarrow> (u64 option \<times> 'w js_state) option" where
  "JS_ToBigInt64Free h v s =
     do {
       (v, s) \<leftarrow> JS_ToBigIntFree h v s;
       (case v of
          TagException \<Rightarrow> Some (None, s)
        | TagShortBigInt w \<Rightarrow> Some (Some w, s)
        | TagBigInt p \<Rightarrow>
           do {
             x \<leftarrow> heap s p;
             s \<leftarrow> JS_FreeValue h v s;
             Some (Some (hd (tab x)), s)
           }
        | _ \<Rightarrow> None)
     }"

text \<open>The branch for a double of \<open>JS_ToBigIntCtorFree\<close>.\<close>

definition float64_to_bigint :: "f64 \<Rightarrow> 'w js_state \<Rightarrow> js_val \<times> 'w js_state" where
  "float64_to_bigint d s =
     (let (res, r, c) = js_bigint_from_float64 d (ctx s);
          s = s \<lparr>ctx := c\<rparr>
      in case r of
           Some r \<Rightarrow> JS_CompactBigInt r s
         | None \<Rightarrow>
            (TagException,
             if res = 0 then s
             else if res = 1 then throw (JS_ThrowRangeError ''cannot convert to BigInt: not an integer'') s
             else throw (JS_ThrowRangeError ''cannot convert NaN or Infinity to BigInt'') s))"

partial_function (option) JS_ToBigIntCtorFree :: "'w host \<Rightarrow> js_val \<Rightarrow> 'w js_state \<Rightarrow> (js_val \<times> 'w js_state) option" where
  "JS_ToBigIntCtorFree h v s =
     (case v of
        TagInt i \<Rightarrow> Some (JS_NewBigInt64 (scast i), s)
      | TagBool i \<Rightarrow> Some (JS_NewBigInt64 (scast i), s)
      | TagShortBigInt w \<Rightarrow> Some (v, s)
      | TagBigInt p \<Rightarrow> Some (v, s)
      | TagFloat64 d \<Rightarrow> Some (float64_to_bigint d s)
      | TagString a \<Rightarrow> Some (JS_StringToBigIntErr h v s)
      | TagStringRope a \<Rightarrow> Some (JS_StringToBigIntErr h v s)
      | TagObject a \<Rightarrow>
          (let (v, s) = JS_ToPrimitiveFree h v HINT_NUMBER s
           in if v = TagException then Some (v, s) else JS_ToBigIntCtorFree h v s)
      | _ \<Rightarrow>
         do {
           s \<leftarrow> JS_FreeValue h v s;
           Some (TagException, throw (JS_ThrowTypeError ''cannot convert to BigInt'') s)
         })"

text \<open>\<open>BigInt.asUintN\<close> and \<open>BigInt.asIntN\<close>, on a number of bits and a BigInt.\<close>

definition asUintN_short :: "nat \<Rightarrow> u64 \<Rightarrow> bool \<Rightarrow> u64" where
  "asUintN_short bits v asIntN =
     (let shift = 64 - bits;
          v = push_bit shift v
      in if asIntN then signed_drop_bit shift v else drop_bit shift v)"

definition asUintN_limbs :: "nat \<Rightarrow> js_limb_t list \<Rightarrow> bool \<Rightarrow> js_limb_t list" where
  "asUintN_limbs bits t asIntN =
     (let n = (bits + 63) div 64;
          shift = (- int bits) mod 64;
          v = push_bit (nat shift) (t ! (n - 1));
          v = (if asIntN then signed_drop_bit (nat shift) v else drop_bit (nat shift) v)
      in take (n - 1) t @ [v])"

definition asUintN :: "'w host \<Rightarrow> nat \<Rightarrow> js_val \<Rightarrow> bool \<Rightarrow> 'w js_state \<Rightarrow> (js_val \<times> 'w js_state) option" where
  "asUintN h bits a asIntN s =
     (if bits = 0 then do { s \<leftarrow> JS_FreeValue h a s; Some (TagShortBigInt 0, s) }
      else case a of
        TagShortBigInt v \<Rightarrow>
          if bits \<ge> 64 then Some (a, s) else Some (TagShortBigInt (asUintN_short bits v asIntN), s)
      | TagBigInt q \<Rightarrow>
         do {
           p \<leftarrow> heap s q;
           if bits \<ge> len p * 64 then Some (a, s)
           else case js_bigint_new ((bits + 63) div 64) (ctx s) of
             (None, c) \<Rightarrow> do { s \<leftarrow> JS_FreeValue h a (s \<lparr>ctx := c\<rparr>); Some (TagException, s) }
           | (Some r, c) \<Rightarrow>
              do {
                let (r, c) = js_bigint_normalize (r \<lparr>tab := asUintN_limbs bits (tab p) asIntN\<rparr>) c;
                s \<leftarrow> JS_FreeValue h a (s \<lparr>ctx := c\<rparr>);
                Some (JS_CompactBigInt r s)
              }
         }
      | _ \<Rightarrow> None)"

definition js_bigint_asUintN :: "'w host \<Rightarrow> js_val \<Rightarrow> js_val \<Rightarrow> bool \<Rightarrow> 'w js_state \<Rightarrow> (js_val \<times> 'w js_state) option" where
  "js_bigint_asUintN h arg0 arg1 asIntN s =
     do {
       (bits, s) \<leftarrow> JS_ToIndex h arg0 s;
       (case bits of
          None \<Rightarrow> Some (TagException, s)
        | Some bits \<Rightarrow>
           do {
             s \<leftarrow> JS_DupValue h arg1 s;
             (a, s) \<leftarrow> JS_ToBigIntFree h arg1 s;
             if a = TagException then Some (TagException, s) else asUintN h (unat bits) a asIntN s
           })
     }"

end
