(* ===== verification/Equality.thy ===== *)
theory Equality
  imports Operators JSValue
begin

text \<open>
  The equality of JavaScript values in quickjs.c: \<open>js_strict_eq2\<close> with its three modes and the functions built on
  it, and the loose equality \<open>js_eq_slow\<close>, whose loop is the label \<open>redo\<close>. The comparison of strings and the flag
  \<open>is_HTMLDDA\<close> of objects belong to the \<open>host\<close>.
\<close>

section \<open>Strict equality\<close>

datatype JSStrictEqModeEnum = JS_EQ_STRICT | JS_EQ_SAME_VALUE | JS_EQ_SAME_VALUE_ZERO

text \<open>The label \<open>number_test\<close>.\<close>

definition number_test :: "JSStrictEqModeEnum \<Rightarrow> f64 \<Rightarrow> f64 \<Rightarrow> bool" where
  "number_test eq_mode d1 d2 =
     (if eq_mode \<noteq> JS_EQ_STRICT
      then
        if f64_is_nan d1 \<or> f64_is_nan d2 then f64_is_nan d1 = f64_is_nan d2
        else if eq_mode = JS_EQ_SAME_VALUE_ZERO then f64_eq d1 d2
        else d1 = d2
      else f64_eq d1 d2)"

text \<open>The operands are released after every answer but those on two booleans or two numbers.\<close>

definition free_answer :: "'w host \<Rightarrow> js_val \<Rightarrow> js_val \<Rightarrow> bool \<Rightarrow> 'w js_state \<Rightarrow> (bool \<times> 'w js_state) option" where
  "free_answer h op1 op2 res s = do { s \<leftarrow> free_operands h op1 op2 s; Some (res, s) }"

definition js_strict_eq2 ::
  "'w host \<Rightarrow> js_val \<Rightarrow> js_val \<Rightarrow> JSStrictEqModeEnum \<Rightarrow> 'w js_state \<Rightarrow> (bool \<times> 'w js_state) option" where
  "js_strict_eq2 h op1 op2 eq_mode s =
     (let done_free = (\<lambda>res. free_answer h op1 op2 res s)
      in case op1 of
        TagBool b1 \<Rightarrow> (case op2 of TagBool b2 \<Rightarrow> Some (b1 = b2, s) | _ \<Rightarrow> done_free False)
      | TagNull \<Rightarrow> done_free (op2 = TagNull)
      | TagUndefined \<Rightarrow> done_free (op2 = TagUndefined)
      | TagString a \<Rightarrow> done_free (tag_is_string op2 \<and> host_string_eq h op1 op2 s)
      | TagStringRope a \<Rightarrow> done_free (tag_is_string op2 \<and> host_string_eq h op1 op2 s)
      | TagSymbol p1 \<Rightarrow> done_free (case op2 of TagSymbol p2 \<Rightarrow> p1 = p2 | _ \<Rightarrow> False)
      | TagObject p1 \<Rightarrow> done_free (case op2 of TagObject p2 \<Rightarrow> p1 = p2 | _ \<Rightarrow> False)
      | TagInt i1 \<Rightarrow>
          (case op2 of
             TagInt i2 \<Rightarrow> Some (number_test eq_mode (f64_of_int (sint i1)) (f64_of_int (sint i2)), s)
           | TagFloat64 d2 \<Rightarrow> Some (number_test eq_mode (f64_of_int (sint i1)) d2, s)
           | _ \<Rightarrow> done_free False)
      | TagFloat64 d1 \<Rightarrow>
          (case op2 of
             TagFloat64 d2 \<Rightarrow> Some (number_test eq_mode d1 d2, s)
           | TagInt i2 \<Rightarrow> Some (number_test eq_mode d1 (f64_of_int (sint i2)), s)
           | _ \<Rightarrow> done_free False)
      | _ \<Rightarrow>
          if is_big op1
          then if \<not> is_big op2 then done_free False
            else do { p1 \<leftarrow> big_operand op1 s; p2 \<leftarrow> big_operand op2 s; done_free (js_bigint_cmp p1 p2 = 0) }
          else done_free False)"

text \<open>The functions that keep their arguments.\<close>

definition dup_operands :: "'w host \<Rightarrow> js_val \<Rightarrow> js_val \<Rightarrow> 'w js_state \<Rightarrow> 'w js_state option" where
  "dup_operands h op1 op2 s = do { s \<leftarrow> JS_DupValue h op1 s; JS_DupValue h op2 s }"

definition js_strict_eq :: "'w host \<Rightarrow> js_val \<Rightarrow> js_val \<Rightarrow> 'w js_state \<Rightarrow> (bool \<times> 'w js_state) option" where
  "js_strict_eq h op1 op2 s = do { s \<leftarrow> dup_operands h op1 op2 s; js_strict_eq2 h op1 op2 JS_EQ_STRICT s }"

definition JS_StrictEq :: "'w host \<Rightarrow> js_val \<Rightarrow> js_val \<Rightarrow> 'w js_state \<Rightarrow> (bool \<times> 'w js_state) option" where
  "JS_StrictEq h op1 op2 s = js_strict_eq h op1 op2 s"

definition js_same_value :: "'w host \<Rightarrow> js_val \<Rightarrow> js_val \<Rightarrow> 'w js_state \<Rightarrow> (bool \<times> 'w js_state) option" where
  "js_same_value h op1 op2 s = do { s \<leftarrow> dup_operands h op1 op2 s; js_strict_eq2 h op1 op2 JS_EQ_SAME_VALUE s }"

definition JS_SameValue :: "'w host \<Rightarrow> js_val \<Rightarrow> js_val \<Rightarrow> 'w js_state \<Rightarrow> (bool \<times> 'w js_state) option" where
  "JS_SameValue h op1 op2 s = js_same_value h op1 op2 s"

definition js_same_value_zero :: "'w host \<Rightarrow> js_val \<Rightarrow> js_val \<Rightarrow> 'w js_state \<Rightarrow> (bool \<times> 'w js_state) option" where
  "js_same_value_zero h op1 op2 s =
     do { s \<leftarrow> dup_operands h op1 op2 s; js_strict_eq2 h op1 op2 JS_EQ_SAME_VALUE_ZERO s }"

definition JS_SameValueZero :: "'w host \<Rightarrow> js_val \<Rightarrow> js_val \<Rightarrow> 'w js_state \<Rightarrow> (bool \<times> 'w js_state) option" where
  "JS_SameValueZero h op1 op2 s = js_same_value_zero h op1 op2 s"

definition js_strict_eq_slow :: "'w host \<Rightarrow> js_val \<Rightarrow> js_val \<Rightarrow> bool \<Rightarrow> 'w js_state \<Rightarrow> 'w op_result" where
  "js_strict_eq_slow h op1 op2 is_neq s =
     do { (res, s) \<leftarrow> js_strict_eq2 h op1 op2 JS_EQ_STRICT s; Some (Some (TagBool (of_bool (res \<noteq> is_neq))), s) }"

section \<open>Loose equality\<close>

definition JS_VALUE_GET_NORM_TAG :: "js_val \<Rightarrow> u32" where
  "JS_VALUE_GET_NORM_TAG v =
     (case v of
        TagInt i \<Rightarrow> JS_TAG_INT | TagBool b \<Rightarrow> JS_TAG_BOOL | TagNull \<Rightarrow> JS_TAG_NULL | TagUndefined \<Rightarrow> JS_TAG_UNDEFINED
      | TagException \<Rightarrow> JS_TAG_EXCEPTION | TagFloat64 d \<Rightarrow> JS_TAG_FLOAT64 | TagShortBigInt w \<Rightarrow> JS_TAG_SHORT_BIG_INT
      | TagBigInt p \<Rightarrow> JS_TAG_BIG_INT | TagSymbol a \<Rightarrow> JS_TAG_SYMBOL | TagString a \<Rightarrow> JS_TAG_STRING
      | TagStringRope a \<Rightarrow> JS_TAG_STRING_ROPE | TagObject a \<Rightarrow> JS_TAG_OBJECT | TagInternal t \<Rightarrow> t)"

definition JS_IsHTMLDDA :: "'w host \<Rightarrow> js_val \<Rightarrow> 'w js_state \<Rightarrow> bool" where
  "JS_IsHTMLDDA h obj s = (case obj of TagObject a \<Rightarrow> host_is_HTMLDDA h a s | _ \<Rightarrow> False)"

definition is_nullish :: "js_val \<Rightarrow> bool" where
  "is_nullish v \<longleftrightarrow> v = TagNull \<or> v = TagUndefined"

definition is_bool :: "js_val \<Rightarrow> bool" where
  "is_bool v \<longleftrightarrow> (case v of TagBool b \<Rightarrow> True | _ \<Rightarrow> False)"

definition bool_to_int :: "js_val \<Rightarrow> js_val" where
  "bool_to_int v = (case v of TagBool b \<Rightarrow> TagInt b | _ \<Rightarrow> v)"

text \<open>What an object is compared with after it has been converted to a primitive value.\<close>

definition converts_object :: "js_val \<Rightarrow> js_val \<Rightarrow> bool" where
  "converts_object op1 op2 \<longleftrightarrow>
     is_object op1 \<and> (tag_is_number op2 \<or> tag_is_string op2 \<or> (case op2 of TagSymbol a \<Rightarrow> True | _ \<Rightarrow> False))"

text \<open>Two numbers: integers, doubles, or at least one BigInt.\<close>

definition number_double :: "js_val \<Rightarrow> f64 option" where
  "number_double v =
     (case v of TagFloat64 d \<Rightarrow> Some d | TagInt i \<Rightarrow> Some (f64_of_int (sint i)) | _ \<Rightarrow> None)"

definition js_eq_numbers :: "'w host \<Rightarrow> js_val \<Rightarrow> js_val \<Rightarrow> 'w js_state \<Rightarrow> (bool \<times> 'w js_state) option" where
  "js_eq_numbers h op1 op2 s =
     (case (op1, op2) of
        (TagInt i1, TagInt i2) \<Rightarrow> Some (i1 = i2, s)
      | _ \<Rightarrow>
          (case (number_double op1, number_double op2) of
             (Some d1, Some d2) \<Rightarrow> Some (f64_eq d1 d2, s)
           | _ \<Rightarrow> js_compare_bigint h OP_eq op1 op2 s))"

text \<open>
  A string and a number: the string is read as a BigInt if the number is one and as a number otherwise. The inner
  \<open>None\<close> is an exception.
\<close>

definition js_eq_string_number :: "'w host \<Rightarrow> js_val \<Rightarrow> js_val \<Rightarrow> 'w js_state \<Rightarrow> (bool option \<times> 'w js_state) option" where
  "js_eq_string_number h op1 op2 s =
     (if is_big op1 \<or> is_big op2
      then
        let (op1, s) = (if tag_is_string op1 then host_string_bigint h op1 s else (op1, s))
        in if \<not> is_big op1 then do { s \<leftarrow> free_operands h op1 op2 s; Some (Some False, s) }
           else
            let (op2, s) = (if tag_is_string op2 then host_string_bigint h op2 s else (op2, s))
            in if \<not> is_big op2 then do { s \<leftarrow> free_operands h op1 op2 s; Some (Some False, s) }
               else do { (res, s) \<leftarrow> js_strict_eq2 h op1 op2 JS_EQ_STRICT s; Some (Some res, s) }
      else do {
        (vs, s) \<leftarrow> to_numeric2 h op1 op2 s;
        (case vs of
           None \<Rightarrow> Some (None, s)
         | Some (op1, op2) \<Rightarrow> do { (res, s) \<leftarrow> js_strict_eq2 h op1 op2 JS_EQ_STRICT s; Some (Some res, s) }) })"

text \<open>The label \<open>done\<close>.\<close>

definition eq_done :: "bool \<Rightarrow> bool \<times> 'w js_state \<Rightarrow> 'w op_result" where
  "eq_done is_neq = (\<lambda>(res, s). Some (Some (TagBool (of_bool (res \<noteq> is_neq))), s))"

partial_function (option) js_eq_slow :: "'w host \<Rightarrow> js_val \<Rightarrow> js_val \<Rightarrow> bool \<Rightarrow> 'w js_state \<Rightarrow> 'w op_result" where
  "js_eq_slow h op1 op2 is_neq s =
     (if tag_is_number op1 \<and> tag_is_number op2
      then do { r \<leftarrow> js_eq_numbers h op1 op2 s; eq_done is_neq r }
      else if JS_VALUE_GET_NORM_TAG op1 = JS_VALUE_GET_NORM_TAG op2
      then do { r \<leftarrow> js_strict_eq2 h op1 op2 JS_EQ_STRICT s; eq_done is_neq r }
      else if is_nullish op1 \<and> is_nullish op2 then eq_done is_neq (True, s)
      else if tag_is_string op1 \<and> tag_is_string op2
      then do { r \<leftarrow> js_strict_eq2 h op1 op2 JS_EQ_STRICT s; eq_done is_neq r }
      else if (tag_is_string op1 \<and> tag_is_number op2) \<or> (tag_is_string op2 \<and> tag_is_number op1)
      then do { (r, s) \<leftarrow> js_eq_string_number h op1 op2 s;
                case r of None \<Rightarrow> Some (None, s) | Some res \<Rightarrow> eq_done is_neq (res, s) }
      else if is_bool op1 then js_eq_slow h (bool_to_int op1) op2 is_neq s
      else if is_bool op2 then js_eq_slow h op1 (bool_to_int op2) is_neq s
      else if converts_object op1 op2 \<or> converts_object op2 op1
      then do { (vs, s) \<leftarrow> to_primitive2 h HINT_NONE op1 op2 s;
                if vs = None then Some (None, s)
                else js_eq_slow h (fst (the vs)) (snd (the vs)) is_neq s }
      else do { s' \<leftarrow> free_operands h op1 op2 s;
                eq_done is_neq
                  ((JS_IsHTMLDDA h op1 s \<and> is_nullish op2) \<or> (JS_IsHTMLDDA h op2 s \<and> is_nullish op1), s') })"

declare js_eq_slow.simps [code]

end
