(* ===== verification/Conversions.thy ===== *)
theory Conversions
  imports Equality Bytes
begin

text \<open>
  The conversions of quickjs.c that lead to a truth value, a clamped integer or an array length, and the
  variants of the numeric conversions that keep their argument.
\<close>

unbundle bit_operations_syntax

section \<open>Conversions that keep their argument\<close>

definition JS_ToInt32 :: "'w host \<Rightarrow> js_val \<Rightarrow> 'w js_state \<Rightarrow> (u32 option \<times> 'w js_state) option" where
  "JS_ToInt32 h v s = do { s \<leftarrow> JS_DupValue h v s; JS_ToInt32Free h v s }"

definition JS_ToInt64 :: "'w host \<Rightarrow> js_val \<Rightarrow> 'w js_state \<Rightarrow> (u64 option \<times> 'w js_state) option" where
  "JS_ToInt64 h v s = do { s \<leftarrow> JS_DupValue h v s; JS_ToInt64Free h v s }"

definition JS_ToFloat64 :: "'w host \<Rightarrow> js_val \<Rightarrow> 'w js_state \<Rightarrow> (f64 option \<times> 'w js_state) option" where
  "JS_ToFloat64 h v s = do { s \<leftarrow> JS_DupValue h v s; JS_ToFloat64Free h v s }"

definition JS_ToNumber :: "'w host \<Rightarrow> js_val \<Rightarrow> 'w js_state \<Rightarrow> (js_val \<times> 'w js_state) option" where
  "JS_ToNumber h v s = do { s \<leftarrow> JS_DupValue h v s; JS_ToNumberFree h v s }"

definition JS_ToInt32Sat :: "'w host \<Rightarrow> js_val \<Rightarrow> 'w js_state \<Rightarrow> (u32 option \<times> 'w js_state) option" where
  "JS_ToInt32Sat h v s = do { s \<leftarrow> JS_DupValue h v s; JS_ToInt32SatFree h v s }"

definition JS_ToInt64Sat :: "'w host \<Rightarrow> js_val \<Rightarrow> 'w js_state \<Rightarrow> (u64 option \<times> 'w js_state) option" where
  "JS_ToInt64Sat h v s = do { s \<leftarrow> JS_DupValue h v s; JS_ToInt64SatFree h v s }"

section \<open>Truth values\<close>

text \<open>The loop over the limbs of a BigInt, from the highest one. \<open>None\<close> is the result \<open>-1\<close>.\<close>

fun limbs_nonzero :: "u64 list \<Rightarrow> nat \<Rightarrow> bool" where
  "limbs_nonzero t 0 = False"
| "limbs_nonzero t (Suc i) = (if t ! i \<noteq> 0 then True else limbs_nonzero t i)"

definition JS_ToBoolFree :: "'w host \<Rightarrow> js_val \<Rightarrow> 'w js_state \<Rightarrow> (u32 option \<times> 'w js_state) option" where
  "JS_ToBoolFree h v s =
     (let after = (\<lambda>ret. do { s \<leftarrow> JS_FreeValue h v s; Some (Some (of_bool ret), s) })
      in case v of
        TagInt i \<Rightarrow> Some (Some (of_bool (i \<noteq> 0)), s)
      | TagBool b \<Rightarrow> Some (Some b, s)
      | TagNull \<Rightarrow> Some (Some 0, s)
      | TagUndefined \<Rightarrow> Some (Some 0, s)
      | TagException \<Rightarrow> Some (None, s)
      | TagString a \<Rightarrow> after (host_string_len h v s \<noteq> 0)
      | TagStringRope a \<Rightarrow> after (host_string_len h v s \<noteq> 0)
      | TagShortBigInt w \<Rightarrow> Some (Some (of_bool (w \<noteq> 0)), s)
      | TagBigInt p \<Rightarrow> do { x \<leftarrow> heap s p; after (limbs_nonzero (tab x) (len x)) }
      | TagObject a \<Rightarrow> after (\<not> host_is_HTMLDDA h a s)
      | TagFloat64 d \<Rightarrow> Some (Some (of_bool (\<not> f64_is_nan d \<and> \<not> f64_eq d 0)), s)
      | _ \<Rightarrow> after True)"

definition JS_ToBool :: "'w host \<Rightarrow> js_val \<Rightarrow> 'w js_state \<Rightarrow> (u32 option \<times> 'w js_state) option" where
  "JS_ToBool h v s = do { s \<leftarrow> JS_DupValue h v s; JS_ToBoolFree h v s }"

section \<open>Clamped integers\<close>

text \<open>\<open>lrint (d)\<close> in the default rounding mode, for a double that is not negative: to nearest, ties to even.\<close>

definition f64_lrint :: "f64 \<Rightarrow> nat" where
  "f64_lrint d = round_quot (f64_mag d) (2 ^ 1074)"

definition float64_to_uint8_clamp :: "f64 \<Rightarrow> u32" where
  "float64_to_uint8_clamp d =
     (if f64_is_nan d then 0
      else if \<not> f64_ge_int d 0 then 0
      else if \<not> f64_le_int d 255 then 255
      else of_nat (f64_lrint d))"

partial_function (option) JS_ToUint8ClampFree :: "'w host \<Rightarrow> js_val \<Rightarrow> 'w js_state \<Rightarrow> (u32 option \<times> 'w js_state) option" where
  "JS_ToUint8ClampFree h v s =
     (case v of
        TagInt i \<Rightarrow> Some (Some (max_int 0 (min_int 255 i)), s)
      | TagBool i \<Rightarrow> Some (Some (max_int 0 (min_int 255 i)), s)
      | TagNull \<Rightarrow> Some (Some (max_int 0 (min_int 255 0)), s)
      | TagUndefined \<Rightarrow> Some (Some (max_int 0 (min_int 255 0)), s)
      | TagFloat64 d \<Rightarrow> Some (Some (float64_to_uint8_clamp d), s)
      | _ \<Rightarrow> do {
          (v, s) \<leftarrow> JS_ToNumberFree h v s;
          if v = TagException then Some (None, s) else JS_ToUint8ClampFree h v s
        })"

declare JS_ToUint8ClampFree.simps [code]

text \<open>\<open>int\<close> and \<open>int64_t\<close> additions: \<open>None\<close> is the overflow.\<close>

definition add_int32 :: "u32 \<Rightarrow> u32 \<Rightarrow> u32 option" where
  "add_int32 a b = (if sint (a + b) = sint a + sint b then Some (a + b) else None)"

definition add_int64 :: "u64 \<Rightarrow> u64 \<Rightarrow> u64 option" where
  "add_int64 a b = (if sint (a + b) = sint a + sint b then Some (a + b) else None)"

definition clamp_int32 :: "u32 \<Rightarrow> u32 \<Rightarrow> u32 \<Rightarrow> u32 \<Rightarrow> u32 option" where
  "clamp_int32 pres mn mx min_offset =
     (if sint pres < sint mn
      then do { pres \<leftarrow> add_int32 pres min_offset;
                Some (if sint pres < sint mn then mn else pres) }
      else Some (if sint pres > sint mx then mx else pres))"

definition JS_ToInt32Clamp ::
  "'w host \<Rightarrow> js_val \<Rightarrow> u32 \<Rightarrow> u32 \<Rightarrow> u32 \<Rightarrow> 'w js_state \<Rightarrow> (u32 option \<times> 'w js_state) option" where
  "JS_ToInt32Clamp h v mn mx min_offset s =
     do { (res, s) \<leftarrow> JS_ToInt32Sat h v s;
          (case res of
             None \<Rightarrow> Some (None, s)
           | Some pres \<Rightarrow> do { pres \<leftarrow> clamp_int32 pres mn mx min_offset; Some (Some pres, s) }) }"

definition clamp_int64 :: "u64 \<Rightarrow> u64 \<Rightarrow> u64 \<Rightarrow> u64 \<Rightarrow> u64 option" where
  "clamp_int64 pres mn mx neg_offset =
     do { pres \<leftarrow> (if sint pres < 0 then add_int64 pres neg_offset else Some pres);
          Some (if sint pres < sint mn then mn else if sint pres > sint mx then mx else pres) }"

definition JS_ToInt64Clamp ::
  "'w host \<Rightarrow> js_val \<Rightarrow> u64 \<Rightarrow> u64 \<Rightarrow> u64 \<Rightarrow> 'w js_state \<Rightarrow> (u64 option \<times> 'w js_state) option" where
  "JS_ToInt64Clamp h v mn mx neg_offset s =
     do { (res, s) \<leftarrow> JS_ToInt64Sat h v s;
          (case res of
             None \<Rightarrow> Some (None, s)
           | Some pres \<Rightarrow> do { pres \<leftarrow> clamp_int64 pres mn mx neg_offset; Some (Some pres, s) }) }"

section \<open>Lengths\<close>

definition MAX_SAFE_INTEGER :: u64 where
  "MAX_SAFE_INTEGER = push_bit 53 1 - 1"

definition JS_ToLengthFree :: "'w host \<Rightarrow> js_val \<Rightarrow> 'w js_state \<Rightarrow> (u64 option \<times> 'w js_state) option" where
  "JS_ToLengthFree h v s =
     do { (res, s) \<leftarrow> JS_ToInt64Clamp h v 0 MAX_SAFE_INTEGER 0 s;
          s \<leftarrow> JS_FreeValue h v s;
          Some (res, s) }"

text \<open>\<open>floor (d) == d\<close> of a finite double.\<close>

definition f64_integral :: "f64 \<Rightarrow> bool" where
  "f64_integral d \<longleftrightarrow> 2 ^ 1074 dvd f64_units d"

definition is_safe_integer :: "f64 \<Rightarrow> bool" where
  "is_safe_integer d \<longleftrightarrow> f64_finite d \<and> f64_integral d \<and> \<bar>f64_units d\<bar> \<le> sint MAX_SAFE_INTEGER * 2 ^ 1074"

definition JS_NumberIsInteger :: "'w host \<Rightarrow> js_val \<Rightarrow> 'w js_state \<Rightarrow> (bool option \<times> 'w js_state) option" where
  "JS_NumberIsInteger h v s =
     (case number_double v of
        None \<Rightarrow> Some (Some False, s)
      | Some _ \<Rightarrow>
          do { (r, s) \<leftarrow> JS_ToFloat64 h v s;
               Some (case r of None \<Rightarrow> None | Some d \<Rightarrow> Some (f64_finite d \<and> f64_integral d), s) })"

definition JS_NumberIsNegativeOrMinusZero :: "js_val \<Rightarrow> 'w js_state \<Rightarrow> bool option" where
  "JS_NumberIsNegativeOrMinusZero v s =
     (case v of
        TagInt i \<Rightarrow> Some (sint i < 0)
      | TagFloat64 d \<Rightarrow> Some (drop_bit 63 d \<noteq> 0)
      | TagShortBigInt w \<Rightarrow> Some (sint w < 0)
      | TagBigInt p \<Rightarrow> map_option (\<lambda>x. js_bigint_sign x \<noteq> 0) (heap s p)
      | _ \<Rightarrow> Some False)"

text \<open>\<open>(uint32_t) d\<close>; \<open>None\<close> where C leaves it undefined.\<close>

definition f64_to_uint32 :: "f64 \<Rightarrow> u32 option" where
  "f64_to_uint32 d =
     (if f64_finite d \<and> 0 \<le> f64_trunc d \<and> f64_trunc d < 2 ^ 32 then Some (word_of_int (f64_trunc d)) else None)"

definition invalid_length :: "'w js_state \<Rightarrow> (u32 option \<times> 'w js_state) option" where
  "invalid_length s = Some (None, throw (JS_ThrowRangeError ''invalid array length'') s)"

definition int_to_length :: "u32 \<Rightarrow> 'w js_state \<Rightarrow> (u32 option \<times> 'w js_state) option" where
  "int_to_length i s = (if sint i < 0 then invalid_length s else Some (Some i, s))"

definition float64_to_length :: "f64 \<Rightarrow> 'w js_state \<Rightarrow> (u32 option \<times> 'w js_state) option" where
  "float64_to_length d s =
     (if \<not> (f64_ge_int d 0 \<and> f64_le_int d (2 ^ 32 - 1)) then invalid_length s
      else do { n \<leftarrow> f64_to_uint32 d;
                if \<not> f64_eq (f64_of_int (uint n)) d then invalid_length s else Some (Some n, s) })"

text \<open>The cases of the values that are converted without a call.\<close>

definition has_length :: "js_val \<Rightarrow> bool" where
  "has_length v \<longleftrightarrow>
     (case v of TagInt i \<Rightarrow> True | TagBool i \<Rightarrow> True | TagNull \<Rightarrow> True | TagFloat64 d \<Rightarrow> True | _ \<Rightarrow> False)"

definition number_to_length :: "js_val \<Rightarrow> 'w js_state \<Rightarrow> (u32 option \<times> 'w js_state) option" where
  "number_to_length v s =
     (case v of
        TagInt i \<Rightarrow> int_to_length i s
      | TagBool i \<Rightarrow> int_to_length i s
      | TagNull \<Rightarrow> int_to_length 0 s
      | TagFloat64 d \<Rightarrow> float64_to_length d s
      | _ \<Rightarrow> None)"

partial_function (option) JS_ToArrayLengthFree ::
  "'w host \<Rightarrow> js_val \<Rightarrow> bool \<Rightarrow> 'w js_state \<Rightarrow> (u32 option \<times> 'w js_state) option" where
  "JS_ToArrayLengthFree h v is_array_ctor s =
     (if has_length v then number_to_length v s
      else if is_array_ctor
      then do { (v, s) \<leftarrow> JS_ToNumberFree h v s;
                if v = TagException then Some (None, s) else JS_ToArrayLengthFree h v True s }
      else do { (r, s) \<leftarrow> JS_ToInt32 h v s;
                if r = None then do { s \<leftarrow> JS_FreeValue h v s; Some (None, s) }
                else do { (v, s) \<leftarrow> JS_ToNumberFree h v s;
                          if v = TagException then Some (None, s)
                          else do { (r1, s) \<leftarrow> JS_ToArrayLengthFree h v False s;
                                    if r1 = None then Some (None, s)
                                    else if r1 \<noteq> r then invalid_length s
                                    else Some (r, s) } } })"

declare JS_ToArrayLengthFree.simps [code]

end
