(* ===== verification/Operator_Facts.thy ===== *)
theory Operator_Facts
  imports Operators
begin

text \<open>
  The contract of the operators on BigInts. A BigInt value stands for an integer; a value that fits a limb
  is always a short one. An operator consumes one reference to each operand and gives one reference to its
  result; it releases a block exactly when it frees an object, and it leaves the other objects alone.
\<close>

unbundle bit_operations_syntax

section \<open>The heap of BigInt objects\<close>

definition long_object :: "JSBigInt \<Rightarrow> bool" where
  "long_object x \<longleftrightarrow> 1 \<le> ref_count x \<and> normal (tab x) \<and> 2 \<le> len x"

definition heap_ok :: "'w js_state \<Rightarrow> bool" where
  "heap_ok s \<longleftrightarrow> (\<forall>p x. heap s p = Some x \<longrightarrow> p < fresh_addr s \<and> long_object x)"

definition refs :: "'w js_state \<Rightarrow> nat \<Rightarrow> int" where
  "refs s p = (case heap s p of None \<Rightarrow> 0 | Some x \<Rightarrow> ref_count x)"

definition value_of :: "'w js_state \<Rightarrow> js_val \<Rightarrow> int option" where
  "value_of s v = map_option (\<lambda>x. ival (tab x)) (big_operand v s)"

text \<open>The references that a list of values holds.\<close>

definition held :: "js_val list \<Rightarrow> nat \<Rightarrow> int" where
  "held vs p = int (count_list vs (TagBigInt p))"

definition owned :: "'w js_state \<Rightarrow> js_val list \<Rightarrow> bool" where
  "owned s vs \<longleftrightarrow> (\<forall>p. held vs p \<le> refs s p)"

definition live :: "'w js_state \<Rightarrow> int" where
  "live s = int (card (dom (heap s)))"

text \<open>What a step may do to the state: references \<open>lost\<close> and \<open>gained\<close>, objects freed or made, nothing else.\<close>

definition transfers :: "(nat \<Rightarrow> int) \<Rightarrow> (nat \<Rightarrow> int) \<Rightarrow> 'w js_state \<Rightarrow> 'w js_state \<Rightarrow> bool" where
  "transfers lost gained s s' \<longleftrightarrow>
     heap_ok s' \<and> world s' = world s \<and> fresh_addr s \<le> fresh_addr s'
     \<and> (\<forall>p. refs s' p = refs s p - lost p + gained p)
     \<and> (\<forall>p x y. heap s p = Some x \<longrightarrow> heap s' p = Some y \<longrightarrow> tab y = tab x)"

lemma heap_okD: "heap_ok s \<Longrightarrow> heap s p = Some x \<Longrightarrow> p < fresh_addr s \<and> long_object x"
  by (simp add: heap_ok_def)

lemma heap_ok_ctx [simp]: "heap_ok (s \<lparr>ctx := c\<rparr>) = heap_ok s"
  by (simp add: heap_ok_def)

lemma refs_ctx [simp]: "refs (s \<lparr>ctx := c\<rparr>) = refs s"
  by (simp add: refs_def fun_eq_iff)

lemma live_ctx [simp]: "live (s \<lparr>ctx := c\<rparr>) = live s"
  by (simp add: live_def)

lemma owned_ctx [simp]: "owned (s \<lparr>ctx := c\<rparr>) vs = owned s vs"
  by (simp add: owned_def)

lemma value_of_ctx [simp]: "value_of (s \<lparr>ctx := c\<rparr>) v = value_of s v"
  by (simp add: value_of_def big_operand_def split: js_val.split)

lemma transfers_ctx [simp]:
  "transfers l g (s \<lparr>ctx := c\<rparr>) s' = transfers l g s s'" "transfers l g s (s' \<lparr>ctx := c\<rparr>) = transfers l g s s'"
  by (simp_all add: transfers_def)

lemma finite_heap: "heap_ok s \<Longrightarrow> finite (dom (heap s))"
  by (rule finite_subset [of _ "{..<fresh_addr s}"]) (auto simp: heap_ok_def)

lemma refs_pos: "heap_ok s \<Longrightarrow> heap s p \<noteq> None \<longleftrightarrow> 0 < refs s p"
  by (fastforce simp: refs_def heap_ok_def long_object_def split: option.splits)

lemma held_simps [simp]:
  "held [] p = 0" "held (v # vs) p = of_bool (v = TagBigInt p) + held vs p"
  by (simp_all add: held_def)

lemma held_nonneg: "0 \<le> held vs p"
  by (simp add: held_def)

lemma transfers_refl: "heap_ok s \<Longrightarrow> transfers (\<lambda>p. 0) (\<lambda>p. 0) s s"
  by (simp add: transfers_def)

lemma owned_step:
  assumes "owned s (v # vs)" and "\<And>q. refs s' q = refs s q - held [v] q"
  shows "owned s' vs"
  unfolding owned_def
proof
  fix p
  have "held (v # vs) p \<le> refs s p"
    using assms(1) by (simp only: owned_def)
  moreover have "held (v # vs) p = held [v] p + held vs p"
    by simp
  ultimately show "held vs p \<le> refs s' p"
    using assms(2) [of p] by linarith
qed

text \<open>Releasing one reference.\<close>

lemma JS_FreeValue_transfers:
  assumes "heap_ok s" and "owned s (v # vs)" and "tag_is_number v"
  shows "\<exists>s'. JS_FreeValue h v s = Some s' \<and> transfers (held [v]) (\<lambda>p. 0) s s' \<and> owned s' vs
    \<and> blocks (ctx s') - blocks (ctx s) = live s' - live s \<and> later (ctx s) (ctx s') \<and> exn (ctx s') = exn (ctx s)
    \<and> fresh_addr s' = fresh_addr s"
proof (cases v)
  case (TagBigInt p)
  have "1 \<le> refs s p"
    using assms(2) held_nonneg [of vs p] by (auto simp: owned_def TagBigInt dest: spec [of _ p])
  then obtain x where x: "heap s p = Some x" "1 \<le> ref_count x"
    by (auto simp: refs_def split: option.splits)
  have ok: "p < fresh_addr s" "long_object x"
    using heap_okD [OF assms(1) x(1)] by simp_all
  show ?thesis
  proof (cases "ref_count x = 1")
    case True
    define s' where "s' = s \<lparr>heap := (heap s)(p := None), ctx := js_free (ctx s)\<rparr>"
    have free: "JS_FreeValue h v s = Some s'"
      using x True by (simp add: JS_FreeValue_def TagBigInt s'_def)
    have refs': "refs s' q = refs s q - held [v] q" for q
      using x True by (simp add: refs_def s'_def TagBigInt)
    have "heap_ok s'"
      using assms(1) by (auto simp: heap_ok_def s'_def split: if_splits)
    moreover have "live s' = live s - 1"
      using card_Suc_Diff1 [OF finite_heap [OF assms(1)], of p] x(1) by (simp add: live_def s'_def domI)
    moreover have "owned s' vs"
      using assms(2) refs' by (rule owned_step)
    ultimately show ?thesis
      using refs' free by (auto simp: transfers_def s'_def js_free_def later_def split: if_splits)
  next
    case False
    define s' where "s' = s \<lparr>heap := (heap s)(p \<mapsto> x \<lparr>ref_count := ref_count x - 1\<rparr>)\<rparr>"
    have free: "JS_FreeValue h v s = Some s'"
      using x False by (simp add: JS_FreeValue_def TagBigInt s'_def)
    have refs': "refs s' q = refs s q - held [v] q" for q
      using x by (simp add: refs_def s'_def TagBigInt)
    have "long_object (x \<lparr>ref_count := ref_count x - 1\<rparr>)"
      using ok(2) x False by (simp add: long_object_def)
    then have "heap_ok s'"
      using assms(1) ok(1) by (auto simp: heap_ok_def s'_def split: if_splits)
    moreover have "live s' = live s"
      using x(1) by (simp add: live_def s'_def insert_absorb domI)
    moreover have "owned s' vs"
      using assms(2) refs' by (rule owned_step)
    ultimately show ?thesis
      using refs' free x(1) by (auto simp: transfers_def s'_def later_def split: if_splits)
  qed
qed (use assms in \<open>auto simp: tag_is_number_def JS_FreeValue_def transfers_def owned_def held_def fun_eq_iff later_def\<close>)

section \<open>Results\<close>

definition gives_ref :: "js_val option \<Rightarrow> nat \<Rightarrow> int" where
  "gives_ref r p = of_bool (r = Some (TagBigInt p))"

text \<open>
  The operator was called with the operands \<open>vs\<close> in \<open>s\<close>. It gives a value for \<open>z\<close>, or no value because
  the \<open>n\<close> limbs it needs are over the limit or because an allocation was refused.
\<close>

fun yields :: "nat \<Rightarrow> int \<Rightarrow> js_val list \<Rightarrow> 'w js_state \<Rightarrow> js_val option \<times> 'w js_state \<Rightarrow> bool" where
  "yields n z vs s (r, s') \<longleftrightarrow>
     transfers (held vs) (gives_ref r) s s' \<and> later (ctx s) (ctx s')
     \<and> blocks (ctx s') - blocks (ctx s) = live s' - live s
     \<and> (case r of
          Some v \<Rightarrow> is_big v \<and> value_of s' v = Some z \<and> (exn (ctx s') = exn (ctx s) \<or> refused (ctx s) (ctx s'))
        | None \<Rightarrow>
           JS_BIGINT_MAX_SIZE < n \<and> exn (ctx s') = Some (RangeError ''BigInt is too large to allocate'')
           \<or> refused (ctx s) (ctx s') \<and> exn (ctx s') = Some OutOfMemory)"

text \<open>Storing a new object.\<close>

lemma mk_big_int_transfers:
  assumes "heap_ok s" and "long_object x" and "ref_count x = 1"
  defines "s' \<equiv> snd (mk_big_int x s)"
  shows "transfers (\<lambda>p. 0) (gives_ref (Some (fst (mk_big_int x s)))) s s'" and "live s' = live s + 1" and "ctx s' = ctx s"
    and "value_of s' (fst (mk_big_int x s)) = Some (ival (tab x))" and "is_big (fst (mk_big_int x s))"
proof -
  have new: "heap s (fresh_addr s) = None"
    using assms(1) by (cases "heap s (fresh_addr s)") (auto simp: heap_ok_def)
  have "heap_ok s'"
    using assms by (auto simp: heap_ok_def mk_big_int_def less_Suc_eq split: if_splits)
  then show "transfers (\<lambda>p. 0) (gives_ref (Some (fst (mk_big_int x s)))) s s'"
    using new assms(3) by (auto simp: transfers_def s'_def mk_big_int_def refs_def gives_ref_def split: if_splits)
  show "live s' = live s + 1"
    using new finite_heap [OF assms(1)] by (simp add: live_def s'_def mk_big_int_def domIff)
qed (simp_all add: s'_def mk_big_int_def value_of_def big_operand_def is_big_def)

lemma transfers_trans:
  assumes "transfers l g s s'" and "transfers l' g' s' s''" and "\<And>p. heap s p \<noteq> None \<Longrightarrow> heap s' p = None \<Longrightarrow> heap s'' p = None"
  shows "transfers (\<lambda>p. l p + l' p) (\<lambda>p. g p + g' p) s s''"
proof -
  have "tab y = tab x" if xy: "heap s p = Some x" "heap s'' p = Some y" for p x y
  proof -
    obtain w where "heap s' p = Some w"
      using assms(3) [of p] xy by fastforce
    then show ?thesis
      using assms(1,2) xy unfolding transfers_def by metis
  qed
  then show ?thesis
    using assms(1,2) by (auto simp: transfers_def)
qed

text \<open>The end of every slow path on BigInts.\<close>

lemma compact_result_yields:
  assumes "heap_ok s" and "transfers (held vs) (\<lambda>p. 0) s s1" and "fresh_addr s1 = fresh_addr s"
    and "returns n z c (r, c')" and "ctx s = c" and "later c' (ctx s1)" and "exn (ctx s1) = exn c'"
    and "blocks (ctx s1) - blocks c' = live s1 - live s"
  shows "yields n z vs s (compact_result r s1)"
proof (cases r)
  case None
  then have "fails n 0 c c'"
    using assms(4) by simp
  moreover have "gives_ref None = (\<lambda>p. 0)"
    by (simp add: gives_ref_def fun_eq_iff)
  ultimately show ?thesis
    using None assms refused_mono [of c c' "ctx s1"] by (auto simp: compact_result_def fails_def intro: later_trans)
next
  case (Some x)
  then have x: "ref_count x = 1" "normal (tab x)" "ival (tab x) = z" and h: "holds 1 c c'"
    using assms(4) by (simp_all add: bigint_def)
  have ex: "exn (ctx s1) = exn c \<or> refused c (ctx s1)" and l: "later c (ctx s1)"
    using h assms(6,7) refused_mono [of c c' "ctx s1"] by (auto simp: holds_def intro: later_trans)
  have b: "blocks c' = blocks c + 1"
    using h by (simp add: holds_def)
  show ?thesis
  proof (cases "len x = 1")
    case True
    then obtain w where w: "tab x = [w]"
      by (cases "tab x") auto
    have "gives_ref (Some (TagShortBigInt w)) = (\<lambda>p. 0)"
      by (simp add: gives_ref_def fun_eq_iff)
    then show ?thesis
      using Some w x ex l b assms(2,5,8)
      by (auto simp: compact_result_def JS_CompactBigInt_def js_free_def is_big_def value_of_def big_operand_def
          js_bigint_set_short_def js_bigint_set_si_def later_def refused_def)
  next
    case False
    then have "2 \<le> len x"
      using x(2) by (cases "len x" rule: nat.exhaust) (auto simp: normal_def Suc_le_eq)
    then have lo: "long_object x"
      using x by (simp add: long_object_def)
    have ok1: "heap_ok s1"
      using assms(2) by (simp add: transfers_def)
    note mk = mk_big_int_transfers [OF ok1 lo x(1)]
    obtain v s2 where v: "mk_big_int x s1 = (v, s2)"
      by (cases "mk_big_int x s1")
    note mk = mk [unfolded v fst_conv snd_conv]
    have s2: "heap s2 = (heap s1)(fresh_addr s1 \<mapsto> x)"
      using v by (auto simp: mk_big_int_def)
    have "transfers (\<lambda>p. held vs p + 0) (\<lambda>p. 0 + gives_ref (Some v) p) s s2"
      using assms(2) mk(1) by (rule transfers_trans) (use v s2 assms(1,3) in \<open>auto simp: heap_ok_def\<close>)
    then show ?thesis
      using Some False v mk x(3) ex l b assms(5,8) by (simp add: compact_result_def JS_CompactBigInt_def)
  qed
qed

section \<open>Slow paths\<close>

lemma no_refs: "\<not> (\<exists>p. TagBigInt p \<in> set vs) \<Longrightarrow> held vs = (\<lambda>p. 0)"
  by (auto simp: held_def fun_eq_iff count_list_0_iff)

text \<open>Releasing references makes no object.\<close>

lemma transfers_lost:
  assumes "transfers l (\<lambda>p. 0) s s'" and "0 \<le> l p" and "heap s p = None"
  shows "heap s' p = None"
proof -
  have "refs s' p \<le> 0"
    using assms by (simp add: transfers_def refs_def)
  then show ?thesis
    using assms(1) refs_pos [of s' p] by (auto simp: transfers_def)
qed

lemma is_big_number: "is_big v \<Longrightarrow> tag_is_number v"
  by (cases v) (simp_all add: is_big_def tag_is_number_def)

lemma free_operands_transfers:
  assumes ok: "heap_ok s" and own: "owned s [op1, op2]" and big: "tag_is_number op1" "tag_is_number op2"
  shows "\<exists>s'. free_operands h op1 op2 s = Some s' \<and> transfers (held [op1, op2]) (\<lambda>p. 0) s s'
    \<and> blocks (ctx s') - blocks (ctx s) = live s' - live s \<and> later (ctx s) (ctx s') \<and> exn (ctx s') = exn (ctx s)
    \<and> fresh_addr s' = fresh_addr s"
proof -
  obtain s1 where s1: "JS_FreeValue h op1 s = Some s1" "transfers (held [op1]) (\<lambda>p. 0) s s1" "owned s1 [op2]"
    "blocks (ctx s1) - blocks (ctx s) = live s1 - live s" "later (ctx s) (ctx s1)" "exn (ctx s1) = exn (ctx s)"
    "fresh_addr s1 = fresh_addr s"
    using JS_FreeValue_transfers [OF ok own big(1)] by blast
  have ok1: "heap_ok s1"
    using s1(2) by (simp add: transfers_def)
  obtain s2 where s2: "JS_FreeValue h op2 s1 = Some s2" "transfers (held [op2]) (\<lambda>p. 0) s1 s2"
    "blocks (ctx s2) - blocks (ctx s1) = live s2 - live s1" "later (ctx s1) (ctx s2)" "exn (ctx s2) = exn (ctx s1)"
    "fresh_addr s2 = fresh_addr s1"
    using JS_FreeValue_transfers [OF ok1 s1(3) big(2)] by blast
  have "transfers (\<lambda>p. held [op1] p + held [op2] p) (\<lambda>p. 0 + 0) s s2"
    using s1(2) s2(2) by (rule transfers_trans) (use transfers_lost [OF s2(2)] held_nonneg in blast)
  moreover have "(\<lambda>p. held [op1] p + held [op2] p) = held [op1, op2]"
    by (simp add: fun_eq_iff)
  ultimately show ?thesis
    using s1 s2 by (auto simp: free_operands_def intro: later_trans)
qed

lemma binary_path_yields:
  assumes ok: "heap_ok s" and own: "owned s [op1, op2]" and big: "is_big op1" "is_big op2"
    and ret: "returns n z (ctx s) (r, c)"
  shows "\<exists>res. do { s \<leftarrow> free_operands h op1 op2 (s \<lparr>ctx := c\<rparr>); Some (compact_result r s) } = Some res
    \<and> yields n z [op1, op2] s res"
proof -
  obtain s1 where s1: "free_operands h op1 op2 (s \<lparr>ctx := c\<rparr>) = Some s1"
    "transfers (held [op1, op2]) (\<lambda>p. 0) s s1" "blocks (ctx s1) - blocks c = live s1 - live s"
    "later c (ctx s1)" "exn (ctx s1) = exn c" "fresh_addr s1 = fresh_addr s"
    using free_operands_transfers [of "s \<lparr>ctx := c\<rparr>" op1 op2] ok own big by (auto dest: is_big_number)
  then show ?thesis
    using compact_result_yields [OF ok s1(2,6) ret refl s1(4,5,3)] by simp
qed

lemma unary_path_yields:
  assumes ok: "heap_ok s" and own: "owned s [op1]" and big: "is_big op1" and ret: "returns n z (ctx s) (r, c)"
  shows "\<exists>res. do { s \<leftarrow> JS_FreeValue h op1 (s \<lparr>ctx := c\<rparr>); Some (compact_result r s) } = Some res
    \<and> yields n z [op1] s res"
proof -
  obtain s1 where s1: "JS_FreeValue h op1 (s \<lparr>ctx := c\<rparr>) = Some s1"
    "transfers (held [op1]) (\<lambda>p. 0) s s1" "blocks (ctx s1) - blocks c = live s1 - live s"
    "later c (ctx s1)" "exn (ctx s1) = exn c" "fresh_addr s1 = fresh_addr s"
    using JS_FreeValue_transfers [of "s \<lparr>ctx := c\<rparr>" op1 "[]"] ok own big by (auto dest: is_big_number)
  then show ?thesis
    using compact_result_yields [OF ok s1(2,6) ret refl s1(4,5,3)] by simp
qed

section \<open>Operands\<close>

definition limbs :: "'w js_state \<Rightarrow> js_val \<Rightarrow> nat" where
  "limbs s v = (case big_operand v s of None \<Rightarrow> 0 | Some x \<Rightarrow> len x)"

lemma operand:
  assumes "heap_ok s" and "value_of s v = Some z"
  obtains x where "big_operand v s = Some x" "normal (tab x)" "ival (tab x) = z" "limbs s v = len x" "is_big v" "tab x \<noteq> []"
proof -
  obtain x where x: "big_operand v s = Some x" "ival (tab x) = z"
    using assms(2) by (auto simp: value_of_def)
  moreover have "normal (tab x)"
    using x(1) assms(1) by (auto simp: big_operand_def heap_ok_def long_object_def js_bigint_set_short_def js_bigint_set_si_def
        split: js_val.splits)
  moreover have "is_big v"
    using x(1) by (simp add: big_operand_def is_big_def split: js_val.splits)
  ultimately show ?thesis
    using that by (auto simp: limbs_def normal_def)
qed

lemma value_of_short [simp]: "value_of s (TagShortBigInt w) = Some (sint w)"
  by (simp add: value_of_def big_operand_def js_bigint_set_short_def js_bigint_set_si_def ival_single)

lemma sint_word_of_int:
  assumes "- (2 ^ 63) \<le> z" and "z < 2 ^ 63"
  shows "sint (word_of_int z :: u64) = z"
proof -
  have "sint (word_of_int z :: u64) = signed_take_bit 63 z"
    by transfer simp
  then show ?thesis
    using assms by (simp only: signed_take_bit_int_eq_self)
qed

text \<open>An object never stands for a number that fits one limb.\<close>

lemma long_object_large:
  assumes "long_object x"
  shows "ival (tab x) < - (2 ^ 63) \<or> 2 ^ 63 \<le> ival (tab x)"
proof (rule ccontr)
  assume "\<not> ?thesis"
  then have "ival [word_of_int (ival (tab x))] = ival (tab x)"
    by (simp only: ival_single sint_word_of_int not_less not_le de_Morgan_disj)
  then show False
    using normal_minimal [of "tab x" "[word_of_int (ival (tab x))]"] assms by (simp add: long_object_def)
qed

lemma value_of_long:
  assumes "heap_ok s" and "value_of s (TagBigInt p) = Some z"
  shows "z < - (2 ^ 63) \<or> 2 ^ 63 \<le> z"
  using assms long_object_large by (auto simp: value_of_def big_operand_def heap_ok_def)

section \<open>Operators on BigInts\<close>

fun arith_value :: "arith_op \<Rightarrow> int \<Rightarrow> int \<Rightarrow> int" where
  "arith_value OP_add a b = a + b"
| "arith_value OP_sub a b = a - b"
| "arith_value OP_mul a b = a * b"
| "arith_value OP_div a b = a sdiv b"
| "arith_value OP_mod a b = a smod b"
| "arith_value OP_pow a b = a ^ nat b"

text \<open>The operands of an operator: BigInts of known values whose references the operator owns.\<close>

definition operands :: "'w js_state \<Rightarrow> js_val \<Rightarrow> js_val \<Rightarrow> int \<Rightarrow> int \<Rightarrow> bool" where
  "operands s op1 op2 a b \<longleftrightarrow>
     heap_ok s \<and> owned s [op1, op2] \<and> value_of s op1 = Some a \<and> value_of s op2 = Some b"

lemma js_arith_big_yields:
  assumes ops: "operands s op1 op2 a b" and op: "op \<noteq> OP_pow" "op = OP_div \<or> op = OP_mod \<longrightarrow> b \<noteq> 0"
  shows "\<exists>res. js_arith_big h op op1 op2 s = Some res
    \<and> yields (limbs s op1 + limbs s op2 + 2) (arith_value op a b) [op1, op2] s res"
proof -
  have ok: "heap_ok s" and own: "owned s [op1, op2]" and v: "value_of s op1 = Some a" "value_of s op2 = Some b"
    using ops by (simp_all add: operands_def)
  obtain x where x: "big_operand op1 s = Some x" "normal (tab x)" "ival (tab x) = a" "limbs s op1 = len x" "is_big op1" "tab x \<noteq> []"
    using ok v(1) by (rule operand)
  obtain y where y: "big_operand op2 s = Some y" "normal (tab y)" "ival (tab y) = b" "limbs s op2 = len y" "is_big op2" "tab y \<noteq> []"
    using ok v(2) by (rule operand)
  let ?n = "limbs s op1 + limbs s op2 + 2"
  define run where "run = (case op of
           OP_add \<Rightarrow> Some (js_bigint_add x y 0 (ctx s))
         | OP_sub \<Rightarrow> Some (js_bigint_add x y 1 (ctx s))
         | OP_mul \<Rightarrow> Some (js_bigint_mul x y (ctx s))
         | OP_div \<Rightarrow> js_bigint_divrem x y False (ctx s)
         | OP_mod \<Rightarrow> js_bigint_divrem x y True (ctx s)
         | OP_pow \<Rightarrow> Some (js_bigint_pow x y (ctx s)))"
  have "\<exists>m res. run = Some res \<and> m \<le> ?n \<and> returns m (arith_value op a b) (ctx s) res"
  proof (cases op)
    case OP_add
    then show ?thesis
      using js_bigint_add_returns [OF x(6) y(6), of False "ctx s"] x(3,4) y(3,4)
      by (auto simp: run_def limb_of_bool_def intro!: exI [of _ "max (len x) (len y)"])
  next
    case OP_sub
    then show ?thesis
      using js_bigint_add_returns [OF x(6) y(6), of True "ctx s"] x(3,4) y(3,4)
      by (auto simp: run_def limb_of_bool_def intro!: exI [of _ "max (len x) (len y)"])
  next
    case OP_mul
    then show ?thesis
      using js_bigint_mul_returns [OF x(6) y(6), of "ctx s"] x(3,4) y(3,4)
      by (auto simp: run_def intro!: exI [of _ "len x + len y"])
  next
    case OP_div
    then show ?thesis
      using js_bigint_divrem_returns [OF x(2) y(2), of False "ctx s"] x(3,4) y(3,4) op
      by (auto simp: run_def intro!: exI [of _ "len x + 2"])
  next
    case OP_mod
    then show ?thesis
      using js_bigint_divrem_returns [OF x(2) y(2), of True "ctx s"] x(3,4) y(3,4) op
      by (auto simp: run_def intro!: exI [of _ "len x + 2"])
  qed (use op in simp)
  then obtain r c where rc: "run = Some (r, c)" "returns ?n (arith_value op a b) (ctx s) (r, c)"
    using returns_mono by (metis surj_pair)
  have "js_arith_big h op op1 op2 s = do { s \<leftarrow> free_operands h op1 op2 (s \<lparr>ctx := c\<rparr>); Some (compact_result r s) }"
    using x(1) y(1) rc(1) by (simp add: js_arith_big_def run_def [symmetric])
  then show ?thesis
    using binary_path_yields [OF ok own x(5) y(5) rc(2), of h] by simp
qed

section \<open>Fast paths\<close>

lemma short_value_yields:
  assumes "heap_ok s" and "\<not> (\<exists>p. TagBigInt p \<in> set vs)" and "sint w = z"
  shows "yields n z vs s (Some (TagShortBigInt w), s)"
proof -
  have "gives_ref (Some (TagShortBigInt w)) = (\<lambda>p. 0)"
    by (simp add: gives_ref_def fun_eq_iff)
  then show ?thesis
    using assms no_refs [OF assms(2)] by (simp add: transfers_refl is_big_def)
qed

lemma sint_ucast_limb: "sint (ucast (a :: js_dlimb_t) :: js_limb_t) = signed_take_bit 63 (sint a)"
  by transfer (simp add: signed_take_bit_take_bit)

lemma uint_ucast_limb: "uint (ucast (a :: js_dlimb_t) :: js_limb_t) = take_bit 64 (sint a)"
  by transfer (simp add: take_bit_signed_take_bit)

lemma sint_limb_range: "- (2 ^ 63) \<le> sint (x :: js_limb_t)" "sint (x :: js_limb_t) < 2 ^ 63"
  using sint_range_size [of x] by (simp_all add: word_size)

lemma sint_scast_limb: "sint (scast (x :: js_limb_t) :: js_dlimb_t) = sint x"
proof -
  have "- (2 ^ 127) \<le> sint x" "sint x < 2 ^ 127"
    using sint_limb_range [of x] by simp_all
  then show ?thesis
    by (simp add: signed_scast_eq signed_take_bit_int_eq_self)
qed

lemma sint_dlimb_range: "- (2 ^ 127) \<le> sint (x :: js_dlimb_t)" "sint (x :: js_dlimb_t) < 2 ^ 127"
  using sint_range_size [of x] by (simp_all add: word_size)

lemma sint_double_limb:
  fixes a :: js_dlimb_t
  shows "sint a = int (unat (ucast a :: js_limb_t)) + int limb_base * sint (ucast (signed_drop_bit 64 a) :: js_limb_t)"
proof -
  have lo: "int (unat (ucast a :: js_limb_t)) = sint a mod 2 ^ 64"
    using uint_ucast_limb [of a] by (simp add: take_bit_eq_mod)
  have "sint (signed_drop_bit 64 a) = sint a div 2 ^ 64"
    by (simp add: sint_signed_drop_bit_eq drop_bit_eq_div)
  moreover have "- (2 ^ 63) \<le> sint a div 2 ^ 64" "sint a div 2 ^ 64 < 2 ^ 63"
    using sint_dlimb_range [of a] by (simp_all add: div_less_iff_less_mult  pos_imp_zdiv_nonneg_iff less_eq_div_iff_mult_less_eq)
  ultimately have hi: "sint (ucast (signed_drop_bit 64 a) :: js_limb_t) = sint a div 2 ^ 64"
    unfolding sint_ucast_limb by (simp only: signed_take_bit_int_eq_self)
  show ?thesis
    unfolding lo hi by (simp add: limb_base_def)
qed

lemma js_bigint_new_di_returns: "returns 2 (sint a) c (js_bigint_new_di a c)"
proof (cases "a = scast (ucast a :: js_limb_t)")
  case True
  then have "sint a = sint (ucast a :: js_limb_t)"
    using sint_scast_limb by metis
  then show ?thesis
    using True by (simp add: js_bigint_new_di_def js_bigint_new_with_returns ival_single)
next
  case False
  let ?lo = "ucast a :: js_limb_t" and ?hi = "ucast (signed_drop_bit 64 a) :: js_limb_t"
  have z: "ival [?lo, ?hi] = sint a"
    using sint_double_limb [of a] by (simp add: ival_def sint_limb limb_pow_Suc algebra_simps split: if_splits)
  have "significant ?hi ?lo"
  proof (rule ccontr)
    assume "\<not> significant ?hi ?lo"
    then have "?hi = 0 \<and> \<not> bit ?lo 63 \<or> ?hi = - 1 \<and> bit ?lo 63"
      by (auto simp: significant_def limb_sign_bit limb_of_bool_def split: if_splits)
    then have "sint ?hi = 0 \<and> \<not> bit ?lo 63 \<or> sint ?hi = - 1 \<and> bit ?lo 63"
      by auto
    then have "sint ?lo = sint a"
      using sint_double_limb [of a] unfolding sint_limb [of ?lo] by auto
    then have "sint (scast ?lo :: js_dlimb_t) = sint a"
      by (simp only: sint_scast_limb)
    then show False
      using False signed_word_eqI [of "scast ?lo" a] by simp
  qed
  then have "normal [?lo, ?hi]"
    by (simp add: normal_def)
  then show ?thesis
    using False z by (simp add: js_bigint_new_di_def js_bigint_new_with_returns)
qed

lemma short_result_yields:
  assumes ok: "heap_ok s" and vs: "\<not> (\<exists>p. TagBigInt p \<in> set vs)"
  shows "yields 2 (sint v) vs s (short_result v s)"
proof (cases "- (2 ^ 63) \<le> sint v \<and> sint v \<le> 2 ^ 63 - 1")
  case True
  then have "sint (ucast v :: u64) = sint v"
    unfolding sint_ucast_limb by (simp add: signed_take_bit_int_eq_self)
  then show ?thesis
    using True short_value_yields [OF assms] by (simp add: short_result_def)
next
  case False
  obtain r c where new: "js_bigint_new_di v (ctx s) = (r, c)"
    by (cases "js_bigint_new_di v (ctx s)")
  have ret: "returns 2 (sint v) (ctx s) (r, c)"
    using js_bigint_new_di_returns [of v "ctx s"] new by simp
  have "len x \<noteq> 1" if "r = Some x" for x
  proof
    assume "len x = 1"
    then obtain w where "tab x = [w]"
      by (cases "tab x") auto
    then have "sint w = sint v"
      using ret that by (simp add: ival_single)
    then show False
      using False sint_limb_range [of w] by simp
  qed
  then have "short_result v s = compact_result r (s \<lparr>ctx := c\<rparr>)"
    using False new by (cases r) (auto simp: short_result_def on_ctx_def compact_result_def JS_CompactBigInt_def)
  moreover have "yields 2 (sint v) vs s (compact_result r (s \<lparr>ctx := c\<rparr>))"
    using ok ret no_refs [OF vs] by (intro compact_result_yields [of _ _ _ _ _ "ctx s" _ c]) (simp_all add: transfers_refl)
  ultimately show ?thesis
    by simp
qed

lemma sint_scast_ops:
  fixes v w :: js_limb_t
  shows "sint (scast v + scast w :: js_dlimb_t) = sint v + sint w"
    and "sint (scast v - scast w :: js_dlimb_t) = sint v - sint w"
    and "sint (scast v * scast w :: js_dlimb_t) = sint v * sint w"
proof -
  have fit: "sint (word_of_int z :: js_dlimb_t) = z" if "- (2 ^ 127) \<le> z" "z < 2 ^ 127" for z
  proof -
    have "sint (word_of_int z :: js_dlimb_t) = signed_take_bit 127 z"
      by transfer simp
    then show ?thesis
      using that by (simp only: signed_take_bit_int_eq_self)
  qed
  have c: "(scast x :: js_dlimb_t) = word_of_int (sint x)" for x :: js_limb_t
    by simp
  note r = sint_limb_range [of v] sint_limb_range [of w]
  have "\<bar>sint v\<bar> \<le> 2 ^ 63" "\<bar>sint w\<bar> \<le> 2 ^ 63"
    using r by linarith+
  then have "\<bar>sint v * sint w\<bar> \<le> 2 ^ 63 * 2 ^ 63"
    unfolding abs_mult by (rule mult_mono) simp_all
  then have m: "- (2 ^ 127) \<le> sint v * sint w" "sint v * sint w < 2 ^ 127"
    by (simp_all add: abs_le_iff)
  show "sint (scast v + scast w :: js_dlimb_t) = sint v + sint w"
    unfolding c wi_hom_add using r by (intro fit) simp_all
  show "sint (scast v - scast w :: js_dlimb_t) = sint v - sint w"
    unfolding c wi_hom_sub using r by (intro fit) simp_all
  show "sint (scast v * scast w :: js_dlimb_t) = sint v * sint w"
    unfolding c wi_hom_mult using m by (rule fit)
qed

text \<open>The quotient of two limbs fits a limb, except for the smallest one divided by -1.\<close>

lemma sdiv_fits:
  fixes a b :: int
  assumes "- (2 ^ 63) \<le> a" "a < 2 ^ 63" and "b \<noteq> 0" and "\<not> (a = - (2 ^ 63) \<and> b = - 1)"
  shows "- (2 ^ 63) \<le> a sdiv b \<and> a sdiv b < 2 ^ 63" and "- (2 ^ 63) \<le> a smod b \<and> a smod b < 2 ^ 63"
proof -
  define m where "m = \<bar>a\<bar> mod \<bar>b\<bar>"
  have "m \<le> \<bar>a\<bar>" "0 \<le> m"
    using assms(3) by (simp_all add: m_def zmod_le_nonneg_dividend)
  then show "- (2 ^ 63) \<le> a smod b \<and> a smod b < 2 ^ 63"
    unfolding signed_modulo_int_def m_def [symmetric] using assms(1,2) by (auto simp: sgn_if)
  show "- (2 ^ 63) \<le> a sdiv b \<and> a sdiv b < 2 ^ 63"
  proof (cases "\<bar>b\<bar> = 1")
    case True
    then have "b = 1 \<or> b = - 1"
      by linarith
    then show ?thesis
      using assms by (auto simp: signed_divide_int_def sgn_if)
  next
    case False
    then have "2 \<le> \<bar>b\<bar>"
      using assms(3) by linarith
    define q where "q = \<bar>a\<bar> div \<bar>b\<bar>"
    have "q \<le> \<bar>a\<bar> div 2" "0 \<le> q"
      using \<open>2 \<le> \<bar>b\<bar>\<close> by (simp_all add: q_def zdiv_mono2 pos_imp_zdiv_nonneg_iff)
    moreover have "\<bar>a\<bar> div 2 < 2 ^ 63"
      using assms(1,2) by simp
    ultimately show ?thesis
      unfolding signed_divide_int_def q_def [symmetric] by (auto simp: sgn_if)
  qed
qed

lemma yields_mono: "yields m z vs s res \<Longrightarrow> m \<le> n \<Longrightarrow> yields n z vs s res"
  by (cases res) (auto split: option.splits)

lemma sint_eq_iff: "(x :: u64) = y \<longleftrightarrow> sint x = sint y"
  by (auto intro: signed_word_eqI)

lemma js_arith_short_yields:
  assumes ops: "operands s (TagShortBigInt v) (TagShortBigInt w) a b"
    and op: "op \<noteq> OP_pow" "op \<noteq> OP_add" "op = OP_div \<or> op = OP_mod \<longrightarrow> b \<noteq> 0"
  shows "\<exists>res. js_arith_short h op v w s = Some res
    \<and> yields 4 (arith_value op a b) [TagShortBigInt v, TagShortBigInt w] s res"
proof -
  let ?vs = "[TagShortBigInt v, TagShortBigInt w]"
  have ok: "heap_ok s" and ab: "a = sint v" "b = sint w"
    using ops by (simp_all add: operands_def)
  have none: "\<not> (\<exists>p. TagBigInt p \<in> set ?vs)"
    by simp
  have lim: "limbs s (TagShortBigInt u) = 1" for u
    by (simp add: limbs_def big_operand_def js_bigint_set_short_def js_bigint_set_si_def)
  have slow: "\<exists>res. js_arith_big h op (TagShortBigInt v) (TagShortBigInt w) s = Some res \<and> yields 4 (arith_value op a b) ?vs s res"
    using js_arith_big_yields [OF ops op(1,3), of h] by (simp del: yields.simps add: lim numeral_eq_Suc)
  have short: "yields 4 z ?vs s (Some (TagShortBigInt (word_of_int z)), s)" if "- (2 ^ 63) \<le> z" "z < 2 ^ 63" for z
    by (rule short_value_yields [OF ok none]) (use that in \<open>rule sint_word_of_int\<close>)
  have min: "v = push_bit 63 1 \<longleftrightarrow> a = - (2 ^ 63)" "w = - 1 \<longleftrightarrow> b = - 1" "w = 0 \<longleftrightarrow> b = 0"
    unfolding ab by (simp_all only: sint_eq_iff) simp_all
  have fits: "- (2 ^ 63) \<le> a sdiv b \<and> a sdiv b < 2 ^ 63" "- (2 ^ 63) \<le> a smod b \<and> a smod b < 2 ^ 63"
    if "b \<noteq> 0" "\<not> (a = - (2 ^ 63) \<and> b = - 1)"
    using sdiv_fits [of a b] that sint_limb_range [of v] unfolding ab by blast+
  show ?thesis
  proof (cases op)
    case OP_sub
    then show ?thesis
      using short_result_yields [OF ok none, of "scast v - scast w"]
      by (auto simp: js_arith_short_def sint_scast_ops ab simp del: yields.simps intro: yields_mono)
  next
    case OP_mul
    then show ?thesis
      using short_result_yields [OF ok none, of "scast v * scast w"]
      by (auto simp: js_arith_short_def sint_scast_ops ab simp del: yields.simps intro: yields_mono)
  next
    case OP_div
    then show ?thesis
      using slow short [of "a sdiv b"] fits(1) unfolding js_arith_short_def Let_def min
      by (cases "b = 0 \<or> (a = - (2 ^ 63) \<and> b = - 1)") (auto simp: ab simp del: yields.simps)
  next
    case OP_mod
    then show ?thesis
      using slow short [of "a smod b"] fits(2) unfolding js_arith_short_def Let_def min
      by (cases "b = 0 \<or> (a = - (2 ^ 63) \<and> b = - 1)") (auto simp: ab simp del: yields.simps)
  qed (use op in simp_all)
qed

declare yields.simps [simp del]

text \<open>A BigInt is its own numeric value.\<close>

lemma JS_ToNumericFree_big [simp]: "is_big v \<Longrightarrow> JS_ToNumericFree h v s = Some (v, s)"
  by (cases v) (simp_all add: is_big_def JS_ToNumericFree_def JS_ToNumberHintFree.simps)

lemma to_numeric2_big [simp]: "is_big v1 \<Longrightarrow> is_big v2 \<Longrightarrow> to_numeric2 h v1 v2 s = Some (Some (v1, v2), s)"
  by (auto simp: to_numeric2_def is_big_def)

lemma is_big_simps [simp]: "is_big (TagShortBigInt w)" "is_big (TagBigInt p)"
  by (simp_all add: is_big_def)

lemma big_cases:
  assumes "is_big v"
  obtains w where "v = TagShortBigInt w" | p where "v = TagBigInt p"
  using assms by (cases v) (auto simp: is_big_def)

lemma operands_big: "operands s op1 op2 a b \<Longrightarrow> is_big op1 \<and> is_big op2"
  by (auto simp: operands_def elim: operand)

lemma js_binary_arith_big:
  assumes "is_big op1" "is_big op2" and "\<not> (\<exists>v w. op1 = TagShortBigInt v \<and> op2 = TagShortBigInt w)"
  shows "js_binary_arith_slow h op op1 op2 s = js_arith_big h op op1 op2 s" and "js_add_slow h op1 op2 s = js_arith_big h OP_add op1 op2 s"
    and "js_binary_logic_slow h bop op1 op2 s = js_logic_big h bop op1 op2 s"
proof -
  have "js_binary_arith_slow h op op1 op2 s = js_arith_big h op op1 op2 s \<and> js_add_slow h op1 op2 s = js_arith_big h OP_add op1 op2 s
      \<and> js_binary_logic_slow h bop op1 op2 s = js_logic_big h bop op1 op2 s"
    by (rule big_cases [OF assms(1)]; rule big_cases [OF assms(2)])
      (use assms(3) in \<open>simp_all add: js_binary_arith_slow_def js_add_slow_def js_binary_logic_slow_def is_object_def tag_is_string_def\<close>)
  then show "js_binary_arith_slow h op op1 op2 s = js_arith_big h op op1 op2 s" and "js_add_slow h op1 op2 s = js_arith_big h OP_add op1 op2 s"
    and "js_binary_logic_slow h bop op1 op2 s = js_logic_big h bop op1 op2 s"
    by blast+
qed

lemma limbs_short [simp]: "limbs s (TagShortBigInt u) = 1"
  by (simp add: limbs_def big_operand_def js_bigint_set_short_def js_bigint_set_si_def)

lemma js_binary_arith_slow_yields:
  assumes ops: "operands s op1 op2 a b" and op: "op \<noteq> OP_pow" "op \<noteq> OP_add" "op = OP_div \<or> op = OP_mod \<longrightarrow> b \<noteq> 0"
  shows "\<exists>res. js_binary_arith_slow h op op1 op2 s = Some res
    \<and> yields (limbs s op1 + limbs s op2 + 2) (arith_value op a b) [op1, op2] s res"
proof (cases "\<exists>v w. op1 = TagShortBigInt v \<and> op2 = TagShortBigInt w")
  case True
  then obtain v w where vw: "op1 = TagShortBigInt v" "op2 = TagShortBigInt w"
    by blast
  then show ?thesis
    using js_arith_short_yields [of s v w a b op h] ops op by (simp add: js_binary_arith_slow_def numeral_eq_Suc)
next
  case False
  then show ?thesis
    using js_arith_big_yields [OF ops op(1,3), of h] operands_big [OF ops] by (simp add: js_binary_arith_big)
qed

lemma js_add_slow_yields:
  assumes ops: "operands s op1 op2 a b"
  shows "\<exists>res. js_add_slow h op1 op2 s = Some res \<and> yields (limbs s op1 + limbs s op2 + 2) (a + b) [op1, op2] s res"
proof (cases "\<exists>v w. op1 = TagShortBigInt v \<and> op2 = TagShortBigInt w")
  case True
  then obtain v w where vw: "op1 = TagShortBigInt v" "op2 = TagShortBigInt w"
    by blast
  have "heap_ok s" "a = sint v" "b = sint w"
    using ops by (simp_all add: operands_def vw)
  then show ?thesis
    using short_result_yields [of s "[op1, op2]" "scast v + scast w"] unfolding vw
    by (auto simp: js_add_slow_def sint_scast_ops intro: yields_mono)
next
  case False
  then show ?thesis
    using js_arith_big_yields [OF ops, of OP_add h] operands_big [OF ops] by (simp add: js_binary_arith_big)
qed

text \<open>Division by zero and powers with a negative exponent are RangeErrors.\<close>

lemma range_error_path:
  assumes ok: "heap_ok s" and own: "owned s [op1, op2]" and big: "is_big op1" "is_big op2"
  shows "\<exists>s'. do { s \<leftarrow> free_operands h op1 op2 (s \<lparr>ctx := JS_ThrowRangeError msg (ctx s)\<rparr>); Some (compact_result None s) }
      = Some (None, s') \<and> transfers (held [op1, op2]) (\<lambda>p. 0) s s' \<and> exn (ctx s') = Some (RangeError msg)
      \<and> blocks (ctx s') - blocks (ctx s) = live s' - live s"
proof -
  let ?s = "s \<lparr>ctx := JS_ThrowRangeError msg (ctx s)\<rparr>"
  obtain s' where "free_operands h op1 op2 ?s = Some s'" "transfers (held [op1, op2]) (\<lambda>p. 0) s s'"
    "blocks (ctx s') - blocks (ctx ?s) = live s' - live s" "exn (ctx s') = exn (ctx ?s)"
    using free_operands_transfers [of ?s op1 op2 h] ok own big by (auto dest: is_big_number)
  then show ?thesis
    by (auto simp: compact_result_def JS_ThrowRangeError_def)
qed

lemma js_binary_arith_slow_zero:
  assumes ops: "operands s op1 op2 a 0" and op: "op = OP_div \<or> op = OP_mod"
  shows "\<exists>s'. js_binary_arith_slow h op op1 op2 s = Some (None, s') \<and> transfers (held [op1, op2]) (\<lambda>p. 0) s s'
    \<and> exn (ctx s') = Some (RangeError ''BigInt division by zero'') \<and> blocks (ctx s') - blocks (ctx s) = live s' - live s"
proof -
  have ok: "heap_ok s" and own: "owned s [op1, op2]" and v: "value_of s op1 = Some a" "value_of s op2 = Some 0"
    using ops by (simp_all add: operands_def)
  obtain x where x: "big_operand op1 s = Some x" "is_big op1"
    using ok v(1) by (rule operand)
  obtain y where y: "big_operand op2 s = Some y" "normal (tab y)" "ival (tab y) = 0" "is_big op2"
    using ok v(2) by (rule operand)
  have "tab y = [0]"
    using normal_zero [OF y(2)] y(3) by simp
  then have "js_arith_big h op op1 op2 s =
      do { s \<leftarrow> free_operands h op1 op2 (s \<lparr>ctx := JS_ThrowRangeError ''BigInt division by zero'' (ctx s)\<rparr>); Some (compact_result None s) }"
    using op x(1) y(1) by (auto simp: js_arith_big_def js_bigint_divrem_def)
  moreover have "js_binary_arith_slow h op op1 op2 s = js_arith_big h op op1 op2 s"
  proof (cases "\<exists>v w. op1 = TagShortBigInt v \<and> op2 = TagShortBigInt w")
    case True
    then obtain v w where vw: "op1 = TagShortBigInt v" "op2 = TagShortBigInt w"
      by blast
    then have "w = 0"
      using ops by (simp add: operands_def sint_eq_iff)
    then show ?thesis
      using op by (auto simp: js_binary_arith_slow_def js_arith_short_def vw)
  next
    case False
    then show ?thesis
      using operands_big [OF ops] by (simp add: js_binary_arith_big)
  qed
  ultimately show ?thesis
    using range_error_path [OF ok own x(2) y(4), of h] by simp
qed

section \<open>Bitwise operators on BigInts\<close>

fun shift_value :: "int \<Rightarrow> int \<Rightarrow> int" where
  "shift_value a n = (if n \<ge> 0 then a * 2 ^ nat n else a div 2 ^ nat (- n))"

declare shift_value.simps [simp del]

fun bit_value :: "bit_op \<Rightarrow> int \<Rightarrow> int \<Rightarrow> int" where
  "bit_value (OP_logic l) a b = int_logic l a b"
| "bit_value OP_shl a b = shift_value a b"
| "bit_value OP_sar a b = shift_value a (- b)"

text \<open>The limbs that the result may need.\<close>

definition bit_limbs :: "'w js_state \<Rightarrow> js_val \<Rightarrow> js_val \<Rightarrow> int \<Rightarrow> nat" where
  "bit_limbs s op1 op2 b = limbs s op1 + limbs s op2 + nat \<bar>b\<bar> div 64"

lemma shift_returns:
  assumes "normal (tab x)" and "\<bar>n\<bar> = \<bar>b\<bar>"
  shows "returns (len x + nat \<bar>b\<bar> div 64) (shift_value (ival (tab x)) n) c
    ((if n \<ge> 0 then js_bigint_shl x (nat n) else js_bigint_shr x (nat (- n))) c)"
proof (cases "n \<ge> 0")
  case True
  then have "nat \<bar>b\<bar> = nat n"
    using assms(2) by simp
  then show ?thesis
    using True js_bigint_shl_returns [OF assms(1), of "nat n" c] by (simp add: shift_value.simps)
next
  case False
  then have "returns (len x) (shift_value (ival (tab x)) n) c (js_bigint_shr x (nat (- n)) c)"
    using js_bigint_shr_returns [OF assms(1), of "nat (- n)" c] by (simp add: shift_value.simps)
  then show ?thesis
    using False returns_mono by fastforce
qed

lemma js_bigint_get_si_sat_small:
  assumes "normal (tab y)" and "\<bar>ival (tab y)\<bar> \<le> INT32_MAX"
  shows "sint (js_bigint_get_si_sat y) = ival (tab y)"
proof -
  let ?w = "word_of_int (ival (tab y)) :: u64"
  have "sint ?w = ival (tab y)"
    using assms(2) by (intro sint_word_of_int) (simp_all add: INT32_MAX_def abs_le_iff)
  then have "len y \<le> 1"
    using normal_minimal [of "tab y" "[?w]"] assms(1) by (simp add: ival_single)
  then obtain w where "tab y = [w]"
    using assms(1) by (cases "tab y") (auto simp: normal_def)
  then show ?thesis
    by (simp add: js_bigint_get_si_sat_def ival_single)
qed

lemma js_logic_big_yields:
  assumes ops: "operands s op1 op2 a b" and small: "(\<forall>l. op \<noteq> OP_logic l) \<longrightarrow> \<bar>b\<bar> \<le> INT32_MAX"
  shows "\<exists>res. js_logic_big h op op1 op2 s = Some res \<and> yields (bit_limbs s op1 op2 b) (bit_value op a b) [op1, op2] s res"
proof -
  have ok: "heap_ok s" and own: "owned s [op1, op2]" and v: "value_of s op1 = Some a" "value_of s op2 = Some b"
    using ops by (simp_all add: operands_def)
  obtain x where x: "big_operand op1 s = Some x" "normal (tab x)" "ival (tab x) = a" "limbs s op1 = len x" "is_big op1" "tab x \<noteq> []"
    using ok v(1) by (rule operand)
  obtain y where y: "big_operand op2 s = Some y" "normal (tab y)" "ival (tab y) = b" "limbs s op2 = len y" "is_big op2" "tab y \<noteq> []"
    using ok v(2) by (rule operand)
  define run where "run = (case op of
           OP_logic l \<Rightarrow> js_bigint_logic x y l
         | _ \<Rightarrow>
            (let shift = sint (js_bigint_get_si_sat y);
                 shift = (if shift > INT32_MAX then INT32_MAX else if shift < - INT32_MAX then - INT32_MAX else shift);
                 shift = (if op = OP_sar then - shift else shift)
             in if shift \<ge> 0 then js_bigint_shl x (nat shift) else js_bigint_shr x (nat (- shift))))"
  obtain r c where rc: "run (ctx s) = (r, c)"
    by (cases "run (ctx s)")
  have "returns (bit_limbs s op1 op2 b) (bit_value op a b) (ctx s) (r, c)"
  proof (cases "\<exists>l. op = OP_logic l")
    case True
    then obtain l where "op = OP_logic l"
      by blast
    then show ?thesis
      using js_bigint_logic_returns [OF x(6) y(6), of l "ctx s"] rc x(3,4) y(3,4)
      by (auto simp: run_def bit_limbs_def intro: returns_mono)
  next
    case False
    then have b: "\<bar>b\<bar> \<le> INT32_MAX"
      using small by blast
    then have "sint (js_bigint_get_si_sat y) = b" "\<not> b > INT32_MAX" "\<not> b < - INT32_MAX"
      using js_bigint_get_si_sat_small [OF y(2)] y(3) by (simp_all add: abs_le_iff)
    then have run: "run = (let n = (if op = OP_sar then - b else b)
        in if n \<ge> 0 then js_bigint_shl x (nat n) else js_bigint_shr x (nat (- n)))"
      using False by (cases op) (auto simp: run_def)
    have "returns (len x + nat \<bar>b\<bar> div 64) (shift_value (ival (tab x)) (if op = OP_sar then - b else b)) (ctx s) (run (ctx s))"
      unfolding run Let_def by (rule shift_returns [OF x(2)]) simp
    then show ?thesis
      using False rc x(3,4) by (cases op) (auto simp: bit_limbs_def intro: returns_mono)
  qed
  from binary_path_yields [OF ok own x(5) y(5) this, of h] show ?thesis
    using x(1) y(1) rc by (simp add: js_logic_big_def run_def [symmetric] on_ctx_def)
qed

lemma sint_dlimb_of_int: "sint (word_of_int z :: js_dlimb_t) = signed_take_bit 127 z"
  by transfer simp

lemma sint_push_double:
  assumes "n \<le> 63"
  shows "sint (push_bit n (scast v) :: js_dlimb_t) = sint (v :: js_limb_t) * 2 ^ n"
proof -
  have "push_bit n (scast v) = (word_of_int (sint v * 2 ^ n) :: js_dlimb_t)"
    by (simp add: push_bit_eq_mult)
  then have "sint (push_bit n (scast v) :: js_dlimb_t) = signed_take_bit 127 (sint v * 2 ^ n)"
    by (metis sint_dlimb_of_int)
  moreover have "- (2 ^ 127) \<le> sint v * 2 ^ n" "sint v * 2 ^ n < 2 ^ 127"
  proof -
    have "\<bar>sint v\<bar> \<le> 2 ^ 63"
      using sint_limb_range [of v] by linarith
    moreover have "(2 :: int) ^ n \<le> 2 ^ 63"
      using assms by (rule power_increasing) simp
    ultimately have "\<bar>sint v * 2 ^ n\<bar> \<le> 2 ^ 63 * 2 ^ 63"
      unfolding abs_mult by (intro mult_mono) simp_all
    then show "- (2 ^ 127) \<le> sint v * 2 ^ n" "sint v * 2 ^ n < 2 ^ 127"
      by (simp_all add: abs_le_iff)
  qed
  ultimately show ?thesis
    by (simp only: signed_take_bit_int_eq_self)
qed

lemma js_logic_short_yields:
  assumes ops: "operands s (TagShortBigInt v) (TagShortBigInt w) a b"
    and small: "(\<forall>l. op \<noteq> OP_logic l) \<longrightarrow> \<bar>b\<bar> \<le> INT32_MAX"
  shows "\<exists>res. js_logic_short h op v w s = Some res
    \<and> yields (2 + nat \<bar>b\<bar> div 64) (bit_value op a b) [TagShortBigInt v, TagShortBigInt w] s res"
proof -
  let ?vs = "[TagShortBigInt v, TagShortBigInt w]"
  have ok: "heap_ok s" and ab: "a = sint v" "b = sint w"
    using ops by (simp_all add: operands_def)
  have none: "\<not> (\<exists>p. TagBigInt p \<in> set ?vs)"
    by simp
  have slow: "\<exists>res. js_logic_big h op (TagShortBigInt v) (TagShortBigInt w) s = Some res \<and> yields (2 + nat \<bar>b\<bar> div 64) (bit_value op a b) ?vs s res"
    using js_logic_big_yields [OF ops small, of h] by (simp add: bit_limbs_def)
  have shl: "\<exists>res. bigint_shl v n s = Some res \<and> yields (2 + nat \<bar>b\<bar> div 64) (a * 2 ^ n) ?vs s res" if "n \<le> 63" for n
    using short_result_yields [OF ok none, of "push_bit n (scast v)"] sint_push_double [OF that, of v] ab(1)
    by (auto simp: bigint_shl_def intro: yields_mono)
  have sar: "\<exists>res. bigint_sar v n s = Some res \<and> yields (2 + nat \<bar>b\<bar> div 64) (a div 2 ^ n) ?vs s res" for n
    using short_value_yields [OF ok none, of "signed_drop_bit n v"] ab(1)
    by (auto simp: bigint_sar_def sint_signed_drop_bit_eq drop_bit_eq_div)
  define N where "N = 2 + nat \<bar>b\<bar> div 64"
  note slow = slow [folded N_def] and shl = shl [folded N_def] and sar = sar [folded N_def]
  have range: "b < - 63 \<or> 63 < b \<or> b = 0 \<or> 0 < b \<and> b \<le> 63 \<or> b < 0 \<and> - 63 \<le> b"
    by linarith
  show ?thesis
    unfolding N_def [symmetric]
  proof (cases op)
    case (OP_logic l)
    have "sint (limb_logic l v w) = int_logic l a b"
      unfolding ab by (cases l) (simp_all add: signed_or_eq signed_and_eq signed_xor_eq)
    then show "\<exists>res. js_logic_short h op v w s = Some res \<and> yields N (bit_value op a b) ?vs s res"
      using short_value_yields [OF ok none] OP_logic by (simp add: js_logic_short_def)
  next
    case OP_shl
    then show "\<exists>res. js_logic_short h op v w s = Some res \<and> yields N (bit_value op a b) ?vs s res"
      using slow shl [of "nat b"] sar [of "nat (- b)"] range
      unfolding js_logic_short_def Let_def ab(2) [symmetric] by (elim disjE) (simp_all add: shift_value.simps nat_le_iff)
  next
    case OP_sar
    then show "\<exists>res. js_logic_short h op v w s = Some res \<and> yields N (bit_value op a b) ?vs s res"
      using slow shl [of "nat (- b)"] sar [of "nat b"] range
      unfolding js_logic_short_def Let_def ab(2) [symmetric] by (elim disjE) (simp_all add: shift_value.simps nat_le_iff)
  qed
qed

lemma js_binary_logic_slow_yields:
  assumes ops: "operands s op1 op2 a b" and small: "(\<forall>l. op \<noteq> OP_logic l) \<longrightarrow> \<bar>b\<bar> \<le> INT32_MAX"
  shows "\<exists>res. js_binary_logic_slow h op op1 op2 s = Some res \<and> yields (bit_limbs s op1 op2 b) (bit_value op a b) [op1, op2] s res"
proof (cases "\<exists>v w. op1 = TagShortBigInt v \<and> op2 = TagShortBigInt w")
  case True
  then obtain v w where "op1 = TagShortBigInt v" "op2 = TagShortBigInt w"
    by blast
  then show ?thesis
    using js_logic_short_yields [of s v w a b op h] ops small by (simp add: js_binary_logic_slow_def bit_limbs_def)
next
  case False
  then show ?thesis
    using js_logic_big_yields [OF assms, of h] operands_big [OF ops] by (simp add: js_binary_arith_big)
qed

section \<open>Unary operators on BigInts\<close>

fun unary_value :: "unary_op \<Rightarrow> int \<Rightarrow> int" where
  "unary_value OP_plus a = a"
| "unary_value OP_neg a = - a"
| "unary_value OP_inc a = a + 1"
| "unary_value OP_dec a = a - 1"
| "unary_value OP_not a = NOT a"

definition operand1 :: "'w js_state \<Rightarrow> js_val \<Rightarrow> int \<Rightarrow> bool" where
  "operand1 s op1 a \<longleftrightarrow> heap_ok s \<and> owned s [op1] \<and> value_of s op1 = Some a"

lemma js_unary_big_yields:
  assumes ops: "operand1 s op1 a" and op: "op \<noteq> OP_plus"
  shows "\<exists>res. js_unary_big h op op1 s = Some res \<and> yields (limbs s op1 + 1) (unary_value op a) [op1] s res"
proof -
  have ok: "heap_ok s" and own: "owned s [op1]" and v: "value_of s op1 = Some a"
    using ops by (simp_all add: operand1_def)
  obtain x where x: "big_operand op1 s = Some x" "normal (tab x)" "ival (tab x) = a" "limbs s op1 = len x" "is_big op1" "tab x \<noteq> []"
    using ok v(1) by (rule operand)
  define run where "run = (case op of
              OP_neg \<Rightarrow> js_bigint_neg x
            | OP_not \<Rightarrow> js_bigint_not x
            | _ \<Rightarrow> js_bigint_add x (js_bigint_set_si (word_of_int (op_step op))) 0)"
  obtain r c where rc: "run (ctx s) = (r, c)"
    by (cases "run (ctx s)")
  have add: "returns (len x + 1) (a + sint w) (ctx s) (js_bigint_add x (js_bigint_set_si w) 0 (ctx s))" for w
    using js_bigint_add_returns [of x "js_bigint_set_si w" False "ctx s"] x(3,6)
    by (auto simp: js_bigint_set_si_def ival_single limb_of_bool_def intro: returns_mono)
  have "returns (len x + 1) (unary_value op a) (ctx s) (run (ctx s))"
  proof (cases op)
    case OP_neg
    then show ?thesis
      using js_bigint_neg_returns [OF x(6), of "ctx s"] x(3) by (auto simp: run_def intro: returns_mono)
  next
    case OP_not
    then show ?thesis
      using js_bigint_not_returns [OF x(2), of "ctx s"] x(3) by (auto simp: run_def intro: returns_mono)
  next
    case OP_inc
    then show ?thesis
      using add [of 1] by (simp add: run_def op_step_def)
  next
    case OP_dec
    then show ?thesis
      using add [of "- 1"] by (simp add: run_def op_step_def)
  qed (use op in simp)
  then have "returns (limbs s op1 + 1) (unary_value op a) (ctx s) (r, c)"
    using rc x(4) by simp
  from unary_path_yields [OF ok own x(5) this, of h] show ?thesis
    using op x(1) rc by (simp add: js_unary_big_def run_def [symmetric] on_ctx_def)
qed

lemma sint_step:
  fixes w :: u64
  shows "w \<noteq> 0x7FFFFFFFFFFFFFFF \<Longrightarrow> sint (w + 1) = sint w + 1" and "w \<noteq> 0x8000000000000000 \<Longrightarrow> sint (w - 1) = sint w - 1"
    and "w \<noteq> 0x8000000000000000 \<Longrightarrow> sint (- w) = - sint w" and "sint (NOT w) = NOT (sint w)"
proof -
  have c: "w = word_of_int (sint w)"
    by simp
  have r: "- (2 ^ 63) \<le> sint w" "sint w < 2 ^ 63"
    using sint_limb_range [of w] by simp_all
  have hi: "w \<noteq> 0x7FFFFFFFFFFFFFFF \<longleftrightarrow> sint w \<noteq> 2 ^ 63 - 1" and lo: "w \<noteq> 0x8000000000000000 \<longleftrightarrow> sint w \<noteq> - (2 ^ 63)"
    by (simp_all only: sint_eq_iff) simp_all
  show "sint (w + 1) = sint w + 1" if "w \<noteq> 0x7FFFFFFFFFFFFFFF"
    using sint_word_of_int [of "sint w + 1"] that r unfolding hi by simp
  show "sint (w - 1) = sint w - 1" if "w \<noteq> 0x8000000000000000"
    using sint_word_of_int [of "sint w - 1"] that r unfolding lo by simp
  show "sint (- w) = - sint w" if "w \<noteq> 0x8000000000000000"
    using sint_word_of_int [of "- sint w"] that r unfolding lo by simp
  show "sint (NOT w) = NOT (sint w)"
    using sint_word_of_int [of "NOT (sint w)"] r by (simp add: not_eq_complement)
qed

lemma js_unary_arith_slow_yields:
  assumes ops: "operand1 s op1 a" and op: "op \<noteq> OP_plus" "op \<noteq> OP_not"
  shows "\<exists>res. js_unary_arith_slow h op op1 s = Some res \<and> yields (limbs s op1 + 1) (unary_value op a) [op1] s res"
proof -
  have ok: "heap_ok s" and v: "value_of s op1 = Some a"
    using ops by (simp_all add: operand1_def)
  have big: "is_big op1"
    using ok v by (rule operand)
  note slow = js_unary_big_yields [OF ops op(1), of h]
  from big show ?thesis
  proof (rule big_cases)
    fix w
    assume w: "op1 = TagShortBigInt w"
    then have a: "a = sint w"
      using v by simp
    have short: "yields n (sint u) [op1] s (Some (TagShortBigInt u), s)" for n u
      using w by (intro short_value_yields [OF ok]) simp_all
    note step = js_unary_arith_slow_def w a
    have "\<exists>edge u. js_unary_arith_slow h op op1 s = (if edge then js_unary_big h op op1 s else Some (Some (TagShortBigInt u), s))
        \<and> (\<not> edge \<longrightarrow> sint u = unary_value op a)"
    proof (cases op)
      case OP_neg
      then show ?thesis
        using sint_step(3) [of w] by (intro exI [of _ "w = 0x8000000000000000"] exI [of _ "- w"]) (auto simp: step)
    next
      case OP_inc
      then show ?thesis
        using sint_step(1) [of w] by (intro exI [of _ "w = 0x7FFFFFFFFFFFFFFF"] exI [of _ "w + 1"]) (auto simp: step)
    next
      case OP_dec
      then show ?thesis
        using sint_step(2) [of w] by (intro exI [of _ "w = 0x8000000000000000"] exI [of _ "w - 1"]) (auto simp: step)
    qed (use op in simp_all)
    then show ?thesis
      using slow short by (metis (full_types))
  next
    fix p
    assume "op1 = TagBigInt p"
    then show ?thesis
      using slow by (simp add: js_unary_arith_slow_def)
  qed
qed

lemma js_not_slow_yields:
  assumes ops: "operand1 s op1 a"
  shows "\<exists>res. js_not_slow h op1 s = Some res \<and> yields (limbs s op1 + 1) (NOT a) [op1] s res"
proof -
  have ok: "heap_ok s" and v: "value_of s op1 = Some a"
    using ops by (simp_all add: operand1_def)
  have big: "is_big op1"
    using ok v by (rule operand)
  from big show ?thesis
  proof (rule big_cases)
    fix w
    assume w: "op1 = TagShortBigInt w"
    then have "sint (NOT w) = NOT a"
      using v sint_step(4) [of w] by simp
    then show ?thesis
      using w short_value_yields [OF ok, of "[op1]" "NOT w"] by (simp add: js_not_slow_def)
  next
    fix p
    assume p: "op1 = TagBigInt p"
    have "js_not_slow h op1 s = js_unary_big h OP_not op1 s"
      by (simp add: js_not_slow_def js_unary_big_def p big_operand_def)
    then show ?thesis
      using js_unary_big_yields [OF ops, of OP_not h] by simp
  qed
qed

text \<open>Unary plus is a TypeError for every BigInt.\<close>

lemma js_unary_plus:
  assumes ops: "operand1 s op1 a"
  shows "\<exists>s'. js_unary_arith_slow h OP_plus op1 s = Some (None, s') \<and> transfers (held [op1]) (\<lambda>p. 0) s s'
    \<and> exn (ctx s') = Some (TypeError ''bigint argument with unary +'') \<and> blocks (ctx s') - blocks (ctx s) = live s' - live s"
proof -
  have ok: "heap_ok s" and own: "owned s [op1]" and v: "value_of s op1 = Some a"
    using ops by (simp_all add: operand1_def)
  obtain x where x: "big_operand op1 s = Some x" "is_big op1"
    using ok v by (rule operand)
  let ?c = "JS_ThrowTypeError ''bigint argument with unary +'' (ctx s)"
  obtain s' where s': "JS_FreeValue h op1 (s \<lparr>ctx := ?c\<rparr>) = Some s'" "transfers (held [op1]) (\<lambda>p. 0) s s'"
    "blocks (ctx s') - blocks ?c = live s' - live s" "exn (ctx s') = exn ?c"
    using JS_FreeValue_transfers [of "s \<lparr>ctx := ?c\<rparr>" op1 "[]" h] ok own x(2) by (auto dest: is_big_number)
  show ?thesis
    by (rule big_cases [OF x(2)]) (use s' x(1) in \<open>auto simp: js_unary_arith_slow_def js_unary_big_def throw_def JS_ThrowTypeError_def JS_FreeValue_def\<close>)
qed


end
