(* ===== verification/Compare_Facts.thy ===== *)
theory Compare_Facts
  imports Operator_Facts
begin

text \<open>
  Comparisons that involve BigInts (\<open>js_compare_bigint\<close>) and the functions \<open>BigInt.asIntN\<close> and
  \<open>BigInt.asUintN\<close>, against the integers that the operands stand for.
\<close>

unbundle bit_operations_syntax

section \<open>Comparison\<close>

fun rel_int :: "rel_op \<Rightarrow> int \<Rightarrow> int \<Rightarrow> bool" where
  "rel_int OP_lt a b = (a < b)"
| "rel_int OP_lte a b = (a \<le> b)"
| "rel_int OP_gt a b = (a > b)"
| "rel_int OP_gte a b = (a \<ge> b)"
| "rel_int OP_eq a b = (a = b)"

lemma rel_test_cmp: "rel_test op (int_cmp a b) = rel_int op a b"
  by (cases op) (auto simp: int_cmp_def)

text \<open>The integer a BigInt or an \<open>int32_t\<close> value stands for.\<close>

definition int_value :: "'w js_state \<Rightarrow> js_val \<Rightarrow> int option" where
  "int_value s v = (case v of TagInt i \<Rightarrow> Some (sint i) | _ \<Rightarrow> value_of s v)"

lemma sint_scast_int: "sint (scast (i :: u32) :: u64) = sint i"
proof -
  have "- (2 ^ 63) \<le> sint i" "sint i < 2 ^ 63"
    using sint_range_size [of i] by (simp_all add: word_size)
  then show ?thesis
    by (simp add: signed_scast_eq signed_take_bit_int_eq_self)
qed

lemma JS_ToBigIntBuf_value:
  assumes "heap_ok s" and "int_value s v = Some z"
  obtains x where "JS_ToBigIntBuf v s = Some x" "normal (tab x)" "ival (tab x) = z"
proof (cases "\<exists>i. v = TagInt i")
  case True
  then show ?thesis
    using assms(2) that by (auto simp: int_value_def JS_ToBigIntBuf_def js_bigint_set_si_def ival_single sint_scast_int)
next
  case False
  then have "value_of s v = Some z"
    using assms(2) by (simp add: int_value_def split: js_val.splits)
  then obtain x where "big_operand v s = Some x" "normal (tab x)" "ival (tab x) = z" "is_big v"
    using assms(1) by (auto elim: operand)
  moreover from this(4) have "JS_ToBigIntBuf v s = big_operand v s"
    by (rule big_cases) (simp_all add: JS_ToBigIntBuf_def big_operand_def)
  ultimately show ?thesis
    using that by simp
qed

lemma int_value_number:
  assumes "int_value s v = Some z"
  shows "tag_is_number v" and "float_operand v = None"
  using assms by (auto simp: float_operand_def int_value_def value_of_def big_operand_def tag_is_number_def split: js_val.splits)

lemma short_operand_value:
  assumes "short_operand v = Some w"
  shows "int_value s v = Some (sint w)" and "\<And>p. v \<noteq> TagBigInt p"
  using assms by (auto simp: short_operand_def int_value_def sint_scast_int split: js_val.splits)

text \<open>The operands are released; the pending exception is kept.\<close>

definition consumes :: "js_val list \<Rightarrow> 'w js_state \<Rightarrow> 'w js_state \<Rightarrow> bool" where
  "consumes vs s s' \<longleftrightarrow> transfers (held vs) (\<lambda>p. 0) s s' \<and> exn (ctx s') = exn (ctx s)
     \<and> blocks (ctx s') - blocks (ctx s) = live s' - live s"

lemma consumes_refl: "heap_ok s \<Longrightarrow> \<not> (\<exists>p. TagBigInt p \<in> set vs) \<Longrightarrow> consumes vs s s"
  by (simp add: consumes_def no_refs transfers_refl)

lemma free_operands_consumes:
  assumes "heap_ok s" and "owned s [op1, op2]" and "tag_is_number op1" "tag_is_number op2"
  obtains s' where "free_operands h op1 op2 s = Some s'" "consumes [op1, op2] s s'"
  using free_operands_transfers [OF assms, of h] by (auto simp: consumes_def)

lemma js_compare_bigint_int:
  assumes ok: "heap_ok s" and own: "owned s [op1, op2]" and v: "int_value s op1 = Some a" "int_value s op2 = Some b"
  shows "\<exists>s'. js_compare_bigint h op op1 op2 s = Some (rel_int op a b, s') \<and> consumes [op1, op2] s s'"
proof (cases "\<exists>w1 w2. short_operand op1 = Some w1 \<and> short_operand op2 = Some w2")
  case True
  then obtain w1 w2 where w: "short_operand op1 = Some w1" "short_operand op2 = Some w2"
    by blast
  then have "a = sint w1" "b = sint w2" "\<not> (\<exists>p. TagBigInt p \<in> set [op1, op2])"
    using v short_operand_value(1) [OF w(1), of s] short_operand_value(1) [OF w(2), of s] short_operand_value(2) [OF w(1)] short_operand_value(2) [OF w(2)] by auto
  moreover have "of_bool (sint w1 > sint w2) - of_bool (sint w1 < sint w2) = int_cmp (sint w1) (sint w2)"
    by (simp add: int_cmp_def)
  ultimately show ?thesis
    using w consumes_refl [OF ok] rel_test_cmp [of op "sint w1" "sint w2"] by (simp add: js_compare_bigint_def)
next
  case False
  obtain x where x: "JS_ToBigIntBuf op1 s = Some x" "normal (tab x)" "ival (tab x) = a"
    using ok v(1) by (rule JS_ToBigIntBuf_value)
  obtain y where y: "JS_ToBigIntBuf op2 s = Some y" "normal (tab y)" "ival (tab y) = b"
    using ok v(2) by (rule JS_ToBigIntBuf_value)
  obtain s' where s': "free_operands h op1 op2 s = Some s'" "consumes [op1, op2] s s'"
    using ok own int_value_number(1) [OF v(1)] int_value_number(1) [OF v(2)] by (rule free_operands_consumes)
  have cmp: "js_bigint_cmp x y = int_cmp a b"
    using js_bigint_cmp_correct [OF x(2) y(2)] x(3) y(3) by simp
  have "js_compare_bigint h op op1 op2 s = Some (rel_test op (int_cmp a b), s')"
    using False x(1) y(1) s'(1) cmp int_value_number(2) [OF v(1)] int_value_number(2) [OF v(2)]
    by (auto simp: js_compare_bigint_def split: option.splits)
  then show ?thesis
    using s'(2) rel_test_cmp [of op a b] by simp
qed


text \<open>
  Against a double the answer is the exact one, except where \<open>js_bigint_float64_cmp\<close> is wrong: two negative
  numbers of different exponents.
\<close>

definition rel_float :: "rel_op \<Rightarrow> int \<Rightarrow> f64 \<Rightarrow> bool" where
  "rel_float op a d \<longleftrightarrow> \<not> f64_is_nan d \<and> rel_test op (float64_cmp_exact a d)"

fun rel_swap :: "rel_op \<Rightarrow> rel_op" where
  "rel_swap OP_lt = OP_gt"
| "rel_swap OP_lte = OP_gte"
| "rel_swap OP_gt = OP_lt"
| "rel_swap OP_gte = OP_lte"
| "rel_swap OP_eq = OP_eq"

lemma rel_test_minus: "rel_test op (- v) = rel_test (rel_swap op) v"
  by (cases op) auto

lemma float64_cmp_exact_nan: "float64_cmp_exact a d = 2 \<longleftrightarrow> f64_is_nan d"
  by (simp add: float64_cmp_exact_def int_cmp_def)

lemma short_operand_float: "short_operand (TagFloat64 d) = None" "float_operand (TagFloat64 d) = Some d"
  by (simp_all add: short_operand_def float_operand_def)

lemma js_compare_bigint_float:
  assumes ok: "heap_ok s" and own: "owned s [op1]" and v: "int_value s op1 = Some a" and sw: "\<not> cmp_swapped a d"
  shows "\<exists>s'. js_compare_bigint h op op1 (TagFloat64 d) s = Some (rel_float op a d, s') \<and> consumes [op1, TagFloat64 d] s s'"
    and "\<exists>s'. js_compare_bigint h op (TagFloat64 d) op1 s = Some (rel_float (rel_swap op) a d, s') \<and> consumes [TagFloat64 d, op1] s s'"
proof -
  obtain x where x: "JS_ToBigIntBuf op1 s = Some x" "normal (tab x)" "ival (tab x) = a"
    using ok v(1) by (rule JS_ToBigIntBuf_value)
  have cmp: "js_bigint_float64_cmp x d = float64_cmp_exact a d"
    using js_bigint_float64_cmp_correct [OF x(2), of d] x(3) sw by simp
  have num: "tag_is_number op1" "tag_is_number (TagFloat64 d)" "float_operand op1 = None"
    using int_value_number [OF v] by (simp_all add: tag_is_number_def)
  have own2: "owned s [op1, TagFloat64 d]" "owned s [TagFloat64 d, op1]"
    using own by (simp_all add: owned_def)
  obtain s1 where s1: "free_operands h op1 (TagFloat64 d) s = Some s1" "consumes [op1, TagFloat64 d] s s1"
    using ok own2(1) num(1,2) by (rule free_operands_consumes)
  obtain s2 where s2: "free_operands h (TagFloat64 d) op1 s = Some s2" "consumes [TagFloat64 d, op1] s s2"
    using ok own2(2) num(2,1) by (rule free_operands_consumes)
  show "\<exists>s'. js_compare_bigint h op op1 (TagFloat64 d) s = Some (rel_float op a d, s') \<and> consumes [op1, TagFloat64 d] s s'"
    using s1 x(1) cmp num(3) short_operand_float [of d] float64_cmp_exact_nan [of a d]
    by (auto simp: js_compare_bigint_def rel_float_def split: option.splits)
  show "\<exists>s'. js_compare_bigint h op (TagFloat64 d) op1 s = Some (rel_float (rel_swap op) a d, s') \<and> consumes [TagFloat64 d, op1] s s'"
    using s2 x(1) cmp num(3) short_operand_float [of d] float64_cmp_exact_nan [of a d]
    by (auto simp: js_compare_bigint_def rel_float_def rel_test_minus split: option.splits)
qed

section \<open>Results are canonical\<close>

lemma yields_canonical:
  assumes "yields n z vs s (Some v, s')"
  shows "(\<exists>w. v = TagShortBigInt w) \<longleftrightarrow> - (2 ^ 63) \<le> z \<and> z < 2 ^ 63"
proof -
  have ok: "heap_ok s'" and big: "is_big v" and val: "value_of s' v = Some z"
    using assms by (simp_all add: yields.simps transfers_def)
  from big show ?thesis
  proof (rule big_cases)
    fix w
    assume "v = TagShortBigInt w"
    then show ?thesis
      using val sint_limb_range [of w] by auto
  next
    fix p
    assume "v = TagBigInt p"
    then show ?thesis
      using value_of_long [OF ok, of p z] val by auto
  qed
qed

lemma owned_less: "owned s [v, w] \<Longrightarrow> owned s [v]"
  unfolding owned_def by (metis add.right_neutral add_left_mono held_nonneg held_simps order_trans)

section \<open>asIntN and asUintN\<close>

text \<open>The limbs of a number, as bits of the number.\<close>

lemma ival_split:
  assumes "i < length t"
  shows "int (nval (take i t)) = take_bit (64 * i) (ival t)" and "ival (drop i t) = drop_bit (64 * i) (ival t)"
proof -
  have z: "ival t = int (nval (take i t)) + 2 ^ (64 * i) * ival (drop i t)"
    using ival_append [of "drop i t" "take i t"] assms by (simp add: limb_pow_2)
  have b: "0 \<le> int (nval (take i t))" "int (nval (take i t)) < 2 ^ (64 * i)"
    using nval_less_pow [of "take i t"] assms by (simp_all add: limb_pow_2)
  show "int (nval (take i t)) = take_bit (64 * i) (ival t)"
    unfolding z take_bit_eq_mod using b by simp
  show "ival (drop i t) = drop_bit (64 * i) (ival t)"
    unfolding z drop_bit_eq_div using b by simp
qed

lemma limb_of_ival:
  assumes "i < length t"
  shows "uint (t ! i) = take_bit 64 (drop_bit (64 * i) (ival t))"
proof -
  have d: "drop i t = t ! i # drop (Suc i) t"
    using assms by (rule Cons_nth_drop_Suc [symmetric])
  have u: "0 \<le> uint (t ! i)" "uint (t ! i) < 2 ^ 64"
    using uint_lt2p [of "t ! i"] by simp_all
  have "take_bit 64 (ival (drop i t)) = uint (t ! i)"
  proof (cases "drop (Suc i) t = []")
    case True
    then show ?thesis
      unfolding d by (simp add: ival_single take_bit_eq_mod uint_sint)
  next
    case False
    then have "ival (drop i t) = uint (t ! i) + 2 ^ 64 * ival (drop (Suc i) t)"
      using ival_append [of "drop (Suc i) t" "[t ! i]"] unfolding d by (simp add: limb_pow_Suc limb_base_def)
    then show ?thesis
      using u by (simp add: take_bit_eq_mod)
  qed
  then show ?thesis
    unfolding ival_split(2) [OF assms] by simp
qed

lemma sint_narrow:
  fixes x :: js_limb_t
  assumes "k < 64"
  shows "sint (signed_drop_bit k (push_bit k x)) = signed_take_bit (63 - k) (uint x)"
    and "uint (drop_bit k (push_bit k x)) = take_bit (64 - k) (uint x)"
proof -
  have "sint (push_bit k x) = signed_take_bit 63 (push_bit k (uint x))"
    by (simp add: sint_uint unsigned_push_bit_eq signed_take_bit_take_bit)
  also have "\<dots> = push_bit k (signed_take_bit (63 - k) (uint x))"
    using assms by (intro bit_eqI) (auto simp: bit_signed_take_bit_iff bit_push_bit_iff min_def)
  finally show "sint (signed_drop_bit k (push_bit k x)) = signed_take_bit (63 - k) (uint x)"
    by (simp add: sint_signed_drop_bit_eq drop_bit_eq_div push_bit_eq_mult)
  have "uint (drop_bit k (push_bit k x)) = drop_bit k (take_bit 64 (push_bit k (uint x)))"
    by (simp add: unsigned_push_bit_eq unsigned_drop_bit_eq)
  also have "\<dots> = take_bit (64 - k) (uint x)"
    using assms by (intro bit_eqI) (auto simp: bit_take_bit_iff bit_push_bit_iff bit_drop_bit_eq)
  finally show "uint (drop_bit k (push_bit k x)) = take_bit (64 - k) (uint x)" .
qed

lemma concat_signed:
  fixes z :: int
  assumes "j < w"
  shows "concat_bit m z (signed_take_bit j (take_bit w (drop_bit m z))) = signed_take_bit (m + j) z"
proof (rule bit_eqI)
  fix n
  show "bit (concat_bit m z (signed_take_bit j (take_bit w (drop_bit m z)))) n = bit (signed_take_bit (m + j) z) n"
  proof (cases "n < m")
    case True
    then show ?thesis
      by (simp add: bit_concat_bit_iff bit_signed_take_bit_iff)
  next
    case False
    then obtain e where "n = m + e"
      using le_Suc_ex not_less by blast
    then show ?thesis
      using assms by (simp add: bit_concat_bit_iff bit_signed_take_bit_iff bit_take_bit_iff bit_drop_bit_eq min_add_distrib_right min_less_iff_disj)
  qed
qed

lemma asUintN_limbs_value:
  assumes bits: "0 < bits" "bits < 64 * length t"
  shows "ival (asUintN_limbs bits t asIntN) =
    (if asIntN \<or> 64 dvd bits then signed_take_bit (bits - 1) (ival t) else take_bit bits (ival t))"
proof -
  define n where "n = (bits + 63) div 64"
  define k where "k = nat ((- int bits) mod 64)"
  define i where "i = n - 1"
  obtain q r where qr: "bits = 64 * q + r" "r < 64"
    using div_mult_mod_eq [of bits 64] mod_less_divisor [of 64 bits] by (metis mult.commute zero_less_numeral)
  have k: "k = (if r = 0 then 0 else 64 - r)"
  proof -
    have "int bits mod 64 = int r"
      using qr by simp
    then show ?thesis
      using qr(2) unfolding k_def zmod_zminus1_eq_if by (auto simp: nat_diff_distrib)
  qed
  have n: "n = q + (if r = 0 then 0 else 1)"
    using qr by (auto simp: n_def)
  have b: "bits + k = 64 * n" "k < 64" "0 < n"
    using bits(1) qr by (auto simp: k n)
  have i: "i < length t" "n = Suc i" "bits = 64 * i + (64 - k)"
    using b bits by (auto simp: i_def)
  define x where "x = t ! i"
  define v where "v = (if asIntN then signed_drop_bit k (push_bit k x) else drop_bit k (push_bit k x))"
  have t: "asUintN_limbs bits t asIntN = take i t @ [v]"
    unfolding asUintN_limbs_def Let_def n_def [symmetric] k_def [symmetric] i(2) diff_Suc_1 x_def [symmetric] v_def ..
  have ux: "uint x = take_bit 64 (drop_bit (64 * i) (ival t))"
    unfolding x_def using i(1) by (rule limb_of_ival)
  have "ival (take i t @ [v]) = int (nval (take i t)) + limb_pow i * sint v"
    using ival_append [of "[v]" "take i t"] i(1) by (simp add: ival_single)
  also have "\<dots> = concat_bit (64 * i) (ival t) (sint v)"
    unfolding ival_split(1) [OF i(1)] by (simp add: concat_bit_eq push_bit_eq_mult limb_pow_2 mult.commute)
  finally have z: "ival (asUintN_limbs bits t asIntN) = concat_bit (64 * i) (ival t) (sint v)"
    unfolding t .
  have signed_case: "concat_bit (64 * i) (ival t) (signed_take_bit (63 - k) (uint x)) = signed_take_bit (bits - 1) (ival t)"
    unfolding ux i(3) using b(2) concat_signed [of "63 - k" 64 "64 * i" "ival t"] by (simp add: add.commute)
  have unsigned_case: "concat_bit (64 * i) (ival t) (take_bit (64 - k) (uint x)) = take_bit bits (ival t)"
    unfolding ux i(3) using b(2)
    by (auto intro!: bit_eqI simp: bit_concat_bit_iff bit_take_bit_iff bit_drop_bit_eq)
  have dvd: "64 dvd bits \<longleftrightarrow> k = 0"
    using qr by (auto simp: k dvd_eq_mod_eq_0)
  show ?thesis
  proof (cases "asIntN \<or> k = 0")
    case True
    have "sint v = signed_take_bit (63 - k) (uint x)"
      using True sint_narrow(1) [OF b(2), of x] by (auto simp: v_def sint_uint)
    then show ?thesis
      using True z dvd signed_case by auto
  next
    case False
    then have v: "uint v = take_bit (64 - k) (uint x)"
      using sint_narrow(2) [OF b(2), of x] by (simp add: v_def)
    have "take_bit (64 - k) (uint x) < 2 ^ (64 - k)"
      by simp
    also have "(2 :: int) ^ (64 - k) \<le> 2 ^ 63"
      using False by (intro power_increasing) auto
    finally have "sint v = uint v"
      unfolding v [symmetric] sint_uint by (intro signed_take_bit_int_eq_self) (simp_all add: order_trans [OF _ uint_ge_0])
    then show ?thesis
      using False z dvd unsigned_case v by auto
  qed
qed

text \<open>
  The value of both functions. \<open>asUintN\<close> is wrong in two cases, in which it gives the result of \<open>asIntN\<close>: for a
  negative number when the result needs at least the bits of the operand's limbs, and for a number
  of bits that is a multiple of 64, when the highest of these bits is set.
\<close>

definition asUintN_sloppy :: "nat \<Rightarrow> nat \<Rightarrow> bool" where
  "asUintN_sloppy bits n \<longleftrightarrow> 64 * n \<le> bits \<or> 64 dvd bits"

definition asN_value :: "nat \<Rightarrow> bool \<Rightarrow> nat \<Rightarrow> int \<Rightarrow> int" where
  "asN_value bits asIntN n z =
     (if bits = 0 then 0
      else if asIntN \<or> asUintN_sloppy bits n then signed_take_bit (bits - 1) z else take_bit bits z)"

lemma signed_take_bit_limbs:
  assumes "t \<noteq> []" and "64 * length t \<le> bits"
  shows "signed_take_bit (bits - 1) (ival t) = ival t"
proof -
  have "2 * ((2 :: int) ^ (64 * length t - 1)) = 2 ^ (64 * length t)"
    using assms(1) by (cases "length t") (simp_all add: power_add)
  then have "- (2 ^ (64 * length t - 1)) \<le> ival t" "ival t < 2 ^ (64 * length t - 1)"
    using ival_bounds [OF assms(1)] unfolding limb_pow_2 by linarith+
  moreover have "(2 :: int) ^ (64 * length t - 1) \<le> 2 ^ (bits - 1)"
    using assms(2) by (intro power_increasing) simp_all
  ultimately show ?thesis
    by (intro signed_take_bit_int_eq_self) linarith+
qed

lemma yields_same:
  assumes "heap_ok s" and "is_big a" and "value_of s a = Some z"
  shows "yields n z [a] s (Some a, s)"
proof -
  have "held [a] = gives_ref (Some a)"
    by (auto simp: gives_ref_def fun_eq_iff)
  then show ?thesis
    using assms by (simp add: yields.simps transfers_def)
qed

lemma asUintN_single:
  assumes "0 < bits" and "bits < 64"
  shows "asUintN_limbs bits [w] asIntN = [asUintN_short bits w asIntN]"
proof -
  have n: "(bits + 63) div 64 = 1"
    using assms by (simp add: div_nat_eqI)
  have "int bits mod 64 = int bits"
    using assms by simp
  then have "nat ((- int bits) mod 64) = 64 - bits"
    using assms by (simp only: zmod_zminus1_eq_if) auto
  then show ?thesis
    unfolding asUintN_limbs_def asUintN_short_def Let_def n by simp
qed

lemma asUintN_long_yields:
  assumes ok: "heap_ok s" and own: "owned s [a]" and a: "a = TagBigInt p" and hp: "heap s p = Some x"
    and bits: "0 < bits" "bits < 64 * len x" and vy: "ival (asUintN_limbs bits (tab x) asIntN) = y"
  shows "\<exists>v s'. asUintN h bits a asIntN s = Some (v, s') \<and> yields (len x) y [a] s (if v = TagException then None else Some v, s')"
proof -
  let ?m = "(bits + 63) div 64"
  have m: "?m \<le> len x"
    using bits by linarith
  have ne: "asUintN_limbs bits (tab x) asIntN \<noteq> []"
    by (simp add: asUintN_limbs_def Let_def)
  have unf: "asUintN h bits a asIntN s = (case js_bigint_new ?m (ctx s) of
       (None, c) \<Rightarrow> do { s \<leftarrow> JS_FreeValue h a (s \<lparr>ctx := c\<rparr>); Some (TagException, s) }
     | (Some r, c) \<Rightarrow>
        do {
          let (r, c) = js_bigint_normalize (r \<lparr>tab := asUintN_limbs bits (tab x) asIntN\<rparr>) c;
          s \<leftarrow> JS_FreeValue h a (s \<lparr>ctx := c\<rparr>);
          Some (JS_CompactBigInt r s)
        })"
    unfolding a using bits hp by (simp add: asUintN_def mult.commute)
  obtain r c where new: "js_bigint_new ?m (ctx s) = (r, c)"
    by (cases "js_bigint_new ?m (ctx s)")
  have big: "is_big a"
    by (simp add: a)
  show ?thesis
  proof (cases r)
    case None
    then have "returns (len x) y (ctx s) (None, c)"
      using js_bigint_new_contract(2) [of ?m "ctx s" c] new fails_mono [OF _ m] by simp
    from unary_path_yields [OF ok own big this, of h] obtain s' where
      "JS_FreeValue h a (s \<lparr>ctx := c\<rparr>) = Some s'" "yields (len x) y [a] s (compact_result None s')"
      by (auto split: Option.bind_splits)
    then show ?thesis
      unfolding unf using new None by (intro exI [of _ TagException]) (auto simp: compact_result_def)
  next
    case (Some r')
    obtain q c' where q: "js_bigint_normalize (r' \<lparr>tab := asUintN_limbs bits (tab x) asIntN\<rparr>) c = (q, c')"
      by (cases "js_bigint_normalize (r' \<lparr>tab := asUintN_limbs bits (tab x) asIntN\<rparr>) c")
    have "returns (len x) y (ctx s) (Some q, c')"
      using js_bigint_normalize_returns [of "r' \<lparr>tab := asUintN_limbs bits (tab x) asIntN\<rparr>" y "ctx s" c "len x"]
        js_bigint_new_contract(1) [of ?m "ctx s" r' c] new Some ne vy q by simp
    from unary_path_yields [OF ok own big this, of h] obtain s' where
      "JS_FreeValue h a (s \<lparr>ctx := c'\<rparr>) = Some s'" "yields (len x) y [a] s (compact_result (Some q) s')"
      by (auto split: Option.bind_splits)
    then show ?thesis
      unfolding unf using new Some q by (auto simp: compact_result_def JS_CompactBigInt_def mk_big_int_def)
  qed
qed

lemma asUintN_yields:
  assumes ops: "operand1 s a z"
  shows "\<exists>v s'. asUintN h bits a asIntN s = Some (v, s') \<and>
    yields (limbs s a) (asN_value bits asIntN (limbs s a) z) [a] s (if v = TagException then None else Some v, s')"
proof -
  have ok: "heap_ok s" and own: "owned s [a]" and val: "value_of s a = Some z"
    using ops by (simp_all add: operand1_def)
  obtain x where x: "big_operand a s = Some x" "normal (tab x)" "ival (tab x) = z" "limbs s a = len x" "is_big a" "tab x \<noteq> []"
    using ok val by (rule operand)
  consider (zero) "bits = 0" | (same) "0 < bits" "64 * len x \<le> bits" | (cut) "0 < bits" "bits < 64 * len x"
    by linarith
  then show ?thesis
  proof cases
    case zero
    obtain s' where s': "JS_FreeValue h a s = Some s'" "transfers (held [a]) (\<lambda>p. 0) s s'" "later (ctx s) (ctx s')"
      "blocks (ctx s') - blocks (ctx s) = live s' - live s" "exn (ctx s') = exn (ctx s)"
      using JS_FreeValue_transfers [OF ok own is_big_number [OF x(5)], of h] by blast
    moreover have "gives_ref (Some (TagShortBigInt 0)) = (\<lambda>p. 0)"
      by (simp add: gives_ref_def fun_eq_iff)
    ultimately show ?thesis
      using zero by (simp add: asUintN_def yields.simps asN_value_def)
  next
    case same
    have "asUintN h bits a asIntN s = Some (a, s)"
      using x(5) by (rule big_cases) (use same x(1) in \<open>auto simp: asUintN_def big_operand_def js_bigint_set_short_def js_bigint_set_si_def mult.commute\<close>)
    moreover have "asN_value bits asIntN (limbs s a) z = z"
      using same signed_take_bit_limbs [OF x(6) same(2)] x(3,4) by (simp add: asN_value_def asUintN_sloppy_def)
    ultimately show ?thesis
      using yields_same [OF ok x(5) val] x(5) by (auto simp: is_big_def)
  next
    case cut
    have vy: "ival (asUintN_limbs bits (tab x) asIntN) = asN_value bits asIntN (limbs s a) z"
      using asUintN_limbs_value [OF cut] cut x(3,4) by (simp add: asN_value_def asUintN_sloppy_def)
    from x(5) show ?thesis
    proof (rule big_cases)
      fix w
      assume a: "a = TagShortBigInt w"
      then have "tab x = [w]"
        using x(1) by (auto simp: big_operand_def js_bigint_set_short_def js_bigint_set_si_def)
      then have "sint (asUintN_short bits w asIntN) = asN_value bits asIntN (limbs s a) z"
        using vy cut asUintN_single [of bits w asIntN] by (simp add: ival_single)
      then show ?thesis
        using a cut \<open>tab x = [w]\<close> short_value_yields [OF ok, of "[a]" "asUintN_short bits w asIntN"] by (simp add: asUintN_def)
    next
      fix p
      assume a: "a = TagBigInt p"
      then have hp: "heap s p = Some x"
        using x(1) by (simp add: big_operand_def)
      then show ?thesis
        using asUintN_long_yields [OF ok own a hp cut vy] x(4) by simp
    qed
  qed
qed


end
