(* ===== verification/Number_Facts.thy ===== *)
theory Number_Facts
  imports Operators
begin

text \<open>
  The conversions of a double to an integer: \<open>JS_ToInt32Free\<close> and \<open>JS_ToInt64Free\<close> take the truncated value
  modulo \<open>2 ^ 32\<close> and \<open>2 ^ 64\<close>, whatever the exponent, and the saturating ones clamp it.
\<close>

unbundle bit_operations_syntax

section \<open>The truncated magnitude\<close>

definition f64_int_mag :: "f64 \<Rightarrow> nat" where
  "f64_int_mag d = f64_mag d div 2 ^ 1074"

lemma f64_trunc_mag: "f64_trunc d = (if f64_sign d then - int (f64_int_mag d) else int (f64_int_mag d))"
  by (simp only: f64_trunc_def f64_int_mag_def)

lemma f64_int_mag_small:
  assumes "f64_exp d < 1023 + w"
  shows "f64_int_mag d < 2 ^ w"
proof -
  note f64_mag_less [of d]
  also have "(2 :: nat) ^ (53 + (f64_exp d - 1)) \<le> 2 ^ (w + 1074)"
    by (rule power_increasing) (use assms in simp_all)
  finally have "f64_mag d < 2 ^ w * 2 ^ 1074"
    by (simp only: power_add)
  then show ?thesis
    unfolding f64_int_mag_def by (rule less_mult_imp_div_less)
qed

lemma f64_int_mag_shift:
  assumes "f64_exp d = 1043 + j" 
  shows "f64_int_mag d = (2 ^ 52 + f64_mant d) * 2 ^ j div 2 ^ 32"
proof -
  have m: "f64_mag d = (2 ^ 52 + f64_mant d) * 2 ^ j * 2 ^ 1042"
    unfolding mult.assoc power_add [symmetric] using f64_mag_normal [of d] assms by (simp add: add.commute)
  have p: "(2 :: nat) ^ 1074 = 2 ^ 32 * 2 ^ 1042"
    unfolding power_add [symmetric] by simp
  show ?thesis
    unfolding f64_int_mag_def m p by (rule div_mult_mult2) simp
qed

lemma f64_int_mag_large:
  assumes "f64_exp d = 1075 + j"
  shows "f64_int_mag d = (2 ^ 52 + f64_mant d) * 2 ^ j"
proof -
  have "f64_mag d = (2 ^ 52 + f64_mant d) * 2 ^ j * 2 ^ 1074"
    unfolding mult.assoc power_add [symmetric] using f64_mag_normal [of d] assms by (simp add: add.commute)
  then show ?thesis
    unfolding f64_int_mag_def by (simp only: nonzero_mult_div_cancel_right power_not_zero zero_neq_numeral not_False_eq_True)
qed

lemma word_of_trunc:
  "word_of_int (f64_trunc d) = (if f64_sign d then - of_nat (f64_int_mag d) else of_nat (f64_int_mag d) :: 'a::len word)"
  by (simp add: f64_trunc_mag)

section \<open>Conversions that wrap\<close>

lemma exp_field: "uint (drop_bit 52 (d :: f64) AND 0x7FF) = int (f64_exp d)"
  by (simp add: f64_exp_def)

lemma sign_field: "drop_bit 63 (d :: f64) \<noteq> 0 \<longleftrightarrow> f64_sign d"
  by (simp add: f64_fields(4) limb_of_bool_def)

lemma f64_to_int32_small:
  assumes "f64_exp d \<le> 1053"
  shows "f64_to_int32 d = Some (word_of_int (f64_trunc d))"
proof -
  have "f64_int_mag d < 2 ^ 31"
    using assms by (intro f64_int_mag_small) simp
  then have "- (2 ^ 31) \<le> f64_trunc d" "f64_trunc d < 2 ^ 31"
    by (simp_all add: f64_trunc_mag)
  then show ?thesis
    using assms by (simp add: f64_to_int32_def f64_finite_def)
qed

lemma f64_to_int64_small:
  assumes "f64_exp d \<le> 1085"
  shows "f64_to_int64 d = Some (word_of_int (f64_trunc d))"
proof -
  have "f64_int_mag d < 2 ^ 63"
    using assms by (intro f64_int_mag_small) simp
  then have "- (2 ^ 63) \<le> f64_trunc d" "f64_trunc d < 2 ^ 63"
    by (simp_all add: f64_trunc_mag)
  then show ?thesis
    using assms by (simp add: f64_to_int64_def f64_finite_def)
qed

text \<open>The significand, shifted, is the magnitude modulo the word size.\<close>

lemma push_significand:
  "push_bit j ((d AND (push_bit 52 1 - 1)) OR push_bit 52 1) = (of_nat ((2 ^ 52 + f64_mant d) * 2 ^ j) :: f64)"
proof -
  have "(d AND (push_bit 52 1 - 1)) OR push_bit 52 1 = (of_nat (2 ^ 52 + f64_mant d) :: f64)"
    unfolding f64_significand [symmetric] by simp
  then show ?thesis
    by (simp add: push_bit_eq_mult)
qed

lemma high_half: "(ucast (drop_bit 32 (of_nat n :: u64)) :: u32) = of_nat (n div 2 ^ 32)"
proof -
  have "unat (drop_bit 32 (of_nat n :: u64)) = n mod 2 ^ 64 div 2 ^ 32"
    by (simp add: unat_drop_bit unat_of_nat)
  also have "\<dots> = n div 2 ^ 32 mod 2 ^ 32"
    using div_exp_mod_exp_eq [of n 32 32] by simp
  finally show ?thesis
    by (simp add: word_unat_eq_iff unat_ucast unat_of_nat)
qed

lemma of_nat_dvd_zero: "2 ^ LENGTH('a) dvd n \<Longrightarrow> (of_nat n :: 'a::len word) = 0"
  by (simp add: word_of_nat_eq_0_iff)

lemma float64_to_int32_correct:
  "float64_to_int32 d = Some (if f64_finite d then word_of_int (f64_trunc d) else 0)"
proof -
  consider (small) "f64_exp d \<le> 1053" | (middle) j where "f64_exp d = 1043 + j" "11 \<le> j" "j < 64"
    | (large) j where "f64_exp d = 1075 + j" "32 \<le> j" "f64_exp d < 2047" | (special) "f64_exp d = 2047"
    using f64_exp_less [of d] le_Suc_ex [of 1043 "f64_exp d"] le_Suc_ex [of 1075 "f64_exp d"] by fastforce
  then show ?thesis
  proof cases
    case small
    then show ?thesis
      using f64_to_int32_small by (simp add: float64_to_int32_def exp_field f64_finite_def)
  next
    case middle
    then have "nat (int (f64_exp d) - 1023 - 52 + 32) = j"
      by simp
    then show ?thesis
      using middle unfolding float64_to_int32_def exp_field Let_def word_of_trunc f64_int_mag_shift [OF middle(1)]
        high_half [symmetric] push_significand [symmetric]
      by (simp add: sign_field f64_finite_def)
  next
    case large
    have "(2 :: nat) ^ 32 dvd f64_int_mag d"
      unfolding f64_int_mag_large [OF large(1)] by (intro dvd_mult le_imp_power_dvd large(2))
    then have "of_nat (f64_int_mag d) = (0 :: u32)"
      by (intro of_nat_dvd_zero) simp
    then show ?thesis
      using large by (simp add: float64_to_int32_def exp_field word_of_trunc)
  qed (simp add: float64_to_int32_def exp_field f64_finite_def)
qed

lemma float64_to_int64_correct:
  "float64_to_int64 d = Some (if f64_finite d then word_of_int (f64_trunc d) else 0)"
proof -
  consider (small) "f64_exp d \<le> 1085" | (middle) j where "f64_exp d = 1075 + j" "11 \<le> j" "j < 64"
    | (large) j where "f64_exp d = 1075 + j" "64 \<le> j" "f64_exp d < 2047" | (special) "f64_exp d = 2047"
    using f64_exp_less [of d] le_Suc_ex [of 1075 "f64_exp d"] by fastforce
  then show ?thesis
  proof cases
    case small
    then show ?thesis
      using f64_to_int64_small by (simp add: float64_to_int64_def exp_field f64_finite_def)
  next
    case middle
    then have "nat (int (f64_exp d) - 1023 - 52) = j"
      by simp
    then show ?thesis
      using middle unfolding float64_to_int64_def exp_field Let_def word_of_trunc f64_int_mag_large [OF middle(1)]
        push_significand [symmetric]
      by (simp add: sign_field f64_finite_def)
  next
    case large
    have "(2 :: nat) ^ 64 dvd f64_int_mag d"
      unfolding f64_int_mag_large [OF large(1)] by (intro dvd_mult le_imp_power_dvd large(2))
    then have "of_nat (f64_int_mag d) = (0 :: u64)"
      by (intro of_nat_dvd_zero) simp
    then show ?thesis
      using large by (simp add: float64_to_int64_def exp_field word_of_trunc)
  qed (simp add: float64_to_int64_def exp_field f64_finite_def)
qed

section \<open>Conversions that saturate\<close>

definition clamp :: "int \<Rightarrow> int \<Rightarrow> int \<Rightarrow> int" where
  "clamp lo hi z = max lo (min hi z)"

text \<open>The value an integer conversion saturates: infinities are beyond every bound.\<close>

definition f64_sat :: "int \<Rightarrow> int \<Rightarrow> f64 \<Rightarrow> int" where
  "f64_sat lo hi d =
     (if f64_is_nan d then 0
      else if f64_is_inf d then (if f64_sign d then lo else hi)
      else clamp lo hi (f64_trunc d))"

lemma int_mag_le: "f64_mag d \<le> n * 2 ^ 1074 \<Longrightarrow> f64_int_mag d \<le> n"
  unfolding f64_int_mag_def
  using div_le_mono [of "f64_mag d" "n * 2 ^ 1074" "2 ^ 1074"]
  by (simp only: nonzero_mult_div_cancel_right power_not_zero zero_neq_numeral not_False_eq_True)

lemma int_mag_ge: "n * 2 ^ 1074 \<le> f64_mag d \<Longrightarrow> n \<le> f64_int_mag d"
  unfolding f64_int_mag_def
  using div_le_mono [of "n * 2 ^ 1074" "f64_mag d" "2 ^ 1074"]
  by (simp only: nonzero_mult_div_cancel_right power_not_zero zero_neq_numeral not_False_eq_True)

lemma int_unit: "int n * 2 ^ 1074 = int (n * 2 ^ 1074)"
  by (simp only: of_nat_mult of_nat_power of_nat_numeral)

lemma trunc_ge_iff:
  assumes "f64_finite d"
  shows "f64_ge_int d (- int n) \<Longrightarrow> - int n \<le> f64_trunc d" and "\<not> f64_ge_int d (- int n) \<Longrightarrow> f64_trunc d \<le> - int n"
proof -
  have fin: "\<not> f64_is_nan d" "\<not> f64_is_inf d"
    using assms by (auto simp: f64_finite_def f64_is_nan_def f64_is_inf_def)
  have ge: "f64_ge_int d (- int n) \<longleftrightarrow> (f64_sign d \<longrightarrow> f64_mag d \<le> n * 2 ^ 1074)"
  proof (cases "f64_sign d")
    case True
    then have "f64_ge_int d (- int n) \<longleftrightarrow> - int (n * 2 ^ 1074) \<le> - int (f64_mag d)"
      using fin by (simp only: f64_ge_int_def f64_units_def mult_minus_left int_unit if_True if_False not_False_eq_True simp_thms)
    then show ?thesis
      using True by (simp only: neg_le_iff_le of_nat_le_iff simp_thms)
  next
    case False
    have "- int (n * 2 ^ 1074) \<le> 0" "(0 :: int) \<le> int (f64_mag d)"
      by (simp_all only: neg_le_0_iff_le of_nat_0_le_iff)
    then have "- int (n * 2 ^ 1074) \<le> int (f64_mag d)"
      by (rule order_trans)
    then show ?thesis
      using False fin by (simp only: f64_ge_int_def f64_units_def mult_minus_left int_unit if_False not_False_eq_True simp_thms)
  qed
  show "- int n \<le> f64_trunc d" if "f64_ge_int d (- int n)"
    using that int_mag_le [of d n] unfolding ge f64_trunc_mag by (cases "f64_sign d") simp_all
  show "f64_trunc d \<le> - int n" if "\<not> f64_ge_int d (- int n)"
    using that int_mag_ge [of n d] unfolding ge f64_trunc_mag by (cases "f64_sign d") simp_all
qed

lemma trunc_le_iff:
  assumes "f64_finite d"
  shows "f64_le_int d (int n) \<Longrightarrow> f64_trunc d \<le> int n" and "\<not> f64_le_int d (int n) \<Longrightarrow> int n \<le> f64_trunc d"
proof -
  have fin: "\<not> f64_is_nan d" "\<not> f64_is_inf d"
    using assms by (auto simp: f64_finite_def f64_is_nan_def f64_is_inf_def)
  have le: "f64_le_int d (int n) \<longleftrightarrow> (\<not> f64_sign d \<longrightarrow> f64_mag d \<le> n * 2 ^ 1074)"
  proof (cases "f64_sign d")
    case True
    have "- int (f64_mag d) \<le> 0" "(0 :: int) \<le> int (n * 2 ^ 1074)"
      by (simp_all only: neg_le_0_iff_le of_nat_0_le_iff)
    then have "- int (f64_mag d) \<le> int (n * 2 ^ 1074)"
      by (rule order_trans)
    then show ?thesis
      using True fin by (simp only: f64_le_int_def f64_units_def int_unit if_True if_False not_False_eq_True simp_thms)
  next
    case False
    then show ?thesis
      using fin by (simp only: f64_le_int_def f64_units_def int_unit of_nat_le_iff if_False not_False_eq_True simp_thms)
  qed
  show "f64_trunc d \<le> int n" if "f64_le_int d (int n)"
    using that int_mag_le [of d n] unfolding le f64_trunc_mag by (cases "f64_sign d") simp_all
  show "int n \<le> f64_trunc d" if "\<not> f64_le_int d (int n)"
    using that int_mag_ge [of n d] unfolding le f64_trunc_mag by (cases "f64_sign d") simp_all
qed

text \<open>For \<open>int64_t\<close> the upper bound is tested one above, where it is a double.\<close>

lemma trunc_less_iff:
  assumes "f64_finite d" and "0 < n"
  shows "f64_ge_int d (int n) \<longleftrightarrow> int n \<le> f64_trunc d"
proof -
  have fin: "\<not> f64_is_nan d" "\<not> f64_is_inf d"
    using assms(1) by (auto simp: f64_finite_def f64_is_nan_def f64_is_inf_def)
  have "0 < n * 2 ^ 1074"
    using assms(2) by (simp only: nat_0_less_mult_iff zero_less_power zero_less_numeral)
  then have pos: "\<not> int (n * 2 ^ 1074) \<le> - int (f64_mag d)"
    by linarith
  have "f64_ge_int d (int n) \<longleftrightarrow> \<not> f64_sign d \<and> n * 2 ^ 1074 \<le> f64_mag d"
    using fin pos by (cases "f64_sign d")
      (simp_all only: f64_ge_int_def f64_units_def int_unit of_nat_le_iff if_True if_False not_False_eq_True simp_thms)
  also have "\<dots> \<longleftrightarrow> \<not> f64_sign d \<and> n \<le> f64_int_mag d"
    using int_mag_ge [of n d] less_mult_imp_div_less [of "f64_mag d" n "2 ^ 1074"] unfolding f64_int_mag_def
    by (meson not_le)
  also have "\<dots> \<longleftrightarrow> int n \<le> f64_trunc d"
    using assms(2) by (simp add: f64_trunc_mag)
  finally show ?thesis .
qed

lemma float64_to_int32_sat_correct:
  "float64_to_int32_sat d = Some (word_of_int (f64_sat (- (2 ^ 31)) (2 ^ 31 - 1) d))"
proof (cases "f64_finite d")
  case True
  then have fin: "\<not> f64_is_nan d" "\<not> f64_is_inf d"
    by (auto simp: f64_finite_def f64_is_nan_def f64_is_inf_def)
  note ge = trunc_ge_iff [OF True, of "2 ^ 31"] and le = trunc_le_iff [OF True, of "2 ^ 31 - 1"]
  have n: "int (2 ^ 31) = 2 ^ 31" "int (2 ^ 31 - 1) = 2 ^ 31 - 1"
    by simp_all
  show ?thesis
    using ge le fin True unfolding n
    by (cases "f64_ge_int d (- (2 ^ 31))") (auto simp: float64_to_int32_sat_def f64_sat_def clamp_def f64_to_int32_def simp del: word_of_int_eq_iff)
next
  case False
  then show ?thesis
    by (auto simp: float64_to_int32_sat_def f64_sat_def f64_finite_def f64_is_nan_def f64_is_inf_def f64_ge_int_def f64_le_int_def)
qed

lemma float64_to_int64_sat_correct:
  "float64_to_int64_sat d = Some (word_of_int (f64_sat (- (2 ^ 63)) (2 ^ 63 - 1) d))"
proof (cases "f64_finite d")
  case True
  then have fin: "\<not> f64_is_nan d" "\<not> f64_is_inf d"
    by (auto simp: f64_finite_def f64_is_nan_def f64_is_inf_def)
  note ge = trunc_ge_iff [OF True, of "2 ^ 63"] and le = trunc_less_iff [OF True, of "2 ^ 63"]
  have n: "int (2 ^ 63) = 2 ^ 63"
    by simp
  show ?thesis
    using ge le fin True unfolding n
    by (cases "f64_ge_int d (- (2 ^ 63))") (auto simp: float64_to_int64_sat_def f64_sat_def clamp_def f64_to_int64_def simp del: word_of_int_eq_iff)
next
  case False
  then show ?thesis
    by (auto simp: float64_to_int64_sat_def f64_sat_def f64_finite_def f64_is_nan_def f64_is_inf_def f64_ge_int_def)
qed

end
