(* ===== verification/Equality_Facts.thy ===== *)
theory Equality_Facts
  imports Conversions Compare_Facts Number_Facts
begin

text \<open>
  What the equalities of JavaScript decide on numbers and BigInts. A double is determined by its value up to
  the sign of zero and the pattern of a NaN, so each mode of \<open>js_strict_eq2\<close> is equality of a normal form; the loose
  equality compares the mathematical values. The operands lose exactly the references they held.
\<close>

unbundle bit_operations_syntax

section \<open>The fields of a double\<close>

lemma f64_exp_div: "f64_exp d = unat d div 2 ^ 52 mod 2 ^ 11"
proof -
  have "(0x7FF :: 64 word) = mask 11"
    by (simp add: mask_eq_exp_minus_1)
  then have "f64_exp d = unat (take_bit 11 (drop_bit 52 d))"
    by (simp only: f64_exp_def take_bit_eq_mask)
  then show ?thesis
    by (simp only: unsigned_take_bit_eq unat_drop_bit_eq) (simp only: take_bit_eq_mod drop_bit_eq_div)
qed

lemma f64_sign_le: "f64_sign d \<longleftrightarrow> 2 ^ 63 \<le> unat d"
proof -
  have "bit d 63 \<longleftrightarrow> bit (unat d) 63"
    by (simp add: bit_unsigned_iff)
  also have "\<dots> \<longleftrightarrow> odd (unat d div 2 ^ 63)"
    by (simp only: bit_iff_odd)
  also have "\<dots> \<longleftrightarrow> 2 ^ 63 \<le> unat d"
  proof -
    have "unat d < 2 ^ LENGTH(64)"
      by (rule unsigned_less)
    then have "unat d div 2 ^ 63 < 2"
      by (simp add: less_mult_imp_div_less)
    then have "odd (unat d div 2 ^ 63) \<longleftrightarrow> unat d div 2 ^ 63 \<noteq> 0"
      by (cases "unat d div 2 ^ 63") (auto simp: less_2_cases_iff)
    then show ?thesis
      by (simp add: div_eq_0_iff not_less)
  qed
  finally show ?thesis
    by (simp add: f64_sign_def)
qed

lemma f64_of_fields:
  assumes "unat d = s * 2 ^ 63 + (x * 2 ^ 52 + m)" and "s \<le> 1" and "x < 2 ^ 11" and "m < 2 ^ 52"
  shows "f64_sign d \<longleftrightarrow> s = 1" and "f64_exp d = x" and "f64_mant d = m"
proof -
  have low: "x * 2 ^ 52 + m < 2 ^ 63"
    using assms(3,4) by simp
  show "f64_sign d \<longleftrightarrow> s = 1"
    using assms(2) low by (cases "s = 0") (auto simp: f64_sign_le assms(1))
  have "(s * 2 ^ 63 + (x * 2 ^ 52 + m)) div 2 ^ 52 = s * 2 ^ 11 + x"
    using assms(4) by (simp add: div_mult_self3 algebra_simps div_eq_dividend_iff)
  then show "f64_exp d = x"
    unfolding f64_exp_div assms(1) using assms(3) by simp
  have "s * 2 ^ 63 + (x * 2 ^ 52 + m) = m + 2 ^ 52 * (s * 2 ^ 11 + x)"
    by simp
  then have "(s * 2 ^ 63 + (x * 2 ^ 52 + m)) mod 2 ^ 52 = m mod 2 ^ 52"
    by (simp only: mod_mult_self2)
  then show "f64_mant d = m"
    unfolding f64_mant_mod assms(1) using assms(4) by simp
qed

lemma f64_of_nat_exact:
  assumes "n < 2 ^ 53"
  shows "unat (f64_of_nat n) < 2 ^ 63" and "f64_finite (f64_of_nat n)" and "f64_mag (f64_of_nat n) = n * 2 ^ 1074"
    and "f64_exp (f64_of_nat n + 2 ^ 63) = f64_exp (f64_of_nat n)" and "f64_mant (f64_of_nat n + 2 ^ 63) = f64_mant (f64_of_nat n)"
    and "\<not> f64_sign (f64_of_nat n)" and "f64_sign (f64_of_nat n + 2 ^ 63)"
proof -
  define e where "e = (if n = 0 then 0 else floor_log2 n)"
  define x where "x = (if n = 0 then 0 else e + 1023)"
  define m where "m = (if n = 0 then 0 else (n - 2 ^ e) * 2 ^ (52 - e))"
  have e: "e \<le> 52" "n \<noteq> 0 \<Longrightarrow> 2 ^ e \<le> n \<and> n < 2 ^ Suc e"
    using floor_log2_less [of n 53] floor_log2_bounds [of n] assms by (auto simp: e_def)
  have "m < 2 ^ e * 2 ^ (52 - e)"
    unfolding m_def using e by auto
  then have m: "m < 2 ^ 52"
    using e(1) by (simp flip: power_add)
  have x: "x < 2 ^ 11"
    using e(1) by (simp add: x_def)
  have small: "x * 2 ^ 52 + m < 2 ^ 63"
    using x m by simp
  have w: "f64_of_nat n = of_nat (x * 2 ^ 52 + m)"
    by (simp add: f64_of_nat_def x_def m_def e_def Let_def)
  have u: "unat (f64_of_nat n) = 0 * 2 ^ 63 + (x * 2 ^ 52 + m)"
    unfolding w using small by (simp only: unat_of_nat) simp
  have u2: "unat (f64_of_nat n + 2 ^ 63) = 1 * 2 ^ 63 + (x * 2 ^ 52 + m)"
    unfolding unat_word_ariths(1) u using small by simp
  note f = f64_of_fields [OF u zero_le_one x m] and f2 = f64_of_fields [OF u2 order_refl x m]
  show "unat (f64_of_nat n) < 2 ^ 63"
    unfolding u using small by simp
  show "f64_exp (f64_of_nat n + 2 ^ 63) = f64_exp (f64_of_nat n)" "f64_mant (f64_of_nat n + 2 ^ 63) = f64_mant (f64_of_nat n)"
    "\<not> f64_sign (f64_of_nat n)" "f64_sign (f64_of_nat n + 2 ^ 63)"
    using f f2 by simp_all
  show "f64_finite (f64_of_nat n)"
    using f(2) e(1) by (simp add: f64_finite_def x_def)
  show "f64_mag (f64_of_nat n) = n * 2 ^ 1074"
  proof (cases "n = 0")
    case True
    then show ?thesis
      using f(2,3) by (simp add: f64_mag_def x_def m_def)
  next
    case False
    have x_pos: "x \<noteq> 0"
      using False by (simp add: x_def)
    have "2 ^ 52 + m = 2 ^ e * 2 ^ (52 - e) + (n - 2 ^ e) * 2 ^ (52 - e)"
      using False e(1) by (simp add: m_def flip: power_add)
    also have "\<dots> = n * 2 ^ (52 - e)"
      using e(2) [OF False] by (simp only: add_mult_distrib [symmetric] le_add_diff_inverse)
    finally have "(2 ^ 52 + m) * 2 ^ (x - 1) = n * (2 ^ (52 - e) * 2 ^ (1022 + e))"
      using False by (simp add: x_def add.commute)
    also have "\<dots> = n * 2 ^ 1074"
      using e(1) by (simp only: flip: power_add) simp
    finally show ?thesis
      by (simp only: f64_mag_def f(2,3) x_pos if_False)
  qed
qed

lemma f64_of_int_exact:
  assumes "\<bar>n\<bar> < 2 ^ 53"
  shows "f64_finite (f64_of_int n)" and "f64_units (f64_of_int n) = n * 2 ^ 1074"
    and "\<not> f64_is_nan (f64_of_int n)" and "\<not> f64_is_inf (f64_of_int n)"
proof -
  define k where "k = nat \<bar>n\<bar>"
  have k: "k < 2 ^ 53"
    using assms by (simp add: k_def nat_less_iff)
  note nat = f64_of_nat_exact [OF k]
  have f: "f64_of_int n = (if n < 0 then f64_of_nat k + 2 ^ 63 else f64_of_nat k)"
    by (simp add: f64_of_int_def k_def)
  have mag: "f64_mag (f64_of_int n) = k * 2 ^ 1074"
    unfolding f nat(3) [symmetric] by (cases "n < 0") (simp_all only: f64_mag_def nat(4,5) if_True if_False)
  show fin: "f64_finite (f64_of_int n)"
    unfolding f using nat(2) by (cases "n < 0") (simp_all only: f64_finite_def nat(4) if_True if_False simp_thms)
  then show "\<not> f64_is_nan (f64_of_int n)" "\<not> f64_is_inf (f64_of_int n)"
    by (simp_all add: f64_is_nan_def f64_is_inf_def f64_finite_def)
  have "f64_sign (f64_of_int n) = (n < 0)"
    unfolding f using nat(6,7) by simp
  then have "f64_units (f64_of_int n) = (if n < 0 then - (int k * 2 ^ 1074) else int k * 2 ^ 1074)"
    by (simp only: f64_units_def mag of_nat_mult of_nat_power of_nat_numeral)
  then show "f64_units (f64_of_int n) = n * 2 ^ 1074"
    by (simp only: k_def) (simp del: power_numeral split: if_splits)
qed

lemma int32_exact: "\<bar>sint (i :: u32)\<bar> < 2 ^ 53"
  using sint_range_size [of i] by (auto simp: word_size abs_less_iff)

lemma int_cmp_zero: "int_cmp a b = 0 \<longleftrightarrow> a = b"
  by (simp add: int_cmp_def)

lemma scale_eq: "(a :: int) * 2 ^ 1074 = b * 2 ^ 1074 \<longleftrightarrow> a = b"
  by (rule mult_right_cancel) (rule power_not_zero, simp)

lemma f64_eq_of_int:
  "f64_eq (f64_of_int (sint (i :: u32))) (f64_of_int (sint (j :: u32))) \<longleftrightarrow> i = j"
  using f64_of_int_exact [OF int32_exact [of i]] f64_of_int_exact [OF int32_exact [of j]]
  by (simp only: f64_eq_def simp_thms if_False scale_eq) (auto intro: signed_word_eqI)

lemma float64_cmp_exact_of_int: "float64_cmp_exact z (f64_of_int (sint (i :: u32))) = 0 \<longleftrightarrow> z = sint i"
  using f64_of_int_exact [OF int32_exact [of i]]
  by (simp only: float64_cmp_exact_def if_False int_cmp_zero scale_eq)

section \<open>Equal doubles\<close>

lemma f64_pattern: "unat d = of_bool (f64_sign d) * 2 ^ 63 + (f64_exp d * 2 ^ 52 + f64_mant d)"
proof -
  have "unat d < 2 ^ LENGTH(64)"
    by (rule unsigned_less)
  then have "unat d div 2 ^ 63 < 2"
    by (simp add: less_mult_imp_div_less)
  then have "unat d div 2 ^ 63 = of_bool (f64_sign d)"
    unfolding f64_sign_le by (cases "2 ^ 63 \<le> unat d") (auto simp: div_eq_0_iff not_less less_2_cases_iff)
  moreover have "unat d div 2 ^ 63 = unat d div 2 ^ 52 div 2 ^ 11"
    by (simp flip: div_mult2_eq)
  ultimately have "unat d div 2 ^ 52 = of_bool (f64_sign d) * 2 ^ 11 + f64_exp d"
    unfolding f64_exp_div by (metis div_mult_mod_eq)
  then have "unat d = (of_bool (f64_sign d) * 2 ^ 11 + f64_exp d) * 2 ^ 52 + f64_mant d"
    unfolding f64_mant_mod by (metis div_mult_mod_eq)
  then show ?thesis
    by (simp add: algebra_simps)
qed

lemma f64_eqI: "f64_sign d = f64_sign e \<Longrightarrow> f64_exp d = f64_exp e \<Longrightarrow> f64_mant d = f64_mant e \<Longrightarrow> d = e"
  using f64_pattern [of d] f64_pattern [of e] by (simp add: word_unat_eq_iff)

lemma f64_mag_bounds:
  assumes "f64_exp d \<noteq> 0"
  shows "2 ^ (51 + f64_exp d) \<le> f64_mag d" and "f64_mag d < 2 ^ (52 + f64_exp d)"
proof -
  define x where "x = f64_exp d - 1"
  have "(2 :: nat) ^ 52 * 2 ^ x \<le> (2 ^ 52 + f64_mant d) * 2 ^ x" "(2 ^ 52 + f64_mant d) * 2 ^ x < 2 ^ 53 * 2 ^ x"
    using f64_mant_less [of d] by simp_all
  moreover have "(2 :: nat) ^ 52 * 2 ^ x = 2 ^ (51 + f64_exp d)" "(2 :: nat) ^ 53 * 2 ^ x = 2 ^ (52 + f64_exp d)"
    unfolding power_add [symmetric] using assms by (simp_all add: x_def)
  ultimately show "2 ^ (51 + f64_exp d) \<le> f64_mag d" and "f64_mag d < 2 ^ (52 + f64_exp d)"
    using assms by (simp_all only: f64_mag_def x_def if_False)
qed

lemma f64_mag_exp_mono:
  assumes "f64_exp d < f64_exp e"
  shows "f64_mag d < f64_mag e"
proof -
  have e: "2 ^ (51 + f64_exp e) \<le> f64_mag e"
    using assms f64_mag_bounds(1) [of e] by simp
  have "f64_mag d < 2 ^ (52 + f64_exp d)"
    using f64_mag_bounds(2) [of d] f64_mant_less [of d] by (cases "f64_exp d = 0") (simp_all add: f64_mag_def)
  also have "\<dots> \<le> 2 ^ (51 + f64_exp e)"
    using assms by (intro power_increasing) simp_all
  finally show ?thesis
    using e by linarith
qed

lemma f64_mag_inj:
  assumes "f64_mag d = f64_mag e"
  shows "f64_exp d = f64_exp e" and "f64_mant d = f64_mant e"
proof -
  show x: "f64_exp d = f64_exp e"
    using f64_mag_exp_mono [of d e] f64_mag_exp_mono [of e d] assms by (metis less_irrefl linorder_neqE_nat)
  show "f64_mant d = f64_mant e"
    using assms by (simp add: f64_mag_def x split: if_splits)
qed

lemma f64_is_zero_mag: "f64_is_zero d \<longleftrightarrow> f64_mag d = 0"
  by (simp add: f64_is_zero_def f64_mag_def)

lemma f64_is_zero_finite: "f64_is_zero d \<Longrightarrow> f64_finite d"
  by (simp add: f64_is_zero_mag f64_mag_def f64_finite_def split: if_splits)

lemma f64_not_finite: "f64_finite d \<longleftrightarrow> \<not> f64_is_nan d \<and> \<not> f64_is_inf d"
  by (auto simp: f64_finite_def f64_is_nan_def f64_is_inf_def)

text \<open>Doubles are equal if they are the same pattern or two zeros, and not a NaN.\<close>

lemma f64_eq_iff: "f64_eq a b \<longleftrightarrow> \<not> f64_is_nan a \<and> \<not> f64_is_nan b \<and> (a = b \<or> f64_is_zero a \<and> f64_is_zero b)"
proof (cases "f64_is_nan a \<or> f64_is_nan b \<or> f64_is_inf a \<or> f64_is_inf b")
  case True
  then show ?thesis
    using f64_is_zero_finite [of a] f64_is_zero_finite [of b] by (auto simp: f64_eq_def f64_not_finite)
next
  case False
  have "f64_units a = f64_units b \<longleftrightarrow> a = b \<or> f64_is_zero a \<and> f64_is_zero b"
  proof
    assume "f64_units a = f64_units b"
    then have "f64_mag a = f64_mag b" and "f64_mag a \<noteq> 0 \<Longrightarrow> f64_sign a = f64_sign b"
      by (auto simp: f64_units_def split: if_splits)
    then show "a = b \<or> f64_is_zero a \<and> f64_is_zero b"
      using f64_eqI [of a b] f64_mag_inj [of a b] by (auto simp: f64_is_zero_mag)
  qed (auto simp: f64_units_def f64_is_zero_mag)
  then show ?thesis
    using False by (simp add: f64_eq_def)
qed

section \<open>Numbers\<close>

text \<open>A number of JavaScript is a double or a BigInt; an \<open>int32_t\<close> stands for the double of its value.\<close>

datatype number = Number f64 | BigNum int

definition number_of :: "'w js_state \<Rightarrow> js_val \<Rightarrow> number option" where
  "number_of s v =
     (case v of
        TagInt i \<Rightarrow> Some (Number (f64_of_int (sint i)))
      | TagFloat64 d \<Rightarrow> Some (Number d)
      | _ \<Rightarrow> map_option BigNum (value_of s v))"

lemma number_of_cases:
  assumes "number_of s v = Some n"
  obtains (int) i where "v = TagInt i" "n = Number (f64_of_int (sint i))"
    | (double) d where "v = TagFloat64 d" "n = Number d"
    | (big) z where "is_big v" "value_of s v = Some z" "n = BigNum z"
  using assms by (cases v) (auto simp: number_of_def value_of_def big_operand_def)

lemma tag_is_number_simps: "tag_is_number (TagInt i)" "tag_is_number (TagFloat64 d)"
  by (simp_all add: tag_is_number_def)

lemma number_of_number: "number_of s v = Some n \<Longrightarrow> tag_is_number v"
  by (erule number_of_cases) (simp_all add: tag_is_number_simps is_big_number)

text \<open>
  The normal form of a number in each mode: a NaN has none, and the zeros are one unless they are to be told apart.
\<close>

fun normal_number :: "JSStrictEqModeEnum \<Rightarrow> number \<Rightarrow> number option" where
  "normal_number mode (Number d) =
     (if f64_is_nan d then None else Some (Number (if mode \<noteq> JS_EQ_SAME_VALUE \<and> f64_is_zero d then 0 else d)))"
| "normal_number mode (BigNum z) = Some (BigNum z)"

definition same_number :: "JSStrictEqModeEnum \<Rightarrow> number \<Rightarrow> number \<Rightarrow> bool" where
  "same_number mode a b \<longleftrightarrow>
     normal_number mode a = normal_number mode b \<and> (mode = JS_EQ_STRICT \<longrightarrow> normal_number mode a \<noteq> None)"

lemma zero_pattern [simp]: "f64_is_zero 0"
  by (simp add: f64_is_zero_def f64_exp_def f64_mant_def)

lemma number_test_normal: "number_test mode d1 d2 = same_number mode (Number d1) (Number d2)"
  by (cases mode) (auto simp: number_test_def same_number_def f64_eq_iff)

lemma same_number_mixed [simp]: "\<not> same_number mode (Number d) (BigNum z)" "\<not> same_number mode (BigNum z) (Number d)"
  and same_number_big [simp]: "same_number mode (BigNum y) (BigNum z) \<longleftrightarrow> y = z"
  by (auto simp: same_number_def)

section \<open>Strict equality\<close>

text \<open>A value that is neither a BigInt nor the engine's holds nothing.\<close>

definition inert :: "js_val \<Rightarrow> bool" where
  "inert v \<longleftrightarrow> (case v of TagInt i \<Rightarrow> True | TagBool b \<Rightarrow> True | TagNull \<Rightarrow> True | TagUndefined \<Rightarrow> True
     | TagFloat64 d \<Rightarrow> True | TagShortBigInt w \<Rightarrow> True | _ \<Rightarrow> False)"

lemma inert_simps [simp]:
  "inert (TagInt i)" "inert (TagBool b)" "inert TagNull" "inert TagUndefined" "inert (TagFloat64 d)" "inert (TagShortBigInt w)"
  by (simp_all add: inert_def)

lemma inert_no_object: "inert v \<Longrightarrow> v \<noteq> TagBigInt p"
  by (auto simp: inert_def)

lemma free_inert [simp]: "inert v \<Longrightarrow> JS_FreeValue h v s = Some s"
  by (cases v) (simp_all add: inert_def JS_FreeValue_def)

lemma consumes_inert: "heap_ok s \<Longrightarrow> inert v \<Longrightarrow> inert w \<Longrightarrow> consumes [v, w] s s"
  using inert_no_object by (intro consumes_refl) auto

lemma free_answer_consumes:
  assumes "heap_ok s" and "owned s [op1, op2]"
    and "tag_is_number op1 \<or> inert op1" and "tag_is_number op2 \<or> inert op2"
  shows "\<exists>s'. free_operands h op1 op2 s = Some s' \<and> consumes [op1, op2] s s'"
proof -
  define v where "v = (if inert op1 then TagInt 0 else op1)"
  define w where "w = (if inert op2 then TagInt 0 else op2)"
  have num: "tag_is_number v" "tag_is_number w"
    using assms(3,4) by (auto simp: v_def w_def tag_is_number_def)
  have held: "held [op1, op2] = held [v, w]"
    using inert_no_object [of op1] inert_no_object [of op2] by (auto simp: v_def w_def fun_eq_iff)
  then have "owned s [v, w]"
    using assms(2) by (simp add: owned_def del: held_simps)
  then obtain s' where s': "free_operands h v w s = Some s'" "consumes [v, w] s s'"
    using assms(1) num by (metis free_operands_consumes)
  have "JS_FreeValue h op1 t = JS_FreeValue h v t" "JS_FreeValue h op2 t = JS_FreeValue h w t" for t
    by (simp_all add: v_def w_def)
  then have "free_operands h op1 op2 s = free_operands h v w s"
    by (simp add: free_operands_def)
  then show ?thesis
    using s' held by (auto simp: consumes_def)
qed

lemma js_strict_eq2_numbers:
  assumes ok: "heap_ok s" and own: "owned s [op1, op2]" and n: "number_of s op1 = Some a" "number_of s op2 = Some b"
  shows "\<exists>s'. js_strict_eq2 h op1 op2 mode s = Some (same_number mode a b, s') \<and> consumes [op1, op2] s s'"
proof -
  obtain s' where free: "free_operands h op1 op2 s = Some s'" "consumes [op1, op2] s s'"
    using free_answer_consumes [OF ok own] number_of_number [OF n(1)] number_of_number [OF n(2)] by blast
  note stay = consumes_inert [OF ok]
  show ?thesis
  proof (cases "is_big op1 \<and> is_big op2")
    case True
    then obtain y z where v: "value_of s op1 = Some y" "a = BigNum y" "value_of s op2 = Some z" "b = BigNum z"
      using n by (auto elim!: number_of_cases simp: is_big_def)
    obtain p where p: "big_operand op1 s = Some p" "normal (tab p)" "ival (tab p) = y"
      using ok v(1) by (rule operand)
    obtain q where q: "big_operand op2 s = Some q" "normal (tab q)" "ival (tab q) = z"
      using ok v(3) by (rule operand)
    have "js_bigint_cmp p q = 0 \<longleftrightarrow> y = z"
      using js_bigint_cmp_correct [OF p(2) q(2)] p(3) q(3) by (simp add: int_cmp_zero)
    then have "js_strict_eq2 h op1 op2 mode s = Some (y = z, s')"
      using True p(1) q(1) free(1)
      by (cases op1) (simp_all add: js_strict_eq2_def free_answer_def is_big_def)
    then show ?thesis
      using free(2) v by simp
  next
    case False
    show ?thesis
      using n(1)
    proof (cases rule: number_of_cases)
      case (int i)
      from n(2) show ?thesis
        by (cases rule: number_of_cases)
          (use int free stay in \<open>auto simp: js_strict_eq2_def free_answer_def number_test_normal is_big_def split: js_val.splits\<close>)
    next
      case (double d)
      from n(2) show ?thesis
        by (cases rule: number_of_cases)
          (use double free stay in \<open>auto simp: js_strict_eq2_def free_answer_def number_test_normal is_big_def split: js_val.splits\<close>)
    next
      case (big z)
      from n(2) show ?thesis
        by (cases rule: number_of_cases)
          (use big free False in \<open>auto simp: js_strict_eq2_def free_answer_def is_big_def split: js_val.splits\<close>)
    qed
  qed
qed

section \<open>Loose equality\<close>

text \<open>The mathematical values of two numbers are the same; a NaN has none.\<close>

fun equal_number :: "number \<Rightarrow> number \<Rightarrow> bool" where
  "equal_number (Number d) (Number e) = f64_eq d e"
| "equal_number (BigNum y) (BigNum z) = (y = z)"
| "equal_number (Number d) (BigNum z) = (f64_finite d \<and> f64_units d = z * 2 ^ 1074)"
| "equal_number (BigNum z) (Number d) = (f64_finite d \<and> f64_units d = z * 2 ^ 1074)"

lemma float64_cmp_exact_zero: "float64_cmp_exact z d = 0 \<longleftrightarrow> f64_finite d \<and> f64_units d = z * 2 ^ 1074"
  by (auto simp: float64_cmp_exact_def f64_not_finite int_cmp_zero)

text \<open>Equality is exact even where the comparison with a double answers with the wrong sign.\<close>

lemma js_bigint_float64_cmp_zero:
  assumes "normal (tab x)"
  shows "js_bigint_float64_cmp x d = 0 \<longleftrightarrow> f64_finite d \<and> f64_units d = ival (tab x) * 2 ^ 1074"
    and "js_bigint_float64_cmp x d = 2 \<Longrightarrow> \<not> f64_finite d"
proof -
  have r: "js_bigint_float64_cmp x d \<in> {float64_cmp_exact (ival (tab x)) d, - float64_cmp_exact (ival (tab x)) d}"
    using js_bigint_float64_cmp_correct [OF assms, of d] by simp
  then show "js_bigint_float64_cmp x d = 0 \<longleftrightarrow> f64_finite d \<and> f64_units d = ival (tab x) * 2 ^ 1074"
    unfolding float64_cmp_exact_zero [symmetric] by auto
  show "\<not> f64_finite d" if "js_bigint_float64_cmp x d = 2"
    using r that by (auto simp: float64_cmp_exact_def int_cmp_def f64_not_finite split: if_splits)
qed

lemma js_compare_bigint_eq_float:
  assumes ok: "heap_ok s" and big: "is_big v" "value_of s v = Some z" and own: "owned s [v]"
  shows "\<exists>s'. js_compare_bigint h OP_eq v (TagFloat64 d) s = Some (equal_number (BigNum z) (Number d), s')
      \<and> consumes [v, TagFloat64 d] s s'"
    and "\<exists>s'. js_compare_bigint h OP_eq (TagFloat64 d) v s = Some (equal_number (Number d) (BigNum z), s')
      \<and> consumes [TagFloat64 d, v] s s'"
proof -
  have iv: "int_value s v = Some z"
    using big by (auto simp: int_value_def is_big_def split: js_val.splits)
  obtain x where x: "JS_ToBigIntBuf v s = Some x" "normal (tab x)" "ival (tab x) = z"
    using ok iv by (rule JS_ToBigIntBuf_value)
  note cmp = js_bigint_float64_cmp_zero [OF x(2), of d, unfolded x(3)]
  have num: "tag_is_number v" "float_operand v = None"
    using int_value_number [OF iv] by simp_all
  have own2: "owned s [v, TagFloat64 d]" "owned s [TagFloat64 d, v]"
    using own by (simp_all add: owned_def)
  obtain s1 where s1: "free_operands h v (TagFloat64 d) s = Some s1" "consumes [v, TagFloat64 d] s s1"
    using free_answer_consumes [OF ok own2(1)] num(1) by auto
  obtain s2 where s2: "free_operands h (TagFloat64 d) v s = Some s2" "consumes [TagFloat64 d, v] s s2"
    using free_answer_consumes [OF ok own2(2)] num(1) by auto
  show "\<exists>s'. js_compare_bigint h OP_eq v (TagFloat64 d) s = Some (equal_number (BigNum z) (Number d), s')
      \<and> consumes [v, TagFloat64 d] s s'"
    using s1 x(1) cmp num(2) short_operand_float [of d] by (auto simp: js_compare_bigint_def Let_def split: option.splits)
  show "\<exists>s'. js_compare_bigint h OP_eq (TagFloat64 d) v s = Some (equal_number (Number d) (BigNum z), s')
      \<and> consumes [TagFloat64 d, v] s s'"
    using s2 x(1) cmp num(2) short_operand_float [of d] by (auto simp: js_compare_bigint_def Let_def split: option.splits)
qed

lemma js_eq_numbers_exact:
  assumes ok: "heap_ok s" and own: "owned s [op1, op2]" and n: "number_of s op1 = Some a" "number_of s op2 = Some b"
  shows "\<exists>s'. js_eq_numbers h op1 op2 s = Some (equal_number a b, s') \<and> consumes [op1, op2] s s'"
proof -
  note stay = consumes_inert [OF ok]
  have own': "owned s [op1]" "owned s [op2]" "owned s [op2, op1]"
    using own owned_less [of s op1 op2] owned_less [of s op2 op1] by (auto simp: owned_def add.commute)
  note int_of = f64_of_int_exact [OF int32_exact]
  have int_eq: "equal_number (Number (f64_of_int (sint (i :: u32)))) (BigNum z) \<longleftrightarrow> sint i = z" for i z
    using int_of [of i] by (simp only: equal_number.simps scale_eq simp_thms)
  have ints: "\<exists>s'. js_compare_bigint h OP_eq op1 op2 s = Some (y = z, s') \<and> consumes [op1, op2] s s'"
    if "int_value s op1 = Some y" "int_value s op2 = Some z" for y z
    using js_compare_bigint_int [OF ok own that, of h OP_eq] by simp
  have iv: "int_value s v = value_of s v" if "is_big v" for v
    using that by (cases v) (simp_all add: int_value_def is_big_def)
  have via: "js_eq_numbers h op1 op2 s = js_compare_bigint h OP_eq op1 op2 s" if "is_big op1 \<or> is_big op2"
    using that by (cases op1; cases op2) (simp_all add: js_eq_numbers_def is_big_def number_double_def)
  have sym: "equal_number (BigNum y) (Number e) = equal_number (Number e) (BigNum y)" for y e
    by simp
  show ?thesis
    using n(1)
  proof (cases rule: number_of_cases)
    case (int i)
    from n(2) show ?thesis
    proof (cases rule: number_of_cases)
      case (big z)
      show ?thesis
        unfolding via [OF disjI2 [OF big(1)]] int(2) big(3) int_eq
        using ints [of "sint i" z] iv [OF big(1)] big(2) int(1) by (simp add: int_value_def)
    qed (use int stay f64_eq_of_int in \<open>auto simp: js_eq_numbers_def number_double_def\<close>)
  next
    case (double d)
    from n(2) show ?thesis
    proof (cases rule: number_of_cases)
      case (big z)
      show ?thesis
        unfolding via [OF disjI2 [OF big(1)]] unfolding double big(3)
        by (rule js_compare_bigint_eq_float(2) [OF ok big(1,2) own'(2)])
    qed (use double stay in \<open>auto simp: js_eq_numbers_def number_double_def\<close>)
  next
    case (big y)
    note via = via [OF disjI1 [OF big(1)]]
    from n(2) show ?thesis
    proof (cases rule: number_of_cases)
      case (int i)
      show ?thesis
        unfolding via big(3) int(2) sym int_eq
        using ints [of y "sint i"] iv [OF big(1)] big(2) int(1) by (simp add: int_value_def eq_commute)
    next
      case (double d)
      show ?thesis
        unfolding via unfolding double big(3) by (rule js_compare_bigint_eq_float(1) [OF ok big(1,2) own'(1)])
    next
      case b2: (big z)
      show ?thesis
        unfolding via big(3) b2(3) using ints [of y z] iv [OF big(1)] iv [OF b2(1)] big(2) b2(2) by simp
    qed
  qed
qed

text \<open>
  The values the loose equality decides without the engine: numbers, booleans, \<open>null\<close> and \<open>undefined\<close>. A boolean
  counts as 0 or 1.
\<close>

definition plain :: "'w js_state \<Rightarrow> js_val \<Rightarrow> bool" where
  "plain s v \<longleftrightarrow> number_of s (bool_to_int v) \<noteq> None \<or> is_nullish v"

definition loosely_equal :: "'w js_state \<Rightarrow> js_val \<Rightarrow> js_val \<Rightarrow> bool" where
  "loosely_equal s v w =
     (case (number_of s (bool_to_int v), number_of s (bool_to_int w)) of
        (Some a, Some b) \<Rightarrow> equal_number a b
      | (None, None) \<Rightarrow> True
      | _ \<Rightarrow> False)"

lemma bool_to_int_simps [simp]:
  "bool_to_int (TagBool b) = TagInt b" "\<not> is_bool v \<Longrightarrow> bool_to_int v = v" "is_bool (TagBool b)"
  by (auto simp: bool_to_int_def is_bool_def split: js_val.splits)

lemma plain_cases:
  assumes "plain s v"
  obtains (number) a where "number_of s v = Some a" "tag_is_number v" "\<not> is_bool v" "\<not> is_nullish v"
    | (bool) b where "v = TagBool b"
    | (nullish) "is_nullish v" "inert v" "\<not> tag_is_number v" "\<not> is_bool v" "number_of s v = None"
proof (cases "is_bool v \<or> is_nullish v")
  case True
  then show ?thesis
    using that(2,3) by (auto simp: is_bool_def is_nullish_def number_of_def value_of_def big_operand_def tag_is_number_def split: js_val.splits)
next
  case False
  then obtain a where "number_of s v = Some a"
    using assms by (auto simp: plain_def)
  then show ?thesis
    using that(1) False number_of_number by blast
qed

lemma plain_no_string:
  assumes "plain s v"
  shows "\<not> tag_is_string v" and "\<not> is_object v" and "JS_IsHTMLDDA h v t = False"
  using assms by (auto simp: plain_def number_of_def value_of_def big_operand_def bool_to_int_def is_nullish_def tag_is_string_def
      is_object_def JS_IsHTMLDDA_def split: js_val.splits)

lemma same_tag_number:
  assumes "tag_is_number v" and "is_nullish w \<or> is_bool w"
  shows "JS_VALUE_GET_NORM_TAG v \<noteq> JS_VALUE_GET_NORM_TAG w" and "JS_VALUE_GET_NORM_TAG w \<noteq> JS_VALUE_GET_NORM_TAG v"
  using assms by (auto simp: tag_is_number_def is_nullish_def is_bool_def JS_VALUE_GET_NORM_TAG_def split: js_val.splits)

lemma js_eq_slow_no_bool:
  assumes ok: "heap_ok s" and own: "owned s [op1, op2]" and p: "plain s op1" "plain s op2" and nb: "\<not> is_bool op1" "\<not> is_bool op2"
  shows "\<exists>s'. js_eq_slow h op1 op2 is_neq s = Some (Some (TagBool (of_bool (loosely_equal s op1 op2 \<noteq> is_neq))), s')
    \<and> consumes [op1, op2] s s'"
proof -
  note no = plain_no_string [OF p(1)] plain_no_string [OF p(2)]
  have mixed: ?thesis if m: "is_nullish op1 \<noteq> is_nullish op2" "\<not> loosely_equal s op1 op2"
    "JS_VALUE_GET_NORM_TAG op1 \<noteq> JS_VALUE_GET_NORM_TAG op2" "\<not> (tag_is_number op1 \<and> tag_is_number op2)"
    "tag_is_number op1 \<or> inert op1" "tag_is_number op2 \<or> inert op2"
  proof -
    obtain s' where "free_operands h op1 op2 s = Some s'" "consumes [op1, op2] s s'"
      using free_answer_consumes [OF ok own m(5,6)] by blast
    then show ?thesis
      using m no nb by (auto simp: js_eq_slow.simps [of h op1] eq_done_def converts_object_def)
  qed
  show ?thesis
    using p(1)
  proof (cases rule: plain_cases)
    case n1: (number a)
    from p(2) show ?thesis
    proof (cases rule: plain_cases)
      case n2: (number b)
      then show ?thesis
        using js_eq_numbers_exact [OF ok own n1(1) n2(1), of h] n1
        by (auto simp: js_eq_slow.simps [of h op1] eq_done_def loosely_equal_def)
    next
      case nullish
      then show ?thesis
        using mixed n1 same_tag_number [of op1 op2] by (auto simp: loosely_equal_def)
    qed (use nb in simp)
  next
    case n1: nullish
    from p(2) show ?thesis
    proof (cases rule: plain_cases)
      case (number b)
      then show ?thesis
        using mixed n1 same_tag_number [of op2 op1] by (auto simp: loosely_equal_def)
    next
      case nullish
      then show ?thesis
        using n1 consumes_inert [OF ok n1(2) nullish(2)]
        by (auto simp: js_eq_slow.simps [of h op1] eq_done_def loosely_equal_def is_nullish_def js_strict_eq2_def free_answer_def
            free_operands_def JS_VALUE_GET_NORM_TAG_def)
    qed (use nb in simp)
  qed (use nb in simp)
qed

lemma js_eq_slow_bool:
  assumes "plain s v" and "\<not> is_bool v"
  shows "js_eq_slow h (TagBool b) v is_neq s = js_eq_slow h (TagInt b) v is_neq s"
    and "js_eq_slow h v (TagBool b) is_neq s = js_eq_slow h v (TagInt b) is_neq s"
proof -
  note no = plain_no_string [OF assms(1)]
  have num: "\<not> tag_is_number (TagBool b)" "\<not> tag_is_string (TagBool b)" "\<not> is_nullish (TagBool b)"
    by (simp_all add: tag_is_number_def tag_is_string_def is_nullish_def)
  have tag: "JS_VALUE_GET_NORM_TAG (TagBool b) \<noteq> JS_VALUE_GET_NORM_TAG v" "JS_VALUE_GET_NORM_TAG v \<noteq> JS_VALUE_GET_NORM_TAG (TagBool b)"
    using assms by (auto simp: plain_def number_of_def value_of_def big_operand_def bool_to_int_def is_nullish_def is_bool_def
        JS_VALUE_GET_NORM_TAG_def split: js_val.splits)
  show "js_eq_slow h (TagBool b) v is_neq s = js_eq_slow h (TagInt b) v is_neq s"
    using no num tag by (simp add: js_eq_slow.simps [of h "TagBool b"])
  show "js_eq_slow h v (TagBool b) is_neq s = js_eq_slow h v (TagInt b) is_neq s"
    using no num tag assms(2) by (simp add: js_eq_slow.simps [of h v "TagBool b"])
qed

lemma js_eq_slow_plain:
  assumes ok: "heap_ok s" and own: "owned s [op1, op2]" and p: "plain s op1" "plain s op2"
  shows "\<exists>s'. js_eq_slow h op1 op2 is_neq s = Some (Some (TagBool (of_bool (loosely_equal s op1 op2 \<noteq> is_neq))), s')
    \<and> consumes [op1, op2] s s'"
proof (cases "is_bool op1 \<and> is_bool op2")
  case True
  then obtain b c where bc: "op1 = TagBool b" "op2 = TagBool c"
    by (auto simp: is_bool_def split: js_val.splits)
  have "loosely_equal s op1 op2 \<longleftrightarrow> b = c"
    using f64_eq_of_int [of b c] by (simp add: loosely_equal_def bc number_of_def)
  moreover have "js_eq_slow h op1 op2 is_neq s = Some (Some (TagBool (of_bool ((b = c) \<noteq> is_neq))), s)"
    by (simp add: bc js_eq_slow.simps [of h "TagBool b"] js_strict_eq2_def eq_done_def tag_is_number_def JS_VALUE_GET_NORM_TAG_def)
  ultimately show ?thesis
    using consumes_inert [OF ok, of op1 op2] by (simp add: bc)
next
  case False
  let ?v = "bool_to_int op1" and ?w = "bool_to_int op2"
  have nb: "\<not> is_bool ?v" "\<not> is_bool ?w"
    by (auto simp: bool_to_int_def is_bool_def split: js_val.splits)
  have pl: "plain s ?v" "plain s ?w"
    using p nb by (auto simp: plain_def bool_to_int_def is_nullish_def split: js_val.splits)
  have held: "held [op1, op2] = held [?v, ?w]"
    by (auto simp: fun_eq_iff bool_to_int_def split: js_val.splits)
  then have "owned s [?v, ?w]"
    using own by (simp add: owned_def del: held_simps)
  moreover have "js_eq_slow h op1 op2 is_neq s = js_eq_slow h ?v ?w is_neq s"
    using False js_eq_slow_bool(1) [OF p(2), of h _ is_neq] js_eq_slow_bool(2) [OF p(1), of h _ is_neq]
    by (cases "is_bool op1"; cases "is_bool op2") (auto simp: is_bool_def split: js_val.splits)
  moreover have "loosely_equal s ?v ?w = loosely_equal s op1 op2"
    using nb by (simp add: loosely_equal_def)
  ultimately show ?thesis
    using js_eq_slow_no_bool [OF ok _ pl nb, of h is_neq] held by (simp add: consumes_def del: held_simps)
qed

section \<open>Equality that keeps its arguments\<close>

lemma JS_DupValue_transfers:
  assumes ok: "heap_ok s" and n: "number_of s v = Some a"
  shows "\<exists>s'. JS_DupValue h v s = Some s' \<and> transfers (\<lambda>p. 0) (held [v]) s s' \<and> ctx s' = ctx s
    \<and> live s' = live s \<and> (\<forall>w. number_of s' w = number_of s w)"
proof (cases "\<exists>p. v = TagBigInt p")
  case True
  then obtain p x where p: "v = TagBigInt p" "heap s p = Some x"
    using n by (auto simp: number_of_def value_of_def big_operand_def)
  define s' where "s' = s \<lparr>heap := (heap s)(p \<mapsto> x \<lparr>ref_count := ref_count x + 1\<rparr>)\<rparr>"
  have "long_object (x \<lparr>ref_count := ref_count x + 1\<rparr>)" "p < fresh_addr s"
    using heap_okD [OF ok p(2)] by (simp_all add: long_object_def)
  then have ok': "heap_ok s'"
    using ok by (auto simp: heap_ok_def s'_def)
  have "refs s' q = refs s q + held [v] q" for q
    using p by (simp add: refs_def s'_def)
  moreover have "number_of s' w = number_of s w" for w
    using p(2) by (cases w) (simp_all add: number_of_def value_of_def big_operand_def s'_def)
  moreover have "live s' = live s"
    using p(2) by (simp add: live_def s'_def insert_absorb domI)
  moreover have "JS_DupValue h v s = Some s'"
    using p by (simp add: JS_DupValue_def s'_def)
  ultimately show ?thesis
    using ok' p(2) by (auto simp: transfers_def s'_def)
next
  case False
  then have "JS_DupValue h v s = Some s" "held [v] = (\<lambda>p. 0)"
    using n by (auto simp: JS_DupValue_def number_of_def value_of_def big_operand_def fun_eq_iff split: js_val.splits)
  then show ?thesis
    using transfers_refl [OF ok] by simp
qed

text \<open>No reference, object or exception is gained or lost.\<close>

definition keeps :: "'w js_state \<Rightarrow> 'w js_state \<Rightarrow> bool" where
  "keeps s s' \<longleftrightarrow> transfers (\<lambda>p. 0) (\<lambda>p. 0) s s' \<and> exn (ctx s') = exn (ctx s) \<and> blocks (ctx s') = blocks (ctx s)"

lemma transfers_live:
  assumes "heap_ok s" and "transfers l g s s'" and "\<And>p. refs s' p = refs s p"
  shows "live s' = live s"
proof -
  have "dom (heap s') = dom (heap s)"
    using assms refs_pos [of s] refs_pos [of s'] by (auto simp: transfers_def dom_def)
  then show ?thesis
    by (simp add: live_def)
qed

lemma kept_equality:
  assumes ok: "heap_ok s" and n: "number_of s v = Some a" "number_of s w = Some b"
  shows "\<exists>s'. do { s \<leftarrow> dup_operands h v w s; js_strict_eq2 h v w mode s } = Some (same_number mode a b, s') \<and> keeps s s'"
proof -
  obtain s1 where s1: "JS_DupValue h v s = Some s1" "transfers (\<lambda>p. 0) (held [v]) s s1" "ctx s1 = ctx s" "live s1 = live s"
    "\<And>u. number_of s1 u = number_of s u"
    using JS_DupValue_transfers [OF ok n(1), of h] by blast
  have ok1: "heap_ok s1"
    using s1(2) by (simp add: transfers_def)
  obtain s2 where s2: "JS_DupValue h w s1 = Some s2" "transfers (\<lambda>p. 0) (held [w]) s1 s2" "ctx s2 = ctx s1" "live s2 = live s1"
    "\<And>u. number_of s2 u = number_of s1 u"
    using JS_DupValue_transfers [OF ok1, of w b h] n(2) s1(5) by auto
  have ok2: "heap_ok s2"
    using s2(2) by (simp add: transfers_def)
  have r2: "refs s2 p = refs s p + held [v, w] p" for p
    using s1(2) s2(2) by (simp add: transfers_def)
  have pos: "0 \<le> refs s p" for p
    using ok by (auto simp: refs_def heap_ok_def long_object_def split: option.splits dest: spec [of _ p])
  then have "owned s2 [v, w]"
    unfolding owned_def r2 by simp
  then obtain s3 where s3: "js_strict_eq2 h v w mode s2 = Some (same_number mode a b, s3)" "consumes [v, w] s2 s3"
    using js_strict_eq2_numbers [OF ok2, of v w a b h mode] n s1(5) s2(5) by auto
  have r3: "refs s3 p = refs s p" for p
    using s3(2) r2 [of p] by (simp add: consumes_def transfers_def)
  have alive: "heap s1 p \<noteq> None" "heap s2 p \<noteq> None" if "heap s p \<noteq> None" for p
    using that refs_pos [OF ok, of p] refs_pos [OF ok1, of p] refs_pos [OF ok2, of p] s1(2) r2 [of p] held_nonneg [of "[v, w]" p]
      held_nonneg [of "[v]" p] by (auto simp: transfers_def simp del: held_simps)
  have tabs: "tab y = tab x" if xy: "heap s p = Some x" "heap s3 p = Some y" for p x y
  proof -
    obtain x1 x2 where "heap s1 p = Some x1" "heap s2 p = Some x2"
      using alive [of p] xy(1) by auto
    then show ?thesis
      using s1(2) s2(2) s3(2) xy unfolding consumes_def transfers_def by metis
  qed
  have t3: "transfers (held [v, w]) (\<lambda>p. 0) s2 s3"
    using s3(2) by (simp add: consumes_def)
  have "transfers (\<lambda>p. 0) (\<lambda>p. 0) s s3"
    using s1(2) s2(2) t3 r3 tabs by (auto simp: transfers_def)
  moreover have "live s3 = live s"
    using ok calculation r3 by (rule transfers_live)
  ultimately show ?thesis
    using s1 s2 s3 by (auto simp: dup_operands_def keeps_def consumes_def)
qed

end
