(* ===== verification/Conversion_Facts.thy ===== *)
theory Conversion_Facts
  imports Equality_Facts
begin

text \<open>
  What the conversions to truth values, bytes and lengths compute from a number.
\<close>

section \<open>Truth values\<close>

fun truthy :: "number \<Rightarrow> bool" where
  "truthy (Number d) \<longleftrightarrow> \<not> f64_is_nan d \<and> \<not> f64_is_zero d"
| "truthy (BigNum z) \<longleftrightarrow> z \<noteq> 0"

lemma limbs_nonzero_iff: "limbs_nonzero t n \<longleftrightarrow> (\<exists>i<n. t ! i \<noteq> 0)"
  by (induction n) (auto simp: less_Suc_eq)

text \<open>A normalised array of two limbs or more has a limb that is not zero, and does not denote zero.\<close>

lemma nval_zeros: "nval (replicate n 0) = 0"
  by (induction n) simp_all

lemma long_object_nonzero:
  assumes "long_object x"
  shows "limbs_nonzero (tab x) (len x)" and "ival (tab x) \<noteq> 0"
proof -
  show nz: "ival (tab x) \<noteq> 0"
    using long_object_large [OF assms] by auto
  show "limbs_nonzero (tab x) (len x)"
  proof (rule ccontr)
    assume "\<not> limbs_nonzero (tab x) (len x)"
    then have z: "tab x = replicate (length (tab x)) 0"
      by (simp add: limbs_nonzero_iff list_eq_iff_nth_eq)
    have "tab x \<noteq> []"
      using assms by (auto simp: long_object_def)
    then have "last (tab x) = 0"
      using z by (metis last_in_set in_set_replicate)
    then have "ival (tab x) = 0"
      using z nval_zeros [of "length (tab x)"] by (simp add: ival_def)
    then show False
      using nz by simp
  qed
qed

lemma sint_zero: "sint (x :: 'a::len word) = 0 \<longleftrightarrow> x = 0"
  by (metis signed_0 signed_word_eqI)

lemma int32_is_zero: "f64_is_zero (f64_of_int (sint (i :: u32))) \<longleftrightarrow> i = 0"
proof -
  have "f64_is_zero d \<longleftrightarrow> f64_units d = 0" for d
    by (auto simp: f64_is_zero_mag f64_units_def)
  moreover have "sint i * 2 ^ 1074 = 0 \<longleftrightarrow> sint i = 0"
    using scale_eq [of "sint i" 0] by (simp only: mult_zero_left)
  ultimately show ?thesis
    using f64_of_int_exact(2) [OF int32_exact [of i]] by (simp only: sint_zero)
qed

lemma JS_ToBoolFree_number:
  assumes ok: "heap_ok s" and own: "owned s [v]" and n: "number_of s v = Some a"
  shows "\<exists>s'. JS_ToBoolFree h v s = Some (Some (of_bool (truthy a)), s') \<and> consumes [v] s s'"
proof (cases "\<exists>p. v = TagBigInt p")
  case True
  then obtain p x where p: "v = TagBigInt p" "heap s p = Some x" "a = BigNum (ival (tab x))"
    using n by (auto simp: number_of_def value_of_def big_operand_def)
  obtain s' where "JS_FreeValue h v s = Some s'" "consumes [v] s s'"
    using JS_FreeValue_transfers [OF ok own number_of_number [OF n], of h] by (auto simp: consumes_def)
  then show ?thesis
    using p long_object_nonzero [of x] heap_okD [OF ok p(2)] by (simp add: JS_ToBoolFree_def)
next
  case False
  then have "consumes [v] s s"
    using ok by (intro consumes_refl) auto
  moreover have "JS_ToBoolFree h v s = Some (Some (of_bool (truthy a)), s)"
    using n
  proof (cases rule: number_of_cases)
    case (int i)
    then show ?thesis
      using f64_of_int_exact(3) [OF int32_exact [of i]] int32_is_zero [of i] by (simp add: JS_ToBoolFree_def)
  next
    case (double d)
    have "\<not> f64_is_nan 0"
      by (simp add: f64_is_nan_def f64_exp_def)
    then show ?thesis
      using double zero_pattern by (auto simp: JS_ToBoolFree_def f64_eq_iff)
  next
    case (big z)
    then obtain w where "v = TagShortBigInt w"
      using False by (auto simp: is_big_def split: js_val.splits)
    then show ?thesis
      using big by (simp add: JS_ToBoolFree_def flip: sint_zero)
  qed
  ultimately show ?thesis
    by blast
qed

section \<open>Rounding to a byte\<close>

lemma round_quot_nearest:
  fixes m U k :: nat
  assumes "0 < U"
  shows "2 * \<bar>int (round_quot m U) * int U - int m\<bar> \<le> int U"
    and "2 * \<bar>int (round_quot m U) * int U - int m\<bar> = int U \<Longrightarrow> even (round_quot m U)"
    and "m \<le> k * U \<Longrightarrow> round_quot m U \<le> k"
proof -
  define q where "q = m div U"
  define p where "p = m mod U"
  have m: "int m = int q * int U + int p"
    by (simp add: q_def p_def flip: of_nat_mult of_nat_add)
  have p: "p < U"
    using assms(1) by (simp add: p_def)
  define r where "r = round_quot m U"
  have r: "r = (if 2 * p > U \<or> (2 * p = U \<and> odd q) then q + 1 else q)"
    by (simp add: r_def round_quot_def q_def p_def Let_def)
  have d: "int r * int U - int m = (if r = q then - int p else int U - int p)" "r = q \<or> r = q + 1"
    unfolding m r by (auto simp: algebra_simps)
  show "2 * \<bar>int (round_quot m U) * int U - int m\<bar> \<le> int U"
    unfolding r_def [symmetric] d(1) using r p by (auto split: if_splits)
  show "even (round_quot m U)" if "2 * \<bar>int (round_quot m U) * int U - int m\<bar> = int U"
    using that unfolding r_def [symmetric] d(1) using r p by (auto split: if_splits)
  show "round_quot m U \<le> k" if "m \<le> k * U"
  proof (cases "r = q")
    case True
    have "q \<le> k * U div U"
      unfolding q_def using that by (rule div_le_mono)
    then show ?thesis
      unfolding r_def [symmetric] using True assms(1) by simp
  next
    case False
    then have "p \<noteq> 0" "r = q + 1"
      using r assms(1) by (auto split: if_splits)
    then have "q * U < k * U"
      using that m by (metis (no_types, lifting) add_gr_0 less_add_same_cancel1 nat_int of_nat_add of_nat_mult order_less_le_trans gr0I)
    then show ?thesis
      unfolding r_def [symmetric] using \<open>r = q + 1\<close> by simp
  qed
qed

lemma in_range_units:
  assumes "f64_ge_int d 0" and "f64_le_int d n"
  shows "f64_finite d" and "f64_units d = int (f64_mag d)" and "int (f64_mag d) \<le> n * 2 ^ 1074"
proof -
  show fin: "f64_finite d"
    using assms by (auto simp: f64_ge_int_def f64_le_int_def f64_not_finite split: if_splits)
  then have u: "0 \<le> f64_units d" "f64_units d \<le> n * 2 ^ 1074"
    using assms by (auto simp: f64_ge_int_def f64_le_int_def f64_not_finite)
  then show "f64_units d = int (f64_mag d)"
    by (auto simp: f64_units_def split: if_splits)
  then show "int (f64_mag d) \<le> n * 2 ^ 1074"
    using u by simp
qed


lemma units_mono: "(m :: int) \<le> n \<Longrightarrow> m * 2 ^ 1074 \<le> n * 2 ^ 1074"
  by (erule mult_right_mono) (rule zero_le_power, simp)

lemma f64_int_mono: "f64_le_int d m \<Longrightarrow> m \<le> n \<Longrightarrow> f64_le_int d n" "f64_ge_int d n \<Longrightarrow> m \<le> n \<Longrightarrow> f64_ge_int d m"
  unfolding f64_le_int_def f64_ge_int_def using units_mono [of m n] by (metis order_trans)+

lemma float64_to_uint8_clamp_nearest:
  fixes d :: f64
  defines "r \<equiv> int (unat (float64_to_uint8_clamp d))"
  shows "r \<le> 255" and "f64_is_nan d \<or> f64_le_int d 0 \<Longrightarrow> r = 0" and "f64_ge_int d 255 \<Longrightarrow> r = 255"
    and "f64_ge_int d 0 \<Longrightarrow> f64_le_int d 255 \<Longrightarrow> 2 * \<bar>r * 2 ^ 1074 - f64_units d\<bar> \<le> 2 ^ 1074 \<and>
      (2 * \<bar>r * 2 ^ 1074 - f64_units d\<bar> = 2 ^ 1074 \<longrightarrow> even r)"
proof -
  have pos: "(0 :: nat) < 2 ^ 1074"
    by (rule zero_less_power) simp
  have mag: "f64_mag d \<le> n * 2 ^ 1074" if "f64_ge_int d 0" "f64_le_int d (int n)" for n
    using in_range_units(3) [OF that] unfolding int_unit by (simp only: of_nat_le_iff)
  have byte: "f64_lrint d \<le> 255" if "f64_ge_int d 0" "f64_le_int d 255"
    unfolding f64_lrint_def using mag [of 255] that by (intro round_quot_nearest(3) [OF pos]) (simp only: of_nat_numeral)
  have r: "r = int (f64_lrint d)" if range: "f64_ge_int d 0" "f64_le_int d 255"
  proof -
    have "\<not> f64_is_nan d"
      using range(1) unfolding f64_ge_int_def by blast
    then have "float64_to_uint8_clamp d = of_nat (f64_lrint d)"
      using range by (simp add: float64_to_uint8_clamp_def)
    moreover have "unat (of_nat (f64_lrint d) :: u32) = f64_lrint d"
      using byte [OF range] by (simp add: unat_of_nat)
    ultimately show ?thesis
      by (simp only: r_def)
  qed
  show "r \<le> 255"
    using r byte by (cases "f64_ge_int d 0 \<and> f64_le_int d 255") (auto simp: r_def float64_to_uint8_clamp_def)
  have exact: "f64_lrint d = n" if "f64_mag d = n * 2 ^ 1074" for n
    unfolding f64_lrint_def round_quot_def that Let_def using pos less_imp_neq [OF pos]
    by (simp only: mod_mult_self2_is_0 nonzero_mult_div_cancel_right not_gr_zero [symmetric] mult_zero_right
        less_nat_zero_code simp_thms if_False)
  show "r = 0" if "f64_is_nan d \<or> f64_le_int d 0"
  proof (cases "f64_ge_int d 0")
    case True
    then have "f64_le_int d 0"
      using that by (auto simp: f64_ge_int_def)
    then show ?thesis
      using r [OF True f64_int_mono(1)] exact [of 0] mag [OF True, of 0] by simp
  qed (auto simp: r_def float64_to_uint8_clamp_def)
  show "r = 255" if ge: "f64_ge_int d 255"
  proof (cases "f64_le_int d 255")
    case True
    have pos_d: "f64_ge_int d 0"
      using ge by (rule f64_int_mono) simp
    have "255 * 2 ^ 1074 \<le> f64_units d" "f64_units d \<le> 255 * 2 ^ 1074"
      using ge True in_range_units(1) [OF pos_d True] by (simp_all only: f64_ge_int_def f64_le_int_def f64_not_finite if_False simp_thms)
    then have "int (f64_mag d) = int 255 * 2 ^ 1074"
      unfolding in_range_units(2) [OF pos_d True] of_nat_numeral by (rule order_antisym [rotated])
    then have "f64_mag d = 255 * 2 ^ 1074"
      unfolding int_unit by (simp only: of_nat_eq_iff)
    then show ?thesis
      using r [OF f64_int_mono(2) [OF ge] True] exact [of 255] by simp
  next
    case False
    then show ?thesis
      using ge f64_int_mono(2) [OF ge, of 0] by (simp add: r_def float64_to_uint8_clamp_def f64_ge_int_def)
  qed
  show "2 * \<bar>r * 2 ^ 1074 - f64_units d\<bar> \<le> 2 ^ 1074 \<and> (2 * \<bar>r * 2 ^ 1074 - f64_units d\<bar> = 2 ^ 1074 \<longrightarrow> even r)"
    if "f64_ge_int d 0" "f64_le_int d 255"
    using round_quot_nearest(1,2) [OF pos, of "f64_mag d"] r [OF that] in_range_units(2) [OF that]
    by (simp only: f64_lrint_def of_nat_power of_nat_numeral even_of_nat) blast
qed

section \<open>Lengths\<close>

lemma f64_trunc_units:
  assumes "f64_units d = z * 2 ^ 1074"
  shows "f64_trunc d = z"
proof -
  have unit: "f64_mag d div 2 ^ 1074 = nat y" "0 \<le> y" if y: "int (f64_mag d) = y * 2 ^ 1074" for y
  proof -
    have "0 \<le> y * 2 ^ 1074"
      using y [symmetric] by (simp only: of_nat_0_le_iff)
    then show "0 \<le> y"
      using zero_le_mult_iff [of y "2 ^ 1074"] zero_less_power [of "2 :: int" 1074] by linarith
    then have "int (f64_mag d) = int (nat y * 2 ^ 1074)"
      unfolding int_unit [symmetric] y by (simp only: nat_0_le)
    then have "f64_mag d = nat y * 2 ^ 1074"
      by (simp only: of_nat_eq_iff)
    then show "f64_mag d div 2 ^ 1074 = nat y"
      by (simp only: nonzero_mult_div_cancel_right power_not_zero zero_neq_numeral not_False_eq_True)
  qed
  show ?thesis
  proof (cases "f64_sign d")
    case True
    then have "int (f64_mag d) = (- z) * 2 ^ 1074"
      using assms by (simp only: f64_units_def if_True mult_minus_left minus_equation_iff [of "int (f64_mag d)"] eq_commute)
    from unit [OF this] True show ?thesis
      by (simp add: f64_trunc_def)
  next
    case False
    then have "int (f64_mag d) = z * 2 ^ 1074"
      using assms by (simp only: f64_units_def if_False)
    from unit [OF this] False show ?thesis
      by (simp add: f64_trunc_def)
  qed
qed

lemma float64_to_length_integer:
  assumes "f64_finite d" and "f64_units d = int n * 2 ^ 1074" and "n < 2 ^ 32"
  shows "float64_to_length d s = Some (Some (of_nat n), s)"
proof -
  have fin: "\<not> f64_is_nan d" "\<not> f64_is_inf d"
    using assms(1) by (simp_all add: f64_not_finite)
  have range: "f64_ge_int d 0" "f64_le_int d (2 ^ 32 - 1)"
    unfolding f64_ge_int_def f64_le_int_def assms(2) using fin units_mono [of 0 "int n"] units_mono [of "int n" "2 ^ 32 - 1"] assms(3)
    by (simp_all only: if_False simp_thms) simp_all
  have t: "f64_trunc d = int n"
    using assms(2) by (rule f64_trunc_units)
  then have cast: "f64_to_uint32 d = Some (of_nat n)"
    using assms(1,3) by (simp add: f64_to_uint32_def)
  have "\<bar>int n\<bar> < 2 ^ 53"
    using assms(3) by simp
  from f64_of_int_exact [OF this] have "f64_eq (f64_of_int (int n)) d"
    unfolding f64_eq_def using fin assms(2) by (simp only: if_False simp_thms)
  moreover have "uint (of_nat n :: u32) = int n"
    using assms(3) by (simp add: unsigned_of_nat take_bit_nat_eq_self)
  ultimately show ?thesis
    using range cast by (simp add: float64_to_length_def)
qed

lemma float64_to_length_other:
  assumes "\<not> (\<exists>n. f64_finite d \<and> f64_units d = int n * 2 ^ 1074 \<and> n < 2 ^ 32)"
  shows "float64_to_length d s = invalid_length s"
proof (cases "f64_ge_int d 0 \<and> f64_le_int d (2 ^ 32 - 1)")
  case True
  note u = in_range_units [of d "2 ^ 32 - 1"]
  have fin: "f64_finite d"
    using True u by blast
  have "0 \<le> f64_trunc d" "f64_trunc d \<le> int (2 ^ 32 - 1)"
    using trunc_ge_iff(1) [OF fin, of 0] trunc_le_iff(1) [OF fin, of "2 ^ 32 - 1"] True by simp_all
  then obtain n where n: "f64_trunc d = int n" "n < 2 ^ 32"
    using nat_0_le [of "f64_trunc d"] by (intro that [of "nat (f64_trunc d)"]) auto
  then have cast: "f64_to_uint32 d = Some (of_nat n)"
    using fin by (simp add: f64_to_uint32_def)
  have "uint (of_nat n :: u32) = int n"
    using n(2) by (simp add: unsigned_of_nat take_bit_nat_eq_self)
  moreover have "\<not> f64_eq (f64_of_int (int n)) d"
  proof
    assume "f64_eq (f64_of_int (int n)) d"
    moreover have "\<bar>int n\<bar> < 2 ^ 53"
      using n(2) by simp
    note f64_of_int_exact [OF this]
    ultimately have "f64_units d = int n * 2 ^ 1074"
      unfolding f64_eq_def using fin unfolding f64_not_finite by (metis (full_types))
    then show False
      using assms fin n(2) by blast
  qed
  ultimately show ?thesis
    using True cast by (simp add: float64_to_length_def)
qed (simp add: float64_to_length_def)

section \<open>Conversions of any number\<close>

lemma int32_bounds: "f64_le_int (f64_of_int (sint (i :: u32))) n \<longleftrightarrow> sint i \<le> n" "f64_ge_int (f64_of_int (sint i)) n \<longleftrightarrow> n \<le> sint i"
proof -
  have "(a :: int) * 2 ^ 1074 \<le> b * 2 ^ 1074 \<longleftrightarrow> a \<le> b" for a b
    using zero_less_power [of "2 :: int" 1074] by (intro mult_le_cancel_right_pos) simp
  note le = this
  note e = f64_of_int_exact(2-4) [OF int32_exact [of i]]
  show "f64_le_int (f64_of_int (sint i)) n \<longleftrightarrow> sint i \<le> n" "f64_ge_int (f64_of_int (sint i)) n \<longleftrightarrow> n \<le> sint i"
    by (simp_all only: f64_le_int_def f64_ge_int_def e if_False le simp_thms)
qed

text \<open>The byte a number is clamped and rounded to: the nearest one, ties to even, 0 for a NaN.\<close>

definition byte_of :: "f64 \<Rightarrow> int \<Rightarrow> bool" where
  "byte_of d r \<longleftrightarrow> 0 \<le> r \<and> r \<le> 255 \<and> (f64_is_nan d \<or> f64_le_int d 0 \<longrightarrow> r = 0) \<and> (f64_ge_int d 255 \<longrightarrow> r = 255) \<and>
     (f64_ge_int d 0 \<and> f64_le_int d 255 \<longrightarrow>
       2 * \<bar>r * 2 ^ 1074 - f64_units d\<bar> \<le> 2 ^ 1074 \<and> (2 * \<bar>r * 2 ^ 1074 - f64_units d\<bar> = 2 ^ 1074 \<longrightarrow> even r))"

lemma byte_of_int32: "byte_of (f64_of_int (sint i)) (sint (max_int 0 (min_int 255 i)))"
proof -
  have r: "sint (max_int 0 (min_int 255 i)) = max 0 (min 255 (sint i))"
    by (simp add: max_int_def min_int_def)
  have "\<not> f64_is_nan (f64_of_int (sint i))" and u: "f64_units (f64_of_int (sint i)) = sint i * 2 ^ 1074"
    using f64_of_int_exact [OF int32_exact [of i]] by simp_all
  moreover have "2 * \<bar>z * 2 ^ 1074 - z * 2 ^ 1074\<bar> < 2 ^ 1074" for z :: int
    using zero_less_power [of "2 :: int" 1074] by (simp only: diff_self abs_zero mult_zero_right)
  note near = this
  ultimately show ?thesis
    unfolding byte_of_def int32_bounds r u
    using near [of "sint i"] by (cases "0 \<le> sint i \<and> sint i \<le> 255") (auto simp del: power_numeral)
qed

lemma sint_byte:
  fixes w :: u32
  assumes "int (unat w) \<le> 255"
  shows "sint w = int (unat w)"
proof -
  have "- (2 ^ 31) \<le> int n \<and> int n < 2 ^ 31" if "int n \<le> 255" for n
    using that by simp
  from this [OF assms] have "signed_take_bit 31 (int (unat w)) = int (unat w)"
    by (intro signed_take_bit_int_eq_self) simp_all
  then show ?thesis
    by (simp add: sint_uint)
qed

lemma JS_ToUint8ClampFree_number:
  assumes "number_of s v = Some (Number d)"
  shows "\<exists>r. JS_ToUint8ClampFree h v s = Some (Some r, s) \<and> byte_of d (sint r)"
  using assms
proof (cases rule: number_of_cases)
  case (int i)
  then show ?thesis
    using byte_of_int32 [of i] by (simp add: JS_ToUint8ClampFree.simps [of h "TagInt i"])
next
  case (double e)
  note near = float64_to_uint8_clamp_nearest [of e]
  have "sint (float64_to_uint8_clamp e) = int (unat (float64_to_uint8_clamp e))"
    using near(1) by (rule sint_byte)
  then have "byte_of e (sint (float64_to_uint8_clamp e))"
    using near by (simp only: byte_of_def) auto
  then show ?thesis
    using double by (simp add: JS_ToUint8ClampFree.simps [of h "TagFloat64 e"])
qed simp

text \<open>A number is a length if it is an integer of 32 bits, whichever representation it has.\<close>

lemma JS_ToArrayLengthFree_number:
  assumes "number_of s v = Some (Number d)"
  shows "f64_finite d \<Longrightarrow> f64_units d = int n * 2 ^ 1074 \<Longrightarrow> n < 2 ^ 32 \<Longrightarrow>
      JS_ToArrayLengthFree h v ctor s = Some (Some (of_nat n), s)"
    and "\<not> (\<exists>n. f64_finite d \<and> f64_units d = int n * 2 ^ 1074 \<and> n < 2 ^ 32) \<Longrightarrow>
      JS_ToArrayLengthFree h v ctor s = invalid_length s"
proof -
  have int: "number_to_length (TagInt i) s = float64_to_length (f64_of_int (sint i)) s" for i
  proof (cases "sint i < 0")
    case True
    have "\<not> f64_ge_int (f64_of_int (sint i)) 0"
      using True by (simp add: int32_bounds)
    then show ?thesis
      using True by (simp add: number_to_length_def int_to_length_def float64_to_length_def)
  next
    case False
    then have n: "sint i = int (nat (sint i))"
      by simp
    have "f64_units (f64_of_int (sint i)) = int (nat (sint i)) * 2 ^ 1074"
      using f64_of_int_exact(2) [OF int32_exact [of i]] n by (simp only:)
    moreover have "nat (sint i) < 2 ^ 32" "of_nat (nat (sint i)) = i"
      using False sint_range_size [of i] by (simp_all add: word_size nat_less_iff of_nat_nat)
    ultimately show ?thesis
      using False float64_to_length_integer [OF f64_of_int_exact(1) [OF int32_exact [of i]], of "nat (sint i)" s]
      by (simp add: number_to_length_def int_to_length_def)
  qed
  have "JS_ToArrayLengthFree h v ctor s = float64_to_length d s"
    using assms
  proof (cases rule: number_of_cases)
    case (int i)
    then show ?thesis
      using \<open>\<And>i. number_to_length (TagInt i) s = float64_to_length (f64_of_int (sint i)) s\<close>
      by (simp add: JS_ToArrayLengthFree.simps [of h "TagInt i"] has_length_def)
  next
    case (double e)
    then show ?thesis
      by (simp add: JS_ToArrayLengthFree.simps [of h "TagFloat64 e"] has_length_def number_to_length_def)
  qed simp
  then show "f64_finite d \<Longrightarrow> f64_units d = int n * 2 ^ 1074 \<Longrightarrow> n < 2 ^ 32 \<Longrightarrow>
      JS_ToArrayLengthFree h v ctor s = Some (Some (of_nat n), s)"
    and "\<not> (\<exists>n. f64_finite d \<and> f64_units d = int n * 2 ^ 1074 \<and> n < 2 ^ 32) \<Longrightarrow>
      JS_ToArrayLengthFree h v ctor s = invalid_length s"
    using float64_to_length_integer [of d n s] float64_to_length_other [of d s] by simp_all
qed

lemma clamp_length:
  assumes "- (2 ^ 63) \<le> z" and "z < 2 ^ 63"
  shows "clamp_int64 (word_of_int z) 0 MAX_SAFE_INTEGER 0 = Some (word_of_int (clamp 0 (2 ^ 53 - 1) z))"
proof -
  have "sint MAX_SAFE_INTEGER = 2 ^ 53 - 1" "MAX_SAFE_INTEGER = word_of_int (2 ^ 53 - 1)"
    by (simp_all add: MAX_SAFE_INTEGER_def)
  then show ?thesis
    using sint_word_of_int [OF assms] by (simp add: clamp_int64_def clamp_def add_int64_def)
qed

lemma JS_ToLengthFree_number:
  assumes "number_of s v = Some (Number d)"
  shows "JS_ToLengthFree h v s = Some (Some (word_of_int (f64_sat 0 (2 ^ 53 - 1) d)), s)"
  using assms
proof (cases rule: number_of_cases)
  case (int i)
  have range: "- (2 ^ 63) \<le> sint i" "sint i < 2 ^ 63"
    using sint_range_size [of i] by (simp_all add: word_size)
  have "f64_trunc d = sint i"
    using f64_of_int_exact(2) [OF int32_exact [of i]] int(2) by (intro f64_trunc_units) simp
  then have "f64_sat 0 (2 ^ 53 - 1) d = clamp 0 (2 ^ 53 - 1) (sint i)"
    using f64_of_int_exact(3,4) [OF int32_exact [of i]] int(2) by (simp add: f64_sat_def)
  moreover have "(scast i :: u64) = word_of_int (sint i)"
    by simp
  ultimately show ?thesis
    using clamp_length [OF range] int(1)
    by (simp add: JS_ToLengthFree_def JS_ToInt64Clamp_def JS_ToInt64Sat_def JS_DupValue_def JS_ToInt64SatFree.simps [of h "TagInt i"]
        del: power_numeral)
next
  case (double e)
  let ?z = "f64_sat (- (2 ^ 63)) (2 ^ 63 - 1) e"
  have range: "- (2 ^ 63) \<le> ?z" "?z < 2 ^ 63"
    by (auto simp: f64_sat_def clamp_def min_def)
  have "clamp 0 (2 ^ 53 - 1) ?z = f64_sat 0 (2 ^ 53 - 1) e"
    by (auto simp: f64_sat_def clamp_def)
  then show ?thesis
    using clamp_length [OF range] double
    by (simp add: JS_ToLengthFree_def JS_ToInt64Clamp_def JS_ToInt64Sat_def JS_DupValue_def JS_ToInt64SatFree.simps [of h "TagFloat64 e"]
        float64_to_int64_sat_correct del: power_numeral)
qed simp

end
