(* ===== verification/BigInt_Claims.thy ===== *)
theory BigInt_Claims
  imports BigInt_Pow
begin

text \<open>
  What the BigInt arithmetic of quickjs.c promises, stated over the functions of the source: the limb
  routines, the exact results of the operations with their failures, and the objects a program can
  build from them.
\<close>

unbundle bit_operations_syntax

section \<open>Concrete contexts and numbers for the examples\<close>

text \<open>A context in which every allocation succeeds, and one in which none does.\<close>

definition ample :: js_ctx where
  "ample = \<lparr>exn = None, blocks = 0, allocs = 0, grant = (\<lambda>_. True), junk = (\<lambda>_ _. 0), assert_failed = False\<rparr>"

definition starved :: js_ctx where
  "starved = ample \<lparr>grant := (\<lambda>_. False)\<rparr>"

definition big :: "js_limb_t list \<Rightarrow> JSBigInt" where
  "big xs = \<lparr>ref_count = 1, tab = xs\<rparr>"

lemma tab_big [simp]: "tab (big xs) = xs"
  by (simp add: big_def)

lemma ref_count_big [simp]: "ref_count (big xs) = 1"
  by (simp add: big_def)

lemma ival_small: "ival [5] = 5" "ival [- 3] = - 3" "ival [7] = 7" "ival [0] = 0" "ival [2] = 2"
  by (simp_all add: ival_single)

section \<open>Limbs\<close>

text \<open>
  \<open>udiv1norm\<close>, which divides by multiplying with a precomputed inverse, gives for every normalised
  divisor and every dividend whose quotient fits a limb the quotient and the remainder of the double
  limb division it replaces.
\<close>

theorem udiv1norm_is_division:
  assumes "2 ^ 63 \<le> unat d" and "a1 < d"
  shows "udiv1norm a1 a0 d (udiv1norm_init d) =
    (ucast (dlimb a1 a0 div ucast d), ucast (dlimb a1 a0 mod ucast d))"
proof -
  obtain q r where qr: "udiv1norm a1 a0 d (udiv1norm_init d) = (q, r)"
    by (cases "udiv1norm a1 a0 d (udiv1norm_init d)")
  have "unat a1 < unat d"
    using assms(2) by (simp add: word_less_nat_alt)
  note c = udiv1norm_correct [OF assms(1) this qr]
  have "unat q < limb_base" "unat r < limb_base"
    by simp_all
  then show ?thesis
    unfolding qr prod.inject word_unat_eq_iff unat_ucast
    by (simp add: c unat_dlimb unat_div_distrib unat_mod_distrib limb_base_def)
qed

theorem udiv1norm_is_division_witness:
  "udiv1norm 1 5 (2 ^ 63 + 1) (udiv1norm_init (2 ^ 63 + 1)) =
    (ucast (dlimb 1 5 div ucast (2 ^ 63 + 1 :: js_limb_t)), ucast (dlimb 1 5 mod ucast (2 ^ 63 + 1 :: js_limb_t)))
   \<and> fst (udiv1norm 1 5 (2 ^ 63 + 1) (udiv1norm_init (2 ^ 63 + 1))) = 2"
  using udiv1norm_is_division [of "2 ^ 63 + 1" 1 5] by (simp add: dlimb_def)

text \<open>
  C22. Long division always ends, although its correction loop has no bound in the source: for every
  normalised divisor, every dividend that is at least as long and every array for the quotient,
  \<open>mp_divnorm\<close> returns, with the quotient in the low limbs of one array and the remainder in the low
  limbs of the other.
\<close>

theorem mp_divnorm_terminates:
  assumes "normal_divisor tabb" and "length tabb \<le> length taba" and "length taba - length tabb < length tabq"
  shows "\<exists>tabq' taba'. mp_divnorm tabq taba tabb = Some (tabq', taba')
    \<and> length tabq' = length tabq \<and> length taba' = length taba
    \<and> nval (take (Suc (length taba - length tabb)) tabq') = nval taba div nval tabb
    \<and> nval (take (length tabb) taba') = nval taba mod nval tabb"
  using assms by (rule mp_divnorm_correct)

theorem mp_divnorm_terminates_witness:
  "\<exists>tabq' taba'. mp_divnorm [0, 0] [3, 0, 7] [1, 2 ^ 63] = Some (tabq', taba')
    \<and> nval (take 2 tabq') = nval [3, 0, 7] div nval [1, 2 ^ 63]"
proof -
  have "normal_divisor [1, 2 ^ 63]"
    by (simp add: normal_divisor_def)
  from mp_divnorm_terminates [OF this, of "[3, 0, 7]" "[0, 0]"] show ?thesis
    by (auto simp del: nval.simps simp: numeral_2_eq_2)
qed

section \<open>Arithmetic\<close>

lemma js_bigint_divrem_contract:
  assumes "normal (tab a)" and "normal (tab b)"
  shows "if ival (tab b) = 0
    then js_bigint_divrem a b is_rem c = Some (None, JS_ThrowRangeError ''BigInt division by zero'' c)
    else \<exists>res. js_bigint_divrem a b is_rem c = Some res \<and>
      returns (len a + 2) (if is_rem then ival (tab a) smod ival (tab b) else ival (tab a) sdiv ival (tab b)) c res"
proof (cases "ival (tab b) = 0")
  case True
  then have "tab b = [0]"
    using normal_zero [OF assms(2)] by simp
  then show ?thesis
    by (simp add: js_bigint_divrem_def ival_small)
qed (use js_bigint_divrem_returns [OF assms] in simp)

text \<open>
  C23. Addition, subtraction, negation and multiplication compute the exact integers: each call gives a
  new BigInt in normal form with that value and exactly one more allocated block, or it gives \<open>NULL\<close>
  without a block, and then the result was over the size limit and a RangeError is pending, or an
  allocation was refused and the out of memory error is pending.
\<close>

theorem bigint_arithmetic_exact:
  assumes "normal (tab a)" and "normal (tab b)"
  shows "returns (max (len a) (len b)) (ival (tab a) + ival (tab b)) c (js_bigint_add a b 0 c)
    \<and> returns (max (len a) (len b)) (ival (tab a) - ival (tab b)) c (js_bigint_add a b 1 c)
    \<and> returns (len a) (- ival (tab a)) c (js_bigint_neg a c)
    \<and> returns (len a + len b) (ival (tab a) * ival (tab b)) c (js_bigint_mul a b c)"
  using assms bigint_sum.computes bigint_difference.computes js_bigint_neg_returns bigint_times.computes
  by (simp add: normal_def)

theorem bigint_arithmetic_exact_witness:
  "returns 1 2 ample (js_bigint_add (big [5]) (big [- 3]) 0 ample) \<and> returns 2 (- 15) ample (js_bigint_mul (big [5]) (big [- 3]) ample)"
  using bigint_arithmetic_exact [of "big [5]" "big [- 3]" ample] by (simp add: ival_small numeral_2_eq_2)

text \<open>
  C24. Division truncates towards zero and the remainder has the sign of the dividend, for all signs and
  sizes of the operands; the call always returns, and keeps the balance of its temporary blocks on every
  path. Division by zero raises a RangeError and allocates nothing.
\<close>

theorem bigint_division_exact:
  assumes "normal (tab a)" and "normal (tab b)"
  shows "if ival (tab b) = 0
    then js_bigint_divrem a b is_rem c = Some (None, JS_ThrowRangeError ''BigInt division by zero'' c)
    else \<exists>res. js_bigint_divrem a b is_rem c = Some res \<and>
      returns (len a + 2) (if is_rem then ival (tab a) smod ival (tab b) else ival (tab a) sdiv ival (tab b)) c res"
  using assms by (rule js_bigint_divrem_contract)

theorem bigint_division_exact_witness:
  "(\<exists>res. js_bigint_divrem (big [- 3]) (big [2]) True ample = Some res \<and> returns 3 (- 1) ample res)
   \<and> js_bigint_divrem (big [5]) (big [0]) False ample = Some (None, JS_ThrowRangeError ''BigInt division by zero'' ample)"
proof -
  have "(- 3 :: int) smod 2 = - 1"
    by (simp add: signed_modulo_int_def)
  then show ?thesis
    using bigint_division_exact [of "big [- 3]" "big [2]" True ample] bigint_division_exact [of "big [5]" "big [0]" False ample]
    by (simp add: ival_small numeral_3_eq_3)
qed

text \<open>
  The bitwise operations are those of the infinite two's complement representation, a left shift
  multiplies by a power of two and a right shift divides by one and rounds down.
\<close>

theorem bigint_bits_exact:
  assumes "normal (tab a)" and "normal (tab b)"
  shows "returns (max (len a) (len b)) (int_logic opc (ival (tab a)) (ival (tab b))) c (js_bigint_logic a b opc c)
    \<and> returns (len a) (NOT (ival (tab a))) c (js_bigint_not a c)
    \<and> returns (len a + n div 64) (ival (tab a) * 2 ^ n) c (js_bigint_shl a n c)
    \<and> returns (len a) (ival (tab a) div 2 ^ n) c (js_bigint_shr a n c)"
  using assms bigint_bitwise.computes js_bigint_not_returns js_bigint_shl_returns js_bigint_shr_returns by simp

theorem bigint_bits_exact_witness:
  "returns 1 5 ample (js_bigint_logic (big [5]) (big [- 3]) OP_and ample) \<and> returns 1 1 ample (js_bigint_shr (big [5]) 2 ample)"
  using bigint_bits_exact [of "big [5]" "big [- 3]" OP_and ample 2] by (simp add: ival_small)

text \<open>
  The comparison function decides the order of the integers, equality included.
\<close>

theorem bigint_cmp_decides:
  assumes "normal (tab a)" and "normal (tab b)"
  shows "(js_bigint_cmp a b = - 1 \<longleftrightarrow> ival (tab a) < ival (tab b))
    \<and> (js_bigint_cmp a b = 0 \<longleftrightarrow> ival (tab a) = ival (tab b))
    \<and> (js_bigint_cmp a b = 1 \<longleftrightarrow> ival (tab a) > ival (tab b))"
  using js_bigint_cmp_correct [OF assms] by (auto simp: int_cmp_def)

theorem bigint_cmp_decides_witness: "js_bigint_cmp (big [- 3]) (big [0, 1]) = - 1"
proof -
  have "normal [0, 1]" and "ival [0, 1] = int limb_base"
    by (simp_all add: normal_def significant_def ival_def)
  then show ?thesis
    using bigint_cmp_decides [of "big [- 3]" "big [0, 1]"] by (simp add: ival_small)
qed

text \<open>
  C25. Powers. A negative exponent is a RangeError. Otherwise the result is the exact power, within the limit of the
  BigInt size, or the call fails, with an out of memory error because a request was refused or with a RangeError
  because the power is at the limit. With every request granted, a power below \<open>pow_limit\<close> (one limb and two bits under the
  limit) is returned and a power that does not fit is a RangeError. The blocks are counted exactly: a call that fails after
  its first allocation was granted, that is in a multiplication of the loop, leaves one block allocated, which is never
  freed; every other failing call leaves none.
\<close>

theorem bigint_pow_exact:
  assumes "normal (tab a)" and "normal (tab b)"
  shows "if ival (tab b) < 0 then js_bigint_pow a b c = (None, JS_ThrowRangeError ''BigInt negative exponent'' c)
    else powers (ival (tab a)) (nat (ival (tab b))) c (js_bigint_pow a b c) \<and>
      ((\<forall>i. grant c i) \<longrightarrow>
        (\<bar>ival (tab a)\<bar> ^ nat (ival (tab b)) < pow_limit \<longrightarrow> (\<exists>x c'. js_bigint_pow a b c = (Some x, c'))) \<and>
        (2 ^ (64 * JS_BIGINT_MAX_SIZE - 1) < \<bar>ival (tab a)\<bar> ^ nat (ival (tab b)) \<longrightarrow>
          (\<exists>c'. js_bigint_pow a b c = (None, c') \<and> too_large (exn c'))))"
  using js_bigint_pow_returns [OF assms, of c] powers_granted [of _ _ c "js_bigint_pow a b c"] by (auto split: if_splits)

text \<open>A context that grants one request only.\<close>

definition scarce :: js_ctx where
  "scarce = ample \<lparr>grant := (\<lambda>i. i = 0)\<rparr>"

lemma scarce_pow:
  "js_bigint_pow (big [5]) (big [2]) scarce = (None, scarce \<lparr>blocks := 1, allocs := 2, exn := Some OutOfMemory\<rparr>)"
proof -
  have one: "floor_log2 2 = 1"
    by (simp add: floor_log2.simps [of 2] floor_log2.simps [of "Suc 0"])
  have new: "js_bigint_new_with [5] scarce = (Some (big [5]), scarce \<lparr>blocks := 1, allocs := 1\<rparr>)"
    by (simp add: js_bigint_new_with_def js_bigint_new_def js_malloc_def JS_BIGINT_MAX_SIZE_def scarce_def ample_def big_def)
  have mul: "js_bigint_mul (big [5]) (big [5]) (scarce \<lparr>blocks := 1, allocs := 1\<rparr>) =
      (None, scarce \<lparr>blocks := 1, allocs := 2, exn := Some OutOfMemory\<rparr>)"
    by (simp add: js_bigint_mul_def js_bigint_new_def js_malloc_def JS_ThrowOutOfMemory_def JS_BIGINT_MAX_SIZE_def scarce_def ample_def)
  have "js_bigint_pow_general (big [5]) (big [2]) scarce = (None, scarce \<lparr>blocks := 1, allocs := 2, exn := Some OutOfMemory\<rparr>)"
    by (simp add: js_bigint_pow_general_def clz32_def one new mul [simplified])
  then show ?thesis
    by (simp add: js_bigint_pow_def js_bigint_sign_def Let_def bit_simps word_le_nat_alt)
qed

theorem bigint_pow_exact_witness:
  "(\<exists>x c'. js_bigint_pow (big [- 3]) (big [5]) ample = (Some x, c') \<and> ival (tab x) = - 243 \<and> blocks c' = 1) \<and>
   (\<exists>c'. js_bigint_pow (big [5]) (big [2]) scarce = (None, c') \<and> exn c' = Some OutOfMemory \<and> blocks c' = 1) \<and>
   js_bigint_pow (big [5]) (big [- 3]) ample = (None, JS_ThrowRangeError ''BigInt negative exponent'' ample)"
proof (intro conjI)
  have "(2 :: int) ^ 8 \<le> pow_limit"
    unfolding pow_limit_def by (rule power_increasing) (simp_all add: JS_BIGINT_MAX_SIZE_def)
  then have small: "\<bar>- 3 :: int\<bar> ^ 5 < pow_limit" "\<not> pow_limit \<le> \<bar>5 :: int\<bar> ^ 2"
    by simp_all
  have n: "normal [- 3]" "normal [5]" "normal [2]"
    by simp_all
  have "powers (- 3) 5 ample (js_bigint_pow (big [- 3]) (big [5]) ample)" "\<exists>x c'. js_bigint_pow (big [- 3]) (big [5]) ample = (Some x, c')"
    using bigint_pow_exact [of "big [- 3]" "big [5]" ample] small(1) by (simp_all add: ival_small ample_def)
  then show "\<exists>x c'. js_bigint_pow (big [- 3]) (big [5]) ample = (Some x, c') \<and> ival (tab x) = - 243 \<and> blocks c' = 1"
    by (auto simp: holds_def ample_def)
  obtain c' where c': "js_bigint_pow (big [5]) (big [2]) scarce = (None, c')" "allocs c' = 2"
    using scarce_pow by simp
  have "powers 5 2 scarce (None, c')"
    using bigint_pow_exact [of "big [5]" "big [2]" scarce] c' by (simp add: ival_small)
  then show "\<exists>c'. js_bigint_pow (big [5]) (big [2]) scarce = (None, c') \<and> exn c' = Some OutOfMemory \<and> blocks c' = 1"
    using c' small(2) by (auto simp: started_def scarce_def ample_def)
  show "js_bigint_pow (big [5]) (big [- 3]) ample = (None, JS_ThrowRangeError ''BigInt negative exponent'' ample)"
    using bigint_pow_exact [of "big [5]" "big [- 3]" ample] by (simp add: ival_small)
qed

section \<open>The objects a program builds\<close>

text \<open>Every BigInt object that calls of the library can produce, with the integer it stands for.\<close>

inductive built :: "JSBigInt \<Rightarrow> int \<Rightarrow> bool" where
  of_si64: "js_bigint_new_si64 v c = (Some x, c') \<Longrightarrow> built x (sint v)"
| of_ui64: "js_bigint_new_ui64 v c = (Some x, c') \<Longrightarrow> built x (uint v)"
| of_add: "built a y \<Longrightarrow> built b z \<Longrightarrow> js_bigint_add a b 0 c = (Some x, c') \<Longrightarrow> built x (y + z)"
| of_sub: "built a y \<Longrightarrow> built b z \<Longrightarrow> js_bigint_add a b 1 c = (Some x, c') \<Longrightarrow> built x (y - z)"
| of_neg: "built a y \<Longrightarrow> js_bigint_neg a c = (Some x, c') \<Longrightarrow> built x (- y)"
| of_mul: "built a y \<Longrightarrow> built b z \<Longrightarrow> js_bigint_mul a b c = (Some x, c') \<Longrightarrow> built x (y * z)"
| of_div: "built a y \<Longrightarrow> built b z \<Longrightarrow> js_bigint_divrem a b False c = Some (Some x, c') \<Longrightarrow> built x (y sdiv z)"
| of_rem: "built a y \<Longrightarrow> built b z \<Longrightarrow> js_bigint_divrem a b True c = Some (Some x, c') \<Longrightarrow> built x (y smod z)"
| of_logic: "built a y \<Longrightarrow> built b z \<Longrightarrow> js_bigint_logic a b opc c = (Some x, c') \<Longrightarrow> built x (int_logic opc y z)"
| of_not: "built a y \<Longrightarrow> js_bigint_not a c = (Some x, c') \<Longrightarrow> built x (NOT y)"
| of_shl: "built a y \<Longrightarrow> js_bigint_shl a n c = (Some x, c') \<Longrightarrow> built x (y * 2 ^ n)"
| of_shr: "built a y \<Longrightarrow> js_bigint_shr a n c = (Some x, c') \<Longrightarrow> built x (y div 2 ^ n)"
| of_pow: "built a y \<Longrightarrow> built b z \<Longrightarrow> js_bigint_pow a b c = (Some x, c') \<Longrightarrow> built x (y ^ nat z)"

lemma returns_someD: "returns n z c (Some x, c') \<Longrightarrow> bigint x \<and> ival (tab x) = z"
  by simp

lemma js_bigint_new_ui64_returns: "returns 2 (uint v) c (js_bigint_new_ui64 v c)"
proof (cases "bit v 63")
  case True
  then have "\<not> v \<le> 0x7FFFFFFFFFFFFFFF"
    by (simp add: limb_msb word_le_nat_alt)
  moreover have "normal [v, 0]"
    using significant_sign_limb [of 0 "[v]"] True by (simp add: normal_def sign_limb_def)
  ultimately show ?thesis
    using True unfolding js_bigint_new_ui64_def
    by (auto intro: js_bigint_new_with_returns simp: ival_def)
next
  case False
  moreover from False have "v \<le> 0x7FFFFFFFFFFFFFFF"
    by (simp add: limb_msb word_le_nat_alt)
  ultimately show ?thesis
    unfolding js_bigint_new_ui64_def js_bigint_new_si64_def js_bigint_new_si_def
    by (auto intro: js_bigint_new_with_returns simp: ival_def)
qed

lemma built_correct: "built x z \<Longrightarrow> bigint x \<and> ival (tab x) = z"
proof (induction rule: built.induct)
  case (of_si64 v c x c')
  then show ?case
    using js_bigint_new_with_returns [of "[v]" "sint v" 1 c]
    by (simp add: js_bigint_new_si64_def js_bigint_new_si_def ival_single)
next
  case (of_ui64 v c x c')
  then show ?case
    using js_bigint_new_ui64_returns [of v c] by simp
next
  case (of_div a y b z c x c')
  then show ?case
    using js_bigint_divrem_contract [of a b False c] by (auto simp: bigint_def split: if_splits)
next
  case (of_rem a y b z c x c')
  then show ?case
    using js_bigint_divrem_contract [of a b True c] by (auto simp: bigint_def split: if_splits)
next
  case (of_pow a y b z c x c')
  then show ?case
    using js_bigint_pow_returns [of a b c] by (auto simp: bigint_def split: if_splits)
next
  case (of_add a y b z c x c')
  then show ?case
    using bigint_sum.computes [of a b c] by (simp add: bigint_def)
next
  case (of_sub a y b z c x c')
  then show ?case
    using bigint_difference.computes [of a b c] by (simp add: bigint_def)
next
  case (of_neg a y c x c')
  then show ?case
    using js_bigint_neg_returns [of a c] by (simp add: bigint_def normal_def)
next
  case (of_mul a y b z c x c')
  then show ?case
    using bigint_times.computes [of a b c] by (simp add: bigint_def)
next
  case (of_logic a y b z opc c x c')
  then show ?case
    using bigint_bitwise.computes [of a b opc c] by (simp add: bigint_def)
next
  case (of_not a y c x c')
  then show ?case
    using js_bigint_not_returns [of a c] by (simp add: bigint_def)
next
  case (of_shl a y n c x c')
  then show ?case
    using js_bigint_shl_returns [of a n c] by (simp add: bigint_def)
next
  case (of_shr a y n c x c')
  then show ?case
    using js_bigint_shr_returns [of a n c] by (simp add: bigint_def)
qed
text \<open>
  C26. Every BigInt the library builds, by any sequence of calls in any contexts, is in normal form with
  a reference count of one, and stands for the integer that the sequence computes. So two objects are
  equal limb by limb exactly when they stand for the same integer.
\<close>

theorem bigint_objects_normal:
  assumes "built x y" and "built x' y'"
  shows "bigint x \<and> ival (tab x) = y \<and> (tab x = tab x' \<longleftrightarrow> y = y')"
  using built_correct [OF assms(1)] built_correct [OF assms(2)] normal_unique [of "tab x" "tab x'"]
  by (auto simp: bigint_def)

lemma built_small: "built (big [v]) (sint v)"
  using built.of_si64 [of v ample "big [v]"]
  by (simp add: js_bigint_new_si64_def js_bigint_new_si_def js_bigint_new_with_def js_bigint_new_def js_malloc_def
      ample_def big_def JS_BIGINT_MAX_SIZE_def)

theorem bigint_objects_normal_witness: "bigint (big [5]) \<and> (tab (big [5]) = tab (big [- 3]) \<longleftrightarrow> (5 :: int) = - 3)"
  using bigint_objects_normal [OF built_small [of 5] built_small [of "- 3"]] by simp

text \<open>
  C27. The operations make progress: when every request for memory is granted and the size is within the
  limit, addition, subtraction, multiplication and the bitwise operations return a BigInt, with no
  exception pending that was not pending before.
\<close>

theorem bigint_operations_succeed:
  assumes "normal (tab a)" and "normal (tab b)" and "\<And>i. grant c i" and "len a + len b \<le> JS_BIGINT_MAX_SIZE"
    and "operation = (\<lambda>a b. js_bigint_add a b 0) \<or> operation = (\<lambda>a b. js_bigint_add a b 1)
      \<or> operation = js_bigint_mul \<or> operation = (\<lambda>a b. js_bigint_logic a b opc)"
  shows "\<exists>x c'. operation a b c = (Some x, c') \<and> bigint x \<and> blocks c' = blocks c + 1 \<and> exn c' = exn c"
proof -
  have size: "max (len a) (len b) \<le> JS_BIGINT_MAX_SIZE"
    using assms(4) by simp
  note ops = bigint_sum.succeeds [OF assms(1,2,3) size] bigint_difference.succeeds [OF assms(1,2,3) size]
    bigint_times.succeeds [OF assms(1-4)] bigint_bitwise.succeeds [OF assms(1,2,3) size, of opc]
  show ?thesis
    using assms(5) ops by (elim disjE) (simp_all, blast+)
qed

theorem bigint_operations_succeed_witness:
  "\<exists>x c'. js_bigint_mul (big [5]) (big [- 3]) ample = (Some x, c') \<and> bigint x \<and> blocks c' = 1 \<and> exn c' = None"
  using bigint_operations_succeed [of "big [5]" "big [- 3]" ample js_bigint_mul]
  by (simp add: ample_def JS_BIGINT_MAX_SIZE_def)

end
