(* ===== verification/Number_Claims.thy ===== *)
theory Number_Claims
  imports Compare_Facts Number_Facts BigInt_Claims
begin

text \<open>
  What the conversions and operators on BigInts and numbers promise, stated over the functions of the
  source: printing and reading, doubles, integers modulo a power of two, the operators of the interpreter
  with the references they consume, comparisons, and the wrap-around functions of the BigInt library.
\<close>

unbundle bit_operations_syntax

section \<open>Concrete states for the examples\<close>

definition no_host :: "unit host" where
  "no_host = \<lparr>host_to_primitive = (\<lambda>a hint s. (TagUndefined, s)), host_string_number = (\<lambda>v s. (JS_NAN, s)),
     host_string_bigint = (\<lambda>v s. (JS_NAN, s)), host_concat = (\<lambda>v w s. (TagException, s)), host_compare = (\<lambda>v w s. 0),
     host_string_eq = (\<lambda>v w s. False), host_string_len = (\<lambda>v s. 0), host_is_HTMLDDA = (\<lambda>a s. False),
     host_dup = (\<lambda>v s. s), host_free = (\<lambda>v s. s), host_pow = (\<lambda>a b. JS_FLOAT64_NAN)\<rparr>"

text \<open>A state with one BigInt object, of the value \<open>2 ^ 64\<close> and with two references.\<close>

definition one_object :: "unit js_state" where
  "one_object = \<lparr>ctx = ample, heap = [0 \<mapsto> \<lparr>ref_count = 2, tab = [0, 1]\<rparr>], fresh_addr = 1, world = ()\<rparr>"

lemma one_object_operand:
  "heap_ok one_object" "value_of one_object (TagBigInt 0) = Some (2 ^ 64)" "refs one_object 0 = 2"
  "limbs one_object (TagBigInt 0) = Suc (Suc 0)"
  by (auto simp: one_object_def heap_ok_def long_object_def normal_def significant_def value_of_def big_operand_def ival_def
      limb_base_def refs_def limbs_def split: if_splits)

lemma one_object_owned: "owned one_object [TagBigInt 0, TagBigInt 0]" "owned one_object [TagBigInt 0]"
  by (auto simp: owned_def refs_def one_object_def)

text \<open>In a context that grants every request, an operation within the size limit does not fail.\<close>

lemma ample_never_fails: "n \<le> JS_BIGINT_MAX_SIZE \<Longrightarrow> \<not> fails n k ample c"
  by (auto simp: fails_def refused_def ample_def)

section \<open>Text\<close>

text \<open>
  C28. \<open>js_bigint_to_string1\<close> returns for every BigInt, short or long, and every radix from 2 to 36. The
  string is the sign and the digits of the number without leading zeros, or there is none because an
  allocation was refused or the temporary copy is over the size limit; nothing else stays allocated.
\<close>

theorem bigint_print_exact:
  assumes "2 \<le> unat radix" and "unat radix \<le> 36" and "normal (tab a)"
  shows "(\<exists>res. js_bigint_to_string1 (Long a) radix c = Some res
      \<and> gives (len a) (show_int (unat radix) (ival (tab a))) c res)
    \<and> (\<exists>res. js_bigint_to_string1 (Short v) radix c = Some res
      \<and> gives 0 (show_int (unat radix) (sint v)) c res)"
  using js_bigint_to_string1_gives [OF assms(1,2)] assms(3) by blast

theorem bigint_print_exact_witness:
  "\<exists>res. js_bigint_to_string1 (Long (big [0, 1])) 10 ample = Some res \<and> gives (length [0, 1 :: u64]) (show_int 10 (2 ^ 64)) ample res"
proof -
  have "normal [0, 1]" and "ival [0, 1] = 2 ^ 64"
    by (simp_all add: normal_def significant_def ival_def limb_base_def)
  then show ?thesis
    using bigint_print_exact [of 10 "big [0, 1]" ample 0] by simp
qed

text \<open>
  C29. What the printer gives for a BigInt, the reader turns back into the same integer, for decimal
  and for every radix that is a power of two up to 32.
\<close>

theorem bigint_print_parse:
  assumes "radix \<in> {2, 4, 8, 10, 16, 32}" and "normal (tab a)"
    and "js_bigint_to_string1 (Long a) (of_nat radix) c = Some (Some str, c1)"
  shows "\<exists>res. js_bigint_from_string str radix c2 = Some res \<and> returns (length str + 1) (ival (tab a)) c2 res"
proof -
  have u: "unat (of_nat radix :: u32) = radix" "2 \<le> radix" "radix \<le> 36"
    using assms(1) by auto
  have "radix = 10 \<or> radix = 2 ^ 1 \<or> radix = 2 ^ 2 \<or> radix = 2 ^ 3 \<or> radix = 2 ^ 4 \<or> radix = 2 ^ 5"
    using assms(1) by simp blast
  then have r: "radix = 10 \<or> (\<exists>k. 1 \<le> k \<and> k \<le> 5 \<and> radix = 2 ^ k)"
    by (elim disjE) (auto intro: exI [of _ 1] exI [of _ 2] exI [of _ 3] exI [of _ 4] exI [of _ 5])
  have "str = show_int radix (ival (tab a))"
    using js_bigint_to_string1_gives(2) [of "of_nat radix" a c] assms(2,3) u by auto
  then show ?thesis
    using js_bigint_from_string_returns [OF r show_int_value(1) [OF u(2,3)]] show_int_value(2) [OF u(2,3)] by simp
qed

theorem bigint_print_parse_witness:
  "\<exists>str c1. js_bigint_to_string1 (Long (big [0, 1])) 10 ample = Some (Some str, c1)
     \<and> (\<exists>res. js_bigint_from_string str 10 ample = Some res \<and> returns (length str + 1) (2 ^ 64) ample res)"
proof -
  have n: "normal [0, 1]" and v: "ival [0, 1] = 2 ^ 64"
    by (simp_all add: normal_def significant_def ival_def limb_base_def)
  obtain r c1 where p: "js_bigint_to_string1 (Long (big [0, 1])) 10 ample = Some (r, c1)"
    "gives (Suc (Suc 0)) (show_int 10 (2 ^ 64)) ample (r, c1)"
    using js_bigint_to_string1_gives(2) [of 10 "big [0, 1]" ample] n v by auto
  have "r \<noteq> None"
    using p(2) ample_never_fails [of "Suc (Suc 0)"] by (cases r) (auto simp: JS_BIGINT_MAX_SIZE_def)
  then obtain str where "r = Some str"
    by blast
  then show ?thesis
    using p(1) bigint_print_parse [of 10 "big [0, 1]" ample str c1 ample] n v by auto
qed

section \<open>Doubles\<close>

text \<open>
  C30. The conversion of a BigInt to a double is the rounding of IEEE 754 to the nearest double, ties
  to even, with overflow to infinity.
\<close>

theorem bigint_to_double_rounds:
  assumes "normal (tab a)"
  shows "js_bigint_to_float64 a = f64_round (ival (tab a))"
  using assms by (rule js_bigint_to_float64_correct)

theorem bigint_to_double_rounds_witness:
  "js_bigint_to_float64 (big [0, 1]) = 0x43F0000000000000"
proof -
  have "normal [0, 1]" and "ival [0, 1] = 2 ^ 64"
    by (simp_all add: normal_def significant_def ival_def limb_base_def)
  moreover have "f64_round (2 ^ 64) = 0x43F0000000000000"
  proof -
    have e: "floor_log2 (2 ^ 64) = 64"
      by (rule floor_log2_eqI) simp_all
    have "f64_nearest (2 ^ 64) = 1087 * 2 ^ 52"
      unfolding f64_nearest_def Let_def e by (simp add: round_even_def)
    moreover have "nat \<bar>2 ^ 64 :: int\<bar> = 2 ^ 64"
      by simp
    ultimately show ?thesis
      unfolding f64_round_def by simp
  qed
  ultimately show ?thesis
    using bigint_to_double_rounds [of "big [0, 1]"] by simp
qed

text \<open>
  The conversion of a double to a BigInt is exact: the result says whether the double is an
  integer, has a fraction, or is not finite, and an integer gives the BigInt of that value.
\<close>

theorem double_to_bigint_exact:
  "(\<not> f64_finite d \<longrightarrow> js_bigint_from_float64 d c = (2, None, c))
   \<and> (f64_finite d \<and> \<not> 2 ^ 1074 dvd f64_units d \<longrightarrow> js_bigint_from_float64 d c = (1, None, c))
   \<and> (f64_finite d \<and> 2 ^ 1074 dvd f64_units d \<longrightarrow> fst (js_bigint_from_float64 d c) = 0
        \<and> returns 16 (f64_units d div 2 ^ 1074) c (snd (js_bigint_from_float64 d c)))"
proof (intro conjI impI)
  show "js_bigint_from_float64 d c = (2, None, c)" if "\<not> f64_finite d"
    using that by (rule js_bigint_from_float64_special(1))
  show "js_bigint_from_float64 d c = (1, None, c)" if "f64_finite d \<and> \<not> 2 ^ 1074 dvd f64_units d"
    using that js_bigint_from_float64_fraction by blast
  assume a: "f64_finite d \<and> 2 ^ 1074 dvd f64_units d"
  then have u: "f64_units d = f64_units d div 2 ^ 1074 * 2 ^ 1074"
    using dvd_div_mult_self [of "2 ^ 1074" "f64_units d"] by metis
  show "fst (js_bigint_from_float64 d c) = 0"
    and "returns 16 (f64_units d div 2 ^ 1074) c (snd (js_bigint_from_float64 d c))"
    using js_bigint_from_float64_integer [OF conjunct1 [OF a] u] by blast+
qed


theorem double_to_bigint_exact_witness:
  "js_bigint_from_float64 0x3FE0000000000000 ample = (1, None, ample)
   \<and> fst (js_bigint_from_float64 0x4008000000000000 ample) = 0
   \<and> returns 16 3 ample (snd (js_bigint_from_float64 0x4008000000000000 ample))"
proof -
  have half: "f64_finite 0x3FE0000000000000" "f64_units 0x3FE0000000000000 = 2 ^ 1073"
    by (simp_all add: f64_finite_def f64_units_def f64_mag_def f64_exp_def f64_mant_def f64_sign_def drop_bit_eq_div)
  have three: "f64_finite 0x4008000000000000" "f64_units 0x4008000000000000 = 3 * 2 ^ 1074"
    by (simp_all add: f64_finite_def f64_units_def f64_mag_def f64_exp_def f64_mant_def f64_sign_def drop_bit_eq_div)
  show ?thesis
    using double_to_bigint_exact [of "0x3FE0000000000000" ample] double_to_bigint_exact [of "0x4008000000000000" ample] half three
    by simp
qed

text \<open>
  C31. The comparison of a BigInt with a double is the one of the exact values, 2 for a NaN, with one
  exception: for two negative operands whose binary exponents differ the answer has the wrong sign. So
  \<open>-1n < -2.5\<close> holds in the engine.
\<close>

theorem bigint_double_comparison:
  assumes "normal (tab a)"
  shows "js_bigint_float64_cmp a b =
    (if cmp_swapped (ival (tab a)) b then - float64_cmp_exact (ival (tab a)) b
     else float64_cmp_exact (ival (tab a)) b)"
  using assms by (rule js_bigint_float64_cmp_correct)

theorem bigint_double_comparison_witness:
  "js_bigint_float64_cmp (big [- 1]) 0xC004000000000000 = - 1 \<and> float64_cmp_exact (- 1) 0xC004000000000000 = 1"
proof -
  have d: "f64_exp 0xC004000000000000 = 1024" "f64_mant 0xC004000000000000 = 2 ^ 50" "f64_sign 0xC004000000000000"
    by (simp_all add: f64_exp_def f64_mant_def f64_sign_def drop_bit_eq_div)
  then have "f64_units 0xC004000000000000 = - 5 * 2 ^ 1073"
    by (simp add: f64_units_def f64_mag_def)
  then have "float64_cmp_exact (- 1) 0xC004000000000000 = 1"
    using d by (simp add: float64_cmp_exact_def f64_is_nan_def f64_is_inf_def int_cmp_def)
  moreover have "cmp_swapped (- 1) 0xC004000000000000"
    using d by (simp add: cmp_swapped_def f64_finite_def f64_mag_def floor_log2.simps)
  ultimately show ?thesis
    using bigint_double_comparison [of "big [- 1]" "0xC004000000000000"] by (simp add: ival_single)
qed

section \<open>Integers\<close>

text \<open>
  C32. The conversions of a double to a 32-bit and a 64-bit integer are total and take the truncated value
  modulo the word size, 0 for a NaN or an infinity, whatever the exponent; the saturating ones clamp it.
  No cast in them is undefined.
\<close>

theorem number_to_integer:
  "JS_ToInt32Free h (TagFloat64 d) s = Some (Some (if f64_finite d then word_of_int (f64_trunc d) else 0), s)
   \<and> JS_ToInt64Free h (TagFloat64 d) s = Some (Some (if f64_finite d then word_of_int (f64_trunc d) else 0), s)
   \<and> JS_ToInt32SatFree h (TagFloat64 d) s = Some (Some (word_of_int (f64_sat (- (2 ^ 31)) (2 ^ 31 - 1) d)), s)
   \<and> JS_ToInt64SatFree h (TagFloat64 d) s = Some (Some (word_of_int (f64_sat (- (2 ^ 63)) (2 ^ 63 - 1) d)), s)"
  by (simp only: JS_ToInt32Free.simps [of h "TagFloat64 d"] JS_ToInt64Free.simps [of h "TagFloat64 d"]
      JS_ToInt32SatFree.simps [of h "TagFloat64 d"] JS_ToInt64SatFree.simps [of h "TagFloat64 d"] js_val.case
      float64_to_int32_correct float64_to_int64_correct float64_to_int32_sat_correct float64_to_int64_sat_correct
      Option.bind.bind_lunit simp_thms)

section \<open>Operators\<close>

text \<open>
  C33. The operators \<open>+\<close>, \<open>-\<close>, \<open>*\<close>, \<open>/\<close>, \<open>%\<close>, \<open>&\<close>, \<open>|\<close>, \<open>^\<close>, \<open><<\<close> and \<open>>>\<close> on two BigInts give the exact
  integer, whichever mixture of the fast path for one limb and the slow path the operands take. The
  result is short exactly when it fits a limb. The operator consumes one reference to each operand,
  also when both are the same object, gives one reference to the result, and allocates and frees exactly
  the blocks of the objects that appear and disappear. It fails only for want of memory or size, and
  division by zero is a RangeError. Shift counts are those that fit 32 bits.
\<close>

theorem bigint_operators_exact:
  assumes "operands s op1 op2 a b"
  shows "(\<exists>res. js_add_slow h op1 op2 s = Some res \<and> yields (limbs s op1 + limbs s op2 + 2) (a + b) [op1, op2] s res)
    \<and> (\<forall>op. op \<noteq> OP_pow \<longrightarrow> op \<noteq> OP_add \<longrightarrow> (op = OP_div \<or> op = OP_mod \<longrightarrow> b \<noteq> 0) \<longrightarrow>
        (\<exists>res. js_binary_arith_slow h op op1 op2 s = Some res
          \<and> yields (limbs s op1 + limbs s op2 + 2) (arith_value op a b) [op1, op2] s res))
    \<and> (\<forall>op. ((\<forall>l. op \<noteq> OP_logic l) \<longrightarrow> \<bar>b\<bar> \<le> INT32_MAX) \<longrightarrow>
        (\<exists>res. js_binary_logic_slow h op op1 op2 s = Some res
          \<and> yields (bit_limbs s op1 op2 b) (bit_value op a b) [op1, op2] s res))
    \<and> (\<forall>op. op = OP_div \<or> op = OP_mod \<longrightarrow> b = 0 \<longrightarrow>
        (\<exists>s'. js_binary_arith_slow h op op1 op2 s = Some (None, s') \<and> transfers (held [op1, op2]) (\<lambda>p. 0) s s'
          \<and> exn (ctx s') = Some (RangeError ''BigInt division by zero'')
          \<and> blocks (ctx s') - blocks (ctx s) = live s' - live s))
    \<and> (\<forall>n z v s'. yields n z [op1, op2] s (Some v, s') \<longrightarrow>
        ((\<exists>w. v = TagShortBigInt w) \<longleftrightarrow> - (2 ^ 63) \<le> z \<and> z < 2 ^ 63))"
proof (intro conjI allI impI)
  show "\<exists>res. js_add_slow h op1 op2 s = Some res \<and> yields (limbs s op1 + limbs s op2 + 2) (a + b) [op1, op2] s res"
    using assms by (rule js_add_slow_yields)
  fix op
  show "\<exists>res. js_binary_arith_slow h op op1 op2 s = Some res
      \<and> yields (limbs s op1 + limbs s op2 + 2) (arith_value op a b) [op1, op2] s res"
    if "op \<noteq> OP_pow" "op \<noteq> OP_add" "op = OP_div \<or> op = OP_mod \<longrightarrow> b \<noteq> 0"
    using assms that by (rule js_binary_arith_slow_yields)
  show "\<exists>s'. js_binary_arith_slow h op op1 op2 s = Some (None, s') \<and> transfers (held [op1, op2]) (\<lambda>p. 0) s s'
      \<and> exn (ctx s') = Some (RangeError ''BigInt division by zero'') \<and> blocks (ctx s') - blocks (ctx s) = live s' - live s"
    if "op = OP_div \<or> op = OP_mod" "b = 0"
    using assms that by (intro js_binary_arith_slow_zero [of _ _ _ a]) simp_all
next
  fix op
  show "\<exists>res. js_binary_logic_slow h op op1 op2 s = Some res
      \<and> yields (bit_limbs s op1 op2 b) (bit_value op a b) [op1, op2] s res"
    if "(\<forall>l. op \<noteq> OP_logic l) \<longrightarrow> \<bar>b\<bar> \<le> INT32_MAX"
    using assms that by (rule js_binary_logic_slow_yields)
next
  fix n z v s'
  assume "yields n z [op1, op2] s (Some v, s')"
  then show "(\<exists>w. v = TagShortBigInt w) \<longleftrightarrow> - (2 ^ 63) \<le> z \<and> z < 2 ^ 63"
    by (rule yields_canonical)
qed

theorem bigint_operators_exact_witness:
  "\<exists>res. js_binary_arith_slow no_host OP_mul (TagBigInt 0) (TagBigInt 0) one_object = Some res
     \<and> yields 6 (2 ^ 64 * 2 ^ 64) [TagBigInt 0, TagBigInt 0] one_object res"
proof -
  have "operands one_object (TagBigInt 0) (TagBigInt 0) (2 ^ 64) (2 ^ 64)"
    by (simp only: operands_def one_object_operand one_object_owned simp_thms)
  from conjunct1 [OF conjunct2 [OF bigint_operators_exact [OF this, of no_host]], rule_format, of OP_mul] show ?thesis
    by (simp add: one_object_operand numeral_eq_Suc)
qed

text \<open>
  C34. A comparison in which at least one operand is a BigInt decides the order of the numbers: of two
  BigInts, of a BigInt and an \<open>int32_t\<close> value, of a BigInt and a double (false for a NaN) unless the two are
  negative and of different exponents. It releases the operands and raises nothing.
\<close>

theorem bigint_comparison_decides:
  assumes "heap_ok s" and "owned s [op1, op2]" and "int_value s op1 = Some a"
  shows "(int_value s op2 = Some b \<longrightarrow>
      (\<exists>s'. js_compare_bigint h op op1 op2 s = Some (rel_int op a b, s') \<and> consumes [op1, op2] s s'))
    \<and> (\<not> cmp_swapped a d \<longrightarrow>
      (\<exists>s'. js_compare_bigint h op op1 (TagFloat64 d) s = Some (rel_float op a d, s') \<and> consumes [op1, TagFloat64 d] s s')
      \<and> (\<exists>s'. js_compare_bigint h op (TagFloat64 d) op1 s = Some (rel_float (rel_swap op) a d, s')
          \<and> consumes [TagFloat64 d, op1] s s'))"
proof -
  have "owned s [op1]"
    using assms(2) by (rule owned_less)
  then show ?thesis
    using js_compare_bigint_int [OF assms(1,2,3)] js_compare_bigint_float [OF assms(1) _ assms(3)] by blast
qed

theorem bigint_comparison_decides_witness:
  "\<exists>s'. js_compare_bigint no_host OP_lt (TagInt 5) (TagBigInt 0) one_object = Some (True, s')
     \<and> consumes [TagInt 5, TagBigInt 0] one_object s'"
proof -
  have "owned one_object [TagInt 5, TagBigInt 0]"
    using one_object_owned(2) by (simp add: owned_def)
  moreover have "int_value one_object (TagInt 5) = Some 5" "int_value one_object (TagBigInt 0) = Some (2 ^ 64)"
    using one_object_operand(2) by (simp_all add: int_value_def)
  ultimately show ?thesis
    using bigint_comparison_decides [OF one_object_operand(1), of "TagInt 5" "TagBigInt 0" 5 "2 ^ 64" no_host OP_lt] by simp
qed

text \<open>
  C35. \<open>BigInt.asIntN\<close> wraps to the signed range of the number of bits. \<open>BigInt.asUintN\<close> wraps to the unsigned
  range, except when the number of bits is a multiple of 64 or at least the bits of the operand's
  limbs: then it too wraps to the signed range, which is wrong when the highest bit is set, as for
  \<open>BigInt.asUintN(64, -1n)\<close>, which gives \<open>-1n\<close>. The operand's reference moves to the result or is released.
\<close>

theorem bigint_wraps:
  assumes "operand1 s a z"
  shows "\<exists>v s'. asUintN h bits a asIntN s = Some (v, s') \<and>
    yields (limbs s a) (asN_value bits asIntN (limbs s a) z) [a] s (if v = TagException then None else Some v, s')"
  using assms by (rule asUintN_yields)

theorem bigint_wraps_witness:
  "asUintN no_host 64 (TagShortBigInt (- 1)) False one_object = Some (TagShortBigInt (- 1), one_object)
   \<and> yields 1 (- 1) [TagShortBigInt (- 1)] one_object (Some (TagShortBigInt (- 1)), one_object)"
proof -
  have e: "asUintN no_host 64 (TagShortBigInt (- 1)) False one_object = Some (TagShortBigInt (- 1), one_object)"
    by (simp add: asUintN_def)
  have "refs one_object p \<ge> 0" for p
    by (simp add: refs_def one_object_def)
  then have "operand1 one_object (TagShortBigInt (- 1)) (- 1)"
    using one_object_operand(1) by (simp add: operand1_def owned_def)
  from bigint_wraps [OF this, of no_host 64 False] e show ?thesis
    by (simp add: asN_value_def asUintN_sloppy_def)
qed

end
