(* ===== verification/Equality_Claims.thy ===== *)
theory Equality_Claims
  imports Conversion_Facts Number_Claims
begin

text \<open>
  What the equalities of the engine and its conversions to truth values, bytes and lengths promise.
\<close>

section \<open>Equality\<close>

text \<open>
  C38. Strict equality, \<open>SameValue\<close> and \<open>SameValueZero\<close> on numbers and BigInts, in every mixture of representations:
  each is equality of a normal form (a NaN is equal to a NaN except for strict equality, the zeros are equal except
  for \<open>SameValue\<close>, a BigInt is never equal to a number), so the last two are equivalence relations and the first is
  symmetric and transitive. The functions on constant arguments take and give no reference; the operator
  takes one reference from each operand.
\<close>

theorem strict_equality_decides:
  assumes "heap_ok s" and "number_of s v = Some a" and "number_of s w = Some b"
  shows "(\<exists>s'. JS_StrictEq h v w s = Some (same_number JS_EQ_STRICT a b, s') \<and> keeps s s') \<and>
    (\<exists>s'. JS_SameValue h v w s = Some (same_number JS_EQ_SAME_VALUE a b, s') \<and> keeps s s') \<and>
    (\<exists>s'. JS_SameValueZero h v w s = Some (same_number JS_EQ_SAME_VALUE_ZERO a b, s') \<and> keeps s s') \<and>
    (owned s [v, w] \<longrightarrow>
      (\<exists>s'. js_strict_eq_slow h v w is_neq s = Some (Some (TagBool (of_bool (same_number JS_EQ_STRICT a b \<noteq> is_neq))), s') \<and>
        consumes [v, w] s s'))"
proof -
  note kept = kept_equality [OF assms, of h]
  have "\<exists>s'. js_strict_eq_slow h v w is_neq s = Some (Some (TagBool (of_bool (same_number JS_EQ_STRICT a b \<noteq> is_neq))), s') \<and>
      consumes [v, w] s s'" if "owned s [v, w]"
    using js_strict_eq2_numbers [OF assms(1) that assms(2,3), of h JS_EQ_STRICT] by (auto simp: js_strict_eq_slow_def)
  then show ?thesis
    using kept by (simp add: JS_StrictEq_def js_strict_eq_def JS_SameValue_def js_same_value_def JS_SameValueZero_def js_same_value_zero_def)
qed

theorem strict_equality_decides_witness:
  "\<exists>s'. JS_StrictEq no_host (TagBigInt 0) (TagShortBigInt 5) one_object = Some (False, s') \<and> keeps one_object s'"
  using strict_equality_decides [of one_object "TagBigInt 0" "BigNum (2 ^ 64)" "TagShortBigInt 5" "BigNum 5" no_host False] one_object_operand
  by (simp add: number_of_def)

text \<open>
  C39. Loose equality of numbers, BigInts, booleans, \<open>null\<close> and \<open>undefined\<close>: numbers of every kind are compared by
  their exact mathematical values (also a BigInt with a negative double, where the order comparison is wrong),
  a boolean counts as 0 or 1, and \<open>null\<close> and \<open>undefined\<close> equal only each other. The loop ends, and
  the operands are released.
\<close>

theorem loose_equality_decides:
  assumes "heap_ok s" and "owned s [op1, op2]" and "plain s op1" and "plain s op2"
  shows "\<exists>s'. js_eq_slow h op1 op2 is_neq s = Some (Some (TagBool (of_bool (loosely_equal s op1 op2 \<noteq> is_neq))), s') \<and>
    consumes [op1, op2] s s'"
  by (rule js_eq_slow_plain [OF assms])

theorem loose_equality_decides_witness:
  "\<exists>s'. js_eq_slow no_host (TagBigInt 0) TagNull False one_object = Some (Some (TagBool 0), s') \<and>
    consumes [TagBigInt 0, TagNull] one_object s'"
proof -
  have "value_of one_object TagNull = None"
    by (simp add: value_of_def big_operand_def)
  then have "plain one_object (TagBigInt 0)" "plain one_object TagNull" "\<not> loosely_equal one_object (TagBigInt 0) TagNull"
    using one_object_operand
    by (simp_all add: plain_def is_nullish_def loosely_equal_def number_of_def bool_to_int_def)
  moreover have "owned one_object [TagBigInt 0, TagNull]"
    by (auto simp: owned_def refs_def one_object_def)
  ultimately show ?thesis
    using loose_equality_decides [of one_object "TagBigInt 0" TagNull no_host False] one_object_operand by simp
qed

section \<open>Conversions\<close>

text \<open>
  C40. From a number, integer or double alike: \<open>JS_ToUint8ClampFree\<close> gives the nearest byte, ties to even;
  \<open>JS_ToArrayLengthFree\<close> accepts exactly the integers of 32 bits and throws a RangeError for every other number;
  \<open>JS_ToLengthFree\<close> clamps to the safe integers that are not negative; \<open>JS_ToBoolFree\<close> is false for the zeros, the
  NaNs and the BigInt 0 only.
\<close>

theorem number_conversions:
  assumes "heap_ok s" and "number_of s v = Some a"
  shows "(\<forall>d. a = Number d \<longrightarrow>
      (\<exists>r. JS_ToUint8ClampFree h v s = Some (Some r, s) \<and> byte_of d (sint r)) \<and>
      JS_ToLengthFree h v s = Some (Some (word_of_int (f64_sat 0 (2 ^ 53 - 1) d)), s) \<and>
      (\<forall>n < 2 ^ 32. f64_finite d \<and> f64_units d = int n * 2 ^ 1074 \<longrightarrow>
        JS_ToArrayLengthFree h v ctor s = Some (Some (of_nat n), s)) \<and>
      (\<not> (\<exists>n < 2 ^ 32. f64_finite d \<and> f64_units d = int n * 2 ^ 1074) \<longrightarrow>
        JS_ToArrayLengthFree h v ctor s = Some (None, throw (JS_ThrowRangeError ''invalid array length'') s))) \<and>
    (owned s [v] \<longrightarrow> (\<exists>s'. JS_ToBoolFree h v s = Some (Some (of_bool (truthy a)), s') \<and> consumes [v] s s'))"
proof -
  have "(\<exists>r. JS_ToUint8ClampFree h v s = Some (Some r, s) \<and> byte_of d (sint r))"
    "JS_ToLengthFree h v s = Some (Some (word_of_int (f64_sat 0 (2 ^ 53 - 1) d)), s)"
    "(\<forall>n < 2 ^ 32. f64_finite d \<and> f64_units d = int n * 2 ^ 1074 \<longrightarrow> JS_ToArrayLengthFree h v ctor s = Some (Some (of_nat n), s))"
    "\<not> (\<exists>n < 2 ^ 32. f64_finite d \<and> f64_units d = int n * 2 ^ 1074) \<longrightarrow>
      JS_ToArrayLengthFree h v ctor s = Some (None, throw (JS_ThrowRangeError ''invalid array length'') s)"
    if "number_of s v = Some (Number d)" for d
    using JS_ToUint8ClampFree_number [OF that] JS_ToLengthFree_number [OF that] JS_ToArrayLengthFree_number [OF that]
    unfolding invalid_length_def by blast+
  then show ?thesis
    using assms JS_ToBoolFree_number [OF assms(1) _ assms(2), of h] by blast
qed

theorem number_conversions_witness:
  "(\<exists>r. JS_ToUint8ClampFree no_host (TagFloat64 0x3FF8000000000000) one_object = Some (Some r, one_object)
      \<and> byte_of 0x3FF8000000000000 (sint r)) \<and>
    (\<exists>s'. JS_ToBoolFree no_host (TagBigInt 0) one_object = Some (Some 1, s') \<and> consumes [TagBigInt 0] one_object s')"
  using number_conversions [of one_object "TagFloat64 0x3FF8000000000000" "Number 0x3FF8000000000000" no_host True]
    number_conversions [of one_object "TagBigInt 0" "BigNum (2 ^ 64)" no_host True] one_object_operand one_object_owned
  by (simp add: number_of_def)

end
