(* ===== verification/LineNumbers.thy ===== *)
theory LineNumbers
  imports DynBuf
begin

text \<open>
  Source positions of the compiler in quickjs.c: the line and column of a place in the source, with the cache of
  the last place asked for, and the table that maps the addresses of a function's byte code to source positions
  (\<open>add_pc2line_info\<close>, \<open>compute_pc2line_info\<close>, \<open>find_line_num\<close>). The table is written into a dynamic buffer with integers in
  LEB128. Pointers into the source are offsets; \<open>None\<close> is an access outside it. Line and column numbers, an
  \<open>int\<close> in the source, are unbounded integers here: no count exceeds the length of the source, so the two agree for
  sources of less than \<open>2 ^ 31\<close> bytes.
\<close>

unbundle bit_operations_syntax

section \<open>Lines and columns\<close>

fun get_line_col_loop :: "u8 list \<Rightarrow> int \<Rightarrow> int \<Rightarrow> int \<times> int" where
  "get_line_col_loop [] line_num col_num = (line_num, col_num)"
| "get_line_col_loop (c # buf) line_num col_num =
     (if c = 10 then get_line_col_loop buf (line_num + 1) 0
      else if c < 0x80 \<or> c \<ge> 0xC0 then get_line_col_loop buf line_num (col_num + 1)
      else get_line_col_loop buf line_num col_num)"

definition get_line_col :: "u8 list \<Rightarrow> int \<times> int" where
  "get_line_col buf = get_line_col_loop buf 0 0"

record GetLineColCache =
  gl_ptr :: nat
  gl_line_num :: int
  gl_col_num :: int

text \<open>The bytes of the source between two pointers, and the loop that looks for the start of the line.\<close>

definition source_part :: "u8 list \<Rightarrow> nat \<Rightarrow> nat \<Rightarrow> u8 list option" where
  "source_part buf p q = (if p \<le> q \<and> q \<le> length buf then Some (drop p (take q buf)) else None)"

fun column_back :: "u8 list \<Rightarrow> nat \<Rightarrow> int \<Rightarrow> int" where
  "column_back buf 0 col_num = col_num"
| "column_back buf (Suc p) col_num =
     (if buf ! p = 10 then col_num
      else if buf ! p < 0x80 \<or> buf ! p \<ge> 0xC0 then column_back buf p (col_num + 1)
      else column_back buf p col_num)"

definition get_line_col_cached :: "u8 list \<Rightarrow> GetLineColCache \<Rightarrow> nat \<Rightarrow> ((int \<times> int) \<times> GetLineColCache) option" where
  "get_line_col_cached buf s ptr =
     do {
       s \<leftarrow> (if ptr \<ge> gl_ptr s
             then do {
               part \<leftarrow> source_part buf (gl_ptr s) ptr;
               let (line_num, col_num) = get_line_col part;
               Some (if line_num = 0 then s\<lparr>gl_col_num := gl_col_num s + col_num\<rparr>
                     else s\<lparr>gl_line_num := gl_line_num s + line_num, gl_col_num := col_num\<rparr>) }
             else do {
               part \<leftarrow> source_part buf ptr (gl_ptr s);
               let (line_num, col_num) = get_line_col part;
               Some (if line_num = 0 then s\<lparr>gl_col_num := gl_col_num s - col_num\<rparr>
                     else s\<lparr>gl_line_num := gl_line_num s - line_num, gl_col_num := column_back buf ptr 0\<rparr>) });
       let s = s\<lparr>gl_ptr := ptr\<rparr>;
       Some ((gl_line_num s, gl_col_num s), s)
     }"

section \<open>LEB128\<close>

lemma drop_bit_7_less: "drop_bit 7 v \<noteq> 0 \<Longrightarrow> unat (drop_bit 7 v) < unat (v :: u32)"
proof -
  assume "drop_bit 7 v \<noteq> 0"
  then have "unat v \<noteq> 0"
    by (auto simp: unat_eq_0)
  moreover have "unat (drop_bit 7 v) = unat v div 2 ^ 7"
    unfolding unat_drop_bit_eq by (rule drop_bit_eq_div)
  ultimately show ?thesis
    by (simp only:) simp
qed

function dbuf_put_leb128 :: "'o DynBufReallocFunc \<Rightarrow> u32 \<Rightarrow> ('o, unit) dop" where
  "dbuf_put_leb128 R v s =
     (let a = v AND 0x7F;
          v = drop_bit 7 v
      in if v \<noteq> 0
         then do { (_, s) \<leftarrow> dbuf_putc R (ucast (a OR 0x80)) s; dbuf_put_leb128 R v s }
         else do { (_, s) \<leftarrow> dbuf_putc R (ucast a) s; Some ((), s) })"
  by pat_completeness auto

termination
  by (relation "measure (\<lambda>(R, v, s). unat v)") (simp_all add: drop_bit_7_less)

declare dbuf_put_leb128.simps [simp del]

definition dbuf_put_sleb128 :: "'o DynBufReallocFunc \<Rightarrow> u32 \<Rightarrow> ('o, unit) dop" where
  "dbuf_put_sleb128 R v s = dbuf_put_leb128 R ((2 * v) XOR (- drop_bit 31 v)) s"

text \<open>The value and the number of bytes read; \<open>None\<close> is the result \<open>-1\<close>.\<close>

fun get_leb128_loop :: "u8 list \<Rightarrow> u32 \<Rightarrow> nat \<Rightarrow> (u32 \<times> nat) option" where
  "get_leb128_loop [] v i = None"
| "get_leb128_loop (a # buf) v i =
     (if i < 5
      then
        let v = v OR push_bit (i * 7) (ucast (a AND 0x7F))
        in if a AND 0x80 = 0 then Some (v, i + 1) else get_leb128_loop buf v (i + 1)
      else None)"

definition get_leb128 :: "u8 list \<Rightarrow> (u32 \<times> nat) option" where
  "get_leb128 buf = get_leb128_loop buf 0 0"

definition get_sleb128 :: "u8 list \<Rightarrow> (u32 \<times> nat) option" where
  "get_sleb128 buf = do { (val, ret) \<leftarrow> get_leb128 buf; Some (drop_bit 1 val XOR (- (val AND 1)), ret) }"

section \<open>The table of a function\<close>

abbreviation (input) PC2LINE_BASE :: int where "PC2LINE_BASE \<equiv> - 1"
abbreviation (input) PC2LINE_RANGE :: int where "PC2LINE_RANGE \<equiv> 5"
abbreviation (input) PC2LINE_OP_FIRST :: int where "PC2LINE_OP_FIRST \<equiv> 1"
abbreviation (input) PC2LINE_DIFF_PC_MAX :: int where "PC2LINE_DIFF_PC_MAX \<equiv> 50"

record LineNumberSlot =
  slot_pc :: u32
  slot_source_pos :: u32

text \<open>The fields of \<open>JSFunctionDef\<close> that concern the table; \<open>line_number_count\<close> is the length of the list of slots.\<close>

record 'o JSFunctionDef =
  line_number_slots :: "LineNumberSlot list option"
  line_number_size :: nat
  line_number_last :: u32
  line_number_last_pc :: u32
  strip_debug :: bool
  source_pos :: u32
  get_line_col_cache :: GetLineColCache
  pc2line :: "'o DynBuf"

definition add_pc2line_info :: "'o JSFunctionDef \<Rightarrow> u32 \<Rightarrow> u32 \<Rightarrow> 'o JSFunctionDef" where
  "add_pc2line_info s pc pos =
     (case line_number_slots s of
        None \<Rightarrow> s
      | Some slots \<Rightarrow>
          if length slots < line_number_size s \<and> pc \<ge> line_number_last_pc s \<and> pos \<noteq> line_number_last s
          then s\<lparr>line_number_slots := Some (slots @ [\<lparr>slot_pc = pc, slot_source_pos = pos\<rparr>]),
                 line_number_last_pc := pc, line_number_last := pos\<rparr>
          else s)"

text \<open>One entry: the differences of the address, the line and the column.\<close>

definition put_pc2line_entry :: "'o DynBufReallocFunc \<Rightarrow> u32 \<Rightarrow> int \<Rightarrow> int \<Rightarrow> ('o, unit) dop" where
  "put_pc2line_entry R diff_pc diff_line diff_col d =
     do {
       (_, d) \<leftarrow>
         (if diff_line \<ge> PC2LINE_BASE \<and> diff_line < PC2LINE_BASE + PC2LINE_RANGE \<and> sint diff_pc \<le> PC2LINE_DIFF_PC_MAX
          then do { (_, d) \<leftarrow> dbuf_putc R
                      (word_of_int ((diff_line - PC2LINE_BASE) + sint diff_pc * PC2LINE_RANGE + PC2LINE_OP_FIRST)) d;
                    Some ((), d) }
          else do { (_, d) \<leftarrow> dbuf_putc R 0 d;
                    (_, d) \<leftarrow> dbuf_put_leb128 R diff_pc d;
                    dbuf_put_sleb128 R (word_of_int diff_line) d });
       dbuf_put_sleb128 R (word_of_int diff_col) d
     }"

fun pc2line_loop ::
  "'o DynBufReallocFunc \<Rightarrow> u8 list \<Rightarrow> LineNumberSlot list \<Rightarrow> u32 \<Rightarrow> int \<Rightarrow> int \<Rightarrow> GetLineColCache
    \<Rightarrow> 'o DynBuf \<Rightarrow> (GetLineColCache \<times> 'o DynBuf) option" where
  "pc2line_loop R buf [] last_pc last_line_num last_col_num cache d = Some (cache, d)"
| "pc2line_loop R buf (slot # slots) last_pc last_line_num last_col_num cache d =
     (let pc = slot_pc slot;
          diff_pc = pc - last_pc
      in if slot_source_pos slot = - 1 \<or> sint diff_pc < 0
         then pc2line_loop R buf slots last_pc last_line_num last_col_num cache d
         else do {
           ((line_num, col_num), cache) \<leftarrow> get_line_col_cached buf cache (unat (slot_source_pos slot));
           let diff_line = line_num - last_line_num;
           let diff_col = col_num - last_col_num;
           if diff_line = 0 \<and> diff_col = 0
           then pc2line_loop R buf slots last_pc last_line_num last_col_num cache d
           else do {
             (_, d) \<leftarrow> put_pc2line_entry R diff_pc diff_line diff_col d;
             pc2line_loop R buf slots pc line_num col_num cache d } })"

definition compute_pc2line_info :: "'o DynBufReallocFunc \<Rightarrow> u8 list \<Rightarrow> 'o \<Rightarrow> 'o JSFunctionDef \<Rightarrow> 'o JSFunctionDef option" where
  "compute_pc2line_info R buf rt s =
     (if strip_debug s then Some s
      else do {
        let d = dbuf_init2 rt;
        ((last_line_num, last_col_num), cache) \<leftarrow> get_line_col_cached buf (get_line_col_cache s) (unat (source_pos s));
        (_, d) \<leftarrow> dbuf_put_leb128 R (word_of_int last_line_num) d;
        (_, d) \<leftarrow> dbuf_put_leb128 R (word_of_int last_col_num) d;
        (cache, d) \<leftarrow> pc2line_loop R buf (case line_number_slots s of None \<Rightarrow> [] | Some slots \<Rightarrow> slots)
          0 last_line_num last_col_num cache d;
        Some (s\<lparr>get_line_col_cache := cache, pc2line := d\<rparr>) })"

section \<open>Looking up an address\<close>

definition pc2line_op :: "u8 \<Rightarrow> u8 list \<Rightarrow> u32 \<Rightarrow> u32 \<Rightarrow> (u32 \<times> u32 \<times> u8 list) option" where
  "pc2line_op b p pc line_num =
     (if b = 0
      then do { (val, ret) \<leftarrow> get_leb128 p;
                let pc = pc + val;
                let p = drop ret p;
                (v, ret) \<leftarrow> get_sleb128 p;
                Some (pc, line_num + v, drop ret p) }
      else
        let p_op = ucast b - word_of_int PC2LINE_OP_FIRST :: u32
        in Some (pc + p_op div word_of_int PC2LINE_RANGE,
                 line_num + p_op mod word_of_int PC2LINE_RANGE + word_of_int PC2LINE_BASE, p))"

lemma pc2line_op_length: "pc2line_op b p pc line_num = Some (pc', new_line_num, p') \<Longrightarrow> length p' \<le> length p"
  by (auto simp: pc2line_op_def Let_def split: if_splits bind_splits)

function find_line_loop :: "u32 \<Rightarrow> u8 list \<Rightarrow> u32 \<Rightarrow> u32 \<Rightarrow> u32 \<Rightarrow> (u32 \<times> u32) option" where
  "find_line_loop pc_value p pc line_num col_num =
     (case p of
        [] \<Rightarrow> Some (line_num, col_num)
      | b # p \<Rightarrow>
          (case pc2line_op b p pc line_num of
             None \<Rightarrow> None
           | Some (pc, new_line_num, p) \<Rightarrow>
               (case get_sleb128 p of
                  None \<Rightarrow> None
                | Some (v, ret) \<Rightarrow>
                    if pc_value < pc then Some (line_num, col_num)
                    else find_line_loop pc_value (drop ret p) pc new_line_num (col_num + v))))"
  by pat_completeness auto

termination
  by (relation "measure (\<lambda>(pc_value, p, _). length p)") (auto dest!: pc2line_op_length)

declare find_line_loop.simps [simp del]

text \<open>
  The line and the column, counted from 1. \<open>buf\<close> is \<open>None\<close> when the function was stripped. On a failure both are 0.
\<close>

definition find_line_num :: "u8 list option \<Rightarrow> u32 \<Rightarrow> u32 \<times> u32" where
  "find_line_num buf pc_value =
     (case do {
        p \<leftarrow> buf;
        (val, ret) \<leftarrow> get_leb128 p;
        let p = drop ret p;
        let line_num = val + 1;
        (val, ret) \<leftarrow> get_leb128 p;
        let p = drop ret p;
        let col_num = val + 1;
        if pc_value \<noteq> - 1 then find_line_loop pc_value p 0 line_num col_num else Some (line_num, col_num) } of
        None \<Rightarrow> (0, 0)
      | Some r \<Rightarrow> r)"

end
