(* ===== verification/LineNumber_Facts.thy ===== *)
theory LineNumber_Facts
  imports LineNumbers
begin

text \<open>
  The cached line and column are those of a count from the start of the source; the LEB128 decoder inverts the
  encoder; and the lookup in the table of a function gives the position of the last slot that is not behind the address.
\<close>

unbundle bit_operations_syntax

section \<open>Lines and columns\<close>

lemma get_line_col_loop_append: "get_line_col_loop (xs @ ys) l c = (case get_line_col_loop xs l c of (l, c) \<Rightarrow> get_line_col_loop ys l c)"
  by (induction xs arbitrary: l c) auto

lemma get_line_col_loop_shift:
  "0 \<le> fst (get_line_col xs) \<and> get_line_col_loop xs l c =
    (l + fst (get_line_col xs), if fst (get_line_col xs) = 0 then c + snd (get_line_col xs) else snd (get_line_col xs))"
proof -
  have "\<exists>a b. 0 \<le> a \<and> (\<forall>l c. get_line_col_loop xs l c = (l + a, if a = 0 then c + b else b))"
  proof (induction xs)
    case Nil
    show ?case
      by (intro exI [of _ 0]) simp
  next
    case (Cons x xs)
    then obtain a b where a: "0 \<le> a" and loop: "get_line_col_loop xs l c = (l + a, if a = 0 then c + b else b)" for l c
      by blast
    consider "x = 10" | "x \<noteq> 10" "x < 0x80 \<or> x \<ge> 0xC0" | "x \<noteq> 10" "\<not> (x < 0x80 \<or> x \<ge> 0xC0)"
      by blast
    then show ?case
    proof cases
      case 1
      then show ?thesis
        using a by (intro exI [of _ "a + 1"] exI [of _ b]) (simp add: loop)
    next
      case 2
      then show ?thesis
        using a by (intro exI [of _ a] exI [of _ "if a = 0 then b + 1 else b"]) (auto simp: loop)
    next
      case 3
      then show ?thesis
        using a by (intro exI [of _ a] exI [of _ b]) (simp add: loop)
    qed
  qed
  then obtain a b where "0 \<le> a" "\<And>l c. get_line_col_loop xs l c = (l + a, if a = 0 then c + b else b)"
    by blast
  then show ?thesis
    by (simp add: get_line_col_def)
qed

lemma get_line_col_append:
  "get_line_col (xs @ ys) = (fst (get_line_col xs) + fst (get_line_col ys),
    if fst (get_line_col ys) = 0 then snd (get_line_col xs) + snd (get_line_col ys) else snd (get_line_col ys))"
proof -
  have "get_line_col (xs @ ys) = get_line_col_loop ys (fst (get_line_col xs)) (snd (get_line_col xs))"
    by (simp add: get_line_col_def get_line_col_loop_append split: prod.splits)
  then show ?thesis
    using get_line_col_loop_shift [of ys] by simp
qed

lemma get_line_col_single:
  "get_line_col [x] = (if x = 10 then (1, 0) else if x < 0x80 \<or> x \<ge> 0xC0 then (0, 1) else (0, 0))"
  by (simp add: get_line_col_def)

text \<open>No count exceeds the length of the source.\<close>

lemma get_line_col_bounds:
  "0 \<le> fst (get_line_col xs)" "0 \<le> snd (get_line_col xs)" "fst (get_line_col xs) + snd (get_line_col xs) \<le> int (length xs)"
proof -
  have "0 \<le> fst (get_line_col xs) \<and> 0 \<le> snd (get_line_col xs) \<and> fst (get_line_col xs) + snd (get_line_col xs) \<le> int (length xs)"
  proof (induction xs rule: rev_induct)
    case Nil
    show ?case
      by (simp add: get_line_col_def)
  next
    case (snoc x xs)
    then show ?case
      unfolding get_line_col_append get_line_col_single by auto
  qed
  then show "0 \<le> fst (get_line_col xs)" "0 \<le> snd (get_line_col xs)" "fst (get_line_col xs) + snd (get_line_col xs) \<le> int (length xs)"
    by simp_all
qed

lemma column_back_correct: "p \<le> length buf \<Longrightarrow> column_back buf p c = c + snd (get_line_col (take p buf))"
proof (induction p arbitrary: c)
  case 0
  show ?case
    by (simp add: get_line_col_def)
next
  case (Suc p)
  then have "take (Suc p) buf = take p buf @ [buf ! p]"
    by (simp add: take_Suc_conv_app_nth)
  then show ?case
    using Suc by (simp add: get_line_col_append get_line_col_single)
qed

definition cache_ok :: "u8 list \<Rightarrow> GetLineColCache \<Rightarrow> bool" where
  "cache_ok buf s \<longleftrightarrow> gl_ptr s \<le> length buf \<and> (gl_line_num s, gl_col_num s) = get_line_col (take (gl_ptr s) buf)"

lemma get_line_col_cached_correct:
  assumes ok: "cache_ok buf s" and ptr: "ptr \<le> length buf"
  shows "\<exists>s'. get_line_col_cached buf s ptr = Some (get_line_col (take ptr buf), s') \<and> cache_ok buf s'"
proof (cases "gl_ptr s \<le> ptr")
  case True
  have "take ptr buf = take (gl_ptr s) buf @ drop (gl_ptr s) (take ptr buf)"
    using True by (metis append_take_drop_id min.absorb1 take_take)
  note split = get_line_col_append [of "take (gl_ptr s) buf" "drop (gl_ptr s) (take ptr buf)", folded this]
  show ?thesis
    using True ok ptr split
    by (auto simp: get_line_col_cached_def source_part_def cache_ok_def Let_def prod_eq_iff split: prod.splits)
next
  case False
  have "take (gl_ptr s) buf = take ptr buf @ drop ptr (take (gl_ptr s) buf)"
    using False by (metis append_take_drop_id min.absorb1 nat_le_linear take_take)
  note split = get_line_col_append [of "take ptr buf" "drop ptr (take (gl_ptr s) buf)", folded this]
  show ?thesis
    using False ok ptr split column_back_correct [OF ptr, of 0]
    by (auto simp: get_line_col_cached_def source_part_def cache_ok_def Let_def prod_eq_iff split: prod.splits)
qed

section \<open>LEB128\<close>

function leb128 :: "u32 \<Rightarrow> u8 list" where
  "leb128 v = (if drop_bit 7 v \<noteq> 0 then ucast ((v AND 0x7F) OR 0x80) # leb128 (drop_bit 7 v) else [ucast (v AND 0x7F)])"
  by pat_completeness auto

termination
  by (relation "measure unat") (simp_all add: drop_bit_7_less)

declare leb128.simps [simp del]

lemma and_7F: "x AND 0x7F = take_bit 7 (x :: 'a::len word)"
proof -
  have "(0x7F :: 'a word) = mask 7"
    by (simp add: mask_eq_exp_minus_1)
  then show ?thesis
    by (simp only: take_bit_eq_mask)
qed

lemma bit_80: "bit (0x80 :: 'a::len word) n \<longleftrightarrow> n = 7 \<and> 7 < LENGTH('a)"
proof -
  have "(0x80 :: 'a word) = push_bit 7 1"
    by simp
  then show ?thesis
    by (simp only: bit_simps) auto
qed

lemma bit_80_nat: "bit (0x80 :: nat) n \<longleftrightarrow> n = 7" "bit (0x80 :: int) n \<longleftrightarrow> n = 7"
proof -
  have "(0x80 :: nat) = push_bit 7 1" "(0x80 :: int) = push_bit 7 1"
    by simp_all
  then show "bit (0x80 :: nat) n \<longleftrightarrow> n = 7" "bit (0x80 :: int) n \<longleftrightarrow> n = 7"
    by (simp_all only: bit_simps) auto
qed

lemma leb_byte:
  fixes v :: u32
  shows "(ucast ((ucast (v AND 0x7F) :: u8) AND 0x7F) :: u32) = take_bit 7 v"
    and "(ucast ((ucast ((v AND 0x7F) OR 0x80) :: u8) AND 0x7F) :: u32) = take_bit 7 v"
    and "(ucast (v AND 0x7F) :: u8) AND 0x80 = 0"
    and "(ucast ((v AND 0x7F) OR 0x80) :: u8) AND 0x80 \<noteq> 0"
proof -
  show "(ucast ((ucast (v AND 0x7F) :: u8) AND 0x7F) :: u32) = take_bit 7 v"
    "(ucast ((ucast ((v AND 0x7F) OR 0x80) :: u8) AND 0x7F) :: u32) = take_bit 7 v"
    by (rule bit_word_eqI, auto simp: bit_simps and_7F bit_80 bit_80_nat)+
  show "(ucast (v AND 0x7F) :: u8) AND 0x80 = 0"
    by (rule bit_word_eqI) (auto simp: bit_simps and_7F bit_80 bit_80_nat)
  have "bit ((ucast ((v AND 0x7F) OR 0x80) :: u8) AND 0x80) 7"
    by (simp add: bit_simps bit_80 bit_80_nat)
  then show "(ucast ((v AND 0x7F) OR 0x80) :: u8) AND 0x80 \<noteq> 0"
    by (metis bit_0_eq bot_apply bot_bool_def)
qed

lemma split_7: "take_bit 7 v OR push_bit 7 (drop_bit 7 v) = (v :: u32)"
proof (rule bit_word_eqI)
  fix n
  assume "n < LENGTH(32)"
  then show "bit (take_bit 7 v OR push_bit 7 (drop_bit 7 v)) n = bit v n"
    by (cases "n < 7") (auto simp: bit_simps not_less)
qed

lemma get_leb128_loop_leb128:
  "i < 5 \<Longrightarrow> unat v < 2 ^ (35 - 7 * i) \<Longrightarrow>
    get_leb128_loop (leb128 v @ rest) acc i = Some (acc OR push_bit (i * 7) v, i + length (leb128 v))"
proof (induction v arbitrary: acc i rule: leb128.induct)
  case (1 v)
  show ?case
  proof (cases "drop_bit 7 v = 0")
    case True
    then have "take_bit 7 v = v"
      using split_7 [of v] by simp
    then show ?thesis
      using True "1.prems"(1) by (simp add: leb128.simps [of v] leb_byte Let_def)
  next
    case False
    have div: "unat (drop_bit 7 v) = unat v div 2 ^ 7"
      unfolding unat_drop_bit_eq by (rule drop_bit_eq_div)
    have i: "Suc i < 5"
    proof (rule ccontr)
      assume "\<not> Suc i < 5"
      then have "i = 4"
        using "1.prems"(1) by simp
      then have "unat (drop_bit 7 v) = 0"
        using "1.prems"(2) div by simp
      then show False
        using False by (simp add: unat_eq_0)
    qed
    have "(2 :: nat) ^ (35 - 7 * i) = 2 ^ (35 - 7 * Suc i) * 2 ^ 7"
      unfolding power_add [symmetric] using i by (intro arg_cong [of _ _ "(^) 2"]) simp
    then have "unat (drop_bit 7 v) < 2 ^ (35 - 7 * Suc i)"
      unfolding div using "1.prems"(2) by (simp only: less_mult_imp_div_less)
    note IH = "1.IH" [OF False i this, of "acc OR push_bit (i * 7) (take_bit 7 v)"]
    have "push_bit (i * 7) (take_bit 7 v) OR push_bit (Suc i * 7) (drop_bit 7 v) = push_bit (i * 7) v"
      using split_7 [of v] by (metis add.commute mult_Suc push_bit_or push_bit_push_bit)
    then show ?thesis
      using False "1.prems"(1) IH by (simp add: leb128.simps [of v] leb_byte Let_def or.assoc)
  qed
qed

lemma get_leb128_leb128: "get_leb128 (leb128 v @ rest) = Some (v, length (leb128 v))"
proof -
  have "unat v < 2 ^ LENGTH(32)"
    by (rule unsigned_less)
  then show ?thesis
    using get_leb128_loop_leb128 [of 0 v rest 0] by (simp add: get_leb128_def)
qed

definition sleb128 :: "u32 \<Rightarrow> u8 list" where
  "sleb128 v = leb128 ((2 * v) XOR (- drop_bit 31 v))"

lemma zigzag: "drop_bit 1 ((2 * v) XOR (- drop_bit 31 v)) XOR (- (((2 * v) XOR (- drop_bit 31 v)) AND 1)) = (v :: u32)"
proof -
  define d where "d = push_bit 1 v"
  have two: "2 * v = d"
    by (simp add: d_def)
  have bit_d: "bit d n \<longleftrightarrow> 1 \<le> n \<and> n < 32 \<and> bit v (n - 1)" for n
    unfolding d_def bit_push_bit_iff by auto
  have high: "drop_bit 31 v = (if bit v 31 then 1 else 0)"
  proof (rule bit_word_eqI)
    fix n
    show "bit (drop_bit 31 v) n = bit (if bit v 31 then 1 else 0) n"
      by (cases n) (auto simp: bit_simps dest: bit_imp_le_length)
  qed
  show ?thesis
  proof (cases "bit v 31")
    case True
    have "drop_bit 1 (NOT d) = take_bit 31 (NOT v)"
      by (rule bit_word_eqI) (auto simp: bit_simps bit_d)
    moreover have "NOT (take_bit 31 (NOT v)) = v"
    proof (rule bit_word_eqI)
      fix n
      assume "n < LENGTH(32)"
      then show "bit (NOT (take_bit 31 (NOT v))) n = bit v n"
        using True by (cases "n = 31") (auto simp: bit_simps bit_d)
    qed
    moreover have "NOT d AND 1 = 1"
      by (rule bit_word_eqI) (auto simp: bit_simps bit_d)
    ultimately show ?thesis
      using True unfolding two high by (simp only: if_True bit.xor_one_right)
  next
    case False
    have "drop_bit 1 d = v"
    proof (rule bit_word_eqI)
      fix n
      assume "n < LENGTH(32)"
      then show "bit (drop_bit 1 d) n = bit v n"
        using False by (cases "n = 31") (auto simp: bit_simps bit_d)
    qed
    moreover have "d AND 1 = 0"
      by (rule bit_word_eqI) (auto simp: bit_simps bit_d)
    ultimately show ?thesis
      using False unfolding two high by simp
  qed
qed

lemma get_sleb128_sleb128: "get_sleb128 (sleb128 v @ rest) = Some (v, length (sleb128 v))"
  by (simp only: get_sleb128_def sleb128_def get_leb128_leb128 Option.bind.bind_lunit prod.case zigzag)

lemma get_leb128_loop_bound: "get_leb128_loop xs acc i = Some (w, n) \<Longrightarrow> n \<le> 5"
  by (induction xs acc i rule: get_leb128_loop.induct) (auto simp: Let_def split: if_splits)

lemma leb128_length: "length (leb128 v) \<le> 5" "leb128 v \<noteq> []"
  using get_leb128_loop_bound [of "leb128 v @ []" 0 0] get_leb128_leb128 [of v "[]"]
  by (simp_all add: get_leb128_def leb128.simps [of v])

section \<open>Writing the table\<close>

text \<open>What a sequence of writes does to the buffer unless an allocation fails.\<close>

definition grows :: "u8 list \<Rightarrow> 'o DynBuf \<Rightarrow> 'o DynBuf \<Rightarrow> bool" where
  "grows data s s' \<longleftrightarrow> dbuf_ok s' \<and> (db_error s \<longrightarrow> db_error s') \<and> length (contents s') \<le> length (contents s) + length data \<and>
     (\<not> db_error s' \<longrightarrow> contents s' = contents s @ data)"

lemma grows_trans: "grows x s s' \<Longrightarrow> grows y s' s'' \<Longrightarrow> grows (x @ y) s s''"
  by (auto simp: grows_def)

lemma grows_refl: "dbuf_ok s \<Longrightarrow> grows [] s s"
  by (simp add: grows_def)

lemma ok_unit: "ok m Q \<longleftrightarrow> (\<exists>s. m = Some ((), s) \<and> Q () s)"
  by (auto simp: ok_def)

text \<open>The bytes of one entry and of the whole table.\<close>

definition entry_bytes :: "u32 \<Rightarrow> int \<Rightarrow> int \<Rightarrow> u8 list" where
  "entry_bytes diff_pc diff_line diff_col =
     (if diff_line \<ge> - 1 \<and> diff_line < 4 \<and> sint diff_pc \<le> 50
      then [word_of_int (diff_line + 1 + sint diff_pc * 5 + 1)]
      else 0 # leb128 diff_pc @ sleb128 (word_of_int diff_line)) @ sleb128 (word_of_int diff_col)"

lemma sleb128_length: "length (sleb128 v) \<le> 5"
  by (simp add: sleb128_def leb128_length)

lemma entry_bytes_length: "length (entry_bytes p l c) \<le> 16"
  using leb128_length(1) [of p] sleb128_length [of "word_of_int l"] sleb128_length [of "word_of_int c"]
  by (auto simp: entry_bytes_def)

definition position :: "u8 list \<Rightarrow> u32 \<Rightarrow> int \<times> int" where
  "position buf pos = get_line_col (take (unat pos) buf)"

fun table_bytes :: "u8 list \<Rightarrow> LineNumberSlot list \<Rightarrow> u32 \<Rightarrow> int \<times> int \<Rightarrow> u8 list" where
  "table_bytes buf [] last_pc lp = []"
| "table_bytes buf (slot # slots) last_pc lp =
     (let p = position buf (slot_source_pos slot); diff_pc = slot_pc slot - last_pc
      in if slot_source_pos slot = - 1 \<or> sint diff_pc < 0 \<or> p = lp then table_bytes buf slots last_pc lp
         else entry_bytes diff_pc (fst p - fst lp) (snd p - snd lp) @ table_bytes buf slots (slot_pc slot) p)"

context realloc_contract
begin

lemma putc_grows:
  assumes "dbuf_ok s" and "length (contents s) + 1 < 2 ^ 64"
  shows "ok (dbuf_putc R c s) (\<lambda>_. grows [c] s)"
proof -
  have "unat (db_size s) + length [c] < 2 ^ 64"
    using assms by (simp add: length_contents)
  then have "ok (dbuf_put R [c] s) (appended [c] s)"
    using assms(1) by (rule put_ok [rotated])
  then show ?thesis
    by (auto simp: dbuf_putc_def ok_def appended_def grows_def)
qed

lemma put_leb128_grows:
  "dbuf_ok s \<Longrightarrow> length (contents s) + length (leb128 v) < 2 ^ 64 \<Longrightarrow> ok (dbuf_put_leb128 R v s) (\<lambda>_. grows (leb128 v) s)"
proof (induction v arbitrary: s rule: leb128.induct)
  case (1 v)
  show ?case
  proof (cases "drop_bit 7 v = 0")
    case True
    then show ?thesis
      using putc_grows [of s "ucast (v AND 0x7F)"] "1.prems"
      by (auto simp: dbuf_put_leb128.simps [of R v] leb128.simps [of v] ok_def Let_def)
  next
    case False
    let ?c = "ucast ((v AND 0x7F) OR 0x80)"
    have bytes: "leb128 v = ?c # leb128 (drop_bit 7 v)"
      using False by (simp add: leb128.simps [of v])
    obtain r s1 where s1: "dbuf_putc R ?c s = Some (r, s1)" "grows [?c] s s1"
      using putc_grows [of s ?c] "1.prems" bytes by (auto simp: ok_def)
    then have "dbuf_ok s1" "length (contents s1) + length (leb128 (drop_bit 7 v)) < 2 ^ 64"
      using "1.prems"(2) bytes by (auto simp: grows_def)
    from "1.IH" [OF False this] obtain s2 where "dbuf_put_leb128 R (drop_bit 7 v) s1 = Some ((), s2)" "grows (leb128 (drop_bit 7 v)) s1 s2"
      by (auto simp: ok_unit)
    then show ?thesis
      using False s1 grows_trans [OF s1(2)] bytes by (fastforce simp: dbuf_put_leb128.simps [of R v] Let_def)
  qed
qed

lemma put_sleb128_grows:
  "dbuf_ok s \<Longrightarrow> length (contents s) + 5 < 2 ^ 64 \<Longrightarrow> ok (dbuf_put_sleb128 R v s) (\<lambda>_. grows (sleb128 v) s)"
  unfolding dbuf_put_sleb128_def sleb128_def by (rule put_leb128_grows) (use leb128_length(1) [of "(2 * v) XOR (- drop_bit 31 v)"] in simp_all)

lemma put_entry_grows:
  assumes "dbuf_ok s" and "length (contents s) + 16 < 2 ^ 64"
  shows "ok (put_pc2line_entry R diff_pc diff_line diff_col s) (\<lambda>_. grows (entry_bytes diff_pc diff_line diff_col) s)"
proof -
  note put = putc_grows put_leb128_grows put_sleb128_grows
  have tail: "ok (dbuf_put_sleb128 R v s') (\<lambda>_. grows (xs @ sleb128 v) s)" if "grows xs s s'" "length xs \<le> 11" for v s' xs
  proof -
    have "ok (dbuf_put_sleb128 R v s') (\<lambda>_. grows (sleb128 v) s')"
      using that assms(2) by (intro put_sleb128_grows) (auto simp: grows_def)
    then show ?thesis
      using grows_trans [OF that(1)] by (auto simp: ok_def)
  qed
  show ?thesis
  proof (cases "diff_line \<ge> - 1 \<and> diff_line < 4 \<and> sint diff_pc \<le> 50")
    case True
    let ?c = "word_of_int (diff_line + 1 + sint diff_pc * 5 + 1)"
    obtain r s1 where "dbuf_putc R ?c s = Some (r, s1)" "grows [?c] s s1"
      using putc_grows [OF assms(1), of ?c] assms(2) by (auto simp: ok_def)
    then show ?thesis
      using True tail [of "[?c]" s1] by (simp add: put_pc2line_entry_def entry_bytes_def)
  next
    case False
    obtain r s1 where s1: "dbuf_putc R 0 s = Some (r, s1)" "grows [0] s s1"
      using putc_grows [OF assms(1), of 0] assms(2) by (auto simp: ok_def)
    obtain s2 where s2: "dbuf_put_leb128 R diff_pc s1 = Some ((), s2)" "grows (leb128 diff_pc) s1 s2"
      using put_leb128_grows [of s1 diff_pc] s1(2) assms(2) leb128_length(1) [of diff_pc] by (auto simp: ok_unit grows_def)
    have 2: "grows (0 # leb128 diff_pc) s s2"
      using grows_trans [OF s1(2) s2(2)] by simp
    obtain s3 where s3: "dbuf_put_sleb128 R (word_of_int diff_line) s2 = Some ((), s3)"
      "grows ((0 # leb128 diff_pc) @ sleb128 (word_of_int diff_line)) s s3"
      using tail [OF 2, of "word_of_int diff_line"] leb128_length(1) [of diff_pc] by (auto simp: ok_unit)
    have "length ((0 # leb128 diff_pc) @ sleb128 (word_of_int diff_line)) \<le> 11"
      using leb128_length(1) [of diff_pc] sleb128_length [of "word_of_int diff_line"] by simp
    from tail [OF s3(2) this] show ?thesis
      using False s1(1) s2(1) s3(1) by (auto simp: put_pc2line_entry_def entry_bytes_def)
  qed
qed

lemma pc2line_loop_grows:
  assumes "cache_ok buf cache" and "dbuf_ok d" and "length (contents d) + 16 * length slots < 2 ^ 64"
    and "\<forall>slot \<in> set slots. slot_source_pos slot = - 1 \<or> unat (slot_source_pos slot) \<le> length buf"
  shows "\<exists>cache' d'. pc2line_loop R buf slots last_pc (fst p) (snd p) cache d = Some (cache', d') \<and> cache_ok buf cache' \<and>
    grows (table_bytes buf slots last_pc p) d d'"
  using assms
proof (induction slots arbitrary: last_pc p cache d)
  case Nil
  then show ?case
    by (simp add: grows_refl)
next
  case (Cons slot slots)
  let ?diff = "slot_pc slot - last_pc"
  let ?q = "position buf (slot_source_pos slot)"
  show ?case
  proof (cases "slot_source_pos slot = - 1 \<or> sint ?diff < 0")
    case True
    then show ?thesis
      using Cons.IH [OF Cons.prems(1,2), of last_pc p] Cons.prems(3,4) by auto
  next
    case False
    then obtain c1 where c1: "get_line_col_cached buf cache (unat (slot_source_pos slot)) = Some (?q, c1)" "cache_ok buf c1"
      using get_line_col_cached_correct [OF Cons.prems(1)] Cons.prems(4) unfolding position_def by fastforce
    show ?thesis
    proof (cases "?q = p")
      case True
      then show ?thesis
        using False c1 Cons.IH [OF c1(2) Cons.prems(2), of last_pc p] Cons.prems(3,4)
        by (auto simp: Let_def split: prod.splits)
    next
      case diff: False
      obtain d1 where d1: "put_pc2line_entry R ?diff (fst ?q - fst p) (snd ?q - snd p) d = Some ((), d1)"
        "grows (entry_bytes ?diff (fst ?q - fst p) (snd ?q - snd p)) d d1"
        using put_entry_grows [OF Cons.prems(2), of ?diff] Cons.prems(3) by (auto simp: ok_unit)
      have "dbuf_ok d1" "length (contents d1) + 16 * length slots < 2 ^ 64"
        using d1(2) entry_bytes_length [of ?diff "fst ?q - fst p" "snd ?q - snd p"] Cons.prems(3) by (auto simp: grows_def)
      from Cons.IH [OF c1(2) this, of "slot_pc slot" ?q] obtain c2 d2 where
        "pc2line_loop R buf slots (slot_pc slot) (fst ?q) (snd ?q) c1 d1 = Some (c2, d2)" "cache_ok buf c2"
        "grows (table_bytes buf slots (slot_pc slot) ?q) d1 d2"
        using Cons.prems(4) by auto
      then show ?thesis
        using False diff c1 d1 grows_trans [OF d1(2)] by (auto simp: Let_def prod_eq_iff split: prod.splits)
    qed
  qed
qed

end

section \<open>Reading the table\<close>

lemma small_op:
  assumes "- 1 \<le> l" and "l < 4" and "0 \<le> p" and "p \<le> 50"
  defines "b \<equiv> word_of_int (l + 1 + p * 5 + 1) :: u8"
  shows "b \<noteq> 0" and "(ucast b - 1 :: u32) div 5 = word_of_int p" and "(ucast b - 1 :: u32) mod 5 + - 1 = word_of_int l"
proof -
  define n where "n = nat (l + 1 + p * 5)"
  have n: "int n = l + 1 + p * 5" "n \<le> 254"
    using assms(1-4) by (simp_all add: n_def)
  have b: "b = of_nat (n + 1)"
    unfolding b_def n(1) [symmetric] by simp
  have ub: "unat b = n + 1"
    unfolding b using n(2) by (simp only: unat_of_nat) simp
  then show "b \<noteq> 0"
    by auto
  have "(ucast b :: u32) = of_nat (n + 1)"
    unfolding ub [symmetric] by simp
  then have d: "(ucast b - 1 :: u32) = of_nat n"
    by simp
  have u: "unat (of_nat n :: u32) = n"
    using n(2) by (simp only: unat_of_nat) simp
  have small: "unat (of_nat m :: u32) = m" if "m \<le> 254" for m
    using that by (simp only: unat_of_nat) simp
  have "of_nat n div (5 :: u32) = of_nat (n div 5)" "of_nat n mod (5 :: u32) = of_nat (n mod 5)"
    using n(2) by (simp_all add: word_unat_eq_iff unat_div unat_mod small)
  moreover have "(l + 1) div 5 = 0" "(l + 1) mod 5 = l + 1"
    using assms(1,2) by simp_all
  then have "int (n div 5) = p" "int (n mod 5) = l + 1"
    using n(1) by (simp_all add: zdiv_int zmod_int)
  then have "of_nat (n div 5) = (word_of_int p :: u32)" "of_nat (n mod 5) = (word_of_int (l + 1) :: u32)"
    by (metis of_int_of_nat_eq)+
  ultimately show "(ucast b - 1 :: u32) div 5 = word_of_int p" "(ucast b - 1 :: u32) mod 5 + - 1 = word_of_int l"
    unfolding d by simp_all
qed

text \<open>The bytes of an entry, followed by others, give back the differences.\<close>

lemma entry_decode:
  assumes "0 \<le> sint diff"
  shows "\<exists>b xs. entry_bytes diff dl dc @ rest = b # xs \<and>
    (\<exists>p. pc2line_op b xs pc line = Some (pc + diff, line + word_of_int dl, p) \<and>
      get_sleb128 p = Some (word_of_int dc, length (sleb128 (word_of_int dc))) \<and> drop (length (sleb128 (word_of_int dc))) p = rest)"
proof (cases "- 1 \<le> dl \<and> dl < 4 \<and> sint diff \<le> 50")
  case True
  have op: "word_of_int (dl + 1 + sint diff * 5 + 1) \<noteq> (0 :: u8)"
    "(ucast (word_of_int (dl + 1 + sint diff * 5 + 1) :: u8) - 1 :: u32) div 5 = diff"
    "(ucast (word_of_int (dl + 1 + sint diff * 5 + 1) :: u8) - 1 :: u32) mod 5 + - 1 = word_of_int dl"
    using small_op [of dl "sint diff"] True assms by simp_all
  have "pc2line_op b p pc line = Some (pc + diff, line + word_of_int dl, p)"
    if "b \<noteq> 0" "(ucast b - 1 :: u32) div 5 = diff" "(ucast b - 1 :: u32) mod 5 + - 1 = word_of_int dl" for b p
    using that by (simp only: pc2line_op_def if_False Let_def of_int_1 of_int_numeral of_int_minus add.assoc)
  from this [OF op] have "pc2line_op (word_of_int (dl + 1 + sint diff * 5 + 1)) p pc line = Some (pc + diff, line + word_of_int dl, p)" for p .
  then show ?thesis
    using True get_sleb128_sleb128 [of "word_of_int dc" rest] by (simp add: entry_bytes_def)
next
  case False
  have "pc2line_op 0 (leb128 diff @ sleb128 (word_of_int dl) @ ys) pc line = Some (pc + diff, line + word_of_int dl, ys)" for ys
    by (simp add: pc2line_op_def get_leb128_leb128 get_sleb128_sleb128)
  then show ?thesis
    using False get_sleb128_sleb128 [of "word_of_int dc" rest] by (auto simp: entry_bytes_def)
qed

text \<open>The position of the last slot whose address is not greater, which are the first ones.\<close>

definition position_at :: "u8 list \<Rightarrow> LineNumberSlot list \<Rightarrow> u32 \<Rightarrow> int \<times> int \<Rightarrow> int \<times> int" where
  "position_at buf slots pc p =
     last (p # map (\<lambda>slot. position buf (slot_source_pos slot)) (filter (\<lambda>slot. slot_pc slot \<le> pc \<and> slot_source_pos slot \<noteq> - 1) slots))"

lemma position_at_Cons:
  "position_at buf (slot # slots) pc p =
    (if slot_pc slot \<le> pc \<and> slot_source_pos slot \<noteq> - 1 then position_at buf slots pc (position buf (slot_source_pos slot))
     else position_at buf slots pc p)"
  by (simp add: position_at_def)

lemma position_at_none: "\<forall>slot \<in> set slots. pc < slot_pc slot \<Longrightarrow> position_at buf slots pc p = p"
  by (induction slots) (auto simp: position_at_def)

definition slots_ok :: "LineNumberSlot list \<Rightarrow> bool" where
  "slots_ok slots \<longleftrightarrow> sorted (map slot_pc slots) \<and> (\<forall>slot \<in> set slots. slot_pc slot < 2 ^ 31)"

definition counted :: "int \<times> int \<Rightarrow> u32 \<times> u32" where
  "counted p = (word_of_int (fst p) + 1, word_of_int (snd p) + 1)"

lemma diff_nonneg:
  assumes "last_pc \<le> pc" and "pc < (2 ^ 31 :: u32)"
  shows "0 \<le> sint (pc - last_pc)"
proof -
  have "unat (pc - last_pc) = unat pc - unat last_pc" "unat pc < 2 ^ 31"
    using assms by (simp_all add: unat_sub word_less_nat_alt)
  then have "uint (pc - last_pc) < 2 ^ 31"
    by (simp add: uint_nat)
  moreover have "signed_take_bit 31 z = z" if "0 \<le> z" "z < 2 ^ 31" for z :: int
    using that by (intro signed_take_bit_int_eq_self) simp_all
  ultimately have "sint (pc - last_pc) = uint (pc - last_pc)"
    by (simp add: sint_uint)
  then show ?thesis
    by simp
qed

lemma find_line_loop_table:
  assumes "slots_ok slots" and "\<forall>slot \<in> set slots. last_pc \<le> slot_pc slot" and "last_pc \<le> pc_value"
  shows "find_line_loop pc_value (table_bytes buf slots last_pc p) last_pc (fst (counted p)) (snd (counted p)) =
    Some (counted (position_at buf slots pc_value p))"
  using assms
proof (induction slots arbitrary: last_pc p)
  case Nil
  show ?case
    by (simp add: find_line_loop.simps [of pc_value] position_at_def)
next
  case (Cons slot slots)
  let ?diff = "slot_pc slot - last_pc" and ?q = "position buf (slot_source_pos slot)"
  have ok: "slots_ok slots" "0 \<le> sint ?diff" "\<forall>s \<in> set slots. slot_pc slot \<le> slot_pc s"
    using Cons.prems diff_nonneg [of last_pc "slot_pc slot"] by (auto simp: slots_ok_def)
  have later: "\<forall>s \<in> set slots. last_pc \<le> slot_pc s"
    using Cons.prems(2) by simp
  consider (skip) "slot_source_pos slot = - 1" | (same) "slot_source_pos slot \<noteq> - 1" "?q = p"
    | (entry) "slot_source_pos slot \<noteq> - 1" "?q \<noteq> p"
    by blast
  then show ?case
  proof cases
    case skip
    then show ?thesis
      using Cons.IH [OF ok(1) later Cons.prems(3), of p] by (simp add: position_at_Cons)
  next
    case same
    then show ?thesis
      using Cons.IH [OF ok(1) later Cons.prems(3), of p] ok(2) by (auto simp: position_at_Cons)
  next
    case entry
    let ?rest = "table_bytes buf slots (slot_pc slot) ?q"
    have bytes: "table_bytes buf (slot # slots) last_pc p = entry_bytes ?diff (fst ?q - fst p) (snd ?q - snd p) @ ?rest"
      using entry ok(2) by (simp add: Let_def)
    obtain b xs ys where dec: "table_bytes buf (slot # slots) last_pc p = b # xs"
      "pc2line_op b xs last_pc (fst (counted p)) = Some (last_pc + ?diff, fst (counted p) + word_of_int (fst ?q - fst p), ys)"
      "get_sleb128 ys = Some (word_of_int (snd ?q - snd p), length (sleb128 (word_of_int (snd ?q - snd p))))"
      "drop (length (sleb128 (word_of_int (snd ?q - snd p)))) ys = ?rest"
      using entry_decode [OF ok(2), of "fst ?q - fst p" "snd ?q - snd p" ?rest last_pc "fst (counted p)"] bytes by auto
    have next_pos: "fst (counted p) + word_of_int (fst ?q - fst p) = fst (counted ?q)" "snd (counted p) + word_of_int (snd ?q - snd p) = snd (counted ?q)"
      by (simp_all add: counted_def)
    show ?thesis
    proof (cases "pc_value < slot_pc slot")
      case True
      then have "\<forall>s \<in> set (slot # slots). pc_value < slot_pc s"
        using ok(3) by auto
      then have "position_at buf (slot # slots) pc_value p = p"
        by (rule position_at_none)
      then show ?thesis
        using True dec by (simp add: find_line_loop.simps [of pc_value "b # xs"])
    next
      case False
      have pc: "last_pc + ?diff = slot_pc slot"
        by simp
      have "find_line_loop pc_value (b # xs) last_pc (fst (counted p)) (snd (counted p)) =
          find_line_loop pc_value ?rest (slot_pc slot) (fst (counted ?q)) (snd (counted ?q))"
        using False by (simp only: find_line_loop.simps [of pc_value "b # xs"] list.case option.case prod.case dec(2-4) next_pos pc if_False)
      then show ?thesis
        unfolding dec(1) using False [unfolded not_less] Cons.IH [OF ok(1,3), of ?q] entry(1) by (simp add: position_at_Cons)
    qed
  qed
qed

section \<open>The whole table\<close>

lemma find_line_num_table:
  assumes "slots_ok slots"
  shows "find_line_num (Some (leb128 (word_of_int (fst p)) @ leb128 (word_of_int (snd p)) @ table_bytes buf slots 0 p)) pc =
    counted (if pc = - 1 then p else position_at buf slots pc p)"
proof -
  have "find_line_loop pc (table_bytes buf slots 0 p) 0 (word_of_int (fst p) + 1) (word_of_int (snd p) + 1) =
      Some (counted (position_at buf slots pc p))"
    using find_line_loop_table [OF assms, of 0 pc buf p] by (simp add: counted_def)
  then show ?thesis
    by (simp add: find_line_num_def get_leb128_leb128 counted_def)
qed

definition slots_of :: "'o JSFunctionDef \<Rightarrow> LineNumberSlot list" where
  "slots_of s = (case line_number_slots s of None \<Rightarrow> [] | Some slots \<Rightarrow> slots)"

context realloc_contract
begin

lemma compute_pc2line_info_ok:
  assumes "\<not> strip_debug s" and "cache_ok buf (get_line_col_cache s)" and "unat (source_pos s) \<le> length buf"
    and "\<forall>slot \<in> set (slots_of s). slot_source_pos slot = - 1 \<or> unat (slot_source_pos slot) \<le> length buf"
    and "length (slots_of s) < 2 ^ 31"
  shows "\<exists>s'. compute_pc2line_info R buf rt s = Some s' \<and> cache_ok buf (get_line_col_cache s') \<and> dbuf_ok (pc2line s') \<and>
    (\<not> db_error (pc2line s') \<longrightarrow>
      contents (pc2line s') = (let p = position buf (source_pos s) in
        leb128 (word_of_int (fst p)) @ leb128 (word_of_int (snd p)) @ table_bytes buf (slots_of s) 0 p))"
proof -
  let ?p = "position buf (source_pos s)"
  obtain c1 where c1: "get_line_col_cached buf (get_line_col_cache s) (unat (source_pos s)) = Some (?p, c1)" "cache_ok buf c1"
    using get_line_col_cached_correct [OF assms(2,3)] by (auto simp: position_def)
  have d0: "dbuf_ok (dbuf_init2 rt)" "contents (dbuf_init2 rt) = []"
    by (simp_all add: dbuf_init2_def dbuf_ok_def contents_def)
  obtain d1 where d1: "dbuf_put_leb128 R (word_of_int (fst ?p)) (dbuf_init2 rt) = Some ((), d1)"
    "grows (leb128 (word_of_int (fst ?p))) (dbuf_init2 rt) d1"
    using put_leb128_grows [OF d0(1), of "word_of_int (fst ?p)"] d0(2) leb128_length(1) [of "word_of_int (fst ?p)"] by (auto simp: ok_unit)
  have ok1: "dbuf_ok d1" "length (contents d1) \<le> 5"
    using d1(2) d0(2) leb128_length(1) [of "word_of_int (fst ?p)"] by (auto simp: grows_def)
  obtain d2 where d2: "dbuf_put_leb128 R (word_of_int (snd ?p)) d1 = Some ((), d2)" "grows (leb128 (word_of_int (snd ?p))) d1 d2"
    using put_leb128_grows [OF ok1(1), of "word_of_int (snd ?p)"] ok1(2) leb128_length(1) [of "word_of_int (snd ?p)"] by (auto simp: ok_unit)
  have ok2: "dbuf_ok d2" "length (contents d2) + 16 * length (slots_of s) < 2 ^ 64"
    using d2(2) ok1(2) leb128_length(1) [of "word_of_int (snd ?p)"] assms(5) by (auto simp: grows_def)
  obtain c3 d3 where d3: "pc2line_loop R buf (slots_of s) 0 (fst ?p) (snd ?p) c1 d2 = Some (c3, d3)" "cache_ok buf c3"
    "grows (table_bytes buf (slots_of s) 0 ?p) d2 d3"
    using pc2line_loop_grows [OF c1(2) ok2 assms(4), of 0 ?p] by blast
  have "grows (leb128 (word_of_int (fst ?p)) @ leb128 (word_of_int (snd ?p)) @ table_bytes buf (slots_of s) 0 ?p) (dbuf_init2 rt) d3"
    by (rule grows_trans [OF d1(2) grows_trans [OF d2(2) d3(3)]])
  moreover have "compute_pc2line_info R buf rt s = Some (s\<lparr>get_line_col_cache := c3, pc2line := d3\<rparr>)"
    using assms(1) c1(1) d1(1) d2(1) d3(1) by (cases ?p) (simp add: compute_pc2line_info_def slots_of_def)
  ultimately show ?thesis
    using d3(2) d0(2) by (auto simp: grows_def Let_def)
qed

end

text \<open>The slots are recorded with ascending addresses.\<close>

definition recorded :: "'o JSFunctionDef \<Rightarrow> bool" where
  "recorded s \<longleftrightarrow> sorted (map slot_pc (slots_of s)) \<and> (\<forall>slot \<in> set (slots_of s). slot_pc slot \<le> line_number_last_pc s) \<and>
     length (slots_of s) \<le> line_number_size s"

lemma add_pc2line_info_recorded: "recorded s \<Longrightarrow> recorded (add_pc2line_info s pc pos)"
  by (auto simp: recorded_def add_pc2line_info_def slots_of_def sorted_append intro: order_trans split: option.splits)

end
