(* ===== verification/LineNumber_Claims.thy ===== *)
theory LineNumber_Claims
  imports LineNumber_Facts
begin

text \<open>
  What the compiler and the error reports rely on: the cached position of a place in the source is the exact
  one, and the table of a function leads from an address back to the position it was recorded for.
\<close>

section \<open>Positions\<close>

text \<open>A sequence of questions to one cache.\<close>

fun ask_positions :: "u8 list \<Rightarrow> nat list \<Rightarrow> GetLineColCache \<Rightarrow> (int \<times> int) list option" where
  "ask_positions buf [] s = Some []"
| "ask_positions buf (p # ps) s =
     do { (r, s) \<leftarrow> get_line_col_cached buf s p; rs \<leftarrow> ask_positions buf ps s; Some (r # rs) }"

lemma ask_positions_correct:
  assumes "cache_ok buf s" and "\<forall>p \<in> set ps. p \<le> length buf"
  shows "ask_positions buf ps s = Some (map (\<lambda>p. get_line_col (take p buf)) ps)"
  using assms
proof (induction ps arbitrary: s)
  case (Cons p ps)
  then obtain s' where "get_line_col_cached buf s p = Some (get_line_col (take p buf), s')" "cache_ok buf s'"
    using get_line_col_cached_correct [of buf s p] by auto
  then show ?case
    using Cons by simp
qed simp

text \<open>
  C37. The cache of \<open>get_line_col_cached\<close> changes no answer: whatever places are asked for in whatever order, forwards
  and backwards, the answers are those of \<open>get_line_col\<close> from the start of the source, and none of the counts
  exceeds the length of the source. So for a source of less than \<open>2 ^ 31\<close> bytes no \<open>int\<close> of the code overflows.
\<close>

theorem cached_positions_exact:
  assumes "\<forall>p \<in> set ps. p \<le> length buf"
  shows "ask_positions buf ps \<lparr>gl_ptr = 0, gl_line_num = 0, gl_col_num = 0\<rparr> = Some (map (\<lambda>p. get_line_col (take p buf)) ps) \<and>
    (\<forall>p \<in> set ps. 0 \<le> fst (get_line_col (take p buf)) \<and> 0 \<le> snd (get_line_col (take p buf)) \<and>
      fst (get_line_col (take p buf)) + snd (get_line_col (take p buf)) \<le> int (length buf))"
proof -
  have "cache_ok buf \<lparr>gl_ptr = 0, gl_line_num = 0, gl_col_num = 0\<rparr>"
    by (simp add: cache_ok_def get_line_col_def)
  moreover have "fst (get_line_col (take p buf)) + snd (get_line_col (take p buf)) \<le> int (length buf)" if "p \<in> set ps" for p
    using get_line_col_bounds(3) [of "take p buf"] by simp
  ultimately show ?thesis
    using ask_positions_correct assms get_line_col_bounds(1,2) by blast
qed

text \<open>Forwards over a line end, and back before it.\<close>

theorem cached_positions_exact_witness:
  "ask_positions [97, 10, 98] [3, 1] \<lparr>gl_ptr = 0, gl_line_num = 0, gl_col_num = 0\<rparr> = Some [(1, 1), (0, 1)]"
  using cached_positions_exact [of "[3, 1]" "[97, 10, 98]"] by (simp add: get_line_col_def)

section \<open>The table of a function\<close>

text \<open>
  C36. Round trip of the table of line numbers: if no allocation failed, \<open>find_line_num\<close> on the table that
  \<open>compute_pc2line_info\<close> wrote returns, for every address, the line and the column of the last slot that is not behind the
  address, and the place of the function itself before the first slot and for the address \<open>-1\<close>. The compact
  and the long form of the entries and LEB128 with its zigzag form for signed numbers are exact. The slots have
  ascending addresses below \<open>2 ^ 31\<close>, as \<open>add_pc2line_info\<close> records them.
\<close>

theorem line_table_roundtrip:
  assumes "realloc_contract R" and "\<not> strip_debug s" and "cache_ok buf (get_line_col_cache s)"
    and "unat (source_pos s) \<le> length buf"
    and "\<forall>slot \<in> set (slots_of s). slot_source_pos slot = - 1 \<or> unat (slot_source_pos slot) \<le> length buf"
    and "slots_ok (slots_of s)" and "length (slots_of s) < 2 ^ 31"
  shows "\<exists>s'. compute_pc2line_info R buf rt s = Some s' \<and> cache_ok buf (get_line_col_cache s') \<and>
    (\<not> db_error (pc2line s') \<longrightarrow>
      find_line_num (Some (contents (pc2line s'))) pc =
        counted (if pc = - 1 then position buf (source_pos s)
                 else position_at buf (slots_of s) pc (position buf (source_pos s))))"
proof -
  obtain s' where "compute_pc2line_info R buf rt s = Some s'" "cache_ok buf (get_line_col_cache s')"
    "\<not> db_error (pc2line s') \<Longrightarrow> contents (pc2line s') = (let p = position buf (source_pos s) in
        leb128 (word_of_int (fst p)) @ leb128 (word_of_int (snd p)) @ table_bytes buf (slots_of s) 0 p)"
    using realloc_contract.compute_pc2line_info_ok [OF assms(1-5,7)] by blast
  then show ?thesis
    using find_line_num_table [OF assms(6), of "position buf (source_pos s)" buf pc] by (auto simp: Let_def)
qed

text \<open>A function at the start of the source, with an instruction at address 3 on the second line.\<close>

definition sample_function :: "c_heap JSFunctionDef" where
  "sample_function =
     add_pc2line_info
       \<lparr>line_number_slots = Some [], line_number_size = 1, line_number_last = - 1, line_number_last_pc = 0, strip_debug = False,
        source_pos = 0, get_line_col_cache = \<lparr>gl_ptr = 0, gl_line_num = 0, gl_col_num = 0\<rparr>, pc2line = dbuf_init2 (\<lparr>heap_grants = [], heap_fill = \<lambda>_. 0\<rparr>)\<rparr>
       3 2"

text \<open>The allocator grants every request, and no write fails.\<close>

definition sample_heap :: c_heap where
  "sample_heap = \<lparr>heap_grants = replicate 8 True, heap_fill = \<lambda>_. 0\<rparr>"

lemma sample_table:
  "map_option (\<lambda>s. (db_error (pc2line s), contents (pc2line s)))
     (compute_pc2line_info dbuf_default_realloc [97, 10, 98] sample_heap sample_function) = Some (False, [0, 0, 18, 0])"
  by code_simp

theorem line_table_roundtrip_witness:
  "\<exists>s'. compute_pc2line_info dbuf_default_realloc [97, 10, 98] sample_heap sample_function = Some s' \<and>
    \<not> db_error (pc2line s') \<and> contents (pc2line s') = [0, 0, 18, 0] \<and>
    find_line_num (Some (contents (pc2line s'))) 5 = (2, 1)"
proof -
  have s: "\<not> strip_debug sample_function" "get_line_col_cache sample_function = \<lparr>gl_ptr = 0, gl_line_num = 0, gl_col_num = 0\<rparr>"
    "source_pos sample_function = 0" "slots_of sample_function = [\<lparr>slot_pc = 3, slot_source_pos = 2\<rparr>]"
    by (simp_all add: sample_function_def add_pc2line_info_def slots_of_def)
  have "counted (position_at [97, 10, 98] [\<lparr>slot_pc = 3, slot_source_pos = 2\<rparr>] 5 (position [97, 10, 98] 0)) = (2, 1)"
    by (simp add: position_at_def position_def get_line_col_def counted_def)
  moreover obtain s' where "compute_pc2line_info dbuf_default_realloc [97, 10, 98] sample_heap sample_function = Some s'"
    "\<not> db_error (pc2line s')" "contents (pc2line s') = [0, 0, 18, 0]"
    using sample_table by auto
  ultimately show ?thesis
    using line_table_roundtrip [OF libc.realloc_contract_axioms s(1), of "[97, 10, 98]" sample_heap 5]
    by (auto simp: s cache_ok_def get_line_col_def slots_ok_def)
qed

end
