(* ===== verification/Spec2Isabelle.thy ===== *)
theory Spec2Isabelle
  imports Bridge_Claims CharRange_Claims IntrusiveLists Utf8 Equality_Claims LineNumber_Claims
begin

text \<open>
  Verification of the native part of the Cangjie/JavaScript interoperability library.

  \<^bold>\<open>The program.\<close> A Cangjie program runs JavaScript through a C library,
  \<^verbatim>\<open>src/native/bridge/quickjs_bridge.c\<close>. The library hands out opaque handles: a runtime (a QuickJS
  runtime with its context and the text of the last error) and values of a runtime. It translates every
  request into calls of the QuickJS engine, \<^verbatim>\<open>src/native/quickjs\<close>. The engine computes on values
  (\<^verbatim>\<open>quickjs.h\<close>), on numbers and BigInts (\<^verbatim>\<open>quickjs.c\<close>), converts integers to text (\<^verbatim>\<open>dtoa.c\<close>), and rests
  on utilities for strings, bytes, UTF-8, sorting and growing buffers (\<^verbatim>\<open>cutils.c\<close>, \<^verbatim>\<open>cutils.h\<close>), for linked lists (\<^verbatim>\<open>list.h\<close>) and for sets of
  code points (\<^verbatim>\<open>libunicode.c\<close>).

  \<^bold>\<open>Conventions\<close> (theory \<open>Prelude\<close>). Machine integers are words of their width, with the names of the
  C types (\<open>u8\<close> to \<open>u64\<close>, \<open>js_limb_t\<close>); a \<^verbatim>\<open>double\<close> is its bit pattern (\<open>f64\<close>). A C function on memory is a
  function from the state to an option of a result and the new state. \<open>None\<close> stands for undefined
  behaviour: an access outside a block of memory, to a freed block, a second release, a signed overflow, a shift by the width
  or more. Loops that the source bounds by a counter are structural recursions; loops for which C has no
  syntactic bound are \<open>partial_function (option)\<close>, where not returning is \<open>None\<close> as well. So an equation
  \<open>f x = Some y\<close> states that the function returns, stays within its memory and returns \<open>y\<close>. There is
  no fuel anywhere. Limb arrays of BigInts are lists accessed by index; that the indices are in range is part of the
  lemmas about the routines. An allocation asks an allocator that may refuse; every error path that follows is a
  branch of the model. The locales \<open>safe_machine\<close>, \<open>refining_machine\<close> and \<open>accounting_machine\<close> state once
  what it takes for a machine with a protocol of allowed calls to be safe under every sequence of calls,
  to refine a specification, and to account for what its client holds.

  \<^bold>\<open>The bridge.\<close>
  \<^item> \<open>JSValue\<close> (\<^verbatim>\<open>quickjs.h\<close>): the 64-bit struct representation, its tags, constructors and predicates.
  \<^item> \<open>Bridge_Mem\<close>: the C heap with the two handle structs and the strings, and the engine behind each
    runtime. The engine is an argument (the record \<open>js_engine\<close>), over an arbitrary state; the ownership
    convention of \<^verbatim>\<open>quickjs.h\<close> is enforced by a ledger of the references the bridge owns, and the engine runtimes and
    contexts created and not freed are counted.
  \<^item> \<open>Bridge\<close>, \<open>Bridge_Value\<close>: every function of \<^verbatim>\<open>quickjs_bridge.c\<close>, \<^verbatim>\<open>js_runtime_*\<close> and \<^verbatim>\<open>js_value_*\<close> with their
    internal helpers.
  \<^item> \<open>Bridge_Inv\<close>, \<open>Bridge_Steps\<close>, \<open>Bridge_Errors\<close>, \<open>Bridge_Handles\<close>, \<open>Bridge_Ops\<close>, \<open>Bridge_Lifecycle\<close>: the
    invariant (each live value handle counts once in its runtime and owns one reference, nothing else is
    owned), a calculus of total correctness with a rule for every internal step, and one lemma per
    exported function.
  \<^item> \<open>Bridge_Safety\<close>, \<open>Bridge_Report\<close>, \<open>Bridge_Claims\<close>: clients as sequences of allowed calls, the ledger of
    what a client holds by its calls and their results, and what it may rely on: no undefined behaviour, no leak, no
    double release, isolation of runtimes, deferred destruction, the relation of failures and error messages.

  \<^bold>\<open>Utilities.\<close>
  \<^item> \<open>Words\<close>, \<open>Bytes\<close> (\<^verbatim>\<open>cutils.h\<close>): unaligned access, byte order, surrogate pairs, hexadecimal digits, half precision.
  \<^item> \<open>CStrings\<close> (\<^verbatim>\<open>cutils.c\<close>): bounded copy and concatenation.
  \<^item> \<open>DynBuf\<close> (\<^verbatim>\<open>dbuf_*\<close>): the buffers over any reallocation function that meets the locale
    \<open>realloc_contract\<close>; any sequence of calls refines appending to a list of bytes until the first failure.
  \<^item> \<open>Utf8\<close>: encoder and decoder are inverse to each other, and the decoder stays in its input.
  \<^item> \<open>Exchange\<close>, \<open>HeapSort\<close>, \<open>QuickSort\<close>, \<open>Rqsort\<close> (\<^verbatim>\<open>rqsort\<close> in \<^verbatim>\<open>cutils.c\<close>): sorting in memory, with the exchange
    functions by element size, the heap sort that takes over when partitioning goes deep, the three-way partition
    and the explicit stack of segments. \<open>Sort_Array\<close> and \<open>Segments\<close> hold the interfaces: the locale
    \<open>sort_memory\<close> (compare and exchange as seen through an abstract array), \<open>quick_memory\<close>, and \<open>cmp_order\<close>
    (a consistent comparison). For every comparison function, \<open>rqsort\<close> returns, stays in the array and in its
    stack of 50 segments and permutes; for a consistent one it sorts.
  \<^item> \<open>Ranges\<close>, \<open>CharRange\<close>, \<open>CharRange_Facts\<close>, \<open>CharRange_Claims\<close> (\<^verbatim>\<open>cr_*\<close> in \<^verbatim>\<open>libunicode.c\<close> and \<^verbatim>\<open>libunicode.h\<close>): sets of
    code points as arrays of interval bounds. \<open>Ranges\<close> holds the set a list of bounds denotes and the
    pure counterparts of compression and merging; the operations on memory refine those of sets.
  \<^item> \<open>IntrusiveLists\<close> (\<^verbatim>\<open>list.h\<close>): the doubly linked lists, all in one memory. \<open>ring\<close> says that a head and the nodes of a
    sequence form a ring; insertion and deletion refine those of sequences and leave other lists alone, and the loops
    end on every ring.

  \<^bold>\<open>BigInts\<close> (\<^verbatim>\<open>quickjs.c\<close>, 64-bit limbs).
  \<^item> \<open>Limbs\<close>, \<open>Limbs_Div\<close>: the \<^verbatim>\<open>mp_*\<close> routines, up to long division by normalised divisors.
  \<^item> \<open>BigInt\<close>: the objects and their operations, over a context with its pending exception and allocator.
  \<^item> \<open>BigInt_Rep\<close>: the integer a limb array denotes, the normal form, and the contract \<open>returns\<close> of an
    operation that yields a BigInt. \<open>BigInt_Arith\<close>, \<open>BigInt_Div\<close>, \<open>BigInt_Bits\<close>, \<open>BigInt_Pow\<close>: the operations
    compute those of the integers. The locales \<open>bigint_binary\<close> and \<open>bigint_product\<close> are the contract the power loop needs
    of its multiplication. \<open>BigInt_Claims\<close>: the results.
  \<^item> \<open>Itoa\<close> (\<^verbatim>\<open>dtoa.c\<close>), \<open>BigInt_Text\<close>, \<open>BigInt_Print\<close>, \<open>BigInt_Read\<close>: printing in radix 2 to 36 and reading in
    radix 2, 8, 10 and 16 are exact, stay inside their buffers, and reading inverts printing.
  \<^item> \<open>F64\<close>, \<open>BigInt_Float\<close>, \<open>BigInt_FromFloat\<close>: the conversion to a double rounds to nearest even, the
    conversion from a double is exact or an error, the comparison with a double.

  \<^bold>\<open>Numbers and operators\<close> (\<^verbatim>\<open>quickjs.c\<close>).
  \<^item> \<open>F64_Ops\<close>: addition to remainder on bit patterns, as IEEE 754 defines them.
  \<^item> \<open>Numbers\<close>: values by tag over a heap of reference-counted BigInts; \<^verbatim>\<open>JS_FreeValue\<close>, \<^verbatim>\<open>JS_DupValue\<close>, the
    conversions \<^verbatim>\<open>JS_ToNumber*\<close>, \<^verbatim>\<open>JS_ToInt32*\<close>, \<^verbatim>\<open>JS_ToInt64*\<close>, \<^verbatim>\<open>JS_ToFloat64*\<close>. What the engine does with strings, symbols
    and objects is an argument, the record \<open>host\<close>.
  \<^item> \<open>Operators\<close>: the slow paths \<^verbatim>\<open>js_unary_arith_slow\<close> to \<^verbatim>\<open>js_shr_slow\<close>, and the conversions and wrap-around
    functions of the BigInt library.
  \<^item> \<open>Number_Facts\<close>: integers modulo a power of two, saturation. \<open>Operator_Facts\<close>: the contract \<open>yields\<close> of an
    operator: the integer result in canonical form, one reference taken from each operand, one given, an
    allocation balance of zero. \<open>Compare_Facts\<close>: comparisons of BigInts with any number, \<^verbatim>\<open>asIntN\<close> and \<^verbatim>\<open>asUintN\<close>.
    \<open>Number_Claims\<close>: the results.
  \<^item> \<open>Equality\<close>: \<^verbatim>\<open>js_strict_eq2\<close> and the functions on it, \<^verbatim>\<open>js_eq_slow\<close>. \<open>Conversions\<close>: \<^verbatim>\<open>JS_ToBoolFree\<close>, \<^verbatim>\<open>JS_ToUint8ClampFree\<close>,
    \<^verbatim>\<open>JS_ToArrayLengthFree\<close>, the clamped conversions. \<open>Equality_Facts\<close>: a double is determined by its value up to the sign of
    zero and the pattern of a NaN; each equality is that of a normal form, and the references of the operands are accounted
    for. \<open>Conversion_Facts\<close>: rounding to a byte, lengths. \<open>Equality_Claims\<close>: the results.

  \<^bold>\<open>Source positions\<close> (\<^verbatim>\<open>quickjs.c\<close>).
  \<^item> \<open>LineNumbers\<close>: \<^verbatim>\<open>get_line_col\<close> and its cache, LEB128, the slots of the compiler (\<^verbatim>\<open>add_pc2line_info\<close>), their encoding
    (\<^verbatim>\<open>compute_pc2line_info\<close>, into a dynamic buffer) and the lookup of an address (\<^verbatim>\<open>find_line_num\<close>).
  \<^item> \<open>LineNumber_Facts\<close>: the cache is exact, LEB128 is decoded as it was encoded, the bytes of the table. \<open>LineNumber_Claims\<close>: the
    lookup inverts the encoding.

  \<^bold>\<open>Not modelled.\<close> The interpreter loop, parser, compiler, objects and garbage collector of \<^verbatim>\<open>quickjs.c\<close>, which the bridge
  sees as the argument \<open>js_engine\<close> and the operators as the argument \<open>host\<close>; regular expressions; the Unicode tables and what
  is computed from them (case conversion, normalisation, properties); the text conversion of doubles; \<^verbatim>\<open>quickjs-libc.c\<close> and the command line tools, which are input and output; the
  configurations that are not built here (NaN boxing, 32-bit limbs). The \<open>host\<close> functions are total: a
  method that never returns is outside the model.
\<close>

end
